(* ===== verification/Prelude.thy ===== *)
theory Prelude
  imports Main
begin

text \<open>
  Shared vocabulary of the development: the checked and saturating arithmetic that the Rust
  sources use on \<open>usize\<close> (relative to a largest value \<open>umax\<close>, because the same code is
  compiled for 32-bit WebAssembly and for 64-bit servers), the error-passing loop, and the
  generic list lemmas that the components rely on.
\<close>

section \<open>Collections of rewrite rules\<close>

named_theorems arith_defs \<open>definitions of checked and saturating arithmetic\<close>
named_theorems str_defs \<open>definitions of the string primitives\<close>

section \<open>Machine arithmetic on \<open>usize\<close>\<close>

definition checked_add :: "nat \<Rightarrow> nat \<Rightarrow> nat \<Rightarrow> nat option" where
  "checked_add umax a b = (if a + b \<le> umax then Some (a + b) else None)"

definition checked_sub :: "nat \<Rightarrow> nat \<Rightarrow> nat option" where
  "checked_sub a b = (if b \<le> a then Some (a - b) else None)"

definition saturating_add :: "nat \<Rightarrow> nat \<Rightarrow> nat \<Rightarrow> nat" where
  "saturating_add umax a b = min umax (a + b)"

lemmas [arith_defs] = checked_add_def checked_sub_def saturating_add_def

lemma checked_add_SomeD: "checked_add umax a b = Some c \<Longrightarrow> c = a + b \<and> c \<le> umax"
  by (auto simp: arith_defs split: if_splits)

section \<open>Vectors: reads that are checked\<close>

definition vec_get :: "'a list \<Rightarrow> nat \<Rightarrow> 'a option" where
  "vec_get xs i = (if i < length xs then Some (xs ! i) else None)"

lemma vec_get_Some [simp]: "i < length xs \<Longrightarrow> vec_get xs i = Some (xs ! i)"
  by (simp add: vec_get_def)

lemma vec_get_None [simp]: "length xs \<le> i \<Longrightarrow> vec_get xs i = None"
  by (simp add: vec_get_def)

lemma vec_get_eq_Some: "vec_get xs i = Some x \<longleftrightarrow> i < length xs \<and> xs ! i = x"
  by (auto simp: vec_get_def)

section \<open>Values that are present in a vector of optional values\<close>

text \<open>\<open>present xs\<close> is what Rust's \<open>xs.iter().flatten()\<close> runs through.\<close>

definition present :: "'a option list \<Rightarrow> 'a list" where
  "present xs = List.map_filter id xs"

lemma present_simps [simp]:
  "present [] = []"
  "present (None # xs) = present xs"
  "present (Some x # xs) = x # present xs"
  by (simp_all add: present_def map_filter_def)

lemma present_append [simp]: "present (xs @ ys) = present xs @ present ys"
  by (simp add: present_def map_filter_def)

lemma present_map_Some [simp]: "present (map Some xs) = xs"
  by (induction xs) simp_all

lemma present_replicate_None [simp]: "present (replicate n None) = []"
  by (induction n) simp_all

lemma set_present: "set (present xs) = {x. Some x \<in> set xs}"
proof (induction xs)
  case (Cons a xs)
  then show ?case by (cases a) auto
qed simp

lemma present_all_Some: "None \<notin> set xs \<Longrightarrow> map Some (present xs) = xs"
proof (induction xs)
  case (Cons a xs)
  then show ?case by (cases a) auto
qed simp

lemma length_present_all_Some: "None \<notin> set xs \<Longrightarrow> length (present xs) = length xs"
  by (metis length_map present_all_Some)

lemma present_nth_all_Some:
  "None \<notin> set xs \<Longrightarrow> i < length xs \<Longrightarrow> xs ! i = Some (present xs ! i)"
  by (metis length_present_all_Some nth_map present_all_Some)

lemma present_split_at:
  assumes "j < length xs"
  shows "present xs = present (take j xs) @ present [xs ! j] @ present (drop (Suc j) xs)"
proof -
  have "present xs = present (take j xs @ [xs ! j] @ drop (Suc j) xs)"
    using assms by (simp flip: id_take_nth_drop)
  then show ?thesis by (simp only: present_append)
qed

lemma present_update:
  assumes "j < length xs"
  shows "present (xs[j := y]) = present (take j xs) @ present [y] @ present (drop (Suc j) xs)"
  using assms by (simp add: upd_conv_take_nth_drop del: present_simps(2,3) flip: present_append)

section \<open>Loops that can stop with an error\<close>

text \<open>
  A loop body takes the state and returns, with the new state, the error it stopped at (if
  any): what the source changed before the error stays changed.
\<close>

type_synonym ('e, 's) effect = "'s \<Rightarrow> 'e option \<times> 's"

definition and_then :: "('e, 's) effect \<Rightarrow> ('e, 's) effect \<Rightarrow> ('e, 's) effect" where
  "and_then f g s = (case f s of (Some e, s') \<Rightarrow> (Some e, s') | (None, s') \<Rightarrow> g s')"

fun for_each :: "('a \<Rightarrow> ('e, 's) effect) \<Rightarrow> 'a list \<Rightarrow> ('e, 's) effect" where
  "for_each f [] s = (None, s)"
| "for_each f (x # xs) s = (case f x s of (Some e, s') \<Rightarrow> (Some e, s') | (None, s') \<Rightarrow> for_each f xs s')"

text \<open>\<open>keeps P f\<close>: the effect \<open>f\<close> keeps \<open>P\<close>, whether or not it ends with an error.\<close>

definition keeps :: "('s \<Rightarrow> bool) \<Rightarrow> ('e, 's) effect \<Rightarrow> bool" where
  "keeps P f \<longleftrightarrow> (\<forall>s e s'. f s = (e, s') \<longrightarrow> P s \<longrightarrow> P s')"

lemma keepsI: "(\<And>s e s'. f s = (e, s') \<Longrightarrow> P s \<Longrightarrow> P s') \<Longrightarrow> keeps P f"
  by (auto simp: keeps_def)

lemma keepsD: "keeps P f \<Longrightarrow> f s = (e, s') \<Longrightarrow> P s \<Longrightarrow> P s'"
  by (auto simp: keeps_def)

lemma keeps_and_then:
  assumes "keeps P f" and "keeps P g"
  shows "keeps P (and_then f g)"
proof (rule keepsI)
  fix s e s' assume run: "and_then f g s = (e, s')" and "P s"
  obtain e1 s1 where s1: "f s = (e1, s1)" by fastforce
  then have "P s1" using keepsD [OF assms(1)] \<open>P s\<close> by blast
  with run s1 show "P s'" by (cases e1) (auto simp: and_then_def intro: keepsD [OF assms(2)])
qed

lemma keeps_for_each:
  assumes "\<And>x. keeps P (f x)"
  shows "keeps P (\<lambda>s. for_each f (xs s) s)"
proof (rule keepsI)
  have "P s'" if "for_each f ys s = (e, s')" "P s" for ys s e s'
    using that
  proof (induction ys arbitrary: s)
    case (Cons y ys)
    obtain e1 s1 where s1: "f y s = (e1, s1)" by fastforce
    then have "P s1" using keepsD [OF assms] Cons.prems(2) by blast
    with Cons s1 show ?case by (cases e1) auto
  qed simp
  then show "P s'" if "for_each f (xs s) s = (e, s')" "P s" for s e s'
    using that by blast
qed

text \<open>A loop succeeds if every round does, with what holds after so many rounds as invariant.\<close>

lemma for_each_succeeds:
  assumes "Q 0 s"
    and step: "\<And>k s. k < length xs \<Longrightarrow> Q k s \<Longrightarrow> \<exists>s'. f (xs ! k) s = (None, s') \<and> Q (Suc k) s'"
  shows "\<exists>s'. for_each f xs s = (None, s') \<and> Q (length xs) s'"
proof -
  have "\<exists>s'. for_each f (drop k xs) s = (None, s') \<and> Q (length xs) s'"
    if "k \<le> length xs" "Q k s" for k s
    using that
  proof (induction "length xs - k" arbitrary: k s)
    case (Suc d)
    then have k: "k < length xs" by simp
    then obtain s1 where "f (xs ! k) s = (None, s1)" "Q (Suc k) s1" using step Suc.prems(2) by blast
    moreover from this obtain s2 where "for_each f (drop (Suc k) xs) s1 = (None, s2)" "Q (length xs) s2"
      using Suc.hyps k by (metis Suc_leI Suc_diff_Suc diff_Suc_Suc nat.inject)
    ultimately show ?case using k by (simp add: Cons_nth_drop_Suc [symmetric])
  qed simp
  from this [of 0 s] assms(1) show ?thesis by simp
qed

lemma set_take_Suc: "k < length xs \<Longrightarrow> set (take (Suc k) xs) = insert (xs ! k) (set (take k xs))"
  by (simp add: take_Suc_conv_app_nth)

lemma nth_notin_take: "distinct xs \<Longrightarrow> k < length xs \<Longrightarrow> xs ! k \<notin> set (take k xs)"
  by (auto simp: in_set_conv_nth nth_eq_iff_index_eq)

lemma fold_append_concat: "fold (\<lambda>x acc. acc @ g x) xs acc = acc @ concat (map g xs)"
  by (induction xs arbitrary: acc) simp_all

text \<open>A loop whose body may not return.\<close>

fun fold_opt :: "('a \<Rightarrow> 's \<Rightarrow> 's option) \<Rightarrow> 'a list \<Rightarrow> 's \<Rightarrow> 's option" where
  "fold_opt f [] s = Some s"
| "fold_opt f (x # xs) s = Option.bind (f x s) (fold_opt f xs)"

text \<open>It returns if every round does, and what every round keeps and reaches holds at the end.\<close>

lemma fold_opt_total:
  assumes "P s" and "\<And>x s. x \<in> set xs \<Longrightarrow> P s \<Longrightarrow> \<exists>s'. f x s = Some s' \<and> P s'"
  shows "\<exists>s'. fold_opt f xs s = Some s' \<and> P s'"
  using assms
proof (induction xs arbitrary: s)
  case (Cons x xs)
  then obtain s1 where "f x s = Some s1" "P s1" by (meson list.set_intros(1))
  then show ?case using Cons.IH [of s1] Cons.prems(2) by simp
qed simp

lemma fold_opt_reaches:
  assumes "I s"
    and step: "\<And>x s. x \<in> set xs \<Longrightarrow> I s \<Longrightarrow> \<exists>s'. f x s = Some s' \<and> R s s' \<and> Q x s'"
    and refl: "\<And>s. R s s" and trans: "\<And>s t u. R s t \<Longrightarrow> R t u \<Longrightarrow> R s u"
    and keep: "\<And>s t. I s \<Longrightarrow> R s t \<Longrightarrow> I t" and stay: "\<And>x s t. Q x s \<Longrightarrow> R s t \<Longrightarrow> Q x t"
  shows "\<exists>s'. fold_opt f xs s = Some s' \<and> R s s' \<and> (\<forall>x \<in> set xs. Q x s')"
  using assms(1) step
proof (induction xs arbitrary: s)
  case Nil
  then show ?case using refl by simp
next
  case (Cons x xs)
  then obtain s1 where s1: "f x s = Some s1" "R s s1" "Q x s1" by (meson list.set_intros(1))
  then have "I s1" using keep Cons.prems(1) by blast
  moreover have "\<exists>s'. f y s = Some s' \<and> R s s' \<and> Q y s'" if "y \<in> set xs" "I s" for y s
    using that Cons.prems(2) by simp
  ultimately obtain s2 where "fold_opt f xs s1 = Some s2" "R s1 s2" "\<forall>x \<in> set xs. Q x s2"
    using Cons.IH [of s1] by blast
  then show ?case using s1 trans stay by auto
qed

lemma fold_opt_cong [fundef_cong]:
  "xs = ys \<Longrightarrow> s = t \<Longrightarrow> (\<And>x s. x \<in> set ys \<Longrightarrow> f x s = g x s) \<Longrightarrow> fold_opt f xs s = fold_opt g ys t"
proof (induction xs arbitrary: ys s t)
  case (Cons x xs)
  then show ?case by (cases "g x t") auto
qed simp

lemma and_then_None:
  "f s = (None, s1) \<Longrightarrow> and_then f g s = g s1"
  by (simp add: and_then_def)

lemma and_then_NoneD:
  assumes "and_then f g s = (None, s')"
  obtains s1 where "f s = (None, s1)" and "g s1 = (None, s')"
  using assms by (auto simp: and_then_def split: prod.splits option.splits)

end
