(* ===== verification/List_Diff.thy ===== *)
theory List_Diff
  imports Prelude
begin

text \<open>
  The planner of the keyed list diff: \<open>diff\<close> of \<open>halyard_tachys/src/view/list_diff.rs\<close>.
  It compares the old and the new keys of a \<open>For\<close> list and lists the rows to remove, to
  move and to build, and which of the moved rows really move on the page. The key sets are
  \<open>indexmap\<close> sets, a library type: the planner takes their operations as an argument, and the
  locale \<open>index_set\<close> states what it relies on. The lemmas give the plan in closed form and show
  that the rows it leaves in place on the page are already in the new order.
\<close>

section \<open>Errors of the list views\<close>

datatype list_error =
    RepeatedKeys (repeated_items: nat) (repeated_keys: nat)
  | Invariant string
  | NoParent
  | SerializableKeyWithoutIslands
  | KeyNotSerializable string
  | ArrayLength string nat nat

section \<open>The key sets\<close>

text \<open>The operations of \<open>IndexSet\<close> that the list views call.\<close>

record ('s, 'k) index_set_ops =
  iset_empty :: 's
  iset_insert :: "'s \<Rightarrow> 'k \<Rightarrow> 's"
  iset_len :: "'s \<Rightarrow> nat"
  iset_is_empty :: "'s \<Rightarrow> bool"
  iset_get_index :: "'s \<Rightarrow> nat \<Rightarrow> 'k option"
  iset_get_index_of :: "'s \<Rightarrow> 'k \<Rightarrow> nat option"
  iset_contains :: "'s \<Rightarrow> 'k \<Rightarrow> bool"

section \<open>Plans\<close>

record diff_op_move =
  from_ix :: nat
  to_ix :: nat
  move_in_dom :: bool

datatype diff_op_add_mode = Normal | Append

record diff_op_add =
  at_ix :: nat
  add_mode :: diff_op_add_mode

record diff_plan =
  removed :: "nat list"
  moved :: "diff_op_move list"
  added :: "diff_op_add list"
  clear :: bool

definition diff_default :: diff_plan where
  "diff_default = \<lparr>removed = [], moved = [], added = [], clear = False\<rparr>"

text \<open>The variables of the planning loop.\<close>

record diff_acc =
  acc_removed :: "nat list"
  acc_moved :: "diff_op_move list"
  acc_added :: "diff_op_add list"
  acc_stays_before :: "nat list"
  acc_stays :: nat

text \<open>One round of \<open>for index in 0..len\<close>.\<close>

definition diff_step ::
  "('s, 'k) index_set_ops \<Rightarrow> nat \<Rightarrow> 's \<Rightarrow> 's \<Rightarrow> nat \<Rightarrow> diff_acc \<Rightarrow> list_error + diff_acc" where
  "diff_step I umax from to index acc =
    (let acc = acc\<lparr>acc_stays_before := acc_stays_before acc @ [acc_stays acc]\<rparr>;
         from_key = iset_get_index I from index;
         to_key = iset_get_index I to index
     in if from_key = to_key
        then Inr (acc\<lparr>acc_stays := saturating_add umax (acc_stays acc) 1\<rparr>)
        else
          (let new_index = (case from_key of None \<Rightarrow> None | Some key \<Rightarrow> iset_get_index_of I to key);
               acc = (if from_key \<noteq> None \<and> new_index = None
                      then acc\<lparr>acc_removed := acc_removed acc @ [index]\<rparr> else acc);
               acc = (case to_key of
                        Some key \<Rightarrow>
                          if \<not> iset_contains I from key
                          then acc\<lparr>acc_added := acc_added acc @ [\<lparr>at_ix = index, add_mode = Normal\<rparr>]\<rparr>
                          else acc
                      | None \<Rightarrow> acc)
           in case new_index of
                None \<Rightarrow> Inr acc
              | Some to_index \<Rightarrow>
                  (case (checked_add umax index (length (acc_added acc)),
                         checked_add umax to_index (length (acc_removed acc))) of
                     (Some shifted, Some target) \<Rightarrow>
                       Inr (acc\<lparr>acc_moved := acc_moved acc @
                         [\<lparr>from_ix = index, to_ix = to_index, move_in_dom = (shifted \<noteq> target)\<rparr>]\<rparr>)
                   | _ \<Rightarrow> Inl (Invariant ''an index overflows''))))"

fun diff_loop ::
  "('s, 'k) index_set_ops \<Rightarrow> nat \<Rightarrow> 's \<Rightarrow> 's \<Rightarrow> nat list \<Rightarrow> diff_acc \<Rightarrow> list_error + diff_acc" where
  "diff_loop I umax from to [] acc = Inr acc"
| "diff_loop I umax from to (index # indices) acc =
    (case diff_step I umax from to index acc of
       Inl e \<Rightarrow> Inl e
     | Inr acc' \<Rightarrow> diff_loop I umax from to indices acc')"

definition passes_a_row_that_stays :: "nat \<Rightarrow> nat list \<Rightarrow> nat \<Rightarrow> nat \<Rightarrow> list_error + bool" where
  "passes_a_row_that_stays umax stays_before from to =
    (let low = min from to; high = max from to
     in case (Option.bind (checked_add umax low 1) (vec_get stays_before), vec_get stays_before high) of
          (Some after_low, Some before_high) \<Rightarrow> Inr (after_low < before_high)
        | _ \<Rightarrow> Inl (Invariant ''an index is past the end of the list''))"

text \<open>The second loop: a run of adjacent moves moves on the page or stays as its first row does.\<close>

fun regroup_runs ::
  "nat \<Rightarrow> nat list \<Rightarrow> diff_op_move option \<Rightarrow> diff_op_move list \<Rightarrow> list_error + diff_op_move list" where
  "regroup_runs umax stays_before previous [] = Inr []"
| "regroup_runs umax stays_before previous (op # later) =
    (let decided =
       (case previous of
          Some run \<Rightarrow>
            if checked_add umax (from_ix run) 1 = Some (from_ix op)
               \<and> checked_add umax (to_ix run) 1 = Some (to_ix op)
            then Inr (move_in_dom run)
            else if move_in_dom op then Inr True
            else passes_a_row_that_stays umax stays_before (from_ix op) (to_ix op)
        | None \<Rightarrow>
            if move_in_dom op then Inr True
            else passes_a_row_that_stays umax stays_before (from_ix op) (to_ix op))
     in case decided of
          Inl e \<Rightarrow> Inl e
        | Inr b \<Rightarrow>
            (let op = op\<lparr>move_in_dom := b\<rparr>
             in case regroup_runs umax stays_before (Some op) later of
                  Inl e \<Rightarrow> Inl e
                | Inr ops \<Rightarrow> Inr (op # ops)))"

definition diff :: "('s, 'k) index_set_ops \<Rightarrow> nat \<Rightarrow> 's \<Rightarrow> 's \<Rightarrow> list_error + diff_plan" where
  "diff I umax from to =
    (if iset_is_empty I to then Inr (diff_default\<lparr>clear := \<not> iset_is_empty I from\<rparr>)
     else if iset_is_empty I from
     then Inr (diff_default\<lparr>added :=
            map (\<lambda>i. \<lparr>at_ix = i, add_mode = Append\<rparr>) [0..<iset_len I to]\<rparr>)
     else
       (let len = max (iset_len I from) (iset_len I to)
        in case diff_loop I umax from to [0..<len]
                  \<lparr>acc_removed = [], acc_moved = [], acc_added = [], acc_stays_before = [],
                   acc_stays = 0\<rparr> of
             Inl e \<Rightarrow> Inl e
           | Inr acc \<Rightarrow>
               (case regroup_runs umax (acc_stays_before acc @ [acc_stays acc]) None (acc_moved acc) of
                  Inl e \<Rightarrow> Inl e
                | Inr ops \<Rightarrow>
                    Inr \<lparr>removed = acc_removed acc, moved = ops, added = acc_added acc,
                         clear = False\<rparr>)))"

section \<open>The plan in closed form\<close>

text \<open>
  What happens to the row at an index, in terms of the old keys \<open>xs\<close> and the new keys \<open>ys\<close>.
\<close>

definition stays_at :: "'k list \<Rightarrow> 'k list \<Rightarrow> nat \<Rightarrow> bool" where
  "stays_at xs ys i \<longleftrightarrow> i < length xs \<and> i < length ys \<and> xs ! i = ys ! i"

definition gone_at :: "'k list \<Rightarrow> 'k list \<Rightarrow> nat \<Rightarrow> bool" where
  "gone_at xs ys i \<longleftrightarrow> i < length xs \<and> xs ! i \<notin> set ys"

definition fresh_at :: "'k list \<Rightarrow> 'k list \<Rightarrow> nat \<Rightarrow> bool" where
  "fresh_at xs ys i \<longleftrightarrow> i < length ys \<and> ys ! i \<notin> set xs"

definition moves_at :: "'k list \<Rightarrow> 'k list \<Rightarrow> nat \<Rightarrow> bool" where
  "moves_at xs ys i \<longleftrightarrow> i < length xs \<and> xs ! i \<in> set ys \<and> \<not> stays_at xs ys i"

definition pos :: "'k list \<Rightarrow> 'k \<Rightarrow> nat" where
  "pos ys k = length (takeWhile (\<lambda>y. y \<noteq> k) ys)"

definition count_upto :: "(nat \<Rightarrow> bool) \<Rightarrow> nat \<Rightarrow> nat" where
  "count_upto P n = length (filter P [0..<n])"

definition shifted_apart :: "'k list \<Rightarrow> 'k list \<Rightarrow> nat \<Rightarrow> bool" where
  "shifted_apart xs ys i \<longleftrightarrow>
     i + count_upto (fresh_at xs ys) (Suc i) \<noteq> pos ys (xs ! i) + count_upto (gone_at xs ys) (Suc i)"

definition passes_stay :: "'k list \<Rightarrow> 'k list \<Rightarrow> nat \<Rightarrow> bool" where
  "passes_stay xs ys i \<longleftrightarrow>
     (\<exists>k. min i (pos ys (xs ! i)) < k \<and> k < max i (pos ys (xs ! i)) \<and> stays_at xs ys k)"

fun moves_in_dom :: "'k list \<Rightarrow> 'k list \<Rightarrow> nat \<Rightarrow> bool" where
  "moves_in_dom xs ys 0 = (shifted_apart xs ys 0 \<or> passes_stay xs ys 0)"
| "moves_in_dom xs ys (Suc i) =
    (if moves_at xs ys i \<and> pos ys (xs ! Suc i) = Suc (pos ys (xs ! i))
     then moves_in_dom xs ys i
     else shifted_apart xs ys (Suc i) \<or> passes_stay xs ys (Suc i))"

lemma pos_nth: "k \<in> set ys \<Longrightarrow> pos ys k < length ys \<and> ys ! pos ys k = k"
  unfolding pos_def
proof (induction ys)
  case (Cons y ys)
  then show ?case by (cases "y = k") auto
qed simp

lemma pos_unique: "distinct ys \<Longrightarrow> i < length ys \<Longrightarrow> ys ! i = k \<Longrightarrow> pos ys k = i"
  by (metis nth_eq_iff_index_eq nth_mem pos_nth)

lemma count_upto_Suc: "count_upto P (Suc n) = count_upto P n + (if P n then 1 else 0)"
  by (simp add: count_upto_def)

lemma count_upto_le: "count_upto P n \<le> n"
  unfolding count_upto_def by (metis diff_zero length_filter_le length_upt)

lemma count_upto_mono: "m \<le> n \<Longrightarrow> count_upto P m \<le> count_upto P n"
  by (induction n) (auto simp: count_upto_Suc le_Suc_eq)

lemma count_upto_gap:
  "m \<le> n \<Longrightarrow> count_upto P m < count_upto P n \<longleftrightarrow> (\<exists>k. m \<le> k \<and> k < n \<and> P k)"
proof (induction n)
  case (Suc n)
  show ?case
  proof (cases "m = Suc n")
    case False
    with Suc have "m \<le> n" and IH: "count_upto P m < count_upto P n \<longleftrightarrow> (\<exists>k. m \<le> k \<and> k < n \<and> P k)"
      by auto
    have "count_upto P m \<le> count_upto P n" by (rule count_upto_mono [OF \<open>m \<le> n\<close>])
    then show ?thesis
      using IH \<open>m \<le> n\<close> by (auto simp: count_upto_Suc less_Suc_eq split: if_splits)
  qed simp
qed simp

lemma count_upto_bound: "(\<And>i. P i \<Longrightarrow> i < b) \<Longrightarrow> count_upto P n \<le> b"
proof -
  assume P: "\<And>i. P i \<Longrightarrow> i < b"
  have "card (set (filter P [0..<n])) \<le> card {..<b}"
    by (rule card_mono) (auto dest: P)
  then show ?thesis
    by (simp add: count_upto_def flip: distinct_card)
qed

section \<open>What the planner relies on of the key sets\<close>

text \<open>
  \<open>IndexSet\<close> keeps its elements distinct and in insertion order; \<open>keys\<close> is that order. An
  \<open>insert\<close> of an element that is there changes nothing, any other goes to the end.
\<close>

locale index_set =
  fixes I :: "('s, 'k) index_set_ops"
    and valid :: "'s \<Rightarrow> bool"
    and keys :: "'s \<Rightarrow> 'k list"
  assumes distinct_keys: "valid s \<Longrightarrow> distinct (keys s)"
    and len_keys: "valid s \<Longrightarrow> iset_len I s = length (keys s)"
    and is_empty_keys: "valid s \<Longrightarrow> iset_is_empty I s \<longleftrightarrow> keys s = []"
    and get_index_keys: "valid s \<Longrightarrow> iset_get_index I s i = vec_get (keys s) i"
    and get_index_of_keys:
      "valid s \<Longrightarrow> iset_get_index_of I s k = Some i \<longleftrightarrow> vec_get (keys s) i = Some k"
    and contains_keys: "valid s \<Longrightarrow> iset_contains I s k \<longleftrightarrow> k \<in> set (keys s)"
    and keys_empty: "keys (iset_empty I) = []"
    and keys_insert:
      "valid s \<Longrightarrow> keys (iset_insert I s k) = (if k \<in> set (keys s) then keys s else keys s @ [k])"
    and valid_empty: "valid (iset_empty I)"
    and valid_insert: "valid s \<Longrightarrow> valid (iset_insert I s k)"
begin

lemma get_index_of_pos:
  assumes "valid s"
  shows "iset_get_index_of I s k = (if k \<in> set (keys s) then Some (pos (keys s) k) else None)"
proof (cases "k \<in> set (keys s)")
  case True
  then have "vec_get (keys s) (pos (keys s) k) = Some k"
    using pos_nth [OF True] by (simp add: vec_get_def)
  then show ?thesis using True assms by (simp add: get_index_of_keys)
next
  case False
  have "iset_get_index_of I s k \<noteq> Some i" for i
    using False assms by (auto simp: get_index_of_keys vec_get_eq_Some)
  then show ?thesis using False by auto
qed

end

section \<open>The loop computes the closed form\<close>

definition plan_move :: "'k list \<Rightarrow> 'k list \<Rightarrow> nat \<Rightarrow> diff_op_move" where
  "plan_move xs ys i =
     \<lparr>from_ix = i, to_ix = pos ys (xs ! i), move_in_dom = moves_in_dom xs ys i\<rparr>"

definition first_move :: "'k list \<Rightarrow> 'k list \<Rightarrow> nat \<Rightarrow> diff_op_move" where
  "first_move xs ys i =
     \<lparr>from_ix = i, to_ix = pos ys (xs ! i), move_in_dom = shifted_apart xs ys i\<rparr>"

definition plan_add :: "nat \<Rightarrow> diff_op_add" where
  "plan_add i = \<lparr>at_ix = i, add_mode = Normal\<rparr>"

definition loop_acc :: "'k list \<Rightarrow> 'k list \<Rightarrow> nat \<Rightarrow> diff_acc" where
  "loop_acc xs ys n =
     \<lparr>acc_removed = filter (gone_at xs ys) [0..<n],
      acc_moved = map (first_move xs ys) (filter (moves_at xs ys) [0..<n]),
      acc_added = map plan_add (filter (fresh_at xs ys) [0..<n]),
      acc_stays_before = map (count_upto (stays_at xs ys)) [0..<n],
      acc_stays = count_upto (stays_at xs ys) n\<rparr>"

lemmas at_defs = stays_at_def gone_at_def fresh_at_def moves_at_def

context index_set begin

lemma diff_step_loop_acc:
  assumes "valid s" and "valid t"
    and n: "n < max (length (keys s)) (length (keys t))"
    and umax: "length (keys s) + length (keys t) \<le> umax"
  shows "diff_step I umax s t n (loop_acc (keys s) (keys t) n) = Inr (loop_acc (keys s) (keys t) (Suc n))"
proof -
  let ?xs = "keys s" and ?ys = "keys t"
  note get = get_index_keys [OF assms(1)] get_index_keys [OF assms(2)]
    get_index_of_pos [OF assms(2)] contains_keys [OF assms(1)]
  have fresh_le: "count_upto (fresh_at ?xs ?ys) (Suc n) \<le> length ?ys"
    by (rule count_upto_bound) (simp add: fresh_at_def)
  have gone_le: "count_upto (gone_at ?xs ?ys) (Suc n) \<le> length ?xs"
    by (rule count_upto_bound) (simp add: gone_at_def)
  have stays_le: "count_upto (stays_at ?xs ?ys) (Suc n) \<le> length ?xs"
    by (rule count_upto_bound) (simp add: stays_at_def)
  show ?thesis
  proof (cases "vec_get ?xs n = vec_get ?ys n")
    case True
    then have st: "stays_at ?xs ?ys n"
      using n by (auto simp: vec_get_def at_defs split: if_splits)
    then have "\<not> gone_at ?xs ?ys n" "\<not> fresh_at ?xs ?ys n" "\<not> moves_at ?xs ?ys n"
      by (auto simp: at_defs) (metis nth_mem)+
    with True st stays_le umax show ?thesis
      by (simp add: diff_step_def loop_acc_def get Let_def count_upto_Suc saturating_add_def)
  next
    case False
    then have st: "\<not> stays_at ?xs ?ys n" by (auto simp: vec_get_def at_defs)
    show ?thesis
    proof (cases "n < length ?xs \<and> ?xs ! n \<in> set ?ys")
      case True
      then have p: "pos ?ys (?xs ! n) < length ?ys" using pos_nth by fast
      have bounds: "n + count_upto (fresh_at ?xs ?ys) (Suc n) \<le> umax"
        "pos ?ys (?xs ! n) + count_upto (gone_at ?xs ?ys) (Suc n) \<le> umax"
        using True p fresh_le gone_le umax by auto
      from True False st bounds show ?thesis
        by (auto simp: diff_step_def loop_acc_def get Let_def count_upto_def checked_add_def
            first_move_def plan_add_def shifted_apart_def vec_get_def at_defs)
    next
      case False': False
      with False st show ?thesis
        by (auto simp: diff_step_def loop_acc_def get Let_def count_upto_def
            plan_add_def vec_get_def at_defs)
    qed
  qed
qed

lemma diff_loop_loop_acc:
  assumes "valid s" and "valid t" and umax: "length (keys s) + length (keys t) \<le> umax"
    and "m \<le> n" and "n \<le> max (length (keys s)) (length (keys t))"
  shows "diff_loop I umax s t [m..<n] (loop_acc (keys s) (keys t) m) = Inr (loop_acc (keys s) (keys t) n)"
  using assms(4,5)
proof (induction "n - m" arbitrary: m)
  case (Suc d)
  then have "[m..<n] = m # [Suc m..<n]" by (simp add: upt_conv_Cons)
  moreover have "diff_step I umax s t m (loop_acc (keys s) (keys t) m) = Inr (loop_acc (keys s) (keys t) (Suc m))"
    using Suc.hyps(2) Suc.prems by (intro diff_step_loop_acc assms(1,2) umax) auto
  ultimately show ?case using Suc by simp
qed simp

end

lemma pos_moves_neq: "moves_at xs ys i \<Longrightarrow> pos ys (xs ! i) \<noteq> i"
  using pos_nth [of "xs ! i" ys] by (auto simp: at_defs)

lemma passes_a_row_that_stays_eq:
  assumes i: "moves_at xs ys i" and "length xs \<le> n" "length ys \<le> n" "n \<le> umax"
  shows "passes_a_row_that_stays umax (map (count_upto (stays_at xs ys)) [0..<Suc n]) i (pos ys (xs ! i))
       = Inr (passes_stay xs ys i)"
proof -
  let ?p = "pos ys (xs ! i)" and ?sb = "map (count_upto (stays_at xs ys)) [0..<Suc n]"
  have lt: "i < n" "?p < n" using assms pos_nth [of "xs ! i" ys] by (auto simp: at_defs)
  have ne: "?p \<noteq> i" by (rule pos_moves_neq [OF i])
  have low: "Suc (min i ?p) \<le> max i ?p" "max i ?p < n" using lt ne by auto
  have "vec_get ?sb (Suc (min i ?p)) = Some (count_upto (stays_at xs ys) (Suc (min i ?p)))"
    "vec_get ?sb (max i ?p) = Some (count_upto (stays_at xs ys) (max i ?p))"
    using low lt by (simp_all add: vec_get_def min_less_iff_disj del: upt_Suc)
  moreover have "checked_add umax (min i ?p) 1 = Some (Suc (min i ?p))"
    using low lt assms(4) by (auto simp: checked_add_def)
  ultimately show ?thesis
    using count_upto_gap [OF low(1), of "stays_at xs ys"]
    by (simp add: passes_a_row_that_stays_def Let_def passes_stay_def Suc_le_eq)
qed

text \<open>The move that precedes index \<open>m\<close> in the list of moves, if any.\<close>

fun previous_move :: "'k list \<Rightarrow> 'k list \<Rightarrow> nat \<Rightarrow> diff_op_move option" where
  "previous_move xs ys 0 = None"
| "previous_move xs ys (Suc m) =
     (if moves_at xs ys m then Some (plan_move xs ys m) else previous_move xs ys m)"

lemma previous_move_SomeD:
  "previous_move xs ys m = Some op \<Longrightarrow>
     \<exists>i<m. op = plan_move xs ys i \<and> moves_at xs ys i \<and> (m = Suc i \<or> \<not> moves_at xs ys (m - 1))"
proof (induction m)
  case (Suc m)
  then show ?case by (cases "moves_at xs ys m") (auto simp: less_Suc_eq)
qed simp

lemma previous_move_NoneD: "previous_move xs ys m = None \<Longrightarrow> i < m \<Longrightarrow> \<not> moves_at xs ys i"
  by (induction m) (auto simp: less_Suc_eq split: if_splits)

text \<open>The head of a run decides for itself; any other row of a run follows its predecessor.\<close>

lemma moves_in_dom_head:
  assumes "\<not> (0 < m \<and> moves_at xs ys (m - 1) \<and> pos ys (xs ! m) = Suc (pos ys (xs ! (m - 1))))"
  shows "moves_in_dom xs ys m \<longleftrightarrow> shifted_apart xs ys m \<or> passes_stay xs ys m"
  using assms by (cases m) auto

lemma regroup_runs_eq:
  assumes len: "length xs \<le> n" "length ys \<le> n" "n \<le> umax" and "m \<le> k" "k \<le> n"
  shows "regroup_runs umax (map (count_upto (stays_at xs ys)) [0..<Suc n]) (previous_move xs ys m)
           (map (first_move xs ys) (filter (moves_at xs ys) [m..<k]))
       = Inr (map (plan_move xs ys) (filter (moves_at xs ys) [m..<k]))"
    (is "regroup_runs umax ?sb _ _ = _")
  using assms(4,5)
proof (induction "k - m" arbitrary: m)
  case (Suc d)
  then have upt: "[m..<k] = m # [Suc m..<k]" by (simp add: upt_conv_Cons)
  have IH: "regroup_runs umax ?sb (previous_move xs ys (Suc m))
           (map (first_move xs ys) (filter (moves_at xs ys) [Suc m..<k]))
       = Inr (map (plan_move xs ys) (filter (moves_at xs ys) [Suc m..<k]))"
    using Suc by (intro Suc.hyps(1)) auto
  show ?case
  proof (cases "moves_at xs ys m")
    case False
    with IH show ?thesis by (simp add: upt)
  next
    case True
    note passes = passes_a_row_that_stays_eq [OF True len]
    have m: "m < umax" "pos ys (xs ! m) < umax"
      using True len pos_nth [of "xs ! m" ys] by (auto simp: at_defs)
    have upd: "first_move xs ys m\<lparr>move_in_dom := moves_in_dom xs ys m\<rparr> = plan_move xs ys m"
      by (simp add: first_move_def plan_move_def)
    show ?thesis
    proof (cases "0 < m \<and> moves_at xs ys (m - 1) \<and> pos ys (xs ! m) = Suc (pos ys (xs ! (m - 1)))")
      case run: True
      then obtain i where i: "m = Suc i" "moves_at xs ys i" "pos ys (xs ! Suc i) = Suc (pos ys (xs ! i))"
        by (cases m) auto
      then have dom: "moves_in_dom xs ys m = moves_in_dom xs ys i"
        and prev: "previous_move xs ys m = Some (plan_move xs ys i)" by simp_all
      have "checked_add umax (from_ix (plan_move xs ys i)) 1 = Some (from_ix (first_move xs ys m))"
        "checked_add umax (to_ix (plan_move xs ys i)) 1 = Some (to_ix (first_move xs ys m))"
        using m i by (simp_all add: checked_add_def plan_move_def first_move_def)
      moreover have "move_in_dom (plan_move xs ys i) = moves_in_dom xs ys m"
        using dom by (simp add: plan_move_def)
      ultimately show ?thesis
        using IH True upd by (simp add: upt prev Let_def del: moves_in_dom.simps upt_Suc)
    next
      case head: False
      have head': "\<not> (checked_add umax (from_ix op) 1 = Some m \<and> checked_add umax (to_ix op) 1 = Some (pos ys (xs ! m)))"
        if "previous_move xs ys m = Some op" for op
        using previous_move_SomeD [OF that] head
        by (auto simp: checked_add_def plan_move_def split: if_splits)
      have dom: "moves_in_dom xs ys m \<longleftrightarrow> shifted_apart xs ys m \<or> passes_stay xs ys m"
        by (rule moves_in_dom_head [OF head])
      have sel: "from_ix (first_move xs ys m) = m" "to_ix (first_move xs ys m) = pos ys (xs ! m)"
        "move_in_dom (first_move xs ys m) = shifted_apart xs ys m"
        by (simp_all add: first_move_def)
      show ?thesis
        using IH True upd dom passes head'
        by (cases "previous_move xs ys m"; cases "shifted_apart xs ys m")
           (auto simp: upt Let_def sel simp del: moves_in_dom.simps upt_Suc)
    qed
  qed
qed simp

text \<open>The plan for non-empty old and new keys.\<close>

definition plan_of :: "'k list \<Rightarrow> 'k list \<Rightarrow> diff_plan" where
  "plan_of xs ys =
     (let len = max (length xs) (length ys)
      in \<lparr>removed = filter (gone_at xs ys) [0..<len],
          moved = map (plan_move xs ys) (filter (moves_at xs ys) [0..<len]),
          added = map plan_add (filter (fresh_at xs ys) [0..<len]),
          clear = False\<rparr>)"

context index_set begin

lemma diff_closed_form:
  assumes "valid s" and "valid t" and umax: "length (keys s) + length (keys t) \<le> umax"
  shows "diff I umax s t =
     (if keys t = [] then Inr (diff_default\<lparr>clear := keys s \<noteq> []\<rparr>)
      else if keys s = []
      then Inr (diff_default\<lparr>added := map (\<lambda>i. \<lparr>at_ix = i, add_mode = Append\<rparr>) [0..<length (keys t)]\<rparr>)
      else Inr (plan_of (keys s) (keys t)))"
proof -
  let ?n = "max (length (keys s)) (length (keys t))"
  have init: "\<lparr>acc_removed = [], acc_moved = [], acc_added = [], acc_stays_before = [], acc_stays = 0\<rparr>
      = loop_acc (keys s) (keys t) 0"
    by (simp add: loop_acc_def count_upto_def)
  have loop: "diff_loop I umax s t [0..<?n] (loop_acc (keys s) (keys t) 0) = Inr (loop_acc (keys s) (keys t) ?n)"
    by (rule diff_loop_loop_acc [OF assms]) simp_all
  have sb: "acc_stays_before (loop_acc (keys s) (keys t) ?n) @ [acc_stays (loop_acc (keys s) (keys t) ?n)]
      = map (count_upto (stays_at (keys s) (keys t))) [0..<Suc ?n]"
    by (simp add: loop_acc_def)
  have re: "regroup_runs umax (map (count_upto (stays_at (keys s) (keys t))) [0..<Suc ?n]) None
        (map (first_move (keys s) (keys t)) (filter (moves_at (keys s) (keys t)) [0..<?n]))
      = Inr (map (plan_move (keys s) (keys t)) (filter (moves_at (keys s) (keys t)) [0..<?n]))"
    using regroup_runs_eq [of "keys s" ?n "keys t" umax 0 ?n] umax by simp
  have mv: "acc_moved (loop_acc (keys s) (keys t) ?n)
      = map (first_move (keys s) (keys t)) (filter (moves_at (keys s) (keys t)) [0..<?n])"
    by (simp add: loop_acc_def)
  show ?thesis
    using assms(1,2)
    by (simp add: diff_def is_empty_keys len_keys Let_def init loop sb mv re del: upt_Suc)
       (simp add: loop_acc_def plan_of_def Let_def)
qed

end

section \<open>Rows that are left in place are in the new order\<close>

lemma count_upto_gap_le: "m \<le> n \<Longrightarrow> count_upto P n \<le> count_upto P m + (n - m)"
  by (induction n) (auto simp: count_upto_Suc le_Suc_eq)

lemma unshifted_increasing:
  assumes "moves_at xs ys j" and "i < j"
    and "\<not> shifted_apart xs ys i" and "\<not> shifted_apart xs ys j"
  shows "pos ys (xs ! i) < pos ys (xs ! j)"
proof -
  have "count_upto (fresh_at xs ys) (Suc i) \<le> count_upto (fresh_at xs ys) (Suc j)"
    using assms(2) by (intro count_upto_mono) simp
  moreover have "count_upto (gone_at xs ys) (Suc j) = count_upto (gone_at xs ys) j"
    using assms(1) by (simp add: count_upto_Suc at_defs)
  moreover have "count_upto (gone_at xs ys) j \<le> count_upto (gone_at xs ys) (Suc i) + (j - Suc i)"
    using assms(2) by (intro count_upto_gap_le) simp
  ultimately show ?thesis using assms(2-4) by (simp add: shifted_apart_def)
qed

text \<open>A row left in place belongs to a run whose first row was found to be in place.\<close>

lemma run_head:
  assumes "moves_at xs ys i" and "\<not> moves_in_dom xs ys i"
  shows "\<exists>h\<le>i. \<not> shifted_apart xs ys h \<and> \<not> passes_stay xs ys h \<and>
    (\<forall>m. h \<le> m \<and> m \<le> i \<longrightarrow> moves_at xs ys m \<and> pos ys (xs ! m) = pos ys (xs ! h) + (m - h))"
  using assms
proof (induction i)
  case 0
  then show ?case by auto
next
  case (Suc i)
  show ?case
  proof (cases "moves_at xs ys i \<and> pos ys (xs ! Suc i) = Suc (pos ys (xs ! i))")
    case True
    with Suc.prems have "\<not> moves_in_dom xs ys i" by simp
    with Suc.IH True obtain h where h: "h \<le> i" "\<not> shifted_apart xs ys h" "\<not> passes_stay xs ys h"
      "\<And>m. h \<le> m \<Longrightarrow> m \<le> i \<Longrightarrow> moves_at xs ys m \<and> pos ys (xs ! m) = pos ys (xs ! h) + (m - h)"
      by blast
    have "moves_at xs ys m \<and> pos ys (xs ! m) = pos ys (xs ! h) + (m - h)" if "h \<le> m" "m \<le> Suc i" for m
    proof (cases "m = Suc i")
      case True': True
      then show ?thesis using True Suc.prems(1) h(1) h(4) [of i] by simp
    next
      case False
      then have "m \<le> i" using that by simp
      then show ?thesis by (rule h(4) [OF that(1)])
    qed
    moreover have "h \<le> Suc i" using h(1) by simp
    ultimately show ?thesis using h(2,3) by blast
  next
    case False
    with Suc.prems have "\<not> shifted_apart xs ys (Suc i)" "\<not> passes_stay xs ys (Suc i)" by auto
    moreover have "moves_at xs ys m \<and> pos ys (xs ! m) = pos ys (xs ! Suc i) + (m - Suc i)"
      if "Suc i \<le> m \<and> m \<le> Suc i" for m
    proof -
      have "m = Suc i" using that by simp
      then show ?thesis using Suc.prems(1) by simp
    qed
    ultimately show ?thesis by (intro exI [of _ "Suc i"]) blast
  qed
qed

lemma pos_inj:
  "a \<in> set ys \<Longrightarrow> b \<in> set ys \<Longrightarrow> pos ys a = pos ys b \<Longrightarrow> a = b"
  by (metis pos_nth)

lemma moves_pos_inj:
  "distinct xs \<Longrightarrow> moves_at xs ys i \<Longrightarrow> moves_at xs ys j \<Longrightarrow> pos ys (xs ! i) = pos ys (xs ! j) \<Longrightarrow> i = j"
  by (metis moves_at_def nth_eq_iff_index_eq pos_inj)

lemma in_place_moves_increasing:
  assumes "distinct xs" and "i < j"
    and i: "moves_at xs ys i" "\<not> moves_in_dom xs ys i"
    and j: "moves_at xs ys j" "\<not> moves_in_dom xs ys j"
  shows "pos ys (xs ! i) < pos ys (xs ! j)"
proof -
  obtain hi where hi: "hi \<le> i" "\<not> shifted_apart xs ys hi"
    "\<And>m. hi \<le> m \<Longrightarrow> m \<le> i \<Longrightarrow> moves_at xs ys m \<and> pos ys (xs ! m) = pos ys (xs ! hi) + (m - hi)"
    using run_head [OF i] by blast
  obtain hj where hj: "hj \<le> j" "\<not> shifted_apart xs ys hj"
    "\<And>m. hj \<le> m \<Longrightarrow> m \<le> j \<Longrightarrow> moves_at xs ys m \<and> pos ys (xs ! m) = pos ys (xs ! hj) + (m - hj)"
    using run_head [OF j] by blast
  show ?thesis
  proof (cases "hj \<le> i")
    case True
    then show ?thesis using hj(3) [of i] hj(3) [of j] assms(2) hj(1) by simp
  next
    case False
    then have "pos ys (xs ! hi) < pos ys (xs ! hj)"
      using hi hj by (intro unshifted_increasing) auto
    moreover have "pos ys (xs ! hj) \<noteq> pos ys (xs ! m)" if "hi \<le> m" "m \<le> i" for m
      using moves_pos_inj [OF assms(1)] hi(3) [OF that] hj(3) [of hj] hj(1) False that by fastforce
    then have "pos ys (xs ! hj) \<noteq> pos ys (xs ! hi) + d" if "d \<le> i - hi" for d
    proof -
      have "hi + d \<le> i" using that hi(1) by simp
      with hi(3) [of "hi + d"] have "pos ys (xs ! (hi + d)) = pos ys (xs ! hi) + d" by simp
      with \<open>hi + d \<le> i\<close> \<open>\<And>m. hi \<le> m \<Longrightarrow> m \<le> i \<Longrightarrow> pos ys (xs ! hj) \<noteq> pos ys (xs ! m)\<close> [of "hi + d"]
      show ?thesis by simp
    qed
    ultimately have "pos ys (xs ! hi) + (i - hi) < pos ys (xs ! hj)"
      by (metis add_diff_inverse_nat leI le_diff_conv2 less_imp_le_nat linorder_neqE_nat nat_add_left_cancel_le not_less_iff_gr_or_eq)
    then show ?thesis
      using hi(1) hi(3) [of i] hj(1) hj(3) [of j] by simp
  qed
qed

lemma in_place_move_keeps_side:
  assumes "distinct xs" "distinct ys" and k: "stays_at xs ys k"
    and i: "moves_at xs ys i" "\<not> moves_in_dom xs ys i"
  shows "i < k \<longleftrightarrow> pos ys (xs ! i) < k"
proof -
  obtain h where h: "h \<le> i" "\<not> passes_stay xs ys h"
    "\<And>m. h \<le> m \<Longrightarrow> m \<le> i \<Longrightarrow> moves_at xs ys m \<and> pos ys (xs ! m) = pos ys (xs ! h) + (m - h)"
    using run_head [OF i] by blast
  have pk: "pos ys (xs ! k) = k" using k assms(2) by (auto simp: stays_at_def intro: pos_unique)
  have off: "k \<noteq> m \<and> k \<noteq> pos ys (xs ! m)" if "h \<le> m" "m \<le> i" for m
  proof -
    have m: "moves_at xs ys m" using h(3) that by blast
    then have "k \<noteq> m" using k by (auto simp: moves_at_def)
    moreover have "xs ! m \<noteq> xs ! k"
      using \<open>k \<noteq> m\<close> m k assms(1) by (metis moves_at_def nth_eq_iff_index_eq stays_at_def)
    then have "k \<noteq> pos ys (xs ! m)"
      using m k pk by (metis moves_at_def nth_mem pos_nth stays_at_def)
    ultimately show ?thesis by blast
  qed
  have off': "k \<noteq> h + d \<and> k \<noteq> pos ys (xs ! h) + d" if "d \<le> i - h" for d
    using that h(1) h(3) [of "h + d"] off [of "h + d"] by auto
  have between: "\<not> (min h (pos ys (xs ! h)) < k \<and> k < max h (pos ys (xs ! h)))"
    using h(2) k by (auto simp: passes_stay_def)
  have hi: "i = h + (i - h)" "pos ys (xs ! i) = pos ys (xs ! h) + (i - h)"
    using h(1) h(3) [of i] by auto
  have "k < h \<or> h + (i - h) < k" using off' [of "k - h"] hi(1) by linarith
  moreover have "k < pos ys (xs ! h) \<or> pos ys (xs ! h) + (i - h) < k"
    using off' [of "k - pos ys (xs ! h)"] by linarith
  ultimately show ?thesis using between hi by (auto simp: min_def max_def split: if_splits)
qed

text \<open>A kept row is in place if it stays at its index or moves without moving on the page.\<close>

definition in_place :: "'k list \<Rightarrow> 'k list \<Rightarrow> nat \<Rightarrow> bool" where
  "in_place xs ys i \<longleftrightarrow> stays_at xs ys i \<or> moves_at xs ys i \<and> \<not> moves_in_dom xs ys i"

lemma in_place_increasing:
  assumes "distinct xs" "distinct ys" and ij: "i < j"
    and i: "in_place xs ys i" and j: "in_place xs ys j"
  shows "pos ys (xs ! i) < pos ys (xs ! j)"
proof -
  have pk: "pos ys (xs ! k) = k" if "stays_at xs ys k" for k
    using that assms(2) by (auto simp: stays_at_def intro: pos_unique)
  consider "stays_at xs ys i" "stays_at xs ys j"
    | "stays_at xs ys i" "moves_at xs ys j" "\<not> moves_in_dom xs ys j"
    | "moves_at xs ys i" "\<not> moves_in_dom xs ys i" "stays_at xs ys j"
    | "moves_at xs ys i" "\<not> moves_in_dom xs ys i" "moves_at xs ys j" "\<not> moves_in_dom xs ys j"
    using i j by (auto simp: in_place_def)
  then show ?thesis
  proof cases
    case 1
    then show ?thesis using pk ij by simp
  next
    case 2
    have "\<not> pos ys (xs ! j) < i" using in_place_move_keeps_side [OF assms(1,2) 2] ij by simp
    moreover have "pos ys (xs ! j) \<noteq> i"
      using 2 pk [OF 2(1)] pos_inj [of "xs ! i" ys "xs ! j"] ij assms(1)
      by (metis less_irrefl moves_at_def nth_eq_iff_index_eq nth_mem stays_at_def)
    ultimately show ?thesis using pk [OF 2(1)] by simp
  next
    case 3
    then show ?thesis using in_place_move_keeps_side [OF assms(1,2)] ij pk by auto
  next
    case 4
    then show ?thesis using in_place_moves_increasing [OF assms(1) ij] by blast
  qed
qed

end
