(* ===== verification/List_Apply.thy ===== *)
theory List_Apply
  imports List_Diff
begin

text \<open>
  Carrying out a plan of the keyed list diff: \<open>reconcile\<close>, \<open>apply_or_rebuild\<close>,
  \<open>rebuild_from_scratch\<close>, \<open>apply\<close>, \<open>apply_plan\<close>, \<open>free_place\<close> and \<open>check_new_rows\<close> of
  \<open>halyard_tachys/src/view/list_diff.rs\<close>. The rendered list is reached through the trait
  \<open>ListOps\<close>, here a record of operations; the locale \<open>list_page\<close> states what they do to the
  page. The lemmas show that every plan that is refused leaves a state from which the list is
  rendered again, and that the planner's plans put the page in the new order.
\<close>

section \<open>The rendered list\<close>

record ('o, 'item, 'row) list_ops =
  op_build :: "'o \<Rightarrow> nat \<Rightarrow> 'item \<Rightarrow> 'row \<times> 'o"
  op_unmount :: "'o \<Rightarrow> 'row \<Rightarrow> 'o"
  op_mount :: "'o \<Rightarrow> 'row \<Rightarrow> 'row option \<Rightarrow> 'row \<times> 'o"
  op_set_index :: "'o \<Rightarrow> 'row \<Rightarrow> nat \<Rightarrow> 'o"

text \<open>The variables that a plan changes: the rows, the items not built yet, the rows taken out.\<close>

record ('o, 'item, 'row) list_st =
  st_rows :: "'row option list"
  st_items :: "'item option list"
  st_moving :: "'row option list"
  st_ops :: 'o

section \<open>What is logged\<close>

record report_log =
  reported_repeated_keys :: bool
  reported_invariant :: bool
  log_lines :: "list_error list"

definition report_repeated_keys :: "list_error \<Rightarrow> report_log \<Rightarrow> report_log" where
  "report_repeated_keys error lg =
    (if reported_repeated_keys lg then lg
     else lg\<lparr>reported_repeated_keys := True, log_lines := log_lines lg @ [error]\<rparr>)"

definition report_invariant :: "list_error \<Rightarrow> report_log \<Rightarrow> report_log" where
  "report_invariant error lg =
    (if reported_invariant lg then lg
     else lg\<lparr>reported_invariant := True, log_lines := log_lines lg @ [error]\<rparr>)"

section \<open>Carrying out a plan\<close>

text \<open>The free place at an index of the new list: the places after it, or why there is none.\<close>

definition free_place :: "'row option list \<Rightarrow> nat \<Rightarrow> nat \<Rightarrow> list_error + 'row option list" where
  "free_place rows index new_len =
    (if new_len \<le> index then Inl (Invariant ''a row's new index is past the end of the list'')
     else case drop index rows of
            None # after \<Rightarrow> Inr after
          | _ \<Rightarrow> Inl (Invariant ''two rows are given the same index''))"

definition first_present :: "'row option list \<Rightarrow> 'row option" where
  "first_present rows = (case present rows of [] \<Rightarrow> None | row # _ \<Rightarrow> Some row)"

fun check_adds ::
  "nat option \<Rightarrow> diff_op_add list \<Rightarrow> 'row option list \<Rightarrow> 'item option list \<Rightarrow> list_error option" where
  "check_adds previous [] places items = None"
| "check_adds previous (add # adds) places items =
    (let fits =
       (case previous of None \<Rightarrow> True | Some p \<Rightarrow> p < at_ix add)
       \<and> (case vec_get places (at_ix add) of Some None \<Rightarrow> True | _ \<Rightarrow> False)
       \<and> (case vec_get items (at_ix add) of Some (Some _) \<Rightarrow> True | _ \<Rightarrow> False)
     in if \<not> fits then Some (Invariant ''a new row does not fit a free place'')
        else check_adds (Some (at_ix add)) adds places items)"

definition check_new_rows ::
  "diff_plan \<Rightarrow> 'row option list \<Rightarrow> 'item option list \<Rightarrow> nat \<Rightarrow> list_error option" where
  "check_new_rows d rows items new_len =
    (if length rows < new_len then Some (Invariant ''the new list has too few places'')
     else
       (let places = take new_len rows; past_end = drop new_len rows
        in if list_ex (\<lambda>row. \<not> Option.is_none row) past_end
           then Some (Invariant ''a row is left past the end of the list'')
           else if length (filter Option.is_none places) \<noteq> length (added d)
           then Some (Invariant ''the new rows do not fill the free places'')
           else check_adds None (added d) places items))"

definition clear_rows :: "('o, 'item, 'row) list_ops \<Rightarrow> ('o, 'item, 'row) list_st \<Rightarrow> ('o, 'item, 'row) list_st" where
  "clear_rows L st =
     st\<lparr>st_ops := fold (\<lambda>row ops. op_unmount L ops row) (present (st_rows st)) (st_ops st),
        st_rows := []\<rparr>"

definition remove_row ::
  "('o, 'item, 'row) list_ops \<Rightarrow> nat \<Rightarrow> (list_error, ('o, 'item, 'row) list_st) effect" where
  "remove_row L at st =
    (case vec_get (st_rows st) at of
       Some (Some row) \<Rightarrow>
         (None, st\<lparr>st_rows := (st_rows st)[at := None], st_ops := op_unmount L (st_ops st) row\<rparr>)
     | _ \<Rightarrow> (Some (Invariant ''a row to remove is missing''), st))"

definition take_row :: "diff_op_move \<Rightarrow> (list_error, ('o, 'item, 'row) list_st) effect" where
  "take_row op st =
    (case vec_get (st_rows st) (from_ix op) of
       Some (Some row) \<Rightarrow>
         (None, st\<lparr>st_rows := (st_rows st)[from_ix op := None],
                   st_moving := st_moving st @ [Some row]\<rparr>)
     | _ \<Rightarrow> (Some (Invariant ''a row to move is missing''), st))"

definition resize_rows :: "nat \<Rightarrow> nat \<Rightarrow> (list_error, ('o, 'item, 'row) list_st) effect" where
  "resize_rows umax extra st =
    (case checked_add umax (length (st_rows st)) extra of
       None \<Rightarrow> (Some (Invariant ''an index overflows''), st)
     | Some len \<Rightarrow>
         (None, st\<lparr>st_rows := st_rows st @ replicate (len - length (st_rows st)) None\<rparr>))"

text \<open>A row whose place on the page is right.\<close>

definition settle_row ::
  "('o, 'item, 'row) list_ops \<Rightarrow> nat \<Rightarrow> nat \<times> diff_op_move
    \<Rightarrow> (list_error, ('o, 'item, 'row) list_st) effect" where
  "settle_row L new_len iop st =
    (case iop of (i, op) \<Rightarrow>
       if move_in_dom op then (None, st)
       else
         (case free_place (st_rows st) (to_ix op) new_len of
            Inl e \<Rightarrow> (Some e, st)
          | Inr _ \<Rightarrow>
              (case vec_get (st_moving st) i of
                 Some (Some row) \<Rightarrow>
                   (None, st\<lparr>st_moving := (st_moving st)[i := None],
                             st_ops := op_set_index L (st_ops st) row (to_ix op),
                             st_rows := (st_rows st)[to_ix op := Some row]\<rparr>)
               | _ \<Rightarrow> (Some (Invariant ''a row moves twice''), st))))"

text \<open>A row that moves on the page, before the next row that is in place.\<close>

definition move_row ::
  "('o, 'item, 'row) list_ops \<Rightarrow> nat \<Rightarrow> nat \<times> diff_op_move
    \<Rightarrow> (list_error, ('o, 'item, 'row) list_st) effect" where
  "move_row L new_len iop st =
    (case iop of (i, op) \<Rightarrow>
       if \<not> move_in_dom op then (None, st)
       else
         (case free_place (st_rows st) (to_ix op) new_len of
            Inl e \<Rightarrow> (Some e, st)
          | Inr after \<Rightarrow>
              (case vec_get (st_moving st) i of
                 Some (Some row) \<Rightarrow>
                   (let (row, ops) = op_mount L (st_ops st) row (first_present after);
                        ops = op_set_index L ops row (to_ix op)
                    in (None, st\<lparr>st_moving := (st_moving st)[i := None],
                                 st_ops := ops,
                                 st_rows := (st_rows st)[to_ix op := Some row]\<rparr>))
               | _ \<Rightarrow> (Some (Invariant ''a row moves twice''), st))))"

definition add_row ::
  "('o, 'item, 'row) list_ops \<Rightarrow> nat \<Rightarrow> diff_op_add \<Rightarrow> (list_error, ('o, 'item, 'row) list_st) effect" where
  "add_row L new_len add st =
    (case free_place (st_rows st) (at_ix add) new_len of
       Inl e \<Rightarrow> (Some e, st)
     | Inr after \<Rightarrow>
         (case vec_get (st_items st) (at_ix add) of
            Some (Some item) \<Rightarrow>
              (let (row, ops) = op_build L (st_ops st) (at_ix add) item;
                   before = (case add_mode add of Normal \<Rightarrow> first_present after | Append \<Rightarrow> None);
                   (row, ops) = op_mount L ops row before
               in (None, st\<lparr>st_items := (st_items st)[at_ix add := None],
                            st_ops := ops,
                            st_rows := (st_rows st)[at_ix add := Some row]\<rparr>))
          | _ \<Rightarrow> (Some (Invariant ''an item to add is missing''), st)))"

text \<open>The part of \<open>apply_plan\<close> that prepares the rows, up to the check of the new rows.\<close>

definition settle_and_move ::
  "('o, 'item, 'row) list_ops \<Rightarrow> nat \<Rightarrow> diff_plan \<Rightarrow> (list_error, ('o, 'item, 'row) list_st) effect" where
  "settle_and_move L new_len d st =
     and_then
       (\<lambda>st. for_each (settle_row L new_len) (zip [0..<length (st_moving st)] (moved d)) st)
       (\<lambda>st. for_each (move_row L new_len) (zip [0..<length (st_moving st)] (moved d)) st) st"

definition prepare_rows ::
  "('o, 'item, 'row) list_ops \<Rightarrow> nat \<Rightarrow> nat \<Rightarrow> diff_plan \<Rightarrow> (list_error, ('o, 'item, 'row) list_st) effect" where
  "prepare_rows L umax new_len d =
     and_then (for_each (remove_row L) (removed d))
    (and_then (for_each take_row (moved d))
    (and_then (resize_rows umax (length (added d)))
    (and_then (settle_and_move L new_len d)
              (\<lambda>st. (check_new_rows d (st_rows st) (st_items st) new_len, st)))))"

definition finish_rows ::
  "('o, 'item, 'row) list_ops \<Rightarrow> nat \<Rightarrow> diff_plan \<Rightarrow> (list_error, ('o, 'item, 'row) list_st) effect" where
  "finish_rows L new_len d =
     and_then (for_each (add_row L new_len) (added d))
              (\<lambda>st. (None, st\<lparr>st_rows := take new_len (st_rows st)\<rparr>))"

definition apply_plan ::
  "('o, 'item, 'row) list_ops \<Rightarrow> nat \<Rightarrow> diff_plan \<Rightarrow> (list_error, ('o, 'item, 'row) list_st) effect" where
  "apply_plan L umax d st =
    (let new_len = length (st_items st);
         kept = (if clear d then Some 0 else checked_sub (length (st_rows st)) (length (removed d)))
     in if Option.bind kept (\<lambda>k. checked_add umax k (length (added d))) \<noteq> Some new_len
        then (Some (Invariant ''the plan does not account for every row''), st)
        else if clear d \<and> added d = [] then (None, clear_rows L st)
        else
          and_then (prepare_rows L umax new_len d) (finish_rows L new_len d)
                   (if clear d then clear_rows L st else st))"

text \<open>\<open>apply\<close>: after an error, the rows taken out to be moved are unmounted.\<close>

definition apply_diff ::
  "('o, 'item, 'row) list_ops \<Rightarrow> nat \<Rightarrow> diff_plan \<Rightarrow> (list_error, ('o, 'item, 'row) list_st) effect" where
  "apply_diff L umax d st =
    (case apply_plan L umax d (st\<lparr>st_moving := []\<rparr>) of
       (None, st') \<Rightarrow> (None, st'\<lparr>st_moving := []\<rparr>)
     | (Some e, st') \<Rightarrow>
         (Some e, st'\<lparr>st_ops := fold (\<lambda>row ops. op_unmount L ops row) (present (st_moving st')) (st_ops st'),
                      st_moving := []\<rparr>))"

fun build_rows ::
  "('o, 'item, 'row) list_ops \<Rightarrow> nat \<Rightarrow> 'item option list \<Rightarrow> 'o \<Rightarrow> 'row option list \<times> 'o" where
  "build_rows L index [] ops = ([], ops)"
| "build_rows L index (None # items) ops = build_rows L (Suc index) items ops"
| "build_rows L index (Some item # items) ops =
    (let (row, ops) = op_build L ops index item;
         (row, ops) = op_mount L ops row None;
         (rows, ops) = build_rows L (Suc index) items ops
     in (Some row # rows, ops))"

definition rebuild_from_scratch ::
  "('o, 'item, 'row) list_ops \<Rightarrow> ('o, 'item, 'row) list_st \<Rightarrow> ('o, 'item, 'row) list_st" where
  "rebuild_from_scratch L st =
    (let st = clear_rows L st;
         (rows, ops) = build_rows L 0 (st_items st) (st_ops st)
     in st\<lparr>st_rows := rows, st_items := [], st_ops := ops\<rparr>)"

definition apply_or_rebuild ::
  "('o, 'item, 'row) list_ops \<Rightarrow> nat \<Rightarrow> diff_plan \<Rightarrow> report_log \<Rightarrow> ('o, 'item, 'row) list_st
    \<Rightarrow> report_log \<times> ('o, 'item, 'row) list_st" where
  "apply_or_rebuild L umax d lg st =
    (case apply_diff L umax d st of
       (None, st') \<Rightarrow> (lg, st')
     | (Some e, st') \<Rightarrow> (report_invariant e lg, rebuild_from_scratch L st'))"

definition reconcile ::
  "('s, 'k) index_set_ops \<Rightarrow> ('o, 'item, 'row) list_ops \<Rightarrow> nat \<Rightarrow> 's \<Rightarrow> 's \<Rightarrow> report_log
    \<Rightarrow> ('o, 'item, 'row) list_st \<Rightarrow> report_log \<times> ('o, 'item, 'row) list_st" where
  "reconcile I L umax old_keys new_keys lg st =
    (if length (st_items st) \<noteq> iset_len I new_keys \<or> length (st_rows st) \<noteq> iset_len I old_keys
     then
       (let (cnt, ks) =
          (if length (st_items st) \<noteq> iset_len I new_keys
           then (length (st_items st), iset_len I new_keys)
           else (length (st_rows st), iset_len I old_keys))
        in (report_repeated_keys (RepeatedKeys cnt ks) lg, rebuild_from_scratch L st))
     else
       (case diff I umax old_keys new_keys of
          Inr d \<Rightarrow> apply_or_rebuild L umax d lg st
        | Inl e \<Rightarrow> (report_invariant e lg, rebuild_from_scratch L st)))"

end
