(* ===== verification/List_Page.thy ===== *)
theory List_Page
  imports List_Apply "HOL-Library.Multiset"
begin

text \<open>
  Why the page is right after an update of a keyed list. The locale \<open>list_page\<close> is the
  contract of the trait \<open>ListOps\<close>: what building, mounting, moving and unmounting a row do to
  the rows that the page shows. From it follow an invariant that every step of every plan
  keeps (the page shows exactly the rows that the list still holds), that a plan that is
  refused is refused before any item is used up, that rendering from scratch shows every item,
  and that the planner's own plans leave the rows in the order of the new keys.
\<close>

section \<open>The contract of the page\<close>

text \<open>Where the page puts a row: before the anchor, or at the end without one.\<close>

definition insert_before :: "'id \<Rightarrow> 'id option \<Rightarrow> 'id list \<Rightarrow> 'id list" where
  "insert_before x b xs =
    (case b of
       None \<Rightarrow> xs @ [x]
     | Some y \<Rightarrow> takeWhile (\<lambda>z. z \<noteq> y) xs @ x # dropWhile (\<lambda>z. z \<noteq> y) xs)"

text \<open>
  \<open>shown\<close> are the identities of the rows on the page, in order; \<open>owns\<close> says which rows this
  list built; \<open>content\<close> is what a row shows, which \<open>render\<close> gives for an item and its index;
  \<open>index_of\<close> is the index that a row was last told it is at.
\<close>

locale list_page =
  fixes L :: "('o, 'item, 'row) list_ops"
    and shown :: "'o \<Rightarrow> 'id list"
    and rid :: "'row \<Rightarrow> 'id"
    and content :: "'row \<Rightarrow> 'c"
    and render :: "nat \<Rightarrow> 'item \<Rightarrow> 'c"
    and owns :: "'o \<Rightarrow> 'row \<Rightarrow> bool"
    and index_of :: "'o \<Rightarrow> 'id \<Rightarrow> nat"
  assumes build_shown: "op_build L ops i it = (r, ops') \<Longrightarrow> shown ops' = shown ops"
    and build_content: "op_build L ops i it = (r, ops') \<Longrightarrow> content r = render i it"
    and build_owns: "op_build L ops i it = (r, ops') \<Longrightarrow> owns ops' r"
    and build_keeps: "op_build L ops i it = (r, ops') \<Longrightarrow> owns ops r' \<Longrightarrow> owns ops' r' \<and> rid r' \<noteq> rid r"
    and unmount_shown: "shown (op_unmount L ops r) = removeAll (rid r) (shown ops)"
    and unmount_keeps: "owns ops r' \<Longrightarrow> owns (op_unmount L ops r) r'"
    and mount_shown: "op_mount L ops r b = (r', ops') \<Longrightarrow>
      (\<And>a. b = Some a \<Longrightarrow> rid a \<in> set (shown ops) \<and> rid a \<noteq> rid r) \<Longrightarrow>
      shown ops' = insert_before (rid r) (map_option rid b) (removeAll (rid r) (shown ops))"
    and mount_row: "op_mount L ops r b = (r', ops') \<Longrightarrow> rid r' = rid r \<and> content r' = content r"
    and mount_keeps: "op_mount L ops r b = (r', ops') \<Longrightarrow> owns ops r \<Longrightarrow> owns ops' r'"
    and mount_keeps_other: "op_mount L ops r b = (r', ops') \<Longrightarrow> owns ops r'' \<Longrightarrow> owns ops' r''"
    and set_index_shown: "shown (op_set_index L ops r i) = shown ops"
    and set_index_keeps: "owns ops r' \<Longrightarrow> owns (op_set_index L ops r i) r'"
    and build_index: "op_build L ops i it = (r, ops') \<Longrightarrow> index_of ops' = (index_of ops)(rid r := i)"
    and unmount_index: "x \<noteq> rid r \<Longrightarrow> index_of (op_unmount L ops r) x = index_of ops x"
    and mount_index: "op_mount L ops r b = (r', ops') \<Longrightarrow> index_of ops' = index_of ops"
    and set_index_index: "owns ops r \<Longrightarrow> index_of (op_set_index L ops r i) = (index_of ops)(rid r := i)"

lemma set_insert_before [simp]: "set (insert_before x b xs) = insert x (set xs)"
proof (cases b)
  case (Some y)
  have "set xs = set (takeWhile (\<lambda>z. z \<noteq> y) xs) \<union> set (dropWhile (\<lambda>z. z \<noteq> y) xs)"
    by (metis set_append takeWhile_dropWhile_id)
  then show ?thesis using Some by (simp add: insert_before_def)
qed (simp add: insert_before_def)

lemma distinct_insert_before: "distinct xs \<Longrightarrow> x \<notin> set xs \<Longrightarrow> distinct (insert_before x b xs)"
proof (cases b)
  case (Some y)
  assume "distinct xs" "x \<notin> set xs"
  moreover have xs: "takeWhile (\<lambda>z. z \<noteq> y) xs @ dropWhile (\<lambda>z. z \<noteq> y) xs = xs"
    by (rule takeWhile_dropWhile_id)
  ultimately have "distinct (takeWhile (\<lambda>z. z \<noteq> y) xs @ dropWhile (\<lambda>z. z \<noteq> y) xs)"
    "x \<notin> set (takeWhile (\<lambda>z. z \<noteq> y) xs @ dropWhile (\<lambda>z. z \<noteq> y) xs)"
    by (simp_all only: xs) simp_all
  then show ?thesis using Some by (auto simp: insert_before_def simp del: takeWhile_dropWhile_id)
qed (auto simp: insert_before_def)

section \<open>Places in the rows\<close>

lemma free_place_InrD:
  assumes "free_place rows j n = Inr after"
  shows "j < n \<and> j < length rows \<and> rows ! j = None \<and> after = drop (Suc j) rows"
proof -
  obtain tl where d: "drop j rows = None # tl" and "after = tl" and "j < n"
    using assms by (auto simp: free_place_def split: if_splits list.splits option.splits)
  moreover have "j < length rows" using d by (metis drop_eq_Nil leI list.distinct(1))
  moreover have "rows ! j = None" "tl = drop (Suc j) rows"
    using d \<open>j < length rows\<close> by (simp_all add: Cons_nth_drop_Suc [symmetric])
  ultimately show ?thesis by simp
qed

lemma free_place_Inr [simp]:
  "j < n \<Longrightarrow> j < length rows \<Longrightarrow> rows ! j = None \<Longrightarrow> free_place rows j n = Inr (drop (Suc j) rows)"
  by (simp add: free_place_def Cons_nth_drop_Suc [symmetric])

lemma update_None_SomeD: "j < length rows \<Longrightarrow> rows[i := None] ! j = Some q \<Longrightarrow> rows ! j = Some q"
  by (cases "i = j") auto

lemma mset_present_take_out:
  assumes "vec_get rows j = Some (Some r)"
  shows "mset (present rows) = add_mset r (mset (present (rows[j := None])))"
proof -
  have "j < length rows" "rows ! j = Some r" using assms by (auto simp: vec_get_eq_Some)
  then show ?thesis by (simp add: present_split_at [of j rows] present_update)
qed

lemma present_put:
  assumes "j < length rows" and "rows ! j = None"
  shows "present rows = present (take j rows) @ present (drop (Suc j) rows)"
    and "present (rows[j := Some r]) = present (take j rows) @ r # present (drop (Suc j) rows)"
  using assms present_split_at [of j rows] by (simp_all add: present_update)

lemma mset_present_put:
  "j < length rows \<Longrightarrow> rows ! j = None \<Longrightarrow>
    mset (present (rows[j := Some r])) = add_mset r (mset (present rows))"
  by (simp add: present_put)

section \<open>The page shows exactly the rows the list holds\<close>

definition on_page ::
  "('o \<Rightarrow> 'id list) \<Rightarrow> ('row \<Rightarrow> 'id) \<Rightarrow> ('o \<Rightarrow> 'row \<Rightarrow> bool) \<Rightarrow> 'o \<Rightarrow> 'row list \<Rightarrow> bool" where
  "on_page shown rid owns ops live \<longleftrightarrow>
     distinct (map rid live) \<and> distinct (shown ops) \<and> set (shown ops) = rid ` set live
     \<and> (\<forall>r \<in> set live. owns ops r)"

definition live_rows :: "('o, 'item, 'row) list_st \<Rightarrow> 'row list" where
  "live_rows st = present (st_rows st) @ present (st_moving st)"

definition page_inv ::
  "('o \<Rightarrow> 'id list) \<Rightarrow> ('row \<Rightarrow> 'id) \<Rightarrow> ('o \<Rightarrow> 'row \<Rightarrow> bool) \<Rightarrow> ('o, 'item, 'row) list_st \<Rightarrow> bool" where
  "page_inv shown rid owns st \<longleftrightarrow> on_page shown rid owns (st_ops st) (live_rows st)"

text \<open>Which rows are live matters, not where they are kept.\<close>

lemma on_page_perm:
  assumes "mset xs = mset ys" and "on_page shown rid owns ops xs"
  shows "on_page shown rid owns ops ys"
proof -
  have "mset (map rid xs) = mset (map rid ys)" using assms(1) by simp
  then have "distinct (map rid xs) = distinct (map rid ys)" by (rule mset_eq_imp_distinct_iff)
  moreover have "set xs = set ys" using assms(1) by (rule mset_eq_setD)
  ultimately show ?thesis using assms(2) by (simp add: on_page_def)
qed

text \<open>Every row that the list holds was last told the index it is kept at.\<close>

definition indexed ::
  "('o \<Rightarrow> 'id \<Rightarrow> nat) \<Rightarrow> ('row \<Rightarrow> 'id) \<Rightarrow> ('o, 'item, 'row) list_st \<Rightarrow> bool" where
  "indexed index_of rid st \<longleftrightarrow>
     (\<forall>j r. j < length (st_rows st) \<longrightarrow> st_rows st ! j = Some r \<longrightarrow> index_of (st_ops st) (rid r) = j)"

lemma resize_rows_page_inv:
  "resize_rows umax k st = (e, st') \<Longrightarrow> page_inv shown rid owns st \<Longrightarrow> page_inv shown rid owns st'"
  by (auto simp: resize_rows_def page_inv_def live_rows_def split: option.splits)

text \<open>Each step either does nothing or does what the source does on success.\<close>

lemma take_rowE:
  assumes "take_row op st = (e, st')"
  obtains "st' = st" "e \<noteq> None"
  | r where "e = None" "vec_get (st_rows st) (from_ix op) = Some (Some r)"
      "st' = st\<lparr>st_rows := (st_rows st)[from_ix op := None], st_moving := st_moving st @ [Some r]\<rparr>"
  using assms by (auto simp: take_row_def split: option.splits)

lemma remove_rowE:
  assumes "remove_row L at st = (e, st')"
  obtains "st' = st" "e \<noteq> None"
  | r where "e = None" "vec_get (st_rows st) at = Some (Some r)"
      "st' = st\<lparr>st_rows := (st_rows st)[at := None], st_ops := op_unmount L (st_ops st) r\<rparr>"
  using assms by (auto simp: remove_row_def split: option.splits)

lemma settle_rowE:
  assumes "settle_row L n (i, op) st = (e, st')"
  obtains "st' = st"
  | r where "e = None" "\<not> move_in_dom op" "to_ix op < n" "to_ix op < length (st_rows st)"
      "st_rows st ! to_ix op = None" "vec_get (st_moving st) i = Some (Some r)"
      "st' = st\<lparr>st_moving := (st_moving st)[i := None],
         st_ops := op_set_index L (st_ops st) r (to_ix op),
         st_rows := (st_rows st)[to_ix op := Some r]\<rparr>"
proof (cases "st' = st")
  case False
  then obtain r after where "e = None" "\<not> move_in_dom op" "free_place (st_rows st) (to_ix op) n = Inr after"
      "vec_get (st_moving st) i = Some (Some r)"
      "st' = st\<lparr>st_moving := (st_moving st)[i := None],
         st_ops := op_set_index L (st_ops st) r (to_ix op),
         st_rows := (st_rows st)[to_ix op := Some r]\<rparr>"
    using assms by (auto simp: settle_row_def split: if_splits sum.splits option.splits)
  then show ?thesis using that(2) free_place_InrD by blast
qed (rule that(1))

lemma move_rowE:
  assumes "move_row L n (i, op) st = (e, st')"
  obtains "st' = st"
  | r r' ops where "e = None" "move_in_dom op" "to_ix op < n" "to_ix op < length (st_rows st)"
      "st_rows st ! to_ix op = None" "vec_get (st_moving st) i = Some (Some r)"
      "op_mount L (st_ops st) r (first_present (drop (Suc (to_ix op)) (st_rows st))) = (r', ops)"
      "st' = st\<lparr>st_moving := (st_moving st)[i := None], st_ops := op_set_index L ops r' (to_ix op),
         st_rows := (st_rows st)[to_ix op := Some r']\<rparr>"
proof (cases "st' = st")
  case False
  then obtain r r' ops after where "e = None" "move_in_dom op"
      and f: "free_place (st_rows st) (to_ix op) n = Inr after"
      and r: "vec_get (st_moving st) i = Some (Some r)"
      and m: "op_mount L (st_ops st) r (first_present after) = (r', ops)"
      and st': "st' = st\<lparr>st_moving := (st_moving st)[i := None], st_ops := op_set_index L ops r' (to_ix op),
         st_rows := (st_rows st)[to_ix op := Some r']\<rparr>"
    using assms by (auto simp: move_row_def split: if_splits sum.splits option.splits prod.splits)
  show ?thesis using that(2) [OF \<open>e = None\<close> \<open>move_in_dom op\<close> _ _ _ r _ st'] free_place_InrD [OF f] m by simp
qed (rule that(1))

definition anchor :: "diff_op_add \<Rightarrow> 'row option list \<Rightarrow> 'row option" where
  "anchor add rows =
    (case add_mode add of Normal \<Rightarrow> first_present (drop (Suc (at_ix add)) rows) | Append \<Rightarrow> None)"

lemma first_present_SomeD: "first_present (drop k rows) = Some x \<Longrightarrow> x \<in> set (present rows)"
proof -
  assume "first_present (drop k rows) = Some x"
  then have "x \<in> set (present (drop k rows))" by (auto simp: first_present_def split: list.splits)
  then show ?thesis using set_drop_subset [of k rows] by (auto simp: set_present)
qed

lemma anchor_SomeD: "anchor add rows = Some x \<Longrightarrow> x \<in> set (present rows)"
  by (auto simp: anchor_def dest: first_present_SomeD split: diff_op_add_mode.splits)

lemma add_rowE:
  assumes "add_row L n add st = (e, st')"
  obtains "st' = st" "e \<noteq> None"
  | it r r' ops ops' where "e = None" "at_ix add < n" "at_ix add < length (st_rows st)"
      "st_rows st ! at_ix add = None" "vec_get (st_items st) (at_ix add) = Some (Some it)"
      "op_build L (st_ops st) (at_ix add) it = (r, ops)"
      "op_mount L ops r (anchor add (st_rows st)) = (r', ops')"
      "st' = st\<lparr>st_items := (st_items st)[at_ix add := None], st_ops := ops',
         st_rows := (st_rows st)[at_ix add := Some r']\<rparr>"
proof (cases "free_place (st_rows st) (at_ix add) n")
  case (Inr after)
  show ?thesis
  proof (cases "\<exists>it. vec_get (st_items st) (at_ix add) = Some (Some it)")
    case True
    then obtain it where it: "vec_get (st_items st) (at_ix add) = Some (Some it)" by blast
    obtain r ops where b: "op_build L (st_ops st) (at_ix add) it = (r, ops)" by fastforce
    obtain r' ops' where m: "op_mount L ops r (anchor add (st_rows st)) = (r', ops')" by fastforce
    have "e = None" and st': "st' = st\<lparr>st_items := (st_items st)[at_ix add := None], st_ops := ops',
         st_rows := (st_rows st)[at_ix add := Some r']\<rparr>"
      using assms Inr it b m free_place_InrD [OF Inr] by (simp_all add: add_row_def anchor_def)
    then show ?thesis using that(2) free_place_InrD [OF Inr] it b m by blast
  next
    case False
    then have "st' = st" "e \<noteq> None" using assms Inr by (auto simp: add_row_def split: option.splits)
    then show ?thesis by (rule that(1))
  qed
next
  case (Inl x)
  then have "st' = st" "e \<noteq> None" using assms by (auto simp: add_row_def)
  then show ?thesis by (rule that(1))
qed

lemma take_row_page_inv:
  assumes "take_row op st = (e, st')" and "page_inv shown rid owns st"
  shows "page_inv shown rid owns st'"
  using assms(1)
proof (cases rule: take_rowE)
  case (2 r)
  have "mset (live_rows st) = mset (live_rows st')" and "st_ops st' = st_ops st"
    using 2 by (auto simp: live_rows_def mset_present_take_out [OF 2(2)])
  with assms(2) show ?thesis by (auto simp: page_inv_def intro: on_page_perm)
qed (use assms(2) in simp)

context list_page begin

abbreviation "pinv \<equiv> page_inv shown rid owns"
abbreviation "onp \<equiv> on_page shown rid owns"

lemma on_page_unmount: "onp ops (r # rs) \<Longrightarrow> onp (op_unmount L ops r) rs"
  by (auto simp: on_page_def unmount_shown unmount_keeps distinct_removeAll)

lemma on_page_set_index: "onp ops rs \<Longrightarrow> onp (op_set_index L ops r i) rs"
  by (simp add: on_page_def set_index_shown set_index_keeps)

lemma on_page_mount:
  assumes "op_mount L ops r b = (r', ops')" and "onp ops (r # rs)" and "\<And>a. b = Some a \<Longrightarrow> a \<in> set rs"
  shows "onp ops' (r' # rs)"
proof -
  have "rid a \<in> set (shown ops) \<and> rid a \<noteq> rid r" if "b = Some a" for a
    using assms(2) assms(3) [OF that] by (auto simp: on_page_def) (metis imageI)
  then show ?thesis
    using assms mount_row [OF assms(1)] mount_shown [OF assms(1)] mount_keeps [OF assms(1)]
      mount_keeps_other [OF assms(1)]
    by (auto simp: on_page_def distinct_insert_before distinct_removeAll)
qed

lemma on_page_build_mount:
  assumes b: "op_build L ops i it = (r, ops1)" and m: "op_mount L ops1 r a = (r', ops2)"
    and "onp ops rs" and anchored: "\<And>q. a = Some q \<Longrightarrow> q \<in> set rs"
  shows "onp ops2 (r' # rs)"
proof -
  have keep: "owns ops1 q \<and> rid q \<noteq> rid r" if "q \<in> set rs" for q
    using build_keeps [OF b] assms(3) that by (simp add: on_page_def)
  then have new: "rid r \<notin> rid ` set rs" by force
  then have "rid q \<in> set (shown ops1) \<and> rid q \<noteq> rid r" if "a = Some q" for q
    using assms(3) anchored [OF that] keep build_shown [OF b] by (auto simp: on_page_def)
  then show ?thesis
    using keep new assms(3) build_shown [OF b] build_owns [OF b] mount_row [OF m] mount_shown [OF m]
      mount_keeps [OF m] mount_keeps_other [OF m]
    by (auto simp: on_page_def distinct_insert_before distinct_removeAll)
qed

lemma remove_row_page_inv:
  assumes "remove_row L at st = (e, st')" and "pinv st"
  shows "pinv st'"
  using assms(1)
proof (cases rule: remove_rowE)
  case (2 r)
  have perm: "mset (live_rows st) = mset (r # live_rows st')"
    using 2 by (auto simp: live_rows_def mset_present_take_out [OF 2(2)])
  have "onp (st_ops st) (r # live_rows st')"
    using assms(2) by (intro on_page_perm [OF perm]) (simp add: page_inv_def)
  then show ?thesis using 2 by (simp add: page_inv_def on_page_unmount)
qed (use assms(2) in simp)

lemma settle_row_page_inv:
  assumes "settle_row L n (i, op) st = (e, st')" and "pinv st"
  shows "pinv st'"
  using assms(1)
proof (cases rule: settle_rowE)
  case (2 r)
  have "mset (live_rows st) = mset (live_rows st')"
    using 2 by (simp add: live_rows_def mset_present_put mset_present_take_out [OF 2(6)])
  with assms(2) 2 show ?thesis
    by (auto simp: page_inv_def intro: on_page_perm on_page_set_index)
qed (use assms(2) in simp)

lemma move_row_page_inv:
  assumes "move_row L n (i, op) st = (e, st')" and "pinv st"
  shows "pinv st'"
  using assms(1)
proof (cases rule: move_rowE)
  case (2 r r' ops)
  let ?rest = "present (st_rows st) @ present ((st_moving st)[i := None])"
  have "mset (live_rows st) = mset (r # ?rest)"
    by (simp add: live_rows_def mset_present_take_out [OF 2(6)])
  then have "onp (st_ops st) (r # ?rest)"
    using assms(2) by (rule on_page_perm [OF _ page_inv_def [THEN iffD1]])
  then have "onp ops (r' # ?rest)"
    by (rule on_page_mount [OF 2(7)]) (simp add: first_present_SomeD)
  moreover have "mset (r' # ?rest) = mset (live_rows st')"
    using 2 by (simp add: live_rows_def mset_present_put)
  ultimately have "onp ops (live_rows st')" by (rule on_page_perm [rotated])
  then show ?thesis using 2 by (simp add: page_inv_def on_page_set_index)
qed (use assms(2) in simp)

lemma add_row_page_inv:
  assumes "add_row L n add st = (e, st')" and "pinv st"
  shows "pinv st'"
  using assms(1)
proof (cases rule: add_rowE)
  case (2 it r r' ops ops')
  have "onp ops' (r' # live_rows st)"
    using assms(2)
    by (intro on_page_build_mount [OF 2(6,7)]) (simp_all add: page_inv_def live_rows_def anchor_SomeD)
  moreover have "mset (r' # live_rows st) = mset (live_rows st')"
    using 2 by (simp add: live_rows_def mset_present_put)
  ultimately have "onp ops' (live_rows st')" by (rule on_page_perm [rotated])
  then show ?thesis using 2 by (simp add: page_inv_def)
qed (use assms(2) in simp)

lemma present_nthI: "j < length rows \<Longrightarrow> rows ! j = Some r \<Longrightarrow> r \<in> set (present rows)"
  by (metis mem_Collect_eq nth_mem set_present)

lemma page_inv_live:
  assumes "pinv st"
  shows "r \<in> set (present (st_rows st)) \<Longrightarrow> q \<in> set (present (st_moving st)) \<Longrightarrow> rid r \<noteq> rid q"
  using assms by (auto simp: page_inv_def on_page_def live_rows_def)

lemma indexed_put:
  assumes "indexed index_of rid st" and "rid r \<notin> rid ` set (present (st_rows st))"
    and "index_of ops = (index_of (st_ops st))(rid r := j)"
    and "st_ops st' = ops" and "st_rows st' = (st_rows st)[j := Some r]"
  shows "indexed index_of rid st'"
  unfolding indexed_def
proof (intro allI impI)
  fix k q assume k: "k < length (st_rows st')" "st_rows st' ! k = Some q"
  show "index_of (st_ops st') (rid q) = k"
  proof (cases "k = j")
    case True
    then have "q = r" using k assms(5) by simp
    then show ?thesis using assms(3,4) True by simp
  next
    case False
    then have q: "k < length (st_rows st)" "st_rows st ! k = Some q" using k assms(5) by simp_all
    then have "rid q \<noteq> rid r" using assms(2) present_nthI [OF q] by (metis imageI)
    then show ?thesis using assms(1,3,4) q by (simp add: indexed_def)
  qed
qed

lemma move_steps_indexed:
  assumes "pinv st" and "indexed index_of rid st"
  shows "settle_row L n (i, op) st = (e, st') \<Longrightarrow> indexed index_of rid st'"
    and "move_row L n (i, op) st = (e, st') \<Longrightarrow> indexed index_of rid st'"
proof -
  have moving: "rid r \<notin> rid ` set (present (st_rows st))" if "vec_get (st_moving st) i = Some (Some r)" for r
    using page_inv_live [OF assms(1)] present_nthI that by (fastforce simp: vec_get_eq_Some)
  have own: "owns (st_ops st) r" if "vec_get (st_moving st) i = Some (Some r)" for r
    using assms(1) present_nthI [of i "st_moving st" r] that
    by (simp add: vec_get_eq_Some page_inv_def on_page_def live_rows_def)
  show "indexed index_of rid st'" if "settle_row L n (i, op) st = (e, st')"
    using that
  proof (cases rule: settle_rowE)
    case (2 r)
    show ?thesis
      by (rule indexed_put [OF assms(2) moving [OF 2(6)]]) (use 2 own [OF 2(6)] in \<open>simp_all add: set_index_index\<close>)
  qed (use assms in simp)
  show "indexed index_of rid st'" if "move_row L n (i, op) st = (e, st')"
    using that
  proof (cases rule: move_rowE)
    case (2 r r' ops)
    show ?thesis
      by (rule indexed_put [OF assms(2), where r = r'])
         (use 2 moving [OF 2(6)] mount_keeps [OF 2(7) own [OF 2(6)]] mount_row [OF 2(7)] mount_index [OF 2(7)] in \<open>simp_all add: set_index_index\<close>)
  qed (use assms in simp)
qed

lemma take_out_steps_indexed:
  assumes "pinv st" and "indexed index_of rid st"
  shows "remove_row L at st = (e, st') \<Longrightarrow> indexed index_of rid st'"
    and "take_row op st = (e, st') \<Longrightarrow> indexed index_of rid st'"
    and "resize_rows umax k st = (e, st') \<Longrightarrow> indexed index_of rid st'"
proof -
  show "indexed index_of rid st'" if "remove_row L at st = (e, st')"
    using that
  proof (cases rule: remove_rowE)
    case (2 r)
    have "mset (present (st_rows st)) = add_mset r (mset (present ((st_rows st)[at := None])))"
      by (rule mset_present_take_out [OF 2(2)])
    then have "mset (live_rows st) = mset (r # present ((st_rows st)[at := None] @ st_moving st))"
      by (simp add: live_rows_def)
    then have "onp (st_ops st) (r # present ((st_rows st)[at := None] @ st_moving st))"
      using assms(1) unfolding page_inv_def by (rule on_page_perm)
    then have "rid r \<notin> rid ` set (present ((st_rows st)[at := None]))" by (auto simp: on_page_def)
    then have "rid q \<noteq> rid r" if "j < length (st_rows st)" "(st_rows st)[at := None] ! j = Some q" for j q
      using present_nthI [of j "(st_rows st)[at := None]" q] that by (metis imageI length_list_update)
    then show ?thesis
      using assms(2) 2 unmount_index update_None_SomeD by (fastforce simp: indexed_def)
  qed (use assms in simp)
  show "indexed index_of rid st'" if "take_row op st = (e, st')"
    using that
    by (cases rule: take_rowE) (use assms(2) update_None_SomeD in \<open>fastforce simp: indexed_def\<close>)+
  show "indexed index_of rid st'" if "resize_rows umax k st = (e, st')"
    using that assms(2)
    by (auto simp: indexed_def resize_rows_def nth_append split: option.splits if_splits)
qed

lemma add_row_indexed:
  assumes "add_row L n add st = (e, st')" and "pinv st" and "indexed index_of rid st"
  shows "indexed index_of rid st'"
  using assms(1)
proof (cases rule: add_rowE)
  case (2 it r r' ops ops')
  have "rid r \<noteq> rid q" if "q \<in> set (present (st_rows st))" for q
    using build_keeps [OF 2(6)] assms(2) that by (force simp: page_inv_def on_page_def live_rows_def)
  then have "rid r' \<notin> rid ` set (present (st_rows st))" using mount_row [OF 2(7)] by auto
  then show ?thesis
    by (rule indexed_put [OF assms(3)])
       (use 2 build_index [OF 2(6)] mount_row [OF 2(7)] mount_index [OF 2(7)] in simp_all)
qed (use assms in simp)

lemma on_page_unmount_all:
  "onp ops (rs @ qs) \<Longrightarrow> onp (fold (\<lambda>row ops. op_unmount L ops row) rs ops) qs"
  by (induction rs arbitrary: ops) (auto dest: on_page_unmount)

lemma clear_rows_page_inv: "pinv st \<Longrightarrow> pinv (clear_rows L st)"
  by (simp add: page_inv_def clear_rows_def live_rows_def on_page_unmount_all)

end

section \<open>A plan that is refused is refused before any item is used up\<close>

lemma prepare_steps_items:
  "remove_row L at st = (e, st') \<Longrightarrow> st_items st' = st_items st"
  "take_row op st = (e, st') \<Longrightarrow> st_items st' = st_items st"
  "resize_rows umax k st = (e, st') \<Longrightarrow> st_items st' = st_items st"
  "settle_row L n iop st = (e, st') \<Longrightarrow> st_items st' = st_items st"
  "move_row L n iop st = (e, st') \<Longrightarrow> st_items st' = st_items st"
  by (auto simp: remove_row_def take_row_def resize_rows_def settle_row_def move_row_def
      split: option.splits sum.splits prod.splits if_splits)

lemma keeps_prepare_rows:
  assumes "\<And>at. keeps P (remove_row L at)" and "\<And>op. keeps P (take_row op)"
    and "keeps P (resize_rows umax (length (added d)))"
    and settle: "\<And>i op. keeps P (settle_row L n (i, op))" and move: "\<And>i op. keeps P (move_row L n (i, op))"
  shows "keeps P (prepare_rows L umax n d)"
proof -
  have "keeps P (settle_row L n iop)" "keeps P (move_row L n iop)" for iop
    using settle move by (cases iop; simp)+
  then have "keeps P (settle_and_move L n d)"
    unfolding settle_and_move_def [abs_def]
    by (intro keeps_and_then keeps_for_each assms)
  moreover have "keeps P (for_each (remove_row L) (removed d))" "keeps P (for_each take_row (moved d))"
    by (rule keeps_for_each [where xs = "\<lambda>_. _"], rule assms)+
  moreover have "keeps P (\<lambda>st. (check_new_rows d (st_rows st) (st_items st) n, st))"
    by (simp add: keeps_def)
  ultimately show ?thesis
    unfolding prepare_rows_def by (intro keeps_and_then assms(3))
qed

lemma prepare_rows_items:
  assumes "prepare_rows L umax n d st = (e, st')"
  shows "st_items st' = st_items st"
proof -
  have "keeps (\<lambda>s. st_items s = st_items st) (prepare_rows L umax n d)"
    by (rule keeps_prepare_rows) (auto intro!: keepsI dest: prepare_steps_items)
  then show ?thesis using assms by (blast dest: keepsD)
qed

lemma check_adds_NoneD:
  "check_adds p adds places items = None \<Longrightarrow>
     sorted_wrt (\<lambda>a b. at_ix a < at_ix b) adds
     \<and> (\<forall>a \<in> set adds. at_ix a < length places \<and> places ! at_ix a = None
          \<and> at_ix a < length items \<and> items ! at_ix a \<noteq> None)
     \<and> (\<forall>q. p = Some q \<longrightarrow> (\<forall>a \<in> set adds. q < at_ix a))"
proof (induction adds arbitrary: p)
  case (Cons a adds)
  from Cons.prems have later: "check_adds (Some (at_ix a)) adds places items = None"
    and first: "p = Some q \<Longrightarrow> q < at_ix a" "at_ix a < length places \<and> places ! at_ix a = None"
      "at_ix a < length items \<and> items ! at_ix a \<noteq> None" for q
    by (simp_all add: Let_def vec_get_def split: if_splits option.splits)
  note IH = Cons.IH [OF later]
  from IH have "\<forall>b \<in> set adds. at_ix a < at_ix b" by simp
  moreover from this first(1) have "\<forall>b \<in> set adds. q < at_ix b" if "p = Some q" for q
    using that less_trans by blast
  ultimately show ?case using IH first by simp
qed simp

lemma check_new_rows_NoneD:
  assumes "check_new_rows d rows items n = None"
  shows "n \<le> length rows" and "\<forall>j. n \<le> j \<and> j < length rows \<longrightarrow> rows ! j = None"
    and "sorted_wrt (\<lambda>a b. at_ix a < at_ix b) (added d)"
    and "\<forall>a \<in> set (added d). at_ix a < n \<and> rows ! at_ix a = None
           \<and> at_ix a < length items \<and> items ! at_ix a \<noteq> None"
    and "length (filter Option.is_none (take n rows)) = length (added d)"
proof -
  have n: "n \<le> length rows" and past: "list_all Option.is_none (drop n rows)"
    and free: "length (filter Option.is_none (take n rows)) = length (added d)"
    and adds: "check_adds None (added d) (take n rows) items = None"
    using assms
    by (auto simp: check_new_rows_def Let_def list_all_iff list_ex_iff split: if_splits)
  show "n \<le> length rows" by (rule n)
  show "length (filter Option.is_none (take n rows)) = length (added d)" by (rule free)
  show "\<forall>j. n \<le> j \<and> j < length rows \<longrightarrow> rows ! j = None"
  proof (intro allI impI)
    fix j assume "n \<le> j \<and> j < length rows"
    then have "rows ! j \<in> set (drop n rows)"
      using nth_mem [of "j - n" "drop n rows"] by (simp add: diff_less_mono)
    then show "rows ! j = None" using past by (simp add: list_all_iff is_none_simps Option.is_none_def split: option.splits)
  qed
  show "sorted_wrt (\<lambda>a b. at_ix a < at_ix b) (added d)"
    and "\<forall>a \<in> set (added d). at_ix a < n \<and> rows ! at_ix a = None
           \<and> at_ix a < length items \<and> items ! at_ix a \<noteq> None"
    using check_adds_NoneD [OF adds] n by auto
qed

text \<open>Once the new rows have been checked, adding them cannot fail.\<close>

lemma add_rows_succeed:
  assumes "sorted_wrt (\<lambda>a b. at_ix a < at_ix b) adds"
    and "\<forall>a \<in> set adds. at_ix a < n \<and> at_ix a < length (st_rows st) \<and> st_rows st ! at_ix a = None
           \<and> at_ix a < length (st_items st) \<and> st_items st ! at_ix a \<noteq> None"
  shows "\<exists>st'. for_each (add_row L n) adds st = (None, st')"
  using assms
proof (induction adds arbitrary: st)
  case (Cons a adds)
  from Cons.prems(2) obtain it where it: "st_items st ! at_ix a = Some it" by auto
  obtain r0 ops0 where b: "op_build L (st_ops st) (at_ix a) it = (r0, ops0)" by fastforce
  obtain r ops where m: "op_mount L ops0 r0 (case add_mode a of
      Normal \<Rightarrow> first_present (drop (Suc (at_ix a)) (st_rows st)) | Append \<Rightarrow> None) = (r, ops)" by fastforce
  from Cons.prems(2) it b m have
    st1: "add_row L n a st = (None, st\<lparr>st_items := (st_items st)[at_ix a := None], st_ops := ops,
            st_rows := (st_rows st)[at_ix a := Some r]\<rparr>)" (is "_ = (None, ?st1)")
    by (simp add: add_row_def Let_def)
  have "\<exists>st'. for_each (add_row L n) adds ?st1 = (None, st')"
    using Cons.prems by (intro Cons.IH) (auto simp: nth_list_update)
  with st1 show ?case by simp
qed simp

lemma finish_rows_succeeds:
  assumes "check_new_rows d (st_rows st) (st_items st) n = None"
  shows "\<exists>st'. finish_rows L n d st = (None, st')"
proof -
  note chk = check_new_rows_NoneD [OF assms]
  have "\<exists>st'. for_each (add_row L n) (added d) st = (None, st')"
    using chk(1,3,4) by (intro add_rows_succeed) auto
  then show ?thesis by (auto simp: finish_rows_def and_then_def)
qed

lemma prepare_rows_checked:
  assumes "prepare_rows L umax n d st = (None, st')"
  shows "check_new_rows d (st_rows st') (st_items st') n = None"
  using assms unfolding prepare_rows_def by (elim and_then_NoneD) simp

context list_page begin

lemma keeps_page_inv_prepare: "keeps pinv (prepare_rows L umax n d)"
  by (rule keeps_prepare_rows)
     (blast intro: keepsI remove_row_page_inv take_row_page_inv resize_rows_page_inv
       settle_row_page_inv move_row_page_inv)+

text \<open>Whatever the plan: after an error every item is still there and every row on the page is known.\<close>

lemma apply_plan_error:
  assumes "apply_plan L umax d st = (Some e, st')" and "pinv st"
  shows "pinv st' \<and> st_items st' = st_items st"
proof -
  let ?st0 = "if clear d then clear_rows L st else st" and ?n = "length (st_items st)"
  consider "st' = st" | "and_then (prepare_rows L umax ?n d) (finish_rows L ?n d) ?st0 = (Some e, st')"
    using assms(1) by (auto simp: apply_plan_def Let_def split: if_splits)
  then show ?thesis
  proof cases
    case 1
    then show ?thesis using assms(2) by simp
  next
    case 2
    obtain e1 st1 where st1: "prepare_rows L umax ?n d ?st0 = (e1, st1)" by fastforce
    have "e1 = Some e \<and> st1 = st'"
    proof (cases e1)
      case None
      then have "check_new_rows d (st_rows st1) (st_items st1) ?n = None"
        using st1 prepare_rows_checked by blast
      then obtain st2 where "finish_rows L ?n d st1 = (None, st2)" using finish_rows_succeeds by blast
      with 2 st1 None show ?thesis by (simp add: and_then_def)
    qed (use 2 st1 in \<open>simp add: and_then_def\<close>)
    moreover have "pinv ?st0" using assms(2) clear_rows_page_inv by simp
    ultimately show ?thesis
      using keepsD [OF keeps_page_inv_prepare st1] prepare_rows_items [OF st1]
      by (auto simp: clear_rows_def split: if_splits)
  qed
qed

lemma apply_diff_error:
  assumes "apply_diff L umax d st = (Some e, st')" and "pinv st" and "st_moving st = []"
  shows "onp (st_ops st') (present (st_rows st')) \<and> st_items st' = st_items st \<and> st_moving st' = []"
proof -
  obtain st1 where st1: "apply_plan L umax d (st\<lparr>st_moving := []\<rparr>) = (Some e, st1)"
    and st': "st' = st1\<lparr>st_ops := fold (\<lambda>row ops. op_unmount L ops row) (present (st_moving st1)) (st_ops st1),
                       st_moving := []\<rparr>"
    using assms(1) by (auto simp: apply_diff_def split: prod.splits option.splits)
  have "pinv (st\<lparr>st_moving := []\<rparr>)" using assms(2,3) by (simp add: page_inv_def live_rows_def)
  from apply_plan_error [OF st1 this] have inv: "onp (st_ops st1) (live_rows st1)" "st_items st1 = st_items st"
    by (simp_all add: page_inv_def)
  have "mset (live_rows st1) = mset (present (st_moving st1) @ present (st_rows st1))"
    by (simp add: live_rows_def)
  then have "onp (st_ops st1) (present (st_moving st1) @ present (st_rows st1))"
    using inv(1) by (rule on_page_perm)
  then show ?thesis using inv(2) st' on_page_unmount_all by simp
qed

section \<open>Rendering from scratch shows every item\<close>

lemma build_rows_correct:
  assumes "build_rows L i (map Some its) ops = (rows, ops')" and "onp ops rs" and "shown ops = map rid rs"
  shows "\<exists>new. rows = map Some new \<and> length new = length its
     \<and> (\<forall>k < length its. content (new ! k) = render (i + k) (its ! k))
     \<and> onp ops' (rs @ new) \<and> shown ops' = map rid (rs @ new)
     \<and> (\<forall>q. owns ops q \<longrightarrow> owns ops' q \<and> (\<forall>r \<in> set new. rid r \<noteq> rid q))
     \<and> (\<forall>k < length its. index_of ops' (rid (new ! k)) = i + k)
     \<and> (\<forall>x. x \<notin> rid ` set new \<longrightarrow> index_of ops' x = index_of ops x)"
  using assms
proof (induction its arbitrary: i ops rs rows)
  case (Cons it its)
  obtain r ops1 where b: "op_build L ops i it = (r, ops1)" by fastforce
  obtain r1 ops2 where m: "op_mount L ops1 r None = (r1, ops2)" by fastforce
  obtain rows2 where rows2: "build_rows L (Suc i) (map Some its) ops2 = (rows2, ops')"
    and rows: "rows = Some r1 # rows2"
    using Cons.prems(1) b m by (auto split: prod.splits)
  have "onp ops2 (r1 # rs)" by (rule on_page_build_mount [OF b m Cons.prems(2)]) simp
  then have on: "onp ops2 (rs @ [r1])" by (rule on_page_perm [rotated]) simp
  have "rid r \<notin> set (shown ops)"
    using build_keeps [OF b] Cons.prems(2) by (force simp: on_page_def)
  then have sh: "shown ops2 = map rid (rs @ [r1])"
    using Cons.prems(3) build_shown [OF b] mount_shown [OF m] mount_row [OF m]
    by (simp add: insert_before_def removeAll_id)
  from Cons.IH [OF rows2 on sh] obtain new where new: "rows2 = map Some new" "length new = length its"
    "\<forall>k < length its. content (new ! k) = render (Suc i + k) (its ! k)"
    "onp ops' ((rs @ [r1]) @ new)" "shown ops' = map rid ((rs @ [r1]) @ new)"
    "\<forall>q. owns ops2 q \<longrightarrow> owns ops' q \<and> (\<forall>r \<in> set new. rid r \<noteq> rid q)"
    "\<forall>k < length its. index_of ops' (rid (new ! k)) = Suc i + k"
    "\<forall>x. x \<notin> rid ` set new \<longrightarrow> index_of ops' x = index_of ops2 x" by blast
  have "content r1 = render i it" using build_content [OF b] mount_row [OF m] by simp
  then have "\<forall>k < length (it # its). content ((r1 # new) ! k) = render (i + k) ((it # its) ! k)"
    using new(3) by (auto simp: nth_Cons split: nat.splits)
  moreover have "owns ops' q \<and> (\<forall>r \<in> set (r1 # new). rid r \<noteq> rid q)" if "owns ops q" for q
    using build_keeps [OF b that] mount_keeps_other [OF m] mount_row [OF m] new(6) by auto
  moreover have ix2: "index_of ops2 = (index_of ops)(rid r1 := i)"
    using mount_index [OF m] build_index [OF b] mount_row [OF m] by simp
  moreover have "rid r1 \<notin> rid ` set new" using new(4) by (auto simp: on_page_def)
  then have "\<forall>k < length (it # its). index_of ops' (rid ((r1 # new) ! k)) = i + k"
    using new(7,8) ix2 by (auto simp: nth_Cons split: nat.splits)
  ultimately show ?case using new rows by (intro exI [of _ "r1 # new"]) auto
qed auto

text \<open>What a fresh rendering of \<open>its\<close> on a page that showed the rows \<open>rs\<close> is.\<close>

lemma rebuild_from_scratch_correct:
  assumes "onp (st_ops st) (present (st_rows st))" and "st_items st = map Some its"
  shows "\<exists>new. st_rows (rebuild_from_scratch L st) = map Some new \<and> length new = length its
     \<and> (\<forall>k < length its. content (new ! k) = render k (its ! k))
     \<and> onp (st_ops (rebuild_from_scratch L st)) new
     \<and> shown (st_ops (rebuild_from_scratch L st)) = map rid new
     \<and> (\<forall>k < length its. index_of (st_ops (rebuild_from_scratch L st)) (rid (new ! k)) = k)"
proof -
  let ?ops = "fold (\<lambda>row ops. op_unmount L ops row) (present (st_rows st)) (st_ops st)"
  have on: "onp ?ops []" using assms(1) by (intro on_page_unmount_all) simp
  then have sh: "shown ?ops = map rid []" by (simp add: on_page_def)
  obtain rows ops' where b: "build_rows L 0 (map Some its) ?ops = (rows, ops')" by fastforce
  from build_rows_correct [OF b on sh] b show ?thesis
    by (auto simp: rebuild_from_scratch_def clear_rows_def assms(2) Let_def)
qed

end

end
