(* ===== verification/List_Order.thy ===== *)
theory List_Order
  imports List_Page
begin

text \<open>
  The planner's own plans put the page in order. The rows that the plan leaves in place are
  already in the new order; every row that moves, and every new row, is mounted before the next
  row that is in place, which keeps the order; so the page shows one row per item, in the order
  of the new keys, a key that was there before keeps its row, and every row knows its index.
\<close>

section \<open>Mounting before the next row in place keeps the order\<close>

lemma filter_insert_before:
  assumes ids: "filter (\<lambda>x. x \<in> set (A @ B)) sh = A @ B" and "distinct (A @ B)"
    and x: "x \<notin> set (A @ B)" "x \<notin> set sh"
    and b: "b = (case B of [] \<Rightarrow> None | y # _ \<Rightarrow> Some y)"
  shows "filter (\<lambda>z. z \<in> set (A @ x # B)) (insert_before x b sh) = A @ x # B"
proof -
  have same: "filter (\<lambda>z. z \<in> set (A @ x # B)) ys = filter (\<lambda>z. z \<in> set (A @ B)) ys"
    if "x \<notin> set ys" for ys
    using that by (intro filter_cong) auto
  show ?thesis
  proof (cases B)
    case Nil
    then show ?thesis using b ids same [OF x(2)] by (simp add: insert_before_def)
  next
    case (Cons y B')
    have "y \<in> set (filter (\<lambda>x. x \<in> set (A @ B)) sh)" using ids Cons by simp
    then have "y \<in> set sh" by simp
    then obtain s1 s3 where sh: "sh = s1 @ y # s3" "y \<notin> set s1" by (blast dest: split_list_first)
    have tw: "takeWhile (\<lambda>z. z \<noteq> y) s1 = s1" "dropWhile (\<lambda>z. z \<noteq> y) s1 = []"
      using sh(2) by (auto simp: takeWhile_eq_all_conv dropWhile_eq_Nil_conv)
    have parts: "takeWhile (\<lambda>z. z \<noteq> y) sh = s1" "dropWhile (\<lambda>z. z \<noteq> y) sh = y # s3"
      unfolding sh(1) using sh(2) tw by (simp_all add: takeWhile_append dropWhile_append)
    have "A @ y # B' = filter (\<lambda>x. x \<in> set (A @ B)) s1 @ y # filter (\<lambda>x. x \<in> set (A @ B)) s3"
      using ids by (simp add: Cons sh(1))
    moreover have "y \<notin> set A" "y \<notin> set B'" using assms(2) Cons by auto
    ultimately have "A = filter (\<lambda>x. x \<in> set (A @ B)) s1 \<and> B' = filter (\<lambda>x. x \<in> set (A @ B)) s3"
      using append_Cons_eq_iff [of y A B', THEN iffD1] by blast
    then have f: "filter (\<lambda>x. x \<in> set (A @ B)) s1 = A" "filter (\<lambda>x. x \<in> set (A @ B)) s3 = B'"
      by simp_all
    have "x \<notin> set s1" "x \<notin> set s3" using x(2) sh(1) by simp_all
    then show ?thesis
      using b Cons f parts same [of s1] same [of s3] by (simp add: insert_before_def)
  qed
qed

lemma first_present_hd:
  "map_option rid (first_present rows) = (case map rid (present rows) of [] \<Rightarrow> None | y # _ \<Rightarrow> Some y)"
  by (simp add: first_present_def split: list.splits)

text \<open>The rows of \<open>rows\<close> are shown in their order, whatever else is shown between them.\<close>

definition in_order :: "'id list \<Rightarrow> 'id list \<Rightarrow> bool" where
  "in_order ids sh \<longleftrightarrow> filter (\<lambda>x. x \<in> set ids) sh = ids"

lemma in_order_eq: "in_order ids sh \<Longrightarrow> set sh = set ids \<Longrightarrow> sh = ids"
  by (simp add: in_order_def)

lemma in_order_put:
  assumes "in_order (map rid (present rows)) sh" and "distinct (map rid (present rows))"
    and "j < length rows" "rows ! j = None"
    and "rid r \<notin> rid ` set (present rows)"
    and "b = first_present (drop (Suc j) rows)" and "rid r' = rid r"
  shows "in_order (map rid (present (rows[j := Some r'])))
           (insert_before (rid r) (map_option rid b) (removeAll (rid r) sh))"
proof -
  let ?A = "map rid (present (take j rows))" and ?B = "map rid (present (drop (Suc j) rows))"
  have AB: "map rid (present rows) = ?A @ ?B" using present_put(1) [OF assms(3,4)] by simp
  have "filter (\<lambda>x. x \<in> set (?A @ ?B)) (removeAll (rid r) sh)
      = filter (\<lambda>x. x \<in> set (?A @ ?B)) sh"
  proof -
    have "rid r \<notin> set (?A @ ?B)" using assms(5) unfolding AB [symmetric] by simp
    then have "x \<in> set (?A @ ?B) \<Longrightarrow> x \<noteq> rid r" for x by metis
    then show ?thesis unfolding removeAll_filter_not_eq filter_filter by (intro filter_cong) auto
  qed
  then have "filter (\<lambda>x. x \<in> set (?A @ ?B)) (removeAll (rid r) sh) = ?A @ ?B"
    using assms(1) by (simp only: in_order_def AB)
  moreover have "distinct (?A @ ?B)" using assms(2) by (simp only: AB)
  moreover have "rid r \<notin> set (?A @ ?B)" using assms(5) unfolding AB [symmetric] by simp
  moreover have "map_option rid b = (case ?B of [] \<Rightarrow> None | y # _ \<Rightarrow> Some y)"
    using assms(6) by (simp only: first_present_hd)
  ultimately have "filter (\<lambda>z. z \<in> set (?A @ rid r # ?B))
      (insert_before (rid r) (map_option rid b) (removeAll (rid r) sh)) = ?A @ rid r # ?B"
    by (intro filter_insert_before) simp_all
  moreover have "map rid (present (rows[j := Some r'])) = ?A @ rid r # ?B"
    using present_put(2) [OF assms(3,4)] assms(7) by simp
  ultimately show ?thesis by (simp only: in_order_def)
qed

section \<open>What every step keeps\<close>

text \<open>
  The rows that were there at the start, \<open>Rs\<close>, stay known to the page, so that a new row cannot
  take the identity of one of them.
\<close>

definition list_inv ::
  "('o \<Rightarrow> 'id list) \<Rightarrow> ('row \<Rightarrow> 'id) \<Rightarrow> ('o \<Rightarrow> 'row \<Rightarrow> bool) \<Rightarrow> ('o \<Rightarrow> 'id \<Rightarrow> nat) \<Rightarrow> 'row set
    \<Rightarrow> ('o, 'item, 'row) list_st \<Rightarrow> bool" where
  "list_inv shown rid owns index_of Rs st \<longleftrightarrow>
     page_inv shown rid owns st \<and> indexed index_of rid st \<and> (\<forall>r \<in> Rs. owns (st_ops st) r)"

context list_page begin

abbreviation "linv \<equiv> list_inv shown rid owns index_of"

lemma steps_own:
  assumes own: "owns (st_ops st) q"
  shows "remove_row L at st = (e, st') \<Longrightarrow> owns (st_ops st') q"
    and "take_row op st = (e, st') \<Longrightarrow> owns (st_ops st') q"
    and "resize_rows umax k st = (e, st') \<Longrightarrow> owns (st_ops st') q"
    and "settle_row L n (i, op) st = (e, st') \<Longrightarrow> owns (st_ops st') q"
    and "move_row L n (i, op) st = (e, st') \<Longrightarrow> owns (st_ops st') q"
    and "add_row L n add st = (e, st') \<Longrightarrow> owns (st_ops st') q"
proof -
  show "owns (st_ops st') q" if "remove_row L at st = (e, st')"
    using that by (cases rule: remove_rowE) (simp_all add: own unmount_keeps)
  show "owns (st_ops st') q" if "take_row op st = (e, st')"
    using that by (cases rule: take_rowE) (simp_all add: own)
  show "owns (st_ops st') q" if "resize_rows umax k st = (e, st')"
    using that own by (auto simp: resize_rows_def split: option.splits)
  show "owns (st_ops st') q" if "settle_row L n (i, op) st = (e, st')"
    using that by (cases rule: settle_rowE) (simp_all add: own set_index_keeps)
  show "owns (st_ops st') q" if "move_row L n (i, op) st = (e, st')"
    using that by (cases rule: move_rowE) (simp_all add: own set_index_keeps mount_keeps_other)
  show "owns (st_ops st') q" if "add_row L n add st = (e, st')"
    using that
  proof (cases rule: add_rowE)
    case (2 it r r' ops ops')
    then show ?thesis using build_keeps [OF 2(6) own] mount_keeps_other [OF 2(7)] by simp
  qed (simp add: own)
qed

lemma list_inv_steps:
  assumes "linv Rs st"
  shows "remove_row L at st = (e, st') \<Longrightarrow> linv Rs st'"
    and "take_row op st = (e, st') \<Longrightarrow> linv Rs st'"
    and "resize_rows umax k st = (e, st') \<Longrightarrow> linv Rs st'"
    and "settle_row L n (i, op) st = (e, st') \<Longrightarrow> linv Rs st'"
    and "move_row L n (i, op) st = (e, st') \<Longrightarrow> linv Rs st'"
    and "add_row L n add st = (e, st') \<Longrightarrow> linv Rs st'"
proof -
  have inv: "pinv st" "indexed index_of rid st" and own: "\<And>r. r \<in> Rs \<Longrightarrow> owns (st_ops st) r"
    using assms by (simp_all add: list_inv_def)
  note own' = steps_own [OF own]
  show "remove_row L at st = (e, st') \<Longrightarrow> linv Rs st'"
    using remove_row_page_inv take_out_steps_indexed(1) own'(1) inv by (fastforce simp: list_inv_def)
  show "take_row op st = (e, st') \<Longrightarrow> linv Rs st'"
    using take_row_page_inv take_out_steps_indexed(2) own'(2) inv by (fastforce simp: list_inv_def)
  show "resize_rows umax k st = (e, st') \<Longrightarrow> linv Rs st'"
    using resize_rows_page_inv take_out_steps_indexed(3) own'(3) inv by (fastforce simp: list_inv_def)
  show "settle_row L n (i, op) st = (e, st') \<Longrightarrow> linv Rs st'"
    using settle_row_page_inv move_steps_indexed(1) own'(4) inv by (fastforce simp: list_inv_def)
  show "move_row L n (i, op) st = (e, st') \<Longrightarrow> linv Rs st'"
    using move_row_page_inv move_steps_indexed(2) own'(5) inv by (fastforce simp: list_inv_def)
  show "add_row L n add st = (e, st') \<Longrightarrow> linv Rs st'"
    using add_row_page_inv add_row_indexed own'(6) inv by (fastforce simp: list_inv_def)
qed

section \<open>Removing the rows whose keys are gone, taking out the rows that move\<close>

lemma remove_stage:
  assumes "linv Rs st" and "st_rows st = map Some rs" and "shown (st_ops st) = map rid rs"
    and "distinct gs" and "\<forall>i \<in> set gs. i < length rs"
  shows "\<exists>st'. for_each (remove_row L) gs st = (None, st') \<and> linv Rs st'
     \<and> st_items st' = st_items st \<and> st_moving st' = st_moving st
     \<and> shown (st_ops st') = map rid (present (st_rows st')) \<and> length (st_rows st') = length rs
     \<and> (\<forall>i < length rs. st_rows st' ! i = (if i \<in> set gs then None else Some (rs ! i)))"
proof -
  let ?Q = "\<lambda>k s. linv Rs s \<and> st_items s = st_items st \<and> st_moving s = st_moving st
     \<and> shown (st_ops s) = map rid (present (st_rows s)) \<and> length (st_rows s) = length rs
     \<and> (\<forall>i < length rs. st_rows s ! i = (if i \<in> set (take k gs) then None else Some (rs ! i)))"
  have "\<exists>s'. for_each (remove_row L) gs st = (None, s') \<and> ?Q (length gs) s'"
  proof (rule for_each_succeeds [of ?Q])
    show "?Q 0 st" using assms by simp
    fix k s assume k: "k < length gs" and Q: "?Q k s"
    let ?i = "gs ! k"
    have i: "?i < length rs" "?i \<notin> set (take k gs)"
      using k assms(4,5) by (simp_all add: nth_notin_take)
    let ?s' = "s\<lparr>st_rows := (st_rows s)[?i := None], st_ops := op_unmount L (st_ops s) (rs ! ?i)\<rparr>"
    have step: "remove_row L ?i s = (None, ?s')"
      using i Q by (simp add: remove_row_def)
    have "st_rows s ! ?i = Some (rs ! ?i)" "?i < length (st_rows s)" using i Q by simp_all
    then have split: "present (st_rows s) = present (take ?i (st_rows s)) @ rs ! ?i # present (drop (Suc ?i) (st_rows s))"
      and upd: "present ((st_rows s)[?i := None]) = present (take ?i (st_rows s)) @ present (drop (Suc ?i) (st_rows s))"
      using present_split_at [of ?i "st_rows s"] by (simp_all add: present_update)
    have "distinct (map rid (present (st_rows s)))"
      using Q by (simp add: list_inv_def page_inv_def on_page_def live_rows_def)
    then have "removeAll (rid (rs ! ?i)) (map rid (present (st_rows s))) = map rid (present ((st_rows s)[?i := None]))"
      unfolding split upd by (simp add: removeAll_id)
    then have "shown (st_ops ?s') = map rid (present (st_rows ?s'))"
      using Q by (simp add: unmount_shown)
    moreover have "linv Rs ?s'" using Q list_inv_steps(1) [OF _ step] by blast
    moreover have "\<forall>j < length rs. st_rows ?s' ! j = (if j \<in> set (take (Suc k) gs) then None else Some (rs ! j))"
      using Q i k by (simp add: nth_list_update set_take_Suc)
    ultimately show "\<exists>s'. remove_row L ?i s = (None, s') \<and> ?Q (Suc k) s'"
      using step Q by simp
  qed
  then show ?thesis by simp
qed

lemma take_stage:
  fixes st :: "('o, 'item, 'row) list_st"
  assumes "linv Rs st" and "length (st_rows st) = length rs" and "st_moving st = []"
    and "\<forall>i < length rs. st_rows st ! i = (if i \<in> G then None else Some (rs ! i))"
    and "distinct ms" and "\<forall>i \<in> set ms. i < length rs \<and> i \<notin> G"
  shows "\<exists>st'. for_each take_row (map (plan_move xs ys) ms) st = (None, st') \<and> linv Rs st'
     \<and> st_items st' = st_items st \<and> st_ops st' = st_ops st
     \<and> st_moving st' = map (\<lambda>i. Some (rs ! i)) ms \<and> length (st_rows st') = length rs
     \<and> (\<forall>i < length rs. st_rows st' ! i = (if i \<in> G \<union> set ms then None else Some (rs ! i)))"
proof -
  let ?Q = "\<lambda>k s. linv Rs s \<and> st_items s = st_items st \<and> st_ops s = st_ops st
     \<and> st_moving s = map (\<lambda>i. Some (rs ! i)) (take k ms) \<and> length (st_rows s) = length rs
     \<and> (\<forall>i < length rs. st_rows s ! i = (if i \<in> G \<union> set (take k ms) then None else Some (rs ! i)))"
  have "\<exists>s'. for_each take_row (map (plan_move xs ys) ms) st = (None, s')
      \<and> ?Q (length (map (plan_move xs ys) ms)) s'"
  proof (rule for_each_succeeds [of ?Q])
    show "?Q 0 st" using assms by simp
    fix k s assume "k < length (map (plan_move xs ys) ms)" and Q: "?Q k s"
    then have k: "k < length ms" by simp
    let ?i = "ms ! k"
    have i: "?i < length rs" "?i \<notin> G" "?i \<notin> set (take k ms)"
      using k assms(5,6) by (simp_all add: nth_notin_take)
    let ?s' = "s\<lparr>st_rows := (st_rows s)[?i := None], st_moving := st_moving s @ [Some (rs ! ?i)]\<rparr>"
    have step: "take_row (plan_move xs ys ?i) s = (None, ?s')"
      using i Q by (simp add: take_row_def plan_move_def)
    moreover have "linv Rs ?s'" using Q list_inv_steps(2) [OF _ step] by blast
    moreover have "\<forall>j < length rs. st_rows ?s' ! j
        = (if j \<in> G \<union> set (take (Suc k) ms) then None else Some (rs ! j))"
      using Q i k by (simp add: nth_list_update set_take_Suc)
    ultimately show "\<exists>s'. take_row (map (plan_move xs ys) ms ! k) s = (None, s') \<and> ?Q (Suc k) s'"
      using Q k by (simp add: take_Suc_conv_app_nth)
  qed
  then show ?thesis by simp
qed

end

section \<open>Putting the moved rows at their new places\<close>

text \<open>The same row, as far as the page shows it.\<close>

definition same_row :: "('row \<Rightarrow> 'id) \<Rightarrow> ('row \<Rightarrow> 'c) \<Rightarrow> 'row \<Rightarrow> 'row \<Rightarrow> bool" where
  "same_row rid content r q \<longleftrightarrow> rid r = rid q \<and> content r = content q"

text \<open>The places hold the old rows \<open>D\<close>, each at its new index, and are free otherwise.\<close>

definition holds ::
  "('row \<Rightarrow> 'row \<Rightarrow> bool) \<Rightarrow> 'row list \<Rightarrow> (nat \<Rightarrow> nat) \<Rightarrow> nat set \<Rightarrow> 'row option list \<Rightarrow> bool" where
  "holds same rs target D rows \<longleftrightarrow>
     (\<forall>i \<in> D. target i < length rows \<and> (\<exists>r. rows ! target i = Some r \<and> same r (rs ! i)))
     \<and> (\<forall>j < length rows. j \<notin> target ` D \<longrightarrow> rows ! j = None)"

lemma holds_put:
  assumes "holds same rs target D rows" and "target i < length rows" and "target i \<notin> target ` D"
    and "same r (rs ! i)"
  shows "holds same rs target (insert i D) (rows[target i := Some r])"
  unfolding holds_def
proof (rule conjI; intro ballI allI impI)
  fix k assume "k \<in> insert i D"
  show "target k < length (rows[target i := Some r])
      \<and> (\<exists>q. rows[target i := Some r] ! target k = Some q \<and> same q (rs ! k))"
  proof (cases "k = i")
    case False
    with \<open>k \<in> insert i D\<close> have "k \<in> D" by simp
    then have "target k \<noteq> target i" using assms(3) by (metis imageI)
    then show ?thesis using assms(1) \<open>k \<in> D\<close> by (simp add: holds_def)
  qed (use assms in simp)
next
  fix j assume "j < length (rows[target i := Some r])" "j \<notin> target ` insert i D"
  then show "rows[target i := Some r] ! j = None" using assms(1) by (simp add: holds_def)
qed

abbreviation target_of :: "'k list \<Rightarrow> 'k list \<Rightarrow> nat \<Rightarrow> nat" where
  "target_of xs ys \<equiv> \<lambda>i. pos ys (xs ! i)"

context list_page begin

abbreviation "same \<equiv> same_row rid content"

lemma settle_stage:
  fixes st :: "('o, 'item, 'row) list_st" and xs ys :: "'k list"
  defines "tgt \<equiv> target_of xs ys"
  assumes "linv Rs st" and "holds same rs tgt D (st_rows st)"
    and "st_moving st = map (\<lambda>i. Some (rs ! i)) ms" and "distinct ms"
    and inj: "inj_on tgt (D \<union> set ms)" "D \<inter> set ms = {}"
    and fits: "\<forall>i \<in> set ms. tgt i < n \<and> tgt i < length (st_rows st)"
  shows "\<exists>st'. for_each (settle_row L n) (zip [0..<length (st_moving st)] (map (plan_move xs ys) ms)) st = (None, st')
     \<and> linv Rs st' \<and> st_items st' = st_items st \<and> shown (st_ops st') = shown (st_ops st)
     \<and> length (st_rows st') = length (st_rows st)
     \<and> holds same rs tgt (D \<union> {i \<in> set ms. \<not> moves_in_dom xs ys i}) (st_rows st')
     \<and> length (st_moving st') = length ms
     \<and> (\<forall>l < length ms. st_moving st' ! l = (if moves_in_dom xs ys (ms ! l) then Some (rs ! (ms ! l)) else None))"
proof -
  let ?mv = "moves_in_dom xs ys"
  let ?D = "\<lambda>k. D \<union> {i \<in> set (take k ms). \<not> ?mv i}"
  let ?Q = "\<lambda>k s. linv Rs s \<and> st_items s = st_items st \<and> shown (st_ops s) = shown (st_ops st)
     \<and> length (st_rows s) = length (st_rows st) \<and> holds same rs tgt (?D k) (st_rows s)
     \<and> length (st_moving s) = length ms
     \<and> (\<forall>l < length ms. st_moving s ! l = (if l < k \<and> \<not> ?mv (ms ! l) then None else Some (rs ! (ms ! l))))"
  let ?ops = "zip [0..<length (st_moving st)] (map (plan_move xs ys) ms)"
  have len: "length ?ops = length ms" using assms(4) by simp
  have nth: "?ops ! k = (k, plan_move xs ys (ms ! k))" if "k < length ms" for k
    using that assms(4) by simp
  have "\<exists>s'. for_each (settle_row L n) ?ops st = (None, s') \<and> ?Q (length ?ops) s'"
  proof (rule for_each_succeeds [of ?Q])
    show "?Q 0 st" using assms by simp
    fix k s assume "k < length ?ops" and Q: "?Q k s"
    then have k: "k < length ms" using len by simp
    let ?i = "ms ! k"
    have i: "?i \<in> set ms" "?i \<notin> set (take k ms)" using k assms(5) by (simp_all add: nth_notin_take)
    show "\<exists>s'. settle_row L n (?ops ! k) s = (None, s') \<and> ?Q (Suc k) s'"
    proof (cases "?mv ?i")
      case True
      have "?D (Suc k) = ?D k" using True k by (auto simp: set_take_Suc)
      moreover have "settle_row L n (?ops ! k) s = (None, s)"
        using True by (simp only: nth [OF k]) (simp add: settle_row_def plan_move_def)
      ultimately show ?thesis using Q True by (auto simp: less_Suc_eq)
    next
      case False
      have D: "?D (Suc k) = insert ?i (?D k)" using False k by (auto simp: set_take_Suc)
      have "set (take k ms) \<subseteq> set ms" by (rule set_take_subset)
      then have new: "tgt ?i \<notin> tgt ` ?D k"
        using inj i by (auto simp: inj_on_def)
      have room: "tgt ?i < n" "tgt ?i < length (st_rows s)" using fits i Q by simp_all
      then have free: "st_rows s ! tgt ?i = None" using Q new unfolding holds_def by blast
      let ?s' = "s\<lparr>st_moving := (st_moving s)[k := None], st_ops := op_set_index L (st_ops s) (rs ! ?i) (tgt ?i),
                   st_rows := (st_rows s)[tgt ?i := Some (rs ! ?i)]\<rparr>"
      have step: "settle_row L n (k, plan_move xs ys ?i) s = (None, ?s')"
        using Q k room free False by (simp add: settle_row_def plan_move_def tgt_def)
      have "holds same rs tgt (insert ?i (?D k)) ((st_rows s)[tgt ?i := Some (rs ! ?i)])"
        using Q room new by (intro holds_put) (simp_all add: same_row_def)
      moreover have "linv Rs ?s'" using Q list_inv_steps(4) [OF _ step] by blast
      moreover have "\<forall>l < length ms. st_moving ?s' ! l
          = (if l < Suc k \<and> \<not> ?mv (ms ! l) then None else Some (rs ! (ms ! l)))"
        using Q k False by (auto simp: nth_list_update less_Suc_eq)
      ultimately have "?Q (Suc k) ?s'" using Q by (simp only: D) (simp add: set_index_shown)
      then show ?thesis using step by (simp only: nth [OF k]) blast
    qed
  qed
  then obtain s' where s': "for_each (settle_row L n) ?ops st = (None, s')" and Q: "?Q (length ms) s'"
    unfolding len by blast
  then show ?thesis by (intro exI [of _ s']) simp
qed

lemma move_stage:
  fixes st :: "('o, 'item, 'row) list_st" and xs ys :: "'k list"
  defines "tgt \<equiv> target_of xs ys"
  assumes "linv Rs st" and "holds same rs tgt D (st_rows st)"
    and moving: "length (st_moving st) = length ms"
      "\<forall>l < length ms. st_moving st ! l = (if moves_in_dom xs ys (ms ! l) then Some (rs ! (ms ! l)) else None)"
    and "distinct ms"
    and inj: "inj_on tgt (D \<union> set ms)" "D \<inter> {i \<in> set ms. moves_in_dom xs ys i} = {}"
    and fits: "\<forall>i \<in> set ms. tgt i < n \<and> tgt i < length (st_rows st)"
    and "in_order (map rid (present (st_rows st))) (shown (st_ops st))"
  shows "\<exists>st'. for_each (move_row L n) (zip [0..<length (st_moving st)] (map (plan_move xs ys) ms)) st = (None, st')
     \<and> linv Rs st' \<and> st_items st' = st_items st \<and> length (st_rows st') = length (st_rows st)
     \<and> holds same rs tgt (D \<union> {i \<in> set ms. moves_in_dom xs ys i}) (st_rows st')
     \<and> present (st_moving st') = []
     \<and> in_order (map rid (present (st_rows st'))) (shown (st_ops st'))"
proof -
  let ?mv = "moves_in_dom xs ys"
  let ?D = "\<lambda>k. D \<union> {i \<in> set (take k ms). ?mv i}"
  let ?Q = "\<lambda>k s. linv Rs s \<and> st_items s = st_items st
     \<and> length (st_rows s) = length (st_rows st) \<and> holds same rs tgt (?D k) (st_rows s)
     \<and> length (st_moving s) = length ms
     \<and> (\<forall>l < length ms. st_moving s ! l = (if l < k \<or> \<not> ?mv (ms ! l) then None else Some (rs ! (ms ! l))))
     \<and> in_order (map rid (present (st_rows s))) (shown (st_ops s))"
  let ?ops = "zip [0..<length (st_moving st)] (map (plan_move xs ys) ms)"
  have len: "length ?ops = length ms" using moving by simp
  have nth: "?ops ! k = (k, plan_move xs ys (ms ! k))" if "k < length ms" for k
    using that moving by simp
  have "\<exists>s'. for_each (move_row L n) ?ops st = (None, s') \<and> ?Q (length ?ops) s'"
  proof (rule for_each_succeeds [of ?Q])
    show "?Q 0 st" using assms by simp
    fix k s assume "k < length ?ops" and Q: "?Q k s"
    then have k: "k < length ms" using len by simp
    let ?i = "ms ! k"
    have i: "?i \<in> set ms" "?i \<notin> set (take k ms)" using k assms(6) by (simp_all add: nth_notin_take)
    show "\<exists>s'. move_row L n (?ops ! k) s = (None, s') \<and> ?Q (Suc k) s'"
    proof (cases "?mv ?i")
      case False
      have "?D (Suc k) = ?D k" using False k by (auto simp: set_take_Suc)
      moreover have "move_row L n (?ops ! k) s = (None, s)"
        using False by (simp only: nth [OF k]) (simp add: move_row_def plan_move_def)
      ultimately show ?thesis using Q False by (auto simp: less_Suc_eq)
    next
      case True
      have D: "?D (Suc k) = insert ?i (?D k)" using True k by (auto simp: set_take_Suc)
      have "set (take k ms) \<subseteq> set ms" by (rule set_take_subset)
      then have new: "tgt ?i \<notin> tgt ` ?D k"
        using inj i True by (auto simp: inj_on_def)
      have room: "tgt ?i < n" "tgt ?i < length (st_rows s)" using fits i Q by simp_all
      then have free: "st_rows s ! tgt ?i = None" using Q new unfolding holds_def by blast
      have r: "st_moving s ! k = Some (rs ! ?i)" "k < length (st_moving s)" using Q k True by simp_all
      obtain r' ops where m: "op_mount L (st_ops s) (rs ! ?i)
          (first_present (drop (Suc (tgt ?i)) (st_rows s))) = (r', ops)" by fastforce
      let ?s' = "s\<lparr>st_moving := (st_moving s)[k := None], st_ops := op_set_index L ops r' (tgt ?i),
                   st_rows := (st_rows s)[tgt ?i := Some r']\<rparr>"
      have step: "move_row L n (k, plan_move xs ys ?i) s = (None, ?s')"
        using r room free True m by (simp add: move_row_def plan_move_def tgt_def)
      have inv: "linv Rs s" using Q by blast
      then have dist: "distinct (map rid (present (st_rows s)))"
        by (simp add: list_inv_def page_inv_def on_page_def live_rows_def)
      have "rid (rs ! ?i) \<notin> rid ` set (present (st_rows s))"
        using page_inv_live [of s _ "rs ! ?i"] inv present_nthI [OF r(2,1)]
        unfolding list_inv_def image_iff by metis
      moreover from this have "rid a \<in> set (shown (st_ops s)) \<and> rid a \<noteq> rid (rs ! ?i)"
        if "first_present (drop (Suc (tgt ?i)) (st_rows s)) = Some a" for a
        using inv first_present_SomeD [OF that]
        by (auto simp: list_inv_def page_inv_def on_page_def live_rows_def) (metis imageI)
      ultimately have "in_order (map rid (present (st_rows ?s'))) (shown (st_ops ?s'))"
        using in_order_put [of rid "st_rows s" "shown (st_ops s)" "tgt ?i" "rs ! ?i" _ r'] Q dist room free
          mount_row [OF m] mount_shown [OF m]
        by (simp add: set_index_shown)
      moreover have "holds same rs tgt (insert ?i (?D k)) ((st_rows s)[tgt ?i := Some r'])"
        using Q room new mount_row [OF m] by (intro holds_put) (simp_all add: same_row_def)
      moreover have "linv Rs ?s'" using Q list_inv_steps(5) [OF _ step] by blast
      moreover have "\<forall>l < length ms. st_moving ?s' ! l
          = (if l < Suc k \<or> \<not> ?mv (ms ! l) then None else Some (rs ! (ms ! l)))"
        using Q k by (auto simp: nth_list_update less_Suc_eq)
      ultimately have "?Q (Suc k) ?s'" using Q by (simp only: D) simp
      then show ?thesis using step by (simp only: nth [OF k]) blast
    qed
  qed
  then obtain s' where s': "for_each (move_row L n) ?ops st = (None, s')" and Q: "?Q (length ms) s'"
    unfolding len by blast
  then have "st_moving s' = replicate (length ms) None" by (intro nth_equalityI) auto
  then show ?thesis using s' Q by (intro exI [of _ s']) simp
qed

section \<open>Building the new rows\<close>

text \<open>
  \<open>fits\<close> says what the row at an index must be; the free places are those still to be added.
\<close>

lemma add_stage:
  fixes st :: "('o, 'item, 'row) list_st"
  assumes "linv (set rs) st" and "n \<le> length (st_rows st)"
    and "\<forall>j < length (st_rows st). st_rows st ! j = None \<longleftrightarrow> n \<le> j \<or> j \<in> at_ix ` set adds"
    and "\<forall>j r. j < length (st_rows st) \<longrightarrow> st_rows st ! j = Some r \<longrightarrow> old j r"
    and adds: "distinct (map at_ix adds)" "\<forall>a \<in> set adds. at_ix a < n"
    and "length its = n" and "st_items st = map Some its"
    and "shown (st_ops st) = map rid (present (st_rows st))"
    and append: "(\<exists>a \<in> set adds. add_mode a = Append) \<Longrightarrow> map at_ix adds = [0..<n]"
  shows "\<exists>st'. for_each (add_row L n) adds st = (None, st') \<and> linv (set rs) st'
     \<and> length (st_rows st') = length (st_rows st)
     \<and> (\<forall>j < length (st_rows st). st_rows st' ! j = None \<longleftrightarrow> n \<le> j)
     \<and> (\<forall>j r. j < length (st_rows st) \<longrightarrow> st_rows st' ! j = Some r \<longrightarrow>
          (if j \<in> at_ix ` set adds then content r = render j (its ! j) \<and> rid r \<notin> rid ` set rs else old j r))
     \<and> shown (st_ops st') = map rid (present (st_rows st')) \<and> st_moving st' = st_moving st"
proof -
  let ?ixs = "map at_ix adds" and ?N = "length (st_rows st)"
  let ?new = "\<lambda>k j r. if j \<in> set (take k ?ixs) then content r = render j (its ! j) \<and> rid r \<notin> rid ` set rs
       else old j r"
  let ?Q = "\<lambda>k s. linv (set rs) s \<and> length (st_rows s) = ?N
     \<and> (\<forall>j < ?N. st_rows s ! j = None \<longleftrightarrow> n \<le> j \<or> j \<in> set (drop k ?ixs))
     \<and> (\<forall>j r. j < ?N \<longrightarrow> st_rows s ! j = Some r \<longrightarrow> ?new k j r)
     \<and> length (st_items s) = n \<and> (\<forall>j \<in> set (drop k ?ixs). st_items s ! j = Some (its ! j))
     \<and> shown (st_ops s) = map rid (present (st_rows s)) \<and> st_moving s = st_moving st"
  have "\<exists>s'. for_each (add_row L n) adds st = (None, s') \<and> ?Q (length adds) s'"
  proof (rule for_each_succeeds [of ?Q])
    show "?Q 0 st" using assms by auto
    fix k s assume k: "k < length adds" and Q: "?Q k s"
    let ?a = "adds ! k" let ?j = "at_ix ?a"
    have dropk: "drop k ?ixs = ?j # drop (Suc k) ?ixs" using k by (simp add: Cons_nth_drop_Suc [symmetric] drop_map)
    have "distinct (drop k ?ixs)" using adds(1) by (rule distinct_drop)
    then have notin: "?j \<notin> set (drop (Suc k) ?ixs)" by (simp add: dropk)
    have jn: "?j < n" "?j < ?N" using k adds(2) assms(2) nth_mem [OF k] by fastforce+
    then have j: "?j < n" "?j < ?N" "?j < length (st_rows s)" "st_rows s ! ?j = None" "st_items s ! ?j = Some (its ! ?j)"
      using Q by (simp_all add: dropk)
    have inv: "linv (set rs) s" using Q by blast
    obtain r ops where b: "op_build L (st_ops s) ?j (its ! ?j) = (r, ops)" by fastforce
    have fresh: "rid r \<notin> rid ` (set rs \<union> set (present (st_rows s)))"
      using inv build_keeps [OF b] by (force simp: list_inv_def page_inv_def on_page_def live_rows_def)
    have anc: "anchor ?a (st_rows s) = first_present (drop (Suc ?j) (st_rows s))"
    proof (cases "add_mode ?a")
      case Append
      then have ixs: "?ixs = [0..<n]" using k append by (meson nth_mem)
      then have "?j = k" "length adds = n" using k by (metis length_map nth_map nth_upt add_0 length_upt diff_zero, metis length_map length_upt diff_zero)
      have "st_rows s ! l = None" if "Suc ?j \<le> l" "l < ?N" for l
        using Q that ixs \<open>?j = k\<close> by (cases "l < n") (auto simp: drop_upt)
      then have "drop (Suc ?j) (st_rows s) = replicate (length (drop (Suc ?j) (st_rows s))) None"
        using Q by (intro nth_equalityI) (simp_all)
      then have "present (drop (Suc ?j) (st_rows s)) = []" by (metis present_replicate_None)
      then show ?thesis using Append by (simp add: anchor_def first_present_def)
    qed (simp add: anchor_def)
    obtain r' ops' where m: "op_mount L ops r (first_present (drop (Suc ?j) (st_rows s))) = (r', ops')" by fastforce
    let ?s' = "s\<lparr>st_items := (st_items s)[?j := None], st_ops := ops', st_rows := (st_rows s)[?j := Some r']\<rparr>"
    have "rid q \<in> set (shown ops) \<and> rid q \<noteq> rid r"
      if "first_present (drop (Suc ?j) (st_rows s)) = Some q" for q
      using Q fresh build_shown [OF b] imageI [OF first_present_SomeD [OF that], of rid] by auto
    note m_shown = mount_shown [OF m this]
    have step: "add_row L n ?a s = (None, ?s')"
      using j b m anc Q by (simp add: add_row_def anchor_def)
    have inv': "linv (set rs) ?s'" by (rule list_inv_steps(6) [OF inv step])
    have "distinct (map rid (present (st_rows s)))"
      using inv by (simp add: list_inv_def page_inv_def on_page_def live_rows_def)
    moreover have "in_order (map rid (present (st_rows s))) (shown (st_ops s))"
      using Q by (simp add: in_order_def)
    moreover have "rid r \<notin> rid ` set (present (st_rows s))" using fresh by blast
    ultimately have "in_order (map rid (present (st_rows ?s'))) (shown ops')"
      using in_order_put [of rid "st_rows s" "shown (st_ops s)" ?j r _ r'] j
        mount_row [OF m] m_shown build_shown [OF b]
      by simp
    moreover have "set (shown ops') = set (map rid (present (st_rows ?s')))"
      using m_shown build_shown [OF b] mount_row [OF m] Q j present_put [of ?j "st_rows s"] by auto
    ultimately have sh: "shown (st_ops ?s') = map rid (present (st_rows ?s'))" by (simp add: in_order_eq)
    have "?new (Suc k) l q" if "l < ?N" "st_rows ?s' ! l = Some q" for l q
      using that Q j fresh k build_content [OF b] mount_row [OF m] adds(1)
      by (cases "l = ?j") (auto simp: set_take_Suc nth_list_update)
    moreover have "\<forall>l < ?N. st_rows ?s' ! l = None \<longleftrightarrow> n \<le> l \<or> l \<in> set (drop (Suc k) ?ixs)"
      using Q j notin by (auto simp: nth_list_update dropk)
    moreover have "\<forall>l \<in> set (drop (Suc k) ?ixs). st_items ?s' ! l = Some (its ! l)"
      using Q notin jn by (auto simp: dropk nth_list_update)
    ultimately have "?Q (Suc k) ?s'" using Q inv' sh by simp
    then show "\<exists>s'. add_row L n ?a s = (None, s') \<and> ?Q (Suc k) s'" using step by blast
  qed
  then obtain s' where s': "for_each (add_row L n) adds st = (None, s')" and Q: "?Q (length adds) s'" by blast
  have "set (take (length adds) ?ixs) = at_ix ` set adds" "drop (length adds) ?ixs = []" by simp_all
  then show ?thesis using s' Q by (intro exI [of _ s']) simp
qed

end

section \<open>Counting\<close>

lemma present_filter:
  "present rows = map (\<lambda>j. the (rows ! j)) (filter (\<lambda>j. rows ! j \<noteq> None) [0..<length rows])"
proof (induction rows rule: rev_induct)
  case (snoc x rows)
  have "filter (\<lambda>j. (rows @ [x]) ! j \<noteq> None) [0..<length rows] = filter (\<lambda>j. rows ! j \<noteq> None) [0..<length rows]"
    by (intro filter_cong) (simp_all add: nth_append)
  moreover have "map (\<lambda>j. the ((rows @ [x]) ! j)) (filter (\<lambda>j. rows ! j \<noteq> None) [0..<length rows])
      = map (\<lambda>j. the (rows ! j)) (filter (\<lambda>j. rows ! j \<noteq> None) [0..<length rows])"
    by (intro map_cong) (simp_all add: nth_append)
  ultimately show ?case using snoc by (cases x) simp_all
qed simp

lemma holds_order:
  assumes "holds (same_row rid content) rs target (set ds) rows"
    and "sorted_wrt (\<lambda>i j. target i < target j) ds"
  shows "map rid (present rows) = map (\<lambda>i. rid (rs ! i)) ds"
proof -
  let ?js = "filter (\<lambda>j. rows ! j \<noteq> None) [0..<length rows]"
  have "set ?js = target ` set ds" using assms(1) by (fastforce simp: holds_def)
  moreover have "sorted_wrt (<) (map target ds)" using assms(2) by (simp add: sorted_wrt_map)
  moreover have "sorted_wrt (<) ?js" by (intro sorted_wrt_filter) simp
  ultimately have "?js = map target ds" by (intro strict_sorted_equal) simp_all
  moreover have "rid (the (rows ! target i)) = rid (rs ! i)" if "i \<in> set ds" for i
    using assms(1) that by (force simp: holds_def same_row_def)
  ultimately show ?thesis by (simp add: present_filter)
qed

lemma length_filter_upt_nth:
  assumes "length zs \<le> n"
  shows "length (filter (\<lambda>i. i < length zs \<and> P (zs ! i)) [0..<n]) = length (filter P zs)"
proof -
  have "[0..<n] = [0..<length zs] @ [length zs..<n]" using assms by (metis le0 upt_add_eq_append le_add_diff_inverse)
  moreover have "filter (\<lambda>i. i < length zs \<and> P (zs ! i)) [length zs..<n] = []" by (auto simp: filter_empty_conv)
  moreover have "filter (\<lambda>i. i < length zs \<and> P (zs ! i)) [0..<length zs] = filter (P \<circ> nth zs) [0..<length zs]"
    by (intro filter_cong) simp_all
  moreover have "length (filter P zs) = length (filter (P \<circ> nth zs) [0..<length zs])"
    by (metis filter_map length_map map_nth)
  ultimately show ?thesis by simp
qed

lemma plan_count:
  assumes "distinct xs" "distinct ys" "length xs \<le> n" "length ys \<le> n"
  shows "length xs + length (filter (fresh_at xs ys) [0..<n]) = length ys + length (filter (gone_at xs ys) [0..<n])"
proof -
  have fresh: "length (filter (fresh_at xs ys) [0..<n]) = length (filter (\<lambda>y. y \<notin> set xs) ys)"
    using length_filter_upt_nth [OF assms(4), of "\<lambda>y. y \<notin> set xs"] by (simp add: fresh_at_def [abs_def])
  have gone: "length (filter (gone_at xs ys) [0..<n]) = length (filter (\<lambda>x. x \<notin> set ys) xs)"
    using length_filter_upt_nth [OF assms(3), of "\<lambda>x. x \<notin> set ys"] by (simp add: gone_at_def [abs_def])
  have "length (filter (\<lambda>x. x \<in> set ys) xs) = card (set xs \<inter> set ys)"
    using distinct_card [of "filter (\<lambda>x. x \<in> set ys) xs"] assms(1) by (simp add: Int_def)
  moreover have "length (filter (\<lambda>y. y \<in> set xs) ys) = card (set xs \<inter> set ys)"
    using distinct_card [of "filter (\<lambda>y. y \<in> set xs) ys"] assms(2) by (simp add: Int_def conj_commute)
  ultimately show ?thesis
    unfolding fresh gone
    using sum_length_filter_compl [of "\<lambda>x. x \<in> set ys" xs] sum_length_filter_compl [of "\<lambda>y. y \<in> set xs" ys]
    by linarith
qed

lemma check_adds_None:
  assumes "sorted_wrt (\<lambda>a b. at_ix a < at_ix b) adds"
    and "\<forall>a \<in> set adds. vec_get places (at_ix a) = Some None \<and> (\<exists>it. vec_get items (at_ix a) = Some (Some it))"
    and "\<forall>q. p = Some q \<longrightarrow> (\<forall>a \<in> set adds. q < at_ix a)"
  shows "check_adds p adds places items = None"
  using assms
proof (induction adds arbitrary: p)
  case (Cons a adds)
  then have "check_adds (Some (at_ix a)) adds places items = None" by (intro Cons.IH) auto
  moreover obtain it where "vec_get items (at_ix a) = Some (Some it)" using Cons.prems(2) by auto
  ultimately show ?case using Cons.prems by (simp add: Let_def split: option.splits)
qed simp

end
