(* ===== verification/List_Reconcile.thy ===== *)
theory List_Reconcile
  imports List_Order
begin

text \<open>
  The whole update of a keyed list, \<open>reconcile\<close> of \<open>halyard_tachys/src/view/list_diff.rs\<close>: the
  stages of a plan of the planner composed, every way the update can end, and what is logged.
\<close>

section \<open>The plans that the planner makes\<close>

definition plan_for :: "'k list \<Rightarrow> 'k list \<Rightarrow> diff_plan \<Rightarrow> bool" where
  "plan_for xs ys d \<longleftrightarrow>
     (let len = max (length xs) (length ys)
      in removed d = filter (gone_at xs ys) [0..<len]
       \<and> moved d = map (plan_move xs ys) (filter (moves_at xs ys) [0..<len])
       \<and> map at_ix (added d) = filter (fresh_at xs ys) [0..<len]
       \<and> \<not> clear d
       \<and> ((\<exists>a \<in> set (added d). add_mode a = Append) \<longrightarrow> map at_ix (added d) = [0..<length ys]))"

lemma plan_for_plan_of: "plan_for xs ys (plan_of xs ys)"
  by (auto simp: plan_for_def plan_of_def plan_add_def Let_def comp_def)

lemma plan_for_append:
  "plan_for [] ys (diff_default\<lparr>added := map (\<lambda>i. \<lparr>at_ix = i, add_mode = Append\<rparr>) [0..<length ys]\<rparr>)"
  by (auto simp: plan_for_def diff_default_def gone_at_def moves_at_def fresh_at_def comp_def
      intro!: filter_True [symmetric])

text \<open>The old rows that stay, and where they go.\<close>

definition kept :: "'k list \<Rightarrow> 'k list \<Rightarrow> nat set" where
  "kept xs ys = {i. i < length xs \<and> xs ! i \<in> set ys}"

lemma kept_cases: "kept xs ys = {i. stays_at xs ys i} \<union> {i. moves_at xs ys i}"
  by (auto simp: kept_def at_defs)

lemma target_inj: "distinct xs \<Longrightarrow> inj_on (target_of xs ys) (kept xs ys)"
  by (auto simp: inj_on_def kept_def nth_eq_iff_index_eq dest: pos_inj)

lemma target_image:
  assumes "distinct ys"
  shows "target_of xs ys ` kept xs ys = {j. j < length ys \<and> ys ! j \<in> set xs}"
proof (intro equalityI subsetI)
  fix j assume "j \<in> {j. j < length ys \<and> ys ! j \<in> set xs}"
  then obtain i where "i < length xs" "xs ! i = ys ! j" "j < length ys" by (auto simp: in_set_conv_nth)
  moreover from this have "pos ys (xs ! i) = j" using assms by (simp add: pos_unique)
  ultimately show "j \<in> target_of xs ys ` kept xs ys" by (intro image_eqI [of _ _ i]) (simp_all add: kept_def)
qed (auto simp: kept_def dest: pos_nth)

lemma stays_target: "distinct ys \<Longrightarrow> stays_at xs ys i \<Longrightarrow> pos ys (xs ! i) = i"
  by (simp add: stays_at_def pos_unique)

text \<open>Of the rows that are kept, those left in place are shown in the new order.\<close>

lemma in_place_in_order:
  assumes "distinct xs" "distinct ys" and "inj_on f {..<length xs}"
  shows "in_order (map f (filter (in_place xs ys) [0..<length xs]))
           (map f (filter (\<lambda>i. \<not> gone_at xs ys i) [0..<length xs]))"
proof -
  let ?ip = "filter (in_place xs ys) [0..<length xs]"
  have "filter (\<lambda>i. f i \<in> f ` set ?ip) (filter (\<lambda>i. \<not> gone_at xs ys i) [0..<length xs]) = ?ip"
    unfolding filter_filter
  proof (intro filter_cong refl)
    fix i assume i: "i \<in> set [0..<length xs]"
    have "f i \<in> f ` set ?ip \<longleftrightarrow> i \<in> set ?ip"
      using assms(3) i by (auto simp: inj_on_def)
    then show "\<not> gone_at xs ys i \<and> f i \<in> f ` set ?ip \<longleftrightarrow> in_place xs ys i"
      using i by (auto simp: in_place_def at_defs)
  qed
  then show ?thesis by (simp add: in_order_def filter_map comp_def)
qed

lemma in_place_sorted:
  assumes "distinct xs" "distinct ys"
  shows "sorted_wrt (\<lambda>i j. target_of xs ys i < target_of xs ys j) (filter (in_place xs ys) [0..<length xs])"
proof (rule sorted_wrt_mono_rel)
  show "sorted_wrt (<) (filter (in_place xs ys) [0..<length xs])" by (intro sorted_wrt_filter) simp
qed (use in_place_increasing [OF assms] in auto)

text \<open>A row that the places hold is the row that the key at that index had.\<close>

lemma holds_kept_row:
  assumes "distinct xs" "distinct ys" and h: "holds same rs (target_of xs ys) (kept xs ys) rows"
  shows "\<forall>j r. j < length rows \<longrightarrow> rows ! j = Some r \<longrightarrow> ys ! j \<in> set xs \<and> same r (rs ! pos xs (ys ! j))"
proof (intro allI impI)
  fix j r assume j: "j < length rows" "rows ! j = Some r"
  then have "j \<in> target_of xs ys ` kept xs ys" using h unfolding holds_def by force
  then obtain i where i: "i \<in> kept xs ys" "j = pos ys (xs ! i)" by blast
  then have "ys ! j = xs ! i" "i < length xs" using pos_nth by (force simp: kept_def)+
  moreover from this have "pos xs (ys ! j) = i" using assms(1) by (simp add: pos_unique)
  moreover have "same r (rs ! i)" using h i j unfolding holds_def by force
  ultimately show "ys ! j \<in> set xs \<and> same r (rs ! pos xs (ys ! j))" by simp
qed

section \<open>A plan of the planner is carried out to the end\<close>

text \<open>What the row at a new index must be: the row its key had, or a new row for its item.\<close>

definition row_for ::
  "('row \<Rightarrow> 'id) \<Rightarrow> ('row \<Rightarrow> 'c) \<Rightarrow> (nat \<Rightarrow> 'item \<Rightarrow> 'c) \<Rightarrow> 'k list \<Rightarrow> 'k list \<Rightarrow> 'row list \<Rightarrow> 'item list
    \<Rightarrow> nat \<Rightarrow> 'row \<Rightarrow> bool" where
  "row_for rid content render xs ys rs its j r \<longleftrightarrow>
     (if ys ! j \<in> set xs then same_row rid content r (rs ! pos xs (ys ! j))
      else content r = render j (its ! j) \<and> rid r \<notin> rid ` set rs)"

context list_page begin

abbreviation "rowf \<equiv> row_for rid content render"

text \<open>Up to the resize: the rows that stay are at their places, the others are taken out.\<close>

lemma take_out_stage:
  fixes st :: "('o, 'item, 'row) list_st" and xs ys :: "'k list"
  defines "len \<equiv> max (length xs) (length ys)"
  assumes "distinct xs" "distinct ys" and plan: "plan_for xs ys d" and rs: "length rs = length xs"
    and "linv (set rs) st" "st_rows st = map Some rs" "shown (st_ops st) = map rid rs" "st_moving st = []"
    and umax: "length xs + length ys \<le> umax"
  shows "\<exists>st'. and_then (for_each (remove_row L) (removed d))
         (and_then (for_each take_row (moved d)) (resize_rows umax (length (added d)))) st = (None, st')
     \<and> linv (set rs) st' \<and> st_items st' = st_items st
     \<and> length (st_rows st') = length xs + length (added d)
     \<and> holds same rs (target_of xs ys) {i. stays_at xs ys i} (st_rows st')
     \<and> st_moving st' = map (\<lambda>i. Some (rs ! i)) (filter (moves_at xs ys) [0..<len])
     \<and> shown (st_ops st') = map (\<lambda>i. rid (rs ! i)) (filter (\<lambda>i. \<not> gone_at xs ys i) [0..<length xs])"
proof -
  let ?gs = "filter (gone_at xs ys) [0..<len]" and ?ms = "filter (moves_at xs ys) [0..<len]"
  have p: "removed d = ?gs" "moved d = map (plan_move xs ys) ?ms"
    "map at_ix (added d) = filter (fresh_at xs ys) [0..<len]"
    using plan by (simp_all add: plan_for_def Let_def len_def)
  have "\<forall>i \<in> set ?gs. i < length rs" using rs by (simp add: gone_at_def)
  from remove_stage [OF assms(6-8) _ this] obtain s1 where s1: "for_each (remove_row L) ?gs st = (None, s1)"
    "linv (set rs) s1" "st_items s1 = st_items st" "st_moving s1 = []"
    "shown (st_ops s1) = map rid (present (st_rows s1))" "length (st_rows s1) = length rs"
    "\<forall>i < length rs. st_rows s1 ! i = (if i \<in> set ?gs then None else Some (rs ! i))"
    using assms(9) by auto
  have "\<forall>i \<in> set ?ms. i < length rs \<and> i \<notin> set ?gs" using rs by (auto simp: at_defs)
  from take_stage [OF s1(2,6,4,7) _ this, of xs ys] obtain s2 where
    s2: "for_each take_row (map (plan_move xs ys) ?ms) s1 = (None, s2)"
    "linv (set rs) s2" "st_items s2 = st_items s1" "st_ops s2 = st_ops s1"
    "st_moving s2 = map (\<lambda>i. Some (rs ! i)) ?ms" "length (st_rows s2) = length rs"
    "\<forall>i < length rs. st_rows s2 ! i = (if i \<in> set ?gs \<union> set ?ms then None else Some (rs ! i))"
    by auto
  have "length (added d) \<le> length ys"
    using count_upto_bound [of "fresh_at xs ys" "length ys" len] p(3)
    by (metis count_upto_def fresh_at_def length_map)
  then have s3: "resize_rows umax (length (added d)) s2
      = (None, s2\<lparr>st_rows := st_rows s2 @ replicate (length (added d)) None\<rparr>)" (is "_ = (None, ?s3)")
    using umax rs s2(6) by (simp add: resize_rows_def checked_add_def)
  have stay: "i \<in> set ?gs \<union> set ?ms \<longleftrightarrow> \<not> stays_at xs ys i" if "i < length xs" for i
    using that by (auto simp: at_defs len_def)
  have "holds same rs (target_of xs ys) {i. stays_at xs ys i} (st_rows ?s3)"
    unfolding holds_def
  proof (rule conjI; intro ballI allI impI)
    fix i assume "i \<in> {i. stays_at xs ys i}"
    then have i: "stays_at xs ys i" "pos ys (xs ! i) = i" "i < length rs"
      using stays_target [OF assms(3)] rs by (auto simp: stays_at_def)
    then have "i \<notin> set ?gs \<union> set ?ms" using stay [of i] rs by simp
    then have "st_rows s2 ! i = Some (rs ! i)" using s2(7) i(3) by simp
    then show "pos ys (xs ! i) < length (st_rows ?s3)
        \<and> (\<exists>r. st_rows ?s3 ! pos ys (xs ! i) = Some r \<and> same r (rs ! i))"
      using i s2(6) by (simp add: nth_append same_row_def)
  next
    fix j assume j: "j < length (st_rows ?s3)" "j \<notin> target_of xs ys ` {i. stays_at xs ys i}"
    then have "\<not> stays_at xs ys j" using stays_target [OF assms(3), of xs j] by force
    then show "st_rows ?s3 ! j = None"
      using j(1) s2(6,7) stay [of j] rs by (simp add: nth_append)
  qed
  moreover have "map rid (present (st_rows s1)) = map (\<lambda>i. rid (rs ! i)) (filter (\<lambda>i. \<not> gone_at xs ys i) [0..<length xs])"
  proof (rule holds_order [where target = "\<lambda>i. i" and content = content])
    show "holds same rs (\<lambda>i. i) (set (filter (\<lambda>i. \<not> gone_at xs ys i) [0..<length xs])) (st_rows s1)"
      using s1(6,7) rs by (auto simp: holds_def same_row_def len_def)
    show "sorted_wrt (<) (filter (\<lambda>i. \<not> gone_at xs ys i) [0..<length xs])" by (intro sorted_wrt_filter) simp
  qed
  moreover have "linv (set rs) ?s3" by (rule list_inv_steps(3) [OF s2(2) s3])
  ultimately show ?thesis
    using s1 s2 s3 rs by (intro exI [of _ ?s3]) (simp add: p and_then_def)
qed

text \<open>Settling and moving: every kept row is at its new index and the page shows them in order.\<close>

lemma settle_and_move_stage:
  fixes st :: "('o, 'item, 'row) list_st" and xs ys :: "'k list"
  defines "ms \<equiv> filter (moves_at xs ys) [0..<max (length xs) (length ys)]"
  assumes "distinct xs" "distinct ys" and plan: "moved d = map (plan_move xs ys) ms"
    and rs: "length rs = length xs" "distinct (map rid rs)"
    and "linv (set rs) st" and room: "length ys \<le> length (st_rows st)"
    and "holds same rs (target_of xs ys) {i. stays_at xs ys i} (st_rows st)"
    and "st_moving st = map (\<lambda>i. Some (rs ! i)) ms"
    and "shown (st_ops st) = map (\<lambda>i. rid (rs ! i)) (filter (\<lambda>i. \<not> gone_at xs ys i) [0..<length xs])"
  shows "\<exists>st'. settle_and_move L (length ys) d st = (None, st')
     \<and> linv (set rs) st' \<and> st_items st' = st_items st \<and> length (st_rows st') = length (st_rows st)
     \<and> holds same rs (target_of xs ys) (kept xs ys) (st_rows st')
     \<and> present (st_moving st') = [] \<and> shown (st_ops st') = map rid (present (st_rows st'))"
proof -
  let ?S = "{i. stays_at xs ys i}" and ?n = "length ys"
  have ms: "set ms = {i. moves_at xs ys i}" "distinct ms" by (auto simp: ms_def moves_at_def)
  have K: "kept xs ys = ?S \<union> set ms" by (simp add: kept_cases ms)
  have inj: "inj_on (target_of xs ys) (?S \<union> set ms)" using target_inj [OF assms(2), of ys] by (simp only: K)
  have disj: "?S \<inter> set ms = {}" by (auto simp: ms moves_at_def)
  have fits: "\<forall>i \<in> set ms. pos ys (xs ! i) < ?n \<and> pos ys (xs ! i) < length (st_rows st)"
    using room pos_nth by (fastforce simp: ms moves_at_def)
  let ?ops = "zip [0..<length (st_moving st)] (moved d)"
  from settle_stage [OF assms(7,9,10) ms(2) inj disj fits] obtain s1 where
    s1: "for_each (settle_row L ?n) ?ops st = (None, s1)" "linv (set rs) s1"
      "st_items s1 = st_items st" "shown (st_ops s1) = shown (st_ops st)" "length (st_rows s1) = length (st_rows st)"
      "holds same rs (target_of xs ys) (?S \<union> {i \<in> set ms. \<not> moves_in_dom xs ys i}) (st_rows s1)"
      "length (st_moving s1) = length ms"
      "\<forall>l < length ms. st_moving s1 ! l = (if moves_in_dom xs ys (ms ! l) then Some (rs ! (ms ! l)) else None)"
    unfolding plan by blast
  let ?ip = "filter (in_place xs ys) [0..<length xs]"
  have ip: "set ?ip = ?S \<union> {i \<in> set ms. \<not> moves_in_dom xs ys i}"
    by (auto simp: ms in_place_def stays_at_def moves_at_def)
  have "inj_on (\<lambda>i. rid (rs ! i)) {..<length xs}"
    using rs by (auto simp: inj_on_def distinct_conv_nth)
  moreover have "map rid (present (st_rows s1)) = map (\<lambda>i. rid (rs ! i)) ?ip"
    using s1(6) in_place_sorted [OF assms(2,3)] unfolding ip [symmetric] by (rule holds_order)
  ultimately have ord: "in_order (map rid (present (st_rows s1))) (shown (st_ops s1))"
    using in_place_in_order [OF assms(2,3)] s1(4) assms(11) by simp
  have h1: "holds same rs (target_of xs ys) (set ?ip) (st_rows s1)" using s1(6) unfolding ip .
  have inj2: "inj_on (target_of xs ys) (set ?ip \<union> set ms)"
    using inj unfolding ip by (rule inj_on_subset) auto
  have disj2: "set ?ip \<inter> {i \<in> set ms. moves_in_dom xs ys i} = {}" using disj unfolding ip by auto
  have fits2: "\<forall>i \<in> set ms. pos ys (xs ! i) < ?n \<and> pos ys (xs ! i) < length (st_rows s1)"
    using fits s1(5) by simp
  from move_stage [OF s1(2) h1 s1(7,8) ms(2) inj2 disj2 fits2 ord] obtain s2 where
    s2: "for_each (move_row L ?n) (zip [0..<length (st_moving s1)] (moved d)) s1 = (None, s2)" "linv (set rs) s2"
      "st_items s2 = st_items s1" "length (st_rows s2) = length (st_rows s1)"
      "holds same rs (target_of xs ys) (set ?ip \<union> {i \<in> set ms. moves_in_dom xs ys i}) (st_rows s2)"
      "present (st_moving s2) = []" "in_order (map rid (present (st_rows s2))) (shown (st_ops s2))"
    unfolding plan by blast
  have "set ?ip \<union> {i \<in> set ms. moves_in_dom xs ys i} = kept xs ys" unfolding ip K by auto
  moreover have "shown (st_ops s2) = map rid (present (st_rows s2))"
    using s2(2,6,7) by (intro in_order_eq) (simp_all add: list_inv_def page_inv_def on_page_def live_rows_def)
  ultimately show ?thesis
    using s1 s2 by (intro exI [of _ s2]) (simp add: settle_and_move_def and_then_def)
qed

text \<open>The new rows then fill exactly the places that are free.\<close>

lemma check_new_rows_passes:
  fixes rows :: "'row option list" and xs ys :: "'k list"
  assumes "distinct ys" and plan: "plan_for xs ys d"
    and "holds same rs (target_of xs ys) (kept xs ys) rows" and "length ys \<le> length rows"
    and "length its = length ys"
  shows "check_new_rows d rows (map Some its) (length ys) = None"
    and "\<forall>j < length rows. rows ! j = None \<longleftrightarrow> length ys \<le> j \<or> j \<in> at_ix ` set (added d)"
proof -
  let ?n = "length ys"
  have adds: "map at_ix (added d) = filter (fresh_at xs ys) [0..<max (length xs) ?n]"
    using plan by (simp add: plan_for_def Let_def)
  have "set (map at_ix (added d)) = {j. j < ?n \<and> ys ! j \<notin> set xs}"
    unfolding adds by (auto simp: fresh_at_def)
  then have set_adds: "at_ix ` set (added d) = {j. j < ?n \<and> ys ! j \<notin> set xs}" by simp
  have img: "j \<in> target_of xs ys ` kept xs ys \<longleftrightarrow> j < ?n \<and> ys ! j \<in> set xs" for j
    using target_image [OF assms(1), of xs] by blast
  have "rows ! j = None \<longleftrightarrow> j \<notin> target_of xs ys ` kept xs ys" if "j < length rows" for j
    using assms(3) that unfolding holds_def by fastforce
  then show free: "\<forall>j < length rows. rows ! j = None \<longleftrightarrow> ?n \<le> j \<or> j \<in> at_ix ` set (added d)"
    unfolding img set_adds by auto
  have "sorted_wrt (<) (map at_ix (added d))" unfolding adds by (intro sorted_wrt_filter) simp
  then have sorted: "sorted_wrt (\<lambda>a b. at_ix a < at_ix b) (added d)" by (simp add: sorted_wrt_map)
  have in_range: "at_ix a < ?n \<and> rows ! at_ix a = None" if "a \<in> set (added d)" for a
  proof -
    have "at_ix a \<in> at_ix ` set (added d)" using that by (rule imageI)
    moreover from this have "at_ix a < ?n" unfolding set_adds by simp
    ultimately show ?thesis using free assms(4) by simp
  qed
  then have "check_adds None (added d) (take ?n rows) (map Some its) = None"
    using assms(4,5) sorted by (intro check_adds_None) simp_all
  moreover have "length (filter Option.is_none (take ?n rows)) = length (added d)"
  proof -
    have "filter (\<lambda>j. j < length (take ?n rows) \<and> Option.is_none (take ?n rows ! j)) [0..<?n]
        = filter (fresh_at xs ys) [0..<?n]"
      using free set_adds assms(4) by (intro filter_cong) (auto simp: fresh_at_def Option.is_none_def)
    also have "length \<dots> = length (filter (fresh_at xs ys) [0..<max (length xs) ?n])"
      using length_filter_upt_nth [of ys ?n "\<lambda>y. y \<notin> set xs"]
        length_filter_upt_nth [of ys "max (length xs) ?n" "\<lambda>y. y \<notin> set xs"]
      by (simp add: fresh_at_def [abs_def])
    finally show ?thesis
      using length_filter_upt_nth [of "take ?n rows" ?n Option.is_none] assms(4) adds
      by (metis (lifting) length_map length_take min.absorb2 order_refl)
  qed
  moreover have "\<not> list_ex (\<lambda>row. \<not> Option.is_none row) (drop ?n rows)"
    using free by (auto simp: list_ex_length Option.is_none_def)
  ultimately show "check_new_rows d rows (map Some its) ?n = None"
    using assms(4) by (simp add: check_new_rows_def Let_def)
qed

lemma finish_stage:
  fixes st :: "('o, 'item, 'row) list_st" and xs ys :: "'k list"
  assumes "distinct xs" "distinct ys" and plan: "plan_for xs ys d" and rs: "length rs = length xs"
    and its: "length its = length ys"
    and "linv (set rs) st" and "st_items st = map Some its" and room: "length ys \<le> length (st_rows st)"
    and h: "holds same rs (target_of xs ys) (kept xs ys) (st_rows st)"
    and "present (st_moving st) = []" and "shown (st_ops st) = map rid (present (st_rows st))"
  shows "\<exists>st' new. finish_rows L (length ys) d st = (None, st') \<and> st_rows st' = map Some new \<and> length new = length ys
     \<and> linv (set rs) st' \<and> shown (st_ops st') = map rid new \<and> present (st_moving st') = []
     \<and> (\<forall>j < length ys. rowf xs ys rs its j (new ! j))"
proof -
  let ?n = "length ys" and ?fresh = "filter (fresh_at xs ys) [0..<max (length xs) (length ys)]"
  have adds: "map at_ix (added d) = ?fresh"
    "(\<exists>a \<in> set (added d). add_mode a = Append) \<Longrightarrow> map at_ix (added d) = [0..<?n]"
    using plan by (auto simp: plan_for_def Let_def)
  have set_adds: "at_ix ` set (added d) = {j. j < ?n \<and> ys ! j \<notin> set xs}"
    unfolding list.set_map [symmetric] adds by (auto simp: fresh_at_def)
  have range: "distinct (map at_ix (added d))" "\<forall>a \<in> set (added d). at_ix a < ?n"
    using set_adds by (auto simp: adds(1))
  from add_stage [OF assms(6) room check_new_rows_passes(2) [OF assms(2) plan h room its]
      holds_kept_row [OF assms(1,2) h] range its assms(7,11) adds(2)]
  obtain s1 where s1: "for_each (add_row L ?n) (added d) st = (None, s1)" "linv (set rs) s1"
     "length (st_rows s1) = length (st_rows st)" "\<forall>j < length (st_rows st). st_rows s1 ! j = None \<longleftrightarrow> ?n \<le> j"
     "\<forall>j r. j < length (st_rows st) \<longrightarrow> st_rows s1 ! j = Some r \<longrightarrow>
          (if j \<in> at_ix ` set (added d) then content r = render j (its ! j) \<and> rid r \<notin> rid ` set rs
           else ys ! j \<in> set xs \<and> same r (rs ! pos xs (ys ! j)))"
     "shown (st_ops s1) = map rid (present (st_rows s1))" "st_moving s1 = st_moving st"
    by blast
  let ?rows = "take ?n (st_rows s1)"
  let ?s2 = "s1\<lparr>st_rows := ?rows\<rparr>"
  have "st_rows s1 ! i \<noteq> None" if "i < ?n" for i using s1(3,4) room that by simp
  then have some: "None \<notin> set ?rows" by (auto simp: in_set_conv_nth)
  have "present (drop ?n (st_rows s1)) = []"
    using s1(3,4) by (auto simp: present_filter filter_empty_conv)
  then have pres: "present (st_rows s1) = present ?rows"
    by (metis append.right_neutral append_take_drop_id present_append)
  have len: "length (present ?rows) = ?n" using length_present_all_Some [OF some] room s1(3) by simp
  have "rowf xs ys rs its j (present ?rows ! j)" if "j < ?n" for j
  proof -
    have "?rows ! j = Some (present ?rows ! j)" using that room s1(3) by (intro present_nth_all_Some [OF some]) simp
    then have "st_rows s1 ! j = Some (present ?rows ! j)" using that by simp
    moreover have "j < length (st_rows st)" using that room by simp
    ultimately have "if j \<in> at_ix ` set (added d)
        then content (present ?rows ! j) = render j (its ! j) \<and> rid (present ?rows ! j) \<notin> rid ` set rs
        else ys ! j \<in> set xs \<and> same (present ?rows ! j) (rs ! pos xs (ys ! j))"
      using s1(5) by blast
    then show ?thesis using that unfolding row_for_def set_adds by (simp split: if_splits)
  qed
  moreover have "linv (set rs) ?s2"
    using s1(2) pres by (auto simp: list_inv_def page_inv_def live_rows_def indexed_def)
  moreover have "finish_rows L ?n d st = (None, ?s2)" using s1(1) by (simp add: finish_rows_def and_then_def)
  ultimately show ?thesis
    using len s1(6,7) assms(10) pres present_all_Some [OF some]
    by (intro exI [of _ ?s2] exI [of _ "present ?rows"]) simp
qed

text \<open>The planner's plans for keys that are not cleared.\<close>

lemma apply_plan_for:
  fixes st :: "('o, 'item, 'row) list_st" and xs ys :: "'k list"
  assumes "distinct xs" "distinct ys" and plan: "plan_for xs ys d" and rs: "length rs = length xs"
    and st: "linv (set rs) st" "st_rows st = map Some rs" "shown (st_ops st) = map rid rs" "st_moving st = []"
    and its: "st_items st = map Some its" "length its = length ys"
    and umax: "length xs + length ys \<le> umax"
  shows "\<exists>st' new. apply_plan L umax d st = (None, st') \<and> st_rows st' = map Some new
     \<and> length new = length ys \<and> linv (set rs) st' \<and> shown (st_ops st') = map rid new
     \<and> present (st_moving st') = [] \<and> (\<forall>j < length ys. rowf xs ys rs its j (new ! j))"
proof -
  let ?n = "length ys" and ?len = "max (length xs) (length ys)"
  have p: "removed d = filter (gone_at xs ys) [0..<?len]" "\<not> clear d"
    "moved d = map (plan_move xs ys) (filter (moves_at xs ys) [0..<?len])"
    "map at_ix (added d) = filter (fresh_at xs ys) [0..<?len]"
    "(\<exists>a \<in> set (added d). add_mode a = Append) \<Longrightarrow> map at_ix (added d) = [0..<?n]"
    using plan by (auto simp: plan_for_def Let_def)
  have "length (added d) = length (filter (fresh_at xs ys) [0..<?len])" using p(4) by (metis length_map)
  then have count: "length xs + length (added d) = ?n + length (removed d)"
    using plan_count [OF assms(1,2), of ?len] p(1) by simp
  have gone_le: "length (removed d) \<le> length xs"
    using count_upto_bound [of "gone_at xs ys" "length xs" ?len] p(1) by (metis count_upto_def gone_at_def)
  from take_out_stage [OF assms(1,2) plan rs st umax] obtain s1 where
    s1: "and_then (for_each (remove_row L) (removed d))
         (and_then (for_each take_row (moved d)) (resize_rows umax (length (added d)))) st = (None, s1)"
     "linv (set rs) s1" "st_items s1 = st_items st" "length (st_rows s1) = length xs + length (added d)"
     "holds same rs (target_of xs ys) {i. stays_at xs ys i} (st_rows s1)"
     "st_moving s1 = map (\<lambda>i. Some (rs ! i)) (filter (moves_at xs ys) [0..<?len])"
     "shown (st_ops s1) = map (\<lambda>i. rid (rs ! i)) (filter (\<lambda>i. \<not> gone_at xs ys i) [0..<length xs])" by blast
  have "distinct (map rid rs)" using st by (simp add: list_inv_def page_inv_def on_page_def live_rows_def)
  moreover have room: "?n \<le> length (st_rows s1)" using s1(4) count by simp
  ultimately obtain s2 where s2: "settle_and_move L ?n d s1 = (None, s2)" "linv (set rs) s2"
     "st_items s2 = st_items s1" "length (st_rows s2) = length (st_rows s1)"
     "holds same rs (target_of xs ys) (kept xs ys) (st_rows s2)"
     "present (st_moving s2) = []" "shown (st_ops s2) = map rid (present (st_rows s2))"
    using settle_and_move_stage [OF assms(1,2) p(3) rs _ s1(2) _ s1(5,6,7)] by blast
  have room2: "?n \<le> length (st_rows s2)" using room s2(4) by simp
  note chk = check_new_rows_passes [OF assms(2) plan s2(5) room2 its(2)]
  have "prepare_rows L umax ?n d st = (None, s2)"
    using s1(1) s2(1,3) s1(3) its(1) chk(1)
    by (auto simp: prepare_rows_def and_then_def split: prod.splits option.splits)
  moreover have "\<exists>s3 new. finish_rows L ?n d s2 = (None, s3) \<and> st_rows s3 = map Some new \<and> length new = ?n
     \<and> linv (set rs) s3 \<and> shown (st_ops s3) = map rid new \<and> present (st_moving s3) = []
     \<and> (\<forall>j < ?n. rowf xs ys rs its j (new ! j))"
    using s2 s1(3) its(1) room2
    by (intro finish_stage [OF assms(1,2) plan rs its(2)]) simp_all
  ultimately have "\<exists>s3 new. and_then (prepare_rows L umax ?n d) (finish_rows L ?n d) st = (None, s3)
     \<and> st_rows s3 = map Some new \<and> length new = ?n
     \<and> linv (set rs) s3 \<and> shown (st_ops s3) = map rid new \<and> present (st_moving s3) = []
     \<and> (\<forall>j < ?n. rowf xs ys rs its j (new ! j))"
    by (simp add: and_then_def)
  moreover have "apply_plan L umax d st = and_then (prepare_rows L umax ?n d) (finish_rows L ?n d) st"
    using count gone_le umax p(2) its st(2) rs by (simp add: apply_plan_def arith_defs Let_def)
  ultimately show ?thesis by simp
qed

lemma unmount_all_owns:
  "owns ops q \<Longrightarrow> owns (fold (\<lambda>row ops. op_unmount L ops row) rs ops) q"
  by (induction rs arbitrary: ops) (simp_all add: unmount_keeps)

text \<open>The plan for a list that becomes empty.\<close>

lemma apply_plan_clear:
  fixes st :: "('o, 'item, 'row) list_st"
  assumes "linv (set rs) st" and "st_rows st = map Some rs" and "st_items st = []" and "st_moving st = []"
  shows "apply_plan L umax (diff_default\<lparr>clear := True\<rparr>) st = (None, clear_rows L st)"
    and "linv (set rs) (clear_rows L st)" and "shown (st_ops (clear_rows L st)) = []"
proof -
  show "apply_plan L umax (diff_default\<lparr>clear := True\<rparr>) st = (None, clear_rows L st)"
    using assms(3) by (simp add: apply_plan_def diff_default_def arith_defs)
  have inv: "pinv (clear_rows L st)" using assms(1) by (simp add: list_inv_def clear_rows_page_inv)
  then show "shown (st_ops (clear_rows L st)) = []"
    using assms(4) by (simp add: page_inv_def on_page_def live_rows_def clear_rows_def)
  show "linv (set rs) (clear_rows L st)"
    using assms(1) inv unmount_all_owns by (simp add: list_inv_def indexed_def clear_rows_def)
qed

end

section \<open>Every update leaves the page right\<close>

text \<open>A list on the page: it holds the rows \<open>rs\<close>, and the page shows exactly these, in order.\<close>

definition mounted ::
  "('o \<Rightarrow> 'id list) \<Rightarrow> ('row \<Rightarrow> 'id) \<Rightarrow> ('o \<Rightarrow> 'row \<Rightarrow> bool) \<Rightarrow> ('o \<Rightarrow> 'id \<Rightarrow> nat)
    \<Rightarrow> ('o, 'item, 'row) list_st \<Rightarrow> 'row list \<Rightarrow> bool" where
  "mounted shown rid owns index_of st rs \<longleftrightarrow>
     st_rows st = map Some rs \<and> st_moving st = [] \<and> shown (st_ops st) = map rid rs
     \<and> list_inv shown rid owns index_of (set rs) st"

context list_page begin

abbreviation "mnt \<equiv> mounted shown rid owns index_of"

lemma mounted_iff:
  "mnt st rs \<longleftrightarrow> st_rows st = map Some rs \<and> st_moving st = [] \<and> shown (st_ops st) = map rid rs
     \<and> distinct (map rid rs) \<and> (\<forall>r \<in> set rs. owns (st_ops st) r)
     \<and> (\<forall>j < length rs. index_of (st_ops st) (rid (rs ! j)) = j)"
  by (auto simp: mounted_def list_inv_def page_inv_def on_page_def live_rows_def indexed_def)

lemma rebuild_mounted:
  assumes "onp (st_ops st) (present (st_rows st))" and "st_items st = map Some its" and "st_moving st = []"
  shows "\<exists>new. mnt (rebuild_from_scratch L st) new \<and> length new = length its
     \<and> (\<forall>k < length its. content (new ! k) = render k (its ! k))"
proof -
  obtain new where new: "st_rows (rebuild_from_scratch L st) = map Some new" "length new = length its"
     "\<forall>k < length its. content (new ! k) = render k (its ! k)" "onp (st_ops (rebuild_from_scratch L st)) new"
     "shown (st_ops (rebuild_from_scratch L st)) = map rid new"
     "\<forall>k < length its. index_of (st_ops (rebuild_from_scratch L st)) (rid (new ! k)) = k"
    using rebuild_from_scratch_correct [OF assms(1,2)] by blast
  have "st_moving (rebuild_from_scratch L st) = []"
    using assms(3) by (simp add: rebuild_from_scratch_def clear_rows_def Let_def split: prod.splits)
  then show ?thesis using new by (intro exI [of _ new]) (auto simp: mounted_iff on_page_def)
qed

lemma apply_diff_for:
  fixes st :: "('o, 'item, 'row) list_st" and xs ys :: "'k list"
  assumes "distinct xs" "distinct ys" and plan: "plan_for xs ys d" and rs: "length rs = length xs"
    and st: "mnt st rs" and its: "st_items st = map Some its" "length its = length ys"
    and umax: "length xs + length ys \<le> umax"
  shows "\<exists>st' new. apply_diff L umax d st = (None, st') \<and> mnt st' new \<and> length new = length ys
     \<and> (\<forall>j < length ys. rowf xs ys rs its j (new ! j))"
proof -
  have st0: "linv (set rs) st" "st_rows st = map Some rs" "shown (st_ops st) = map rid rs" "st_moving st = []"
    using st by (simp_all add: mounted_def)
  then have same_st: "st\<lparr>st_moving := []\<rparr> = st" by simp
  obtain s1 new where s1: "apply_plan L umax d st = (None, s1)" "st_rows s1 = map Some new"
     "length new = length ys" "linv (set rs) s1" "shown (st_ops s1) = map rid new"
     "present (st_moving s1) = []" "\<forall>j < length ys. rowf xs ys rs its j (new ! j)"
    using apply_plan_for [OF assms(1,2) plan rs st0 its umax] by blast
  have "mnt (s1\<lparr>st_moving := []\<rparr>) new"
    using s1 by (auto simp: mounted_iff list_inv_def page_inv_def on_page_def live_rows_def indexed_def)
  then show ?thesis using s1 same_st by (auto simp: apply_diff_def)
qed

lemma apply_diff_clear:
  fixes st :: "('o, 'item, 'row) list_st"
  assumes "mnt st rs" and "st_items st = []"
  shows "\<exists>st'. apply_diff L umax (diff_default\<lparr>clear := True\<rparr>) st = (None, st') \<and> mnt st' []"
proof -
  have st0: "linv (set rs) st" "st_rows st = map Some rs" "st_moving st = []"
    using assms(1) by (simp_all add: mounted_def)
  then have same_st: "st\<lparr>st_moving := []\<rparr> = st" by simp
  show ?thesis
    using apply_plan_clear [OF st0(1,2) assms(2) st0(3)] same_st
    by (auto simp: apply_diff_def mounted_iff clear_rows_def)
qed

end

section \<open>The properties of an update\<close>

lemma plan_for_diff:
  assumes "index_set I valid keys" and "valid s" "valid t" and "length (keys s) + length (keys t) \<le> umax"
  obtains d where "diff I umax s t = Inr d" and "plan_for (keys s) (keys t) d"
  | "diff I umax s t = Inr (diff_default\<lparr>clear := True\<rparr>)" and "keys t = []"
proof -
  have empty: "plan_for [] [] (diff_default\<lparr>clear := False\<rparr>)" by (simp add: plan_for_def diff_default_def)
  note closed = index_set.diff_closed_form [OF assms]
  show ?thesis
  proof (cases "keys t = []")
    case True
    then show ?thesis using closed that empty by (cases "keys s = []") auto
  next
    case False
    then show ?thesis
      using closed that(1) plan_for_plan_of [of "keys s" "keys t"] plan_for_append [of "keys t"]
      by (cases "keys s = []") auto
  qed
qed

text \<open>
  Whatever the old and the new keys of a keyed list are (repeated keys included), an update
  leaves one row per item on the page, in the order of the items, and every row knows its index.
  Without repeated keys a key that was there before keeps its row and the others get a new row
  showing their item, and nothing is logged; with repeated keys every row is built from its item.
\<close>

lemma reconcile_correct:
  fixes st :: "('o, 'item, 'row) list_st"
  assumes iset: "index_set I valid keys"
    and page: "list_page L shown rid content render owns index_of"
    and "valid s" "valid t" and umax: "length (keys s) + length (keys t) \<le> umax"
    and st: "mounted shown rid owns index_of st rs" and its: "st_items st = map Some its"
    and run: "reconcile I L umax s t lg st = (lg', st')"
  shows "\<exists>new. mounted shown rid owns index_of st' new \<and> length new = length its
     \<and> (if length its = length (keys t) \<and> length rs = length (keys s)
        then lg' = lg \<and> (\<forall>j < length its. row_for rid content render (keys s) (keys t) rs its j (new ! j))
        else \<forall>j < length its. content (new ! j) = render j (its ! j))"
proof (cases "length its = length (keys t) \<and> length rs = length (keys s)")
  case True
  have dist: "distinct (keys s)" "distinct (keys t)"
    using index_set.distinct_keys [OF iset] assms(3,4) by blast+
  have step: "reconcile I L umax s t lg st = (case diff I umax s t of
      Inr d \<Rightarrow> apply_or_rebuild L umax d lg st | Inl e \<Rightarrow> (report_invariant e lg, rebuild_from_scratch L st))"
    using True its st index_set.len_keys [OF iset] assms(3,4) by (simp add: reconcile_def mounted_def)
  from plan_for_diff [OF iset assms(3,4) umax] show ?thesis
  proof cases
    case (1 d)
    obtain s1 new where "apply_diff L umax d st = (None, s1)" "mounted shown rid owns index_of s1 new"
       "length new = length (keys t)"
       "\<forall>j < length (keys t). row_for rid content render (keys s) (keys t) rs its j (new ! j)"
      using list_page.apply_diff_for [OF page dist 1(2) _ st its _ umax] True by blast
    then show ?thesis using run step 1(1) True by (auto simp: apply_or_rebuild_def)
  next
    case 2
    then have "st_items st = []" using its True by simp
    then obtain s1 where "apply_diff L umax (diff_default\<lparr>clear := True\<rparr>) st = (None, s1)"
        "mounted shown rid owns index_of s1 []"
      using list_page.apply_diff_clear [OF page st] by blast
    then show ?thesis using run step 2 True its by (auto simp: apply_or_rebuild_def)
  qed
next
  case False
  then have "st' = rebuild_from_scratch L st"
    using run its st index_set.len_keys [OF iset] assms(3,4)
    by (auto simp: reconcile_def mounted_def Let_def split: if_splits)
  moreover have "on_page shown rid owns (st_ops st) (present (st_rows st))" "st_moving st = []"
    using st by (auto simp: mounted_def list_inv_def page_inv_def live_rows_def)
  ultimately show ?thesis
    using list_page.rebuild_mounted [OF page _ its] False by auto
qed

end
