(* ===== verification/Keyed_List.thy ===== *)
theory Keyed_List
  imports List_Reconcile
begin

text \<open>
  The keyed list view, \<open>halyard_tachys/src/view/keyed.rs\<close>: its retained state, the rows on the
  page (\<open>DomRows\<close>), \<open>build\<close>, \<open>rebuild\<close>, \<open>mount\<close> and \<open>unmount\<close>. What a row shows is up to the
  program that uses the list: the view function, the views' own \<open>Mountable\<close> operations and the
  browser's DOM are a record of operations, and the locale \<open>row_views\<close> states their contract;
  it gives the contract \<open>list_page\<close> of the diff. The last section instantiates the operations
  with rows of text in a parent node.
\<close>

section \<open>A key set kept as a list\<close>

text \<open>The order that \<open>IndexSet\<close> keeps is the order of first insertions.\<close>

definition insert_key :: "'k list \<Rightarrow> 'k \<Rightarrow> 'k list" where
  "insert_key ks k = (if k \<in> set ks then ks else ks @ [k])"

definition list_set_ops :: "('k list, 'k) index_set_ops" where
  "list_set_ops =
     \<lparr>iset_empty = [], iset_insert = insert_key, iset_len = length, iset_is_empty = (\<lambda>s. s = []),
      iset_get_index = vec_get,
      iset_get_index_of = (\<lambda>s k. if k \<in> set s then Some (pos s k) else None),
      iset_contains = (\<lambda>s k. k \<in> set s)\<rparr>"

interpretation list_set: index_set "list_set_ops :: ('k list, 'k) index_set_ops" distinct "\<lambda>s. s"
proof unfold_locales
  fix s :: "'k list" and k i assume "distinct s"
  then show "iset_get_index_of list_set_ops s k = Some i \<longleftrightarrow> vec_get s i = Some k"
    using pos_nth [of k s] by (auto simp: list_set_ops_def vec_get_eq_Some pos_unique)
qed (auto simp: list_set_ops_def insert_key_def)

definition first_keys :: "'k list \<Rightarrow> 'k list" where
  "first_keys ks = fold (\<lambda>k acc. insert_key acc k) ks []"

lemma fold_insert_key:
  "distinct (acc @ ks) \<Longrightarrow> fold (\<lambda>k acc. insert_key acc k) ks acc = acc @ ks"
  by (induction ks arbitrary: acc) (auto simp: insert_key_def)

lemma first_keys_distinct [simp]: "distinct ks \<Longrightarrow> first_keys ks = ks"
  by (simp add: first_keys_def fold_insert_key)

lemma length_fold_insert_key:
  "length (fold (\<lambda>k acc. insert_key acc k) ks acc) \<le> length acc + length ks"
proof (induction ks arbitrary: acc)
  case (Cons k ks)
  have "length (insert_key acc k) \<le> Suc (length acc)" by (simp add: insert_key_def)
  then show ?case using Cons [of "insert_key acc k"] by simp
qed simp

lemma fold_insert_key_shorter:
  assumes "\<not> distinct (acc @ ks)" and "distinct acc"
  shows "length (fold (\<lambda>k acc. insert_key acc k) ks acc) < length acc + length ks"
  using assms
proof (induction ks arbitrary: acc)
  case (Cons k ks)
  show ?case
  proof (cases "k \<in> set acc")
    case True
    then show ?thesis using length_fold_insert_key [of ks acc] by (simp add: insert_key_def)
  next
    case False
    have "\<not> distinct ((acc @ [k]) @ ks)" "distinct (acc @ [k])" using Cons.prems False by auto
    from Cons.IH [OF this] show ?thesis using False by (simp add: insert_key_def)
  qed
qed simp

text \<open>The number of distinct keys tells whether keys repeat.\<close>

lemma length_first_keys: "length (first_keys ks) = length ks \<longleftrightarrow> distinct ks"
  using fold_insert_key_shorter [of "[]" ks] by (cases "distinct ks") (auto simp: first_keys_def fold_insert_key)

context index_set begin

lemma fold_insert_keys:
  "valid s \<Longrightarrow> valid (fold (\<lambda>k s. iset_insert I s k) ks s)
    \<and> keys (fold (\<lambda>k s. iset_insert I s k) ks s) = fold (\<lambda>k acc. insert_key acc k) ks (keys s)"
  by (induction ks arbitrary: s) (simp_all add: valid_insert keys_insert insert_key_def)

end

section \<open>The rows of a keyed list\<close>

record ('dom, 'item, 'vfs, 'view, 'state, 'el, 'node) row_view_ops =
  rv_view_fn :: "'dom \<Rightarrow> nat \<Rightarrow> 'item \<Rightarrow> ('vfs \<times> 'view) \<times> 'dom"
  rv_build :: "'dom \<Rightarrow> 'view \<Rightarrow> 'state \<times> 'dom"
  rv_unmount :: "'dom \<Rightarrow> 'state \<Rightarrow> 'dom"
  rv_mount :: "'dom \<Rightarrow> 'state \<Rightarrow> 'el \<Rightarrow> 'node option \<Rightarrow> 'state \<times> 'dom"
  rv_insert_before_this :: "'dom \<Rightarrow> 'state \<Rightarrow> 'state \<Rightarrow> bool \<times> 'state \<times> 'dom"
  rv_set_index :: "'dom \<Rightarrow> 'vfs \<Rightarrow> nat \<Rightarrow> 'dom"

text \<open>\<open>Mountable::insert_before_this_or_marker\<close>.\<close>

definition insert_before_this_or_marker ::
  "('dom, 'item, 'vfs, 'view, 'state, 'el, 'node) row_view_ops \<Rightarrow> 'dom \<Rightarrow> 'state \<Rightarrow> 'el \<Rightarrow> 'state \<Rightarrow> 'node option
    \<Rightarrow> 'state \<times> 'dom" where
  "insert_before_this_or_marker V page this parent child marker =
    (case rv_insert_before_this V page this child of
       (inserted, child, page) \<Rightarrow> if inserted then (child, page) else rv_mount V page child parent marker)"

text \<open>\<open>DomRows\<close>.\<close>

definition dom_rows ::
  "('dom, 'item, 'vfs, 'view, 'state, 'el, 'node) row_view_ops \<Rightarrow> 'el option \<Rightarrow> 'node
    \<Rightarrow> ('dom, 'item, 'vfs \<times> 'state) list_ops" where
  "dom_rows V parent marker =
     \<lparr>op_build = (\<lambda>page index item.
        let ((set_index, view), page) = rv_view_fn V page index item;
            (state, page) = rv_build V page view
        in ((set_index, state), page)),
      op_unmount = (\<lambda>page row. rv_unmount V page (snd row)),
      op_mount = (\<lambda>page row before.
        case parent of
          None \<Rightarrow> (row, page)
        | Some parent \<Rightarrow>
            let (state, page) =
              (case before of
                 Some next \<Rightarrow> insert_before_this_or_marker V page (snd next) parent (snd row) (Some marker)
               | None \<Rightarrow> rv_mount V page (snd row) parent (Some marker))
            in ((fst row, state), page)),
      op_set_index = (\<lambda>page row index. rv_set_index V page (fst row) index)\<rparr>"

section \<open>The list view\<close>

record ('s, 'vfs, 'state, 'el, 'node) keyed_state =
  ks_parent :: "'el option"
  ks_marker :: 'node
  hashed_items :: 's
  rendered_items :: "('vfs \<times> 'state) option list"

fun build_items ::
  "('s, 'k) index_set_ops \<Rightarrow> ('dom, 'item, 'vfs, 'view, 'state, 'el, 'node) row_view_ops \<Rightarrow> ('item \<Rightarrow> 'k)
    \<Rightarrow> nat \<Rightarrow> 'item list \<Rightarrow> 's \<times> ('vfs \<times> 'state) option list \<times> 'dom \<Rightarrow> 's \<times> ('vfs \<times> 'state) option list \<times> 'dom" where
  "build_items I V key_fn index [] acc = acc"
| "build_items I V key_fn index (item # items) (hashed, rendered, page) =
    (let hashed = iset_insert I hashed (key_fn item);
         ((set_index, view), page) = rv_view_fn V page index item;
         (state, page) = rv_build V page view
     in build_items I V key_fn (Suc index) items (hashed, rendered @ [Some (set_index, state)], page))"

definition keyed_build ::
  "('s, 'k) index_set_ops \<Rightarrow> ('dom, 'item, 'vfs, 'view, 'state, 'el, 'node) row_view_ops
    \<Rightarrow> ('dom \<Rightarrow> 'node \<times> 'dom) \<Rightarrow> ('item \<Rightarrow> 'k) \<Rightarrow> 'item list \<Rightarrow> 'dom
    \<Rightarrow> ('s, 'vfs, 'state, 'el, 'node) keyed_state \<times> 'dom" where
  "keyed_build I V create_placeholder key_fn items page =
    (let (hashed, rendered, page) = build_items I V key_fn 0 items (iset_empty I, [], page);
         (marker, page) = create_placeholder page
     in (\<lparr>ks_parent = None, ks_marker = marker, hashed_items = hashed, rendered_items = rendered\<rparr>, page))"

definition keyed_rebuild ::
  "('s, 'k) index_set_ops \<Rightarrow> ('dom, 'item, 'vfs, 'view, 'state, 'el, 'node) row_view_ops \<Rightarrow> nat \<Rightarrow> ('item \<Rightarrow> 'k)
    \<Rightarrow> 'item list \<Rightarrow> report_log \<Rightarrow> ('s, 'vfs, 'state, 'el, 'node) keyed_state \<Rightarrow> 'dom
    \<Rightarrow> report_log \<times> ('s, 'vfs, 'state, 'el, 'node) keyed_state \<times> 'dom" where
  "keyed_rebuild I V umax key_fn new_items lg state page =
    (let new_hashed_items = fold (\<lambda>item s. iset_insert I s (key_fn item)) new_items (iset_empty I);
         (lg, st) = reconcile I (dom_rows V (ks_parent state) (ks_marker state)) umax
           (hashed_items state) new_hashed_items lg
           \<lparr>st_rows = rendered_items state, st_items = map Some new_items, st_moving = [], st_ops = page\<rparr>
     in (lg, state\<lparr>hashed_items := new_hashed_items, rendered_items := st_rows st\<rparr>, st_ops st))"

text \<open>\<open>Mountable\<close> for the list: its rows and then its marker go before the given marker.\<close>

fun mount_items ::
  "('dom, 'item, 'vfs, 'view, 'state, 'el, 'node) row_view_ops \<Rightarrow> 'el \<Rightarrow> 'node option
    \<Rightarrow> ('vfs \<times> 'state) option list \<Rightarrow> 'dom \<Rightarrow> ('vfs \<times> 'state) option list \<times> 'dom" where
  "mount_items V parent marker [] page = ([], page)"
| "mount_items V parent marker (None # rows) page =
    (let (rows, page) = mount_items V parent marker rows page in (None # rows, page))"
| "mount_items V parent marker (Some (set_index, item) # rows) page =
    (let (item, page) = rv_mount V page item parent marker;
         (rows, page) = mount_items V parent marker rows page
     in (Some (set_index, item) # rows, page))"

definition keyed_mount ::
  "('dom, 'item, 'vfs, 'view, 'state, 'el, 'node) row_view_ops
    \<Rightarrow> ('dom \<Rightarrow> 'node \<Rightarrow> 'el \<Rightarrow> 'node option \<Rightarrow> 'dom) \<Rightarrow> 'el \<Rightarrow> 'node option
    \<Rightarrow> ('s, 'vfs, 'state, 'el, 'node) keyed_state \<Rightarrow> 'dom
    \<Rightarrow> ('s, 'vfs, 'state, 'el, 'node) keyed_state \<times> 'dom" where
  "keyed_mount V mount_marker parent marker state page =
    (let (rows, page) = mount_items V parent marker (rendered_items state) page
     in (state\<lparr>ks_parent := Some parent, rendered_items := rows\<rparr>,
         mount_marker page (ks_marker state) parent marker))"

definition keyed_unmount ::
  "('dom, 'item, 'vfs, 'view, 'state, 'el, 'node) row_view_ops \<Rightarrow> ('dom \<Rightarrow> 'node \<Rightarrow> 'dom)
    \<Rightarrow> ('s, 'vfs, 'state, 'el, 'node) keyed_state \<Rightarrow> 'dom \<Rightarrow> 'dom" where
  "keyed_unmount V unmount_marker state page =
     unmount_marker (fold (\<lambda>row page. rv_unmount V page (snd row)) (present (rendered_items state)) page)
       (ks_marker state)"

section \<open>The contract of the views of the rows\<close>

text \<open>
  \<open>shown page\<close> are the views that the parent \<open>P\<close> shows before the list's marker \<open>M\<close>, in order.
  Mounting a view before the marker puts it last; inserting it before a view that is shown puts
  it there. Building a view shows nothing and makes one that was not there before; \<open>slot\<close> is where
  the index of a row is kept, and no two rows share it.
\<close>

locale row_views =
  fixes V :: "('dom, 'item, 'vfs, 'view, 'state, 'el, 'node) row_view_ops"
    and P :: 'el and M :: 'node
    and shown :: "'dom \<Rightarrow> 'id list"
    and vid :: "'state \<Rightarrow> 'id"
    and content :: "'state \<Rightarrow> 'c"
    and render :: "nat \<Rightarrow> 'item \<Rightarrow> 'c"
    and owns :: "'dom \<Rightarrow> 'vfs \<times> 'state \<Rightarrow> bool"
    and index_of :: "'dom \<Rightarrow> 'id \<Rightarrow> nat"
  assumes made: "rv_view_fn V pg i it = ((f, v), pg1) \<Longrightarrow> rv_build V pg1 v = (s, pg2) \<Longrightarrow>
      shown pg2 = shown pg \<and> content s = render i it \<and> owns pg2 (f, s)
      \<and> index_of pg2 = (index_of pg)(vid s := i) \<and> (\<forall>q. owns pg q \<longrightarrow> owns pg2 q \<and> vid (snd q) \<noteq> vid s)"
    and unmounted: "shown (rv_unmount V pg s) = removeAll (vid s) (shown pg)
      \<and> (\<forall>q. owns pg q \<longrightarrow> owns (rv_unmount V pg s) q)
      \<and> (\<forall>x. x \<noteq> vid s \<longrightarrow> index_of (rv_unmount V pg s) x = index_of pg x)"
    and mounted_last: "rv_mount V pg s P (Some M) = (s', pg') \<Longrightarrow>
      shown pg' = removeAll (vid s) (shown pg) @ [vid s]"
    and mount_same: "rv_mount V pg s P (Some M) = (s', pg') \<Longrightarrow>
      vid s' = vid s \<and> content s' = content s \<and> index_of pg' = index_of pg
      \<and> (\<forall>q. owns pg q \<longrightarrow> owns pg' q) \<and> (\<forall>f. owns pg (f, s) \<longrightarrow> owns pg' (f, s'))"
    and inserted: "rv_insert_before_this V pg nxt s = (b, s', pg') \<Longrightarrow>
      vid nxt \<in> set (shown pg) \<Longrightarrow> vid nxt \<noteq> vid s \<Longrightarrow>
      b \<and> shown pg' = insert_before (vid s) (Some (vid nxt)) (removeAll (vid s) (shown pg))"
    and insert_same: "rv_insert_before_this V pg nxt s = (b, s', pg') \<Longrightarrow>
      vid s' = vid s \<and> content s' = content s \<and> index_of pg' = index_of pg
      \<and> (\<forall>q. owns pg q \<longrightarrow> owns pg' q) \<and> (\<forall>f. owns pg (f, s) \<longrightarrow> owns pg' (f, s'))"
    and index_set: "shown (rv_set_index V pg f i) = shown pg
      \<and> (\<forall>q. owns pg q \<longrightarrow> owns (rv_set_index V pg f i) q)"
    and index_told: "owns pg (f, s) \<Longrightarrow> index_of (rv_set_index V pg f i) = (index_of pg)(vid s := i)"

text \<open>The rows of a mounted list then keep the contract of the diff.\<close>

lemmas dom_rows_simps = dom_rows_def insert_before_this_or_marker_def Let_def

sublocale row_views \<subseteq> rows: list_page "dom_rows V (Some P) M" shown "\<lambda>r. vid (snd r)" "\<lambda>r. content (snd r)"
  render owns index_of
proof unfold_locales
  fix pg i it r pg' assume "op_build (dom_rows V (Some P) M) pg i it = (r, pg')"
  then obtain f v pg1 s where r: "rv_view_fn V pg i it = ((f, v), pg1)" "rv_build V pg1 v = (s, pg')" "r = (f, s)"
    by (auto simp: dom_rows_simps split: prod.splits)
  show "shown pg' = shown pg" "content (snd r) = render i it" "owns pg' r"
    "index_of pg' = (index_of pg)(vid (snd r) := i)"
    "owns pg r' \<Longrightarrow> owns pg' r' \<and> vid (snd r') \<noteq> vid (snd r)" for r'
    using made [OF r(1,2)] r(3) by (auto simp del: split_paired_All)
next
  fix pg r b r' pg' assume mnt: "op_mount (dom_rows V (Some P) M) pg r b = (r', pg')"
  have same: "vid (snd r') = vid (snd r) \<and> content (snd r') = content (snd r) \<and> index_of pg' = index_of pg
      \<and> (\<forall>q. owns pg q \<longrightarrow> owns pg' q) \<and> (owns pg r \<longrightarrow> owns pg' r')"
  proof (cases b)
    case None
    then obtain s' where "rv_mount V pg (snd r) P (Some M) = (s', pg')" "r' = (fst r, s')"
      using mnt by (auto simp: dom_rows_simps split: prod.splits)
    then show ?thesis using mount_same by (cases r) auto
  next
    case (Some n)
    obtain inserted s1 pg1 where ins: "rv_insert_before_this V pg (snd n) (snd r) = (inserted, s1, pg1)"
      by (cases "rv_insert_before_this V pg (snd n) (snd r)")
    obtain s2 pg2 where m: "rv_mount V pg1 s1 P (Some M) = (s2, pg2)" by fastforce
    from mnt Some ins m have "if inserted then r' = (fst r, s1) \<and> pg' = pg1 else r' = (fst r, s2) \<and> pg' = pg2"
      by (auto simp: dom_rows_simps)
    then show ?thesis using insert_same [OF ins] mount_same [OF m] by (cases r) (auto split: if_splits)
  qed
  then show "vid (snd r') = vid (snd r) \<and> content (snd r') = content (snd r)" "index_of pg' = index_of pg"
    "owns pg r \<Longrightarrow> owns pg' r'" "owns pg r'' \<Longrightarrow> owns pg' r''" for r''
    by (auto simp del: split_paired_All)
  show "shown pg' = insert_before (vid (snd r)) (map_option (\<lambda>r. vid (snd r)) b) (removeAll (vid (snd r)) (shown pg))"
    if anchor: "\<And>a. b = Some a \<Longrightarrow> vid (snd a) \<in> set (shown pg) \<and> vid (snd a) \<noteq> vid (snd r)"
  proof (cases b)
    case None
    then obtain s' where "rv_mount V pg (snd r) P (Some M) = (s', pg')"
      using mnt by (auto simp: dom_rows_simps split: prod.splits)
    then show ?thesis using mounted_last None by (simp add: insert_before_def)
  next
    case (Some n)
    obtain inserted s1 pg1 where ins: "rv_insert_before_this V pg (snd n) (snd r) = (inserted, s1, pg1)"
      by (cases "rv_insert_before_this V pg (snd n) (snd r)")
    then show ?thesis
      using inserted [OF ins] anchor [OF Some] mnt Some by (auto simp: dom_rows_simps split: if_splits)
  qed
qed (auto simp: dom_rows_simps unmounted index_set index_told)

section \<open>The property of the list view\<close>

text \<open>A keyed list on the page that was last given the items \<open>its\<close>, with its rows.\<close>

definition keyed_shows ::
  "('s \<Rightarrow> 'k list) \<Rightarrow> ('dom \<Rightarrow> 'id list) \<Rightarrow> ('state \<Rightarrow> 'id) \<Rightarrow> ('dom \<Rightarrow> 'vfs \<times> 'state \<Rightarrow> bool)
    \<Rightarrow> ('dom \<Rightarrow> 'id \<Rightarrow> nat) \<Rightarrow> ('item \<Rightarrow> 'k) \<Rightarrow> ('s, 'vfs, 'state, 'el, 'node) keyed_state \<Rightarrow> 'dom
    \<Rightarrow> 'item list \<Rightarrow> ('vfs \<times> 'state) list \<Rightarrow> bool" where
  "keyed_shows keys shown vid owns index_of key_fn ks page its rows \<longleftrightarrow>
     rendered_items ks = map Some rows \<and> length rows = length its
     \<and> keys (hashed_items ks) = first_keys (map key_fn its)
     \<and> shown page = map (vid \<circ> snd) rows \<and> distinct (map (vid \<circ> snd) rows)
     \<and> (\<forall>r \<in> set rows. owns page r) \<and> (\<forall>j < length rows. index_of page (vid (snd (rows ! j))) = j)"

context row_views begin

lemma list_page_dom_rows:
  "list_page (dom_rows V (Some P) M) shown (\<lambda>r. vid (snd r)) (\<lambda>r. content (snd r)) render owns index_of"
  by (rule rows.list_page_axioms)

end

lemma keyed_shows_mounted:
  assumes "row_views V P M shown vid content render owns index_of"
  shows "keyed_shows keys shown vid owns index_of key_fn ks page its rows \<longleftrightarrow>
     mounted shown (\<lambda>r. vid (snd r)) owns index_of
       \<lparr>st_rows = rendered_items ks, st_items = items, st_moving = [], st_ops = page\<rparr> rows
     \<and> length rows = length its \<and> keys (hashed_items ks) = first_keys (map key_fn its)"
  using list_page.mounted_iff [OF row_views.list_page_dom_rows [OF assms]]
  by (auto simp: keyed_shows_def comp_def)

lemma key_set_of:
  assumes "index_set I valid keys"
  shows "valid (fold (\<lambda>item s. iset_insert I s (key_fn item)) its (iset_empty I))"
    and "keys (fold (\<lambda>item s. iset_insert I s (key_fn item)) its (iset_empty I)) = first_keys (map key_fn its)"
  using index_set.fold_insert_keys [OF assms index_set.valid_empty [OF assms], of "map key_fn its"]
    index_set.keys_empty [OF assms]
  by (simp_all add: first_keys_def fold_map comp_def)

text \<open>
  C1. A keyed list that is on the page, whatever items it was last given, shows after
  \<open>rebuild\<close> one row per new item, in order, each knowing its index; if neither the old nor the
  new keys repeat, the row of a key that was there before is the same row (it is not built again)
  and any other row is new and shows its item; if keys repeat, every row shows its item.
\<close>

theorem keyed_rebuild_correct:
  fixes key_fn :: "'item \<Rightarrow> 'k"
  assumes iset: "index_set I valid keys"
    and views: "row_views V P M shown vid content render owns index_of"
    and ks: "ks_parent ks = Some P" "ks_marker ks = M" "valid (hashed_items ks)"
    and old_shown: "keyed_shows keys shown vid owns index_of key_fn ks page old rows"
    and umax: "length old + length its \<le> umax"
    and run: "keyed_rebuild I V umax key_fn its lg ks page = (lg', ks', page')"
  shows "\<exists>rows'. keyed_shows keys shown vid owns index_of key_fn ks' page' its rows'
     \<and> (if distinct (map key_fn old) \<and> distinct (map key_fn its)
        then lg' = lg \<and> (\<forall>j < length its.
          (\<forall>i < length old. key_fn (old ! i) = key_fn (its ! j) \<longrightarrow>
             vid (snd (rows' ! j)) = vid (snd (rows ! i)) \<and> content (snd (rows' ! j)) = content (snd (rows ! i)))
          \<and> (key_fn (its ! j) \<notin> key_fn ` set old \<longrightarrow>
             content (snd (rows' ! j)) = render j (its ! j) \<and> vid (snd (rows' ! j)) \<notin> (vid \<circ> snd) ` set rows))
        else \<forall>j < length its. content (snd (rows' ! j)) = render j (its ! j))"
proof -
  let ?t = "fold (\<lambda>item s. iset_insert I s (key_fn item)) its (iset_empty I)"
  let ?st = "\<lparr>st_rows = rendered_items ks, st_items = map Some its, st_moving = [], st_ops = page\<rparr>"
  let ?rid = "\<lambda>r. vid (snd r)" and ?content = "\<lambda>r. content (snd r)"
  note t = key_set_of [OF iset, of key_fn its]
  have st: "mounted shown ?rid owns index_of ?st rows" and len: "length rows = length old"
    and s: "keys (hashed_items ks) = first_keys (map key_fn old)"
    using old_shown unfolding keyed_shows_mounted [OF views, of keys key_fn ks page old rows "map Some its"] by blast+
  obtain st' where rec: "reconcile I (dom_rows V (Some P) M) umax (hashed_items ks) ?t lg ?st = (lg', st')"
    and ks': "ks' = ks\<lparr>hashed_items := ?t, rendered_items := st_rows st'\<rparr>" "page' = st_ops st'"
    using run ks by (auto simp: keyed_rebuild_def Let_def split: prod.splits)
  have le: "length (first_keys ks) \<le> length ks" for ks :: "'k list"
    using length_fold_insert_key [of ks "[]"] by (simp add: first_keys_def)
  have um: "length (keys (hashed_items ks)) + length (keys ?t) \<le> umax"
    using umax le [of "map key_fn old"] le [of "map key_fn its"] by (simp add: s t)
  obtain new where new: "mounted shown ?rid owns index_of st' new" "length new = length its"
    and rows: "if length its = length (keys ?t) \<and> length rows = length (keys (hashed_items ks))
        then lg' = lg \<and> (\<forall>j < length its. row_for ?rid ?content render (keys (hashed_items ks)) (keys ?t) rows its j (new ! j))
        else \<forall>j < length its. ?content (new ! j) = render j (its ! j)"
    using reconcile_correct [OF iset row_views.list_page_dom_rows [OF views] ks(3) t(1) um st _ rec] by auto
  have cond: "length its = length (keys ?t) \<and> length rows = length (keys (hashed_items ks))
      \<longleftrightarrow> distinct (map key_fn old) \<and> distinct (map key_fn its)"
    using length_first_keys [of "map key_fn its"] length_first_keys [of "map key_fn old"]
    unfolding t s len length_map by metis
  have "keyed_shows keys shown vid owns index_of key_fn ks' page' its new"
    using new t list_page.mounted_iff [OF row_views.list_page_dom_rows [OF views], of st' new]
    by (auto simp: ks' keyed_shows_def comp_def simp del: split_paired_All)
  moreover have "vid (snd (new ! j)) = vid (snd (rows ! i)) \<and> content (snd (new ! j)) = content (snd (rows ! i))"
    if d: "distinct (map key_fn old) \<and> distinct (map key_fn its)" and j: "j < length its"
      and i: "i < length old" "key_fn (old ! i) = key_fn (its ! j)" for i j
  proof -
    have "pos (map key_fn old) (key_fn (its ! j)) = i" using d i by (intro pos_unique) auto
    moreover have "key_fn (its ! j) \<in> set (map key_fn old)" using i by (metis length_map nth_map nth_mem)
    moreover have "row_for ?rid ?content render (map key_fn old) (map key_fn its) rows its j (new ! j)"
      using rows cond d j by (simp add: s t)
    ultimately show ?thesis using j by (simp add: row_for_def same_row_def)
  qed
  moreover have "content (snd (new ! j)) = render j (its ! j) \<and> vid (snd (new ! j)) \<notin> (vid \<circ> snd) ` set rows"
    if "distinct (map key_fn old) \<and> distinct (map key_fn its)" "j < length its" "key_fn (its ! j) \<notin> key_fn ` set old" for j
    using rows cond that by (simp add: s t row_for_def comp_def)
  ultimately show ?thesis using rows cond by (intro exI [of _ new]) auto
qed

section \<open>Rows of text\<close>

text \<open>
  The operations instantiated: each row is a text node (as \<open>String\<close> in \<open>view/strings.rs\<close>), the
  parent shows the rows among other nodes, and the index of a row is a signal with the number of
  its node. The list's marker stands between \<open>before_marker\<close> and \<open>after_marker\<close>.
\<close>

datatype text_node = Row nat | Sibling nat

record text_page =
  before_marker :: "text_node list"
  after_marker :: "text_node list"
  next_node :: nat
  row_index :: "nat \<Rightarrow> nat"

fun rows_of :: "text_node list \<Rightarrow> nat list" where
  "rows_of [] = []"
| "rows_of (Row n # nodes) = n # rows_of nodes"
| "rows_of (Sibling n # nodes) = rows_of nodes"

definition text_shown :: "text_page \<Rightarrow> nat list" where
  "text_shown page = rows_of (before_marker page)"

definition take_out :: "nat \<Rightarrow> text_page \<Rightarrow> text_page" where
  "take_out n page = page\<lparr>before_marker := removeAll (Row n) (before_marker page),
     after_marker := removeAll (Row n) (after_marker page)\<rparr>"

definition text_insert_before :: "text_page \<Rightarrow> nat \<times> string \<Rightarrow> nat \<times> string \<Rightarrow> bool \<times> (nat \<times> string) \<times> text_page" where
  "text_insert_before page this child =
    (if fst this = fst child then (Row (fst this) \<in> set (before_marker page @ after_marker page), child, page)
     else if Row (fst this) \<in> set (before_marker page)
     then (True, child, let p = take_out (fst child) page in
       p\<lparr>before_marker := insert_before (Row (fst child)) (Some (Row (fst this))) (before_marker p)\<rparr>)
     else if Row (fst this) \<in> set (after_marker page)
     then (True, child, let p = take_out (fst child) page in
       p\<lparr>after_marker := insert_before (Row (fst child)) (Some (Row (fst this))) (after_marker p)\<rparr>)
     else (False, child, page))"

definition text_rows :: "(text_page, nat \<times> string, nat, nat \<times> string, nat \<times> string, unit, unit) row_view_ops" where
  "text_rows =
     \<lparr>rv_view_fn = (\<lambda>page index item.
        let n = next_node page
        in ((n, (n, snd item)), page\<lparr>next_node := Suc n, row_index := (row_index page)(n := index)\<rparr>)),
      rv_build = (\<lambda>page view. (view, page)),
      rv_unmount = (\<lambda>page state. take_out (fst state) page),
      rv_mount = (\<lambda>page state parent marker. (state,
        let p = take_out (fst state) page in p\<lparr>before_marker := before_marker p @ [Row (fst state)]\<rparr>)),
      rv_insert_before_this = text_insert_before,
      rv_set_index = (\<lambda>page f index. page\<lparr>row_index := (row_index page)(f := index)\<rparr>)\<rparr>"

definition text_owns :: "text_page \<Rightarrow> nat \<times> nat \<times> string \<Rightarrow> bool" where
  "text_owns page row \<longleftrightarrow> fst row = fst (snd row) \<and> fst row < next_node page"

lemma rows_of_append [simp]: "rows_of (xs @ ys) = rows_of xs @ rows_of ys"
  by (induction xs rule: rows_of.induct) simp_all

lemma rows_of_removeAll [simp]: "rows_of (removeAll (Row n) xs) = removeAll n (rows_of xs)"
  by (induction xs rule: rows_of.induct) auto

lemma set_rows_of [simp]: "n \<in> set (rows_of xs) \<longleftrightarrow> Row n \<in> set xs"
  by (induction xs rule: rows_of.induct) auto

lemma rows_of_insert_before:
  "Row y \<in> set xs \<Longrightarrow> rows_of (insert_before (Row x) (Some (Row y)) xs) = insert_before x (Some y) (rows_of xs)"
  by (induction xs rule: rows_of.induct) (auto simp: insert_before_def)

interpretation text_list: row_views text_rows "()" "()" text_shown fst snd "\<lambda>index item. snd item" text_owns row_index
proof unfold_locales
  fix pg :: text_page and nxt s b s' pg'
  assume ins: "rv_insert_before_this text_rows pg nxt s = (b, s', pg')"
  then show "fst s' = fst s \<and> snd s' = snd s \<and> row_index pg' = row_index pg
      \<and> (\<forall>q. text_owns pg q \<longrightarrow> text_owns pg' q) \<and> (\<forall>f. text_owns pg (f, s) \<longrightarrow> text_owns pg' (f, s'))"
    by (auto simp: text_rows_def text_insert_before_def take_out_def text_owns_def Let_def split: if_splits)
  show "b \<and> text_shown pg' = insert_before (fst s) (Some (fst nxt)) (removeAll (fst s) (text_shown pg))"
    if "fst nxt \<in> set (text_shown pg)" "fst nxt \<noteq> fst s"
    using ins that
    by (auto simp: text_rows_def text_insert_before_def take_out_def text_shown_def Let_def rows_of_insert_before)
qed (auto simp: text_rows_def take_out_def text_shown_def text_owns_def Let_def)

text \<open>A list of two rows in the middle of its parent.\<close>

definition two_rows :: "((nat list), nat, nat \<times> string, unit, unit) keyed_state" where
  "two_rows = \<lparr>ks_parent = Some (), ks_marker = (), hashed_items = [1, 2],
     rendered_items = [Some (0, 0, ''a''), Some (1, 1, ''b'')]\<rparr>"

definition two_rows_page :: text_page where
  "two_rows_page = \<lparr>before_marker = [Sibling 7, Row 0, Row 1], after_marker = [Sibling 8], next_node = 2,
     row_index = (\<lambda>n. n)\<rparr>"

text \<open>The second row moves to the front and the first to the end, around a new row.\<close>

theorem keyed_rebuild_correct_witness:
  "\<exists>x. x \<noteq> 0 \<and> x \<noteq> 1 \<and> text_shown (snd (snd (keyed_rebuild list_set_ops text_rows 4294967295 fst
     [(2, ''b''), (3, ''c''), (1, ''a'')] \<lparr>reported_repeated_keys = False, reported_invariant = False, log_lines = []\<rparr>
     two_rows two_rows_page))) = [1, x, 0]"
proof -
  let ?its = "[(2, ''b''), (3, ''c''), (1, ''a'')] :: (nat \<times> string) list"
  let ?old = "[(1, ''a''), (2, ''b'')] :: (nat \<times> string) list"
  let ?rows = "[(0, 0, ''a''), (1, 1, ''b'')] :: (nat \<times> nat \<times> string) list"
  let ?lg = "\<lparr>reported_repeated_keys = False, reported_invariant = False, log_lines = []\<rparr>"
  obtain lg' ks' pg' where run: "keyed_rebuild list_set_ops text_rows 4294967295 fst ?its ?lg two_rows two_rows_page
      = (lg', ks', pg')" using prod_cases3 by blast
  have sh: "keyed_shows (\<lambda>s. s) text_shown fst text_owns row_index fst two_rows two_rows_page ?old ?rows"
    by (auto simp: keyed_shows_def two_rows_def two_rows_page_def text_shown_def text_owns_def first_keys_def
        insert_key_def less_Suc_eq nth_Cons')
  have all3: "(\<forall>j < length ?its. Q j) \<longleftrightarrow> Q 0 \<and> Q 1 \<and> Q 2" for Q :: "nat \<Rightarrow> bool"
    by (auto simp: less_Suc_eq numeral_eq_Suc)
  obtain rows' where rows': "keyed_shows (\<lambda>s. s) text_shown fst text_owns row_index fst ks' pg' ?its rows'"
    and same: "fst (snd (rows' ! 0)) = 1" "fst (snd (rows' ! 2)) = 0" "fst (snd (rows' ! 1)) \<notin> {0, 1}"
    using keyed_rebuild_correct [OF list_set.index_set_axioms text_list.row_views_axioms _ _ _ sh _ run]
    unfolding all3
    by (auto simp: two_rows_def less_Suc_eq nth_Cons')
  have "text_shown pg' = map (fst \<circ> snd) rows'" "length rows' = 3" using rows' by (simp_all add: keyed_shows_def)
  then have "text_shown pg' = [fst (snd (rows' ! 0)), fst (snd (rows' ! 1)), fst (snd (rows' ! 2))]"
    by (cases rows' rule: list.exhaust; auto simp: length_Suc_conv numeral_eq_Suc)
  then show ?thesis using run same by auto
qed

text \<open>
  C10. A plan need not come from the planner: if carrying it out is refused at any point, the
  list is rendered again from scratch, so every item has a row showing it, in order, and no row
  of the old list is left on the page.
\<close>

theorem refused_plan_is_repaired:
  fixes st :: "('o, 'item, 'row) list_st"
  assumes page: "list_page L shown rid content render owns index_of"
    and st: "mounted shown rid owns index_of st rs" and its: "st_items st = map Some its"
    and "apply_diff L umax d st = (Some e, st1)"
  shows "\<exists>new. mounted shown rid owns index_of (snd (apply_or_rebuild L umax d lg st)) new
     \<and> length new = length its \<and> (\<forall>j < length its. content (new ! j) = render j (its ! j))"
proof -
  have "page_inv shown rid owns st" "st_moving st = []" using st by (simp_all add: mounted_def list_inv_def)
  from list_page.apply_diff_error [OF page assms(4) this]
  have "on_page shown rid owns (st_ops st1) (present (st_rows st1))" "st_items st1 = map Some its" "st_moving st1 = []"
    using its by simp_all
  from list_page.rebuild_mounted [OF page this] show ?thesis
    using assms(4) by (simp add: apply_or_rebuild_def)
qed

text \<open>A plan that removes the first row twice: refused after the row is gone, and repaired.\<close>

definition two_rows_st :: "(text_page, nat \<times> string, nat \<times> nat \<times> string) list_st" where
  "two_rows_st = \<lparr>st_rows = rendered_items two_rows, st_items = [Some (1, ''x''), Some (2, ''y'')],
     st_moving = [], st_ops = two_rows_page\<rparr>"

definition wrong_plan :: diff_plan where
  "wrong_plan = \<lparr>removed = [0, 0], moved = [], added = [plan_add 0, plan_add 1], clear = False\<rparr>"

theorem refused_plan_is_repaired_witness:
  "\<exists>new. st_rows (snd (apply_or_rebuild (dom_rows text_rows (Some ()) ()) 4294967295 wrong_plan
        \<lparr>reported_repeated_keys = False, reported_invariant = False, log_lines = []\<rparr> two_rows_st)) = map Some new
     \<and> snd (snd (new ! 0)) = ''x'' \<and> snd (snd (new ! 1)) = ''y''"
proof -
  let ?L = "dom_rows text_rows (Some ()) ()"
  have st: "mounted text_shown (\<lambda>r. fst (snd r)) text_owns row_index two_rows_st [(0, 0, ''a''), (1, 1, ''b'')]"
    unfolding list_page.mounted_iff [OF text_list.list_page_dom_rows]
    by (auto simp: two_rows_st_def two_rows_def two_rows_page_def text_shown_def text_owns_def less_Suc_eq)
  obtain st1 where "apply_diff ?L 4294967295 wrong_plan two_rows_st = (Some (Invariant ''a row to remove is missing''), st1)"
    by (simp add: apply_diff_def apply_plan_def prepare_rows_def and_then_def remove_row_def wrong_plan_def
        two_rows_st_def two_rows_def plan_add_def arith_defs vec_get_def Let_def)
  from refused_plan_is_repaired [OF text_list.list_page_dom_rows st _ this, of "[(1, ''x''), (2, ''y'')]"]
  show ?thesis
    by (force simp: two_rows_st_def mounted_def less_Suc_eq)
qed

end
