(* ===== verification/Str.thy ===== *)
theory Str
  imports Prelude "HOL-Library.Sublist"
begin

text \<open>
  The operations of Rust's \<open>str\<close> that the router uses, on UTF-8 text as the list of its bytes.
  Comparing, searching and cutting at an ASCII character work on bytes; the only operation that
  can tell characters from bytes is a cut at a given byte index, which fails inside a character.
\<close>

definition strip_prefix :: "string \<Rightarrow> string \<Rightarrow> string option" where [str_defs]:
  "strip_prefix p s = (if prefix p s then Some (drop (length p) s) else None)"

definition strip_suffix :: "string \<Rightarrow> string \<Rightarrow> string option" where [str_defs]:
  "strip_suffix p s = (if suffix p s then Some (take (length s - length p) s) else None)"

definition starts_with :: "string \<Rightarrow> string \<Rightarrow> bool" where [str_defs]:
  "starts_with p s \<longleftrightarrow> prefix p s"

definition split_at_char :: "char \<Rightarrow> string \<Rightarrow> string \<times> string" where [str_defs]:
  "split_at_char c s = (takeWhile (\<lambda>x. x \<noteq> c) s, dropWhile (\<lambda>x. x \<noteq> c) s)"

definition trim_start_char :: "char \<Rightarrow> string \<Rightarrow> string" where [str_defs]:
  "trim_start_char c s = dropWhile (\<lambda>x. x = c) s"

definition trim_end_char :: "char \<Rightarrow> string \<Rightarrow> string" where [str_defs]:
  "trim_end_char c s = rev (dropWhile (\<lambda>x. x = c) (rev s))"

text \<open>\<open>trim_end_matches\<close> with a non-empty pattern takes it off as often as it is at the end.\<close>

function trim_end_str :: "string \<Rightarrow> string \<Rightarrow> string" where
  "trim_end_str p s =
    (case (if p = [] then None else strip_suffix p s) of None \<Rightarrow> s | Some r \<Rightarrow> trim_end_str p r)"
  by auto
termination
  by (relation "measure (length \<circ> snd)") (auto simp: strip_suffix_def suffix_def split: if_splits)

declare trim_end_str.simps [simp del]

text \<open>A byte of the form \<open>10xxxxxx\<close> continues a character.\<close>

definition continuation_byte :: "char \<Rightarrow> bool" where [str_defs]:
  "continuation_byte c \<longleftrightarrow> (128 :: nat) \<le> of_char c \<and> of_char c < (192 :: nat)"

definition is_char_boundary :: "string \<Rightarrow> nat \<Rightarrow> bool" where [str_defs]:
  "is_char_boundary s i \<longleftrightarrow>
     i = 0 \<or> i = length s \<or> i < length s \<and> \<not> continuation_byte (s ! i)"

text \<open>\<open>s.get(..i)\<close>\<close>

definition str_get_to :: "string \<Rightarrow> nat \<Rightarrow> string option" where [str_defs]:
  "str_get_to s i = (if is_char_boundary s i then Some (take i s) else None)"

section \<open>Cutting and joining\<close>

lemma strip_prefix_eq_Some: "strip_prefix p s = Some r \<longleftrightarrow> s = p @ r"
  by (auto simp: strip_prefix_def prefix_def)

lemma strip_prefix_append [simp]: "strip_prefix p (p @ s) = Some s"
  by (simp add: strip_prefix_eq_Some)

lemma strip_prefix_slash [simp]: "strip_prefix ''/'' (CHR ''/'' # s) = Some s"
  by (simp add: strip_prefix_eq_Some)

lemma strip_suffix_eq_Some: "strip_suffix p s = Some r \<longleftrightarrow> s = r @ p"
  by (auto simp: strip_suffix_def suffix_def)

lemma strip_suffix_append [simp]: "strip_suffix p (s @ p) = Some s"
  by (simp add: strip_suffix_eq_Some)

lemma cons_append_same [simp]: "c # a @ b = x @ b \<longleftrightarrow> x = c # a"
  by (metis append_Cons append_same_eq)

lemma str_get_to_at:
  assumes "s = a @ b" and "b = [] \<or> hd b = CHR ''/''"
  shows "str_get_to s (length a) = Some a"
proof -
  have "is_char_boundary s (length a)"
    using assms by (cases b) (auto simp: is_char_boundary_def continuation_byte_def)
  then show ?thesis using assms(1) by (simp add: str_get_to_def)
qed

end
