(* ===== verification/Route_Segments.thy ===== *)
theory Route_Segments
  imports Str
begin

text \<open>
  Matching one path pattern: the segments of \<open>halyard/src/router/matching/horizontal\<close> (static,
  param, wildcard and optional param segments, and tuples of segments), with the retry loop that
  leaves optional segments out, and the path segments they generate.
\<close>

section \<open>Segments and partial matches\<close>

record partial_path_match =
  pm_remaining :: string
  pm_params :: "(string \<times> string) list"
  pm_matched :: string

datatype path_segment =
    PathUnit
  | PathStatic string
  | PathParam string
  | PathOptionalParam string
  | PathSplat string

datatype segment =
    UnitSegment
  | StaticSegment string
  | ParamSegment string
  | WildcardSegment string
  | OptionalParamSegment string
  | SegmentTuple "segment list"

fun as_raw_str :: "path_segment \<Rightarrow> string" where
  "as_raw_str PathUnit = ''''"
| "as_raw_str (PathStatic i) = i"
| "as_raw_str (PathParam i) = i"
| "as_raw_str (PathOptionalParam i) = i"
| "as_raw_str (PathSplat i) = i"

definition is_complete :: "partial_path_match \<Rightarrow> bool" where
  "is_complete m \<longleftrightarrow> pm_remaining m = [] \<or> pm_remaining m = ''/''"

section \<open>One segment\<close>

text \<open>The leading slash with the value after it, the value, and the rest.\<close>

definition first_segment :: "string \<Rightarrow> (string \<times> string \<times> string) option" where
  "first_segment path =
     Option.bind (strip_prefix ''/'' path) (\<lambda>rest.
       let (value, remaining) = split_at_char CHR ''/'' rest
       in Option.bind (strip_suffix remaining path) (\<lambda>matched. Some (matched, value, remaining)))"

definition test_unit :: "string \<Rightarrow> partial_path_match option" where
  "test_unit path = Some \<lparr>pm_remaining = path, pm_params = [], pm_matched = []\<rparr>"

definition test_static :: "string \<Rightarrow> string \<Rightarrow> partial_path_match option" where
  "test_static segment path =
    (if segment = []
     then (if path = [] \<or> starts_with ''/'' path
           then Some \<lparr>pm_remaining = path, pm_params = [], pm_matched = []\<rparr> else None)
     else if segment = ''/''
     then (if starts_with ''/'' path
           then Some \<lparr>pm_remaining = path, pm_params = [], pm_matched = ''/''\<rparr> else None)
     else
       Option.bind (strip_prefix ''/'' path) (\<lambda>rest.
         let name = (case strip_prefix ''/'' segment of Some n \<Rightarrow> n | None \<Rightarrow> segment)
         in if CHR ''/'' \<in> set name then None
            else Option.bind (strip_prefix name rest) (\<lambda>remaining.
              if \<not> (remaining = [] \<or> starts_with ''/'' remaining) then None
              else Option.bind (strip_suffix remaining path) (\<lambda>matched.
                Some \<lparr>pm_remaining = remaining, pm_params = [], pm_matched = matched\<rparr>))))"

definition test_param :: "string \<Rightarrow> string \<Rightarrow> partial_path_match option" where
  "test_param name path =
     Option.bind (first_segment path) (\<lambda>(matched, value, remaining).
       if value = [] then None
       else Some \<lparr>pm_remaining = remaining, pm_params = [(name, value)], pm_matched = matched\<rparr>)"

definition test_wildcard :: "string \<Rightarrow> string \<Rightarrow> partial_path_match option" where
  "test_wildcard name path =
     Option.bind (if path = [] then Some path else strip_prefix ''/'' path) (\<lambda>value.
       Some \<lparr>pm_remaining = [], pm_params = [(name, value)], pm_matched = path\<rparr>)"

definition test_optional_param :: "string \<Rightarrow> string \<Rightarrow> partial_path_match option" where
  "test_optional_param name path =
    (case first_segment path of
       Some (matched, value, remaining) \<Rightarrow>
         if value \<noteq> [] then Some \<lparr>pm_remaining = remaining, pm_params = [(name, value)], pm_matched = matched\<rparr>
         else Some \<lparr>pm_remaining = path, pm_params = [], pm_matched = []\<rparr>
     | None \<Rightarrow> Some \<lparr>pm_remaining = path, pm_params = [], pm_matched = []\<rparr>)"

section \<open>Tuples of segments\<close>

record matched_prefix =
  mp_path :: string
  mp_end :: nat

definition new_prefix :: "string \<Rightarrow> matched_prefix" where
  "new_prefix path = \<lparr>mp_path = path, mp_end = 0\<rparr>"

text \<open>
  Two lengths of strings add up to at most the largest \<open>usize\<close> (each is at most half of it), so
  the checked addition of the source never fails.
\<close>

definition record_match :: "string \<Rightarrow> string \<Rightarrow> string \<Rightarrow> matched_prefix \<Rightarrow> matched_prefix option" where
  "record_match input matched remaining p =
     Option.bind (checked_sub (length (mp_path p)) (length input)) (\<lambda>start.
     Option.bind (checked_sub (length (mp_path p)) (length remaining)) (\<lambda>consumed_end.
       Some (p\<lparr>mp_end := max (max (mp_end p) (start + length matched)) consumed_end\<rparr>)))"

definition matched_part :: "matched_prefix \<Rightarrow> string option" where
  "matched_part p = str_get_to (mp_path p) (mp_end p)"

text \<open>One round of the loop: it matches, does not match, or is tried again with one optional fewer.\<close>

datatype round = Matched partial_path_match | NoMatch | Retry

type_synonym field = "bool \<times> (string \<Rightarrow> partial_path_match option)"

text \<open>
  The fields after the first one. \<open>include_optionals\<close> is how many optional fields take part,
  \<open>nth_field\<close> how many optional fields came so far.
\<close>

fun later_fields ::
  "nat \<Rightarrow> nat \<Rightarrow> field list \<Rightarrow> matched_prefix \<Rightarrow> string \<Rightarrow> (string \<times> string) list \<Rightarrow> round" where
  "later_fields include_optionals nth_field [] p r params =
    (case matched_part p of
       None \<Rightarrow> NoMatch
     | Some m \<Rightarrow> Matched \<lparr>pm_remaining = r, pm_params = params, pm_matched = m\<rparr>)"
| "later_fields include_optionals nth_field ((opt, test_fn) # flds) p r params =
    (let nth_field = (if opt then nth_field + 1 else nth_field)
     in if \<not> opt \<or> nth_field \<le> include_optionals
        then (case test_fn r of
                None \<Rightarrow> if opt then NoMatch else Retry
              | Some m \<Rightarrow>
                  (case record_match r (pm_matched m) (pm_remaining m) p of
                     None \<Rightarrow> NoMatch
                   | Some p \<Rightarrow>
                       later_fields include_optionals nth_field flds p (pm_remaining m) (params @ pm_params m)))
        else later_fields include_optionals nth_field flds p r params)"

definition tuple_round :: "nat \<Rightarrow> field list \<Rightarrow> string \<Rightarrow> round" where
  "tuple_round include_optionals flds path =
    (case flds of
       [] \<Rightarrow> NoMatch
     | (opt, test_fn) # later \<Rightarrow>
         (let nth_field = (if opt then 1 else 0)
          in if \<not> opt \<or> nth_field \<le> include_optionals
             then (case test_fn path of
                     None \<Rightarrow> NoMatch
                   | Some m \<Rightarrow>
                       (case record_match path (pm_matched m) (pm_remaining m) (new_prefix path) of
                          None \<Rightarrow> NoMatch
                        | Some p \<Rightarrow>
                            later_fields include_optionals nth_field later p (pm_remaining m) (pm_params m)))
             else later_fields include_optionals nth_field later (new_prefix path) path []))"

fun tuple_loop :: "nat \<Rightarrow> field list \<Rightarrow> string \<Rightarrow> partial_path_match option" where
  "tuple_loop include_optionals flds path =
    (case tuple_round include_optionals flds path of
       Matched m \<Rightarrow> Some m
     | NoMatch \<Rightarrow> None
     | Retry \<Rightarrow> (case include_optionals of 0 \<Rightarrow> None | Suc n \<Rightarrow> tuple_loop n flds path))"

declare tuple_loop.simps [simp del]

definition test_single :: "(string \<Rightarrow> partial_path_match option) \<Rightarrow> string \<Rightarrow> partial_path_match option" where
  "test_single test_fn path =
     Option.bind (test_fn path) (\<lambda>m.
     Option.bind (record_match path (pm_matched m) (pm_remaining m) (new_prefix path)) (\<lambda>p.
     Option.bind (matched_part p) (\<lambda>matched. Some (m\<lparr>pm_matched := matched\<rparr>))))"

text \<open>\<open>PossibleRouteMatch\<close>\<close>

fun optional :: "segment \<Rightarrow> bool" where
  "optional (OptionalParamSegment name) = True"
| "optional (SegmentTuple segments) = list_ex optional segments"
| "optional _ = False"

fun test :: "segment \<Rightarrow> string \<Rightarrow> partial_path_match option" where
  "test UnitSegment = test_unit"
| "test (StaticSegment s) = test_static s"
| "test (ParamSegment name) = test_param name"
| "test (WildcardSegment name) = test_wildcard name"
| "test (OptionalParamSegment name) = test_optional_param name"
| "test (SegmentTuple []) = test_unit"
| "test (SegmentTuple [s]) = test_single (test s)"
| "test (SegmentTuple (s1 # s2 # segments)) =
    (\<lambda>path. tuple_loop (length (filter optional (s1 # s2 # segments)))
       (map (\<lambda>s. (optional s, test s)) (s1 # s2 # segments)) path)"

fun generate_path :: "segment \<Rightarrow> path_segment list" where
  "generate_path UnitSegment = []"
| "generate_path (StaticSegment s) = [PathStatic s]"
| "generate_path (ParamSegment name) = [PathParam name]"
| "generate_path (WildcardSegment name) = [PathSplat name]"
| "generate_path (OptionalParamSegment name) = [PathOptionalParam name]"
| "generate_path (SegmentTuple segments) = concat (map generate_path segments)"

section \<open>What a match says about the path\<close>

text \<open>
  A match cuts the path in two: the part that was eaten and the remaining part, which is empty
  or starts a segment (unless nothing was eaten). What is reported as matched is the eaten part,
  or the eaten part and the slash after it.
\<close>

definition cut_at :: "string \<Rightarrow> string \<Rightarrow> string \<Rightarrow> bool" where
  "cut_at path c r \<longleftrightarrow> path = c @ r \<and> (c = [] \<or> r = [] \<or> prefix ''/'' r)"

definition cut_of :: "string \<Rightarrow> partial_path_match \<Rightarrow> bool" where
  "cut_of path m \<longleftrightarrow>
     (\<exists>c. cut_at path c (pm_remaining m)
        \<and> (pm_matched m = c \<or> pm_matched m = c @ ''/'' \<and> prefix ''/'' (pm_remaining m)))"

lemma first_segment_Some:
  "first_segment path = Some (matched, value, remaining) \<longleftrightarrow>
     path = CHR ''/'' # value @ remaining \<and> matched = CHR ''/'' # value
     \<and> CHR ''/'' \<notin> set value \<and> (remaining = [] \<or> prefix ''/'' remaining)"
  (is "?L \<longleftrightarrow> ?R")
proof
  assume ?L
  then obtain rest where rest: "path = CHR ''/'' # rest" "value = takeWhile (\<lambda>x. x \<noteq> CHR ''/'') rest"
      "remaining = dropWhile (\<lambda>x. x \<noteq> CHR ''/'') rest" "strip_suffix remaining path = Some matched"
    by (auto simp: first_segment_def split_at_char_def strip_prefix_eq_Some bind_eq_Some_conv)
  then have "rest = value @ remaining" by simp
  moreover have "CHR ''/'' \<notin> set value" using rest(2) by (auto dest: set_takeWhileD)
  moreover have "remaining = [] \<or> prefix ''/'' remaining"
  proof (cases remaining)
    case (Cons a list)
    then have "a = CHR ''/''" using rest(3) hd_dropWhile [of "\<lambda>x. x \<noteq> CHR ''/''" rest] by (metis list.distinct(1) list.sel(1))
    then show ?thesis using Cons by simp
  qed simp
  moreover have "path = matched @ remaining" using rest(4) by (simp add: strip_suffix_eq_Some)
  ultimately show ?R using rest(1) by auto
next
  assume R: ?R
  then have v: "\<forall>x \<in> set value. x \<noteq> CHR ''/''" by blast
  have r: "takeWhile (\<lambda>x. x \<noteq> CHR ''/'') remaining = []" "dropWhile (\<lambda>x. x \<noteq> CHR ''/'') remaining = remaining"
    using R by (auto simp: prefix_def)
  have "takeWhile (\<lambda>x. x \<noteq> CHR ''/'') (value @ remaining) = value"
    "dropWhile (\<lambda>x. x \<noteq> CHR ''/'') (value @ remaining) = remaining"
    using v r by (simp_all add: takeWhile_append2 dropWhile_append2)
  then show ?L
    using R strip_suffix_append [of remaining "CHR ''/'' # value"] strip_prefix_append [of "''/''" "value @ remaining"]
    by (simp add: first_segment_def split_at_char_def)
qed

lemma test_static_cut: "test_static s path = Some m \<Longrightarrow> cut_of path m"
  by (auto simp: test_static_def cut_of_def cut_at_def starts_with_def strip_prefix_eq_Some strip_suffix_eq_Some
      bind_eq_Some_conv Let_def split: if_splits option.splits)

lemma test_simple_cut:
  "test_unit path = Some m \<Longrightarrow> cut_of path m"
  "test_param name path = Some m \<Longrightarrow> cut_of path m"
  "test_wildcard name path = Some m \<Longrightarrow> cut_of path m"
  "test_optional_param name path = Some m \<Longrightarrow> cut_of path m"
  by (auto simp: test_unit_def test_param_def test_wildcard_def test_optional_param_def cut_of_def cut_at_def
      first_segment_Some bind_eq_Some_conv split: if_splits option.splits)

text \<open>How far the matched prefix of a tuple reaches when the path is cut there.\<close>

definition prefix_reaches :: "matched_prefix \<Rightarrow> string \<Rightarrow> string \<Rightarrow> string \<Rightarrow> bool" where
  "prefix_reaches p path c r \<longleftrightarrow>
     mp_path p = path \<and> cut_at path c r \<and> (mp_end p = length c \<or> mp_end p = length c + 1 \<and> prefix ''/'' r)"

lemma record_match_reaches:
  assumes "prefix_reaches p path c r" and "cut_of r m"
    and "record_match r (pm_matched m) (pm_remaining m) p = Some p'"
  shows "\<exists>c'. prefix_reaches p' path (c @ c') (pm_remaining m)"
proof -
  obtain c' where c': "cut_at r c' (pm_remaining m)"
      "pm_matched m = c' \<or> pm_matched m = c' @ ''/'' \<and> prefix ''/'' (pm_remaining m)"
    using assms(2) by (auto simp: cut_of_def)
  have path: "path = c @ r" "r = c' @ pm_remaining m" using assms(1) c'(1) by (auto simp: prefix_reaches_def cut_at_def)
  have p': "mp_path p' = path"
    "mp_end p' = max (max (mp_end p) (length c + length (pm_matched m))) (length c + length c')"
    using assms(1,3) path by (auto simp: record_match_def prefix_reaches_def checked_sub_def split: if_splits)
  have "cut_at path (c @ c') (pm_remaining m)"
    using assms(1) c'(1) path by (auto simp: prefix_reaches_def cut_at_def)
  moreover have "mp_end p' = length (c @ c') \<or> mp_end p' = length (c @ c') + 1 \<and> prefix ''/'' (pm_remaining m)"
    using assms(1) c'(2) path(2) unfolding p'(2) prefix_reaches_def by (cases c') auto
  ultimately show ?thesis using p'(1) by (auto simp: prefix_reaches_def)
qed

lemma matched_part_reaches:
  assumes "prefix_reaches p path c r" and "matched_part p = Some x"
  shows "x = c \<or> x = c @ ''/'' \<and> prefix ''/'' r"
  using assms by (auto simp: prefix_reaches_def matched_part_def str_get_to_def cut_at_def prefix_def split: if_splits)

definition field_ok :: "field \<Rightarrow> bool" where
  "field_ok f \<longleftrightarrow> (\<forall>path m. snd f path = Some m \<longrightarrow> cut_of path m)"

lemma later_fields_cut:
  assumes "later_fields k n flds p r params = Matched m" and "\<forall>f \<in> set flds. field_ok f"
    and "prefix_reaches p path c r"
  shows "cut_of path m"
  using assms
proof (induction k n flds p r params arbitrary: c rule: later_fields.induct)
  case (1 k n p r params)
  then have "matched_part p = Some (pm_matched m)" "pm_remaining m = r" by (auto split: option.splits)
  moreover from this have "pm_matched m = c \<or> pm_matched m = c @ ''/'' \<and> prefix ''/'' r"
    using matched_part_reaches [OF 1(3)] by blast
  ultimately show ?case using 1(3) by (auto simp: cut_of_def prefix_reaches_def)
next
  case (2 k n opt f flds p r params)
  show ?case
  proof (cases "\<not> opt \<or> (if opt then n + 1 else n) \<le> k")
    case True
    then obtain m1 p1 where m1: "f r = Some m1" "record_match r (pm_matched m1) (pm_remaining m1) p = Some p1"
      and later: "later_fields k (if opt then n + 1 else n) flds p1 (pm_remaining m1) (params @ pm_params m1) = Matched m"
      using 2(3) by (auto simp: Let_def split: option.splits if_splits)
    have "cut_of r m1" using 2(4) m1(1) by (simp add: field_ok_def)
    then obtain c' where "prefix_reaches p1 path (c @ c') (pm_remaining m1)"
      using record_match_reaches [OF 2(5) _ m1(2)] by blast
    then show ?thesis using 2(1) [OF refl True m1] later 2(4) by simp
  next
    case False
    then show ?thesis using 2(2) [OF refl False] 2(3-5) by (simp add: Let_def)
  qed
qed

lemma tuple_round_cut:
  assumes "tuple_round k flds path = Matched m" and "\<forall>f \<in> set flds. field_ok f"
  shows "cut_of path m"
proof -
  have new: "prefix_reaches (new_prefix path) path [] path" by (simp add: prefix_reaches_def new_prefix_def cut_at_def)
  obtain opt f later where flds: "flds = (opt, f) # later"
    using assms(1) by (auto simp: tuple_round_def split: list.splits)
  show ?thesis
  proof (cases "\<not> opt \<or> (if opt then 1 else 0) \<le> k")
    case True
    then obtain m1 p1 n where m1: "f path = Some m1"
        "record_match path (pm_matched m1) (pm_remaining m1) (new_prefix path) = Some p1"
      and later: "later_fields k n later p1 (pm_remaining m1) (pm_params m1) = Matched m"
      using assms(1) flds by (auto simp: tuple_round_def Let_def split: option.splits if_splits)
    have "cut_of path m1" using assms(2) m1(1) by (simp add: flds field_ok_def)
    then obtain c' where "prefix_reaches p1 path ([] @ c') (pm_remaining m1)"
      using record_match_reaches [OF new _ m1(2)] by blast
    then show ?thesis using later_fields_cut [OF later] assms(2) flds by simp
  next
    case False
    then show ?thesis
      using assms(1) flds later_fields_cut [OF _ _ new] assms(2) by (auto simp: tuple_round_def Let_def split: if_splits)
  qed
qed

lemma tuple_loop_cut:
  "tuple_loop k flds path = Some m \<Longrightarrow> \<forall>f \<in> set flds. field_ok f \<Longrightarrow> cut_of path m"
  by (induction k) (subst (asm) tuple_loop.simps, auto dest: tuple_round_cut split: round.splits)+

lemma test_single_cut:
  assumes "test_single f path = Some m" and "field_ok (opt, f)"
  shows "cut_of path m"
proof -
  obtain m1 p x where m1: "f path = Some m1"
      "record_match path (pm_matched m1) (pm_remaining m1) (new_prefix path) = Some p"
      "matched_part p = Some x" "m = m1\<lparr>pm_matched := x\<rparr>"
    using assms(1) by (auto simp: test_single_def bind_eq_Some_conv)
  have "prefix_reaches (new_prefix path) path [] path" by (simp add: prefix_reaches_def new_prefix_def cut_at_def)
  moreover have "cut_of path m1" using assms(2) m1(1) by (simp add: field_ok_def)
  ultimately obtain c where c: "prefix_reaches p path ([] @ c) (pm_remaining m1)"
    using record_match_reaches m1(2) by blast
  with matched_part_reaches [OF c m1(3)] show ?thesis
    using m1(4) by (auto simp: cut_of_def prefix_reaches_def)
qed

lemma test_cut: "test s path = Some m \<Longrightarrow> cut_of path m"
proof (induction s arbitrary: path m rule: test.induct)
  case (7 s)
  then show ?case using test_single_cut [of "test s" path m] by (auto simp: field_ok_def)
next
  case (8 s1 s2 segments)
  have "field_ok (optional s, test s)" if "s \<in> set (s1 # s2 # segments)" for s
    using 8(1) that by (auto simp: field_ok_def)
  then have "\<forall>f \<in> set (map (\<lambda>s. (optional s, test s)) (s1 # s2 # segments)). field_ok f" by auto
  then show ?case using 8(2) by (simp only: test.simps) (rule tuple_loop_cut)
qed (auto intro: test_simple_cut test_static_cut)

text \<open>
  C32. Whatever the route pattern (any nesting of tuples, optional segments included), a match
  cuts the path: the path is the part that was eaten followed by the remaining path, which is
  empty or starts with a slash unless nothing was eaten, and what is reported as matched is the
  eaten part or the eaten part and the slash after it. So a match never reads outside the path.
\<close>

theorem test_cuts_path: "test s path = Some m \<Longrightarrow> cut_of path m"
  by (rule test_cut)

theorem test_cuts_path_witness:
  "cut_of ''/a/7/x'' \<lparr>pm_remaining = ''/x'', pm_params = [(''id'', ''7'')], pm_matched = ''/a/7''\<rparr>"
  by (rule test_cuts_path [of "SegmentTuple [StaticSegment ''a'', OptionalParamSegment ''id'']"]) code_simp

section \<open>Which paths a pattern matches\<close>

text \<open>
  The meaning of a pattern, without the matching algorithm: \<open>seg_eats s path ps rest\<close> says that
  the segment eats the beginning of the path, giving the params, and leaves \<open>rest\<close>. An optional
  param may also eat nothing.
\<close>

definition starts_segment :: "string \<Rightarrow> bool" where
  "starts_segment r \<longleftrightarrow> r = [] \<or> prefix ''/'' r"

definition segment_name :: "string \<Rightarrow> string" where
  "segment_name s = (case strip_prefix ''/'' s of Some n \<Rightarrow> n | None \<Rightarrow> s)"

inductive seg_eats :: "segment \<Rightarrow> string \<Rightarrow> (string \<times> string) list \<Rightarrow> string \<Rightarrow> bool" where
  eats_unit: "seg_eats UnitSegment path [] path"
| eats_empty: "starts_segment path \<Longrightarrow> seg_eats (StaticSegment []) path [] path"
| eats_slash: "prefix ''/'' path \<Longrightarrow> seg_eats (StaticSegment ''/'') path [] path"
| eats_static: "s \<noteq> [] \<Longrightarrow> s \<noteq> ''/'' \<Longrightarrow> CHR ''/'' \<notin> set (segment_name s) \<Longrightarrow> starts_segment rest \<Longrightarrow>
    seg_eats (StaticSegment s) (CHR ''/'' # segment_name s @ rest) [] rest"
| eats_param: "v \<noteq> [] \<Longrightarrow> CHR ''/'' \<notin> set v \<Longrightarrow> starts_segment rest \<Longrightarrow>
    seg_eats (ParamSegment name) (CHR ''/'' # v @ rest) [(name, v)] rest"
| eats_nothing_left: "seg_eats (WildcardSegment name) [] [(name, [])] []"
| eats_rest: "seg_eats (WildcardSegment name) (CHR ''/'' # v) [(name, v)] []"
| eats_optional: "v \<noteq> [] \<Longrightarrow> CHR ''/'' \<notin> set v \<Longrightarrow> starts_segment rest \<Longrightarrow>
    seg_eats (OptionalParamSegment name) (CHR ''/'' # v @ rest) [(name, v)] rest"
| eats_no_optional: "seg_eats (OptionalParamSegment name) path [] path"

inductive seq_eats :: "segment list \<Rightarrow> string \<Rightarrow> (string \<times> string) list \<Rightarrow> string \<Rightarrow> bool" where
  seq_nil: "seq_eats [] path [] path"
| seq_cons: "seg_eats s path ps mid \<Longrightarrow> seq_eats segs mid qs rest \<Longrightarrow> seq_eats (s # segs) path (ps @ qs) rest"

inductive_cases seq_eats_NilE: "seq_eats [] path ps rest"
inductive_cases seq_eats_ConsE: "seq_eats (s # segs) path ps rest"

fun flat :: "segment \<Rightarrow> bool" where
  "flat (SegmentTuple segs) = False"
| "flat _ = True"

inductive_simps seg_eats_simps:
  "seg_eats UnitSegment path ps rest"
  "seg_eats (StaticSegment s) path ps rest"
  "seg_eats (ParamSegment name) path ps rest"
  "seg_eats (WildcardSegment name) path ps rest"
  "seg_eats (OptionalParamSegment name) path ps rest"
  "seg_eats (SegmentTuple segs) path ps rest"

lemma test_static_Some:
  assumes "s \<noteq> []" "s \<noteq> ''/''"
  shows "test_static s path = Some m \<longleftrightarrow>
     (\<exists>rest. path = CHR ''/'' # segment_name s @ rest \<and> CHR ''/'' \<notin> set (segment_name s) \<and> starts_segment rest
        \<and> m = \<lparr>pm_remaining = rest, pm_params = [], pm_matched = CHR ''/'' # segment_name s\<rparr>)"
  using assms unfolding test_static_def segment_name_def [symmetric]
  by (auto simp: strip_prefix_eq_Some strip_suffix_eq_Some bind_eq_Some_conv starts_with_def starts_segment_def
      Let_def split: if_splits)

lemma test_static_slash:
  "test_static [] path = Some m \<longleftrightarrow> starts_segment path \<and> m = \<lparr>pm_remaining = path, pm_params = [], pm_matched = []\<rparr>"
  "test_static ''/'' path = Some m \<longleftrightarrow> prefix ''/'' path \<and> m = \<lparr>pm_remaining = path, pm_params = [], pm_matched = ''/''\<rparr>"
  by (auto simp: test_static_def starts_with_def starts_segment_def)

lemma test_eats:
  assumes "flat s" and "test s path = Some m"
  shows "seg_eats s path (pm_params m) (pm_remaining m)"
proof (cases s)
  case (StaticSegment x)
  then show ?thesis using assms(2)
    by (cases "x = [] \<or> x = ''/''") (auto simp: test_static_slash test_static_Some seg_eats_simps)
next
  case (OptionalParamSegment x)
  then show ?thesis using assms(2)
    by (auto simp: test_optional_param_def first_segment_Some starts_segment_def seg_eats_simps
        split: if_splits option.splits)
qed (use assms in \<open>auto simp: test_unit_def test_param_def test_wildcard_def first_segment_Some
    strip_prefix_eq_Some bind_eq_Some_conv starts_segment_def seg_eats_simps split: if_splits\<close>)

text \<open>An optional segment that is left out eats nothing, as its meaning allows.\<close>

lemma later_fields_eats:
  assumes "later_fields k n (map (\<lambda>s. (optional s, test s)) segs) p r params = Matched m"
    and "\<forall>s \<in> set segs. flat s"
  shows "\<exists>qs. pm_params m = params @ qs \<and> seq_eats segs r qs (pm_remaining m)"
  using assms
proof (induction segs arbitrary: n p r params)
  case Nil
  then show ?case by (auto split: option.splits intro: seq_nil)
next
  case (Cons s segs)
  let ?n = "if optional s then n + 1 else n"
  show ?case
  proof (cases "\<not> optional s \<or> ?n \<le> k")
    case True
    then obtain m1 p1 where m1: "test s r = Some m1"
      and later: "later_fields k ?n (map (\<lambda>s. (optional s, test s)) segs) p1 (pm_remaining m1) (params @ pm_params m1) = Matched m"
      using Cons.prems(1) by (auto simp: Let_def split: option.splits if_splits)
    obtain qs where "pm_params m = (params @ pm_params m1) @ qs" "seq_eats segs (pm_remaining m1) qs (pm_remaining m)"
      using Cons.IH [OF later] Cons.prems(2) by auto
    moreover have "seg_eats s r (pm_params m1) (pm_remaining m1)" using test_eats m1 Cons.prems(2) by simp
    ultimately show ?thesis by (auto intro: seq_cons)
  next
    case False
    then have "later_fields k ?n (map (\<lambda>s. (optional s, test s)) segs) p r params = Matched m"
      using Cons.prems(1) by (simp add: Let_def)
    then obtain qs where qs: "pm_params m = params @ qs" "seq_eats segs r qs (pm_remaining m)"
      using Cons.IH [of ?n p r params] Cons.prems(2) by auto
    moreover have "seg_eats s r [] r"
      using False Cons.prems(2) by (cases s) (auto intro: eats_no_optional)
    ultimately show ?thesis using seq_cons [of s r "[]" r segs qs] by auto
  qed
qed

lemma tuple_round_eats:
  assumes "tuple_round k (map (\<lambda>s. (optional s, test s)) segs) path = Matched m" and "\<forall>s \<in> set segs. flat s"
  shows "seq_eats segs path (pm_params m) (pm_remaining m)"
proof -
  obtain s later where segs: "segs = s # later"
    using assms(1) by (cases segs) (auto simp: tuple_round_def)
  let ?n = "if optional s then 1 else 0 :: nat" and ?flds = "map (\<lambda>s. (optional s, test s)) later"
  show ?thesis
  proof (cases "\<not> optional s \<or> ?n \<le> k")
    case True
    then obtain m1 p1 where m1: "test s path = Some m1"
      and later: "later_fields k ?n ?flds p1 (pm_remaining m1) (pm_params m1) = Matched m"
      using assms(1) segs by (auto simp: tuple_round_def Let_def split: option.splits if_splits)
    obtain qs where "pm_params m = pm_params m1 @ qs" "seq_eats later (pm_remaining m1) qs (pm_remaining m)"
      using later_fields_eats [OF later] assms(2) segs by auto
    moreover have "seg_eats s path (pm_params m1) (pm_remaining m1)" using test_eats m1 assms(2) segs by simp
    ultimately show ?thesis using segs seq_cons by simp
  next
    case False
    then have "later_fields k ?n ?flds (new_prefix path) path [] = Matched m"
      using assms(1) segs by (simp add: tuple_round_def Let_def)
    then obtain qs where qs: "pm_params m = [] @ qs" "seq_eats later path qs (pm_remaining m)"
      using later_fields_eats [of k ?n later "new_prefix path" path "[]" m] assms(2) segs by auto
    moreover have "seg_eats s path [] path"
      using False assms(2) segs by (cases s) (auto intro: eats_no_optional)
    ultimately show ?thesis using seq_cons [of s path "[]" path later qs] segs by simp
  qed
qed

lemma tuple_loop_eats:
  "tuple_loop k (map (\<lambda>s. (optional s, test s)) segs) path = Some m \<Longrightarrow> \<forall>s \<in> set segs. flat s \<Longrightarrow>
    seq_eats segs path (pm_params m) (pm_remaining m)"
  by (induction k) (subst (asm) tuple_loop.simps, auto dest: tuple_round_eats split: round.splits)+

lemma test_tuple_eats:
  assumes "\<forall>s \<in> set segs. flat s" and "segs \<noteq> []" and "test (SegmentTuple segs) path = Some m"
  shows "seq_eats segs path (pm_params m) (pm_remaining m)"
proof (cases "\<exists>s. segs = [s]")
  case True
  then obtain s where segs: "segs = [s]" by blast
  then obtain m1 where "test s path = Some m1" "pm_params m1 = pm_params m" "pm_remaining m1 = pm_remaining m"
    using assms(3) by (auto simp: test_single_def bind_eq_Some_conv)
  then show ?thesis using test_eats [of s path m1] assms(1) segs seq_cons [OF _ seq_nil] by fastforce
next
  case False
  then obtain s1 s2 later where segs: "segs = s1 # s2 # later" using assms(2) by (metis list.exhaust)
  then show ?thesis using assms(3) tuple_loop_eats [OF _ assms(1)] by (simp only: test.simps segs)
qed

section \<open>Patterns match every path they should\<close>

text \<open>No character continues after a slash, as in any UTF-8 text.\<close>

definition utf8_slashes :: "string \<Rightarrow> bool" where
  "utf8_slashes s \<longleftrightarrow> (\<forall>i. Suc i < length s \<longrightarrow> s ! i = CHR ''/'' \<longrightarrow> \<not> continuation_byte (s ! Suc i))"

lemma matched_part_utf8:
  assumes "prefix_reaches p path c r" and "utf8_slashes path"
  shows "\<exists>x. matched_part p = Some x"
proof -
  have path: "mp_path p = path" "path = c @ r" "c = [] \<or> r = [] \<or> prefix ''/'' r"
    and e: "mp_end p = length c \<or> mp_end p = length c + 1 \<and> prefix ''/'' r"
    using assms(1) by (auto simp: prefix_reaches_def cut_at_def)
  from e show ?thesis
  proof
    assume "mp_end p = length c"
    moreover have "is_char_boundary path (length c)"
      using path by (cases r) (auto simp: is_char_boundary_def continuation_byte_def)
    ultimately show ?thesis using path(1) by (simp add: matched_part_def str_get_to_def)
  next
    assume e: "mp_end p = length c + 1 \<and> prefix ''/'' r"
    then obtain r' where "r = CHR ''/'' # r'" by (auto simp: prefix_def)
    then have "path ! length c = CHR ''/''" "length c < length path" using path(2) by simp_all
    then have "is_char_boundary path (length c + 1)"
      using assms(2) by (cases "Suc (length c) = length path") (auto simp: is_char_boundary_def utf8_slashes_def)
    then show ?thesis using e path(1) by (simp add: matched_part_def str_get_to_def)
  qed
qed

lemma record_match_succeeds:
  assumes "prefix_reaches p path c r" and "cut_of r m"
  shows "\<exists>p' c'. record_match r (pm_matched m) (pm_remaining m) p = Some p' \<and> prefix_reaches p' path c' (pm_remaining m)"
proof -
  have "length r \<le> length path" "length (pm_remaining m) \<le> length path"
    using assms by (auto simp: prefix_reaches_def cut_at_def cut_of_def)
  then obtain p' where "record_match r (pm_matched m) (pm_remaining m) p = Some p'"
    using assms(1) by (auto simp: record_match_def prefix_reaches_def checked_sub_def)
  then show ?thesis using record_match_reaches [OF assms] by blast
qed

lemma eats_test:
  assumes "\<not> optional s" and "flat s" and "seg_eats s path ps rest"
  shows "\<exists>m. test s path = Some m \<and> pm_params m = ps \<and> pm_remaining m = rest"
proof (cases s)
  case (StaticSegment x)
  then show ?thesis using assms(3)
    by (cases "x = [] \<or> x = ''/''") (auto simp: test_static_slash test_static_Some seg_eats_simps)
next
  case (ParamSegment x)
  then obtain v where v: "v \<noteq> []" "CHR ''/'' \<notin> set v" "starts_segment rest" "path = CHR ''/'' # v @ rest" "ps = [(x, v)]"
    using assms(3) by (auto simp: seg_eats_simps)
  then have "first_segment path = Some (CHR ''/'' # v, v, rest)"
    by (auto simp: first_segment_Some starts_segment_def)
  then show ?thesis using ParamSegment v by (simp add: test_param_def)
qed (use assms in \<open>auto simp: test_unit_def test_wildcard_def strip_prefix_eq_Some seg_eats_simps\<close>)

text \<open>
  The segments when the first \<open>k\<close> optional params are there (each with a value) and the later ones
  are left out.
\<close>

fun kept :: "nat \<Rightarrow> segment list \<Rightarrow> segment list" where
  "kept k [] = []"
| "kept k (OptionalParamSegment name # segs) = (if k = 0 then kept 0 segs else ParamSegment name # kept (k - 1) segs)"
| "kept k (s # segs) = s # kept k segs"

lemma kept_mandatory: "flat s \<Longrightarrow> \<not> optional s \<Longrightarrow> kept k (s # segs) = s # kept k segs"
  by (cases s) simp_all

lemma kept_optional: "flat s \<Longrightarrow> optional s \<Longrightarrow> \<exists>name. s = OptionalParamSegment name"
  by (cases s) simp_all

lemma kept_none: "\<forall>s \<in> set segs. flat s \<Longrightarrow> kept 0 segs = filter (\<lambda>s. \<not> optional s) segs"
proof (induction segs)
  case (Cons s segs)
  then show ?case by (cases s) auto
qed simp

lemma kept_all: "\<forall>s \<in> set segs. flat s \<Longrightarrow> length (filter optional segs) \<le> k \<Longrightarrow> kept k segs = kept (length (filter optional segs)) segs"
proof (induction segs arbitrary: k)
  case (Cons s segs)
  then have flat: "flat s" and all: "\<forall>s \<in> set segs. flat s" by simp_all
  show ?case
  proof (cases "optional s")
    case True
    then obtain name where s: "s = OptionalParamSegment name" using kept_optional [OF flat] by blast
    have "length (filter optional segs) \<le> k - 1" "k \<noteq> 0" using Cons.prems(2) True by auto
    then show ?thesis using Cons.IH [OF all, of "k - 1"] by (simp only: s kept.simps filter.simps) (simp add: s)
  next
    case False
    then have "length (filter optional segs) \<le> k" using Cons.prems(2) by simp
    from Cons.IH [OF all this] show ?thesis
      using False by (simp only: kept_mandatory [OF flat False] filter.simps) simp
  qed
qed simp

lemma param_optional_test:
  assumes "seg_eats (ParamSegment name) path ps rest"
  shows "\<exists>m. test (OptionalParamSegment name) path = Some m \<and> pm_params m = ps \<and> pm_remaining m = rest"
proof -
  obtain v where v: "v \<noteq> []" "CHR ''/'' \<notin> set v" "starts_segment rest" "path = CHR ''/'' # v @ rest" "ps = [(name, v)]"
    using assms by (auto simp: seg_eats_simps)
  then have "first_segment path = Some (CHR ''/'' # v, v, rest)"
    by (auto simp: first_segment_Some starts_segment_def)
  then show ?thesis using v by (simp add: test_optional_param_def)
qed

text \<open>From a cut on, a round matches what the segments that it includes eat.\<close>

lemma later_fields_complete:
  assumes "seq_eats (kept (k - n) segs) r qs rest"
    and "\<forall>s \<in> set segs. flat s" and "prefix_reaches p path c r" and "utf8_slashes path"
  shows "\<exists>m. later_fields k n (map (\<lambda>s. (optional s, test s)) segs) p r params = Matched m
     \<and> pm_params m = params @ qs \<and> pm_remaining m = rest"
  using assms(1-3)
proof (induction segs arbitrary: n p r params qs c)
  case Nil
  then show ?case using matched_part_utf8 [OF _ assms(4)] by (fastforce elim: seq_eats_NilE)
next
  case (Cons s segs)
  have flat: "flat s" using Cons.prems(2) by simp
  show ?case
  proof (cases "optional s \<and> k \<le> n")
    case True
    then obtain name where "s = OptionalParamSegment name" using kept_optional [OF flat] by blast
    then have "seq_eats (kept (k - Suc n) segs) r qs rest" using Cons.prems(1) True by simp
    from Cons.IH [OF this _ Cons.prems(3)] show ?thesis using Cons.prems(2) True by (simp add: Let_def)
  next
    case False
    let ?n = "if optional s then n + 1 else n"
    have "\<exists>m qs'. test s r = Some m \<and> seq_eats (kept (k - ?n) segs) (pm_remaining m) qs' rest \<and> qs = pm_params m @ qs'"
    proof (cases "optional s")
      case True
      then obtain name where name: "s = OptionalParamSegment name" using kept_optional [OF flat] by blast
      then obtain ps mid qs' where "seg_eats (ParamSegment name) r ps mid" "seq_eats (kept (k - Suc n) segs) mid qs' rest"
          "qs = ps @ qs'"
        using Cons.prems(1) False True by (auto elim: seq_eats_ConsE)
      then show ?thesis using param_optional_test [of name r ps mid] True name by auto
    next
      case mandatory: False
      then obtain ps mid qs' where "seg_eats s r ps mid" "seq_eats (kept (k - n) segs) mid qs' rest" "qs = ps @ qs'"
        using Cons.prems(1) by (auto simp: kept_mandatory [OF flat] elim: seq_eats_ConsE)
      then show ?thesis using eats_test [OF mandatory flat, of r ps mid] mandatory by auto
    qed
    then obtain m qs' where m: "test s r = Some m" "seq_eats (kept (k - ?n) segs) (pm_remaining m) qs' rest" "qs = pm_params m @ qs'"
      by blast
    obtain p' c' where "record_match r (pm_matched m) (pm_remaining m) p = Some p'" "prefix_reaches p' path c' (pm_remaining m)"
      using record_match_succeeds [OF Cons.prems(3) test_cut [OF m(1)]] by blast
    then show ?thesis
      using Cons.IH [OF m(2), of p' c' "params @ pm_params m"] Cons.prems(2) False m by (auto simp: Let_def)
  qed
qed

lemma new_prefix_reaches: "prefix_reaches (new_prefix path) path [] path"
  by (simp add: prefix_reaches_def new_prefix_def cut_at_def)

text \<open>The first field is treated as the later ones, except when it does not match.\<close>

lemma tuple_round_later:
  assumes "later_fields k 0 (map (\<lambda>s. (optional s, test s)) segs) (new_prefix path) path [] = Matched m" and "segs \<noteq> []"
  shows "tuple_round k (map (\<lambda>s. (optional s, test s)) segs) path = Matched m"
  using assms by (cases segs) (auto simp: tuple_round_def Let_def split: option.splits if_splits)

lemma tuple_round_complete:
  assumes "seq_eats (kept k segs) path ps rest" and "segs \<noteq> []"
    and "\<forall>s \<in> set segs. flat s" and "utf8_slashes path"
  shows "\<exists>m. tuple_round k (map (\<lambda>s. (optional s, test s)) segs) path = Matched m
     \<and> pm_params m = ps \<and> pm_remaining m = rest"
  using later_fields_complete [of k 0 segs path ps rest "new_prefix path" path "[]" "[]"] new_prefix_reaches tuple_round_later assms
  by fastforce

text \<open>A round that does not match is tried again, as long as the first segment matches.\<close>

lemma optional_test: "flat s \<Longrightarrow> optional s \<Longrightarrow> \<exists>m. test s path = Some m"
  by (cases s) (auto simp: test_optional_param_def split: option.splits)

lemma later_fields_goes_on:
  assumes "\<forall>s \<in> set segs. flat s" and "prefix_reaches p path c r" and "utf8_slashes path"
  shows "later_fields k n (map (\<lambda>s. (optional s, test s)) segs) p r params \<noteq> NoMatch"
  using assms(1,2)
proof (induction segs arbitrary: n p r params c)
  case Nil
  then show ?case using matched_part_utf8 [OF _ assms(3)] by (fastforce split: option.splits)
next
  case (Cons s segs)
  show ?case
  proof (cases "test s r")
    case None
    then show ?thesis using optional_test [of s r] Cons by (auto simp: Let_def)
  next
    case (Some m)
    obtain p' c' where "record_match r (pm_matched m) (pm_remaining m) p = Some p'" "prefix_reaches p' path c' (pm_remaining m)"
      using record_match_succeeds [OF Cons.prems(2) test_cut [OF Some]] by blast
    then show ?thesis using Some Cons by (auto simp: Let_def)
  qed
qed

lemma tuple_round_goes_on:
  assumes "\<forall>s \<in> set segs. flat s" and "segs \<noteq> []" and "utf8_slashes path"
    and "optional (hd segs) \<or> (\<exists>m. test (hd segs) path = Some m)"
  shows "tuple_round k (map (\<lambda>s. (optional s, test s)) segs) path \<noteq> NoMatch"
proof -
  obtain s later where segs: "segs = s # later" using assms(2) by (cases segs) auto
  then obtain m where m: "test s path = Some m" using assms(1,4) optional_test [of s path] by auto
  obtain p' c' where "record_match path (pm_matched m) (pm_remaining m) (new_prefix path) = Some p'"
      "prefix_reaches p' path c' (pm_remaining m)"
    using record_match_succeeds [OF new_prefix_reaches test_cut [OF m]] by blast
  then show ?thesis
    using m segs assms(1) later_fields_goes_on [OF _ _ assms(3)]
      later_fields_goes_on [OF _ new_prefix_reaches assms(3), of later k 1 "[]"]
    by (auto simp: tuple_round_def Let_def)
qed

lemma tuple_loop_complete:
  assumes "seq_eats (kept j segs) path ps rest" and "segs \<noteq> []" and "j \<le> k"
    and "\<forall>s \<in> set segs. flat s" and "utf8_slashes path"
  shows "\<exists>m. tuple_loop k (map (\<lambda>s. (optional s, test s)) segs) path = Some m
    \<and> (j = k \<longrightarrow> pm_params m = ps \<and> pm_remaining m = rest)"
proof -
  have "optional (hd segs) \<or> (\<exists>m. test (hd segs) path = Some m)"
  proof (cases segs)
    case (Cons s later)
    then have flat: "flat s" using assms(4) by simp
    show ?thesis
    proof (cases "optional s")
      case False
      then obtain qs mid where "seg_eats s path qs mid"
        using assms(1) Cons by (auto simp: kept_mandatory [OF flat] elim: seq_eats_ConsE)
      then show ?thesis using eats_test [OF False flat] Cons by auto
    qed (simp add: Cons)
  qed (use assms(2) in simp)
  note goes_on = tuple_round_goes_on [OF assms(4,2,5) this]
  obtain m where m: "tuple_round j (map (\<lambda>s. (optional s, test s)) segs) path = Matched m" "pm_params m = ps" "pm_remaining m = rest"
    using tuple_round_complete [OF assms(1,2,4,5)] by blast
  show ?thesis using assms(3)
  proof (induction k)
    case 0
    then show ?case using m by (subst tuple_loop.simps) auto
  next
    case (Suc k)
    show ?case
    proof (cases "j = Suc k")
      case True
      then show ?thesis using m by (subst tuple_loop.simps) auto
    next
      case False
      then show ?thesis using Suc goes_on [of "Suc k"] by (subst tuple_loop.simps) (auto split: round.splits)
    qed
  qed
qed

text \<open>
  C11. A tuple of segments matches only what its segments mean: the params are those of the
  segments in order, where an optional param may have been left out.
\<close>

theorem tuple_match_sound:
  assumes "\<forall>s \<in> set segs. flat s" and "segs \<noteq> []" and "test (SegmentTuple segs) path = Some m"
  shows "seq_eats segs path (pm_params m) (pm_remaining m)"
  using assms by (rule test_tuple_eats)

theorem tuple_match_sound_witness:
  "seq_eats [OptionalParamSegment ''lang'', StaticSegment ''about''] ''/about'' [] []"
proof -
  let ?segs = "[OptionalParamSegment ''lang'', StaticSegment ''about'']"
  have "test (SegmentTuple ?segs) ''/about'' = Some \<lparr>pm_remaining = [], pm_params = [], pm_matched = ''/about''\<rparr>"
    by code_simp
  from tuple_match_sound [OF _ _ this] show ?thesis by simp
qed

text \<open>
  C12. A tuple of two or more segments matches every path that its segments mean with the first \<open>k\<close>
  optional params present and the later ones left out, for every \<open>k\<close> (none of them, in particular), and
  the search always ends. When all optional params are present (or there are none) the match has
  exactly the params and the remaining path of that reading; otherwise a reading with more of
  them present may be found first.
\<close>

theorem tuple_match_complete:
  assumes "\<forall>s \<in> set (s1 # s2 # segs). flat s" and "utf8_slashes path"
    and "seq_eats (kept k (s1 # s2 # segs)) path ps rest"
  shows "\<exists>m. test (SegmentTuple (s1 # s2 # segs)) path = Some m
     \<and> (length (filter optional (s1 # s2 # segs)) \<le> k \<longrightarrow> pm_params m = ps \<and> pm_remaining m = rest)"
proof -
  let ?segs = "s1 # s2 # segs"
  let ?n = "length (filter optional ?segs)"
  have test_eq: "test (SegmentTuple ?segs) path = tuple_loop ?n (map (\<lambda>s. (optional s, test s)) ?segs) path"
    by (simp only: test.simps)
  have "seq_eats (kept (min k ?n) ?segs) path ps rest"
    using assms(3) kept_all [OF assms(1), of k] by (cases "k \<le> ?n") (simp_all only: min_absorb1 min_absorb2 nle_le)
  from tuple_loop_complete [OF this _ min.cobounded2 assms(1,2)] show ?thesis
    unfolding test_eq by (metis list.distinct(1) min_absorb2)
qed

theorem tuple_match_complete_witness:
  "\<exists>m. test (SegmentTuple [OptionalParamSegment ''lang'', StaticSegment ''post'', OptionalParamSegment ''page'']) ''/en/post'' = Some m"
proof -
  have en: "seg_eats (ParamSegment ''lang'') ''/en/post'' [(''lang'', ''en'')] ''/post''"
    using eats_param [of "''en''" "''/post''"] by (simp add: starts_segment_def)
  have post: "seg_eats (StaticSegment ''post'') ''/post'' [] []"
    using eats_static [of "''post''" "[]"] by (simp add: segment_name_def strip_prefix_def starts_segment_def)
  have "seq_eats [ParamSegment ''lang'', StaticSegment ''post''] ''/en/post'' ([(''lang'', ''en'')] @ [] @ []) []"
    by (rule seq_cons [OF en seq_cons [OF post seq_nil]])
  then have "seq_eats (kept 1 [OptionalParamSegment ''lang'', StaticSegment ''post'', OptionalParamSegment ''page'']) ''/en/post''
      ([(''lang'', ''en'')] @ [] @ []) []"
    by simp
  moreover have "utf8_slashes ''/en/post''"
    by (auto simp: utf8_slashes_def continuation_byte_def nth_Cons' split: if_splits)
  ultimately show ?thesis
    using tuple_match_complete [of "OptionalParamSegment ''lang''" "StaticSegment ''post''" "[OptionalParamSegment ''page'']"] by fastforce
qed

text \<open>
  Nesting tuples does change what is matched: when a segment after a nested tuple does not
  match, a nested tuple with an optional param is left out as a whole, its mandatory segments
  included. The flat pattern does not match this path.
\<close>

theorem nested_tuple_drops_mandatory_param:
  "test (SegmentTuple [StaticSegment ''x'', SegmentTuple [ParamSegment ''a'', OptionalParamSegment ''b''],
      StaticSegment ''c'']) ''/x/c'' = Some \<lparr>pm_remaining = [], pm_params = [], pm_matched = ''/x/c''\<rparr>
   \<and> test (SegmentTuple [StaticSegment ''x'', ParamSegment ''a'', OptionalParamSegment ''b'', StaticSegment ''c'']) ''/x/c''
      = None"
  by code_simp

end
