(* ===== verification/Route_Nested.thy ===== *)
theory Route_Nested
  imports Route_Segments
begin

text \<open>
  Trees of routes: \<open>NestedRoute\<close>, tuples and vectors of routes and \<open>RouteDefs\<close> of
  \<open>halyard/src/router/matching\<close>, with the fallback that matches the children of an optional
  route against the whole path, and the flat list of routes that a tree generates for the server.
\<close>

section \<open>Methods, rendering modes and generated routes\<close>

datatype http_method = Get | Post | Put | Delete | Patch

text \<open>A shared function is known by its address (\<open>Arc::ptr_eq\<close>), here a number.\<close>

record static_route =
  prerender_params :: "nat option"
  regenerate :: "nat option"

datatype ssr_mode = OutOfOrder | PartiallyBlocked | InOrder | Async | Static static_route

fun ssr_rank :: "ssr_mode \<Rightarrow> nat" where
  "ssr_rank OutOfOrder = 0"
| "ssr_rank PartiallyBlocked = 1"
| "ssr_rank InOrder = 2"
| "ssr_rank Async = 3"
| "ssr_rank (Static _) = 4"

text \<open>\<open>Ord\<close> of the source: by rank, and all static routes compare as equal.\<close>

instantiation ssr_mode :: preorder
begin
definition less_eq_ssr_mode :: "ssr_mode \<Rightarrow> ssr_mode \<Rightarrow> bool" where
  "less_eq_ssr_mode a b \<longleftrightarrow> ssr_rank a \<le> ssr_rank b"
definition less_ssr_mode :: "ssr_mode \<Rightarrow> ssr_mode \<Rightarrow> bool" where
  "less_ssr_mode a b \<longleftrightarrow> ssr_rank a < ssr_rank b"
instance
  by standard (auto simp: less_eq_ssr_mode_def less_ssr_mode_def)
end

record generated_route =
  gr_segments :: "path_segment list"
  gr_ssr_mode :: ssr_mode
  gr_methods :: "http_method set"
  gr_regenerate :: "nat list"

section \<open>Route trees and their matches\<close>

datatype routes =
    NoRoutes
  | NestedRoute (route_id: nat) (route_segments: segment) (route_children: "routes option")
      (route_methods: "http_method set") (route_mode: ssr_mode)
  | RouteTuple "routes list"
  | RouteVec "routes list"

datatype route_match =
    UnitMatch
  | NestedMatch (match_id: nat) (match_text: string) (match_params: "(string \<times> string) list")
      (match_child: "route_match option")
  | EitherMatch nat route_match

fun as_id :: "route_match \<Rightarrow> nat" where
  "as_id UnitMatch = 0"
| "as_id (NestedMatch i m ps c) = i"
| "as_id (EitherMatch n m) = as_id m"

fun as_matched :: "route_match \<Rightarrow> string" where
  "as_matched UnitMatch = []"
| "as_matched (NestedMatch i m ps c) = m"
| "as_matched (EitherMatch n m) = as_matched m"

fun to_params :: "route_match \<Rightarrow> (string \<times> string) list" where
  "to_params UnitMatch = []"
| "to_params (NestedMatch i m ps c) = ps"
| "to_params (EitherMatch n m) = to_params m"

definition child_params :: "route_match option \<Rightarrow> (string \<times> string) list" where
  "child_params c = (case c of None \<Rightarrow> [] | Some m \<Rightarrow> to_params m)"

definition child_matched :: "route_match option \<Rightarrow> string" where
  "child_matched c = (case c of None \<Rightarrow> [] | Some m \<Rightarrow> as_matched m)"

fun optional_routes :: "routes \<Rightarrow> bool" where
  "optional_routes NoRoutes = False"
| "optional_routes (NestedRoute i seg None ms mode) = optional seg"
| "optional_routes (NestedRoute i seg (Some c) ms mode) = (optional seg \<and> optional_routes c)"
| "optional_routes (RouteTuple rs) = list_all optional_routes rs"
| "optional_routes (RouteVec rs) = list_all optional_routes rs"

text \<open>
  The end of \<open>inner\<close>: the remaining path must be empty or a slash; after the fallback the params
  of the route itself are read again from the path without what the child matched.
\<close>

definition finish_match ::
  "segment \<Rightarrow> string \<Rightarrow> (string \<times> string) list \<Rightarrow> bool \<Rightarrow> route_match option \<Rightarrow> string
    \<Rightarrow> (route_match option \<times> string \<times> (string \<times> string) list) option" where
  "finish_match segs path ps was_optional_fallback child remaining =
    (if remaining = [] \<or> remaining = ''/'' then
       Option.bind
         (if was_optional_fallback
          then map_option pm_params (test segs (trim_end_str (child_matched child @ remaining) path))
          else Some ps)
         (\<lambda>ps. Some (child, remaining, ps @ child_params child))
     else None)"

fun match_nested :: "routes \<Rightarrow> string \<Rightarrow> (nat \<times> route_match) option \<times> string"
  and match_list :: "routes list \<Rightarrow> nat \<Rightarrow> string \<Rightarrow> (nat \<times> nat \<times> route_match) option \<times> string" where
  "match_nested NoRoutes path = (Some (0, UnitMatch), path)"
| "match_nested (NestedRoute i seg children ms mode) path =
    (case test seg path of
       None \<Rightarrow> (None, path)
     | Some partial \<Rightarrow>
         (let inner =
            (case children of
               None \<Rightarrow> finish_match seg path (pm_params partial) False None (pm_remaining partial)
             | Some children \<Rightarrow>
                 (case match_nested children (pm_remaining partial) of
                    (Some (_, c), remaining) \<Rightarrow> finish_match seg path (pm_params partial) False (Some c) remaining
                  | (None, _) \<Rightarrow>
                      if optional seg
                      then (case match_nested children path of
                              (Some (_, c), remaining) \<Rightarrow> finish_match seg path (pm_params partial) True (Some c) remaining
                            | (None, _) \<Rightarrow> None)
                      else None))
          in case inner of
               None \<Rightarrow> (None, path)
             | Some (c, remaining, ps) \<Rightarrow> (Some (i, NestedMatch i (pm_matched partial) ps c), remaining)))"
| "match_nested (RouteTuple rs) path =
    (case match_list rs 0 path of
       (None, _) \<Rightarrow> (None, path)
     | (Some (n, i, m), remaining) \<Rightarrow>
         (Some (if length rs \<le> 1 then (i, m) else if length rs = 2 then (i, EitherMatch n m) else (n, EitherMatch n m)),
          remaining))"
| "match_nested (RouteVec rs) path =
    (case match_list rs 0 path of
       (None, _) \<Rightarrow> (None, path)
     | (Some (n, i, m), remaining) \<Rightarrow> (Some (i, m), remaining))"
| "match_list [] n path = (None, path)"
| "match_list (r # rs) n path =
    (case match_nested r path of
       (Some (i, m), remaining) \<Rightarrow> (Some (n, i, m), remaining)
     | (None, _) \<Rightarrow> match_list rs (Suc n) path)"

record route_defs =
  rd_base :: "string option"
  rd_children :: routes

definition strip_base :: "string \<Rightarrow> string \<Rightarrow> string option" where
  "strip_base base path =
    (if starts_with ''/'' base then strip_prefix (trim_start_char CHR ''/'' base) (trim_start_char CHR ''/'' path)
     else strip_prefix base path)"

definition match_route :: "route_defs \<Rightarrow> string \<Rightarrow> route_match option" where
  "match_route defs path =
     Option.bind (case rd_base defs of None \<Rightarrow> Some path | Some base \<Rightarrow> strip_base base path) (\<lambda>path.
       case match_nested (rd_children defs) path of
         (None, _) \<Rightarrow> None
       | (Some (_, m), remaining) \<Rightarrow> if remaining = [] \<or> remaining = ''/'' then Some m else None)"

section \<open>Generated routes\<close>

definition own_regenerate :: "ssr_mode \<Rightarrow> nat list" where
  "own_regenerate mode =
    (case mode of Static r \<Rightarrow> (case regenerate r of None \<Rightarrow> [] | Some f \<Rightarrow> [f]) | _ \<Rightarrow> [])"

fun generate_routes :: "routes \<Rightarrow> generated_route list" where
  "generate_routes NoRoutes =
    [\<lparr>gr_segments = [PathUnit], gr_ssr_mode = OutOfOrder, gr_methods = {}, gr_regenerate = []\<rparr>]"
| "generate_routes (NestedRoute i seg None ms mode) =
    [\<lparr>gr_segments = generate_path seg, gr_ssr_mode = mode, gr_methods = ms, gr_regenerate = own_regenerate mode\<rparr>]"
| "generate_routes (NestedRoute i seg (Some c) ms mode) =
    map (\<lambda>g. \<lparr>gr_segments = generate_path seg @ gr_segments g,
              gr_ssr_mode = (if mode < gr_ssr_mode g then gr_ssr_mode g else mode),
              gr_methods = ms \<union> gr_methods g,
              gr_regenerate = own_regenerate mode @ gr_regenerate g\<rparr>) (generate_routes c)"
| "generate_routes (RouteTuple rs) = concat (map generate_routes rs)"
| "generate_routes (RouteVec rs) = concat (map generate_routes rs)"

section \<open>What a route tree means\<close>

text \<open>The branches of a tree, from the root to a leaf, as one list of segments each, in order.\<close>

fun seg_list :: "segment \<Rightarrow> segment list" where
  "seg_list (SegmentTuple segs) = segs"
| "seg_list s = [s]"

fun branches :: "routes \<Rightarrow> segment list list" where
  "branches NoRoutes = [[]]"
| "branches (NestedRoute i seg None ms mode) = [seg_list seg]"
| "branches (NestedRoute i seg (Some c) ms mode) = map (\<lambda>b. seg_list seg @ b) (branches c)"
| "branches (RouteTuple rs) = concat (map branches rs)"
| "branches (RouteVec rs) = concat (map branches rs)"

text \<open>Segments without optional params, and trees of them.\<close>

definition plain_segment :: "segment \<Rightarrow> bool" where
  "plain_segment s \<longleftrightarrow> seg_list s \<noteq> [] \<and> (\<forall>x \<in> set (seg_list s). flat x \<and> \<not> optional x)"

fun plain_routes :: "routes \<Rightarrow> bool" where
  "plain_routes NoRoutes = False"
| "plain_routes (NestedRoute i seg None ms mode) = plain_segment seg"
| "plain_routes (NestedRoute i seg (Some c) ms mode) = (plain_segment seg \<and> plain_routes c)"
| "plain_routes (RouteTuple rs) = list_all plain_routes rs"
| "plain_routes (RouteVec rs) = list_all plain_routes rs"

definition complete :: "string \<Rightarrow> bool" where
  "complete r \<longleftrightarrow> r = [] \<or> r = ''/''"

definition eats_all :: "segment list \<Rightarrow> string \<Rightarrow> bool" where
  "eats_all b path \<longleftrightarrow> (\<exists>ps rest. seq_eats b path ps rest \<and> complete rest)"

lemma seq_eats_append:
  "seq_eats (a @ b) path ps rest \<longleftrightarrow>
     (\<exists>ps1 mid ps2. seq_eats a path ps1 mid \<and> seq_eats b mid ps2 rest \<and> ps = ps1 @ ps2)"
proof (induction a arbitrary: path ps)
  case Nil
  show ?case by (auto intro: seq_nil elim: seq_eats_NilE)
next
  case (Cons s a)
  show ?case (is "?L \<longleftrightarrow> ?R")
  proof
    assume ?L
    then obtain ps1 mid qs where "seg_eats s path ps1 mid" "seq_eats (a @ b) mid qs rest" "ps = ps1 @ qs"
      by (auto elim: seq_eats_ConsE)
    then show ?R using Cons.IH seq_cons by (metis append.assoc)
  next
    assume ?R
    then obtain ps1 mid ps2 where r: "seq_eats (s # a) path ps1 mid" "seq_eats b mid ps2 rest" "ps = ps1 @ ps2" by blast
    then obtain qs m qs' where "seg_eats s path qs m" "seq_eats a m qs' mid" "ps1 = qs @ qs'" by (auto elim: seq_eats_ConsE)
    then show ?L using r Cons.IH seq_cons by (metis append.assoc append_Cons)
  qed
qed

lemma plain_not_optional: "plain_segment s \<Longrightarrow> \<not> optional s"
  by (cases s) (auto simp: plain_segment_def list_ex_iff)

lemma plain_test_eats:
  assumes "plain_segment s" and "test s path = Some m"
  shows "seq_eats (seg_list s) path (pm_params m) (pm_remaining m)"
proof (cases s)
  case (SegmentTuple segs)
  then show ?thesis using test_tuple_eats [of segs path m] assms by (auto simp: plain_segment_def)
qed (use test_eats [of s path m] assms seq_cons [OF _ seq_nil] in \<open>fastforce simp: plain_segment_def\<close>)+

text \<open>What segments without optional params eat is determined.\<close>

lemma seg_eats_determined:
  assumes "\<not> optional s" "flat s" "seg_eats s path ps r" "seg_eats s path qs r'"
  shows "ps = qs \<and> r = r'"
  using eats_test [OF assms(1,2,3)] eats_test [OF assms(1,2,4)] by auto

lemma seq_eats_determined:
  "seq_eats segs path ps r \<Longrightarrow> seq_eats segs path qs r' \<Longrightarrow> \<forall>x \<in> set segs. flat x \<and> \<not> optional x \<Longrightarrow> ps = qs \<and> r = r'"
proof (induction segs arbitrary: path ps qs)
  case Nil
  then show ?case by (auto elim: seq_eats_NilE)
next
  case (Cons s segs)
  obtain p1 m1 q1 where 1: "seg_eats s path p1 m1" "seq_eats segs m1 q1 r" "ps = p1 @ q1"
    using Cons.prems(1) by (auto elim: seq_eats_ConsE)
  obtain p2 m2 q2 where 2: "seg_eats s path p2 m2" "seq_eats segs m2 q2 r'" "qs = p2 @ q2"
    using Cons.prems(2) by (auto elim: seq_eats_ConsE)
  have "p1 = p2 \<and> m1 = m2" using seg_eats_determined [OF _ _ 1(1) 2(1)] Cons.prems(3) by simp
  then show ?case using Cons.IH [of m1 q1 q2] 1 2 Cons.prems(3) by simp
qed

lemma plain_eats_test:
  assumes "plain_segment s" and "seq_eats (seg_list s) path ps r" and "utf8_slashes path"
  shows "\<exists>m. test s path = Some m \<and> pm_params m = ps \<and> pm_remaining m = r"
proof (cases s)
  case (SegmentTuple segs)
  then have segs: "segs \<noteq> []" "\<forall>x \<in> set segs. flat x" "\<forall>x \<in> set segs. \<not> optional x" "seq_eats segs path ps r"
    using assms(1,2) by (auto simp: plain_segment_def)
  have "\<exists>m. test (SegmentTuple segs) path = Some m"
  proof (cases "\<exists>x. segs = [x]")
    case True
    then obtain x where x: "segs = [x]" by blast
    then have "seg_eats x path ps r" using segs(4) by (auto elim!: seq_eats_ConsE seq_eats_NilE)
    then obtain m where m: "test x path = Some m" using eats_test [of x path] segs x by auto
    obtain p c where "record_match path (pm_matched m) (pm_remaining m) (new_prefix path) = Some p"
        "prefix_reaches p path c (pm_remaining m)"
      using record_match_succeeds [OF new_prefix_reaches test_cut [OF m]] by blast
    then show ?thesis using m x matched_part_utf8 [OF _ assms(3)] by (fastforce simp: test_single_def)
  next
    case False
    then obtain s1 s2 later where s12: "segs = s1 # s2 # later" using segs(1) by (metis list.exhaust)
    have "filter (\<lambda>s. \<not> optional s) segs = segs" using segs(3) by simp
    then have "seq_eats (kept 0 segs) path ps r" using segs(4) kept_none [OF segs(2)] by simp
    then have "\<exists>m. tuple_loop (length (filter optional segs)) (map (\<lambda>s. (optional s, test s)) segs) path = Some m"
      using tuple_loop_complete [OF _ segs(1) _ segs(2) assms(3)] by blast
    then show ?thesis unfolding s12 test.simps .
  qed
  then obtain m where m: "test (SegmentTuple segs) path = Some m" by blast
  then have "seq_eats segs path (pm_params m) (pm_remaining m)" by (rule test_tuple_eats [OF segs(2,1)])
  then show ?thesis using m SegmentTuple seq_eats_determined [OF _ segs(4)] segs(2,3) by blast
qed (use eats_test [of s path ps r] assms in \<open>auto simp: plain_segment_def elim!: seq_eats_ConsE seq_eats_NilE\<close>)

lemma utf8_slashes_suffix: "utf8_slashes (c @ r) \<Longrightarrow> utf8_slashes r"
  unfolding utf8_slashes_def
proof (intro allI impI)
  fix i assume ok: "\<forall>i. Suc i < length (c @ r) \<longrightarrow> (c @ r) ! i = CHR ''/'' \<longrightarrow> \<not> continuation_byte ((c @ r) ! Suc i)"
    and i: "Suc i < length r" "r ! i = CHR ''/''"
  then show "\<not> continuation_byte (r ! Suc i)" using ok [rule_format, of "length c + i"] by (simp add: nth_append)
qed

lemma utf8_slashes_remaining: "utf8_slashes path \<Longrightarrow> test s path = Some m \<Longrightarrow> utf8_slashes (pm_remaining m)"
  using test_cut [of s path m] utf8_slashes_suffix by (auto simp: cut_of_def cut_at_def)

lemma eats_all_after:
  assumes "plain_segment s" and "test s path = Some m"
  shows "eats_all (seg_list s @ b) path \<longleftrightarrow> eats_all b (pm_remaining m)"
proof -
  note m = plain_test_eats [OF assms]
  have "seq_eats (seg_list s) path ps mid \<Longrightarrow> mid = pm_remaining m" for ps mid
    using seq_eats_determined [OF m] assms(1) by (auto simp: plain_segment_def)
  moreover have "eats_all (seg_list s @ b) path" if "seq_eats b (pm_remaining m) ps2 rest" "complete rest" for ps2 rest
    using m that unfolding eats_all_def seq_eats_append by blast
  ultimately show ?thesis unfolding eats_all_def seq_eats_append by blast
qed

lemma eats_all_none:
  "plain_segment s \<Longrightarrow> test s path = None \<Longrightarrow> utf8_slashes path \<Longrightarrow> \<not> eats_all (seg_list s @ b) path"
  using plain_eats_test by (fastforce simp: eats_all_def seq_eats_append)

section \<open>Route trees match what they mean, in order\<close>

text \<open>
  A branch with its choices: the routes from the root to a leaf, each with its id and segment, and the
  number of the member where a tuple of several routes is passed (the variant of the \<open>Either\<close>).
\<close>

datatype branch_step = TakesRoute nat segment | TakesCase nat

fun steps :: "routes \<Rightarrow> branch_step list list" where
  "steps NoRoutes = [[]]"
| "steps (NestedRoute i seg None ms mode) = [[TakesRoute i seg]]"
| "steps (NestedRoute i seg (Some c) ms mode) = map ((#) (TakesRoute i seg)) (steps c)"
| "steps (RouteTuple rs) =
    (if length rs \<le> 1 then concat (map steps rs)
     else concat (map (\<lambda>(n, bs). map ((#) (TakesCase n)) bs) (enumerate 0 (map steps rs))))"
| "steps (RouteVec rs) = concat (map steps rs)"

fun step_segs :: "branch_step \<Rightarrow> segment list" where
  "step_segs (TakesRoute i s) = seg_list s"
| "step_segs (TakesCase n) = []"

definition segs_of :: "branch_step list \<Rightarrow> segment list" where
  "segs_of b = concat (map step_segs b)"

lemma segs_of_simps [simp]: "segs_of [] = []" "segs_of (x # b) = step_segs x @ segs_of b"
  by (simp_all add: segs_of_def)

lemma concat_enumerate:
  "(\<And>n b. f (n, b) = g b) \<Longrightarrow> concat (map f (enumerate k bs)) = concat (map g bs)"
  by (induction bs arbitrary: k) simp_all

lemma branches_steps: "branches r = map segs_of (steps r)"
proof (induction r rule: branches.induct)
  case (4 rs)
  have e: "map segs_of (concat (map (\<lambda>(n, bs). map ((#) (TakesCase n)) bs) (enumerate 0 (map steps rs))))
      = concat (map (map segs_of) (map steps rs))"
    unfolding map_concat map_map [of "map segs_of" "\<lambda>(n, bs). map ((#) (TakesCase n)) bs"]
    by (rule concat_enumerate) (simp add: comp_def)
  have "concat (map branches rs) = concat (map (map segs_of) (map steps rs))"
    using 4 by (auto intro!: arg_cong [of _ _ concat])
  then show ?case using e by (simp add: map_concat)
next
  case (5 rs)
  then show ?case by (auto simp: map_concat intro!: arg_cong [of _ _ concat])
qed (simp_all add: comp_def)

text \<open>
  What the match of a branch is, without the matching: each route on it has its own id, the text that its
  segments eat (or that text and the slash after it), its own params followed by those of its child,
  and the match of the rest of the branch as its child; a tuple says which member was taken.
\<close>

inductive branch_match :: "branch_step list \<Rightarrow> string \<Rightarrow> route_match \<Rightarrow> string \<Rightarrow> bool" where
  match_leaf: "seq_eats (seg_list s) path ps rest \<Longrightarrow>
    cut_of path \<lparr>pm_remaining = rest, pm_params = ps, pm_matched = t\<rparr> \<Longrightarrow>
    branch_match [TakesRoute i s] path (NestedMatch i t ps None) rest"
| match_parent: "seq_eats (seg_list s) path ps mid \<Longrightarrow>
    cut_of path \<lparr>pm_remaining = mid, pm_params = ps, pm_matched = t\<rparr> \<Longrightarrow>
    branch_match b mid m rest \<Longrightarrow>
    branch_match (TakesRoute i s # b) path (NestedMatch i t (ps @ to_params m) (Some m)) rest"
| match_case: "branch_match b path m rest \<Longrightarrow> branch_match (TakesCase n # b) path (EitherMatch n m) rest"

inductive_cases branch_match_NilE: "branch_match [] path m rest"

lemma branch_match_eats: "branch_match b path m rest \<Longrightarrow> seq_eats (segs_of b) path (to_params m) rest"
  by (induction rule: branch_match.induct) (auto simp: seq_eats_append)

text \<open>The first branch in the list that eats the whole path, with its match.\<close>

definition first_match :: "branch_step list list \<Rightarrow> string \<Rightarrow> route_match \<Rightarrow> string \<Rightarrow> bool" where
  "first_match bs path m rest \<longleftrightarrow>
     (\<exists>pre b post. bs = pre @ b # post \<and> branch_match b path m rest \<and> complete rest
        \<and> (\<forall>b' \<in> set pre. \<not> eats_all (segs_of b') path))"

lemma first_match_append:
  "first_match bs path m rest \<Longrightarrow> first_match (bs @ cs) path m rest"
  "\<forall>b \<in> set bs. \<not> eats_all (segs_of b) path \<Longrightarrow> first_match cs path m rest \<Longrightarrow> first_match (bs @ cs) path m rest"
proof -
  assume "first_match bs path m rest"
  then show "first_match (bs @ cs) path m rest" unfolding first_match_def by (metis append.assoc append_Cons)
next
  assume none: "\<forall>b \<in> set bs. \<not> eats_all (segs_of b) path" and "first_match cs path m rest"
  then obtain pre b post where "cs = pre @ b # post" "branch_match b path m rest" "complete rest"
      "\<forall>b' \<in> set pre. \<not> eats_all (segs_of b') path" unfolding first_match_def by blast
  then show "first_match (bs @ cs) path m rest"
    unfolding first_match_def using none by (intro exI [of _ "bs @ pre"] exI [of _ b] exI [of _ post]) auto
qed

lemma first_match_map:
  assumes "first_match bs path' m rest"
    and "\<And>b. branch_match b path' m rest \<Longrightarrow> branch_match (x # b) path m' rest"
    and "\<And>b. eats_all (segs_of (x # b)) path \<longleftrightarrow> eats_all (segs_of b) path'"
  shows "first_match (map ((#) x) bs) path m' rest"
proof -
  obtain pre b post where b: "bs = pre @ b # post" "branch_match b path' m rest" "complete rest"
      "\<forall>b' \<in> set pre. \<not> eats_all (segs_of b') path'" using assms(1) unfolding first_match_def by blast
  then show ?thesis
    unfolding first_match_def using assms(2,3)
    by (intro exI [of _ "map ((#) x) pre"] exI [of _ "x # b"] exI [of _ "map ((#) x) post"]) auto
qed

lemma first_match_case:
  "first_match bs path m rest \<Longrightarrow> first_match (map ((#) (TakesCase n)) bs) path (EitherMatch n m) rest"
  by (erule first_match_map) (auto intro: match_case)

lemma first_match_after:
  assumes s: "plain_segment s" "test s path = Some pm" and f: "first_match bs (pm_remaining pm) m rest"
  shows "first_match (map ((#) (TakesRoute i s)) bs) path (NestedMatch i (pm_matched pm) (pm_params pm @ to_params m) (Some m)) rest"
proof (rule first_match_map [OF f])
  show "branch_match b (pm_remaining pm) m rest \<Longrightarrow>
      branch_match (TakesRoute i s # b) path (NestedMatch i (pm_matched pm) (pm_params pm @ to_params m) (Some m)) rest" for b
    using plain_test_eats [OF s] test_cut [OF s(2)] match_parent [of s path "pm_params pm" "pm_remaining pm"]
    by (simp add: cut_of_def)
qed (simp add: eats_all_after [OF s])

lemma finish_match_plain:
  "finish_match seg path ps False c rest = (if complete rest then Some (c, rest, ps @ child_params c) else None)"
  by (auto simp: finish_match_def complete_def)

abbreviation case_steps :: "nat \<Rightarrow> routes list \<Rightarrow> branch_step list list" where
  "case_steps n rs \<equiv> concat (map (\<lambda>(n, bs). map ((#) (TakesCase n)) bs) (enumerate n (map steps rs)))"

lemma match_nested_steps:
  "plain_routes r \<Longrightarrow> utf8_slashes path \<Longrightarrow>
     (case match_nested r path of
        (Some (i, m), rest) \<Rightarrow> first_match (steps r) path m rest
      | (None, _) \<Rightarrow> \<forall>b \<in> set (steps r). \<not> eats_all (segs_of b) path)"
  "list_all plain_routes rs \<Longrightarrow> utf8_slashes path \<Longrightarrow>
     (case match_list rs n path of
        (Some (k, i, m), rest) \<Rightarrow> first_match (concat (map steps rs)) path m rest
          \<and> first_match (case_steps n rs) path (EitherMatch k m) rest
      | (None, _) \<Rightarrow> \<forall>r \<in> set rs. \<forall>b \<in> set (steps r). \<not> eats_all (segs_of b) path)"
proof (induction r path and rs n path rule: match_nested_match_list.induct)
  case (2 i seg ch ms mode path)
  have plain: "plain_segment seg" using 2(3) by (cases ch) auto
  show ?case
  proof (cases "test seg path")
    case None
    then show ?thesis using eats_all_none [OF plain None 2(4)] eats_all_none [OF plain None 2(4), of "[]"]
      by (cases ch) auto
  next
    case (Some m)
    note u = utf8_slashes_remaining [OF 2(4) Some]
    show ?thesis
    proof (cases ch)
      case None
      have "branch_match [TakesRoute i seg] path (NestedMatch i (pm_matched m) (pm_params m) None) (pm_remaining m)"
        using plain_test_eats [OF plain Some] test_cut [OF Some] by (intro match_leaf) (simp_all add: cut_of_def)
      then have "first_match [[TakesRoute i seg]] path (NestedMatch i (pm_matched m) (pm_params m) None) (pm_remaining m)"
        if "complete (pm_remaining m)"
        using that unfolding first_match_def by fastforce
      moreover have "\<not> eats_all (seg_list seg) path" if "\<not> complete (pm_remaining m)"
        using eats_all_after [OF plain Some, of "[]"] that by (auto simp: eats_all_def elim: seq_eats_NilE)
      ultimately show ?thesis using Some None by (simp add: finish_match_plain child_params_def)
    next
      case ch: (Some c)
      have pc: "plain_routes c" using 2(3) ch by simp
      note IH = 2(1) [OF Some ch pc u]
      obtain x rest where x: "match_nested c (pm_remaining m) = (x, rest)" by fastforce
      show ?thesis
      proof (cases x)
        case None
        then show ?thesis
          using IH x Some ch plain_not_optional [OF plain] eats_all_after [OF plain Some] by auto
      next
        case x': (Some y)
        obtain j mm where y: "y = (j, mm)" by fastforce
        then have fb: "first_match (steps c) (pm_remaining m) mm rest" using IH x x' by simp
        then have "complete rest" unfolding first_match_def by blast
        then show ?thesis
          using first_match_after [OF plain Some fb] x x' y Some ch by (simp add: finish_match_plain child_params_def)
      qed
    qed
  qed
next
  case (3 rs path)
  then show ?case by (auto split: prod.splits option.splits simp: in_set_enumerate_eq) (metis nth_mem)
next
  case (6 r rs n path)
  obtain x rest where x: "match_nested r path = (x, rest)" by fastforce
  show ?case
  proof (cases x)
    case None
    then have none: "\<forall>b \<in> set (steps r). \<not> eats_all (segs_of b) path" using 6 x by simp
    then have "\<forall>b \<in> set (map ((#) (TakesCase n)) (steps r)). \<not> eats_all (segs_of b) path" by auto
    then show ?thesis using 6 x None none first_match_append(2) by (auto split: prod.splits option.splits)
  next
    case (Some y)
    obtain i m where "y = (i, m)" by fastforce
    then show ?thesis using 6 x Some first_match_append(1) first_match_case by simp
  qed
qed (auto split: prod.splits option.splits)

lemma match_route_steps:
  assumes "plain_routes r" and "utf8_slashes path"
  shows "case match_route \<lparr>rd_base = None, rd_children = r\<rparr> path of
     Some m \<Rightarrow> \<exists>rest. first_match (steps r) path m rest
   | None \<Rightarrow> \<forall>b \<in> set (steps r). \<not> eats_all (segs_of b) path"
proof -
  obtain x rest where x: "match_nested r path = (x, rest)" by fastforce
  show ?thesis
  proof (cases x)
    case None
    then show ?thesis using match_nested_steps(1) [OF assms] x by (simp add: match_route_def)
  next
    case (Some y)
    obtain i m where y: "y = (i, m)" by fastforce
    then have "first_match (steps r) path m rest"
      using match_nested_steps(1) [OF assms] x Some by simp
    moreover from this have "rest = [] \<or> rest = ''/''" unfolding first_match_def complete_def by blast
    ultimately show ?thesis using x Some y by (auto simp: match_route_def)
  qed
qed

lemma match_route_exists:
  assumes "plain_routes r" and "utf8_slashes path" and "b \<in> set (branches r)" and "eats_all b path"
  shows "\<exists>m. match_route \<lparr>rd_base = None, rd_children = r\<rparr> path = Some m"
  using match_route_steps [OF assms(1,2)] assms(3,4) by (auto simp: branches_steps split: option.splits)

text \<open>
  C7. A tree of routes without optional params matches a path (in which no continuation byte follows a
  slash, as in all UTF-8 text) exactly if one of its branches eats the whole path, up to a trailing
  slash. The match is that of the first such branch in the order of the tree, however the tree is
  nested: along the branch each route is reported with its id, the text that its segments matched, its
  params followed by those of its children, and the match of the route below it; a tuple of several
  routes is reported with the member that was taken.
\<close>

theorem match_route_first_branch:
  assumes "plain_routes r" and "utf8_slashes path"
  shows "case match_route \<lparr>rd_base = None, rd_children = r\<rparr> path of
     Some m \<Rightarrow> \<exists>rest. first_match (steps r) path m rest
   | None \<Rightarrow> \<forall>b \<in> set (branches r). \<not> eats_all b path"
  using match_route_steps [OF assms] by (auto simp: branches_steps split: option.splits)

text \<open>A blog: the second route has two children, of which the second takes a param.\<close>

definition blog :: routes where
  "blog = RouteTuple
     [NestedRoute 1 (StaticSegment ''about'') None {Get} OutOfOrder,
      NestedRoute 2 (StaticSegment ''blog'')
        (Some (RouteTuple
          [NestedRoute 3 (StaticSegment '''') None {Get} OutOfOrder,
           NestedRoute 4 (SegmentTuple [StaticSegment ''post'', ParamSegment ''id'']) None {Get} Async]))
        {Get} InOrder]"

theorem match_route_first_branch_witness:
  "\<exists>rest. first_match (steps blog) ''/blog/post/42''
    (EitherMatch 1 (NestedMatch 2 ''/blog'' [(''id'', ''42'')]
      (Some (EitherMatch 1 (NestedMatch 4 ''/post/42'' [(''id'', ''42'')] None))))) rest"
proof -
  have "plain_routes blog" by code_simp
  moreover have "utf8_slashes ''/blog/post/42''"
    by (auto simp: utf8_slashes_def continuation_byte_def nth_Cons' split: if_splits)
  moreover have "match_route \<lparr>rd_base = None, rd_children = blog\<rparr> ''/blog/post/42''
      = Some (EitherMatch 1 (NestedMatch 2 ''/blog'' [(''id'', ''42'')]
          (Some (EitherMatch 1 (NestedMatch 4 ''/post/42'' [(''id'', ''42'')] None)))))"
    by code_simp
  ultimately show ?thesis
    using match_route_first_branch [of blog "''/blog/post/42''"] by simp
qed

text \<open>
  A base that starts with one slash is taken off the path before matching, with any number
  of slashes before it, and the rest of the path is matched as without a base; a path that does
  not start with the base matches nothing.
\<close>

theorem match_route_base:
  assumes "\<not> starts_with ''/'' b" and "b \<noteq> []" and "\<not> starts_with ''/'' p"
  shows "match_route \<lparr>rd_base = Some (CHR ''/'' # b), rd_children = r\<rparr> (replicate n CHR ''/'' @ p) =
     (if prefix b p then match_route \<lparr>rd_base = None, rd_children = r\<rparr> (drop (length b) p) else None)"
proof -
  have base: "trim_start_char CHR ''/'' (CHR ''/'' # b) = b"
    using assms by (cases b) (auto simp: trim_start_char_def starts_with_def)
  have "dropWhile (\<lambda>x. x = CHR ''/'') (replicate n CHR ''/'' @ p) = dropWhile (\<lambda>x. x = CHR ''/'') p"
    by (induction n) auto
  also have "\<dots> = p" using assms(3) by (cases p) (auto simp: starts_with_def)
  finally have "trim_start_char CHR ''/'' (replicate n CHR ''/'' @ p) = p"
    by (simp add: trim_start_char_def)
  then show ?thesis
    using base by (auto simp: match_route_def strip_base_def starts_with_def strip_prefix_def)
qed

theorem match_route_base_witness:
  "match_route \<lparr>rd_base = Some ''/app'', rd_children = blog\<rparr> ''//app/about''
     = match_route \<lparr>rd_base = None, rd_children = blog\<rparr> ''/about''"
  using match_route_base [of "''app''" "''app/about''" blog 2]
  by (simp add: starts_with_def numeral_2_eq_2)

section \<open>The routes generated for the server\<close>

fun proper_routes :: "routes \<Rightarrow> bool" where
  "proper_routes NoRoutes = False"
| "proper_routes (NestedRoute i seg None ms mode) = True"
| "proper_routes (NestedRoute i seg (Some c) ms mode) = proper_routes c"
| "proper_routes (RouteTuple rs) = list_all proper_routes rs"
| "proper_routes (RouteVec rs) = list_all proper_routes rs"

text \<open>The rendering modes along each branch.\<close>

fun branch_modes :: "routes \<Rightarrow> ssr_mode list list" where
  "branch_modes NoRoutes = [[]]"
| "branch_modes (NestedRoute i seg None ms mode) = [[mode]]"
| "branch_modes (NestedRoute i seg (Some c) ms mode) = map (\<lambda>b. mode # b) (branch_modes c)"
| "branch_modes (RouteTuple rs) = concat (map branch_modes rs)"
| "branch_modes (RouteVec rs) = concat (map branch_modes rs)"

lemma generate_path_seg_list: "generate_path s = concat (map generate_path (seg_list s))"
  by (cases s) simp_all

lemma map_concat_map_cong:
  "(\<And>x. x \<in> set xs \<Longrightarrow> map f (g x) = map h (k x)) \<Longrightarrow> map f (concat (map g xs)) = map h (concat (map k xs))"
  by (induction xs) auto

lemma generate_routes_segments:
  "proper_routes r \<Longrightarrow> map gr_segments (generate_routes r) = map (\<lambda>b. concat (map generate_path b)) (branches r)"
proof (induction r rule: generate_routes.induct)
  case (3 i seg c ms mode)
  then have "map gr_segments (generate_routes c) = map (\<lambda>b. concat (map generate_path b)) (branches c)" by simp
  then have "map (\<lambda>x. generate_path seg @ x) (map gr_segments (generate_routes c))
      = map (\<lambda>x. generate_path seg @ x) (map (\<lambda>b. concat (map generate_path b)) (branches c))" by simp
  then show ?case by (simp add: comp_def generate_path_seg_list [symmetric])
next
  case (4 rs)
  then show ?case unfolding generate_routes.simps branches.simps
    by (intro map_concat_map_cong) (simp add: list_all_iff)
next
  case (5 rs)
  then show ?case unfolding generate_routes.simps branches.simps
    by (intro map_concat_map_cong) (simp add: list_all_iff)
qed (simp_all add: generate_path_seg_list [symmetric])

text \<open>The mode of a branch: the most restrictive one along it.\<close>

definition strictest :: "ssr_mode \<Rightarrow> ssr_mode list \<Rightarrow> bool" where
  "strictest mode modes \<longleftrightarrow> mode \<in> set modes \<and> (\<forall>x \<in> set modes. x \<le> mode)"

lemma strictest_Cons:
  "strictest mode' modes \<Longrightarrow> strictest (if mode < mode' then mode' else mode) (mode # modes)"
  by (fastforce simp: strictest_def less_eq_ssr_mode_def less_ssr_mode_def)

lemma list_all2_concat_map:
  "(\<And>x. x \<in> set xs \<Longrightarrow> list_all2 P (f x) (g x)) \<Longrightarrow> list_all2 P (concat (map f xs)) (concat (map g xs))"
  by (induction xs) (auto intro: list_all2_appendI)

lemma generate_routes_modes:
  "proper_routes r \<Longrightarrow> list_all2 (\<lambda>g b. strictest (gr_ssr_mode g) b) (generate_routes r) (branch_modes r)"
proof (induction r rule: generate_routes.induct)
  case (2 i seg ms mode)
  show ?case by (simp add: strictest_def)
next
  case (3 i seg c ms mode)
  then have "list_all2 (\<lambda>g b. strictest (gr_ssr_mode g) b) (generate_routes c) (branch_modes c)" by simp
  then show ?case by (auto simp: list.rel_map strictest_Cons elim!: list.rel_mono_strong)
next
  case (4 rs)
  then show ?case by (simp add: list_all_iff list_all2_concat_map)
next
  case (5 rs)
  then show ?case by (simp add: list_all_iff list_all2_concat_map)
qed simp

text \<open>
  C28. The routes generated for the server are the branches of the tree, in order: each has the
  path segments of its branch, and the most restrictive rendering mode along the branch.
\<close>

theorem generate_routes_correct:
  assumes "proper_routes r"
  shows "map gr_segments (generate_routes r) = map (\<lambda>b. concat (map generate_path b)) (branches r)
     \<and> list_all2 (\<lambda>g b. strictest (gr_ssr_mode g) b) (generate_routes r) (branch_modes r)"
  using generate_routes_segments [OF assms] generate_routes_modes [OF assms] by simp

theorem generate_routes_correct_witness:
  "map gr_segments (generate_routes blog) =
     [[PathStatic ''about''], [PathStatic ''blog'', PathStatic ''''],
      [PathStatic ''blog'', PathStatic ''post'', PathParam ''id'']]
   \<and> list_all2 (\<lambda>g b. strictest (gr_ssr_mode g) b) (generate_routes blog)
      [[OutOfOrder], [InOrder, OutOfOrder], [InOrder, Async]]"
proof -
  have "proper_routes blog" by code_simp
  from generate_routes_correct [OF this] show ?thesis by (simp add: blog_def)
qed

section \<open>Optional parents\<close>

text \<open>
  When the optional param of a parent is left out, the match of two nested children under
  it still reports a value for it: the text that the first child matched.
\<close>

theorem optional_parent_keeps_stale_param:
  "map_option to_params (match_route \<lparr>rd_base = None, rd_children =
      NestedRoute 1 (OptionalParamSegment ''lang'')
        (Some (NestedRoute 2 (StaticSegment ''a'')
          (Some (NestedRoute 3 (StaticSegment ''b'') None {Get} OutOfOrder)) {Get} OutOfOrder)) {Get} OutOfOrder\<rparr>
      ''/a/b'') = Some [(''lang'', ''a'')]
   \<and> map_option pm_params (test (SegmentTuple
      [OptionalParamSegment ''lang'', StaticSegment ''a'', StaticSegment ''b'']) ''/a/b'') = Some []"
  by code_simp

text \<open>
  A parent with a static segment before its optional param does not match a child when the
  param is left out, although the same segments in one route do.
\<close>

theorem optional_parent_with_static_prefix_fails:
  "match_route \<lparr>rd_base = None, rd_children =
      NestedRoute 1 (SegmentTuple [StaticSegment ''x'', OptionalParamSegment ''lang''])
        (Some (NestedRoute 2 (StaticSegment ''a'') None {Get} OutOfOrder)) {Get} OutOfOrder\<rparr> ''/x/a'' = None
   \<and> map_option pm_matched (test (SegmentTuple
      [StaticSegment ''x'', OptionalParamSegment ''lang'', StaticSegment ''a'']) ''/x/a'') = Some ''/x/a''"
  by code_simp

end
