(* ===== verification/Static_Paths.thy ===== *)
theory Static_Paths
  imports Route_Nested "HOL-Library.Multiset"
begin

text \<open>
  Static site generation: the variants of a path with optional params
  (\<open>ExpandOptionals\<close> of \<open>router/matching/path_segment.rs\<close>), the params to prerender, the list of
  paths of a static route and the task that renders and writes one page
  (\<open>router/static_routes.rs\<close>, \<open>router/generate_route_list.rs\<close>).
\<close>

section \<open>Optional params\<close>

text \<open>The first optional param and its index, as the \<open>for\<close> loop with \<open>break\<close> finds it.\<close>

fun find_optional :: "nat \<Rightarrow> path_segment list \<Rightarrow> (nat \<times> string) option" where
  "find_optional idx [] = None"
| "find_optional idx (PathOptionalParam name # segs) = Some (idx, name)"
| "find_optional idx (s # segs) = find_optional (Suc idx) segs"

definition unit_variant :: "nat \<Rightarrow> path_segment list \<Rightarrow> path_segment list" where
  "unit_variant idx segs = take idx segs @ drop (Suc idx) segs"

definition param_variant :: "nat \<Rightarrow> string \<Rightarrow> path_segment list \<Rightarrow> path_segment list" where
  "param_variant idx name segs = segs[idx := PathParam name]"

definition optionals :: "path_segment list \<Rightarrow> nat" where
  "optionals segs = length (filter (\<lambda>s. \<exists>name. s = PathOptionalParam name) segs)"

lemma find_optional_Some:
  assumes "find_optional k segs = Some (idx, name)"
  shows "k \<le> idx \<and> idx - k < length segs \<and> segs ! (idx - k) = PathOptionalParam name
    \<and> optionals (take (idx - k) segs) = 0"
  using assms
proof (induction k segs rule: find_optional.induct)
  case (2 k name' segs)
  then show ?case by (simp add: optionals_def)
qed (auto simp: optionals_def nth_Cons' take_Cons')

lemma find_optional_None: "find_optional k segs = None \<longleftrightarrow> optionals segs = 0"
  by (induction k segs rule: find_optional.induct) (auto simp: optionals_def)

lemma optionals_split:
  assumes "i < length segs"
  shows "optionals segs = optionals (take i segs) + optionals [segs ! i] + optionals (drop (Suc i) segs)"
  by (subst id_take_nth_drop [OF assms]) (simp add: optionals_def)

lemma optionals_variants:
  assumes "find_optional 0 segs = Some (idx, name)"
  shows "optionals segs = Suc (optionals (unit_variant idx segs))"
    and "optionals segs = Suc (optionals (param_variant idx name segs))"
proof -
  have i: "idx < length segs" "segs ! idx = PathOptionalParam name" using find_optional_Some [OF assms] by auto
  show "optionals segs = Suc (optionals (unit_variant idx segs))"
    using i by (subst optionals_split [OF i(1)]) (simp add: unit_variant_def optionals_def)
  show "optionals segs = Suc (optionals (param_variant idx name segs))"
    using i by (subst optionals_split [OF i(1)]) (simp add: param_variant_def optionals_def upd_conv_take_nth_drop)
qed

lemma optionals_pow:
  "find_optional 0 segs = Some (idx, name) \<Longrightarrow>
     (3 :: nat) ^ optionals (param_variant idx name segs) + (3 ^ optionals (unit_variant idx segs) + x) < 3 ^ optionals segs + x"
  using optionals_variants [of segs idx name] by simp

text \<open>The stack \<open>segments\<close> of the source, its top first.\<close>

function expand_loop :: "path_segment list list \<Rightarrow> path_segment list list \<Rightarrow> path_segment list list" where
  "expand_loop [] checked = checked"
| "expand_loop (next # stack) checked =
    (case find_optional 0 next of
       Some (idx, name) \<Rightarrow> expand_loop (param_variant idx name next # unit_variant idx next # stack) checked
     | None \<Rightarrow> expand_loop stack (checked @ [next]))"
  by pat_completeness auto
termination
  by (relation "measure (\<lambda>(stack, _). \<Sum>segs\<leftarrow>stack. 3 ^ optionals segs)")
    (auto simp: optionals_pow)

definition expand_optionals :: "path_segment list \<Rightarrow> path_segment list list" where
  "expand_optionals segs = expand_loop [segs] []"

text \<open>What it means: each optional param is there or not, in all ways.\<close>

fun variants :: "path_segment list \<Rightarrow> path_segment list list" where
  "variants [] = [[]]"
| "variants (PathOptionalParam name # segs) = map (Cons (PathParam name)) (variants segs) @ variants segs"
| "variants (s # segs) = map (Cons s) (variants segs)"

lemma variants_no_optionals: "optionals segs = 0 \<Longrightarrow> variants segs = [segs]"
  by (induction segs rule: variants.induct) (auto simp: optionals_def)

lemma variants_append: "optionals a = 0 \<Longrightarrow> variants (a @ b) = map (\<lambda>v. a @ v) (variants b)"
  by (induction a rule: variants.induct) (auto simp: optionals_def map_idI)

lemma variants_first:
  assumes "find_optional 0 segs = Some (idx, name)"
  shows "variants segs = variants (param_variant idx name segs) @ variants (unit_variant idx segs)"
proof -
  have i: "idx < length segs" "segs ! idx = PathOptionalParam name" "optionals (take idx segs) = 0"
    using find_optional_Some [OF assms] by auto
  have "variants segs = variants (take idx segs @ PathOptionalParam name # drop (Suc idx) segs)"
    using i by (metis id_take_nth_drop)
  then show ?thesis
    using i by (simp add: variants_append param_variant_def unit_variant_def upd_conv_take_nth_drop)
qed

lemma expand_loop_variants: "expand_loop stack checked = checked @ concat (map variants stack)"
proof (induction stack checked rule: expand_loop.induct)
  case (2 nxt stack checked)
  show ?case
  proof (cases "find_optional 0 nxt")
    case None
    then have "variants nxt = [nxt]" using find_optional_None variants_no_optionals by blast
    then show ?thesis using 2(1) None by simp
  next
    case (Some x)
    then obtain idx name where x: "x = (idx, name)" by fastforce
    show ?thesis using 2(2) [OF Some x [symmetric]] variants_first [of nxt idx name] Some x by simp
  qed
qed simp

text \<open>
  C36. Expanding the optional params of a path ends with every way to keep or drop them: each
  list has no optional param left and keeps the other segments in order; the variants that keep
  an optional param come before those that drop it, and there are two to the number of optional
  params of them.
\<close>

theorem expand_optionals_correct:
  "expand_optionals segs = variants segs \<and> length (expand_optionals segs) = 2 ^ optionals segs
   \<and> list_all (\<lambda>v. optionals v = 0) (expand_optionals segs)"
proof -
  have "length (variants segs) = 2 ^ optionals segs" "list_all (\<lambda>v. optionals v = 0) (variants segs)"
    by (induction segs rule: variants.induct) (auto simp: optionals_def list_all_iff)
  then show ?thesis by (simp add: expand_optionals_def expand_loop_variants)
qed

section \<open>Params to prerender\<close>

type_synonym static_params_map = "(string \<times> string list) list"

fun static_insert :: "string \<Rightarrow> string list \<Rightarrow> static_params_map \<Rightarrow> static_params_map" where
  "static_insert key val [] = [(key, val)]"
| "static_insert key val (item # items) =
    (if fst item = key then (fst item, val) # items else item # static_insert key val items)"

fun static_get :: "string \<Rightarrow> static_params_map \<Rightarrow> string list option" where
  "static_get key [] = None"
| "static_get key (entry # entries) = (if fst entry = key then Some (snd entry) else static_get key entries)"

lemma static_get_insert: "static_get k (static_insert key val m) = (if k = key then Some val else static_get k m)"
  by (induction m) auto

lemma static_insert_keys:
  "map fst (static_insert key val m) = (if key \<in> fst ` set m then map fst m else map fst m @ [key])"
  by (induction m) auto

section \<open>The paths of a static route\<close>

definition with_slash :: "string \<Rightarrow> string" where
  "with_slash val = (if starts_with ''/'' val then val else CHR ''/'' # val)"

definition static_text :: "string \<Rightarrow> string" where
  "static_text s = (if starts_with ''/'' s \<or> s = [] then s else CHR ''/'' # s)"

definition param_values :: "static_params_map option \<Rightarrow> string \<Rightarrow> string list option" where
  "param_values params name = Option.bind params (static_get name)"

text \<open>One round of the loop of \<open>into_paths\<close>.\<close>

fun extend_paths :: "static_params_map option \<Rightarrow> path_segment \<Rightarrow> string list \<Rightarrow> string list" where
  "extend_paths params PathUnit paths = paths"
| "extend_paths params (PathStatic s) paths = map (\<lambda>p. p @ static_text s) paths"
| "extend_paths params (PathParam name) paths =
    concat (map (\<lambda>p. case param_values params name of None \<Rightarrow> [] | Some vals \<Rightarrow> map (\<lambda>v. p @ with_slash v) vals) paths)"
| "extend_paths params (PathSplat name) paths =
    concat (map (\<lambda>p. case param_values params name of None \<Rightarrow> [] | Some vals \<Rightarrow> map (\<lambda>v. p @ with_slash v) vals) paths)"
| "extend_paths params (PathOptionalParam name) paths =
    (let vals = (case param_values params name of None \<Rightarrow> [] | Some vals \<Rightarrow> vals)
     in concat (map (\<lambda>p. p # map (\<lambda>v. p @ with_slash v) vals) paths))"

definition into_paths :: "path_segment list \<Rightarrow> static_params_map option \<Rightarrow> string list" where
  "into_paths segs params = foldl (\<lambda>paths s. extend_paths params s paths) [[]] segs"

text \<open>The texts that a segment can add to a path; a path takes one of each segment.\<close>

fun pieces :: "static_params_map option \<Rightarrow> path_segment \<Rightarrow> string list" where
  "pieces params PathUnit = [[]]"
| "pieces params (PathStatic s) = [static_text s]"
| "pieces params (PathParam name) = map with_slash (case param_values params name of None \<Rightarrow> [] | Some vals \<Rightarrow> vals)"
| "pieces params (PathSplat name) = map with_slash (case param_values params name of None \<Rightarrow> [] | Some vals \<Rightarrow> vals)"
| "pieces params (PathOptionalParam name) =
    [] # map with_slash (case param_values params name of None \<Rightarrow> [] | Some vals \<Rightarrow> vals)"

lemma extend_paths_pieces:
  "extend_paths params s paths = concat (map (\<lambda>p. map (\<lambda>t. p @ t) (pieces params s)) paths)"
  by (cases s) (auto simp: Let_def comp_def split: option.splits intro!: arg_cong [where f = concat])

lemma foldl_extend_paths:
  "foldl (\<lambda>paths s. extend_paths params s paths) paths segs =
     concat (map (\<lambda>p. map (\<lambda>c. p @ concat c) (product_lists (map (pieces params) segs))) paths)"
proof (induction segs arbitrary: paths)
  case (Cons s segs)
  show ?case
    unfolding foldl_Cons Cons.IH extend_paths_pieces [of params s paths]
    by (induction paths) (simp_all add: comp_def map_concat)
qed (simp add: comp_def)

lemma into_paths_choices: "into_paths segs params = map concat (product_lists (map (pieces params) segs))"
  by (simp add: into_paths_def foldl_extend_paths)

lemma into_paths_Cons:
  "into_paths (s # segs) params = concat (map (\<lambda>t. map (\<lambda>c. t @ c) (into_paths segs params)) (pieces params s))"
  by (simp add: into_paths_choices map_concat comp_def)

lemma mset_concat_map_append:
  "mset (concat (map (\<lambda>v. f v @ g v) xs)) = mset (concat (map f xs)) + mset (concat (map g xs))"
  by (induction xs) auto

lemma mset_concat_map_swap:
  "mset (concat (map (\<lambda>v. concat (map (\<lambda>t. map (h t) (f v)) ts)) xs)) =
   mset (concat (map (\<lambda>t. map (h t) (concat (map f xs))) ts))"
proof (induction ts)
  case Nil
  show ?case by (induction xs) auto
next
  case (Cons t ts)
  then show ?case by (simp add: mset_concat_map_append map_concat comp_def del: mset_map mset_concat)
qed

lemma mset_choices_cong:
  assumes "mset xs = mset ys"
  shows "mset (concat (map (\<lambda>t. map (h t) xs) ts)) = mset (concat (map (\<lambda>t. map (h t) ys) ts))"
  using assms by (induction ts) auto

lemma into_paths_step:
  assumes "mset (into_paths segs params) = mset (concat (map (\<lambda>v. into_paths v params) vs))"
  shows "mset (into_paths (s # segs) params) = mset (concat (map (\<lambda>v. into_paths (s # v) params) vs))"
  unfolding into_paths_Cons mset_concat_map_swap by (rule mset_choices_cong [OF assms])

lemma into_paths_optional:
  "into_paths (PathOptionalParam name # segs) params = into_paths segs params @ into_paths (PathParam name # segs) params"
  by (simp add: into_paths_Cons map_idI)

lemma into_paths_variants:
  "mset (into_paths segs params) = mset (concat (map (\<lambda>v. into_paths v params) (variants segs)))"
proof (induction segs rule: variants.induct)
  case (2 name segs)
  then show ?case using into_paths_step [OF 2(1), of "PathParam name"]
    by (simp add: into_paths_optional comp_def del: mset_concat)
qed (simp_all add: comp_def into_paths_step del: mset_concat)

text \<open>
  C29. The paths listed for a static route are all ways to choose a text for each of its
  segments (the fixed text, or a prerendered value, or nothing for an optional param), in order;
  and they are, with multiplicity, those of the variants that the server routes: every page that
  is generated belongs to a variant and every variant is generated.
\<close>

theorem into_paths_correct:
  "into_paths segs params = map concat (product_lists (map (pieces params) segs))
   \<and> mset (into_paths segs params) = mset (concat (map (\<lambda>v. into_paths v params) (expand_optionals segs)))"
  by (simp add: into_paths_choices [symmetric] into_paths_variants expand_optionals_def expand_loop_variants
      del: mset_concat)

section \<open>Static pages are routed\<close>

text \<open>
  Names of one segment: not a lone slash, and no slash but a leading one; the values of a param
  are not empty. Only the last segment of a branch takes all the rest of a path.
\<close>

fun good_segment :: "static_params_map option \<Rightarrow> segment \<Rightarrow> bool" where
  "good_segment params (StaticSegment s) = (s = [] \<or> s \<noteq> ''/'' \<and> CHR ''/'' \<notin> set (segment_name s))"
| "good_segment params (ParamSegment name) =
    list_all (\<lambda>v. segment_name v \<noteq> [] \<and> CHR ''/'' \<notin> set (segment_name v))
      (case param_values params name of None \<Rightarrow> [] | Some vals \<Rightarrow> vals)"
| "good_segment params _ = True"

definition wildcard_last :: "segment list \<Rightarrow> bool" where
  "wildcard_last b \<longleftrightarrow> list_all (\<lambda>s. case s of WildcardSegment _ \<Rightarrow> False | _ \<Rightarrow> True) (butlast b)"

lemma with_slash_name: "with_slash v = CHR ''/'' # segment_name v"
  by (cases v) (auto simp: with_slash_def segment_name_def starts_with_def strip_prefix_def)

lemma static_text_empty [simp]: "static_text [] = []"
  by (simp add: static_text_def)

lemma static_text_name: "s \<noteq> [] \<Longrightarrow> static_text s = CHR ''/'' # segment_name s"
  by (cases s) (auto simp: static_text_def segment_name_def starts_with_def strip_prefix_def)

lemma piece_eaten:
  assumes "flat s" "\<not> optional s" "good_segment params s" "starts_segment rest"
    and "(\<exists>name. s = WildcardSegment name) \<longrightarrow> rest = []"
    and "p \<in> set (into_paths (generate_path s) params)"
  shows "\<exists>ps. seg_eats s (p @ rest) ps rest \<and> starts_segment (p @ rest)"
proof (cases s)
  case (StaticSegment x)
  then show ?thesis using assms(3-6)
    by (cases "x = []")
      (auto simp: into_paths_choices static_text_name starts_segment_def seg_eats_simps)
next
  case (ParamSegment x)
  then show ?thesis using assms(3-6)
    by (auto simp: into_paths_choices with_slash_name starts_segment_def seg_eats_simps list_all_iff)
next
  case (WildcardSegment x)
  then show ?thesis using assms(3-6)
    by (auto simp: into_paths_choices with_slash_name starts_segment_def seg_eats_simps)
qed (use assms in \<open>auto simp: into_paths_choices starts_segment_def seg_eats_simps\<close>)

lemma into_paths_append:
  "into_paths (a @ b) params = concat (map (\<lambda>p. map (\<lambda>c. p @ c) (into_paths b params)) (into_paths a params))"
  using into_paths_choices [of b params]
  by (simp add: into_paths_def foldl_extend_paths [of params "foldl _ _ _" b] comp_def)

lemma branch_eaten:
  assumes "\<forall>s \<in> set b. flat s \<and> \<not> optional s \<and> good_segment params s" and "wildcard_last b"
    and "p \<in> set (into_paths (concat (map generate_path b)) params)"
  shows "\<exists>ps. seq_eats b p ps [] \<and> starts_segment p"
  using assms
proof (induction b arbitrary: p)
  case Nil
  then show ?case by (auto simp: into_paths_def starts_segment_def intro: seq_nil)
next
  case (Cons s b)
  then obtain p1 p2 where p: "p = p1 @ p2" "p1 \<in> set (into_paths (generate_path s) params)"
      "p2 \<in> set (into_paths (concat (map generate_path b)) params)"
    by (auto simp: into_paths_append)
  have "wildcard_last b" using Cons.prems(2) by (cases b) (auto simp: wildcard_last_def)
  then obtain ps where ps: "seq_eats b p2 ps []" "starts_segment p2" using Cons p(3) by auto
  have "p2 = []" if "s = WildcardSegment name" for name
    using that Cons.prems(2) p(3) by (cases b) (auto simp: wildcard_last_def into_paths_def)
  then obtain qs where "seg_eats s p qs p2" "starts_segment p"
    using piece_eaten [of s params p2 p1] Cons.prems(1) ps(2) p by auto
  then show ?case using ps(1) seq_cons by blast
qed

lemma plain_branches: "plain_routes r \<Longrightarrow> b \<in> set (branches r) \<Longrightarrow> \<forall>x \<in> set b. flat x \<and> \<not> optional x"
proof (induction r arbitrary: b rule: branches.induct)
  case (3 i seg c ms mode)
  then show ?case by (auto simp: plain_segment_def)
qed (fastforce simp: plain_segment_def list_all_iff)+

lemma plain_proper: "plain_routes r \<Longrightarrow> proper_routes r"
  by (induction r rule: plain_routes.induct) (auto simp: list_all_iff)

text \<open>
  C24. For a tree of routes without optional params, when the static segments of its branches are one
  segment each (\<open>good_segment\<close>: empty, or without a slash other than a leading one, and not a lone slash),
  the prerendered values are not empty and hold no slash but a leading one, and only the last
  segment of a branch is a wildcard (\<open>wildcard_last\<close>), every page that static generation lists is
  matched by the router of the same tree, so it is not answered with the fallback. Without these
  conditions it may be: \<open>slash_parent_page_is_not_routed\<close>.
\<close>

theorem static_paths_are_routed:
  assumes "plain_routes r" and "g \<in> set (generate_routes r)"
    and "\<forall>b \<in> set (branches r). wildcard_last b \<and> list_all (good_segment params) b"
    and "p \<in> set (into_paths (gr_segments g) params)" and "utf8_slashes p"
  shows "\<exists>m. match_route \<lparr>rd_base = None, rd_children = r\<rparr> p = Some m"
proof -
  have "gr_segments g \<in> set (map gr_segments (generate_routes r))" using assms(2) by simp
  then have "gr_segments g \<in> set (map (\<lambda>b. concat (map generate_path b)) (branches r))"
    unfolding generate_routes_segments [OF plain_proper [OF assms(1)]] .
  then obtain b where b: "b \<in> set (branches r)" "gr_segments g = concat (map generate_path b)" by auto
  then obtain ps where "seq_eats b p ps []"
    using branch_eaten [of b params p] plain_branches [OF assms(1)] assms(3,4) by (fastforce simp: list_all_iff)
  then have "eats_all b p" by (auto simp: eats_all_def complete_def)
  then show ?thesis using match_route_exists [OF assms(1,5) b(1)] by blast
qed

theorem static_paths_are_routed_witness:
  "\<exists>m. match_route \<lparr>rd_base = None, rd_children = blog\<rparr> ''/blog/post/7'' = Some m"
proof -
  let ?ps = "Some (static_insert ''id'' [''42'', ''7''] [])"
  let ?g = "last (generate_routes blog)"
  have "plain_routes blog" by code_simp
  moreover have "?g \<in> set (generate_routes blog)" by (simp add: blog_def)
  moreover have "\<forall>b \<in> set (branches blog). wildcard_last b \<and> list_all (good_segment ?ps) b"
    by (simp add: blog_def wildcard_last_def segment_name_def strip_prefix_def param_values_def)
  moreover have "''/blog/post/7'' \<in> set (into_paths (gr_segments ?g) ?ps)"
    by (simp add: blog_def into_paths_def param_values_def static_text_def with_slash_def starts_with_def)
  moreover have "utf8_slashes ''/blog/post/7''"
    by (auto simp: utf8_slashes_def continuation_byte_def nth_Cons' split: if_splits)
  ultimately show ?thesis by (rule static_paths_are_routed)
qed

text \<open>A parent whose path ends with a slash, with one child.\<close>

definition slash_parent :: routes where
  "slash_parent = NestedRoute 1 (SegmentTuple [StaticSegment ''blog'', StaticSegment ''/''])
     (Some (NestedRoute 2 (StaticSegment ''about'') None {Get} OutOfOrder)) {Get} OutOfOrder"

text \<open>
  A parent whose path ends with a slash adds the slash twice: its child page is generated
  (and routed by the server) at a path with two slashes in a row, at which the router finds
  nothing, while the page's address, as the router matches it, is not generated.
\<close>

theorem slash_parent_page_is_not_routed:
  "concat (map (\<lambda>g. into_paths (gr_segments g) None) (generate_routes slash_parent)) = [''/blog//about'']
   \<and> match_route \<lparr>rd_base = None, rd_children = slash_parent\<rparr> ''/blog//about'' = None
   \<and> match_route \<lparr>rd_base = None, rd_children = slash_parent\<rparr> ''/blog/about'' \<noteq> None"
proof (intro conjI)
  show "concat (map (\<lambda>g. into_paths (gr_segments g) None) (generate_routes slash_parent)) = [''/blog//about'']"
    by (simp add: slash_parent_def into_paths_def static_text_def starts_with_def)
  show "match_route \<lparr>rd_base = None, rd_children = slash_parent\<rparr> ''/blog//about'' = None" by code_simp
  show "match_route \<lparr>rd_base = None, rd_children = slash_parent\<rparr> ''/blog/about'' \<noteq> None" by code_simp
qed

section \<open>Rendering and writing the pages\<close>

text \<open>
  What the render function, the writer and the regeneration functions of the application do is
  given: \<open>render k\<close> is the result of the \<open>k\<close>-th rendering of the page (\<open>None\<close>: the task ended
  there, by a panic or because it was dropped), with whether the response is an error and the
  route params it provided; \<open>writer k html\<close> is the result of writing it, an error, success, or
  \<open>None\<close> when the task ended in the writer; and each regeneration function gives, for the params, a
  stream of so many triggers.
\<close>

record rendered =
  rn_html :: string
  rn_error :: bool
  rn_params :: "(string \<times> string) list option"

type_synonym page_writer = "nat \<Rightarrow> string \<Rightarrow> (string + unit) option"

datatype router_error = StaticRenderAborted string | StaticRegenerationWithoutParams string

text \<open>
  What the caller of \<open>build\<close> gets (the page, if it must answer with it), what the writer has written, the
  writer's errors that were logged, and the reported errors.
\<close>

record page_build =
  pb_answer :: "string option"
  pb_written :: "string list"
  pb_logged :: "string list"
  pb_reports :: "router_error list"

text \<open>One call of the writer: the page if it was written, the error if it was logged.\<close>

definition write_page :: "page_writer \<Rightarrow> nat \<Rightarrow> string \<Rightarrow> (string list \<times> string list) option" where
  "write_page writer k html =
    (case writer k html of None \<Rightarrow> None | Some (Inl e) \<Rightarrow> Some ([], [e]) | Some (Inr u) \<Rightarrow> Some ([html], []))"

definition regeneration ::
  "(string \<times> string) list option \<Rightarrow> ((string \<times> string) list \<Rightarrow> nat) list \<Rightarrow> string \<Rightarrow> nat \<times> router_error list" where
  "regeneration provided regens path =
    (if regens = [] then (0, [])
     else case provided of
         None \<Rightarrow> (0, [StaticRegenerationWithoutParams path])
       | Some params \<Rightarrow> (\<Sum>f\<leftarrow>regens. f params, []))"

text \<open>The loop over the triggers: \<open>k\<close> counts the renderings.\<close>

fun regenerate_loop ::
  "(nat \<Rightarrow> rendered option) \<Rightarrow> page_writer \<Rightarrow> nat \<Rightarrow> nat \<Rightarrow> string list \<times> string list" where
  "regenerate_loop render writer k 0 = ([], [])"
| "regenerate_loop render writer k (Suc triggers) =
    (case render k of
       None \<Rightarrow> ([], [])
     | Some r \<Rightarrow>
         (case if rn_error r then Some ([], []) else write_page writer k (rn_html r) of
            None \<Rightarrow> ([], [])
          | Some (written, logged) \<Rightarrow>
              (let (ws, ls) = regenerate_loop render writer (Suc k) triggers in (written @ ws, logged @ ls))))"

text \<open>
  The task sends its answer after the first page is written (or the write's error is logged), so a
  task that ends before, in the render function or in the writer, gives no answer.
\<close>

definition build_page ::
  "(nat \<Rightarrow> rendered option) \<Rightarrow> page_writer \<Rightarrow> ((string \<times> string) list \<Rightarrow> nat) list \<Rightarrow> string \<Rightarrow> page_build" where
  "build_page render writer regens path =
    (let first = Option.bind (render 0) (\<lambda>r.
           if rn_error r then Some (r, Some (rn_html r), [], [])
           else map_option (\<lambda>(written, logged). (r, None, written, logged)) (write_page writer 0 (rn_html r)))
     in case first of
          None \<Rightarrow> \<lparr>pb_answer = None, pb_written = [], pb_logged = [], pb_reports = [StaticRenderAborted path]\<rparr>
        | Some (r, answer, written, logged) \<Rightarrow>
            (let (triggers, reports) = regeneration (rn_params r) regens path;
                 (ws, ls) = regenerate_loop render writer 1 triggers
             in \<lparr>pb_answer = answer, pb_written = written @ ws, pb_logged = logged @ ls, pb_reports = reports\<rparr>))"

section \<open>Route listings\<close>

record route_listing =
  rl_path :: "path_segment list"
  rl_mode :: ssr_mode
  rl_methods :: "http_method set"
  rl_regenerate :: "nat list"

definition listing_static_route :: "route_listing \<Rightarrow> static_route option" where
  "listing_static_route listing = (case rl_mode listing of Static route \<Rightarrow> Some route | _ \<Rightarrow> None)"

definition to_prerendered_params :: "(nat \<Rightarrow> static_params_map) \<Rightarrow> static_route \<Rightarrow> static_params_map option" where
  "to_prerendered_params call route = map_option call (prerender_params route)"

definition into_static_paths :: "(nat \<Rightarrow> static_params_map) \<Rightarrow> route_listing \<Rightarrow> string list option" where
  "into_static_paths call listing =
     map_option (\<lambda>route. into_paths (rl_path listing) (to_prerendered_params call route)) (listing_static_route listing)"

definition list_into_static_paths :: "(nat \<Rightarrow> static_params_map) \<Rightarrow> route_listing list \<Rightarrow> string list" where
  "list_into_static_paths call listings = concat (present (map (into_static_paths call) listings))"

definition generate_static_files ::
  "(nat \<Rightarrow> static_params_map) \<Rightarrow> (nat \<Rightarrow> (string \<times> string) list \<Rightarrow> nat) \<Rightarrow> (string \<Rightarrow> nat \<Rightarrow> rendered option)
    \<Rightarrow> (string \<Rightarrow> page_writer) \<Rightarrow> route_listing \<Rightarrow> (string \<times> page_build) list" where
  "generate_static_files call triggers render writer listing =
    (case rl_mode listing of
       Static route \<Rightarrow>
         (let regens = map triggers (rl_regenerate listing);
              paths = (case into_static_paths call (listing\<lparr>rl_regenerate := []\<rparr>) of None \<Rightarrow> [] | Some ps \<Rightarrow> ps)
          in map (\<lambda>path. (path, build_page (render path) (writer path) regens path)) paths)
     | _ \<Rightarrow> [])"

text \<open>
  What a rendering comes to: it is stored, its write fails, it is an error page, or the task ends in it.
  This is a matter of the rendering alone, not of the ones before it.
\<close>

definition page_ends :: "(nat \<Rightarrow> rendered option) \<Rightarrow> page_writer \<Rightarrow> nat \<Rightarrow> bool" where
  "page_ends render writer k \<longleftrightarrow>
     render k = None \<or> (\<exists>r. render k = Some r \<and> \<not> rn_error r \<and> writer k (rn_html r) = None)"

definition page_stored :: "(nat \<Rightarrow> rendered option) \<Rightarrow> page_writer \<Rightarrow> nat \<Rightarrow> string list" where
  "page_stored render writer k =
    (case render k of
       Some r \<Rightarrow> if \<not> rn_error r \<and> writer k (rn_html r) = Some (Inr ()) then [rn_html r] else []
     | None \<Rightarrow> [])"

definition page_failed :: "(nat \<Rightarrow> rendered option) \<Rightarrow> page_writer \<Rightarrow> nat \<Rightarrow> string list" where
  "page_failed render writer k =
    (case render k of
       Some r \<Rightarrow> if rn_error r then [] else (case writer k (rn_html r) of Some (Inl e) \<Rightarrow> [e] | _ \<Rightarrow> [])
     | None \<Rightarrow> [])"

lemma written_parts:
  assumes "\<not> page_ends render writer k"
  obtains r where "render k = Some r"
    and "(if rn_error r then Some ([], []) else write_page writer k (rn_html r))
      = Some (page_stored render writer k, page_failed render writer k)"
  using assms
  by (auto simp: page_ends_def page_stored_def page_failed_def write_page_def split: option.splits sum.splits)

lemma regenerate_loop_parts:
  "\<exists>m \<le> n. (\<forall>j < m. \<not> page_ends render writer (k + j)) \<and> (m < n \<longrightarrow> page_ends render writer (k + m))
    \<and> regenerate_loop render writer k n =
        (concat (map (page_stored render writer) [k..<k + m]), concat (map (page_failed render writer) [k..<k + m]))"
proof (induction n arbitrary: k)
  case 0
  show ?case by simp
next
  case (Suc n)
  show ?case
  proof (cases "page_ends render writer k")
    case True
    then have "regenerate_loop render writer k (Suc n) = ([], [])"
      by (auto simp: page_ends_def write_page_def split: option.splits)
    then show ?thesis using True by (intro exI [of _ 0]) simp
  next
    case False
    obtain r where r: "render k = Some r"
        "(if rn_error r then Some ([], []) else write_page writer k (rn_html r))
          = Some (page_stored render writer k, page_failed render writer k)"
      by (rule written_parts [OF False])
    obtain m where m: "m \<le> n" "\<forall>j < m. \<not> page_ends render writer (Suc k + j)" "m < n \<longrightarrow> page_ends render writer (Suc k + m)"
        "regenerate_loop render writer (Suc k) n =
          (concat (map (page_stored render writer) [Suc k..<Suc k + m]), concat (map (page_failed render writer) [Suc k..<Suc k + m]))"
      using Suc.IH [of "Suc k"] by blast
    have "\<not> page_ends render writer (k + j)" if "j < Suc m" for j
      using m(2) False that by (cases j) auto
    moreover have "[k..<k + Suc m] = k # [Suc k..<Suc k + m]" by (simp add: upt_conv_Cons del: upt_Suc)
    ultimately show ?thesis
      using m r by (intro exI [of _ "Suc m"]) (auto simp del: upt_Suc)
  qed
qed

text \<open>
  C37. The task of a page renders it once and once more for each trigger, until it ends in a rendering or
  in the writer: the renderings before that one, and no others, take effect, in order. Each that is
  not an error response and that the writer accepts is stored, each that the writer refuses is logged
  (and does not end the task), an error response is neither. The caller gets the page to answer with
  exactly if the first rendering is an error response; \<open>StaticRenderAborted\<close> is reported exactly if
  the task ended in the first rendering or its write, and then nothing was stored.
\<close>

theorem build_page_correct:
  "let b = build_page render writer regens path;
       n = (case render 0 of None \<Rightarrow> 0 | Some r \<Rightarrow> fst (regeneration (rn_params r) regens path))
   in (\<exists>m \<le> Suc n. (\<forall>k < m. \<not> page_ends render writer k) \<and> (m = Suc n \<or> page_ends render writer m)
        \<and> pb_written b = concat (map (page_stored render writer) [0..<m])
        \<and> pb_logged b = concat (map (page_failed render writer) [0..<m]))
    \<and> (\<forall>html. pb_answer b = Some html \<longleftrightarrow> (\<exists>r. render 0 = Some r \<and> rn_error r \<and> rn_html r = html))
    \<and> (StaticRenderAborted path \<in> set (pb_reports b) \<longleftrightarrow> page_ends render writer 0)"
proof (cases "page_ends render writer 0")
  case True
  then have "build_page render writer regens path =
      \<lparr>pb_answer = None, pb_written = [], pb_logged = [], pb_reports = [StaticRenderAborted path]\<rparr>"
    by (auto simp: build_page_def page_ends_def write_page_def)
  then show ?thesis using True by (auto simp: Let_def page_ends_def)
next
  case False
  obtain r where r: "render 0 = Some r"
      "(if rn_error r then Some ([], []) else write_page writer 0 (rn_html r))
        = Some (page_stored render writer 0, page_failed render writer 0)"
    by (rule written_parts [OF False])
  obtain n reports where n: "regeneration (rn_params r) regens path = (n, reports)" by fastforce
  then have rep: "StaticRenderAborted path \<notin> set reports"
    by (auto simp: regeneration_def split: if_splits option.splits)
  obtain m where m: "m \<le> n" "\<forall>j < m. \<not> page_ends render writer (1 + j)" "m < n \<longrightarrow> page_ends render writer (1 + m)"
      "regenerate_loop render writer 1 n =
        (concat (map (page_stored render writer) [1..<1 + m]), concat (map (page_failed render writer) [1..<1 + m]))"
    using regenerate_loop_parts [of n render writer 1] by blast
  have "build_page render writer regens path =
      \<lparr>pb_answer = (if rn_error r then Some (rn_html r) else None),
       pb_written = page_stored render writer 0 @ concat (map (page_stored render writer) [1..<1 + m]),
       pb_logged = page_failed render writer 0 @ concat (map (page_failed render writer) [1..<1 + m]), pb_reports = reports\<rparr>"
    using r n m(4) by (cases "rn_error r") (simp_all add: build_page_def)
  moreover have "[0..<Suc m] = 0 # [1..<1 + m]" by (simp add: upt_conv_Cons del: upt_Suc)
  moreover have "\<not> page_ends render writer k" if "k < Suc m" for k
    using m(2) False that by (cases k) auto
  ultimately show ?thesis
    using m(1,3) r(1) n rep False by (auto simp: Let_def simp del: upt_Suc intro!: exI [of _ "Suc m"])
qed

text \<open>Three renderings and three triggers: the second is an error response, the third write fails, the fourth rendering panics.\<close>

definition busy_page :: "nat \<Rightarrow> rendered option" where
  "busy_page k = (if k < 3 then Some \<lparr>rn_html = ''page'', rn_error = (k = 1), rn_params = Some []\<rparr> else None)"

definition full_disk :: page_writer where
  "full_disk k html = (if k = 2 then Some (Inl ''disk full'') else Some (Inr ()))"

theorem build_page_correct_witness:
  "let b = build_page busy_page full_disk [\<lambda>_. 4] ''/p''
   in pb_written b = [''page''] \<and> pb_logged b = [''disk full''] \<and> pb_answer b = None
    \<and> (\<exists>m \<le> 5. page_ends busy_page full_disk m \<and> pb_written b = concat (map (page_stored busy_page full_disk) [0..<m]))"
proof -
  have n: "(case busy_page 0 of None \<Rightarrow> 0 | Some r \<Rightarrow> fst (regeneration (rn_params r) [\<lambda>_. 4] ''/p'')) = (4 :: nat)"
    by (simp add: busy_page_def regeneration_def)
  have "page_ends busy_page full_disk 5" "page_ends busy_page full_disk 3" by (simp_all add: page_ends_def busy_page_def)
  moreover have "pb_written (build_page busy_page full_disk [\<lambda>_. 4] ''/p'') = [''page'']"
    "pb_logged (build_page busy_page full_disk [\<lambda>_. 4] ''/p'') = [''disk full'']"
    "pb_answer (build_page busy_page full_disk [\<lambda>_. 4] ''/p'') = None"
    by code_simp+
  ultimately show ?thesis
    using build_page_correct [of busy_page full_disk "[\<lambda>_. 4]" "''/p''"] unfolding n Let_def
    by (metis Suc_numeral semiring_norm(2) semiring_norm(5) semiring_norm(8) add_One)
qed

text \<open>
  Static files are generated for a listing exactly at the static paths it lists, each with
  all regeneration functions of its branch; other listings generate nothing.
\<close>

theorem generate_static_files_paths:
  "map fst (generate_static_files call triggers render writer listing)
     = (case into_static_paths call listing of None \<Rightarrow> [] | Some ps \<Rightarrow> ps)
   \<and> list_into_static_paths call [listing] = map fst (generate_static_files call triggers render writer listing)
   \<and> list_all (\<lambda>(path, b). b = build_page (render path) (writer path) (map triggers (rl_regenerate listing)) path)
       (generate_static_files call triggers render writer listing)"
proof (cases "rl_mode listing")
  case (Static route)
  have "into_static_paths call (listing\<lparr>rl_regenerate := []\<rparr>) = into_static_paths call listing"
    by (simp add: into_static_paths_def listing_static_route_def)
  with Static show ?thesis
    by (auto simp: generate_static_files_def list_into_static_paths_def into_static_paths_def listing_static_route_def
        Let_def comp_def list_all_iff)
qed (simp_all add: generate_static_files_def list_into_static_paths_def into_static_paths_def listing_static_route_def)

end
