(* ===== verification/Axum_Routes.thy ===== *)
theory Axum_Routes
  imports Static_Paths
begin

text \<open>
  The routes that the application adds to the axum server: what \<open>axum::Router::route\<close> accepts
  (\<open>axum/route_path.rs\<close>: \<open>RoutePath\<close>, \<open>RouteRegistry\<close>), the paths and listings made from the
  generated routes, and their registration (\<open>axum/mod.rs\<close>). HTTP methods are their names; the
  method filter that axum has for a method (\<open>MethodFilter::try_from\<close>) is a parameter.
\<close>

section \<open>Paths as axum reads them\<close>

datatype path_error =
    NoLeadingSlash | ColonSegment | StarSegment | InvalidParam | InvalidParamSegment
  | CatchAllNotLast | TooManyParams

definition MAX_PARAMS :: nat where "MAX_PARAMS = 25"

datatype token = Literal char | Param | CatchAll string

definition is_wildcard :: "token \<Rightarrow> bool" where
  "is_wildcard t = (case t of Literal _ \<Rightarrow> False | _ \<Rightarrow> True)"

definition brace :: "char \<Rightarrow> bool" where
  "brace c \<longleftrightarrow> c = CHR ''{'' \<or> c = CHR ''}''"

fun unescape :: "string \<Rightarrow> (char \<times> bool) list" where
  "unescape [] = []"
| "unescape [b] = [(b, False)]"
| "unescape (b # b' # bs) =
    (if brace b \<and> b' = b then (b, True) # unescape bs else (b, False) # unescape (b' # bs))"

text \<open>The index of the closing brace, from the second byte after the opening one on.\<close>

fun find_close :: "nat \<Rightarrow> (char \<times> bool) list \<Rightarrow> path_error + nat" where
  "find_close i [] = Inl InvalidParam"
| "find_close i ((byte, escaped) # rest) =
    (if byte = CHR ''}'' \<and> \<not> escaped then Inr i
     else if byte = CHR ''*'' \<or> byte = CHR ''/'' then Inl InvalidParam
     else find_close (Suc i) rest)"

definition wildcard :: "(char \<times> bool) list \<Rightarrow> path_error + (token \<times> (char \<times> bool) list)" where
  "wildcard after_brace =
    (case after_brace of
       [] \<Rightarrow> Inl InvalidParam
     | (byte, _) # later \<Rightarrow>
         if byte = CHR ''}'' then Inl InvalidParam
         else (case find_close 1 later of
             Inl e \<Rightarrow> Inl e
           | Inr close \<Rightarrow>
               (let name = take close after_brace; rest = drop (Suc close) after_brace
                in if fst (last name) = CHR ''*'' then Inl InvalidParam
                   else if rest \<noteq> [] \<and> fst (hd rest) \<noteq> CHR ''/'' then Inl InvalidParamSegment
                   else Inr (if fst (hd name) = CHR ''*'' then CatchAll (map fst (tl name)) else Param, rest))))"

lemma find_close_bound: "find_close i xs = Inr j \<Longrightarrow> i \<le> j \<and> j < i + length xs"
  by (induction i xs rule: find_close.induct) (auto split: if_splits)

lemma wildcard_shorter: "wildcard xs = Inr (t, rest) \<Longrightarrow> length rest < length xs"
  by (auto simp: wildcard_def Let_def split: list.splits if_splits sum.splits dest!: find_close_bound)

text \<open>The main loop of \<open>RoutePath::parse\<close>.\<close>

function parse_loop :: "nat \<Rightarrow> token list \<Rightarrow> (char \<times> bool) list \<Rightarrow> path_error + token list" where
  "parse_loop params tokens [] = Inr tokens"
| "parse_loop params tokens ((byte, escaped) # after) =
    (if escaped \<or> \<not> brace byte then parse_loop params (tokens @ [Literal byte]) after
     else if byte = CHR ''}'' then Inl InvalidParam
     else (case wildcard after of
         Inl e \<Rightarrow> Inl e
       | Inr (token, rest) \<Rightarrow>
           (case token of
              CatchAll _ \<Rightarrow> if rest \<noteq> [] then Inl CatchAllNotLast else parse_loop params (tokens @ [token]) rest
            | Param \<Rightarrow> if MAX_PARAMS < Suc params then Inl TooManyParams
                       else parse_loop (Suc params) (tokens @ [token]) rest
            | Literal _ \<Rightarrow> parse_loop params (tokens @ [token]) rest)))"
  by pat_completeness auto
termination
  by (relation "measure (\<lambda>(_, _, rest). length rest)") (auto dest!: wildcard_shorter)

fun split_char :: "char \<Rightarrow> string \<Rightarrow> string list" where
  "split_char c [] = [[]]"
| "split_char c (x # xs) =
    (if x = c then [] # split_char c xs
     else (case split_char c xs of [] \<Rightarrow> [[x]] | y # ys \<Rightarrow> (x # y) # ys))"

fun check_segments :: "string list \<Rightarrow> path_error option" where
  "check_segments [] = None"
| "check_segments (s # segs) =
    (if starts_with '':'' s then Some ColonSegment
     else if starts_with ''*'' s then Some StarSegment else check_segments segs)"

definition parse :: "string \<Rightarrow> path_error + token list" where
  "parse path =
    (if \<not> starts_with ''/'' path then Inl NoLeadingSlash
     else case check_segments (split_char CHR ''/'' path) of
         Some e \<Rightarrow> Inl e
       | None \<Rightarrow> parse_loop 0 [] (unescape path))"

fun conflicts_with :: "token list \<Rightarrow> token list \<Rightarrow> bool" where
  "conflicts_with [] [] = True"
| "conflicts_with (a # as) (b # bs) =
    (if a = b then conflicts_with as bs else is_wildcard a \<and> is_wildcard b)"
| "conflicts_with _ _ = False"

section \<open>The registry\<close>

datatype route_error =
    InvalidPath string path_error
  | UnsupportedMethod string string
  | Duplicate string string
  | Conflict string string

record registered_path =
  reg_path :: string
  reg_parsed :: "token list"
  reg_methods :: "string list"

text \<open>The first registered path with the same text gets the method.\<close>

fun add_method :: "string \<Rightarrow> string \<Rightarrow> registered_path list \<Rightarrow> (route_error + registered_path list) option" where
  "add_method path meth [] = None"
| "add_method path meth (r # rs) =
    (if reg_path r = path
     then Some (if meth \<in> set (reg_methods r) then Inl (Duplicate path meth)
                else Inr (r\<lparr>reg_methods := reg_methods r @ [meth]\<rparr> # rs))
     else map_option (map_sum id (Cons r)) (add_method path meth rs))"

definition admit ::
  "(string \<Rightarrow> 'f option) \<Rightarrow> string \<Rightarrow> string \<Rightarrow> registered_path list \<Rightarrow> (route_error + 'f) \<times> registered_path list" where
  "admit method_filter path meth routes =
    (case method_filter meth of
       None \<Rightarrow> (Inl (UnsupportedMethod path meth), routes)
     | Some f \<Rightarrow>
         (case parse path of
            Inl reason \<Rightarrow> (Inl (InvalidPath path reason), routes)
          | Inr parsed \<Rightarrow>
              (case add_method path meth routes of
                 Some (Inl e) \<Rightarrow> (Inl e, routes)
               | Some (Inr routes') \<Rightarrow> (Inr f, routes')
               | None \<Rightarrow>
                   (case find (\<lambda>r. conflicts_with (reg_parsed r) parsed) routes of
                      Some existing \<Rightarrow> (Inl (Conflict path (reg_path existing)), routes)
                    | None \<Rightarrow>
                        (Inr f, routes @ [\<lparr>reg_path = path, reg_parsed = parsed, reg_methods = [meth]\<rparr>])))))"

section \<open>Registering a list of routes\<close>

text \<open>
  A router as the calls of \<open>Router::route\<close> that were made on it, with the handler's rendering
  mode and method; the reports are the errors that were logged.
\<close>

record 'f route_call =
  rc_path :: string
  rc_filter :: 'f
  rc_mode :: ssr_mode
  rc_method :: http_method
  rc_regenerate :: "nat list"

record axum_route_listing =
  al_path :: string
  al_mode :: ssr_mode
  al_methods :: "http_method list"
  al_regenerate :: "nat list"
  al_exclude :: bool

type_synonym ('f, 'reg) server = "'f route_call list \<times> 'reg \<times> route_error list"

definition add_route ::
  "(string \<Rightarrow> string \<Rightarrow> 'reg \<Rightarrow> (route_error + 'f) \<times> 'reg) \<Rightarrow> string \<Rightarrow> string
    \<Rightarrow> ('f \<Rightarrow> 'f route_call) \<Rightarrow> ('f, 'reg) server \<Rightarrow> ('f, 'reg) server" where
  "add_route admit_op path meth method_router server =
    (case server of (router, routes, log) \<Rightarrow>
       (case admit_op path meth routes of
          (Inr f, routes') \<Rightarrow> (router @ [method_router f], routes', log)
        | (Inl e, routes') \<Rightarrow> (router, routes', log @ [e])))"

fun http_method_name :: "http_method \<Rightarrow> string" where
  "http_method_name Get = ''GET''"
| "http_method_name Post = ''POST''"
| "http_method_name Put = ''PUT''"
| "http_method_name Delete = ''DELETE''"
| "http_method_name Patch = ''PATCH''"

text \<open>A static page is always served for \<open>GET\<close>.\<close>

definition served_method :: "axum_route_listing \<Rightarrow> http_method \<Rightarrow> string" where
  "served_method listing m = (case al_mode listing of Static _ \<Rightarrow> ''GET'' | _ \<Rightarrow> http_method_name m)"

definition route_for :: "axum_route_listing \<Rightarrow> http_method \<Rightarrow> 'f \<Rightarrow> 'f route_call" where
  "route_for listing m f = \<lparr>rc_path = al_path listing, rc_filter = f, rc_mode = al_mode listing, rc_method = m,
     rc_regenerate = (case al_mode listing of Static _ \<Rightarrow> al_regenerate listing | _ \<Rightarrow> [])\<rparr>"

definition register_listing ::
  "(string \<Rightarrow> string \<Rightarrow> 'reg \<Rightarrow> (route_error + 'f) \<times> 'reg) \<Rightarrow> axum_route_listing
    \<Rightarrow> ('f, 'reg) server \<Rightarrow> ('f, 'reg) server" where
  "register_listing admit_op listing =
     fold (\<lambda>m. add_route admit_op (al_path listing) (served_method listing m) (route_for listing m)) (al_methods listing)"

definition halyard_routes_loop ::
  "(string \<Rightarrow> string \<Rightarrow> 'reg \<Rightarrow> (route_error + 'f) \<times> 'reg) \<Rightarrow> axum_route_listing list
    \<Rightarrow> ('f, 'reg) server \<Rightarrow> ('f, 'reg) server" where
  "halyard_routes_loop admit_op paths server =
     fold (register_listing admit_op) (filter (\<lambda>p. \<not> al_exclude p) paths) server"

definition halyard_routes_with_context ::
  "(string \<Rightarrow> 'f option) \<Rightarrow> axum_route_listing list \<Rightarrow> ('f, registered_path list) server" where
  "halyard_routes_with_context method_filter paths = halyard_routes_loop (admit method_filter) paths ([], [], [])"

section \<open>What a registry promises\<close>

text \<open>
  The contract between the registration loop and a registry: what is routed so far, what keeps it
  consistent, and why a request may be refused. A refused request changes nothing, and a reason
  to refuse a request does not go away.
\<close>

locale registry =
  fixes admit_op :: "string \<Rightarrow> string \<Rightarrow> 'reg \<Rightarrow> (route_error + 'f) \<times> 'reg"
    and routed :: "'reg \<Rightarrow> (string \<times> string) set"
    and consistent :: "'reg \<Rightarrow> bool"
    and refusable :: "string \<Rightarrow> string \<Rightarrow> 'reg \<Rightarrow> bool"
  assumes admit_consistent: "consistent reg \<Longrightarrow> consistent (snd (admit_op p m reg))"
    and admit_routes: "consistent reg \<Longrightarrow> admit_op p m reg = (Inr f, reg') \<Longrightarrow>
      (p, m) \<notin> routed reg \<and> routed reg' = insert (p, m) (routed reg)"
    and admit_refuses: "consistent reg \<Longrightarrow> admit_op p m reg = (Inl e, reg') \<Longrightarrow> reg' = reg \<and> refusable p m reg"
    and refusable_stays: "consistent reg \<Longrightarrow> refusable p m reg \<Longrightarrow> refusable p m (snd (admit_op p' m' reg))"
begin

text \<open>What is true after every step: the calls are the routed requests, each once.\<close>

definition served :: "(string \<times> string) list \<Rightarrow> ('f, 'reg) server \<Rightarrow> bool" where
  "served calls server \<longleftrightarrow>
    (case server of (router, reg, log) \<Rightarrow>
       consistent reg \<and> distinct calls \<and> set calls = routed reg \<and> map rc_path router = map fst calls)"

definition settled :: "string \<Rightarrow> string \<Rightarrow> ('f, 'reg) server \<Rightarrow> bool" where
  "settled p m server \<longleftrightarrow> (p, m) \<in> routed (fst (snd server)) \<or> refusable p m (fst (snd server))"

lemma add_route_served:
  assumes "served calls server" and "\<And>f. rc_path (mk f) = p"
  shows "\<exists>calls'. served calls' (add_route admit_op p m mk server)"
    and "settled p m (add_route admit_op p m mk server)"
    and "settled p' m' server \<Longrightarrow> settled p' m' (add_route admit_op p m mk server)"
proof -
  obtain router reg log where s: "server = (router, reg, log)" by (cases server) auto
  obtain res reg' where a: "admit_op p m reg = (res, reg')" by fastforce
  have ok: "consistent reg" "distinct calls" "set calls = routed reg" "map rc_path router = map fst calls"
    using assms(1) s by (auto simp: served_def)
  have ok': "consistent reg'" using admit_consistent [OF ok(1), of p m] a by simp
  show "\<exists>calls'. served calls' (add_route admit_op p m mk server)"
  proof (cases res)
    case (Inl e)
    then have "served calls (add_route admit_op p m mk server)"
      using admit_refuses [OF ok(1), of p m] a assms(1) s by (auto simp: add_route_def served_def)
    then show ?thesis by blast
  next
    case (Inr f)
    then have "(p, m) \<notin> routed reg" "routed reg' = insert (p, m) (routed reg)"
      using admit_routes [OF ok(1)] a by auto
    then have "served (calls @ [(p, m)]) (add_route admit_op p m mk server)"
      using a s Inr ok ok' assms(2) by (auto simp: add_route_def served_def)
    then show ?thesis by blast
  qed
  show "settled p m (add_route admit_op p m mk server)"
    using admit_refuses [OF ok(1), of p m] admit_routes [OF ok(1), of p m] a s
    by (cases res) (auto simp: add_route_def settled_def)
  show "settled p' m' (add_route admit_op p m mk server)" if "settled p' m' server"
    using that admit_refuses [OF ok(1), of p m] admit_routes [OF ok(1), of p m]
      refusable_stays [OF ok(1), of p' m' p m] a s
    by (cases res) (auto simp: add_route_def settled_def)
qed

lemma fold_served:
  assumes "\<exists>calls. served calls server"
    and step: "\<And>x s. x \<in> set xs \<Longrightarrow> \<exists>calls. served calls s \<Longrightarrow> \<exists>calls. served calls (f x s)"
    and kept: "\<And>x s p m. x \<in> set xs \<Longrightarrow> \<exists>calls. served calls s \<Longrightarrow> settled p m s \<Longrightarrow> settled p m (f x s)"
  shows "(\<exists>calls. served calls (fold f xs server)) \<and> (settled p m server \<longrightarrow> settled p m (fold f xs server))"
  using assms
proof (induction xs arbitrary: server)
  case (Cons x xs)
  have "\<exists>calls. served calls (f x server)" using Cons.prems(1,2) by simp
  moreover have "settled p m server \<longrightarrow> settled p m (f x server)" using Cons.prems(1,3) by simp
  ultimately show ?case using Cons.IH [of "f x server"] Cons.prems(2,3) by auto
qed simp

lemma fold_settles:
  assumes "\<exists>calls. served calls server" and "x \<in> set xs"
    and step: "\<And>x s. x \<in> set xs \<Longrightarrow> \<exists>calls. served calls s \<Longrightarrow> \<exists>calls. served calls (f x s)"
    and kept: "\<And>x s p m. x \<in> set xs \<Longrightarrow> \<exists>calls. served calls s \<Longrightarrow> settled p m s \<Longrightarrow> settled p m (f x s)"
    and now: "\<And>s. \<exists>calls. served calls s \<Longrightarrow> settled p m (f x s)"
  shows "settled p m (fold f xs server)"
  using assms(1,2) step kept
proof (induction xs arbitrary: server)
  case (Cons y xs)
  have served: "\<exists>calls. served calls (f y server)" using Cons.prems(1,3) by simp
  show ?case
  proof (cases "x = y")
    case True
    then have "settled p m (f y server)" using now Cons.prems(1) by simp
    then show ?thesis using fold_served [OF served, of xs f p m] Cons.prems(3,4) by auto
  next
    case False
    then show ?thesis using Cons.IH [OF served] Cons.prems(2-4) by auto
  qed
qed simp

lemma listing_served:
  assumes "\<exists>calls. served calls server"
  shows "\<exists>calls. served calls (register_listing admit_op l server)"
    and "settled p m server \<Longrightarrow> settled p m (register_listing admit_op l server)"
    and "k \<in> set (al_methods l) \<Longrightarrow> settled (al_path l) (served_method l k) (register_listing admit_op l server)"
proof -
  have path: "rc_path (route_for l k f) = al_path l" for k and f :: 'f by (simp add: route_for_def)
  have step: "\<exists>calls. served calls (add_route admit_op (al_path l) (served_method l k) (route_for l k) s)"
    and kept: "settled p m s \<Longrightarrow> settled p m (add_route admit_op (al_path l) (served_method l k) (route_for l k) s)"
    and now: "settled (al_path l) (served_method l k) (add_route admit_op (al_path l) (served_method l k) (route_for l k) s)"
    if "\<exists>calls. served calls s" for k s p m
    using that add_route_served [of _ s "route_for l k" "al_path l"] path by blast+
  show "\<exists>calls. served calls (register_listing admit_op l server)"
    and "settled p m server \<Longrightarrow> settled p m (register_listing admit_op l server)"
    unfolding register_listing_def
    using fold_served [OF assms, of "al_methods l" _ p m] step kept by simp_all
  show "settled (al_path l) (served_method l k) (register_listing admit_op l server)" if "k \<in> set (al_methods l)"
    unfolding register_listing_def by (rule fold_settles [OF assms that]) (use step kept now in auto)
qed

lemma routes_loop_served:
  assumes "consistent reg" and "routed reg = {}"
  shows "\<exists>calls. served calls (halyard_routes_loop admit_op paths ([], reg, []))"
    and "l \<in> set paths \<Longrightarrow> \<not> al_exclude l \<Longrightarrow> k \<in> set (al_methods l) \<Longrightarrow>
      settled (al_path l) (served_method l k) (halyard_routes_loop admit_op paths ([], reg, []))"
proof -
  have start: "\<exists>calls. served calls ([], reg, [])"
    using assms by (intro exI [of _ "[]"]) (simp add: served_def)
  show "\<exists>calls. served calls (halyard_routes_loop admit_op paths ([], reg, []))"
    unfolding halyard_routes_loop_def
    using fold_served [OF start, of "filter (\<lambda>p. \<not> al_exclude p) paths" "register_listing admit_op"] listing_served
    by blast
  show "settled (al_path l) (served_method l k) (halyard_routes_loop admit_op paths ([], reg, []))"
    if "l \<in> set paths" "\<not> al_exclude l" "k \<in> set (al_methods l)"
    unfolding halyard_routes_loop_def
    by (rule fold_settles [OF start, of l]) (use that listing_served in auto)
qed

end

section \<open>The registry keeps its promise\<close>

lemma conflicts_with_sym: "conflicts_with a b = conflicts_with b a"
  by (induction a b rule: conflicts_with.induct) auto

lemma conflicts_with_refl: "conflicts_with a a"
  by (induction a) auto

definition routed_by :: "registered_path list \<Rightarrow> (string \<times> string) set" where
  "routed_by reg = (\<Union>r \<in> set reg. {reg_path r} \<times> set (reg_methods r))"

text \<open>
  A consistent registry: each path once, as it was parsed, with its methods, each once, and no
  two paths that axum could not hold together.
\<close>

definition registry_ok :: "registered_path list \<Rightarrow> bool" where
  "registry_ok reg \<longleftrightarrow> distinct (map reg_path reg)
     \<and> list_all (\<lambda>r. parse (reg_path r) = Inr (reg_parsed r) \<and> distinct (reg_methods r)) reg
     \<and> sorted_wrt (\<lambda>a b. \<not> conflicts_with (reg_parsed a) (reg_parsed b)) reg"

definition route_refusable :: "(string \<Rightarrow> 'f option) \<Rightarrow> string \<Rightarrow> string \<Rightarrow> registered_path list \<Rightarrow> bool" where
  "route_refusable method_filter p m reg \<longleftrightarrow>
     method_filter m = None
     \<or> (case parse p of
          Inl _ \<Rightarrow> True
        | Inr parsed \<Rightarrow> list_ex (\<lambda>r. reg_path r \<noteq> p \<and> conflicts_with (reg_parsed r) parsed) reg)
     \<or> (p, m) \<in> routed_by reg"

lemma registry_ok_apart:
  assumes "registry_ok reg" and "a \<in> set reg" and "b \<in> set reg" and "reg_path a \<noteq> reg_path b"
  shows "\<not> conflicts_with (reg_parsed a) (reg_parsed b)"
proof -
  obtain i j where "i < length reg" "reg ! i = a" "j < length reg" "reg ! j = b"
    using assms(2,3) by (auto simp: in_set_conv_nth)
  moreover have "i \<noteq> j" using assms(4) calculation by auto
  ultimately show ?thesis
    using assms(1) conflicts_with_sym by (auto simp: registry_ok_def sorted_wrt_iff_nth_less linorder_neq_iff)
qed

lemma add_method_None: "add_method p m reg = None \<longleftrightarrow> p \<notin> reg_path ` set reg"
  by (induction reg) auto

lemma add_method_Cons_other:
  "reg_path r \<noteq> p \<Longrightarrow> add_method p m (r # reg) = Some x \<longleftrightarrow>
     (\<exists>y. add_method p m reg = Some y \<and> x = map_sum id (Cons r) y)"
  by auto

lemma add_method_Inl:
  "add_method p m reg = Some (Inl e) \<Longrightarrow> (p, m) \<in> routed_by reg"
proof (induction reg)
  case (Cons r reg)
  show ?case
  proof (cases "reg_path r = p")
    case True
    then show ?thesis using Cons.prems by (auto simp: routed_by_def split: if_splits)
  next
    case False
    then obtain y where "add_method p m reg = Some y" "Inl e = map_sum id (Cons r) y"
      using Cons.prems by (auto simp: add_method_Cons_other simp del: add_method.simps)
    then have "(p, m) \<in> routed_by reg" using Cons.IH by (cases y) auto
    then show ?thesis by (auto simp: routed_by_def)
  qed
qed simp

text \<open>The method is added to one entry, whose path, parse and place stay.\<close>

lemma add_method_Inr:
  "add_method p m reg = Some (Inr reg') \<Longrightarrow>
     \<exists>a r b. reg = a @ r # b \<and> reg' = a @ r\<lparr>reg_methods := reg_methods r @ [m]\<rparr> # b
       \<and> reg_path r = p \<and> m \<notin> set (reg_methods r)"
proof (induction reg arbitrary: reg')
  case (Cons r reg)
  show ?case
  proof (cases "reg_path r = p")
    case True
    then show ?thesis using Cons.prems
      by (intro exI [of _ "[]"] exI [of _ r] exI [of _ reg]) (auto split: if_splits)
  next
    case False
    then obtain y where "add_method p m reg = Some y" "Inr reg' = map_sum id (Cons r) y"
      using Cons.prems by (auto simp: add_method_Cons_other simp del: add_method.simps)
    then obtain reg2 where "add_method p m reg = Some (Inr reg2)" "reg' = r # reg2" by (cases y) auto
    with Cons.IH obtain a x b where "reg = a @ x # b" "reg2 = a @ x\<lparr>reg_methods := reg_methods x @ [m]\<rparr> # b"
        "reg_path x = p" "m \<notin> set (reg_methods x)" by blast
    then show ?thesis using \<open>reg' = r # reg2\<close>
      by (intro exI [of _ "r # a"] exI [of _ x] exI [of _ b]) simp
  qed
qed simp

lemma add_method_ok:
  assumes "registry_ok reg" and "add_method p m reg = Some (Inr reg')"
  shows "registry_ok reg' \<and> (p, m) \<notin> routed_by reg \<and> routed_by reg' = insert (p, m) (routed_by reg)
    \<and> map (\<lambda>r. (reg_path r, reg_parsed r)) reg' = map (\<lambda>r. (reg_path r, reg_parsed r)) reg"
proof -
  obtain a r b where r: "reg = a @ r # b" "reg' = a @ r\<lparr>reg_methods := reg_methods r @ [m]\<rparr> # b"
      "reg_path r = p" "m \<notin> set (reg_methods r)"
    using add_method_Inr [OF assms(2)] by blast
  have "(p, m) \<notin> routed_by reg"
    using assms(1) r by (auto simp: routed_by_def registry_ok_def)
  moreover have "registry_ok reg'"
    using assms(1) r by (auto simp: registry_ok_def sorted_wrt_append)
  moreover have "routed_by reg' = insert (p, m) (routed_by reg)"
    using r by (auto simp: routed_by_def)
  ultimately show ?thesis using r by simp
qed

lemma admit_new_path:
  assumes "registry_ok reg" and "parse p = Inr parsed" and "p \<notin> reg_path ` set reg"
    and "find (\<lambda>r. conflicts_with (reg_parsed r) parsed) reg = None"
  shows "registry_ok (reg @ [\<lparr>reg_path = p, reg_parsed = parsed, reg_methods = [m]\<rparr>])
    \<and> (p, m) \<notin> routed_by reg
    \<and> routed_by (reg @ [\<lparr>reg_path = p, reg_parsed = parsed, reg_methods = [m]\<rparr>]) = insert (p, m) (routed_by reg)"
  using assms by (auto simp: registry_ok_def sorted_wrt_append find_None_iff routed_by_def)

lemma admit_accepts:
  assumes "registry_ok reg" and "admit method_filter p m reg = (Inr f, reg')"
  shows "registry_ok reg' \<and> (p, m) \<notin> routed_by reg \<and> routed_by reg' = insert (p, m) (routed_by reg)
    \<and> (\<exists>more. map (\<lambda>r. (reg_path r, reg_parsed r)) reg' = map (\<lambda>r. (reg_path r, reg_parsed r)) reg @ more)"
proof -
  obtain parsed where parsed: "parse p = Inr parsed"
    using assms(2) by (auto simp: admit_def split: option.splits sum.splits)
  show ?thesis
  proof (cases "add_method p m reg")
    case None
    then have "find (\<lambda>r. conflicts_with (reg_parsed r) parsed) reg = None"
      and "reg' = reg @ [\<lparr>reg_path = p, reg_parsed = parsed, reg_methods = [m]\<rparr>]"
      using assms(2) parsed by (auto simp: admit_def split: option.splits)
    then show ?thesis using admit_new_path [OF assms(1) parsed] None by (simp add: add_method_None)
  next
    case (Some x)
    then have "add_method p m reg = Some (Inr reg')"
      using assms(2) parsed by (auto simp: admit_def split: option.splits sum.splits)
    from add_method_ok [OF assms(1) this] show ?thesis by simp
  qed
qed

lemma admit_rejects:
  assumes "registry_ok reg" and "admit method_filter p m reg = (Inl e, reg')"
  shows "reg' = reg \<and> route_refusable method_filter p m reg"
proof (cases "\<exists>f parsed. method_filter m = Some f \<and> parse p = Inr parsed")
  case False
  then show ?thesis using assms(2)
    by (cases "method_filter m"; cases "parse p") (auto simp: admit_def route_refusable_def)
next
  case True
  then obtain f parsed where f: "method_filter m = Some f" "parse p = Inr parsed" by blast
  show ?thesis
  proof (cases "add_method p m reg")
    case (Some x)
    then show ?thesis using assms(2) f add_method_Inl [of p m reg]
      by (cases x) (auto simp: admit_def route_refusable_def)
  next
    case None
    then obtain r where "find (\<lambda>r. conflicts_with (reg_parsed r) parsed) reg = Some r" "reg' = reg"
      using assms(2) f by (auto simp: admit_def split: option.splits)
    then have "r \<in> set reg" "conflicts_with (reg_parsed r) parsed" by (auto simp: find_Some_iff)
    moreover have "p \<notin> reg_path ` set reg" using None by (simp add: add_method_None)
    ultimately show ?thesis using f \<open>reg' = reg\<close> by (auto simp: route_refusable_def list_ex_iff)
  qed
qed

lemma route_refusable_stays:
  assumes "registry_ok reg" and "route_refusable method_filter p m reg"
  shows "route_refusable method_filter p m (snd (admit method_filter p' m' reg))"
proof -
  obtain res reg' where a: "admit method_filter p' m' reg = (res, reg')" by fastforce
  show ?thesis
  proof (cases res)
    case (Inl e)
    then show ?thesis using admit_rejects [OF assms(1)] a assms(2) by fastforce
  next
    case (Inr f)
    then have "routed_by reg \<subseteq> routed_by reg'"
      and "\<exists>more. map (\<lambda>r. (reg_path r, reg_parsed r)) reg' = map (\<lambda>r. (reg_path r, reg_parsed r)) reg @ more"
      using admit_accepts [OF assms(1), of method_filter p' m' f reg'] a by auto
    then have "(\<lambda>r. (reg_path r, reg_parsed r)) ` set reg \<subseteq> (\<lambda>r. (reg_path r, reg_parsed r)) ` set reg'"
      by (metis Un_upper1 list.set_map set_append)
    then have "list_ex (\<lambda>r. reg_path r \<noteq> p \<and> conflicts_with (reg_parsed r) parsed) reg'"
      if "list_ex (\<lambda>r. reg_path r \<noteq> p \<and> conflicts_with (reg_parsed r) parsed) reg" for parsed
      using that by (fastforce simp: list_ex_iff)
    then show ?thesis
      using assms(2) \<open>routed_by reg \<subseteq> routed_by reg'\<close> a by (auto simp: route_refusable_def split: sum.splits)
  qed
qed

interpretation axum: registry "admit method_filter" routed_by registry_ok "route_refusable method_filter"
  for method_filter :: "string \<Rightarrow> 'f option"
proof unfold_locales
  fix reg p m
  assume ok: "registry_ok reg"
  show "registry_ok (snd (admit method_filter p m reg))"
    using admit_accepts [OF ok, of method_filter p m] admit_rejects [OF ok, of method_filter p m] ok
    by (cases "admit method_filter p m reg"; cases "fst (admit method_filter p m reg)") auto
next
  fix reg p m f reg'
  assume "registry_ok reg" "admit method_filter p m reg = (Inr f, reg')"
  from admit_accepts [OF this] show "(p, m) \<notin> routed_by reg \<and> routed_by reg' = insert (p, m) (routed_by reg)"
    by simp
qed (fact admit_rejects, fact route_refusable_stays)

text \<open>
  C23. Admitting a route keeps the registry consistent (each path once, as parsed, no two that
  conflict, each method of a path once). An admitted request was not routed before, and is now;
  a refused one changes nothing and was refused for a reason: no filter for its method, a path
  that cannot be parsed, a different registered path it conflicts with, or being there already.
\<close>

theorem admit_correct:
  assumes "registry_ok reg" and "admit method_filter p m reg = (res, reg')"
  shows "registry_ok reg' \<and>
    (case res of
       Inr f \<Rightarrow> \<not> route_refusable method_filter p m reg \<and> method_filter m = Some f
                \<and> routed_by reg' = insert (p, m) (routed_by reg)
     | Inl e \<Rightarrow> reg' = reg \<and> route_refusable method_filter p m reg)"
proof (cases res)
  case (Inl e)
  then show ?thesis using assms admit_rejects [of reg method_filter p m e reg'] by simp
next
  case (Inr f)
  then have acc: "admit method_filter p m reg = (Inr f, reg')" using assms(2) by simp
  obtain parsed where f: "method_filter m = Some f" "parse p = Inr parsed"
    using acc by (auto simp: admit_def split: option.splits sum.splits)
  have "\<not> conflicts_with (reg_parsed r) parsed" if "r \<in> set reg" "reg_path r \<noteq> p" for r
  proof (cases "add_method p m reg")
    case None
    then show ?thesis using acc f that by (auto simp: admit_def find_None_iff split: option.splits)
  next
    case (Some x)
    then have "p \<in> reg_path ` set reg" by (metis add_method_None option.distinct(1))
    then obtain r' where r': "r' \<in> set reg" "reg_path r' = p" by blast
    then have "reg_parsed r' = parsed" using assms(1) f(2) by (auto simp: registry_ok_def list_all_iff)
    moreover have "\<not> conflicts_with (reg_parsed r) (reg_parsed r')"
      using assms(1) r' that registry_ok_apart by metis
    ultimately show ?thesis by simp
  qed
  then have "\<not> route_refusable method_filter p m reg"
    using f admit_accepts [OF assms(1) acc] by (auto simp: route_refusable_def list_ex_iff)
  then show ?thesis using Inr f admit_accepts [OF assms(1) acc] by simp
qed

theorem admit_correct_witness:
  "let reg = [\<lparr>reg_path = ''/a/{x}'', reg_parsed = map Literal ''/a/'' @ [Param], reg_methods = [''GET'']\<rparr>]
   in route_refusable (\<lambda>m. Some m) ''/a/{y}'' ''GET'' reg \<and> \<not> route_refusable (\<lambda>m. Some m) ''/a/b'' ''GET'' reg"
proof -
  let ?reg = "[\<lparr>reg_path = ''/a/{x}'', reg_parsed = map Literal ''/a/'' @ [Param], reg_methods = [''GET'']\<rparr>]"
  have ok: "registry_ok ?reg" by code_simp
  have "fst (admit (\<lambda>m. Some m) ''/a/{y}'' ''GET'' ?reg) = Inl (Conflict ''/a/{y}'' ''/a/{x}'')" by code_simp
  moreover have "fst (admit (\<lambda>m. Some m) ''/a/b'' ''GET'' ?reg) = Inr ''GET''" by code_simp
  ultimately show ?thesis
    using admit_correct [OF ok, of "\<lambda>m. Some m" "''/a/{y}''" "''GET''"]
      admit_correct [OF ok, of "\<lambda>m. Some m" "''/a/b''" "''GET''"]
    by (metis (no_types, lifting) prod.collapse sum.simps(5,6))
qed

lemma halyard_routes_settled:
  "case halyard_routes_with_context method_filter paths of (router, reg, log) \<Rightarrow>
     registry_ok reg
   \<and> (\<exists>calls. distinct calls \<and> set calls = routed_by reg \<and> map rc_path router = map fst calls)
   \<and> list_all (\<lambda>l. al_exclude l \<or> list_all (\<lambda>m. (al_path l, served_method l m) \<in> routed_by reg
        \<or> route_refusable method_filter (al_path l) (served_method l m) reg) (al_methods l)) paths"
proof -
  have start: "registry_ok []" "routed_by [] = {}" by (simp_all add: registry_ok_def routed_by_def)
  obtain router reg log where run: "halyard_routes_with_context method_filter paths = (router, reg, log)"
    by (metis prod_cases3)
  then have loop: "halyard_routes_loop (admit method_filter) paths ([], [], []) = (router, reg, log)"
    by (simp add: halyard_routes_with_context_def)
  show ?thesis
    using axum.routes_loop_served(1) [OF start, where method_filter = method_filter and paths = paths]
      axum.routes_loop_served(2) [OF start, where method_filter = method_filter and paths = paths] run
    unfolding loop axum.served_def axum.settled_def by (auto simp: list_all_iff)
qed

text \<open>
  Registering any list of listings calls \<open>Router::route\<close> only for requests (path and method)
  that axum takes: paths that parse, no two different ones that conflict, no method of a path
  twice. Every listing that is not excluded has each of its methods routed, or it could not be:
  there was no filter for it, its path does not parse, or it conflicts with a path that is routed.
\<close>

theorem halyard_routes_correct:
  "case halyard_routes_with_context method_filter paths of (router, reg, log) \<Rightarrow>
     registry_ok reg
   \<and> (\<exists>calls. distinct calls \<and> set calls = routed_by reg \<and> map rc_path router = map fst calls)
   \<and> list_all (\<lambda>l. al_exclude l \<or> list_all (\<lambda>m. (al_path l, served_method l m) \<in> routed_by reg
        \<or> route_refusable method_filter (al_path l) (served_method l m) reg) (al_methods l)) paths"
  by (rule halyard_routes_settled)

end
