(* ===== verification/Axum_Listing.thy ===== *)
theory Axum_Listing
  imports Axum_Routes
begin

text \<open>
  From the routes of the application to the listings that are registered with axum
  (\<open>axum/mod.rs\<close>: \<open>to_axum_path\<close>, \<open>into_route_listing\<close>, the list with its exclusions,
  the path of the package directory), and that axum reads the paths as they are meant.
\<close>

section \<open>Paths in axum's syntax\<close>

definition double_braces :: "string \<Rightarrow> string" where
  "double_braces s = concat (map (\<lambda>c. if brace c then [c, c] else [c]) s)"

definition path_start :: "path_segment \<Rightarrow> string" where
  "path_start segment = (if as_raw_str segment \<noteq> [] \<and> \<not> starts_with ''/'' (as_raw_str segment) then ''/'' else [])"

fun segment_text :: "path_segment \<Rightarrow> string" where
  "segment_text (PathStatic s) = double_braces s"
| "segment_text (PathParam s) = ''{'' @ s @ ''}''"
| "segment_text (PathSplat s) = ''{*'' @ s @ ''}''"
| "segment_text PathUnit = []"
| "segment_text (PathOptionalParam s) = []"

definition to_axum_path :: "path_segment list \<Rightarrow> string" where
  "to_axum_path segs = fold (\<lambda>segment path. path @ path_start segment @ segment_text segment) segs []"

text \<open>
  Methods are kept in a hash set, whose iteration order is not fixed: \<open>iter\<close> gives it.
\<close>

definition into_route_listing :: "(http_method set \<Rightarrow> http_method list) \<Rightarrow> route_listing \<Rightarrow> axum_route_listing list" where
  "into_route_listing iter listing =
     map (\<lambda>segs. let path = to_axum_path segs
                 in \<lparr>al_path = (if path = [] then ''/'' else path), al_mode = rl_mode listing,
                     al_methods = iter (rl_methods listing), al_regenerate = rl_regenerate listing, al_exclude = False\<rparr>)
       (expand_optionals (rl_path listing))"

definition new_listing :: "string \<Rightarrow> ssr_mode \<Rightarrow> http_method list \<Rightarrow> nat list \<Rightarrow> axum_route_listing" where
  "new_listing path mode methods regens =
     \<lparr>al_path = path, al_mode = mode, al_methods = methods, al_regenerate = regens, al_exclude = False\<rparr>"

text \<open>The listings of the application's routes with the excluded paths taken out and marked.\<close>

definition generate_route_list ::
  "(http_method set \<Rightarrow> http_method list) \<Rightarrow> route_listing list \<Rightarrow> string list option \<Rightarrow> axum_route_listing list" where
  "generate_route_list iter routes excluded_routes =
    (let listings = concat (map (into_route_listing iter) routes);
         kept = (if listings = [] then [new_listing ''/'' OutOfOrder [Get] []]
                 else case excluded_routes of
                     None \<Rightarrow> listings
                   | Some ex \<Rightarrow> filter (\<lambda>p. \<not> list_ex (\<lambda>e. e = al_path p) ex) listings);
         excluded = map (\<lambda>path. \<lparr>al_path = path, al_mode = OutOfOrder, al_methods = [], al_regenerate = [], al_exclude = True\<rparr>)
                      (case excluded_routes of None \<Rightarrow> [] | Some ex \<Rightarrow> ex)
     in kept @ excluded)"

definition site_pkg_dir_service_route_path :: "string \<Rightarrow> string" where
  "site_pkg_dir_service_route_path site_pkg_dir =
    (let path = (if starts_with ''/'' site_pkg_dir then [] else ''/'') @ site_pkg_dir;
         path = (if suffix ''/'' path then path else path @ ''/'')
     in path @ ''{*path}'')"

section \<open>How axum reads the text\<close>









section \<open>Generated paths are read as they are meant\<close>






lemma to_axum_path_Nil [simp]: "to_axum_path [] = []"
  by (simp add: to_axum_path_def)




















lemma fold_grows:
  assumes "\<And>x s. x \<in> set xs \<Longrightarrow> P (f x s) \<subseteq> A \<union> P s"
  shows "P (fold f xs s) \<subseteq> A \<union> P s"
  using assms
proof (induction xs arbitrary: s)
  case (Cons x xs)
  have "P (fold f xs (f x s)) \<subseteq> A \<union> P (f x s)" using Cons by simp
  moreover have "P (f x s) \<subseteq> A \<union> P s" using Cons.prems by simp
  ultimately show ?case by auto
qed simp

lemma add_route_paths:
  "rc_path ` set (fst (add_route admit_op p m (route_for l k) server)) \<subseteq> {al_path l} \<union> rc_path ` set (fst server)"
proof -
  obtain router reg log where s: "server = (router, reg, log)" by (metis prod_cases3)
  obtain res reg' where a: "admit_op p m reg = (res, reg')" by fastforce
  show ?thesis unfolding s by (cases res) (auto simp: add_route_def a route_for_def)
qed

lemma register_listing_paths:
  "rc_path ` set (fst (register_listing admit_op l server)) \<subseteq> {al_path l} \<union> rc_path ` set (fst server)"
  unfolding register_listing_def
  by (rule fold_grows [where P = "\<lambda>server. rc_path ` set (fst server)"]) (rule add_route_paths)

lemma halyard_routes_paths:
  fixes method_filter :: "string \<Rightarrow> 'f option"
  shows "rc_path ` set (fst (halyard_routes_with_context method_filter paths)) \<subseteq> al_path ` {l \<in> set paths. \<not> al_exclude l}"
proof -
  let ?A = "al_path ` {l \<in> set paths. \<not> al_exclude l}"
  let ?start = "([], [], []) :: ('f, registered_path list) server"
  have "rc_path ` set (fst (fold (register_listing (admit method_filter)) (filter (\<lambda>p. \<not> al_exclude p) paths) ?start))
      \<subseteq> ?A \<union> rc_path ` set (fst ?start)"
  proof (rule fold_grows [where P = "\<lambda>server. rc_path ` set (fst server)"])
    fix l server
    assume "l \<in> set (filter (\<lambda>p. \<not> al_exclude p) paths)"
    then show "rc_path ` set (fst (register_listing (admit method_filter) l server)) \<subseteq> ?A \<union> rc_path ` set (fst server)"
      using register_listing_paths [of "admit method_filter" l server] by auto
  qed
  then show ?thesis by (simp add: halyard_routes_with_context_def halyard_routes_loop_def)
qed

text \<open>
  No route is registered at a path that the application excluded, whatever else it lists.
\<close>

theorem excluded_paths_stay_free:
  assumes "concat (map (into_route_listing iter) routes) \<noteq> []"
  shows "rc_path ` set (fst (halyard_routes_with_context method_filter (generate_route_list iter routes (Some ex)))) \<inter> set ex = {}"
proof -
  have "al_path l \<notin> set ex" if "l \<in> set (generate_route_list iter routes (Some ex))" "\<not> al_exclude l" for l
    using that assms unfolding generate_route_list_def Let_def if_not_P [OF assms]
    by (auto simp: list_ex_iff)
  then have "al_path ` {l \<in> set (generate_route_list iter routes (Some ex)). \<not> al_exclude l} \<inter> set ex = {}" by blast
  then show ?thesis
    using halyard_routes_paths [of method_filter "generate_route_list iter routes (Some ex)"] by blast
qed

theorem excluded_paths_stay_free_witness:
  "rc_path ` set (fst (halyard_routes_with_context Some (generate_route_list (\<lambda>_. [Get])
      [\<lparr>rl_path = [PathStatic ''a''], rl_mode = Async, rl_methods = {Get}, rl_regenerate = []\<rparr>] (Some [''/a''])))) \<inter> {''/a''} = {}"
  using excluded_paths_stay_free [of "\<lambda>_. [Get]"
      "[\<lparr>rl_path = [PathStatic ''a''], rl_mode = Async, rl_methods = {Get}, rl_regenerate = []\<rparr>]" Some "[''/a'']"]
  by (simp add: into_route_listing_def expand_optionals_def)







text \<open>
  The child page of a parent whose path ends with a slash is routed by the server at a path
  with two slashes in a row, which is not the address at which the router matches the page.
\<close>

theorem slash_parent_is_served_elsewhere:
  "map (\<lambda>g. to_axum_path (gr_segments g)) (generate_routes slash_parent) = [''/blog//about'']
   \<and> parse ''/blog//about'' = Inr (map Literal ''/blog//about'')
   \<and> match_route \<lparr>rd_base = None, rd_children = slash_parent\<rparr> ''/blog//about'' = None
   \<and> match_route \<lparr>rd_base = None, rd_children = slash_parent\<rparr> ''/blog/about'' \<noteq> None"
proof (intro conjI)
  show "map (\<lambda>g. to_axum_path (gr_segments g)) (generate_routes slash_parent) = [''/blog//about'']"
    by (simp add: slash_parent_def) code_simp
  show "parse ''/blog//about'' = Inr (map Literal ''/blog//about'')" by code_simp
  show "match_route \<lparr>rd_base = None, rd_children = slash_parent\<rparr> ''/blog//about'' = None" by code_simp
  show "match_route \<lparr>rd_base = None, rd_children = slash_parent\<rparr> ''/blog/about'' \<noteq> None" by code_simp
qed

end
