(* ===== verification/Reactive_Graph.thy ===== *)
theory Reactive_Graph
  imports Prelude
begin

text \<open>
  The reactive graph of \<open>halyard_reactive_graph\<close>: signals, memos and effects as nodes with their
  sources and subscribers (\<open>graph/\<close>, \<open>signal/subscriber_traits.rs\<close>), marking
  (\<open>mark_dirty\<close>, \<open>mark_check\<close>), lazy recomputation of memos (\<open>computed/inner.rs\<close>,
  \<open>computed/arc_memo.rs\<close>) and the task of an effect (\<open>effect/\<close>), on one thread.

  A node is its address, a number. The state of all nodes is one record of functions from
  addresses: the fields of the node's struct in the source. The function of a memo or of an
  effect is a computation that reads nodes one after the other and ends with a result. Recursion
  from node to node has no bound in the source: the model runs it with fuel and gives \<open>None\<close>
  when the fuel is used up, and that enough fuel gives a result is part of what is proved.
\<close>

section \<open>Nodes\<close>

datatype node_kind = Gone | Signal | Memo | Effect

datatype node_state = Clean | Check | Dirty

text \<open>
  \<open>g_state\<close> is the state of a memo; \<open>g_dirty\<close> and \<open>g_set\<close> are the flag of an effect and the flag
  of its channel (it will be polled), \<open>g_first\<close> that it never ran.
\<close>

record 'v graph =
  g_kind :: "nat \<Rightarrow> node_kind"
  g_value :: "nat \<Rightarrow> 'v option"
  g_state :: "nat \<Rightarrow> node_state"
  g_dirty :: "nat \<Rightarrow> bool"
  g_set :: "nat \<Rightarrow> bool"
  g_first :: "nat \<Rightarrow> bool"
  g_sources :: "nat \<Rightarrow> nat list"
  g_subs :: "nat \<Rightarrow> nat list"

text \<open>
  Computations: end with a result, or read a node (tracked or not) and go on with its value;
  there is no value to read from a node that is gone or that has none yet.
\<close>

datatype ('v, 'r) comp = Done 'r | Read bool nat "'v option \<Rightarrow> ('v, 'r) comp"

primrec comp_map :: "('r \<Rightarrow> 'q) \<Rightarrow> ('v, 'r) comp \<Rightarrow> ('v, 'q) comp" where
  "comp_map h (Done r) = Done (h r)"
| "comp_map h (Read t n k) = Read t n (\<lambda>x. comp_map h (k x))"

section \<open>Sets of sources and subscribers\<close>

text \<open>\<open>IndexSet\<close>: insertion keeps the order of first insertion, \<open>shift_remove\<close> that of the others.\<close>

definition idx_insert :: "nat \<Rightarrow> nat list \<Rightarrow> nat list" where
  "idx_insert x xs = (if x \<in> set xs then xs else xs @ [x])"

definition is_source :: "'v graph \<Rightarrow> nat \<Rightarrow> bool" where
  "is_source g n \<longleftrightarrow> g_kind g n = Signal \<or> g_kind g n = Memo"

definition is_subscriber :: "'v graph \<Rightarrow> nat \<Rightarrow> bool" where
  "is_subscriber g n \<longleftrightarrow> g_kind g n = Memo \<or> g_kind g n = Effect"

text \<open>A memo does not subscribe to itself.\<close>

definition add_subscriber :: "nat \<Rightarrow> nat \<Rightarrow> 'v graph \<Rightarrow> 'v graph" where
  "add_subscriber n sub g =
    (if is_source g n \<and> \<not> (g_kind g n = Memo \<and> sub = n)
     then g\<lparr>g_subs := (g_subs g)(n := idx_insert sub (g_subs g n))\<rparr> else g)"

definition add_source :: "nat \<Rightarrow> nat \<Rightarrow> 'v graph \<Rightarrow> 'v graph" where
  "add_source sub n g =
    (if is_subscriber g sub \<and> \<not> (g_kind g sub = Memo \<and> n = sub)
     then g\<lparr>g_sources := (g_sources g)(sub := idx_insert n (g_sources g sub))\<rparr> else g)"

definition remove_subscriber :: "nat \<Rightarrow> nat \<Rightarrow> 'v graph \<Rightarrow> 'v graph" where
  "remove_subscriber sub n g =
    (if is_source g n then g\<lparr>g_subs := (g_subs g)(n := remove1 sub (g_subs g n))\<rparr> else g)"

definition clear_sources :: "nat \<Rightarrow> 'v graph \<Rightarrow> 'v graph" where
  "clear_sources sub g =
     fold (remove_subscriber sub) (g_sources g sub) (g\<lparr>g_sources := (g_sources g)(sub := [])\<rparr>)"

text \<open>\<open>Track::track\<close> with the observer, if there is one.\<close>

definition track :: "nat option \<Rightarrow> nat \<Rightarrow> 'v graph \<Rightarrow> 'v graph" where
  "track obs n g =
    (if is_source g n
     then (case obs of None \<Rightarrow> g | Some sub \<Rightarrow> add_subscriber n sub (add_source sub n g))
     else g)"

section \<open>Marking\<close>

text \<open>The channel of an effect: a flag that \<open>Sender::notify\<close> sets and the task's \<open>Receiver\<close> takes.\<close>

definition sender_notify :: "nat \<Rightarrow> 'v graph \<Rightarrow> 'v graph" where
  [simp]: "sender_notify n g = g\<lparr>g_set := (g_set g)(n := True)\<rparr>"

definition receiver_poll :: "nat \<Rightarrow> 'v graph \<Rightarrow> bool \<times> 'v graph" where
  [simp]: "receiver_poll n g = (g_set g n, g\<lparr>g_set := (g_set g)(n := False)\<rparr>)"

definition effect_mark_check :: "nat \<Rightarrow> 'v graph \<Rightarrow> 'v graph" where
  [simp]: "effect_mark_check n g = sender_notify n g"

definition effect_mark_dirty :: "nat \<Rightarrow> 'v graph \<Rightarrow> 'v graph" where
  [simp]: "effect_mark_dirty n g = sender_notify n (g\<lparr>g_dirty := (g_dirty g)(n := True)\<rparr>)"

fun mark_check :: "nat \<Rightarrow> nat \<Rightarrow> 'v graph \<Rightarrow> 'v graph option" where
  "mark_check 0 n g = None"
| "mark_check (Suc fuel) n g =
    (case g_kind g n of
       Memo \<Rightarrow>
         fold_opt (mark_check fuel) (g_subs g n)
           (g\<lparr>g_state := (g_state g)(n := if g_state g n \<noteq> Dirty then Check else Dirty)\<rparr>)
     | Effect \<Rightarrow> Some (effect_mark_check n g)
     | _ \<Rightarrow> Some g)"

definition mark_dirty :: "nat \<Rightarrow> nat \<Rightarrow> 'v graph \<Rightarrow> 'v graph option" where
  "mark_dirty fuel n g =
    (case g_kind g n of
       Memo \<Rightarrow> fold_opt (mark_check fuel) (g_subs g n) (g\<lparr>g_state := (g_state g)(n := Dirty)\<rparr>)
     | Effect \<Rightarrow> Some (effect_mark_dirty n g)
     | _ \<Rightarrow> Some g)"

text \<open>A signal notifies its subscribers of a change.\<close>

definition notify :: "nat \<Rightarrow> nat \<Rightarrow> 'v graph \<Rightarrow> 'v graph option" where
  "notify fuel n g = fold_opt (mark_dirty fuel) (g_subs g n) g"

section \<open>Reading and updating\<close>

text \<open>
  \<open>update_fn\<close> updates a node; the observer and the nodes that are being computed are fixed in it.
\<close>

definition read_node ::
  "(nat \<Rightarrow> 'v graph \<Rightarrow> (bool \<times> 'v graph) option) \<Rightarrow> nat option \<Rightarrow> nat set \<Rightarrow> bool \<Rightarrow> nat \<Rightarrow> 'v graph
    \<Rightarrow> ('v option \<times> 'v graph) option" where
  "read_node update_fn obs computing tracked n g =
    (let g1 = (if tracked then track obs n g else g)
     in case g_kind g n of
         Signal \<Rightarrow> Some (g_value g1 n, g1)
       | Memo \<Rightarrow>
           if n \<in> computing then Some (g_value g1 n, g1)
           else Option.bind (update_fn n g1) (\<lambda>(_, g2). Some (g_value g2 n, g2))
       | _ \<Rightarrow> Some (None, g1))"

primrec run_comp ::
  "(bool \<Rightarrow> nat \<Rightarrow> 'v graph \<Rightarrow> ('v option \<times> 'v graph) option) \<Rightarrow> ('v, 'r) comp \<Rightarrow> 'v graph \<Rightarrow> ('r \<times> 'v graph) option" where
  "run_comp read_fn (Done r) g = Some (r, g)"
| "run_comp read_fn (Read t n k) g = Option.bind (read_fn t n g) (\<lambda>(x, g'). run_comp read_fn (k x) g')"

fun check_sources ::
  "(nat \<Rightarrow> 'v graph \<Rightarrow> (bool \<times> 'v graph) option) \<Rightarrow> nat \<Rightarrow> nat list \<Rightarrow> 'v graph \<Rightarrow> (bool \<times> 'v graph) option" where
  "check_sources update_fn n [] g = Some (False, g)"
| "check_sources update_fn n (s # ss) g =
    Option.bind (update_fn s g) (\<lambda>(changed, g').
      if changed \<or> g_state g' n = Dirty then Some (True, g') else check_sources update_fn n ss g')"

definition needs_update ::
  "(nat \<Rightarrow> 'v graph \<Rightarrow> (bool \<times> 'v graph) option) \<Rightarrow> nat \<Rightarrow> 'v graph \<Rightarrow> (bool \<times> 'v graph) option" where
  "needs_update update_fn n g =
    (case g_state g n of
       Clean \<Rightarrow> Some (False, g)
     | Dirty \<Rightarrow> Some (True, g)
     | Check \<Rightarrow> check_sources update_fn n (g_sources g n) g)"

fun any_source ::
  "(nat \<Rightarrow> 'v graph \<Rightarrow> (bool \<times> 'v graph) option) \<Rightarrow> nat list \<Rightarrow> 'v graph \<Rightarrow> (bool \<times> 'v graph) option" where
  "any_source update_fn [] g = Some (False, g)"
| "any_source update_fn (s # ss) g =
    Option.bind (update_fn s g) (\<lambda>(changed, g'). if changed then Some (True, g') else any_source update_fn ss g')"

definition effect_update ::
  "(nat \<Rightarrow> 'v graph \<Rightarrow> (bool \<times> 'v graph) option) \<Rightarrow> nat \<Rightarrow> 'v graph \<Rightarrow> (bool \<times> 'v graph) option" where
  [simp]: "effect_update update_fn n g =
    (if g_dirty g n then Some (True, g\<lparr>g_dirty := (g_dirty g)(n := False)\<rparr>)
     else any_source update_fn (g_sources g n) g)"

text \<open>The functions of the memos: the previous value to the new value and whether it changed.\<close>

type_synonym 'v memo_fn = "'v option \<Rightarrow> ('v, 'v option \<times> bool) comp"

text \<open>The end of a recomputation: the new value, and the subscribers but the observer are marked.\<close>

definition finish_update ::
  "nat \<Rightarrow> nat option \<Rightarrow> nat \<Rightarrow> 'v option \<Rightarrow> bool \<Rightarrow> 'v graph \<Rightarrow> (bool \<times> 'v graph) option" where
  "finish_update mark_fuel obs n v changed g =
    (let g' = g\<lparr>g_value := (g_value g)(n := v), g_state := (g_state g)(n := Clean)\<rparr>
     in if changed
        then map_option (Pair True)
               (fold_opt (\<lambda>sub g. if obs = Some sub then Some g else mark_dirty mark_fuel sub g) (g_subs g n) g')
        else Some (False, g'))"

text \<open>
  \<open>update_if_necessary\<close>: \<open>owning n\<close> says that the memo's function takes its previous value away
  while it runs.
\<close>

primrec update_if_necessary ::
  "nat \<Rightarrow> (nat \<Rightarrow> 'v memo_fn) \<Rightarrow> (nat \<Rightarrow> bool) \<Rightarrow> nat \<Rightarrow> nat option \<Rightarrow> nat set \<Rightarrow> nat \<Rightarrow> 'v graph
    \<Rightarrow> (bool \<times> 'v graph) option" where
  "update_if_necessary mark_fuel fns owning 0 obs computing n g = None"
| "update_if_necessary mark_fuel fns owning (Suc fuel) obs computing n g =
    (case g_kind g n of
       Memo \<Rightarrow>
         Option.bind (needs_update (update_if_necessary mark_fuel fns owning fuel obs computing) n g) (\<lambda>(needs, g).
           if \<not> needs then Some (False, g\<lparr>g_state := (g_state g)(n := Clean)\<rparr>)
           else if n \<in> computing then Some (False, g)
           else
             (let previous = g_value g n;
                  g = (if owning n then g\<lparr>g_value := (g_value g)(n := None)\<rparr> else g);
                  g = clear_sources n g
              in Option.bind
                   (run_comp
                     (read_node (update_if_necessary mark_fuel fns owning fuel (Some n) (insert n computing))
                       (Some n) (insert n computing))
                     (fns n previous) g)
                   (\<lambda>((v, changed), g). finish_update mark_fuel obs n v changed g)))
     | Effect \<Rightarrow>
         effect_update (update_if_necessary mark_fuel fns owning fuel obs computing) n g
     | _ \<Rightarrow> Some (False, g))"

text \<open>\<open>ArcMemo::new\<close> with a function that does not look at the previous value.\<close>

definition memo_new :: "(nat \<Rightarrow> ('v, 'v) comp) \<Rightarrow> nat \<Rightarrow> 'v memo_fn" where
  "memo_new f n previous = comp_map (\<lambda>v. (Some v, previous \<noteq> Some v)) (f n)"

text \<open>A read of a node from outside of any computation.\<close>

definition read_untracked ::
  "nat \<Rightarrow> (nat \<Rightarrow> 'v memo_fn) \<Rightarrow> (nat \<Rightarrow> bool) \<Rightarrow> nat \<Rightarrow> nat \<Rightarrow> 'v graph \<Rightarrow> ('v option \<times> 'v graph) option" where
  "read_untracked mark_fuel fns owning fuel n g =
     read_node (update_if_necessary mark_fuel fns owning fuel None {}) None {} False n g"

text \<open>\<open>Set::set\<close> on a signal: the value is swapped in, then the subscribers are notified.\<close>

definition set_signal :: "nat \<Rightarrow> nat \<Rightarrow> 'v \<Rightarrow> 'v graph \<Rightarrow> 'v graph option" where
  "set_signal mark_fuel n v g =
    (if g_kind g n = Signal then notify mark_fuel n (g\<lparr>g_value := (g_value g)(n := Some v)\<rparr>) else Some g)"

section \<open>The task of an effect\<close>

text \<open>
  One round of the loop over the channel: the flag is taken, the effect's sources are updated
  with the effect as observer, and if one changed (or it never ran) the function runs again.
\<close>

definition poll_effect ::
  "nat \<Rightarrow> (nat \<Rightarrow> 'v memo_fn) \<Rightarrow> (nat \<Rightarrow> bool) \<Rightarrow> (nat \<Rightarrow> 'v option \<Rightarrow> ('v, 'v) comp) \<Rightarrow> nat \<Rightarrow> nat \<Rightarrow> 'v graph
    \<Rightarrow> 'v graph option" where
  "poll_effect mark_fuel fns owning effects fuel n g =
    (if g_kind g n = Effect \<and> fst (receiver_poll n g)
     then
       Option.bind (update_if_necessary mark_fuel fns owning fuel (Some n) {} n (snd (receiver_poll n g)))
         (\<lambda>(changed, g).
           if changed \<or> g_first g n
           then
             (let old = g_value g n;
                  g = clear_sources n (g\<lparr>g_first := (g_first g)(n := False)\<rparr>);
                  g = g\<lparr>g_value := (g_value g)(n := None)\<rparr>
              in Option.bind
                   (run_comp (read_node (update_if_necessary mark_fuel fns owning fuel (Some n) {}) (Some n) {})
                     (effects n old) g)
                   (\<lambda>(v, g). Some (g\<lparr>g_value := (g_value g)(n := Some v)\<rparr>)))
           else Some g)
     else Some g)"

section \<open>New nodes\<close>

definition no_graph :: "'v graph" where
  "no_graph = \<lparr>g_kind = (\<lambda>_. Gone), g_value = (\<lambda>_. None), g_state = (\<lambda>_. Clean), g_dirty = (\<lambda>_. False),
     g_set = (\<lambda>_. False), g_first = (\<lambda>_. False), g_sources = (\<lambda>_. []), g_subs = (\<lambda>_. [])\<rparr>"

definition new_signal :: "nat \<Rightarrow> 'v \<Rightarrow> 'v graph \<Rightarrow> 'v graph" where
  "new_signal n v g = g\<lparr>g_kind := (g_kind g)(n := Signal), g_value := (g_value g)(n := Some v)\<rparr>"

definition new_memo :: "nat \<Rightarrow> 'v graph \<Rightarrow> 'v graph" where
  "new_memo n g = g\<lparr>g_kind := (g_kind g)(n := Memo), g_state := (g_state g)(n := Dirty)\<rparr>"

definition new_effect :: "nat \<Rightarrow> 'v graph \<Rightarrow> 'v graph" where
  "new_effect n g = g\<lparr>g_kind := (g_kind g)(n := Effect), g_dirty := (g_dirty g)(n := True),
     g_set := (g_set g)(n := True), g_first := (g_first g)(n := True)\<rparr>"

end
