(* ===== verification/Reactive_Marks.thy ===== *)
theory Reactive_Marks
  imports Reactive_Graph
begin

text \<open>
  What marking does to a graph: it only raises states and sets flags, stays within what is
  reachable, ends on graphs without cycles, and leaves no clean node after a marked one.
\<close>

instantiation node_state :: linorder
begin
definition less_eq_node_state :: "node_state \<Rightarrow> node_state \<Rightarrow> bool" where
  "less_eq_node_state a b \<longleftrightarrow> a = Clean \<or> a = b \<or> b = Dirty"
definition less_node_state :: "node_state \<Rightarrow> node_state \<Rightarrow> bool" where
  "less_node_state a b \<longleftrightarrow> a \<le> b \<and> a \<noteq> (b :: node_state)"
instance
proof
  fix a b c :: node_state
  show "a < b \<longleftrightarrow> a \<le> b \<and> \<not> b \<le> a"
    by (cases a; cases b) (auto simp: less_node_state_def less_eq_node_state_def)
  show "a \<le> b \<Longrightarrow> b \<le> c \<Longrightarrow> a \<le> c" by (cases a; cases b; cases c) (auto simp: less_eq_node_state_def)
  show "a \<le> b \<Longrightarrow> b \<le> a \<Longrightarrow> a = b" by (cases a; cases b) (auto simp: less_eq_node_state_def)
  show "a \<le> b \<or> b \<le> a" by (cases a; cases b) (auto simp: less_eq_node_state_def)
qed (simp add: less_eq_node_state_def)
end

lemma node_state_simps [simp]:
  "Clean \<le> a" "a \<le> Dirty" "a \<le> Clean \<longleftrightarrow> a = Clean" "Dirty \<le> a \<longleftrightarrow> a = Dirty"
  by (cases a; simp add: less_eq_node_state_def)+

text \<open>The state of a subscriber of either kind.\<close>

definition nst :: "'v graph \<Rightarrow> nat \<Rightarrow> node_state" where
  "nst g n = (case g_kind g n of
      Memo \<Rightarrow> g_state g n
    | Effect \<Rightarrow> if g_dirty g n then Dirty else if g_set g n then Check else Clean
    | _ \<Rightarrow> Clean)"

lemma nst_update [simp]:
  "nst (g\<lparr>g_sources := a\<rparr>) = nst g" "nst (g\<lparr>g_subs := a\<rparr>) = nst g" "nst (g\<lparr>g_value := v\<rparr>) = nst g"
  "nst (g\<lparr>g_first := b\<rparr>) = nst g"
  by (auto simp: nst_def fun_eq_iff split: node_kind.splits)

lemma nst_state [simp]: "nst (g\<lparr>g_state := (g_state g)(n := s)\<rparr>) m = (if m = n \<and> g_kind g n = Memo then s else nst g m)"
  by (auto simp: nst_def split: node_kind.splits)

lemma is_source_update [simp]:
  "is_source (g\<lparr>g_sources := a\<rparr>) = is_source g" "is_source (g\<lparr>g_subs := a\<rparr>) = is_source g"
  "is_source (g\<lparr>g_value := v\<rparr>) = is_source g" "is_source (g\<lparr>g_first := b\<rparr>) = is_source g"
  "is_source (g\<lparr>g_state := c\<rparr>) = is_source g" "is_source (g\<lparr>g_dirty := b\<rparr>) = is_source g" "is_source (g\<lparr>g_set := b\<rparr>) = is_source g"
  by (auto simp: is_source_def fun_eq_iff)

lemma is_subscriber_update [simp]:
  "is_subscriber (g\<lparr>g_sources := a\<rparr>) = is_subscriber g" "is_subscriber (g\<lparr>g_subs := a\<rparr>) = is_subscriber g"
  "is_subscriber (g\<lparr>g_value := v\<rparr>) = is_subscriber g" "is_subscriber (g\<lparr>g_first := b\<rparr>) = is_subscriber g"
  "is_subscriber (g\<lparr>g_state := c\<rparr>) = is_subscriber g" "is_subscriber (g\<lparr>g_dirty := b\<rparr>) = is_subscriber g"
  "is_subscriber (g\<lparr>g_set := b\<rparr>) = is_subscriber g"
  by (auto simp: is_subscriber_def fun_eq_iff)

text \<open>Edges go from a source to a subscriber that was made later.\<close>

definition edges_up :: "nat \<Rightarrow> 'v graph \<Rightarrow> bool" where
  "edges_up N g \<longleftrightarrow>
    (\<forall>y z. z \<in> set (g_subs g y) \<longrightarrow> is_source g y \<and> is_subscriber g z \<and> y < z \<and> z < N)"

definition closed_under_subs :: "nat set \<Rightarrow> 'v graph \<Rightarrow> bool" where
  "closed_under_subs W g \<longleftrightarrow> (\<forall>y \<in> W. set (g_subs g y) \<subseteq> W)"

definition same_nodes :: "'v graph \<Rightarrow> 'v graph \<Rightarrow> bool" where
  "same_nodes g g' \<longleftrightarrow> g_kind g' = g_kind g \<and> g_value g' = g_value g \<and> g_sources g' = g_sources g
     \<and> g_subs g' = g_subs g \<and> g_first g' = g_first g"

text \<open>Only states and flags within \<open>W\<close> change, and only upwards; a dirty effect is notified.\<close>

definition raised :: "nat set \<Rightarrow> 'v graph \<Rightarrow> 'v graph \<Rightarrow> bool" where
  "raised W g g' \<longleftrightarrow> same_nodes g g'
     \<and> (\<forall>n. g_state g n \<le> g_state g' n \<and> (g_dirty g n \<longrightarrow> g_dirty g' n) \<and> (g_set g n \<longrightarrow> g_set g' n))
     \<and> (\<forall>n. n \<notin> W \<longrightarrow> g_state g' n = g_state g n \<and> g_dirty g' n = g_dirty g n \<and> g_set g' n = g_set g n)
     \<and> (\<forall>n. (g_dirty g n \<longrightarrow> g_set g n) \<longrightarrow> g_dirty g' n \<longrightarrow> g_set g' n)"

definition spreads :: "'v graph \<Rightarrow> 'v graph \<Rightarrow> bool" where
  "spreads g g' \<longleftrightarrow>
    (\<forall>y z. z \<in> set (g_subs g y) \<longrightarrow> nst g y = Clean \<longrightarrow> nst g' y \<noteq> Clean \<longrightarrow> nst g' z \<noteq> Clean)"

definition marks :: "nat set \<Rightarrow> 'v graph \<Rightarrow> 'v graph \<Rightarrow> bool" where
  "marks W g g' \<longleftrightarrow> raised W g g' \<and> spreads g g'"

lemma raised_refl [simp]: "raised W g g"
  by (simp add: raised_def same_nodes_def)

lemma raised_trans: "raised W g g' \<Longrightarrow> raised W g' g'' \<Longrightarrow> raised W g g''"
  unfolding raised_def same_nodes_def by (auto intro: order_trans)

lemma raised_nst: "raised W g g' \<Longrightarrow> nst g n \<le> nst g' n"
  unfolding raised_def same_nodes_def nst_def
  by (cases "g_kind g n") (auto simp: less_eq_node_state_def split: if_splits)

lemma raised_outside: "raised W g g' \<Longrightarrow> n \<notin> W \<Longrightarrow> nst g' n = nst g n"
  unfolding raised_def same_nodes_def nst_def by (cases "g_kind g n") auto

lemma raised_not_clean: "raised W g g' \<Longrightarrow> nst g n \<noteq> Clean \<Longrightarrow> nst g' n \<noteq> Clean"
  using raised_nst [of W g g' n] by auto

lemma raised_same: "raised W g g' \<Longrightarrow> same_nodes g g'"
  by (simp add: raised_def)

lemma marks_refl [simp]: "marks W g g"
  by (simp add: marks_def spreads_def)

lemma marks_trans:
  assumes "marks W g g'" and "marks W g' g''"
  shows "marks W g g''"
proof -
  have r: "raised W g g'" "raised W g' g''" using assms by (auto simp: marks_def)
  have "nst g'' z \<noteq> Clean" if "z \<in> set (g_subs g y)" "nst g y = Clean" "nst g'' y \<noteq> Clean" for y z
  proof (cases "nst g' y = Clean")
    case True
    then show ?thesis using assms(2) that r(1) by (auto simp: marks_def spreads_def raised_def same_nodes_def)
  next
    case False
    then have "nst g' z \<noteq> Clean" using assms(1) that by (auto simp: marks_def spreads_def)
    then show ?thesis using raised_not_clean [OF r(2)] by blast
  qed
  then show ?thesis using raised_trans [OF r] by (auto simp: marks_def spreads_def)
qed

lemma same_nodes_facts:
  assumes "same_nodes g g'"
  shows "is_source g' n = is_source g n" "is_subscriber g' n = is_subscriber g n"
    "edges_up N g' = edges_up N g" "closed_under_subs W g' = closed_under_subs W g"
  using assms unfolding same_nodes_def is_source_def is_subscriber_def edges_up_def closed_under_subs_def by simp_all

lemma same_nodes_refl [simp]: "same_nodes g g"
  by (simp add: same_nodes_def)

lemma same_nodes_trans: "same_nodes g g' \<Longrightarrow> same_nodes g' g'' \<Longrightarrow> same_nodes g g''"
  by (simp add: same_nodes_def)

lemma marks_same: "marks W g g' \<Longrightarrow> same_nodes g g'"
  by (simp add: marks_def raised_def)

lemma marks_not_clean: "marks W g g' \<Longrightarrow> nst g n \<noteq> Clean \<Longrightarrow> nst g' n \<noteq> Clean"
  using raised_not_clean by (auto simp: marks_def)

lemma same_nodes_marks: "same_nodes g g' \<Longrightarrow> marks W g' g'' \<Longrightarrow> same_nodes g g''"
  using same_nodes_trans marks_same by blast

lemma no_subs:
  assumes "edges_up N g" and "\<not> is_source g n"
  shows "g_subs g n = []"
proof (rule ccontr)
  assume "g_subs g n \<noteq> []"
  then have "hd (g_subs g n) \<in> set (g_subs g n)" by simp
  then show False using assms unfolding edges_up_def by blast
qed

lemma fold_marks:
  assumes "\<And>x h. x \<in> set xs \<Longrightarrow> same_nodes g h \<Longrightarrow> \<exists>g'. f x h = Some g' \<and> marks W h g' \<and> nst g' x \<noteq> Clean"
  shows "\<exists>g'. fold_opt f xs g = Some g' \<and> marks W g g' \<and> (\<forall>x \<in> set xs. nst g' x \<noteq> Clean)"
proof (rule fold_opt_reaches [where I = "same_nodes g"])
  show "nst t x \<noteq> Clean" if "nst s x \<noteq> Clean" "marks W s t" for x and s t :: "'a graph"
    using that marks_not_clean by blast
qed (use assms same_nodes_marks marks_trans in \<open>simp | blast\<close>)+

text \<open>Marking one node's subscribers after the node itself.\<close>

lemma marks_after:
  assumes "raised {n} g g1" and "n \<in> W" and "marks W g1 g'" and "\<forall>z \<in> set (g_subs g n). nst g' z \<noteq> Clean"
  shows "marks W g g'"
proof -
  have "raised W g g1" using assms(1,2) by (auto simp: raised_def)
  then have r: "raised W g g'" using assms(3) raised_trans by (auto simp: marks_def)
  have "nst g' z \<noteq> Clean" if "z \<in> set (g_subs g y)" "nst g y = Clean" "nst g' y \<noteq> Clean" for y z
  proof (cases "y = n")
    case False
    then have "nst g1 y = Clean" using that(2) raised_outside [OF assms(1)] by simp
    then show ?thesis
      using assms(1,3) that(1,3) by (auto simp: marks_def spreads_def raised_def same_nodes_def)
  qed (use assms(4) that in simp)
  then show ?thesis using r by (auto simp: marks_def spreads_def)
qed

lemma marks_leaf: "raised {n} g g' \<Longrightarrow> n \<in> W \<Longrightarrow> g_subs g n = [] \<Longrightarrow> marks W g g'"
  using marks_after [of n g g' W g'] by simp

lemma mark_check_marks:
  assumes "edges_up N g" and "closed_under_subs W g" and "n \<in> W" and "is_subscriber g n" and "n < N" and "N \<le> fuel + n"
  shows "\<exists>g'. mark_check fuel n g = Some g' \<and> marks W g g' \<and> nst g' n \<noteq> Clean"
  using assms
proof (induction fuel arbitrary: n g)
  case (Suc fuel)
  note up = Suc.prems(1)
  show ?case
  proof (cases "g_kind g n = Memo")
    case True
    let ?g1 = "g\<lparr>g_state := (g_state g)(n := if g_state g n \<noteq> Dirty then Check else Dirty)\<rparr>"
    have r1: "raised {n} g ?g1"
      by (cases "g_state g n") (auto simp: raised_def same_nodes_def less_eq_node_state_def)
    have "\<exists>g'. mark_check fuel z h = Some g' \<and> marks W h g' \<and> nst g' z \<noteq> Clean"
      if z: "z \<in> set (g_subs g n)" and h: "same_nodes ?g1 h" for z h
    proof (rule Suc.IH)
      have "same_nodes g h" using r1 h same_nodes_trans raised_same by blast
      then show "edges_up N h" "closed_under_subs W h" "is_subscriber h z"
        using up Suc.prems(2) z same_nodes_facts [of g h] by (auto simp: edges_up_def)
      have "n < z" "z < N" using up z by (auto simp: edges_up_def)
      then show "N \<le> fuel + z" "z < N" using Suc.prems(6) by auto
      show "z \<in> W" using Suc.prems(2,3) z by (auto simp: closed_under_subs_def)
    qed
    then obtain g' where g': "fold_opt (mark_check fuel) (g_subs g n) ?g1 = Some g'" "marks W ?g1 g'"
        "\<forall>z \<in> set (g_subs g n). nst g' z \<noteq> Clean"
      using fold_marks [of "g_subs g n" ?g1 "mark_check fuel" W] by blast
    have "nst ?g1 n \<noteq> Clean" using True by (simp add: nst_def)
    then have "nst g' n \<noteq> Clean" using g'(2) marks_not_clean by blast
    then show ?thesis using True g' marks_after [OF r1 Suc.prems(3) g'(2,3)] by auto
  next
    case False
    then have "g_kind g n = Effect" using Suc.prems(4) by (simp add: is_subscriber_def)
    moreover from this have "g_subs g n = []"
      using no_subs [OF up] by (simp add: is_source_def)
    moreover have "raised {n} g (g\<lparr>g_set := (g_set g)(n := True)\<rparr>)" by (auto simp: raised_def same_nodes_def)
    ultimately show ?thesis using marks_leaf [OF _ Suc.prems(3)] by (simp add: nst_def)
  qed
qed simp

lemma mark_dirty_marks:
  assumes "edges_up N g" and "closed_under_subs W g" and "n \<in> W" and "is_subscriber g n" and "N \<le> fuel"
  shows "\<exists>g'. mark_dirty fuel n g = Some g' \<and> marks W g g' \<and> nst g' n = Dirty"
proof (cases "g_kind g n = Memo")
  case True
  let ?g1 = "g\<lparr>g_state := (g_state g)(n := Dirty)\<rparr>"
  have r1: "raised {n} g ?g1" by (auto simp: raised_def same_nodes_def)
  have "\<exists>g'. mark_check fuel z h = Some g' \<and> marks W h g' \<and> nst g' z \<noteq> Clean"
    if z: "z \<in> set (g_subs g n)" and h: "same_nodes ?g1 h" for z h
  proof (rule mark_check_marks)
    have "same_nodes g h" using r1 h same_nodes_trans raised_same by blast
    then show "edges_up N h" "closed_under_subs W h" "is_subscriber h z"
      using assms(1,2) z same_nodes_facts [of g h] by (auto simp: edges_up_def)
    show "z < N" "N \<le> fuel + z" "z \<in> W"
      using assms z by (auto simp: edges_up_def closed_under_subs_def)
  qed
  then obtain g' where g': "fold_opt (mark_check fuel) (g_subs g n) ?g1 = Some g'" "marks W ?g1 g'"
      "\<forall>z \<in> set (g_subs g n). nst g' z \<noteq> Clean"
    using fold_marks [of "g_subs g n" ?g1 "mark_check fuel" W] by blast
  have "nst ?g1 n = Dirty" using True by (simp add: nst_def)
  then have "nst g' n = Dirty" using g'(2) raised_nst [of W ?g1 g' n] by (simp add: marks_def)
  then show ?thesis using True g' marks_after [OF r1 assms(3) g'(2,3)] by (simp add: mark_dirty_def)
next
  case False
  then have "g_kind g n = Effect" using assms(4) by (simp add: is_subscriber_def)
  moreover from this have "g_subs g n = []"
    using no_subs [OF assms(1)] by (simp add: is_source_def)
  moreover have "raised {n} g (g\<lparr>g_dirty := (g_dirty g)(n := True), g_set := (g_set g)(n := True)\<rparr>)"
    by (auto simp: raised_def same_nodes_def)
  ultimately show ?thesis using marks_leaf [OF _ assms(3)] by (simp add: mark_dirty_def nst_def)
qed

text \<open>All nodes of a list, but one (the observer), are marked dirty.\<close>

lemma fold_mark_dirty:
  assumes "edges_up N g" and "closed_under_subs W g" and "set xs \<subseteq> W" and "\<forall>x \<in> set xs. is_subscriber g x" and "N \<le> fuel"
  shows "\<exists>g'. fold_opt (\<lambda>x g. if obs = Some x then Some g else mark_dirty fuel x g) xs g = Some g'
     \<and> marks W g g' \<and> (\<forall>x \<in> set xs. obs \<noteq> Some x \<longrightarrow> nst g' x = Dirty)"
proof -
  have "\<exists>g'. fold_opt (\<lambda>x g. if obs = Some x then Some g else mark_dirty fuel x g) xs g = Some g'
     \<and> marks W g g' \<and> (\<forall>x \<in> set xs. obs = Some x \<or> nst g' x = Dirty)"
  proof (rule fold_opt_reaches [where I = "same_nodes g"])
    fix x h assume x: "x \<in> set xs" and h: "same_nodes g h"
    have "\<exists>g'. mark_dirty fuel x h = Some g' \<and> marks W h g' \<and> nst g' x = Dirty"
      using x assms same_nodes_facts [OF h] by (intro mark_dirty_marks [where N = N]) auto
    then show "\<exists>g'. (if obs = Some x then Some h else mark_dirty fuel x h) = Some g' \<and> marks W h g'
        \<and> (obs = Some x \<or> nst g' x = Dirty)" by auto
  next
    show "obs = Some x \<or> nst t x = Dirty" if "obs = Some x \<or> nst s x = Dirty" "marks W s t" for x and s t :: "'a graph"
      using that raised_nst [of W s t x] by (auto simp: marks_def)
  qed (use same_nodes_marks marks_trans in \<open>simp | blast\<close>)+
  then show ?thesis by blast
qed

end
