(* ===== verification/Reactive_Inv.thy ===== *)
theory Reactive_Inv
  imports Reactive_Marks
begin

text \<open>
  When a graph is consistent: the invariant that all operations keep, and what an operation on
  one node may change in the rest of the graph.
\<close>

section \<open>What a computation means\<close>

primrec eval :: "(nat \<Rightarrow> 'v option) \<Rightarrow> ('v, 'r) comp \<Rightarrow> 'r" where
  "eval env (Done r) = r"
| "eval env (Read t n k) = eval env (k (env n))"

primrec deps :: "(nat \<Rightarrow> 'v option) \<Rightarrow> ('v, 'r) comp \<Rightarrow> nat set" where
  "deps env (Done r) = {}"
| "deps env (Read t n k) = insert n (deps env (k (env n)))"

text \<open>All reads are tracked, and of nodes made before \<open>b\<close>.\<close>

primrec reads_before :: "nat \<Rightarrow> ('v, 'r) comp \<Rightarrow> bool" where
  "reads_before b (Done r) = True"
| "reads_before b (Read t n k) = (t \<and> n < b \<and> (\<forall>x. reads_before b (k x)))"

text \<open>The reads are in the order in which the nodes were made, from \<open>b\<close> on.\<close>

primrec in_order :: "nat \<Rightarrow> ('v, 'r) comp \<Rightarrow> bool" where
  "in_order b (Done r) = True"
| "in_order b (Read t n k) = (b \<le> n \<and> (\<forall>x. in_order n (k x)))"

lemma eval_deps_cong:
  "(\<And>m. m \<in> deps env c \<Longrightarrow> env m = env' m) \<Longrightarrow> eval env c = eval env' c \<and> deps env c = deps env' c"
  by (induction c) auto

lemma deps_before: "reads_before b c \<Longrightarrow> m \<in> deps env c \<Longrightarrow> m < b"
  by (induction c) auto

section \<open>The invariant\<close>

definition val :: "'v graph \<Rightarrow> nat \<Rightarrow> 'v option" where
  "val g n = (if is_source g n then g_value g n else None)"

text \<open>The stored value is that of the function on the stored values of its sources.\<close>

definition settled :: "(nat \<Rightarrow> ('v, 'v) comp) \<Rightarrow> 'v graph \<Rightarrow> nat \<Rightarrow> bool" where
  "settled f g n \<longleftrightarrow> g_value g n = Some (eval (val g) (f n))
     \<and> set (g_sources g n) = {s \<in> deps (val g) (f n). is_source g s}"

text \<open>
  The nodes that are settled unless they are dirty: all memos, and the effects that read their
  sources in order (an effect that does not can miss a change).
\<close>

definition watched :: "(nat \<Rightarrow> ('v, 'v) comp) \<Rightarrow> 'v graph \<Rightarrow> nat \<Rightarrow> bool" where
  "watched f g n \<longleftrightarrow> g_kind g n = Memo \<or> g_kind g n = Effect \<and> in_order 0 (f n)"

lemma watched_update [simp]:
  "watched f (g\<lparr>g_sources := a\<rparr>) = watched f g" "watched f (g\<lparr>g_subs := a\<rparr>) = watched f g"
  "watched f (g\<lparr>g_value := v\<rparr>) = watched f g" "watched f (g\<lparr>g_first := b\<rparr>) = watched f g"
  "watched f (g\<lparr>g_state := c\<rparr>) = watched f g" "watched f (g\<lparr>g_dirty := b\<rparr>) = watched f g"
  "watched f (g\<lparr>g_set := b\<rparr>) = watched f g"
  by (auto simp: watched_def fun_eq_iff)

text \<open>
  Consistent but for the nodes in \<open>X\<close>, whose functions are running: edges are known at both ends;
  what is not dirty is settled; what is clean has clean sources only; a dirty effect is notified.
\<close>

definition edges_match :: "'v graph \<Rightarrow> bool" where
  "edges_match g \<longleftrightarrow> (\<forall>n s. s \<in> set (g_sources g n) \<longleftrightarrow> n \<in> set (g_subs g s))
     \<and> (\<forall>n. distinct (g_sources g n) \<and> distinct (g_subs g n))"

definition graph_inv :: "(nat \<Rightarrow> ('v, 'v) comp) \<Rightarrow> nat \<Rightarrow> nat set \<Rightarrow> 'v graph \<Rightarrow> bool" where
  "graph_inv f N X g \<longleftrightarrow> edges_up N g \<and> edges_match g
     \<and> (\<forall>n. g_kind g n \<noteq> Gone \<longrightarrow> n < N)
     \<and> (\<forall>n. watched f g n \<longrightarrow> n \<notin> X \<longrightarrow> nst g n \<noteq> Dirty \<longrightarrow> settled f g n)
     \<and> (\<forall>n s. s \<in> set (g_sources g n) \<longrightarrow> n \<notin> X \<longrightarrow> nst g n = Clean \<longrightarrow> nst g s = Clean)
     \<and> (\<forall>n \<in> X. is_subscriber g n \<and> (g_kind g n = Memo \<longrightarrow> nst g n \<noteq> Clean))
     \<and> (\<forall>n. g_dirty g n \<longrightarrow> g_set g n)
     \<and> (\<forall>n. g_kind g n = Effect \<longrightarrow> in_order 0 (f n) \<longrightarrow> n \<notin> X \<longrightarrow> sorted (g_sources g n))"

lemma invD:
  assumes "graph_inv f N X g"
  shows inv_up: "edges_up N g" and inv_match: "edges_match g"
    and inv_bound: "g_kind g n \<noteq> Gone \<Longrightarrow> n < N"
    and inv_settled: "watched f g n \<Longrightarrow> n \<notin> X \<Longrightarrow> nst g n \<noteq> Dirty \<Longrightarrow> settled f g n"
    and inv_clean: "s \<in> set (g_sources g n) \<Longrightarrow> n \<notin> X \<Longrightarrow> nst g n = Clean \<Longrightarrow> nst g s = Clean"
    and inv_running: "n \<in> X \<Longrightarrow> g_kind g n = Memo \<Longrightarrow> nst g n \<noteq> Clean"
    and inv_runs: "n \<in> X \<Longrightarrow> is_subscriber g n"
    and inv_notified: "g_dirty g n \<Longrightarrow> g_set g n"
    and inv_sorted: "g_kind g n = Effect \<Longrightarrow> in_order 0 (f n) \<Longrightarrow> n \<notin> X \<Longrightarrow> sorted (g_sources g n)"
  using assms unfolding graph_inv_def by blast+

lemma invI:
  assumes "edges_up N g" "edges_match g" "\<And>n. g_kind g n \<noteq> Gone \<Longrightarrow> n < N"
    and "\<And>n. watched f g n \<Longrightarrow> n \<notin> X \<Longrightarrow> nst g n \<noteq> Dirty \<Longrightarrow> settled f g n"
    and "\<And>n s. s \<in> set (g_sources g n) \<Longrightarrow> n \<notin> X \<Longrightarrow> nst g n = Clean \<Longrightarrow> nst g s = Clean"
    and "\<And>n. n \<in> X \<Longrightarrow> g_kind g n = Memo \<Longrightarrow> nst g n \<noteq> Clean"
    and "\<And>n. n \<in> X \<Longrightarrow> is_subscriber g n"
    and "\<And>n. g_dirty g n \<Longrightarrow> g_set g n"
    and "\<And>n. g_kind g n = Effect \<Longrightarrow> in_order 0 (f n) \<Longrightarrow> n \<notin> X \<Longrightarrow> sorted (g_sources g n)"
  shows "graph_inv f N X g"
  using assms unfolding graph_inv_def by blast

lemma source_edge:
  assumes "graph_inv f N X g" and "s \<in> set (g_sources g n)"
  shows "n \<in> set (g_subs g s)" "is_source g s" "is_subscriber g n" "s < n" "n < N"
  using assms unfolding graph_inv_def edges_match_def edges_up_def by blast+

lemma settled_cong:
  assumes "g_kind g' = g_kind g" and "g_value g' n = g_value g n" and "set (g_sources g' n) = set (g_sources g n)"
    and "settled f g n" and "\<And>s. s \<in> set (g_sources g n) \<Longrightarrow> g_value g' s = g_value g s"
  shows "settled f g' n"
proof -
  have "val g m = val g' m" if "m \<in> deps (val g) (f n)" for m
    using that assms(1,4,5) by (auto simp: settled_def val_def is_source_def)
  from eval_deps_cong [of "val g" "f n" "val g'", OF this]
  show ?thesis using assms by (auto simp: settled_def is_source_def)
qed

section \<open>What an operation may change\<close>

text \<open>
  An operation on nodes before \<open>b\<close>, while \<open>X\<close> are running: the values of later nodes and their
  sources (but those of \<open>Y\<close>) stay, their states are only raised, and what is clean stays as it is.
\<close>

definition step :: "nat set \<Rightarrow> nat \<Rightarrow> nat set \<Rightarrow> 'v graph \<Rightarrow> 'v graph \<Rightarrow> bool" where
  "step X b Y g g' \<longleftrightarrow> g_kind g' = g_kind g \<and> g_first g' = g_first g
     \<and> (\<forall>m. b \<le> m \<or> g_kind g m \<noteq> Memo \<longrightarrow> g_value g' m = g_value g m)
     \<and> (\<forall>m. b \<le> m \<longrightarrow> m \<notin> Y \<longrightarrow> g_sources g' m = g_sources g m)
     \<and> (\<forall>m. b \<le> m \<longrightarrow> nst g m \<le> nst g' m)
     \<and> (\<forall>m. m \<notin> X \<longrightarrow> nst g m = Clean \<longrightarrow> nst g' m = Clean \<and> g_value g' m = g_value g m
          \<and> (m \<notin> Y \<longrightarrow> g_sources g' m = g_sources g m))"

lemma stepD:
  assumes "step X b Y g g'"
  shows step_kind: "g_kind g' = g_kind g" and step_first: "g_first g' = g_first g"
    and step_value: "b \<le> m \<or> g_kind g m \<noteq> Memo \<Longrightarrow> g_value g' m = g_value g m"
    and step_sources: "b \<le> m \<Longrightarrow> m \<notin> Y \<Longrightarrow> g_sources g' m = g_sources g m"
    and step_raise: "b \<le> m \<Longrightarrow> nst g m \<le> nst g' m"
    and step_clean: "m \<notin> X \<Longrightarrow> nst g m = Clean \<Longrightarrow> nst g' m = Clean"
    and step_clean_value: "m \<notin> X \<Longrightarrow> nst g m = Clean \<Longrightarrow> g_value g' m = g_value g m"
    and step_clean_sources: "m \<notin> X \<Longrightarrow> nst g m = Clean \<Longrightarrow> m \<notin> Y \<Longrightarrow> g_sources g' m = g_sources g m"
  using assms unfolding step_def by blast+

lemma stepI:
  assumes "g_kind g' = g_kind g" and "g_first g' = g_first g"
    and "\<And>m. b \<le> m \<or> g_kind g m \<noteq> Memo \<Longrightarrow> g_value g' m = g_value g m"
    and "\<And>m. b \<le> m \<Longrightarrow> m \<notin> Y \<Longrightarrow> g_sources g' m = g_sources g m"
    and "\<And>m. b \<le> m \<Longrightarrow> nst g m \<le> nst g' m"
    and "\<And>m. m \<notin> X \<Longrightarrow> nst g m = Clean \<Longrightarrow> nst g' m = Clean \<and> g_value g' m = g_value g m
          \<and> (m \<notin> Y \<longrightarrow> g_sources g' m = g_sources g m)"
  shows "step X b Y g g'"
  using assms unfolding step_def by blast

lemma step_refl [simp]: "step X b Y g g"
  by (simp add: step_def)

lemma step_trans: "step X b Y g g' \<Longrightarrow> step X b Y g' g'' \<Longrightarrow> step X b Y g g''"
  unfolding step_def by (auto intro: order_trans)

lemma step_weaken: "step X b Y g g' \<Longrightarrow> b \<le> b' \<Longrightarrow> Y \<subseteq> Y' \<Longrightarrow> step X b' Y' g g'"
  unfolding step_def by (auto intro: order_trans)

lemma step_is: "step X b Y g g' \<Longrightarrow> is_source g' n = is_source g n \<and> is_subscriber g' n = is_subscriber g n"
  by (simp add: step_def is_source_def is_subscriber_def)

section \<open>Subscribing and unsubscribing\<close>

lemma fold_remove_subscriber:
  assumes "distinct ss"
  shows "fold (remove_subscriber n) ss g =
    g\<lparr>g_subs := (\<lambda>m. if m \<in> set ss \<and> is_source g m then remove1 n (g_subs g m) else g_subs g m)\<rparr>"
  using assms
proof (induction ss arbitrary: g)
  case (Cons s ss)
  have "is_source (remove_subscriber n s g) = is_source g"
    by (auto simp: remove_subscriber_def is_source_def)
  then show ?case using Cons by (auto simp: remove_subscriber_def intro!: graph.equality)
qed simp

lemma clear_sources_eq:
  assumes "graph_inv f N X g"
  shows "clear_sources n g = g\<lparr>g_sources := (g_sources g)(n := []), g_subs := (\<lambda>m. remove1 n (g_subs g m))\<rparr>"
proof -
  have "distinct (g_sources g n)" using inv_match [OF assms] by (simp add: edges_match_def)
  moreover have "remove1 n (g_subs g m) = g_subs g m" if "\<not> (m \<in> set (g_sources g n) \<and> is_source g m)" for m
    using that source_edge(2) [OF assms, of m n] inv_match [OF assms] by (auto simp: edges_match_def remove1_idem)
  ultimately show ?thesis
    by (auto simp: clear_sources_def fold_remove_subscriber fun_eq_iff intro!: graph.equality)
qed

lemma clear_sources_inv:
  assumes "graph_inv f N X g" and "g_kind g n = Memo \<Longrightarrow> nst g n \<noteq> Clean" and "is_subscriber g n"
  shows "graph_inv f N (insert n X) (clear_sources n g)"
proof (rule invI)
  let ?g = "clear_sources n g"
  note [simp] = clear_sources_eq [OF assms(1)]
  show "edges_up N ?g"
    using inv_up [OF assms(1)] unfolding edges_up_def by (auto dest: notin_set_remove1)
  show "edges_match ?g"
    using inv_match [OF assms(1)] by (auto simp: edges_match_def)
  show "settled f ?g m" if "watched f ?g m" "m \<notin> insert n X" "nst ?g m \<noteq> Dirty" for m
    using that by (intro settled_cong [OF _ _ _ inv_settled [OF assms(1), of m]]) simp_all
  show "nst ?g s = Clean" if "s \<in> set (g_sources ?g m)" "m \<notin> insert n X" "nst ?g m = Clean" for m s
    using that inv_clean [OF assms(1), of s m] by auto
qed (use inv_bound [OF assms(1)] inv_running [OF assms(1)] inv_notified [OF assms(1)] inv_sorted [OF assms(1)] inv_runs [OF assms(1)] assms(2,3) in \<open>auto simp: clear_sources_eq [OF assms(1)]\<close>)

lemma clear_sources_step:
  assumes "graph_inv f N X g" and "nst g n \<noteq> Clean"
  shows "step X (Suc n) {} g (clear_sources n g)"
  using assms(2) unfolding clear_sources_eq [OF assms(1)] step_def by auto

lemma track_edge:
  assumes "is_source g m" and "is_subscriber g n" and "m \<noteq> n"
  shows "track (Some n) m g = g\<lparr>g_sources := (g_sources g)(n := idx_insert m (g_sources g n)),
     g_subs := (g_subs g)(m := idx_insert n (g_subs g m))\<rparr>"
  using assms by (simp add: track_def add_source_def add_subscriber_def is_source_def)

lemma track_inv:
  assumes "graph_inv f N X g" and "n \<in> X" and "is_source g m" and "is_subscriber g n" and "m < n"
  shows "graph_inv f N X (track (Some n) m g)"
proof (rule invI)
  let ?g = "track (Some n) m g"
  have [simp]: "?g = g\<lparr>g_sources := (g_sources g)(n := idx_insert m (g_sources g n)),
     g_subs := (g_subs g)(m := idx_insert n (g_subs g m))\<rparr>"
    using assms by (intro track_edge) auto
  have "n < N" using assms(1,4) inv_bound [OF assms(1)] by (auto simp: is_subscriber_def)
  then show "edges_up N ?g"
    using inv_up [OF assms(1)] assms(3-5) unfolding edges_up_def by (auto simp: idx_insert_def)
  show "edges_match ?g"
    using inv_match [OF assms(1)] by (auto simp: edges_match_def idx_insert_def)
  show "settled f ?g k" if "watched f ?g k" "k \<notin> X" "nst ?g k \<noteq> Dirty" for k
    using that assms(2) by (intro settled_cong [OF _ _ _ inv_settled [OF assms(1), of k]]) auto
  show "nst ?g s = Clean" if "s \<in> set (g_sources ?g k)" "k \<notin> X" "nst ?g k = Clean" for k s
    using that assms(2) inv_clean [OF assms(1), of s k] by (auto split: if_splits)
qed (use inv_bound [OF assms(1)] inv_running [OF assms(1)] inv_notified [OF assms(1)] inv_sorted [OF assms(1)] inv_runs [OF assms(1)] assms(2-5) in \<open>auto simp: track_edge\<close>)

lemma track_step:
  assumes "is_source g m" and "is_subscriber g n" and "m < n"
  shows "step X n {n} g (track (Some n) m g)"
  using assms by (auto simp: track_edge step_def)

end
