(* ===== verification/Reactive_Update.thy ===== *)
theory Reactive_Update
  imports Reactive_Inv
begin

text \<open>
  Updating a node of a consistent graph ends, leaves the graph consistent and the node clean, and
  changes nothing that is clean already.
\<close>

section \<open>The end of a recomputation\<close>

lemma not_running_source:
  assumes "graph_inv f N X g" and "is_source g s" and "nst g s = Clean"
  shows "s \<notin> X"
  using inv_running [OF assms(1), of s] inv_runs [OF assms(1), of s] assms(2,3)
  by (auto simp: is_source_def is_subscriber_def)

text \<open>The nodes that marking can reach from a node whose function has just run.\<close>

definition reached :: "nat set \<Rightarrow> nat \<Rightarrow> 'v graph \<Rightarrow> nat set" where
  "reached X n g = {x. n < x \<and> (nst g x \<noteq> Clean \<or> x \<in> X)}"

lemma reached_closed:
  assumes "graph_inv f N (insert n X) g"
  shows "closed_under_subs (reached X n g) g"
proof -
  have "z \<in> reached X n g" if y: "y \<in> reached X n g" and z: "z \<in> set (g_subs g y)" for y z
  proof -
    have e: "y \<in> set (g_sources g z)" "is_source g y" "y < z"
      using z inv_match [OF assms] inv_up [OF assms] unfolding edges_match_def edges_up_def by blast+
    have "nst g y \<noteq> Clean" using y not_running_source [OF assms e(2)] by (auto simp: reached_def)
    then show ?thesis using inv_clean [OF assms e(1)] y e(3) by (auto simp: reached_def)
  qed
  then show ?thesis by (auto simp: closed_under_subs_def)
qed

lemma subs_reached:
  assumes "graph_inv f N (insert n X) g" and "g_kind g n = Memo"
  shows "set (g_subs g n) \<subseteq> reached X n g"
proof
  fix z assume z: "z \<in> set (g_subs g n)"
  then have e: "n \<in> set (g_sources g z)" "n < z"
    using inv_match [OF assms(1)] inv_up [OF assms(1)] unfolding edges_match_def edges_up_def by blast+
  have "nst g n \<noteq> Clean" using inv_running [OF assms(1), of n] assms(2) by simp
  then show "z \<in> reached X n g" using inv_clean [OF assms(1) e(1)] e(2) by (auto simp: reached_def)
qed

definition computed :: "(nat \<Rightarrow> ('v, 'v) comp) \<Rightarrow> nat \<Rightarrow> 'v graph \<Rightarrow> bool" where
  "computed f n g \<longleftrightarrow> set (g_sources g n) = {s \<in> deps (val g) (f n). is_source g s}
     \<and> (\<forall>s \<in> set (g_sources g n). nst g s = Clean)"

definition finished :: "nat \<Rightarrow> 'v \<Rightarrow> 'v graph \<Rightarrow> 'v graph" where
  "finished n v g = g\<lparr>g_value := (g_value g)(n := Some v), g_state := (g_state g)(n := Clean)\<rparr>"

lemma nst_finished [simp]: "g_kind g n = Memo \<Longrightarrow> nst (finished n v g) m = (if m = n then Clean else nst g m)"
  unfolding finished_def using nst_state [of "g\<lparr>g_value := (g_value g)(n := Some v)\<rparr>" n Clean m] by simp

lemma finished_simps [simp]:
  "g_kind (finished n v g) = g_kind g" "g_sources (finished n v g) = g_sources g" "g_subs (finished n v g) = g_subs g"
  "g_value (finished n v g) = (g_value g)(n := Some v)" "g_first (finished n v g) = g_first g"
  "g_dirty (finished n v g) = g_dirty g" "g_set (finished n v g) = g_set g"
  "is_source (finished n v g) = is_source g" "is_subscriber (finished n v g) = is_subscriber g"
  by (simp_all add: finished_def)

lemma settled_finished:
  assumes "reads_before n (f n)" and "computed f n g" and "v = eval (val g) (f n)"
  shows "settled f (finished n v g) n"
proof -
  have "val g m = val (finished n v g) m" if "m \<in> deps (val g) (f n)" for m
    using deps_before [OF assms(1) that] by (simp add: val_def)
  from eval_deps_cong [of "val g" "f n" "val (finished n v g)", OF this]
  show ?thesis using assms(2,3) by (simp add: settled_def computed_def)
qed

lemma finished_marks_inv:
  assumes inv: "graph_inv f N (insert n X) g" and n: "g_kind g n = Memo" "n \<notin> X" "reads_before n (f n)"
    and fin: "computed f n g" "v = eval (val g) (f n)"
    and marks: "marks (reached X n g) (finished n v g) g'"
    and told: "\<And>m. m \<in> set (g_subs g n) \<Longrightarrow> m \<notin> X \<Longrightarrow> g_value g n \<noteq> Some v \<Longrightarrow> nst g' m = Dirty"
  shows "graph_inv f N X g' \<and> step X (Suc n) {} g g' \<and> nst g' n = Clean \<and> g_value g' n = Some v"
proof -
  let ?g = "finished n v g"
  have same: "g_kind g' = g_kind g" "g_sources g' = g_sources g" "g_subs g' = g_subs g" "g_first g' = g_first g"
    "g_value g' = (g_value g)(n := Some v)"
    using marks_same [OF marks] by (simp_all add: same_nodes_def)
  then have kinds: "is_source g' = is_source g" "is_subscriber g' = is_subscriber g"
    by (auto simp: is_source_def is_subscriber_def)
  have watched: "watched f g' = watched f g" by (auto simp: watched_def same)
  have dirty_n: "nst g n \<noteq> Clean" using inv_running [OF inv, of n] n by simp
  have up: "nst ?g m \<le> nst g' m" for m using marks raised_nst by (auto simp: marks_def)
  have out: "nst g' m = nst ?g m" if "m \<notin> reached X n g" for m
    using that marks raised_outside by (auto simp: marks_def)
  have clean: "nst g' m = Clean" if "m \<notin> X" "nst g m = Clean" for m
    using out [of m] that n(1) by (auto simp: reached_def)
  have clean_n: "nst g' n = Clean" using out [of n] n(1) by (simp add: reached_def)
  have settled: "settled f g' m" if m: "watched f g' m" "m \<notin> X" "nst g' m \<noteq> Dirty" for m
  proof (cases "m = n")
    case True
    have "settled f ?g n" using settled_finished [OF n(3) fin] .
    then show ?thesis unfolding True by (rule settled_cong [rotated 3]) (simp_all add: same)
  next
    case False
    then have "nst g m \<noteq> Dirty" using up [of m] m(3) n(1) by auto
    then have set: "settled f g m" using inv_settled [OF inv, of m] m(1,2) False by (simp add: watched)
    have "g_value g n = Some v" if "n \<in> set (g_sources g m)"
      using told [of m] m(2,3) source_edge(1) [OF inv that] by blast
    then show ?thesis using False by (intro settled_cong [OF _ _ _ set]) (auto simp: same)
  qed
  have cleaned: "nst g' s = Clean" if s: "s \<in> set (g_sources g' m)" "m \<notin> X" "nst g' m = Clean" for m s
  proof -
    have s': "s \<in> set (g_sources g m)" using s(1) same by simp
    have "nst g s = Clean"
    proof (cases "m = n")
      case True
      then show ?thesis using fin(1) s' by (simp add: computed_def)
    next
      case False
      then have "nst g m = Clean" using up [of m] s(3) n(1) by simp
      then show ?thesis using inv_clean [OF inv s'] s(2) False by simp
    qed
    moreover have "s \<notin> X" using not_running_source [OF inv source_edge(2) [OF inv s'] calculation] by simp
    ultimately show ?thesis using clean by blast
  qed
  have "graph_inv f N X g'"
  proof (rule invI)
    show "edges_up N g'" using inv_up [OF inv] by (simp add: edges_up_def same kinds)
    show "edges_match g'" using inv_match [OF inv] by (simp add: edges_match_def same)
    show "nst g' m \<noteq> Clean" if "m \<in> X" "g_kind g' m = Memo" for m
      using that up [of m] inv_running [OF inv, of m] n by (auto simp: same split: if_splits)
    show "g_set g' m" if "g_dirty g' m" for m
      using that inv_notified [OF inv, of m] marks by (simp add: marks_def raised_def)
    show "sorted (g_sources g' m)" if "g_kind g' m = Effect" "in_order 0 (f m)" "m \<notin> X" for m
      using that inv_sorted [OF inv, of m] n(1) by (cases "m = n") (auto simp: same)
  qed (use settled cleaned inv_bound [OF inv] inv_runs [OF inv] in \<open>auto simp: same kinds\<close>)
  moreover have "step X (Suc n) {} g g'"
  proof (rule stepI)
    show "g_value g' m = g_value g m" if "Suc n \<le> m \<or> g_kind g m \<noteq> Memo" for m
      using that n(1) by (auto simp: same)
    show "nst g m \<le> nst g' m" if "Suc n \<le> m" for m
      using that up [of m] n(1) by simp
    show "nst g' m = Clean \<and> g_value g' m = g_value g m \<and> (m \<notin> {} \<longrightarrow> g_sources g' m = g_sources g m)"
      if "m \<notin> X" "nst g m = Clean" for m
      using that clean dirty_n by (auto simp: same)
  qed (simp_all add: same)
  ultimately show ?thesis using clean_n same by simp
qed

lemma finish_update_spec:
  assumes inv: "graph_inv f N (insert n X) g" and n: "g_kind g n = Memo" "n \<notin> X" "reads_before n (f n)"
    and fin: "computed f n g" "v = eval (val g) (f n)"
    and obs: "\<And>o'. obs = Some o' \<Longrightarrow> o' \<in> X" and fuel: "N \<le> mark_fuel"
  shows "\<exists>g'. finish_update mark_fuel obs n (Some v) (g_value g n \<noteq> Some v) g = Some (g_value g n \<noteq> Some v, g')
    \<and> graph_inv f N X g' \<and> step X (Suc n) {} g g' \<and> nst g' n = Clean \<and> g_value g' n = Some v"
proof (cases "g_value g n = Some v")
  case True
  then show ?thesis
    using finished_marks_inv [OF inv n fin marks_refl] by (simp add: finish_update_def Let_def finished_def)
next
  case False
  let ?g = "finished n v g"
  have "edges_up N ?g" "closed_under_subs (reached X n g) ?g"
    using inv_up [OF inv] reached_closed [OF inv] by (simp_all add: edges_up_def closed_under_subs_def)
  moreover have "set (g_subs g n) \<subseteq> reached X n g" using subs_reached [OF inv n(1)] .
  moreover have "\<forall>x \<in> set (g_subs g n). is_subscriber ?g x" using inv_up [OF inv] by (auto simp: edges_up_def)
  ultimately obtain g' where g': "fold_opt (\<lambda>x g. if obs = Some x then Some g else mark_dirty mark_fuel x g) (g_subs g n) ?g = Some g'"
      "marks (reached X n g) ?g g'" "\<forall>x \<in> set (g_subs g n). obs \<noteq> Some x \<longrightarrow> nst g' x = Dirty"
    using fold_mark_dirty [OF _ _ _ _ fuel, of ?g "reached X n g" "g_subs g n" obs] by blast
  then have "graph_inv f N X g' \<and> step X (Suc n) {} g g' \<and> nst g' n = Clean \<and> g_value g' n = Some v"
    using obs by (intro finished_marks_inv [OF inv n fin]) auto
  then show ?thesis using g'(1) False by (simp add: finish_update_def Let_def finished_def)
qed

section \<open>Running a function\<close>

lemma run_comp_map: "run_comp rd (comp_map h c) g = map_option (map_prod h id) (run_comp rd c g)"
proof (induction c arbitrary: g)
  case (Read t n k)
  show ?case
  proof (cases "rd t n g")
    case (Some p)
    then show ?thesis using Read by (cases p) simp
  qed simp
qed simp

text \<open>What an update of a node before \<open>n\<close> is known to do (the induction hypothesis).\<close>

definition updates_before ::
  "(nat \<Rightarrow> ('v, 'v) comp) \<Rightarrow> nat \<Rightarrow> nat set \<Rightarrow> nat \<Rightarrow> (nat \<Rightarrow> 'v graph \<Rightarrow> (bool \<times> 'v graph) option) \<Rightarrow> bool" where
  "updates_before f N X n update_fn \<longleftrightarrow>
    (\<forall>m g. m < n \<longrightarrow> is_source g m \<longrightarrow> graph_inv f N X g \<longrightarrow>
      (\<exists>b g'. update_fn m g = Some (b, g') \<and> graph_inv f N X g' \<and> step X (Suc m) {} g g' \<and> nst g' m = Clean
        \<and> (\<not> b \<longrightarrow> g_value g' m = g_value g m)))"

lemma updates_beforeE:
  assumes "updates_before f N X n update_fn" and "m < n" and "is_source g m" and "graph_inv f N X g"
  obtains b g' where "update_fn m g = Some (b, g')" "graph_inv f N X g'" "step X n {} g g'" "nst g' m = Clean"
    "\<not> b \<longrightarrow> g_value g' m = g_value g m"
proof -
  obtain b g' where "update_fn m g = Some (b, g')" "graph_inv f N X g'" "step X (Suc m) {} g g'" "nst g' m = Clean"
      "\<not> b \<longrightarrow> g_value g' m = g_value g m"
    using assms unfolding updates_before_def by blast
  moreover have "step X n {} g g'" using calculation(3) assms(2) by (auto intro: step_weaken)
  ultimately show ?thesis using that by blast
qed

text \<open>One read of a running function: its source is clean, and stays so.\<close>

lemma read_spec:
  assumes up: "updates_before f N X n update_fn" and inv: "graph_inv f N X g"
    and n: "n \<in> X" "m < n" and C: "C \<subseteq> X" "\<forall>c \<in> X. n \<le> c"
  shows "\<exists>g'. read_node update_fn (Some n) C True m g = Some (val g' m, g') \<and> graph_inv f N X g' \<and> step X n {n} g g'
    \<and> g_sources g' n = (if is_source g m then idx_insert m (g_sources g n) else g_sources g n)
    \<and> (is_source g m \<longrightarrow> nst g' m = Clean)"
proof (cases "is_source g m")
  case False
  then show ?thesis using inv
    by (cases "g_kind g m") (auto simp: read_node_def track_def val_def is_source_def)
next
  case True
  let ?g1 = "track (Some n) m g"
  have sub: "is_subscriber g n" using inv_runs [OF inv n(1)] .
  have inv1: "graph_inv f N X ?g1" using track_inv [OF inv n(1) True sub n(2)] .
  have step1: "step X n {n} g ?g1" using track_step [OF True sub n(2)] .
  have src1: "g_sources ?g1 n = (if is_source g m then idx_insert m (g_sources g n) else g_sources g n)"
    using n(2) True sub by (simp add: track_edge)
  have kind1: "is_source ?g1 m" using True step_is [OF step1] by simp
  show ?thesis
  proof (cases "g_kind g m = Memo")
    case False
    then have "g_kind g m = Signal" using True by (simp add: is_source_def)
    moreover from this have "nst ?g1 m = Clean" using step_kind [OF step1] by (simp add: nst_def)
    ultimately show ?thesis using inv1 step1 src1 kind1 by (auto simp: read_node_def Let_def val_def)
  next
    case True
    obtain b g2 where g2: "update_fn m ?g1 = Some (b, g2)" "graph_inv f N X g2" "step X n {} ?g1 g2" "nst g2 m = Clean"
      using updates_beforeE [OF up n(2) kind1 inv1] by blast
    have "g_sources g2 n = g_sources ?g1 n" using step_sources [OF g2(3)] by simp
    moreover have "step X n {n} g g2" using step1 step_weaken [OF g2(3), of n "{n}"] by (auto intro: step_trans)
    moreover have "m \<notin> C" using C n(2) by fastforce
    moreover have "is_source g2 m" using kind1 step_is [OF g2(3)] by simp
    ultimately show ?thesis using True g2 src1 by (auto simp: read_node_def Let_def val_def)
  qed
qed

lemma run_spec:
  assumes up: "updates_before f N X n update_fn" and n: "n \<in> X" and C: "C \<subseteq> X" "\<forall>c \<in> X. n \<le> c"
  shows "graph_inv f N X g \<Longrightarrow> reads_before n c \<Longrightarrow> \<forall>s \<in> set (g_sources g n). nst g s = Clean \<Longrightarrow>
    \<exists>g'. run_comp (read_node update_fn (Some n) C) c g = Some (eval (val g') c, g') \<and> graph_inv f N X g'
      \<and> step X n {n} g g' \<and> set (g_sources g' n) = set (g_sources g n) \<union> {s \<in> deps (val g') c. is_source g s}
      \<and> (\<forall>s \<in> set (g_sources g' n). nst g' s = Clean)
      \<and> (in_order b c \<longrightarrow> sorted (g_sources g n) \<longrightarrow> (\<forall>s \<in> set (g_sources g n). s \<le> b) \<longrightarrow> sorted (g_sources g' n))"
proof (induction c arbitrary: g b)
  case (Read t m k)
  then have m: "t" "m < n" "\<And>x. reads_before n (k x)" by auto
  obtain g1 where g1: "read_node update_fn (Some n) C True m g = Some (val g1 m, g1)" "graph_inv f N X g1"
      "step X n {n} g g1" "g_sources g1 n = (if is_source g m then idx_insert m (g_sources g n) else g_sources g n)"
      "is_source g m \<longrightarrow> nst g1 m = Clean"
    using read_spec [OF up Read.prems(1) n m(2) C] by blast
  have src1: "set (g_sources g1 n) = set (g_sources g n) \<union> {s \<in> {m}. is_source g s}"
    using g1(4) by (auto simp: idx_insert_def)
  have "nst g1 s = Clean" if "s \<in> set (g_sources g n)" for s
    using step_clean [OF g1(3)] that Read.prems(3) not_running_source [OF Read.prems(1)] source_edge(2) [OF Read.prems(1)] by blast
  then have "\<forall>s \<in> set (g_sources g1 n). nst g1 s = Clean" using src1 g1(5) by auto
  then obtain g2 where g2: "run_comp (read_node update_fn (Some n) C) (k (val g1 m)) g1 = Some (eval (val g2) (k (val g1 m)), g2)"
      "graph_inv f N X g2" "step X n {n} g1 g2"
      "set (g_sources g2 n) = set (g_sources g1 n) \<union> {s \<in> deps (val g2) (k (val g1 m)). is_source g1 s}"
      "\<forall>s \<in> set (g_sources g2 n). nst g2 s = Clean"
      "in_order m (k (val g1 m)) \<longrightarrow> sorted (g_sources g1 n) \<longrightarrow> (\<forall>s \<in> set (g_sources g1 n). s \<le> m) \<longrightarrow> sorted (g_sources g2 n)"
    using Read.IH [OF rangeI g1(2) m(3), of "val g1 m" m] by blast
  have kinds: "is_source g1 s = is_source g s" "is_source g2 s = is_source g s" for s
    using step_is [OF g1(3)] step_is [OF g2(3)] by auto
  have "g_value g2 m = g_value g1 m" if "is_source g m"
    using step_clean_value [OF g2(3)] that g1(5) not_running_source [OF g1(2)] kinds by blast
  then have "val g2 m = val g1 m" by (simp add: val_def kinds)
  moreover have "step X n {n} g g2" using g1(3) g2(3) step_trans by blast
  moreover have "sorted (g_sources g2 n)"
    if "in_order b (Read t m k)" "sorted (g_sources g n)" "\<forall>s \<in> set (g_sources g n). s \<le> b"
  proof -
    have "b \<le> m" "in_order m (k (val g1 m))" using that(1) by auto
    moreover have "s \<le> m" if "s \<in> set (g_sources g n)" for s
      using that \<open>b \<le> m\<close> \<open>\<forall>s \<in> set (g_sources g n). s \<le> b\<close> by (meson order_trans)
    then have "sorted (g_sources g1 n)" "\<forall>s \<in> set (g_sources g1 n). s \<le> m"
      using that(2) unfolding g1(4) by (auto simp: idx_insert_def sorted_append)
    ultimately show ?thesis using g2(6) by blast
  qed
  ultimately show ?case using m(1) g1(1) src1 g2(1,2,4,5) by (auto simp: kinds)
qed (auto simp: step_refl)

section \<open>Updating a node\<close>

text \<open>Checking the sources of a memo: unless one changed, all of them are clean at the end.\<close>

lemma check_sources_spec:
  assumes up: "updates_before f N X n update_fn" and n: "n \<notin> X"
  shows "graph_inv f N X g \<Longrightarrow> set ss \<subseteq> {s. s < n \<and> is_source g s} \<Longrightarrow> g_state g n \<noteq> Dirty \<Longrightarrow>
    \<exists>b g'. check_sources update_fn n ss g = Some (b, g') \<and> graph_inv f N X g' \<and> step X n {} g g'
      \<and> (\<not> b \<longrightarrow> g_state g' n \<noteq> Dirty \<and> (\<forall>s \<in> set ss. nst g' s = Clean))"
proof (induction ss arbitrary: g)
  case (Cons s ss)
  then have s: "s < n" "is_source g s" by auto
  obtain b g1 where g1: "update_fn s g = Some (b, g1)" "graph_inv f N X g1" "step X n {} g g1" "nst g1 s = Clean"
    using updates_beforeE [OF up s Cons.prems(1)] by blast
  show ?case
  proof (cases "b \<or> g_state g1 n = Dirty")
    case True
    then show ?thesis using g1 by (intro exI [of _ True] exI [of _ g1]) auto
  next
    case False
    have "set ss \<subseteq> {s. s < n \<and> is_source g1 s}" using Cons.prems(2) step_is [OF g1(3)] by auto
    then obtain b' g2 where g2: "check_sources update_fn n ss g1 = Some (b', g2)" "graph_inv f N X g2" "step X n {} g1 g2"
        "\<not> b' \<longrightarrow> g_state g2 n \<noteq> Dirty \<and> (\<forall>s \<in> set ss. nst g2 s = Clean)"
      using Cons.IH [OF g1(2)] False by blast
    have "s \<notin> X" using not_running_source [OF g1(2) _ g1(4)] s(2) step_is [OF g1(3)] by simp
    then have "nst g2 s = Clean" using step_clean [OF g2(3)] g1(4) by blast
    then show ?thesis using False g1(1) g2 step_trans [OF g1(3) g2(3)] by auto
  qed
qed (auto intro!: exI [of _ False])

lemma needs_update_spec:
  assumes up: "updates_before f N X n update_fn" and inv: "graph_inv f N X g" and n: "n \<notin> X" "g_kind g n = Memo"
  shows "\<exists>b g'. needs_update update_fn n g = Some (b, g') \<and> graph_inv f N X g' \<and> step X n {} g g'
    \<and> (b \<longrightarrow> nst g' n \<noteq> Clean) \<and> (\<not> b \<longrightarrow> nst g' n \<noteq> Dirty \<and> (\<forall>s \<in> set (g_sources g' n). nst g' s = Clean))"
proof (cases "g_state g n")
  case Check
  have "set (g_sources g n) \<subseteq> {s. s < n \<and> is_source g s}" using source_edge(2,4) [OF inv] by auto
  then obtain b g1 where g1: "check_sources update_fn n (g_sources g n) g = Some (b, g1)" "graph_inv f N X g1" "step X n {} g g1"
      "\<not> b \<longrightarrow> g_state g1 n \<noteq> Dirty \<and> (\<forall>s \<in> set (g_sources g n). nst g1 s = Clean)"
    using check_sources_spec [OF up n(1) inv, of "g_sources g n"] Check by auto
  have "nst g1 n = g_state g1 n" "nst g n = Check" using n(2) step_kind [OF g1(3)] Check by (simp_all add: nst_def)
  moreover have "nst g n \<le> nst g1 n" using step_raise [OF g1(3)] by simp
  ultimately show ?thesis
    using Check g1 step_sources [OF g1(3), of n] by (auto simp: needs_update_def less_eq_node_state_def)
qed (use inv_clean [OF inv] n inv in \<open>auto simp: needs_update_def nst_def\<close>)

text \<open>A memo whose sources did not change is clean without running.\<close>

lemma clean_again:
  assumes inv: "graph_inv f N X g" and n: "n \<notin> X" "g_kind g n = Memo" "nst g n \<noteq> Dirty"
    and sources: "\<forall>s \<in> set (g_sources g n). nst g s = Clean"
  shows "graph_inv f N X (g\<lparr>g_state := (g_state g)(n := Clean)\<rparr>) \<and> step X (Suc n) {} g (g\<lparr>g_state := (g_state g)(n := Clean)\<rparr>)"
proof
  let ?g = "g\<lparr>g_state := (g_state g)(n := Clean)\<rparr>"
  have "val ?g = val g" by (auto simp: val_def fun_eq_iff)
  then have settled: "settled f ?g m = settled f g m" for m by (simp add: settled_def)
  show "graph_inv f N X ?g"
  proof (rule invI)
    show "edges_up N ?g" "edges_match ?g"
      using inv_up [OF inv] inv_match [OF inv] by (simp_all add: edges_up_def edges_match_def)
    show "settled f ?g m" if "watched f ?g m" "m \<notin> X" "nst ?g m \<noteq> Dirty" for m
      using that inv_settled [OF inv, of m] n by (auto simp: settled split: if_splits)
    show "nst ?g s = Clean" if "s \<in> set (g_sources ?g m)" "m \<notin> X" "nst ?g m = Clean" for m s
      using that sources inv_clean [OF inv, of s m] by (auto split: if_splits)
  qed (use inv_bound [OF inv] inv_running [OF inv] inv_runs [OF inv] inv_notified [OF inv] inv_sorted [OF inv] n in \<open>auto split: if_splits\<close>)
  show "step X (Suc n) {} g ?g" by (auto simp: step_def)
qed

lemma update_memo_spec:
  assumes "\<And>m. reads_before m (f m)" and "N \<le> mark_fuel"
    and up: "updates_before f N X n (update_if_necessary mark_fuel (memo_new f) (\<lambda>_. False) fuel obs C)"
    and up_n: "updates_before f N (insert n X) n (update_if_necessary mark_fuel (memo_new f) (\<lambda>_. False) fuel (Some n) (insert n C))"
    and inv: "graph_inv f N X g" and n: "n \<notin> X" "g_kind g n = Memo" "\<forall>c \<in> X. n < c"
    and obs: "C \<subseteq> X" "\<And>o'. obs = Some o' \<Longrightarrow> o' \<in> X"
  shows "\<exists>b g'. update_if_necessary mark_fuel (memo_new f) (\<lambda>_. False) (Suc fuel) obs C n g = Some (b, g')
    \<and> graph_inv f N X g' \<and> step X (Suc n) {} g g' \<and> nst g' n = Clean \<and> (\<not> b \<longrightarrow> g_value g' n = g_value g n)"
proof -
  obtain b g1 where g1: "needs_update (update_if_necessary mark_fuel (memo_new f) (\<lambda>_. False) fuel obs C) n g = Some (b, g1)"
      "graph_inv f N X g1" "step X n {} g g1" "b \<longrightarrow> nst g1 n \<noteq> Clean"
      "\<not> b \<longrightarrow> nst g1 n \<noteq> Dirty \<and> (\<forall>s \<in> set (g_sources g1 n). nst g1 s = Clean)"
    using needs_update_spec [OF up inv n(1,2)] by blast
  have kind1: "g_kind g1 n = Memo" "g_value g1 n = g_value g n"
    using step_kind [OF g1(3)] step_value [OF g1(3)] n(2) by simp_all
  have step1: "step X (Suc n) {} g g1" using step_weaken [OF g1(3)] by simp
  show ?thesis
  proof (cases b)
    case False
    note again = clean_again [OF g1(2) n(1) kind1(1)]
    then have "nst (g1\<lparr>g_state := (g_state g1)(n := Clean)\<rparr>) n = Clean" using kind1 by simp
    then show ?thesis
      using False g1 kind1 again n(2) step_trans [OF step1] by auto
  next
    case True
    let ?X = "insert n X" and ?g2 = "clear_sources n g1"
    have sub: "is_subscriber g1 n" using kind1 by (simp add: is_subscriber_def)
    have inv2: "graph_inv f N ?X ?g2" using clear_sources_inv [OF g1(2) _ sub] g1(4) True by simp
    have g2: "g_kind ?g2 = g_kind g1" "g_value ?g2 = g_value g1" "g_sources ?g2 n = []" "nst ?g2 n \<noteq> Clean"
      using clear_sources_eq [OF g1(2)] g1(4) True by simp_all
    obtain g3 where g3: "run_comp (read_node (update_if_necessary mark_fuel (memo_new f) (\<lambda>_. False) fuel (Some n) (insert n C))
          (Some n) (insert n C)) (f n) ?g2 = Some (eval (val g3) (f n), g3)"
        "graph_inv f N ?X g3" "step ?X n {n} ?g2 g3" "set (g_sources g3 n) = {s \<in> deps (val g3) (f n). is_source ?g2 s}"
        "\<forall>s \<in> set (g_sources g3 n). nst g3 s = Clean"
      using run_spec [OF up_n insertI1 insert_mono [OF obs(1)] _ inv2 assms(1) [of n], where b = 0] n(3) g2(3)
      by (auto simp: less_imp_le)
    have kind3: "g_kind g3 n = Memo" "g_value g3 n = g_value g n"
      using step_kind [OF g3(3)] step_value [OF g3(3), of n] g2 kind1 by simp_all
    have "computed f n g3" using g3(4,5) step_is [OF g3(3)] by (simp add: computed_def)
    then obtain g4 where g4: "finish_update mark_fuel obs n (Some (eval (val g3) (f n))) (g_value g3 n \<noteq> Some (eval (val g3) (f n))) g3
          = Some (g_value g3 n \<noteq> Some (eval (val g3) (f n)), g4)" "graph_inv f N X g4" "step X (Suc n) {} g3 g4"
        "nst g4 n = Clean" "g_value g4 n = Some (eval (val g3) (f n))"
      using finish_update_spec [OF g3(2) kind3(1) n(1) assms(1) _ _ obs(2) assms(2)] by blast
    have "step X (Suc n) {} ?g2 g3"
      using g3(3) g2(4) unfolding step_def by auto
    then have "step X (Suc n) {} g g4"
      using step1 clear_sources_step [OF g1(2)] g1(4) True g4(3) step_trans by blast
    then show ?thesis
      using n obs(1) True g1(1) g3(1) g4 kind1 kind3
      by (auto simp: memo_new_def run_comp_map Let_def)
  qed
qed

text \<open>An update with enough fuel, of any node that was made before those that are running.\<close>

lemma update_spec:
  assumes "\<And>m. reads_before m (f m)" and "N \<le> mark_fuel"
  shows "n \<le> fuel \<Longrightarrow> \<forall>c \<in> X. n \<le> c \<Longrightarrow> C \<subseteq> X \<Longrightarrow> (\<And>o'. obs = Some o' \<Longrightarrow> o' \<in> X) \<Longrightarrow>
    updates_before f N X n (update_if_necessary mark_fuel (memo_new f) (\<lambda>_. False) fuel obs C)"
proof (induction fuel arbitrary: n X C obs)
  case (Suc fuel)
  show ?case
    unfolding updates_before_def
  proof (intro allI impI)
    fix m g assume m: "m < n" "is_source g m" "graph_inv f N X g"
    show "\<exists>b g'. update_if_necessary mark_fuel (memo_new f) (\<lambda>_. False) (Suc fuel) obs C m g = Some (b, g')
      \<and> graph_inv f N X g' \<and> step X (Suc m) {} g g' \<and> nst g' m = Clean \<and> (\<not> b \<longrightarrow> g_value g' m = g_value g m)"
    proof (cases "g_kind g m = Memo")
      case True
      have "\<forall>c \<in> X. m < c" using Suc.prems(2) m(1) by auto
      then show ?thesis
        using m(1,3) Suc.prems True
        by (intro update_memo_spec [OF assms _ _ m(3) _ True] Suc.IH) auto
    next
      case False
      then show ?thesis using m(2,3) by (auto simp: is_source_def nst_def)
    qed
  qed
qed (simp add: updates_before_def)

end
