(* ===== verification/Reactive_System.thy ===== *)
theory Reactive_System
  imports Reactive_Update
begin

text \<open>
  The graph as a system: nodes are made, signals are written, memos are read and effects are
  polled, in any order. Every reachable graph is consistent; so a memo read gives the value that
  a computation from scratch would give, and a quiet effect has seen the current values.
\<close>

section \<open>From scratch\<close>

text \<open>The value of a node computed from the signals, with nothing stored.\<close>

fun ideal :: "(nat \<Rightarrow> ('v, 'v) comp) \<Rightarrow> 'v graph \<Rightarrow> nat \<Rightarrow> 'v option" where
  "ideal f g n =
    (case g_kind g n of
       Signal \<Rightarrow> g_value g n
     | Memo \<Rightarrow> Some (eval (\<lambda>m. if m < n then ideal f g m else None) (f n))
     | _ \<Rightarrow> None)"

declare ideal.simps [simp del]

lemma ideal_memo:
  assumes "reads_before n (f n)" and "g_kind g n = Memo"
  shows "ideal f g n = Some (eval (ideal f g) (f n))"
proof -
  have "(if m < n then ideal f g m else None) = ideal f g m"
    if "m \<in> deps (\<lambda>m. if m < n then ideal f g m else None) (f n)" for m
    using deps_before [OF assms(1) that] by simp
  from eval_deps_cong [of "\<lambda>m. if m < n then ideal f g m else None" "f n" "ideal f g", OF this]
  show ?thesis using assms(2) ideal.simps [of f g n] by simp
qed

definition same_signals :: "'v graph \<Rightarrow> 'v graph \<Rightarrow> bool" where
  "same_signals g g' \<longleftrightarrow> g_kind g' = g_kind g \<and> (\<forall>n. g_kind g n = Signal \<longrightarrow> g_value g' n = g_value g n)"

lemma same_signals_refl [simp]: "same_signals g g"
  by (simp add: same_signals_def)

lemma same_signals_trans: "same_signals g g' \<Longrightarrow> same_signals g' g'' \<Longrightarrow> same_signals g g''"
  by (simp add: same_signals_def)

lemma step_same_signals: "step X b Y g g' \<Longrightarrow> same_signals g g'"
  by (simp add: step_def same_signals_def)

lemma ideal_same_signals:
  assumes "same_signals g g'"
  shows "ideal f g' = ideal f g"
proof
  show "ideal f g' n = ideal f g n" for n
    using assms
proof (induction n rule: less_induct)
  case (less n)
  then have "(\<lambda>m. if m < n then ideal f g' m else None) = (\<lambda>m. if m < n then ideal f g m else None)"
    by (auto simp: fun_eq_iff)
  then show ?case
    using less.prems unfolding ideal.simps [of f g' n] ideal.simps [of f g n]
    by (auto simp: same_signals_def split: node_kind.splits)
qed
qed

text \<open>What is clean has the value that a computation from scratch gives.\<close>

lemma ideal_clean:
  assumes inv: "graph_inv f N X g" and f: "\<And>m. reads_before m (f m)"
  shows "is_source g n \<Longrightarrow> nst g n = Clean \<Longrightarrow> g_value g n = ideal f g n"
proof (induction n rule: less_induct)
  case (less n)
  show ?case
  proof (cases "g_kind g n = Memo")
    case True
    have n: "n \<notin> X" using not_running_source [OF inv less.prems] .
    then have set: "settled f g n" using inv_settled [OF inv, of n] True less.prems(2) by (simp add: watched_def)
    have "val g m = ideal f g m" if m: "m \<in> deps (val g) (f n)" for m
    proof (cases "is_source g m")
      case True
      then have "m \<in> set (g_sources g n)" using set m by (simp add: settled_def)
      then have "nst g m = Clean" using inv_clean [OF inv _ n] less.prems(2) by blast
      then show ?thesis using less.IH [of m] True deps_before [OF f m] by (simp add: val_def)
    next
      case False
      then show ?thesis by (simp add: val_def is_source_def ideal.simps split: node_kind.splits)
    qed
    from eval_deps_cong [of "val g" "f n" "ideal f g", OF this] set
    show ?thesis by (simp add: settled_def ideal_memo [of n f, OF f True])
  next
    case False
    then show ?thesis using less.prems(1) by (simp add: is_source_def ideal.simps)
  qed
qed

lemma ideal_sources:
  assumes inv: "graph_inv f N X g" and f: "\<And>m. reads_before m (f m)"
    and src: "set (g_sources g n) = {s \<in> deps (val g) (f n). is_source g s}" "\<forall>s \<in> set (g_sources g n). nst g s = Clean"
  shows "eval (val g) (f n) = eval (ideal f g) (f n)"
proof -
  have "val g m = ideal f g m" if "m \<in> deps (val g) (f n)" for m
  proof (cases "is_source g m")
    case True
    then show ?thesis using ideal_clean [OF inv f True] src that by (simp add: val_def)
  next
    case False
    then show ?thesis by (simp add: val_def is_source_def ideal.simps split: node_kind.splits)
  qed
  from eval_deps_cong [of "val g" "f n" "ideal f g", OF this] show ?thesis by simp
qed

section \<open>Reads and writes\<close>

lemma read_untracked_spec:
  assumes inv: "graph_inv f N {} g" and f: "\<And>m. reads_before m (f m)" and fuel: "N \<le> mark_fuel" "N \<le> fuel"
  shows "\<exists>g'. read_untracked mark_fuel (memo_new f) (\<lambda>_. False) fuel n g = Some (ideal f g n, g')
    \<and> graph_inv f N {} g' \<and> same_signals g g' \<and> step {} (Suc n) {} g g'"
proof (cases "g_kind g n = Memo")
  case True
  then have n: "is_source g n" "n < N" using inv_bound [OF inv, of n] by (simp_all add: is_source_def)
  have "updates_before f N {} N (update_if_necessary mark_fuel (memo_new f) (\<lambda>_. False) fuel None {})"
    using fuel by (intro update_spec [OF f]) auto
  then obtain b g' where g': "update_if_necessary mark_fuel (memo_new f) (\<lambda>_. False) fuel None {} n g = Some (b, g')"
      "graph_inv f N {} g'" "step {} (Suc n) {} g g'" "nst g' n = Clean"
    using n inv unfolding updates_before_def by blast
  have "g_value g' n = ideal f g n"
    using ideal_clean [OF g'(2) f] g'(4) n(1) step_is [OF g'(3)] ideal_same_signals [OF step_same_signals [OF g'(3)]] by simp
  then show ?thesis
    using True g' step_same_signals by (auto simp: read_untracked_def read_node_def)
next
  case False
  then show ?thesis using inv
    by (auto simp: read_untracked_def read_node_def ideal.simps split: node_kind.splits)
qed

lemma set_signal_spec:
  assumes inv: "graph_inv f N {} g" and fuel: "N \<le> mark_fuel"
  shows "\<exists>g'. set_signal mark_fuel n v g = Some g' \<and> graph_inv f N {} g'
    \<and> g_kind g' = g_kind g \<and> g_value g' = (if g_kind g n = Signal then (g_value g)(n := Some v) else g_value g)"
proof (cases "g_kind g n = Signal")
  case False
  then show ?thesis using inv by (simp add: set_signal_def)
next
  case True
  let ?g = "g\<lparr>g_value := (g_value g)(n := Some v)\<rparr>"
  have "edges_up N ?g" "closed_under_subs UNIV ?g" "\<forall>x \<in> set (g_subs g n). is_subscriber ?g x"
    using inv_up [OF inv] by (auto simp: edges_up_def closed_under_subs_def)
  then obtain g' where g': "fold_opt (mark_dirty mark_fuel) (g_subs g n) ?g = Some g'" "marks UNIV ?g g'"
      "\<And>x. x \<in> set (g_subs g n) \<Longrightarrow> nst g' x = Dirty"
    using fold_mark_dirty [of N ?g UNIV "g_subs g n" mark_fuel None] fuel by auto
  have same: "g_kind g' = g_kind g" "g_sources g' = g_sources g" "g_subs g' = g_subs g"
    "g_value g' = (g_value g)(n := Some v)"
    using marks_same [OF g'(2)] by (simp_all add: same_nodes_def)
  have kinds: "is_source g' = is_source g" "is_subscriber g' = is_subscriber g" "watched f g' = watched f g"
    by (auto simp: is_source_def is_subscriber_def watched_def same)
  have up: "nst g m \<le> nst g' m" for m using g'(2) raised_nst [of UNIV ?g g' m] by (simp add: marks_def)
  have "graph_inv f N {} g'"
  proof (rule invI)
    show "edges_up N g'" using inv_up [OF inv] by (simp add: edges_up_def same kinds)
    show "edges_match g'" using inv_match [OF inv] by (simp add: edges_match_def same)
    show "settled f g' m" if m: "watched f g' m" "nst g' m \<noteq> Dirty" for m
    proof -
      have "nst g m \<noteq> Dirty" using up [of m] m(2) by auto
      then have "settled f g m" using inv_settled [OF inv, of m] m(1) kinds by simp
      moreover have "n \<notin> set (g_sources g m)" using g'(3) [of m] m(2) source_edge(1) [OF inv] by blast
      moreover have "m \<noteq> n" using m(1) True by (auto simp: watched_def same)
      ultimately show ?thesis by (intro settled_cong [of g' g m]) (auto simp: same)
    qed
    show "nst g' s = Clean" if s: "s \<in> set (g_sources g' m)" "nst g' m = Clean" for m s
    proof (rule ccontr)
      assume "nst g' s \<noteq> Clean"
      moreover have "nst g m = Clean" using up [of m] s(2) by simp
      then have "nst g s = Clean" "m \<in> set (g_subs g s)"
        using s(1) inv_clean [OF inv] source_edge(1) [OF inv] by (auto simp: same)
      ultimately show False using g'(2) s(2) by (auto simp: marks_def spreads_def)
    qed
    show "g_set g' m" if "g_dirty g' m" for m
      using that inv_notified [OF inv, of m] g'(2) by (simp add: marks_def raised_def)
  qed (use inv_bound [OF inv] inv_sorted [OF inv] in \<open>auto simp: same\<close>)
  then show ?thesis using True g'(1) same by (simp add: set_signal_def notify_def)
qed

section \<open>Effects\<close>

text \<open>An effect's task takes its flags: it is then running.\<close>

lemma nst_taken [simp]:
  "nst (g\<lparr>g_set := (g_set g)(e := False), g_dirty := (g_dirty g)(e := False)\<rparr>) m =
    (if m = e \<and> g_kind g e = Effect then Clean else nst g m)"
  by (auto simp: nst_def split: node_kind.splits)

lemma taken_inv:
  assumes inv: "graph_inv f N {} g" and e: "g_kind g e = Effect"
  shows "graph_inv f N {e} (g\<lparr>g_set := (g_set g)(e := False), g_dirty := (g_dirty g)(e := False)\<rparr>)" (is "graph_inv f N {e} ?g")
proof (rule invI)
  have src: "s \<noteq> e" if "s \<in> set (g_sources g m)" for s m
    using source_edge(2) [OF inv that] e by (auto simp: is_source_def)
  show "edges_up N ?g" "edges_match ?g"
    using inv_up [OF inv] inv_match [OF inv] by (simp_all add: edges_up_def edges_match_def)
  show "settled f ?g m" if "watched f ?g m" "m \<notin> {e}" "nst ?g m \<noteq> Dirty" for m
    using that by (intro settled_cong [OF _ _ _ inv_settled [OF inv, of m]]) auto
  show "nst ?g s = Clean" if "s \<in> set (g_sources ?g m)" "m \<notin> {e}" "nst ?g m = Clean" for m s
    using that inv_clean [OF inv, of s m] by auto
qed (use inv_bound [OF inv] inv_notified [OF inv] inv_sorted [OF inv] e in \<open>auto simp: is_subscriber_def split: if_splits\<close>)

text \<open>At the end of a round the effect is like any other node again.\<close>

lemma released_inv:
  assumes inv: "graph_inv f N {e} g" and e: "g_kind g e = Effect"
    and settled: "in_order 0 (f e) \<Longrightarrow> nst g e \<noteq> Dirty \<Longrightarrow> settled f g e"
    and sorted: "in_order 0 (f e) \<Longrightarrow> sorted (g_sources g e)"
    and clean: "\<forall>s \<in> set (g_sources g e). nst g s = Clean"
  shows "graph_inv f N {} g"
proof (rule invI)
  show "settled f g m" if "watched f g m" "nst g m \<noteq> Dirty" for m
    using that inv_settled [OF inv, of m] settled e by (cases "m = e") (auto simp: watched_def)
  show "nst g s = Clean" if "s \<in> set (g_sources g m)" "nst g m = Clean" for m s
    using that inv_clean [OF inv, of s m] clean by (cases "m = e") auto
  show "sorted (g_sources g m)" if "g_kind g m = Effect" "in_order 0 (f m)" for m
    using that inv_sorted [OF inv, of m] sorted by (cases "m = e") auto
qed (use inv_up [OF inv] inv_match [OF inv] inv_bound [OF inv] inv_notified [OF inv] in auto)

text \<open>
  The sources of an effect are updated in turn until one changed; when none did and they are in
  order, their values are those from before the round.
\<close>

lemma any_source_spec:
  assumes up: "updates_before f N X n update_fn"
  shows "graph_inv f N X g \<Longrightarrow> set ss \<subseteq> {s. s < n \<and> is_source g s} \<Longrightarrow>
    \<exists>b g'. any_source update_fn ss g = Some (b, g') \<and> graph_inv f N X g' \<and> step X n {} g g'
      \<and> (\<not> b \<longrightarrow> (\<forall>s \<in> set ss. nst g' s = Clean)
          \<and> (sorted ss \<longrightarrow> distinct ss \<longrightarrow> (\<forall>s \<in> set ss. g_value g' s = g_value g s)))"
proof (induction ss arbitrary: g)
  case (Cons s ss)
  then have s: "s < n" "is_source g s" by auto
  obtain b g1 where g1: "update_fn s g = Some (b, g1)" "graph_inv f N X g1" "step X (Suc s) {} g g1" "nst g1 s = Clean"
      "\<not> b \<longrightarrow> g_value g1 s = g_value g s"
    using up s Cons.prems(1) unfolding updates_before_def by blast
  have step1: "step X n {} g g1" using step_weaken [OF g1(3)] s(1) by simp
  show ?case
  proof (cases b)
    case True
    then show ?thesis using g1 step1 by (intro exI [of _ True] exI [of _ g1]) auto
  next
    case False
    have "set ss \<subseteq> {s. s < n \<and> is_source g1 s}" using Cons.prems(2) step_is [OF step1] by auto
    then obtain b' g2 where g2: "any_source update_fn ss g1 = Some (b', g2)" "graph_inv f N X g2" "step X n {} g1 g2"
        "\<not> b' \<longrightarrow> (\<forall>s \<in> set ss. nst g2 s = Clean)
          \<and> (sorted ss \<longrightarrow> distinct ss \<longrightarrow> (\<forall>s \<in> set ss. g_value g2 s = g_value g1 s))"
      using Cons.IH [OF g1(2)] by blast
    have "s \<notin> X" using not_running_source [OF g1(2) _ g1(4)] s(2) step_is [OF step1] by simp
    then have s2: "nst g2 s = Clean" "g_value g2 s = g_value g s"
      using step_clean [OF g2(3)] step_clean_value [OF g2(3)] g1(4,5) False by simp_all
    have "g_value g1 t = g_value g t" if "sorted (s # ss)" "distinct (s # ss)" "t \<in> set ss" for t
    proof -
      have "s \<le> t" "s \<noteq> t" using that by auto
      then show ?thesis using step_value [OF g1(3), of t] by simp
    qed
    then show ?thesis using False g1(1) g2 s2 step_trans [OF step1 g2(3)] by auto
  qed
qed (auto intro!: exI [of _ False])

lemma effect_check_spec:
  assumes inv: "graph_inv f N {} g" and e: "g_kind g e = Effect" and f: "\<And>m. reads_before m (f m)"
    and fuel: "N \<le> mark_fuel" "N \<le> fuel"
  shows "\<exists>b g'. update_if_necessary mark_fuel (memo_new f) (\<lambda>_. False) fuel (Some e) {} e (g\<lparr>g_set := (g_set g)(e := False)\<rparr>) = Some (b, g')
    \<and> graph_inv f N {e} g' \<and> same_signals g g' \<and> g_value g' e = g_value g e \<and> g_first g' = g_first g
    \<and> (g_dirty g e \<longrightarrow> b) \<and> (\<not> b \<longrightarrow> graph_inv f N {} g' \<and> (in_order 0 (f e) \<longrightarrow> settled f g' e)
      \<and> (\<forall>s \<in> set (g_sources g' e). nst g' s = Clean))"
proof -
  let ?g = "g\<lparr>g_set := (g_set g)(e := False), g_dirty := (g_dirty g)(e := False)\<rparr>"
  obtain k where k: "fuel = Suc k" "e \<le> k"
    using fuel(2) inv_bound [OF inv, of e] e by (cases fuel) auto
  note taken = taken_inv [OF inv e]
  have taken_same: "same_signals g ?g" by (simp add: same_signals_def)
  show ?thesis
  proof (cases "g_dirty g e")
    case True
    then show ?thesis using e k taken taken_same by auto
  next
    case False
    then have eq: "?g = g\<lparr>g_set := (g_set g)(e := False)\<rparr>" by (intro graph.equality) (auto simp: fun_eq_iff)
    have "updates_before f N {e} e (update_if_necessary mark_fuel (memo_new f) (\<lambda>_. False) k (Some e) {})"
      using fuel k by (intro update_spec [OF f]) auto
    moreover have "set (g_sources g e) \<subseteq> {s. s < e \<and> is_source ?g s}" using source_edge(2,4) [OF inv] by auto
    ultimately obtain b g' where g': "any_source (update_if_necessary mark_fuel (memo_new f) (\<lambda>_. False) k (Some e) {}) (g_sources g e) ?g
          = Some (b, g')" "graph_inv f N {e} g'" "step {e} e {} ?g g'"
        "\<not> b \<longrightarrow> (\<forall>s \<in> set (g_sources g e). nst g' s = Clean)
          \<and> (sorted (g_sources g e) \<longrightarrow> distinct (g_sources g e) \<longrightarrow> (\<forall>s \<in> set (g_sources g e). g_value g' s = g_value ?g s))"
      using any_source_spec [OF _ taken, of e _ "g_sources g e"] by blast
    have same: "g_kind g' = g_kind g" "g_first g' = g_first g" "g_value g' e = g_value g e" "g_sources g' e = g_sources g e"
      using stepD [OF g'(3)] by simp_all
    have sorted: "sorted (g_sources g' e)" if "in_order 0 (f e)" using that inv_sorted [OF inv e] same by simp
    have settled: "settled f g' e" if "\<not> b" "in_order 0 (f e)"
    proof (rule settled_cong [of g' g])
      show "settled f g e" using inv_settled [OF inv, of e] that(2) e False by (simp add: watched_def nst_def)
      have "distinct (g_sources g e)" using inv_match [OF inv] by (simp add: edges_match_def)
      then show "g_value g' s = g_value g s" if "s \<in> set (g_sources g e)" for s
        using g'(4) sorted [OF \<open>in_order 0 (f e)\<close>] \<open>\<not> b\<close> that same by simp
    qed (simp_all add: same)
    have "graph_inv f N {} g'" if "\<not> b"
      using that e same g'(4) by (intro released_inv [OF g'(2)] settled sorted) auto
    moreover have "same_signals g g'" using step_same_signals [OF g'(3)] taken_same same_signals_trans by blast
    ultimately show ?thesis using e k False g' same eq settled by auto
  qed
qed

text \<open>The value that an effect keeps, and that it ran, matter to no other node.\<close>

lemma effect_fields_inv:
  assumes inv: "graph_inv f N X g" and e: "g_kind g e = Effect" "e \<in> X"
  shows "graph_inv f N X (g\<lparr>g_value := (g_value g)(e := v)\<rparr>)" and "graph_inv f N X (g\<lparr>g_first := b\<rparr>)"
proof -
  let ?g = "g\<lparr>g_value := (g_value g)(e := v)\<rparr>"
  have src: "s \<noteq> e" if "s \<in> set (g_sources g m)" for s m
    using source_edge(2) [OF inv that] e by (auto simp: is_source_def)
  show "graph_inv f N X ?g"
  proof (rule invI)
    show "edges_up N ?g" "edges_match ?g"
      using inv_up [OF inv] inv_match [OF inv] by (simp_all add: edges_up_def edges_match_def)
    show "settled f ?g m" if "watched f ?g m" "m \<notin> X" "nst ?g m \<noteq> Dirty" for m
      using that e(2) by (intro settled_cong [OF _ _ _ inv_settled [OF inv, of m]]) (auto dest: src)
  qed (use inv_bound [OF inv] inv_clean [OF inv] inv_running [OF inv] inv_runs [OF inv] inv_notified [OF inv]
      inv_sorted [OF inv] in auto)
  let ?h = "g\<lparr>g_first := b\<rparr>"
  show "graph_inv f N X ?h"
  proof (rule invI)
    show "edges_up N ?h" "edges_match ?h"
      using inv_up [OF inv] inv_match [OF inv] by (simp_all add: edges_up_def edges_match_def)
    show "settled f ?h m" if "watched f ?h m" "m \<notin> X" "nst ?h m \<noteq> Dirty" for m
      using that by (intro settled_cong [OF _ _ _ inv_settled [OF inv, of m]]) auto
  qed (use inv_bound [OF inv] inv_clean [OF inv] inv_running [OF inv] inv_runs [OF inv] inv_notified [OF inv]
      inv_sorted [OF inv] in auto)
qed

text \<open>A run of an effect's function: it sees the values from scratch.\<close>

definition run_effect ::
  "nat \<Rightarrow> (nat \<Rightarrow> ('v, 'v) comp) \<Rightarrow> nat \<Rightarrow> nat \<Rightarrow> 'v graph \<Rightarrow> ('v \<times> 'v graph) option" where
  "run_effect mark_fuel f fuel e g =
     run_comp (read_node (update_if_necessary mark_fuel (memo_new f) (\<lambda>_. False) fuel (Some e) {}) (Some e) {}) (f e) g"

lemma run_effect_spec:
  assumes inv: "graph_inv f N {e} g" and e: "g_kind g e = Effect" and f: "\<And>m. reads_before m (f m)"
    and fuel: "N \<le> mark_fuel" "N \<le> fuel"
    and v0: "v0 = (g_value (clear_sources e (g\<lparr>g_first := (g_first g)(e := False)\<rparr>)))(e := None)"
  shows "\<exists>g'. run_effect mark_fuel f fuel e ((clear_sources e (g\<lparr>g_first := (g_first g)(e := False)\<rparr>))\<lparr>g_value := v0\<rparr>) =
        Some (eval (ideal f g) (f e), g')
     \<and> graph_inv f N {} (g'\<lparr>g_value := (g_value g')(e := Some (eval (ideal f g) (f e)))\<rparr>)
     \<and> settled f (g'\<lparr>g_value := (g_value g')(e := Some (eval (ideal f g) (f e)))\<rparr>) e
     \<and> same_signals g g' \<and> (\<forall>s \<in> set (g_sources g' e). nst g' s = Clean)"
proof -
  let ?g1 = "g\<lparr>g_first := (g_first g)(e := False)\<rparr>"
  let ?g2 = "clear_sources e ?g1"
  let ?g3 = "?g2\<lparr>g_value := v0\<rparr>"
  have inv1: "graph_inv f N {e} ?g1" using effect_fields_inv(2) [OF inv e] by simp
  then have inv2: "graph_inv f N {e} ?g2"
    using clear_sources_inv [OF inv1, of e] e by (simp add: is_subscriber_def)
  have g2: "g_kind ?g2 = g_kind g" "g_value ?g2 = g_value g" "g_sources ?g2 e = []"
    using clear_sources_eq [OF inv1] by simp_all
  have inv3: "graph_inv f N {e} ?g3" using effect_fields_inv(1) [OF inv2, of e] e g2 v0 by simp
  have same3: "same_signals g ?g3" using g2 v0 e by (auto simp: same_signals_def)
  have "updates_before f N {e} e (update_if_necessary mark_fuel (memo_new f) (\<lambda>_. False) fuel (Some e) {})"
    using fuel inv_bound [OF inv, of e] e by (intro update_spec [OF f]) auto
  then obtain g' where g': "run_effect mark_fuel f fuel e ?g3 = Some (eval (val g') (f e), g')"
      "graph_inv f N {e} g'" "step {e} e {e} ?g3 g'" "set (g_sources g' e) = {s \<in> deps (val g') (f e). is_source ?g3 s}"
      "\<forall>s \<in> set (g_sources g' e). nst g' s = Clean" "in_order 0 (f e) \<longrightarrow> sorted (g_sources g' e)"
    using run_spec [OF _ _ _ _ inv3 f [of e], where C = "{}" and b = 0] g2(3) unfolding run_effect_def by fastforce
  have same: "same_signals g g'" using step_same_signals [OF g'(3)] same3 same_signals_trans by blast
  have src: "set (g_sources g' e) = {s \<in> deps (val g') (f e). is_source g' s}"
    using g'(4) step_is [OF g'(3)] by auto
  have val: "eval (val g') (f e) = eval (ideal f g) (f e)"
    using ideal_sources [OF g'(2) f src g'(5)] ideal_same_signals [OF same] by simp
  let ?g4 = "g'\<lparr>g_value := (g_value g')(e := Some (eval (val g') (f e)))\<rparr>"
  have kind: "g_kind g' e = Effect" using e same by (simp add: same_signals_def)
  have "val ?g4 = val g'" using kind by (auto simp: val_def is_source_def fun_eq_iff)
  then have settled: "settled f ?g4 e" using src by (simp add: settled_def)
  then have "graph_inv f N {} ?g4"
    using g'(5,6) kind effect_fields_inv(1) [OF g'(2) kind] by (intro released_inv [of f N e]) auto
  then show ?thesis using g' same settled by (auto simp: val)
qed

lemma poll_effect_spec:
  assumes inv: "graph_inv f N {} g" and e: "g_kind g e = Effect" "g_set g e" and f: "\<And>m. reads_before m (f m)"
    and fuel: "N \<le> mark_fuel" "N \<le> fuel"
  shows "\<exists>g'. poll_effect mark_fuel (memo_new f) (\<lambda>_. False) (\<lambda>n _. f n) fuel e g = Some g' \<and> graph_inv f N {} g'
    \<and> same_signals g g' \<and> (\<forall>s \<in> set (g_sources g' e). nst g' s = Clean) \<and> (in_order 0 (f e) \<longrightarrow> settled f g' e)
    \<and> (\<exists>changed g1. update_if_necessary mark_fuel (memo_new f) (\<lambda>_. False) fuel (Some e) {} e (snd (receiver_poll e g)) = Some (changed, g1)
         \<and> (g_dirty g e \<or> g_first g e \<longrightarrow> changed \<or> g_first g1 e)
         \<and> g_value g' e = (if changed \<or> g_first g1 e then Some (eval (ideal f g) (f e)) else g_value g e))"
proof -
  obtain b g1 where g1: "update_if_necessary mark_fuel (memo_new f) (\<lambda>_. False) fuel (Some e) {} e (g\<lparr>g_set := (g_set g)(e := False)\<rparr>) = Some (b, g1)"
      "graph_inv f N {e} g1" "same_signals g g1" "g_value g1 e = g_value g e" "g_first g1 = g_first g" "g_dirty g e \<longrightarrow> b"
      "\<not> b \<longrightarrow> graph_inv f N {} g1 \<and> (in_order 0 (f e) \<longrightarrow> settled f g1 e) \<and> (\<forall>s \<in> set (g_sources g1 e). nst g1 s = Clean)"
    using effect_check_spec [OF inv e(1) f fuel] by blast
  show ?thesis
  proof (cases "b \<or> g_first g e")
    case False
    then show ?thesis using e g1 by (auto simp: poll_effect_def simp del: update_if_necessary.simps)
  next
    case True
    have kind: "g_kind g1 e = Effect" using g1(3) e(1) by (simp add: same_signals_def)
    obtain g2 where g2: "run_effect mark_fuel f fuel e ((clear_sources e (g1\<lparr>g_first := (g_first g1)(e := False)\<rparr>))\<lparr>g_value :=
          (g_value (clear_sources e (g1\<lparr>g_first := (g_first g1)(e := False)\<rparr>)))(e := None)\<rparr>) = Some (eval (ideal f g1) (f e), g2)"
        "graph_inv f N {} (g2\<lparr>g_value := (g_value g2)(e := Some (eval (ideal f g1) (f e)))\<rparr>)"
        "settled f (g2\<lparr>g_value := (g_value g2)(e := Some (eval (ideal f g1) (f e)))\<rparr>) e"
        "same_signals g1 g2" "\<forall>s \<in> set (g_sources g2 e). nst g2 s = Clean"
      using run_effect_spec [OF g1(2) kind f fuel refl] by blast
    have "ideal f g1 = ideal f g" using ideal_same_signals [OF g1(3)] by simp
    moreover have "same_signals g (g2\<lparr>g_value := (g_value g2)(e := Some v)\<rparr>)" for v
      using same_signals_trans [OF g1(3) g2(4)] e(1) by (auto simp: same_signals_def)
    ultimately show ?thesis
      using True e g1(1,5) g2 by (auto simp: poll_effect_def Let_def run_effect_def simp del: update_if_necessary.simps)
  qed
qed

section \<open>New nodes\<close>

lemma new_node_inv:
  assumes inv: "graph_inv f N {} g" and f: "\<And>m. reads_before m (f m)"
    and same: "g_sources g' = g_sources g" "g_subs g' = g_subs g"
    and fields: "\<And>m. m \<noteq> N \<Longrightarrow> g_kind g' m = g_kind g m \<and> g_value g' m = g_value g m \<and> g_state g' m = g_state g m
      \<and> g_dirty g' m = g_dirty g m \<and> g_set g' m = g_set g m"
    and notified: "\<And>m. g_dirty g' m \<Longrightarrow> g_set g' m" and dirty: "is_subscriber g' N \<Longrightarrow> nst g' N = Dirty"
  shows "graph_inv f (Suc N) {} g'"
proof -
  have edge: "s < N" "n < N" if "s \<in> set (g_sources g n)" for s n
    using source_edge(4,5) [OF inv that] by simp_all
  have others: "g_kind g' m = g_kind g m \<and> g_value g' m = g_value g m \<and> nst g' m = nst g m" if "m \<noteq> N" for m
    using fields [OF that] by (cases "g_kind g m") (auto simp: nst_def)
  have kinds: "is_source g' m = is_source g m" "is_subscriber g' m = is_subscriber g m" "watched f g' m = watched f g m"
    if "m \<noteq> N" for m
    using others [OF that] by (simp_all add: is_source_def is_subscriber_def watched_def)
  have val: "val g m = val g' m" if "m \<noteq> N" for m using others [OF that] kinds [OF that] by (simp add: val_def)
  show ?thesis
  proof (rule invI)
    have "is_source g' y \<and> is_subscriber g' z \<and> y < z \<and> z < Suc N" if "z \<in> set (g_subs g y)" for y z
    proof -
      have y: "y \<in> set (g_sources g z)" using that inv_match [OF inv] by (simp add: edges_match_def)
      show ?thesis using source_edge [OF inv y] kinds [of y] kinds [of z] by auto
    qed
    then show "edges_up (Suc N) g'" by (simp add: edges_up_def same)
    show "edges_match g'" using inv_match [OF inv] by (simp add: edges_match_def same)
    show "settled f g' m" if m: "watched f g' m" "nst g' m \<noteq> Dirty" for m
    proof -
      have n: "m \<noteq> N" using m dirty by (auto simp: watched_def is_subscriber_def)
      then have w: "watched f g m" "nst g m \<noteq> Dirty" using m kinds others by auto
      then have set: "settled f g m" and "m < N"
        using inv_settled [OF inv, of m] inv_bound [OF inv, of m] by (auto simp: watched_def)
      have less: "k < N" if "k \<in> deps (val g) (f m)" for k using deps_before [OF f that] \<open>m < N\<close> by simp
      then have "val g k = val g' k" if "k \<in> deps (val g) (f m)" for k
        using that val [of k] by fastforce
      moreover have "is_source g' k = is_source g k" if "k \<in> deps (val g) (f m)" for k
        using less [OF that] kinds(1) [of k] by simp
      ultimately show ?thesis
        using set others [OF n] eval_deps_cong [of "val g" "f m" "val g'"] by (auto simp: settled_def same)
    qed
    show "nst g' s = Clean" if "s \<in> set (g_sources g' m)" "nst g' m = Clean" for m s
      using that edge [of s m] others [of s] others [of m] inv_clean [OF inv, of s m] by (auto simp: same)
    show "sorted (g_sources g' m)" if "g_kind g' m = Effect" "in_order 0 (f m)" for m
    proof (cases "m = N")
      case True
      then have "g_sources g' m = []" using edge(2) [of _ N] by (simp add: same) (metis ex_in_conv less_irrefl set_empty)
      then show ?thesis by simp
    qed (use that inv_sorted [OF inv, of m] others [of m] same in auto)
    show "m < Suc N" if "g_kind g' m \<noteq> Gone" for m
      using that others [of m] inv_bound [OF inv, of m] by (cases "m = N") auto
  qed (use notified in auto)
qed

lemma no_graph_inv: "graph_inv f 0 {} no_graph"
  by (simp add: graph_inv_def edges_up_def edges_match_def no_graph_def watched_def)

lemma new_signal_inv:
  assumes "graph_inv f N {} g" and "\<And>m. reads_before m (f m)"
  shows "graph_inv f (Suc N) {} (new_signal N v g)"
  using inv_notified [OF assms(1)]
  by (intro new_node_inv [OF assms]) (auto simp: new_signal_def is_subscriber_def)

lemma new_memo_inv:
  assumes "graph_inv f N {} g" and "\<And>m. reads_before m (f m)"
  shows "graph_inv f (Suc N) {} (new_memo N g)"
  using inv_notified [OF assms(1)]
  by (intro new_node_inv [OF assms]) (auto simp: new_memo_def nst_def is_subscriber_def)

lemma new_effect_inv:
  assumes "graph_inv f N {} g" and "\<And>m. reads_before m (f m)"
  shows "graph_inv f (Suc N) {} (new_effect N g)"
  using inv_notified [OF assms(1)]
  by (intro new_node_inv [OF assms]) (auto simp: new_effect_def nst_def is_subscriber_def split: if_splits)

section \<open>Reachable graphs\<close>

text \<open>
  All that a program does to a graph from outside of its functions, one operation after the other;
  \<open>f\<close> gives the functions of the memos and of the effects.
\<close>

inductive system :: "(nat \<Rightarrow> ('v, 'v) comp) \<Rightarrow> nat \<Rightarrow> 'v graph \<Rightarrow> bool" for f where
  system_empty: "system f 0 no_graph"
| system_signal: "system f N g \<Longrightarrow> system f (Suc N) (new_signal N v g)"
| system_memo: "system f N g \<Longrightarrow> system f (Suc N) (new_memo N g)"
| system_effect: "system f N g \<Longrightarrow> system f (Suc N) (new_effect N g)"
| system_set: "system f N g \<Longrightarrow> N \<le> mark_fuel \<Longrightarrow> set_signal mark_fuel n v g = Some g' \<Longrightarrow> system f N g'"
| system_read: "system f N g \<Longrightarrow> N \<le> mark_fuel \<Longrightarrow> N \<le> fuel \<Longrightarrow>
    read_untracked mark_fuel (memo_new f) (\<lambda>_. False) fuel n g = Some (x, g') \<Longrightarrow> system f N g'"
| system_poll: "system f N g \<Longrightarrow> N \<le> mark_fuel \<Longrightarrow> N \<le> fuel \<Longrightarrow>
    poll_effect mark_fuel (memo_new f) (\<lambda>_. False) (\<lambda>n _. f n) fuel n g = Some g' \<Longrightarrow> system f N g'"

lemma poll_effect_inv:
  assumes "graph_inv f N {} g" and "\<And>m. reads_before m (f m)" and "N \<le> mark_fuel" and "N \<le> fuel"
  shows "\<exists>g'. poll_effect mark_fuel (memo_new f) (\<lambda>_. False) (\<lambda>n _. f n) fuel n g = Some g' \<and> graph_inv f N {} g'"
proof (cases "g_kind g n = Effect \<and> g_set g n")
  case True
  then show ?thesis using poll_effect_spec [OF assms(1) _ _ assms(2-4), of n] by auto
qed (use assms(1) in \<open>auto simp: poll_effect_def\<close>)

lemma system_inv:
  assumes "system f N g" and f: "\<And>m. reads_before m (f m)"
  shows "graph_inv f N {} g"
  using assms(1)
proof (induction rule: system.induct)
  case (system_set N g mark_fuel n v g')
  then show ?case using set_signal_spec [OF system_set.IH system_set.hyps(2), of n v] by auto
next
  case (system_read N g mark_fuel fuel n x g')
  then show ?case using read_untracked_spec [OF system_read.IH f system_read.hyps(2,3), of n] by auto
next
  case (system_poll N g mark_fuel fuel n g')
  then show ?case using poll_effect_inv [OF system_poll.IH f system_poll.hyps(2,3), of n] by auto
qed (simp_all add: no_graph_inv new_signal_inv new_memo_inv new_effect_inv f)

end
