(* ===== verification/Reactive_Behaviour.thy ===== *)
theory Reactive_Behaviour
  imports Reactive_System
begin

text \<open>
  What a program sees of the reactive graph: reads, runs of effects and their ends; and two
  graphs on which the code does not do what it means to.
\<close>

section \<open>What is clean is left alone\<close>

lemma update_clean:
  assumes "is_source g n" and "nst g n = Clean"
  shows "update_if_necessary mark_fuel fns owning (Suc fuel) obs C n g = Some (False, g)"
proof (cases "g_kind g n = Memo")
  case True
  then have "g_state g n = Clean" using assms(2) by (simp add: nst_def)
  then have "g\<lparr>g_state := (g_state g)(n := Clean)\<rparr> = g" by (metis fun_upd_triv graph.surjective graph.update_convs(3))
  then show ?thesis using True \<open>g_state g n = Clean\<close> by (simp add: needs_update_def)
qed (use assms(1) in \<open>auto simp: is_source_def\<close>)

lemma any_source_clean:
  assumes "\<forall>s \<in> set ss. is_source g s \<and> nst g s = Clean"
  shows "any_source (update_if_necessary mark_fuel fns owning (Suc fuel) obs C) ss g = Some (False, g)"
  using assms by (induction ss) (simp_all add: update_clean del: update_if_necessary.simps)

text \<open>A function that reads clean nodes only changes nothing but its own edges.\<close>

definition new_edges :: "'v graph \<Rightarrow> 'v graph \<Rightarrow> bool" where
  "new_edges g g' \<longleftrightarrow> g_kind g' = g_kind g \<and> g_value g' = g_value g \<and> g_state g' = g_state g
     \<and> g_dirty g' = g_dirty g \<and> g_set g' = g_set g \<and> g_first g' = g_first g"

lemma new_edges_refl [simp]: "new_edges g g"
  by (simp add: new_edges_def)

lemma new_edges_trans: "new_edges g g' \<Longrightarrow> new_edges g' g'' \<Longrightarrow> new_edges g g''"
  by (simp add: new_edges_def)

lemma new_edges_same:
  assumes "new_edges g g'"
  shows "nst g' = nst g" "val g' = val g" "g_kind g' = g_kind g" "g_set g' = g_set g" "g_dirty g' = g_dirty g"
    "g_value g' = g_value g" "is_source g' = is_source g"
proof -
  show "nst g' = nst g"
  proof
    show "nst g' n = nst g n" for n using assms by (cases "g_kind g n") (auto simp: new_edges_def nst_def)
  qed
qed (use assms in \<open>auto simp: new_edges_def val_def is_source_def fun_eq_iff\<close>)

lemma track_new_edges: "new_edges g (track obs n g)"
  by (cases obs) (auto simp: track_def add_source_def add_subscriber_def new_edges_def)

lemma run_clean:
  assumes "\<forall>s \<in> deps (val g) c. is_source g s \<longrightarrow> nst g s = Clean"
  shows "\<exists>g'. run_comp (read_node (update_if_necessary mark_fuel fns owning (Suc fuel) obs C) (Some n) C') c g = Some (eval (val g) c, g')
    \<and> new_edges g g'"
  using assms
proof (induction c arbitrary: g)
  case (Read t m k)
  let ?g = "if t then track (Some n) m g else g"
  have new: "new_edges g ?g" by (simp add: track_new_edges)
  note same = new_edges_same [OF new]
  have "read_node (update_if_necessary mark_fuel fns owning (Suc fuel) obs C) (Some n) C' t m g = Some (val g m, ?g)"
  proof (cases "is_source g m")
    case True
    then have "update_if_necessary mark_fuel fns owning (Suc fuel) obs C m ?g = Some (False, ?g)"
      using Read.prems same by (intro update_clean) auto
    then show ?thesis
      using True same by (auto simp: read_node_def val_def is_source_def simp del: update_if_necessary.simps)
  next
    case False
    then show ?thesis
      using same by (cases "g_kind g m") (auto simp: read_node_def val_def is_source_def)
  qed
  moreover obtain g' where "run_comp (read_node (update_if_necessary mark_fuel fns owning (Suc fuel) obs C) (Some n) C') (k (val g m)) ?g
      = Some (eval (val ?g) (k (val g m)), g')" "new_edges ?g g'"
    using Read.IH [OF rangeI, of ?g "val g m"] Read.prems same by (auto simp del: update_if_necessary.simps)
  ultimately show ?case using new_edges_trans [OF new] same by (auto simp del: update_if_necessary.simps)
qed simp

lemma clear_sources_new_edges: "new_edges g (clear_sources n g)"
proof -
  have "new_edges h (fold (remove_subscriber n) ss h)" for ss and h :: "'v graph"
  proof (induction ss arbitrary: h)
    case (Cons s ss)
    have "new_edges h (remove_subscriber n s h)" by (simp add: remove_subscriber_def new_edges_def)
    then show ?case using Cons [of "remove_subscriber n s h"] new_edges_trans by auto
  qed simp
  from this [of "g\<lparr>g_sources := (g_sources g)(n := [])\<rparr>" "g_sources g n"]
  show ?thesis by (simp add: clear_sources_def new_edges_def)
qed

text \<open>
  The second round of an effect: its sources are clean and it is settled (as after the first
  round), so it may run once more but is not notified again.
\<close>

lemma effect_check_clean:
  assumes e: "g_kind g e = Effect" and clean: "\<forall>s \<in> set (g_sources g e). is_source g s \<and> nst g s = Clean"
  shows "\<exists>b. update_if_necessary mark_fuel fns owning (Suc (Suc k)) (Some e) {} e (g\<lparr>g_set := (g_set g)(e := False)\<rparr>) =
    Some (b, g\<lparr>g_set := (g_set g)(e := False), g_dirty := (g_dirty g)(e := False)\<rparr>)"
proof (cases "g_dirty g e")
  case True
  then show ?thesis using e by (intro exI [of _ True]) simp
next
  case False
  let ?g = "g\<lparr>g_set := (g_set g)(e := False)\<rparr>"
  have "is_source ?g s \<and> nst ?g s = Clean" if "s \<in> set (g_sources g e)" for s
  proof -
    have s: "is_source g s" "nst g s = Clean" using that clean by blast+
    then have "s \<noteq> e" using e by (auto simp: is_source_def)
    then show ?thesis using s by (cases "g_kind g s") (auto simp: nst_def is_source_def)
  qed
  then have "any_source (update_if_necessary mark_fuel fns owning (Suc k) (Some e) {}) (g_sources g e) ?g = Some (False, ?g)"
    by (intro any_source_clean) blast
  moreover have "g\<lparr>g_set := (g_set g)(e := False), g_dirty := (g_dirty g)(e := False)\<rparr> = ?g"
    using False by (intro graph.equality) (auto simp: fun_eq_iff)
  ultimately show ?thesis
    using e False by (intro exI [of _ False]) (simp del: update_if_necessary.simps add: update_if_necessary.simps(2) [of _ _ _ "Suc k"])
qed

lemma second_poll:
  assumes inv: "graph_inv f N {} g" and e: "g_kind g e = Effect" and src: "\<forall>s \<in> set (g_sources g e). nst g s = Clean"
    and set: "settled f g e" and fuel: "N < fuel"
  shows "\<exists>g'. poll_effect mark_fuel (memo_new f) (\<lambda>_. False) (\<lambda>n _. f n) fuel e g = Some g' \<and> \<not> g_set g' e \<and> g_value g' e = g_value g e"
proof (cases "g_set g e")
  case False
  then show ?thesis by (simp add: poll_effect_def)
next
  case True
  let ?g1 = "g\<lparr>g_set := (g_set g)(e := False), g_dirty := (g_dirty g)(e := False)\<rparr>"
  let ?c = "clear_sources e (?g1\<lparr>g_first := (g_first g)(e := False)\<rparr>)"
  let ?g2 = "?c\<lparr>g_value := (g_value ?c)(e := None)\<rparr>"
  have "e < N" using inv_bound [OF inv, of e] e by simp
  then obtain k where k: "fuel = Suc (Suc k)" using fuel by (cases fuel; cases "fuel - 1") auto
  have "\<forall>s \<in> set (g_sources g e). is_source g s \<and> nst g s = Clean" using src source_edge(2) [OF inv] by blast
  then obtain b where b: "update_if_necessary mark_fuel (memo_new f) (\<lambda>_. False) fuel (Some e) {} e (g\<lparr>g_set := (g_set g)(e := False)\<rparr>) =
      Some (b, ?g1)"
    using effect_check_clean [OF e] unfolding k by blast
  note same = new_edges_same [OF clear_sources_new_edges [of "?g1\<lparr>g_first := (g_first g)(e := False)\<rparr>" e]]
  have val: "val ?g2 = val g" using same e by (auto simp: val_def is_source_def fun_eq_iff)
  have "nst ?g2 s = Clean" if "s \<in> deps (val g) (f e)" "is_source ?g2 s" for s
  proof -
    have "is_source g s" "s \<noteq> e" using that(2) same e by (auto simp: is_source_def)
    then show ?thesis using that(1) set src same by (simp add: settled_def)
  qed
  then obtain g3 where g3: "run_comp (read_node (update_if_necessary mark_fuel (memo_new f) (\<lambda>_. False) fuel (Some e) {}) (Some e) {}) (f e) ?g2 =
      Some (eval (val g) (f e), g3)" "new_edges ?g2 g3"
    using run_clean [of ?g2 "f e"] unfolding k val by blast
  have "\<not> g_set g3 e" using new_edges_same(4) [OF g3(2)] same(4) by simp
  then show ?thesis
    using e True b g3(1) set by (auto simp: poll_effect_def Let_def settled_def simp del: update_if_necessary.simps)
qed

section \<open>An example\<close>

text \<open>
  A signal, a memo that copies it, a memo that says whether the copy is large, and an effect that
  reads the memos \<open>x\<close> and \<open>y\<close> and keeps the copy. The states of this graph are written with lists, so
  that its operations can be evaluated by rewriting.
\<close>

definition or_zero :: "int option \<Rightarrow> int" where
  "or_zero x = (case x of None \<Rightarrow> 0 | Some v \<Rightarrow> v)"

definition example_fns :: "nat \<Rightarrow> nat \<Rightarrow> nat \<Rightarrow> (int, int) comp" where
  "example_fns x y n =
    (if n = 1 then Read True 0 (\<lambda>x. Done (or_zero x))
     else if n = 2 then Read True 1 (\<lambda>x. Done (if 10 < or_zero x then 1 else 0))
     else if n = 3 \<and> x < 3 \<and> y < 3 then Read True x (\<lambda>a. Read True y (\<lambda>b. Done (or_zero (if x = 1 then a else b))))
     else Done 0)"

definition nth_or :: "'a \<Rightarrow> 'a list \<Rightarrow> nat \<Rightarrow> 'a" where
  "nth_or d xs n = (if n < length xs then xs ! n else d)"

lemma nth_or_update: "n < length xs \<Longrightarrow> (nth_or d xs)(n := v) = nth_or d (xs[n := v])"
  by (auto simp: nth_or_def fun_eq_iff)

lemma nth_or_nth: "n < length xs \<Longrightarrow> nth_or d xs n = xs ! n"
  by (simp add: nth_or_def)

definition example ::
  "int option list \<Rightarrow> node_state list \<Rightarrow> bool \<Rightarrow> bool \<Rightarrow> bool \<Rightarrow> nat list list \<Rightarrow> nat list list \<Rightarrow> int graph" where
  "example values states dirty notified first sources subs =
    \<lparr>g_kind = nth_or Gone [Signal, Memo, Memo, Effect], g_value = nth_or None values, g_state = nth_or Clean states,
     g_dirty = nth_or False [False, False, False, dirty], g_set = nth_or False [False, False, False, notified],
     g_first = nth_or False [False, False, False, first], g_sources = nth_or [] sources, g_subs = nth_or [] subs\<rparr>"

lemmas evaluate = example_def nth_or_update nth_or_nth example_fns_def or_zero_def memo_new_def poll_effect_def
  mark_dirty_def set_signal_def notify_def read_node_def needs_update_def finish_update_def Let_def clear_sources_def
  remove_subscriber_def track_def add_source_def add_subscriber_def idx_insert_def is_source_def is_subscriber_def
  eval_nat_numeral

lemma example_new:
  "new_effect 3 (new_memo 2 (new_memo 1 (new_signal 0 1 no_graph))) =
     example [Some 1, None, None, None] [Clean, Dirty, Dirty, Clean] True True True [[], [], [], []] [[], [], [], []]"
  by (auto simp: new_effect_def new_memo_def new_signal_def no_graph_def example_def nth_or_def fun_eq_iff nth_Cons'
      intro!: graph.equality)

lemma example_start:
  "system (example_fns x y) 4
     (example [Some 1, None, None, None] [Clean, Dirty, Dirty, Clean] True True True [[], [], [], []] [[], [], [], []])"
proof -
  have "system (example_fns x y) (Suc (Suc (Suc (Suc 0)))) (new_effect 3 (new_memo 2 (new_memo 1 (new_signal 0 1 no_graph))))"
    using system_effect [OF system_memo [OF system_memo [OF system_signal [OF system_empty]]]]
    by (simp add: eval_nat_numeral)
  then have "system (example_fns x y) 4 (new_effect 3 (new_memo 2 (new_memo 1 (new_signal 0 1 no_graph))))"
    by (simp add: eval_nat_numeral)
  then show ?thesis unfolding example_new .
qed

lemma example_first_run:
  "poll_effect 4 (memo_new (example_fns 2 1)) (\<lambda>_. False) (\<lambda>n _. example_fns 2 1 n) 4 3
      (example [Some 1, None, None, None] [Clean, Dirty, Dirty, Clean] True True True [[], [], [], []] [[], [], [], []]) =
   Some (example [Some 1, Some 1, Some 0, Some 1] [Clean, Clean, Clean, Clean] False False False
      [[], [0], [1], [2, 1]] [[1], [2, 3], [3], []])"
  by (simp add: evaluate)

lemma example_ordered_first_run:
  "poll_effect 4 (memo_new (example_fns 1 2)) (\<lambda>_. False) (\<lambda>n _. example_fns 1 2 n) 4 3
      (example [Some 1, None, None, None] [Clean, Dirty, Dirty, Clean] True True True [[], [], [], []] [[], [], [], []]) =
   Some (example [Some 1, Some 1, Some 0, Some 1] [Clean, Clean, Clean, Clean] False False False
      [[], [0], [1], [1, 2]] [[1], [3, 2], [3], []])"
  by (simp add: evaluate)

lemma example_set:
  "set_signal 4 0 2 (example [Some 1, Some 1, Some 0, Some 1] [Clean, Clean, Clean, Clean] False False False
      [[], [0], [1], [2, 1]] [[1], [2, 3], [3], []]) =
   Some (example [Some 2, Some 1, Some 0, Some 1] [Clean, Dirty, Check, Clean] False True False
      [[], [0], [1], [2, 1]] [[1], [2, 3], [3], []])"
  by (simp add: evaluate)

lemma example_second_round:
  "poll_effect 4 (memo_new (example_fns 2 1)) (\<lambda>_. False) (\<lambda>n _. example_fns 2 1 n) 4 3
      (example [Some 2, Some 1, Some 0, Some 1] [Clean, Dirty, Check, Clean] False True False
        [[], [0], [1], [2, 1]] [[1], [2, 3], [3], []]) =
   Some (example [Some 2, Some 2, Some 0, Some 1] [Clean, Clean, Clean, Clean] False True False
      [[], [0], [1], [2, 1]] [[1], [3, 2], [3], []])"
  by (simp add: evaluate)

lemma example_third_round:
  "poll_effect 4 (memo_new (example_fns 2 1)) (\<lambda>_. False) (\<lambda>n _. example_fns 2 1 n) 4 3
      (example [Some 2, Some 2, Some 0, Some 1] [Clean, Clean, Clean, Clean] False True False
        [[], [0], [1], [2, 1]] [[1], [3, 2], [3], []]) =
   Some (example [Some 2, Some 2, Some 0, Some 1] [Clean, Clean, Clean, Clean] False False False
      [[], [0], [1], [2, 1]] [[1], [3, 2], [3], []])"
  by (simp add: evaluate)

lemma example_reads: "reads_before m (example_fns x y m)"
  by (simp add: example_fns_def)

lemma example_after_set:
  "system (example_fns 2 1) 4 (example [Some 2, Some 1, Some 0, Some 1] [Clean, Dirty, Check, Clean] False True False
     [[], [0], [1], [2, 1]] [[1], [2, 3], [3], []])"
proof -
  note ran = system_poll [OF example_start order_refl order_refl example_first_run]
  show ?thesis using system_set [OF ran order_refl example_set] .
qed

lemma example_quiet:
  "system (example_fns 2 1) 4 (example [Some 2, Some 2, Some 0, Some 1] [Clean, Clean, Clean, Clean] False False False
     [[], [0], [1], [2, 1]] [[1], [3, 2], [3], []])"
proof -
  note second = system_poll [OF example_after_set order_refl order_refl example_second_round]
  show ?thesis using system_poll [OF second order_refl order_refl example_third_round] .
qed

lemma example_ordered_set:
  "set_signal 4 0 2 (example [Some 1, Some 1, Some 0, Some 1] [Clean, Clean, Clean, Clean] False False False
      [[], [0], [1], [1, 2]] [[1], [3, 2], [3], []]) =
   Some (example [Some 2, Some 1, Some 0, Some 1] [Clean, Dirty, Check, Clean] False True False
      [[], [0], [1], [1, 2]] [[1], [3, 2], [3], []])"
  by (simp add: evaluate)

lemma example_ordered_after_set:
  "system (example_fns 1 2) 4 (example [Some 2, Some 1, Some 0, Some 1] [Clean, Dirty, Check, Clean] False True False
     [[], [0], [1], [1, 2]] [[1], [3, 2], [3], []])"
proof -
  note ran = system_poll [OF example_start order_refl order_refl example_ordered_first_run]
  show ?thesis using system_set [OF ran order_refl example_ordered_set] .
qed

text \<open>The effect is notified but not dirty: its check updates the first memo, which has changed.\<close>

lemma example_ordered_check:
  "\<exists>h. update_if_necessary 4 (memo_new (example_fns 1 2)) (\<lambda>_. False) 4 (Some 3) {} 3
      (snd (receiver_poll 3 (example [Some 2, Some 1, Some 0, Some 1] [Clean, Dirty, Check, Clean] False True False
        [[], [0], [1], [1, 2]] [[1], [3, 2], [3], []]))) = Some (True, h)"
  by (simp add: evaluate)

lemma example_ordered: "in_order 0 (example_fns 1 2 3)"
  by (simp add: example_fns_def)

section \<open>What a program relies on\<close>

text \<open>
  C8. When the functions of all memos and effects read only nodes made before them, all reads
  tracked, every graph that a program can reach (making nodes, writing signals, reading, polling
  effects) is consistent: the edges are known at both ends and go from older to newer nodes; a memo
  that is not dirty is settled, that is, it has the value of its function on the stored values of its
  sources, and its sources are what the function reads; an effect that is not dirty is settled if it
  reads its sources in the order in which they were made (for others nothing is said of their value:
  \<open>effect_misses_a_change\<close>); what is clean has clean sources only; a dirty effect will be polled.
\<close>

theorem reachable_graphs_are_consistent:
  assumes "system f N g" and "\<And>m. reads_before m (f m)"
  shows "graph_inv f N {} g"
  using system_inv [OF assms] .

theorem reachable_graphs_are_consistent_witness:
  "graph_inv (example_fns 2 1) 4 {} (example [Some 2, Some 1, Some 0, Some 1] [Clean, Dirty, Check, Clean] False True False
     [[], [0], [1], [2, 1]] [[1], [2, 3], [3], []])"
  using reachable_graphs_are_consistent [OF example_after_set example_reads] .

text \<open>
  C5. When the functions of all memos and effects read only nodes made before them, all reads
  tracked, a read of a signal or of a memo returns, with fuel for one step per node, and gives the
  value that a computation from scratch of all memos it depends on would give, whatever was
  written, read and polled before. With an untracked read, or with memos that read each other, it need
  not (\<open>memo_cycle_never_returns\<close>).
\<close>

theorem memo_reads_are_current:
  assumes "system f N g" and "\<And>m. reads_before m (f m)" and "N \<le> mark_fuel" and "N \<le> fuel"
  shows "\<exists>g'. read_untracked mark_fuel (memo_new f) (\<lambda>_. False) fuel n g = Some (ideal f g n, g')
    \<and> system f N g' \<and> ideal f g' = ideal f g"
proof -
  obtain g' where g': "read_untracked mark_fuel (memo_new f) (\<lambda>_. False) fuel n g = Some (ideal f g n, g')" "same_signals g g'"
    using read_untracked_spec [OF system_inv [OF assms(1,2)] assms(2-4)] by blast
  then show ?thesis using system_read [OF assms(1,3,4)] ideal_same_signals by blast
qed

lemma example_ideal:
  "ideal (example_fns x y) (example (Some v # vs) sts d s fi srcs subs) 1 = Some v"
  by (simp add: ideal.simps example_def nth_or_def example_fns_def or_zero_def)

theorem memo_reads_are_current_witness:
  "\<exists>g'. read_untracked 4 (memo_new (example_fns 2 1)) (\<lambda>_. False) 4 1
     (example [Some 2, Some 1, Some 0, Some 1] [Clean, Dirty, Check, Clean] False True False
       [[], [0], [1], [2, 1]] [[1], [2, 3], [3], []]) = Some (Some 2, g')"
  using memo_reads_are_current [OF example_after_set example_reads order_refl order_refl, of 1]
  unfolding example_ideal by blast

text \<open>
  Reads are cached: the second of two reads gives the same value and leaves the graph as it
  is, so that no function runs.
\<close>

theorem second_read_does_nothing:
  assumes "system f N g" and "\<And>m. reads_before m (f m)" and "N \<le> mark_fuel" and "N \<le> fuel"
    and "read_untracked mark_fuel (memo_new f) (\<lambda>_. False) fuel n g = Some (x, g')"
  shows "read_untracked mark_fuel (memo_new f) (\<lambda>_. False) fuel n g' = Some (x, g')"
proof (cases "g_kind g n = Memo")
  case True
  note inv = system_inv [OF assms(1,2)]
  have n: "is_source g n" "n < N" using True inv_bound [OF inv, of n] by (simp_all add: is_source_def)
  then obtain k where k: "fuel = Suc k" using assms(4) by (cases fuel) auto
  have "updates_before f N {} N (update_if_necessary mark_fuel (memo_new f) (\<lambda>_. False) fuel None {})"
    using assms(3,4) by (intro update_spec [OF assms(2)]) auto
  then obtain b h where h: "update_if_necessary mark_fuel (memo_new f) (\<lambda>_. False) fuel None {} n g = Some (b, h)"
      "step {} (Suc n) {} g h" "nst h n = Clean"
    using n inv unfolding updates_before_def by blast
  have g': "g' = h" "x = g_value h n" using assms(5) True h(1) by (auto simp: read_untracked_def read_node_def)
  have "is_source h n" "g_kind h n = Memo" using step_is [OF h(2)] step_kind [OF h(2)] n(1) True by simp_all
  then show ?thesis
    using update_clean [OF _ h(3)] unfolding g' k by (simp add: read_untracked_def read_node_def del: update_if_necessary.simps)
next
  case False
  then show ?thesis
    using assms(5) by (auto simp: read_untracked_def read_node_def split: node_kind.splits)
qed

lemma example_read:
  "read_untracked 4 (memo_new (example_fns 2 1)) (\<lambda>_. False) 4 1
     (example [Some 2, Some 1, Some 0, Some 1] [Clean, Dirty, Check, Clean] False True False
       [[], [0], [1], [2, 1]] [[1], [2, 3], [3], []]) =
   Some (Some 2, example [Some 2, Some 2, Some 0, Some 1] [Clean, Clean, Dirty, Clean] True True False
     [[], [0], [1], [2, 1]] [[1], [2, 3], [3], []])"
  by (simp add: evaluate read_untracked_def)

theorem second_read_does_nothing_witness:
  "read_untracked 4 (memo_new (example_fns 2 1)) (\<lambda>_. False) 4 1
     (example [Some 2, Some 2, Some 0, Some 1] [Clean, Clean, Dirty, Clean] True True False
       [[], [0], [1], [2, 1]] [[1], [2, 3], [3], []]) =
   Some (Some 2, example [Some 2, Some 2, Some 0, Some 1] [Clean, Clean, Dirty, Clean] True True False
     [[], [0], [1], [2, 1]] [[1], [2, 3], [3], []])"
  using second_read_does_nothing [OF example_after_set example_reads order_refl order_refl example_read] .

text \<open>
  C33. When the functions of all memos and effects read only nodes made before them, all reads
  tracked, and with fuel for one step per node: one round of a notified effect's task returns. Its
  check of the sources returns, and says that the effect must run if it was marked dirty or never
  ran. Whenever the effect runs (whether it was marked dirty, never ran, or a source turned out to
  have changed when it was checked) the value of the run is that of its function on the values from
  scratch of all that it reads, never on a mixture of old and new ones; otherwise it keeps the value of
  its last run.
\<close>

theorem effect_runs_see_current_values:
  assumes "system f N g" and "\<And>m. reads_before m (f m)" and "N \<le> mark_fuel" and "N \<le> fuel"
    and "g_kind g e = Effect" and "g_set g e"
  shows "\<exists>g' changed g1. poll_effect mark_fuel (memo_new f) (\<lambda>_. False) (\<lambda>n _. f n) fuel e g = Some g' \<and> system f N g'
    \<and> update_if_necessary mark_fuel (memo_new f) (\<lambda>_. False) fuel (Some e) {} e (snd (receiver_poll e g)) = Some (changed, g1)
    \<and> (g_dirty g e \<or> g_first g e \<longrightarrow> changed \<or> g_first g1 e)
    \<and> g_value g' e = (if changed \<or> g_first g1 e then Some (eval (ideal f g) (f e)) else g_value g e)"
  using poll_effect_spec [OF system_inv [OF assms(1,2)] assms(5,6,2,3,4)] system_poll [OF assms(1,3,4)] by blast

lemma example_ideal_effect:
  "x = 1 \<and> y = 2 \<or> x = 2 \<and> y = 1 \<Longrightarrow>
    eval (ideal (example_fns x y) (example (Some v # vs) sts d s fi srcs subs)) (example_fns x y 3) = v"
  using example_ideal [of x y v vs sts d s fi srcs subs] by (auto simp: example_fns_def or_zero_def)

lemma example_effect_fields:
  "g_kind (example vs sts d s fi srcs subs) 3 = Effect" "g_set (example vs sts d s fi srcs subs) 3 = s"
  "g_dirty (example vs sts d s fi srcs subs) 3 = d" "g_first (example vs sts d s fi srcs subs) 3 = fi"
  "g_value (example vs sts d s fi srcs subs) 3 = (if length vs > 3 then vs ! 3 else None)"
  "g_sources (example vs sts d s fi srcs subs) 3 = (if length srcs > 3 then srcs ! 3 else [])"
  by (simp_all add: example_def nth_or_def)

theorem effect_runs_see_current_values_witness:
  "\<exists>g'. poll_effect 4 (memo_new (example_fns 1 2)) (\<lambda>_. False) (\<lambda>n _. example_fns 1 2 n) 4 3
      (example [Some 2, Some 1, Some 0, Some 1] [Clean, Dirty, Check, Clean] False True False
        [[], [0], [1], [1, 2]] [[1], [3, 2], [3], []]) = Some g'
    \<and> g_value g' 3 = Some 2"
  using effect_runs_see_current_values [OF example_ordered_after_set example_reads order_refl order_refl, of 3] example_ordered_check
  by (auto simp: example_effect_fields example_ideal_effect simp del: One_nat_def update_if_necessary.simps receiver_poll_def)

lemma quiet_effect:
  assumes "system f N g" and "\<And>m. reads_before m (f m)" and "g_kind g e = Effect" and "in_order 0 (f e)" and "\<not> g_set g e"
  shows "g_value g e = Some (eval (ideal f g) (f e))"
proof -
  note inv = system_inv [OF assms(1,2)]
  have nst: "nst g e = Clean" using assms(3,5) inv_notified [OF inv, of e] by (auto simp: nst_def)
  then have "settled f g e" using inv_settled [OF inv, of e] assms(3,4) by (simp add: watched_def)
  moreover have "\<forall>s \<in> set (g_sources g e). nst g s = Clean" using inv_clean [OF inv _ _ nst] by simp
  ultimately show ?thesis using ideal_sources [OF inv assms(2), of e] by (simp add: settled_def)
qed

text \<open>
  C27. No change is lost on an effect that reads its sources in the order in which they were made:
  while nothing asks for another round of its task, the value of its last run is that of its
  function on the current values.
\<close>

theorem quiet_effects_are_current:
  assumes "system f N g" and "\<And>m. reads_before m (f m)" and "g_kind g e = Effect" and "in_order 0 (f e)" and "\<not> g_set g e"
  shows "g_value g e = Some (eval (ideal f g) (f e))"
  using quiet_effect [OF assms] .

theorem quiet_effects_are_current_witness:
  "eval (ideal (example_fns 1 2) (example [Some 1, Some 1, Some 0, Some 1] [Clean, Clean, Clean, Clean] False False False
      [[], [0], [1], [1, 2]] [[1], [3, 2], [3], []])) (example_fns 1 2 3) = 1"
  using quiet_effects_are_current [OF system_poll [OF example_start order_refl order_refl example_ordered_first_run]
      example_reads _ example_ordered]
  by (simp add: example_effect_fields)

text \<open>
  C34. For an effect that reads its sources in the order in which they were made (\<open>in_order\<close>), when the
  functions of all memos and effects read only nodes made before them, all reads tracked, and with fuel
  for one step per node and one more: two rounds of its task are enough. After the second nothing asks for
  another one, and the effect has run on the current values (marking a memo dirty while the effect
  is being checked may notify the effect during its own round, which is what the second is for).
\<close>

theorem two_rounds_settle_an_effect:
  assumes "system f N g" and "\<And>m. reads_before m (f m)" and "N \<le> mark_fuel" and "N < fuel"
    and "g_kind g e = Effect" and "in_order 0 (f e)"
  shows "\<exists>g1 g2. poll_effect mark_fuel (memo_new f) (\<lambda>_. False) (\<lambda>n _. f n) fuel e g = Some g1
    \<and> poll_effect mark_fuel (memo_new f) (\<lambda>_. False) (\<lambda>n _. f n) fuel e g1 = Some g2
    \<and> \<not> g_set g2 e \<and> g_value g2 e = Some (eval (ideal f g) (f e))"
proof (cases "g_set g e")
  case True
  have fuel: "N \<le> fuel" using assms(4) by simp
  obtain g1 where g1: "poll_effect mark_fuel (memo_new f) (\<lambda>_. False) (\<lambda>n _. f n) fuel e g = Some g1"
      "graph_inv f N {} g1" "same_signals g g1" "\<forall>s \<in> set (g_sources g1 e). nst g1 s = Clean" "settled f g1 e"
    using poll_effect_spec [OF system_inv [OF assms(1,2)] assms(5) True assms(2,3) fuel] assms(6) by blast
  have kind: "g_kind g1 e = Effect" using g1(3) assms(5) by (simp add: same_signals_def)
  have "g_value g1 e = Some (eval (ideal f g) (f e))"
    using g1(5) ideal_sources [OF g1(2) assms(2) _ g1(4)] ideal_same_signals [OF g1(3)] by (simp add: settled_def)
  then show ?thesis using g1(1) second_poll [OF g1(2) kind g1(4,5) assms(4)] by auto
next
  case False
  then show ?thesis using quiet_effect [OF assms(1,2,5,6) False] by (simp add: poll_effect_def)
qed

theorem two_rounds_settle_an_effect_witness:
  "\<exists>g1 g2. poll_effect 4 (memo_new (example_fns 1 2)) (\<lambda>_. False) (\<lambda>n _. example_fns 1 2 n) 5 3
      (example [Some 1, None, None, None] [Clean, Dirty, Dirty, Clean] True True True [[], [], [], []] [[], [], [], []]) = Some g1
    \<and> poll_effect 4 (memo_new (example_fns 1 2)) (\<lambda>_. False) (\<lambda>n _. example_fns 1 2 n) 5 3 g1 = Some g2
    \<and> \<not> g_set g2 3 \<and> g_value g2 3 = Some 1"
  using two_rounds_settle_an_effect [OF example_start example_reads order_refl _ _ example_ordered, of 5]
  by (simp add: example_effect_fields example_ideal_effect del: One_nat_def)

section \<open>Where the code does not do what it means to\<close>

text \<open>
  An effect can miss a change. It reads a memo that depends on another one, then the other one.
  The second memo changes and the first does not: checking the first recomputes the second with
  the effect as observer, so the effect is not marked; then the second is clean and says that it
  did not change. No round is asked for any more, and the effect has not seen the new value.
\<close>

theorem effect_misses_a_change:
  "\<exists>g. system (example_fns 2 1) 4 g \<and> g_kind g 3 = Effect \<and> g_sources g 3 = [2, 1] \<and> \<not> g_set g 3 \<and> \<not> g_dirty g 3
    \<and> g_value g 3 = Some 1 \<and> eval (ideal (example_fns 2 1) g) (example_fns 2 1 3) = 2"
  using example_quiet
  by (intro exI [of _ "example [Some 2, Some 2, Some 0, Some 1] [Clean, Clean, Clean, Clean] False False False
      [[], [0], [1], [2, 1]] [[1], [3, 2], [3], []]"])
    (simp add: example_effect_fields example_ideal_effect del: One_nat_def)

text \<open>Two memos that read each other (one of them through a handle that it is given later).\<close>

definition cycle_fns :: "nat \<Rightarrow> (int, int) comp" where
  "cycle_fns n = Read True (1 - n) (\<lambda>x. Done (or_zero x))"

definition cycle_graph :: "int graph" where
  "cycle_graph = new_memo 1 (new_memo 0 no_graph)"

lemma mark_check_cycle:
  assumes "g_kind g 0 = Memo" and "g_kind g 1 = Memo" and "g_subs g 0 = [1]" and "g_subs g 1 = [0]" and "n < 2"
  shows "mark_check fuel n g = None"
  using assms
proof (induction fuel arbitrary: n g)
  case (Suc fuel)
  let ?g = "g\<lparr>g_state := (g_state g)(n := if g_state g n \<noteq> Dirty then Check else Dirty)\<rparr>"
  have "n = 0 \<or> n = 1" using Suc.prems(5) by auto
  then have n: "g_kind g n = Memo" "g_subs g n = [1 - n]" using Suc.prems by auto
  have "mark_check fuel (1 - n) ?g = None" using Suc.IH [of ?g "1 - n"] Suc.prems by simp
  then show ?case using n by simp
qed simp

text \<open>
  A read of one of two memos that read each other does not return, however deep the recursion
  may go: each is a subscriber of the other, and marking the one marks the other without end (only
  a memo's edge to itself is left out).
\<close>

theorem memo_cycle_never_returns:
  "read_untracked mark_fuel (memo_new cycle_fns) (\<lambda>_. False) fuel 0 cycle_graph = None"
proof (cases fuel)
  case (Suc k)
  show ?thesis
  proof (cases k)
    case (Suc l)
    show ?thesis
      unfolding \<open>fuel = Suc k\<close> Suc
      by (simp add: evaluate read_untracked_def cycle_graph_def cycle_fns_def new_memo_def no_graph_def mark_check_cycle)
  next
    case 0
    then show ?thesis
      using Suc by (simp add: evaluate read_untracked_def cycle_graph_def cycle_fns_def new_memo_def no_graph_def)
  qed
qed (simp add: read_untracked_def read_node_def cycle_graph_def new_memo_def)


end
