(* ===== verification/Reactive_Observer.thy ===== *)
theory Reactive_Observer
  imports Prelude
begin

text \<open>
  The observer of \<open>graph/subscriber.rs\<close>: which node the reads of a thread are tracked for. It is
  one cell; the functions that change it for the time of a call keep what was there and put it
  back when they return (the drop of \<open>SetObserverOnDrop\<close>).
\<close>

record observer_state =
  subscriber :: nat
  untracked :: bool

type_synonym observer = "observer_state option"

definition observer_get :: "observer \<Rightarrow> nat option" where
  "observer_get obs = Option.bind obs (\<lambda>o'. if untracked o' then None else Some (subscriber o'))"

definition observer_is :: "nat \<Rightarrow> observer \<Rightarrow> bool" where
  "observer_is n obs \<longleftrightarrow> map_option subscriber obs = Some n"

text \<open>What a guard keeps of the previous observer: the subscriber only.\<close>

definition observer_kept :: "observer \<Rightarrow> nat option" where
  "observer_kept obs = map_option subscriber obs"

definition observer_set :: "nat option \<Rightarrow> observer" where
  "observer_set n = map_option (\<lambda>s. \<lparr>subscriber = s, untracked = False\<rparr>) n"

definition observer_take :: "observer \<Rightarrow> nat option \<times> observer" where
  "observer_take obs = (observer_kept obs, None)"

definition observer_replace :: "nat option \<Rightarrow> observer \<Rightarrow> nat option \<times> observer" where
  "observer_replace n obs = (observer_kept obs, map_option (\<lambda>s. \<lparr>subscriber = s, untracked = False\<rparr>) n)"

definition observer_replace_untracked :: "nat option \<Rightarrow> observer \<Rightarrow> nat option \<times> observer" where
  "observer_replace_untracked n obs = (observer_kept obs, map_option (\<lambda>s. \<lparr>subscriber = s, untracked = True\<rparr>) n)"

text \<open>
  Code that reads values under these functions: \<open>Track\<close> stands for a read, and the others for
  calls of the functions with code as their argument. Running it gives, for every read, the node
  that it is tracked for.
\<close>

datatype code = Track | Untrack "code list" | With_Observer "nat option" "code list"
  | With_Observer_Untracked "nat option" "code list"

fun run_code :: "code \<Rightarrow> observer \<Rightarrow> nat option list \<times> observer" and
  run_codes :: "code list \<Rightarrow> observer \<Rightarrow> nat option list \<times> observer" where
  "run_code Track obs = ([observer_get obs], obs)"
| "run_code (Untrack body) obs =
    (let (prev, inner) = observer_take obs in (fst (run_codes body inner), observer_set prev))"
| "run_code (With_Observer n body) obs =
    (let (prev, inner) = observer_replace n obs in (fst (run_codes body inner), observer_set prev))"
| "run_code (With_Observer_Untracked n body) obs =
    (let (prev, inner) = observer_replace_untracked n obs in (fst (run_codes body inner), observer_set prev))"
| "run_codes [] obs = ([], obs)"
| "run_codes (c # cs) obs =
    (let (reads, obs') = run_code c obs; (reads', obs'') = run_codes cs obs' in (reads @ reads', obs''))"

text \<open>What these functions mean: the reads of a piece of code are tracked as their argument says.\<close>

fun meant :: "code \<Rightarrow> nat option \<Rightarrow> nat option list" where
  "meant Track n = [n]"
| "meant (Untrack body) n = concat (map (\<lambda>c. meant c None) body)"
| "meant (With_Observer m body) n = concat (map (\<lambda>c. meant c m) body)"
| "meant (With_Observer_Untracked m body) n = concat (map (\<lambda>c. meant c None) body)"


lemma observer_get_set [simp]: "observer_get (observer_set n) = n"
  by (cases n) (simp_all add: observer_get_def observer_set_def)

lemma observer_kept_set [simp]: "observer_kept (observer_set n) = n"
  by (cases n) (simp_all add: observer_kept_def observer_set_def)

lemma observer_replace_set: "observer_replace n obs = (observer_kept obs, observer_set n)"
  by (simp add: observer_replace_def observer_set_def)





text \<open>
  Under \<open>with_observer_untracked\<close> reads are not tracked, but only until the first inner call
  returns: the guard puts the subscriber back without the flag that its reads are not tracked.
  So the read of a memo that recomputes turns tracking on for the reads after it.
\<close>

theorem untracked_scope_ends_early:
  "fst (run_code (With_Observer_Untracked (Some n) [Track, With_Observer k body, Track]) obs)
     = None # fst (run_codes body (observer_set k)) @ [Some n]
   \<and> meant (With_Observer_Untracked (Some n) [Track, With_Observer k body, Track]) m
     = None # concat (map (\<lambda>c. meant c k) body) @ [None]"
  by (simp add: observer_replace_untracked_def observer_replace_set observer_get_def observer_kept_def observer_set_def)

end
