(* ===== verification/Signal_Record.thy ===== *)
theory Signal_Record
  imports Prelude "HOL-Library.Multiset"
begin

text \<open>
  \<open>reentry.rs\<close>: what a thread is doing with each value. Every access (a read guard, a write in
  progress, a write guard) is recorded while it lives; the record of a signal also holds the
  thread's turn to write it and the writes that were deferred because it was in use.

  One thread is modelled, with its record always within reach (a thread that is shutting down has
  none). The counters are natural numbers: as many nested accesses as a machine word can count
  are not reached. A value's lock is the number of its read guards that are alive; the turns that
  are taken are a set. \<open>t_dropped\<close>, \<open>t_refused\<close>, \<open>t_runaway\<close> and \<open>t_nested\<close> are the reports that are
  logged, \<open>t_notified\<close> the notifications of subscribers with the value they could read.
\<close>

datatype 'v deferred = Deferred_Set 'v bool | Deferred_Notify

datatype access_kind = Read_Access | Write_Lock | Snapshot | Compute

record 'v entry =
  e_id :: nat
  e_depth :: nat
  e_write_locks :: nat
  e_snapshots :: nat
  e_computing :: nat
  e_turn :: bool
  e_pending :: "'v deferred list option"

record 'v thread =
  t_entries :: "'v entry list"
  t_turns :: "nat set"
  t_locks :: "nat \<Rightarrow> nat"
  t_committed :: "nat \<Rightarrow> 'v"
  t_notified :: "(nat \<times> 'v) list"
  t_dropped :: "nat list"
  t_refused :: "nat list"
  t_runaway :: "nat list"
  t_nested :: "nat list"

definition new_entry :: "nat \<Rightarrow> 'v entry" where
  "new_entry i = \<lparr>e_id = i, e_depth = 0, e_write_locks = 0, e_snapshots = 0, e_computing = 0, e_turn = False, e_pending = None\<rparr>"

definition find_entry :: "nat \<Rightarrow> 'v entry list \<Rightarrow> 'v entry option" where
  "find_entry i es = find (\<lambda>e. e_id e = i) es"

fun on_entry :: "nat \<Rightarrow> ('v entry \<Rightarrow> 'v entry) \<Rightarrow> 'v entry list \<Rightarrow> 'v entry list" where
  "on_entry i f [] = []"
| "on_entry i f (e # es) = (if e_id e = i then f e # es else e # on_entry i f es)"

definition depth :: "nat \<Rightarrow> 'v thread \<Rightarrow> nat" where
  "depth i s = (case find_entry i (t_entries s) of None \<Rightarrow> 0 | Some e \<Rightarrow> e_depth e)"

definition snapshots :: "nat \<Rightarrow> 'v thread \<Rightarrow> nat" where
  "snapshots i s = (case find_entry i (t_entries s) of None \<Rightarrow> 0 | Some e \<Rightarrow> e_snapshots e)"

definition write_locks :: "nat \<Rightarrow> 'v thread \<Rightarrow> nat" where
  "write_locks i s = (case find_entry i (t_entries s) of None \<Rightarrow> 0 | Some e \<Rightarrow> e_write_locks e)"

definition in_use :: "nat \<Rightarrow> 'v thread \<Rightarrow> bool" where
  "in_use i s \<longleftrightarrow> 0 < depth i s"

definition count_access :: "access_kind \<Rightarrow> bool \<Rightarrow> 'v entry \<Rightarrow> 'v entry" where
  "count_access kind up e =
    (let step = (\<lambda>n. if up then n + 1 else n - 1 :: nat);
         e = e\<lparr>e_depth := step (e_depth e)\<rparr>
     in case kind of
          Read_Access \<Rightarrow> e
        | Write_Lock \<Rightarrow> e\<lparr>e_write_locks := step (e_write_locks e)\<rparr>
        | Snapshot \<Rightarrow> e\<lparr>e_snapshots := step (e_snapshots e)\<rparr>
        | Compute \<Rightarrow> e\<lparr>e_computing := step (e_computing e)\<rparr>)"

text \<open>Finds the entry of a value, or makes one at the end of the record, and changes it.\<close>

definition with_entry :: "nat \<Rightarrow> ('v entry \<Rightarrow> 'v entry) \<Rightarrow> 'v thread \<Rightarrow> 'v thread" where
  "with_entry i f s =
    s\<lparr>t_entries := (case find_entry i (t_entries s) of
        Some _ \<Rightarrow> on_entry i f (t_entries s)
      | None \<Rightarrow> t_entries s @ [f (new_entry i)])\<rparr>"

definition enter :: "nat \<Rightarrow> access_kind \<Rightarrow> 'v thread \<Rightarrow> 'v thread" where
  "enter i kind s = with_entry i (count_access kind True) s"

definition swap_remove :: "nat \<Rightarrow> 'a list \<Rightarrow> 'a list" where
  "swap_remove k xs = (if Suc k = length xs then butlast xs else (butlast xs)[k := last xs])"

definition position :: "nat \<Rightarrow> 'v entry list \<Rightarrow> nat" where
  "position i es = length (takeWhile (\<lambda>e. e_id e \<noteq> i) es)"

text \<open>The end of an access; the outermost one gives what is left to do: the deferred writes and the turn.\<close>

definition leave ::
  "nat \<Rightarrow> access_kind \<Rightarrow> 'v thread \<Rightarrow> ('v deferred list option \<times> bool) option \<times> 'v thread" where
  "leave i kind s =
    (case find_entry i (t_entries s) of
       None \<Rightarrow> (None, s)
     | Some e \<Rightarrow>
         let e' = count_access kind False e
         in if 0 < e_depth e' then (None, s\<lparr>t_entries := on_entry i (count_access kind False) (t_entries s)\<rparr>)
            else (Some (e_pending e', e_turn e'), s\<lparr>t_entries := swap_remove (position i (t_entries s)) (t_entries s)\<rparr>))"

definition take_turn :: "nat \<Rightarrow> 'v thread \<Rightarrow> 'v thread option" where
  "take_turn i s = (if i \<in> t_turns s then None else Some (s\<lparr>t_turns := insert i (t_turns s)\<rparr>))"

datatype begin_write_result = Started | In_Use | Unavailable

definition begin_write :: "nat \<Rightarrow> bool \<Rightarrow> 'v thread \<Rightarrow> begin_write_result \<times> 'v thread" where
  "begin_write i snapshot s =
    (if in_use i s then (In_Use, s)
     else case take_turn i s of
         None \<Rightarrow> (Unavailable, s)
       | Some s1 \<Rightarrow>
           (Started, with_entry i (\<lambda>e. (count_access (if snapshot then Snapshot else Read_Access) True e)\<lparr>e_turn := True\<rparr>) s1))"

text \<open>Earlier deferred writes come before those deferred since.\<close>

definition ahead :: "'v deferred list \<Rightarrow> 'v deferred list option \<Rightarrow> 'v deferred list" where
  "ahead p later = (case later of None \<Rightarrow> p | Some q \<Rightarrow> p @ q)"

definition resume_write :: "nat \<Rightarrow> 'v deferred list \<Rightarrow> 'v thread \<Rightarrow> 'v thread" where
  "resume_write i pending s =
     with_entry i (\<lambda>e. (count_access Read_Access True e)\<lparr>e_turn := True, e_pending := Some (ahead pending (e_pending e))\<rparr>) s"

definition take_pending :: "nat \<Rightarrow> 'v thread \<Rightarrow> 'v deferred list option \<times> 'v thread" where
  "take_pending i s =
    (case find_entry i (t_entries s) of
       None \<Rightarrow> (None, s)
     | Some e \<Rightarrow> (e_pending e, s\<lparr>t_entries := on_entry i (\<lambda>e. e\<lparr>e_pending := None\<rparr>) (t_entries s)\<rparr>))"

definition put_pending :: "nat \<Rightarrow> 'v deferred list \<Rightarrow> 'v thread \<Rightarrow> bool \<times> 'v thread" where
  "put_pending i pending s =
    (case find_entry i (t_entries s) of
       Some e \<Rightarrow>
         if 0 < e_depth e
         then (True, s\<lparr>t_entries := on_entry i (\<lambda>e. e\<lparr>e_pending := Some (ahead pending (e_pending e))\<rparr>) (t_entries s)\<rparr>)
         else (False, s)
     | None \<Rightarrow> (False, s))"

section \<open>The record as a map\<close>

definition entry_of :: "'v thread \<Rightarrow> nat \<Rightarrow> 'v entry option" where
  "entry_of s i = find_entry i (t_entries s)"

definition distinct_ids :: "'v thread \<Rightarrow> bool" where
  "distinct_ids s \<longleftrightarrow> distinct (map e_id (t_entries s))"

lemma find_entry_Some: "find_entry i es = Some e \<Longrightarrow> e \<in> set es \<and> e_id e = i"
  by (auto simp: find_entry_def find_Some_iff)

lemma find_entry_None: "find_entry i es = None \<longleftrightarrow> i \<notin> e_id ` set es"
  by (auto simp: find_entry_def find_None_iff)

lemma find_entry_iff:
  assumes "distinct (map e_id es)"
  shows "find_entry i es = Some e \<longleftrightarrow> e \<in> set es \<and> e_id e = i"
proof
  assume e: "e \<in> set es \<and> e_id e = i"
  then obtain d where d: "find_entry i es = Some d" using find_entry_None [of i es] by (cases "find_entry i es") auto
  then have "d = e" using e find_entry_Some [OF d] assms by (auto simp: distinct_map inj_on_def)
  then show "find_entry i es = Some e" using d by simp
qed (use find_entry_Some in blast)

lemma find_entry_append: "find_entry i (es @ [e]) = (case find_entry i es of None \<Rightarrow> if e_id e = i then Some e else None | Some d \<Rightarrow> Some d)"
  by (induction es) (auto simp: find_entry_def)

lemma find_on_entry:
  assumes "\<And>e. e_id (f e) = e_id e"
  shows "find_entry j (on_entry i f es) = (if i = j then map_option f (find_entry j es) else find_entry j es)"
  by (induction es) (auto simp: find_entry_def assms)

lemma ids_on_entry: "(\<And>e. e_id (f e) = e_id e) \<Longrightarrow> map e_id (on_entry i f es) = map e_id es"
  by (induction i f es rule: on_entry.induct) auto

lemma mset_swap_remove: "k < length xs \<Longrightarrow> mset (swap_remove k xs) = mset xs - {#xs ! k#}"
proof (cases xs rule: rev_cases)
  case (snoc ys y)
  assume k: "k < length xs"
  show ?thesis
  proof (cases "k = length ys")
    case False
    then have "k < length ys" using k snoc by simp
    then show ?thesis using snoc by (simp add: swap_remove_def mset_update nth_append add_mset_commute)
  qed (use snoc in \<open>simp add: swap_remove_def\<close>)
qed simp

lemma option_eqI: "(\<And>d. x = Some d \<longleftrightarrow> y = Some d) \<Longrightarrow> x = y"
  by (metis option.exhaust)

lemma position_nth:
  assumes "find_entry i es = Some e"
  shows "position i es < length es \<and> es ! position i es = e"
  using assms by (induction es) (auto simp: position_def find_entry_def)

lemma swap_remove_entries:
  assumes "distinct (map e_id es)" and "find_entry i es = Some e"
  shows "distinct (map e_id (swap_remove (position i es) es))"
    and "find_entry j (swap_remove (position i es) es) = (if j = i then None else find_entry j es)"
proof -
  let ?es = "swap_remove (position i es) es"
  have pos: "position i es < length es" "es ! position i es = e" using position_nth [OF assms(2)] by auto
  have "e \<in># mset es" using pos by auto
  then have m: "mset es = add_mset e (mset ?es)" using mset_swap_remove [OF pos(1)] pos(2) by (simp add: insert_DiffM)
  have "mset (map e_id es) = add_mset (e_id e) (mset (map e_id ?es))" using m by (simp del: add_mset_add_single)
  then have "distinct (e_id e # map e_id ?es)"
    using assms(1) by (metis mset.simps(2) mset_eq_imp_distinct_iff)
  then show d: "distinct (map e_id ?es)" by simp
  have set: "set es = insert e (set ?es)" using m by (metis set_mset_add_mset_insert set_mset_mset)
  have i: "e_id e = i" "e_id e \<notin> e_id ` set ?es"
    using find_entry_Some [OF assms(2)] \<open>distinct (e_id e # map e_id ?es)\<close> by auto
  show "find_entry j ?es = (if j = i then None else find_entry j es)"
  proof (cases "j = i")
    case True
    then show ?thesis using find_entry_None [of i ?es] i by simp
  next
    case False
    then have "find_entry j ?es = Some d' \<longleftrightarrow> find_entry j es = Some d'" for d'
      using find_entry_iff [OF d, of j] find_entry_iff [OF assms(1), of j] set i(1) by auto
    then show ?thesis using False by (simp add: option_eqI)
  qed
qed

lemma count_id [simp]: "e_id (count_access kind up e) = e_id e"
  by (cases kind) (simp_all add: count_access_def Let_def)

lemma count_down_up [simp]: "count_access kind False (count_access kind True e) = e"
  by (cases kind) (simp_all add: count_access_def Let_def)

lemma count_depth [simp]: "e_depth (count_access kind up e) = (if up then Suc (e_depth e) else e_depth e - 1)"
  by (cases kind) (simp_all add: count_access_def Let_def)

lemma count_fields [simp]:
  "e_pending (count_access kind up e) = e_pending e" "e_turn (count_access kind up e) = e_turn e"
  by (cases kind; simp add: count_access_def Let_def)+

lemma entry_of_with:
  assumes "\<And>e. e_id (f e) = e_id e"
  shows "entry_of (with_entry i f s) = (entry_of s)(i \<mapsto> f (case entry_of s i of None \<Rightarrow> new_entry i | Some e \<Rightarrow> e))"
  using assms by (auto simp: entry_of_def with_entry_def fun_eq_iff find_entry_append find_on_entry new_entry_def split: option.splits)

lemma distinct_with:
  assumes "\<And>e. e_id (f e) = e_id e" and "distinct_ids s"
  shows "distinct_ids (with_entry i f s)"
  using assms find_entry_None [of i "t_entries s"]
  by (auto simp: distinct_ids_def with_entry_def ids_on_entry new_entry_def split: option.splits)

lemma with_entry_fields [simp]:
  "t_turns (with_entry i f s) = t_turns s" "t_locks (with_entry i f s) = t_locks s" "t_committed (with_entry i f s) = t_committed s"
  "t_notified (with_entry i f s) = t_notified s" "t_dropped (with_entry i f s) = t_dropped s"
  "t_refused (with_entry i f s) = t_refused s" "t_runaway (with_entry i f s) = t_runaway s"
  "t_nested (with_entry i f s) = t_nested s"
  by (simp_all add: with_entry_def)

end
