(* ===== verification/Signal_Commit.thy ===== *)
theory Signal_Commit
  imports Signal_Record
begin

text \<open>
  \<open>signal/commit.rs\<close>: how a signal is written. A write takes the signal's turn, works on a copy,
  and holds the value's lock only to swap the new value in; while the thread uses the signal, a
  write is deferred and applied when the outermost use ends.

  \<open>mark\<close> notifies the subscribers of a signal, which may run code that reads and writes signals;
  \<open>exit\<close> ends an access. Both may not return (\<open>None\<close>), since user code runs in them.
\<close>

definition MAX_APPLIED :: nat where
  "MAX_APPLIED = 100000"

definition report_dropped :: "nat \<Rightarrow> 'v thread \<Rightarrow> 'v thread" where
  "report_dropped i s = s\<lparr>t_dropped := i # t_dropped s\<rparr>"

definition read_committed :: "nat \<Rightarrow> 'v thread \<Rightarrow> 'v option" where
  "read_committed i s = (if 0 < write_locks i s then None else Some (t_committed s i))"

text \<open>The last value among deferred writes.\<close>

primrec last_set :: "'v deferred list \<Rightarrow> 'v option" where
  "last_set [] = None"
| "last_set (w # ws) =
    (case last_set ws of
       Some v \<Rightarrow> Some v
     | None \<Rightarrow> (case w of Deferred_Set v _ \<Rightarrow> Some v | Deferred_Notify \<Rightarrow> None))"

definition pending_or_committed :: "nat \<Rightarrow> 'v thread \<Rightarrow> 'v option \<times> 'v thread" where
  "pending_or_committed i s =
    (case take_pending i s of
       (None, s1) \<Rightarrow> (read_committed i s1, s1)
     | (Some ws, s1) \<Rightarrow>
         let (put, s2) = put_pending i ws s1;
             s3 = (if put then s2 else report_dropped i s2)
         in (case last_set ws of Some v \<Rightarrow> (Some v, s3) | None \<Rightarrow> (read_committed i s3, s3)))"

definition defer_write :: "nat \<Rightarrow> 'v deferred \<Rightarrow> bool \<Rightarrow> 'v thread \<Rightarrow> 'v thread" where
  "defer_write i w first s =
    (let (taken, s1) = take_pending i s;
         ws = (case taken of None \<Rightarrow> [] | Some ws \<Rightarrow> ws);
         (put, s2) = put_pending i (if first then w # ws else ws @ [w]) s1
     in if put then s2 else report_dropped i s2)"

definition swap_in :: "nat \<Rightarrow> 'v \<Rightarrow> 'v thread \<Rightarrow> bool \<times> 'v thread" where
  "swap_in i v s =
    (if 0 < t_locks s i then (False, s\<lparr>t_refused := i # t_refused s\<rparr>)
     else (True, s\<lparr>t_committed := (t_committed s)(i := v)\<rparr>))"

type_synonym 'v mark = "nat \<Rightarrow> 'v thread \<Rightarrow> 'v thread option"
type_synonym 'v exit = "nat \<Rightarrow> access_kind \<Rightarrow> 'v thread \<Rightarrow> 'v thread option"

definition commit_now :: "'v mark \<Rightarrow> nat \<Rightarrow> 'v \<Rightarrow> bool \<Rightarrow> 'v thread \<Rightarrow> (bool \<times> 'v thread) option" where
  "commit_now mark i v notify s =
    (if depth i s \<le> 1
     then (let (swapped, s1) = swap_in i v s
           in if \<not> swapped then Some (False, s1)
              else if notify then map_option (Pair True) (mark i s1)
              else Some (True, s1))
     else Some (False, s))"

definition commit :: "'v mark \<Rightarrow> nat \<Rightarrow> 'v \<Rightarrow> bool \<Rightarrow> 'v thread \<Rightarrow> 'v thread option" where
  "commit mark i v notify s =
     Option.bind (commit_now mark i v notify s)
       (\<lambda>(committed, s1). Some (if committed then s1 else defer_write i (Deferred_Set v notify) True s1))"

text \<open>Applies the deferred writes in order, \<open>left\<close> of them at most.\<close>

primrec drain :: "'v mark \<Rightarrow> nat \<Rightarrow> nat \<Rightarrow> 'v thread \<Rightarrow> 'v thread option" where
  "drain mark i 0 s = (let s1 = snd (take_pending i s) in Some (s1\<lparr>t_runaway := i # t_runaway s1\<rparr>))"
| "drain mark i (Suc left) s =
    (if 1 < depth i s then Some s
     else case take_pending i s of
         (Some (w # ws), s1) \<Rightarrow>
           (let s2 = (if ws = [] then s1 else snd (put_pending i ws s1))
            in case w of
                 Deferred_Set v notify \<Rightarrow>
                   (let (swapped, s3) = swap_in i v s2
                    in if swapped \<and> notify then Option.bind (mark i s3) (drain mark i left) else drain mark i left s3)
               | Deferred_Notify \<Rightarrow> Option.bind (mark i s2) (drain mark i left))
       | (_, s1) \<Rightarrow> Some s1)"

text \<open>
  The end of an access. The outermost one applies the deferred writes, as a write of its own that
  has the turn, and whose end is again the end of an access.
\<close>

primrec exit_access :: "'v mark \<Rightarrow> nat \<Rightarrow> nat \<Rightarrow> 'v exit" where
  "exit_access mark limit 0 i kind s = None"
| "exit_access mark limit (Suc fuel) i kind s =
    (case leave i kind s of
       (None, s1) \<Rightarrow> Some s1
     | (Some (pending, turn), s1) \<Rightarrow>
         (case pending of
            Some (w # ws) \<Rightarrow>
              (case (if turn then Some s1 else take_turn i s1) of
                 None \<Rightarrow> Some (report_dropped i s1)
               | Some s2 \<Rightarrow>
                   Option.bind (drain mark i limit (resume_write i (w # ws) s2))
                     (exit_access mark limit fuel i Read_Access))
          | _ \<Rightarrow> Some (if turn then s1\<lparr>t_turns := t_turns s1 - {i}\<rparr> else s1)))"

section \<open>The writes\<close>

definition set_unrecorded :: "'v mark \<Rightarrow> nat \<Rightarrow> 'v \<Rightarrow> bool \<Rightarrow> 'v thread \<Rightarrow> 'v thread option" where
  "set_unrecorded mark i v notify s =
    (if i \<in> t_turns s \<or> 0 < t_locks s i then Some (report_dropped i s)
     else (let s1 = s\<lparr>t_committed := (t_committed s)(i := v)\<rparr> in if notify then mark i s1 else Some s1))"

definition set_value :: "'v mark \<Rightarrow> 'v exit \<Rightarrow> nat \<Rightarrow> 'v \<Rightarrow> bool \<Rightarrow> 'v thread \<Rightarrow> 'v thread option" where
  "set_value mark exit i v notify s =
    (case begin_write i False s of
       (Started, s1) \<Rightarrow> Option.bind (commit mark i v notify s1) (exit i Read_Access)
     | (In_Use, s1) \<Rightarrow> Some (defer_write i (Deferred_Set v notify) False s1)
     | (Unavailable, s1) \<Rightarrow> set_unrecorded mark i v notify s1)"

definition notify_or_defer :: "'v mark \<Rightarrow> nat \<Rightarrow> 'v thread \<Rightarrow> 'v thread option" where
  "notify_or_defer mark i s = (if in_use i s then Some (defer_write i Deferred_Notify False s) else mark i s)"

text \<open>\<open>body\<close> is what the closure does to other values (and to this one) while it runs.\<close>

definition update_snapshot ::
  "'v mark \<Rightarrow> 'v exit \<Rightarrow> ('v thread \<Rightarrow> 'v thread option) \<Rightarrow> nat \<Rightarrow> ('v \<Rightarrow> 'v \<times> bool) \<Rightarrow> 'v thread \<Rightarrow> 'v thread option" where
  "update_snapshot mark exit body i fun s =
    (case begin_write i True s of
       (Started, s1) \<Rightarrow>
         (case read_committed i s1 of
            None \<Rightarrow> exit i Snapshot s1
          | Some v \<Rightarrow>
              Option.bind (body s1) (\<lambda>s2.
                let (v', changed) = fun v
                in Option.bind (commit mark i v' changed s2) (exit i Snapshot)))
     | (In_Use, s1) \<Rightarrow>
         (let s2 = (if 0 < snapshots i s1 then s1\<lparr>t_nested := i # t_nested s1\<rparr> else s1);
              (value, s3) = pending_or_committed i s2
          in case value of
               None \<Rightarrow> Some s3
             | Some v \<Rightarrow>
                 Option.bind (body s3) (\<lambda>s4.
                   let (v', changed) = fun v in Some (defer_write i (Deferred_Set v' changed) False s4)))
     | (Unavailable, s1) \<Rightarrow>
         Option.bind (body s1) (\<lambda>s2.
           let (v', changed) = fun (t_committed s1 i) in set_unrecorded mark i v' changed s2))"

text \<open>A write guard: taken, alive while \<open>body\<close> runs, and dropped with the value that \<open>change\<close> gives.\<close>

definition write_guard ::
  "'v mark \<Rightarrow> 'v exit \<Rightarrow> ('v thread \<Rightarrow> 'v thread option) \<Rightarrow> nat \<Rightarrow> ('v \<Rightarrow> 'v) \<Rightarrow> bool \<Rightarrow> 'v thread \<Rightarrow> 'v thread option" where
  "write_guard mark exit body i change notify s =
    (case begin_write i True s of
       (Started, s1) \<Rightarrow>
         (case read_committed i s1 of
            None \<Rightarrow> exit i Snapshot s1
          | Some v \<Rightarrow>
              Option.bind (body s1) (\<lambda>s2.
                Option.bind (commit mark i (change v) notify s2) (exit i Snapshot)))
     | (In_Use, s1) \<Rightarrow>
         (let (value, s2) = pending_or_committed i (enter i Snapshot s1)
          in case value of
               None \<Rightarrow> exit i Snapshot s2
             | Some v \<Rightarrow>
                 Option.bind (body s2) (\<lambda>s3.
                   exit i Snapshot (defer_write i (Deferred_Set (change v) notify) False s3)))
     | (Unavailable, s1) \<Rightarrow> Some s1)"

definition swap_part :: "'v mark \<Rightarrow> 'v exit \<Rightarrow> nat \<Rightarrow> ('v \<Rightarrow> 'v) \<Rightarrow> bool \<Rightarrow> 'v thread \<Rightarrow> 'v thread option" where
  "swap_part mark exit i put_part notify s =
    (case begin_write i False s of
       (Started, s1) \<Rightarrow>
         (if 0 < t_locks s1 i then exit i Read_Access (s1\<lparr>t_refused := i # t_refused s1\<rparr>)
          else (let s2 = s1\<lparr>t_committed := (t_committed s1)(i := put_part (t_committed s1 i))\<rparr>
                in Option.bind (if notify then mark i s2 else Some s2) (exit i Read_Access)))
     | (In_Use, s1) \<Rightarrow> Some (s1\<lparr>t_refused := i # t_refused s1\<rparr>)
     | (Unavailable, s1) \<Rightarrow> Some s1)"

text \<open>A read guard, alive while \<open>body\<close> runs.\<close>

definition with_value :: "'v exit \<Rightarrow> ('v thread \<Rightarrow> 'v thread option) \<Rightarrow> nat \<Rightarrow> 'v thread \<Rightarrow> 'v thread option" where
  "with_value exit body i s =
    (if 0 < write_locks i s then Some (s\<lparr>t_refused := i # t_refused s\<rparr>)
     else (let s1 = enter i Read_Access s
           in Option.bind (body (s1\<lparr>t_locks := (t_locks s1)(i := Suc (t_locks s1 i))\<rparr>)) (\<lambda>s2.
                exit i Read_Access (s2\<lparr>t_locks := (t_locks s2)(i := t_locks s2 i - 1)\<rparr>))))"

section \<open>User code\<close>

text \<open>
  Code of a program, and what its subscribers do when a signal is notified (given its value): the
  uses of signals in it are well nested. \<open>Get_Value\<close> copies a signal's value out of a read guard that ends at
  once; what the code does then may depend on the value.
\<close>

datatype 'v cmd =
    Set nat 'v bool
  | Notify nat
  | Update nat "'v cmd list" "'v \<Rightarrow> 'v \<times> bool"
  | Guard nat "'v cmd list" "'v \<Rightarrow> 'v" bool
  | Set_Part nat "'v \<Rightarrow> 'v" bool
  | With nat "'v cmd list"
  | Get_Value nat "'v \<Rightarrow> 'v cmd list"

type_synonym 'v handler = "nat \<Rightarrow> 'v \<Rightarrow> 'v cmd list"

definition mark_subscribers ::
  "'v handler \<Rightarrow> ('v cmd \<Rightarrow> 'v thread \<Rightarrow> 'v thread option) \<Rightarrow> 'v mark" where
  "mark_subscribers handler run i s =
     fold_opt run (handler i (t_committed s i)) (s\<lparr>t_notified := t_notified s @ [(i, t_committed s i)]\<rparr>)"

primrec exec :: "'v handler \<Rightarrow> nat \<Rightarrow> nat \<Rightarrow> 'v cmd \<Rightarrow> 'v thread \<Rightarrow> 'v thread option" where
  "exec handler limit 0 c s = None"
| "exec handler limit (Suc fuel) c s =
    (let mark = mark_subscribers handler (exec handler limit fuel);
         exit = exit_access mark limit fuel
     in case c of
          Set i v notify \<Rightarrow> set_value mark exit i v notify s
        | Notify i \<Rightarrow> notify_or_defer mark i s
        | Update i body fun \<Rightarrow> update_snapshot mark exit (fold_opt (exec handler limit fuel) body) i fun s
        | Guard i body change notify \<Rightarrow> write_guard mark exit (fold_opt (exec handler limit fuel) body) i change notify s
        | Set_Part i put_part notify \<Rightarrow> swap_part mark exit i put_part notify s
        | With i body \<Rightarrow> with_value exit (fold_opt (exec handler limit fuel) body) i s
        | Get_Value i cont \<Rightarrow>
            Option.bind (with_value exit Some i s) (\<lambda>s1.
              case read_committed i s of
                None \<Rightarrow> Some s1
              | Some v \<Rightarrow> fold_opt (exec handler limit fuel) (cont v) s1))"

definition idle :: "(nat \<Rightarrow> 'v) \<Rightarrow> 'v thread" where
  "idle values = \<lparr>t_entries = [], t_turns = {}, t_locks = (\<lambda>_. 0), t_committed = values, t_notified = [],
     t_dropped = [], t_refused = [], t_runaway = [], t_nested = []\<rparr>"

end
