(* ===== verification/Signal_Frame.thy ===== *)
theory Signal_Frame
  imports Signal_Commit
begin

text \<open>
  What code may do to the record of a thread: it leaves every access as it found it, and to a
  signal that is in use it only defers writes.
\<close>

section \<open>The invariant of the record\<close>

definition ok :: "'v thread \<Rightarrow> bool" where
  "ok s \<longleftrightarrow> distinct_ids s
     \<and> (\<forall>i e. entry_of s i = Some e \<longrightarrow> 0 < e_depth e \<and> e_write_locks e = 0)
     \<and> (\<forall>i. i \<in> t_turns s \<longleftrightarrow> (\<exists>e. entry_of s i = Some e \<and> e_turn e))
     \<and> (\<forall>i. entry_of s i = None \<longrightarrow> t_locks s i = 0)"

lemma okD:
  assumes "ok s"
  shows ok_distinct: "distinct_ids s"
    and ok_depth: "entry_of s i = Some e \<Longrightarrow> 0 < e_depth e" and ok_write_locks: "entry_of s i = Some e \<Longrightarrow> e_write_locks e = 0"
    and ok_turn: "i \<in> t_turns s \<longleftrightarrow> (\<exists>e. entry_of s i = Some e \<and> e_turn e)"
    and ok_unlocked: "entry_of s i = None \<Longrightarrow> t_locks s i = 0"
  using assms unfolding ok_def by blast+

lemma depth_entry: "depth i s = (case entry_of s i of None \<Rightarrow> 0 | Some e \<Rightarrow> e_depth e)"
  by (simp add: depth_def entry_of_def)

lemma write_locks_ok: "ok s \<Longrightarrow> write_locks i s = 0"
  by (auto simp: write_locks_def entry_of_def [symmetric] ok_write_locks split: option.splits)

lemma in_use_ok: "ok s \<Longrightarrow> in_use i s \<longleftrightarrow> entry_of s i \<noteq> None"
  by (auto simp: in_use_def depth_entry ok_depth split: option.splits)

text \<open>Changes of the other fields, and of one entry.\<close>

lemma entry_of_update [simp]:
  "entry_of (s\<lparr>t_turns := a\<rparr>) = entry_of s" "entry_of (s\<lparr>t_locks := b\<rparr>) = entry_of s"
  "entry_of (s\<lparr>t_committed := c\<rparr>) = entry_of s" "entry_of (s\<lparr>t_notified := d\<rparr>) = entry_of s"
  "entry_of (s\<lparr>t_dropped := a'\<rparr>) = entry_of s" "entry_of (s\<lparr>t_refused := a'\<rparr>) = entry_of s"
  "entry_of (s\<lparr>t_runaway := a'\<rparr>) = entry_of s" "entry_of (s\<lparr>t_nested := a'\<rparr>) = entry_of s"
  by (simp_all add: entry_of_def fun_eq_iff)

lemma distinct_ids_update [simp]:
  "distinct_ids (s\<lparr>t_turns := a\<rparr>) = distinct_ids s" "distinct_ids (s\<lparr>t_locks := b\<rparr>) = distinct_ids s"
  "distinct_ids (s\<lparr>t_committed := c\<rparr>) = distinct_ids s" "distinct_ids (s\<lparr>t_notified := d\<rparr>) = distinct_ids s"
  "distinct_ids (s\<lparr>t_dropped := a'\<rparr>) = distinct_ids s" "distinct_ids (s\<lparr>t_refused := a'\<rparr>) = distinct_ids s"
  "distinct_ids (s\<lparr>t_runaway := a'\<rparr>) = distinct_ids s" "distinct_ids (s\<lparr>t_nested := a'\<rparr>) = distinct_ids s"
  by (simp_all add: distinct_ids_def)

lemma ok_update [simp]:
  "ok (s\<lparr>t_committed := c\<rparr>) = ok s" "ok (s\<lparr>t_notified := d\<rparr>) = ok s" "ok (s\<lparr>t_dropped := a\<rparr>) = ok s"
  "ok (s\<lparr>t_refused := a\<rparr>) = ok s" "ok (s\<lparr>t_runaway := a\<rparr>) = ok s" "ok (s\<lparr>t_nested := a\<rparr>) = ok s"
  by (simp_all add: ok_def)

lemma entry_of_on_entry:
  assumes "\<And>e. e_id (f e) = e_id e"
  shows "entry_of (s\<lparr>t_entries := on_entry i f (t_entries s)\<rparr>) = (entry_of s)(i := map_option f (entry_of s i))"
  by (auto simp: entry_of_def fun_eq_iff find_on_entry assms)

lemma distinct_on_entry:
  "(\<And>e. e_id (f e) = e_id e) \<Longrightarrow> distinct_ids (s\<lparr>t_entries := on_entry i f (t_entries s)\<rparr>) = distinct_ids s"
  by (simp add: distinct_ids_def ids_on_entry)

section \<open>Frames\<close>

definition plist :: "'v deferred list option \<Rightarrow> 'v deferred list" where
  "plist p = (case p of None \<Rightarrow> [] | Some q \<Rightarrow> q)"

lemma plist_simps [simp]: "plist None = []" "plist (Some q) = q"
  by (simp_all add: plist_def)

text \<open>
  A signal that is not in use stays so; one that is in use keeps its value and its accesses, and
  writes are added at the end of the deferred ones.
\<close>

definition frame_at :: "nat \<Rightarrow> 'v thread \<Rightarrow> 'v thread \<Rightarrow> bool" where
  "frame_at i s s' \<longleftrightarrow>
    (case entry_of s i of
       None \<Rightarrow> entry_of s' i = None
     | Some e \<Rightarrow> t_committed s' i = t_committed s i
         \<and> (\<exists>p q. entry_of s' i = Some (e\<lparr>e_pending := p\<rparr>) \<and> plist p = plist (e_pending e) @ q))"

definition frame_on :: "nat set \<Rightarrow> 'v thread \<Rightarrow> 'v thread \<Rightarrow> bool" where
  "frame_on A s s' \<longleftrightarrow> (\<forall>i \<in> A. frame_at i s s') \<and> t_locks s' = t_locks s \<and> t_dropped s' = t_dropped s"

lemma frame_at_same: "entry_of s' i = entry_of s i \<Longrightarrow> t_committed s' i = t_committed s i \<Longrightarrow> frame_at i s s'"
  unfolding frame_at_def by (cases "entry_of s i") (auto intro: exI [of _ "e_pending (the (entry_of s i))"])

lemma frame_on_refl [simp]: "frame_on A s s"
  by (simp add: frame_on_def frame_at_same)

lemma frame_at_trans: "frame_at i s s' \<Longrightarrow> frame_at i s' s'' \<Longrightarrow> frame_at i s s''"
  unfolding frame_at_def by (cases "entry_of s i") (fastforce split: option.splits)+

lemma frame_on_trans: "frame_on A s s' \<Longrightarrow> frame_on A s' s'' \<Longrightarrow> frame_on A s s''"
  unfolding frame_on_def using frame_at_trans by metis

lemma frame_on_mono: "frame_on A s s' \<Longrightarrow> B \<subseteq> A \<Longrightarrow> frame_on B s s'"
  unfolding frame_on_def by blast

lemma frame_on_others:
  assumes "\<And>j. j \<noteq> i \<Longrightarrow> entry_of s' j = entry_of s j" and "\<And>j. j \<noteq> i \<Longrightarrow> t_committed s' j = t_committed s j"
    and "t_locks s' = t_locks s" and "t_dropped s' = t_dropped s"
  shows "frame_on (- {i}) s s'"
  using assms by (auto simp: frame_on_def intro: frame_at_same)

lemma frame_on_all: "frame_on (- {i}) s s' \<Longrightarrow> frame_at i s s' \<Longrightarrow> frame_on UNIV s s'"
  unfolding frame_on_def by (metis ComplI singletonD)

lemma frame_entry:
  assumes "frame_on A s s'" and "i \<in> A" and "entry_of s i = Some e"
  obtains p where "entry_of s' i = Some (e\<lparr>e_pending := p\<rparr>)" "t_committed s' i = t_committed s i"
  using assms unfolding frame_on_def frame_at_def by fastforce

lemma frame_None: "frame_on A s s' \<Longrightarrow> i \<in> A \<Longrightarrow> entry_of s' i = None \<longleftrightarrow> entry_of s i = None"
  unfolding frame_on_def frame_at_def by (cases "entry_of s i") force+

text \<open>What runs user code: if it returns, it kept the record.\<close>

definition good :: "('v thread \<Rightarrow> 'v thread option) \<Rightarrow> bool" where
  "good run \<longleftrightarrow> (\<forall>s s'. ok s \<longrightarrow> run s = Some s' \<longrightarrow> ok s' \<and> frame_on UNIV s s')"

lemma goodD: "good run \<Longrightarrow> ok s \<Longrightarrow> run s = Some s' \<Longrightarrow> ok s' \<and> frame_on UNIV s s'"
  unfolding good_def by blast

lemma good_fold: "(\<And>x. x \<in> set xs \<Longrightarrow> good (f x)) \<Longrightarrow> good (fold_opt f xs)"
proof (induction xs)
  case (Cons x xs)
  show ?case unfolding good_def
  proof (intro allI impI)
    fix s s' assume s: "ok s" "fold_opt f (x # xs) s = Some s'"
    then obtain s1 where s1: "f x s = Some s1" "fold_opt f xs s1 = Some s'" by (auto simp: bind_eq_Some_conv)
    have good: "good (f x)" "good (fold_opt f xs)" using Cons by auto
    have 1: "ok s1" "frame_on UNIV s s1" using goodD [OF good(1) s(1) s1(1)] by auto
    have "ok s'" "frame_on UNIV s1 s'" using goodD [OF good(2) 1(1) s1(2)] by auto
    then show "ok s' \<and> frame_on UNIV s s'" using frame_on_trans [OF 1(2)] by simp
  qed
qed (simp add: good_def)

section \<open>The operations on the record\<close>

lemma take_pending_entry:
  assumes "distinct_ids s" and "entry_of s i = Some e"
  shows "\<exists>s'. take_pending i s = (e_pending e, s') \<and> entry_of s' = (entry_of s)(i \<mapsto> e\<lparr>e_pending := None\<rparr>)
    \<and> distinct_ids s' \<and> s' = s\<lparr>t_entries := t_entries s'\<rparr>"
  using assms
  by (simp add: take_pending_def entry_of_def [symmetric] entry_of_on_entry distinct_on_entry)

lemma put_pending_entry:
  assumes "distinct_ids s" and "entry_of s i = Some e" and "0 < e_depth e"
  shows "\<exists>s'. put_pending i ws s = (True, s') \<and> entry_of s' = (entry_of s)(i \<mapsto> e\<lparr>e_pending := Some (ws @ plist (e_pending e))\<rparr>)
    \<and> distinct_ids s' \<and> s' = s\<lparr>t_entries := t_entries s'\<rparr>"
  using assms
  by (auto simp: put_pending_def entry_of_def [symmetric] entry_of_on_entry distinct_on_entry ahead_def plist_def split: option.splits)

lemma ok_entry:
  assumes "ok s" and "s' = s\<lparr>t_entries := t_entries s'\<rparr>" and "distinct_ids s'" and "entry_of s' = (entry_of s)(i \<mapsto> e')"
    and "entry_of s i = Some e" and "0 < e_depth e'" and "e_write_locks e' = 0" and "e_turn e' = e_turn e"
  shows "ok s'"
proof -
  have "t_turns s' = t_turns s" "t_locks s' = t_locks s" by (subst assms(2), simp)+
  then show ?thesis
    using assms(3,5-8) okD [OF assms(1)] unfolding ok_def assms(4) by auto
qed

lemma rest_fields:
  assumes "s' = s\<lparr>t_entries := t_entries s'\<rparr>"
  shows "t_turns s' = t_turns s" "t_locks s' = t_locks s" "t_committed s' = t_committed s" "t_notified s' = t_notified s"
    "t_dropped s' = t_dropped s" "t_refused s' = t_refused s" "t_runaway s' = t_runaway s" "t_nested s' = t_nested s"
  by (subst assms, simp)+

lemma defer_write_entry:
  assumes "ok s" and "entry_of s i = Some e"
  shows "\<exists>s'. defer_write i w first s = s' \<and> ok s' \<and> s' = s\<lparr>t_entries := t_entries s'\<rparr>
    \<and> entry_of s' = (entry_of s)(i \<mapsto> e\<lparr>e_pending := Some (if first then w # plist (e_pending e) else plist (e_pending e) @ [w])\<rparr>)"
proof -
  note [simp] = ok_depth [OF assms] ok_write_locks [OF assms]
  obtain s1 where s1: "take_pending i s = (e_pending e, s1)" "entry_of s1 = (entry_of s)(i \<mapsto> e\<lparr>e_pending := None\<rparr>)"
      "distinct_ids s1" "s1 = s\<lparr>t_entries := t_entries s1\<rparr>"
    using take_pending_entry [OF ok_distinct [OF assms(1)] assms(2)] by blast
  let ?ws = "if first then w # plist (e_pending e) else plist (e_pending e) @ [w]"
  obtain s2 where s2: "put_pending i ?ws s1 = (True, s2)" "entry_of s2 = (entry_of s1)(i \<mapsto> e\<lparr>e_pending := Some ?ws\<rparr>)"
      "distinct_ids s2" "s2 = s1\<lparr>t_entries := t_entries s2\<rparr>"
    using put_pending_entry [OF s1(3), of i "e\<lparr>e_pending := None\<rparr>" ?ws] s1(2) by auto
  have rest: "s2 = s\<lparr>t_entries := t_entries s2\<rparr>" using s1(4) s2(4) by (metis thread.update_convs(1) thread.surjective)
  moreover have "entry_of s2 = (entry_of s)(i \<mapsto> e\<lparr>e_pending := Some ?ws\<rparr>)" using s1(2) s2(2) by simp
  moreover have "ok s2" using ok_entry [OF assms(1) rest s2(3) calculation(2) assms(2)] by simp
  moreover have "defer_write i w first s = s2"
    using s1(1) s2(1) by (cases first) (simp_all add: defer_write_def Let_def plist_def)
  ultimately show ?thesis by blast
qed

lemma pending_or_committed_entry:
  assumes "ok s" and "entry_of s i = Some e"
  shows "\<exists>s' p. pending_or_committed i s =
      (Some (case last_set (plist (e_pending e)) of Some v \<Rightarrow> v | None \<Rightarrow> t_committed s i), s')
    \<and> ok s' \<and> s' = s\<lparr>t_entries := t_entries s'\<rparr> \<and> entry_of s' = (entry_of s)(i \<mapsto> e\<lparr>e_pending := p\<rparr>) \<and> plist p = plist (e_pending e)"
proof -
  note [simp] = ok_depth [OF assms] ok_write_locks [OF assms]
  obtain s1 where s1: "take_pending i s = (e_pending e, s1)" "entry_of s1 = (entry_of s)(i \<mapsto> e\<lparr>e_pending := None\<rparr>)"
      "distinct_ids s1" "s1 = s\<lparr>t_entries := t_entries s1\<rparr>"
    using take_pending_entry [OF ok_distinct [OF assms(1)] assms(2)] by blast
  have ok1: "ok s1" using ok_entry [OF assms(1) s1(4,3,2) assms(2)] by simp
  show ?thesis
  proof (cases "e_pending e")
    case None
    then have "pending_or_committed i s = (Some (t_committed s i), s1)"
      using s1(1) ok1 by (simp add: pending_or_committed_def read_committed_def write_locks_ok rest_fields [OF s1(4)])
    then show ?thesis using None ok1 s1(2,4) by auto
  next
    case (Some ws)
    obtain s2 where s2: "put_pending i ws s1 = (True, s2)" "entry_of s2 = (entry_of s1)(i \<mapsto> e\<lparr>e_pending := Some ws\<rparr>)"
        "distinct_ids s2" "s2 = s1\<lparr>t_entries := t_entries s2\<rparr>"
      using put_pending_entry [OF s1(3), of i "e\<lparr>e_pending := None\<rparr>" ws] s1(2) by auto
    have rest: "s2 = s\<lparr>t_entries := t_entries s2\<rparr>" using s1(4) s2(4) by (metis thread.update_convs(1) thread.surjective)
    have e2: "entry_of s2 = (entry_of s)(i \<mapsto> e\<lparr>e_pending := Some ws\<rparr>)" using s1(2) s2(2) by simp
    have ok2: "ok s2" using ok_entry [OF assms(1) rest s2(3) e2 assms(2)] by simp
    have "pending_or_committed i s = (Some (case last_set ws of Some v \<Rightarrow> v | None \<Rightarrow> t_committed s i), s2)"
      using s1(1) s2(1) Some ok2
      by (simp add: pending_or_committed_def read_committed_def write_locks_ok rest_fields [OF rest] split: option.splits)
    then show ?thesis using Some ok2 rest e2 by auto
  qed
qed

lemma leave_inner:
  assumes "ok s" and "entry_of s i = Some e" and "1 < e_depth e"
  shows "\<exists>s'. leave i kind s = (None, s') \<and> distinct_ids s' \<and> s' = s\<lparr>t_entries := t_entries s'\<rparr>
    \<and> entry_of s' = (entry_of s)(i \<mapsto> count_access kind False e)"
  using assms ok_distinct [OF assms(1)]
  by (simp add: leave_def Let_def entry_of_def [symmetric] entry_of_on_entry distinct_on_entry)

lemma leave_outermost:
  assumes "ok s" and "entry_of s i = Some e" and "e_depth e = 1"
  shows "\<exists>s'. leave i kind s = (Some (e_pending e, e_turn e), s') \<and> distinct_ids s' \<and> s' = s\<lparr>t_entries := t_entries s'\<rparr>
    \<and> entry_of s' = (entry_of s)(i := None)"
proof -
  have "distinct (map e_id (t_entries s))" using ok_distinct [OF assms(1)] by (simp add: distinct_ids_def)
  from swap_remove_entries [OF this, of i e] assms(2)
  show ?thesis using assms(2,3) by (simp add: leave_def Let_def entry_of_def distinct_ids_def fun_eq_iff)
qed

text \<open>A write of a signal that is not in use starts; one of a signal in use does not.\<close>

lemma begin_write_started:
  assumes "ok s" and "entry_of s i = None"
  shows "\<exists>s' e. begin_write i snapshot s = (Started, s') \<and> ok s' \<and> entry_of s' = (entry_of s)(i \<mapsto> e)
    \<and> s' = s\<lparr>t_entries := t_entries s', t_turns := insert i (t_turns s)\<rparr>
    \<and> e_depth e = 1 \<and> e_turn e \<and> e_pending e = None \<and> count_access (if snapshot then Snapshot else Read_Access) False e = (new_entry i)\<lparr>e_turn := True\<rparr>"
proof -
  let ?s1 = "s\<lparr>t_turns := insert i (t_turns s)\<rparr>"
  let ?f = "\<lambda>e. (count_access (if snapshot then Snapshot else Read_Access) True e)\<lparr>e_turn := True\<rparr> :: 'a entry"
  let ?e = "?f (new_entry i)"
  have "i \<notin> t_turns s" "\<not> in_use i s" using ok_turn [OF assms(1), of i] in_use_ok [OF assms(1), of i] assms(2) by auto
  then have b: "begin_write i snapshot s = (Started, with_entry i ?f ?s1)" by (simp add: begin_write_def take_turn_def)
  have e: "entry_of (with_entry i ?f ?s1) = (entry_of s)(i \<mapsto> ?e)" using assms(2) by (subst entry_of_with) simp_all
  have fields: "e_depth ?e = 1" "e_turn ?e" "e_pending ?e = None" "e_write_locks ?e = 0"
    "count_access (if snapshot then Snapshot else Read_Access) False ?e = (new_entry i)\<lparr>e_turn := True\<rparr>"
    by (simp_all add: new_entry_def count_access_def Let_def)
  have "distinct_ids (with_entry i ?f ?s1)" using ok_distinct [OF assms(1)] by (intro distinct_with) simp_all
  then have "ok (with_entry i ?f ?s1)"
    using okD [OF assms(1)] fields unfolding ok_def e by auto
  then show ?thesis using b e fields by (intro exI [of _ "with_entry i ?f ?s1"] exI [of _ ?e]) (simp add: with_entry_def)
qed

lemma begin_write_in_use: "ok s \<Longrightarrow> entry_of s i = Some e \<Longrightarrow> begin_write i snapshot s = (In_Use, s)"
  using in_use_ok [of s i] by (simp add: begin_write_def)

section \<open>The end of an access\<close>

definition good_mark :: "'v mark \<Rightarrow> bool" where
  "good_mark mark \<longleftrightarrow> (\<forall>i. good (mark i))"

lemma mark_entry:
  assumes "good_mark mark" and "ok s" and "mark i s = Some s'" and "entry_of s i = Some e"
  obtains p where "ok s'" "frame_on UNIV s s'" "entry_of s' i = Some (e\<lparr>e_pending := p\<rparr>)"
  using goodD [of "mark i" s s'] assms frame_entry [of UNIV s s' i e] unfolding good_mark_def by blast

text \<open>Taking the first deferred write out of the record.\<close>

lemma pop_pending:
  assumes "ok s" and "entry_of s i = Some e" and "e_pending e = Some (w # ws)"
  shows "\<exists>s1 s2 p. take_pending i s = (Some (w # ws), s1) \<and> (if ws = [] then s1 else snd (put_pending i ws s1)) = s2 \<and> ok s2
    \<and> entry_of s2 = (entry_of s)(i \<mapsto> e\<lparr>e_pending := p\<rparr>) \<and> plist p = ws \<and> s2 = s\<lparr>t_entries := t_entries s2\<rparr>"
proof -
  note [simp] = ok_depth [OF assms(1,2)] ok_write_locks [OF assms(1,2)]
  obtain s1 where s1: "take_pending i s = (e_pending e, s1)" "entry_of s1 = (entry_of s)(i \<mapsto> e\<lparr>e_pending := None\<rparr>)"
      "distinct_ids s1" "s1 = s\<lparr>t_entries := t_entries s1\<rparr>"
    using take_pending_entry [OF ok_distinct [OF assms(1)] assms(2)] by blast
  have ok1: "ok s1" using ok_entry [OF assms(1) s1(4,3,2) assms(2)] by simp
  show ?thesis
  proof (cases "ws = []")
    case True
    then show ?thesis using s1 ok1 assms(3) by (intro exI [of _ s1] exI [of _ None]) simp
  next
    case False
    obtain s2 where s2: "put_pending i ws s1 = (True, s2)" "entry_of s2 = (entry_of s1)(i \<mapsto> e\<lparr>e_pending := Some ws\<rparr>)"
        "distinct_ids s2" "s2 = s1\<lparr>t_entries := t_entries s2\<rparr>"
      using put_pending_entry [OF s1(3), of i "e\<lparr>e_pending := None\<rparr>" ws] s1(2) by auto
    have "ok s2" using ok_entry [OF ok1 s2(4,3,2), of "e\<lparr>e_pending := None\<rparr>"] s1(2) by simp
    moreover have "s2 = s\<lparr>t_entries := t_entries s2\<rparr>" using s1(4) s2(4) by (metis thread.update_convs(1) thread.surjective)
    moreover have "entry_of s2 = (entry_of s)(i \<mapsto> e\<lparr>e_pending := Some ws\<rparr>)" using s1(2) s2(2) by simp
    moreover have "take_pending i s = (Some (w # ws), s1)" "(if ws = [] then s1 else snd (put_pending i ws s1)) = s2"
      using s1(1) s2(1) assms(3) False by simp_all
    ultimately show ?thesis by (intro exI [of _ s1] exI [of _ s2] exI [of _ "Some ws"]) simp
  qed
qed

lemma drain_frame:
  assumes mark: "good_mark mark"
  shows "ok s \<Longrightarrow> entry_of s i = Some e \<Longrightarrow> e_depth e = 1 \<Longrightarrow> t_locks s i = 0 \<Longrightarrow> drain mark i left s = Some s' \<Longrightarrow>
    ok s' \<and> (\<exists>p. entry_of s' i = Some (e\<lparr>e_pending := p\<rparr>) \<and> plist p = []) \<and> frame_on (- {i}) s s'"
proof (induction left arbitrary: s e)
  case 0
  obtain s1 where s1: "take_pending i s = (e_pending e, s1)" "entry_of s1 = (entry_of s)(i \<mapsto> e\<lparr>e_pending := None\<rparr>)"
      "distinct_ids s1" "s1 = s\<lparr>t_entries := t_entries s1\<rparr>"
    using take_pending_entry [OF ok_distinct [OF 0(1)] 0(2)] by blast
  have "ok s1" using ok_entry [OF 0(1) s1(4,3,2) 0(2)] ok_depth [OF 0(1,2)] ok_write_locks [OF 0(1,2)] by simp
  moreover have "s' = s1\<lparr>t_runaway := i # t_runaway s1\<rparr>" using 0(5) s1(1) by simp
  moreover have "frame_on (- {i}) s s'"
    using s1(2) calculation(2) rest_fields [OF s1(4)] by (intro frame_on_others) auto
  ultimately show ?case using s1(2) by auto
next
  case (Suc left)
  obtain s1 where s1: "take_pending i s = (e_pending e, s1)" "entry_of s1 = (entry_of s)(i \<mapsto> e\<lparr>e_pending := None\<rparr>)"
      "distinct_ids s1" "s1 = s\<lparr>t_entries := t_entries s1\<rparr>"
    using take_pending_entry [OF ok_distinct [OF Suc(2)] Suc(3)] by blast
  note e_ok [simp] = ok_depth [OF Suc(2,3)] ok_write_locks [OF Suc(2,3)]
  have ok1: "ok s1" using ok_entry [OF Suc(2) s1(4,3,2) Suc(3)] by simp
  have frame1: "frame_on (- {i}) s s1" using s1(2) rest_fields [OF s1(4)] by (intro frame_on_others) auto
  have depth: "\<not> 1 < depth i s" using Suc(3,4) by (simp add: depth_entry)
  show ?case
  proof (cases "plist (e_pending e)")
    case Nil
    then have "s' = s1" using Suc.prems(5) depth s1(1) by (cases "e_pending e") auto
    then show ?thesis using ok1 frame1 s1(2) by auto
  next
    case (Cons w ws)
    then have pending: "e_pending e = Some (w # ws)" by (cases "e_pending e") auto
    obtain s2 p where s2: "s2 = (if ws = [] then s1 else snd (put_pending i ws s1))" "ok s2"
        "entry_of s2 i = Some (e\<lparr>e_pending := p\<rparr>)" "frame_on (- {i}) s s2"
    proof -
      obtain s2 p where s2: "(if ws = [] then s1 else snd (put_pending i ws s1)) = s2" "ok s2"
          "entry_of s2 = (entry_of s)(i \<mapsto> e\<lparr>e_pending := p\<rparr>)" "s2 = s\<lparr>t_entries := t_entries s2\<rparr>"
        using pop_pending [OF Suc.prems(1,2) pending] s1(1) pending by auto
      moreover have "frame_on (- {i}) s s2" using s2(3) rest_fields [OF s2(4)] by (intro frame_on_others) auto
      ultimately show ?thesis using that [of s2 p] by simp
    qed
    have lock2: "t_locks s2 i = 0" using s2(4) Suc.prems(4) by (simp add: frame_on_def)
    have go: "ok s' \<and> (\<exists>p. entry_of s' i = Some (e\<lparr>e_pending := p\<rparr>) \<and> plist p = []) \<and> frame_on (- {i}) s s'"
      if "ok t" "entry_of t i = Some (e\<lparr>e_pending := q\<rparr>)" "frame_on (- {i}) s t" "drain mark i left t = Some s'" for t q
      using Suc.IH [of t "e\<lparr>e_pending := q\<rparr>"] that Suc.prems(3,4) frame_on_trans [OF that(3)] by (simp add: frame_on_def)
    have marked: "ok s' \<and> (\<exists>p. entry_of s' i = Some (e\<lparr>e_pending := p\<rparr>) \<and> plist p = []) \<and> frame_on (- {i}) s s'"
      if t: "ok t" "entry_of t i = Some (e\<lparr>e_pending := q\<rparr>)" "frame_on (- {i}) s t"
        and m: "Option.bind (mark i t) (drain mark i left) = Some s'" for t q
    proof -
      obtain u where u: "mark i t = Some u" "drain mark i left u = Some s'" using m by (auto simp: bind_eq_Some_conv)
      obtain p where "ok u" "frame_on UNIV t u" "entry_of u i = Some (e\<lparr>e_pending := q\<rparr>\<lparr>e_pending := p\<rparr>)"
        using mark_entry [OF mark t(1) u(1) t(2)] by blast
      then show ?thesis using go [of u p] u(2) t(3) frame_on_mono [of UNIV t u "- {i}"] frame_on_trans by auto
    qed
    have swapped: "ok (s2\<lparr>t_committed := (t_committed s2)(i := v)\<rparr>)" "frame_on (- {i}) s (s2\<lparr>t_committed := (t_committed s2)(i := v)\<rparr>)" for v
      using s2(2) frame_on_trans [OF s2(4) frame_on_others] by simp_all
    show ?thesis
    proof (cases w)
      case (Deferred_Set v notify)
      then show ?thesis
        using Suc.prems(5) depth s1(1) pending s2(1,3) lock2 go [OF swapped(1) _ swapped(2)] marked [OF swapped(1) _ swapped(2)]
        by (cases notify) (simp_all add: swap_in_def Let_def)
    next
      case Deferred_Notify
      then show ?thesis
        using Suc.prems(5) depth s1(1) pending s2 marked [OF s2(2) s2(3) s2(4)] by (simp add: Let_def)
    qed
  qed
qed

lemma count_write_locks: "e_write_locks e = 0 \<Longrightarrow> kind \<noteq> Write_Lock \<Longrightarrow> e_write_locks (count_access kind up e) = 0"
  by (cases kind) (simp_all add: count_access_def Let_def)

lemma exit_inner:
  assumes "ok s" and "entry_of s i = Some e" and "1 < e_depth e" and "kind \<noteq> Write_Lock" and "exit_access mark limit fuel i kind s = Some s'"
  shows "ok s' \<and> entry_of s' = (entry_of s)(i \<mapsto> count_access kind False e) \<and> s' = s\<lparr>t_entries := t_entries s'\<rparr>"
proof -
  obtain s1 where s1: "leave i kind s = (None, s1)" "distinct_ids s1" "s1 = s\<lparr>t_entries := t_entries s1\<rparr>"
      "entry_of s1 = (entry_of s)(i \<mapsto> count_access kind False e)"
    using leave_inner [OF assms(1-3)] by blast
  have "ok s1"
    using ok_entry [OF assms(1) s1(3,2,4) assms(2)] assms(3,4) ok_write_locks [OF assms(1,2)]
    by (simp add: count_write_locks)
  moreover have "s' = s1" using assms(5) s1(1) by (cases fuel) auto
  ultimately show ?thesis using s1 by simp
qed

text \<open>The outermost access ends: the signal is not in use afterwards, and its turn is released.\<close>

lemma exit_nothing_pending:
  assumes "ok s" and "entry_of s i = Some e" and "e_depth e = 1" and "t_locks s i = 0" and "plist (e_pending e) = []"
    and "exit_access mark limit fuel i kind s = Some s'"
  shows "ok s' \<and> entry_of s' = (entry_of s)(i := None) \<and> s' = s\<lparr>t_entries := t_entries s', t_turns := t_turns s - {i}\<rparr>"
proof -
  obtain s1 where s1: "leave i kind s = (Some (e_pending e, e_turn e), s1)" "distinct_ids s1" "s1 = s\<lparr>t_entries := t_entries s1\<rparr>"
      "entry_of s1 = (entry_of s)(i := None)"
    using leave_outermost [OF assms(1-3)] by blast
  have "e_pending e = None \<or> e_pending e = Some []" using assms(5) by (cases "e_pending e") auto
  then have "s' = (if e_turn e then s1\<lparr>t_turns := t_turns s1 - {i}\<rparr> else s1)"
    using assms(6) s1(1) by (cases fuel) auto
  moreover have "i \<notin> t_turns s" if "\<not> e_turn e" using that ok_turn [OF assms(1), of i] assms(2) by simp
  ultimately have s': "s' = s1\<lparr>t_turns := t_turns s - {i}\<rparr>" using rest_fields(1) [OF s1(3)] by auto
  then have "ok s'" using okD [OF assms(1)] s1(2,4) assms(4) rest_fields(2) [OF s1(3)] unfolding ok_def by auto
  moreover have "s' = s\<lparr>t_entries := t_entries s', t_turns := t_turns s - {i}\<rparr>"
    unfolding s' by (subst s1(3)) simp
  moreover have "entry_of s' = (entry_of s)(i := None)" unfolding s' using s1(4) by simp
  ultimately show ?thesis by blast
qed

lemma exit_flush:
  assumes "ok s" and "entry_of s i = Some e" and "e_depth e = 1" and "t_locks s i = 0" and pending: "e_pending e = Some (w # ws)"
  shows "\<exists>s3 e3. exit_access mark limit (Suc fuel) i kind s =
      Option.bind (drain mark i limit s3) (exit_access mark limit fuel i Read_Access)
    \<and> ok s3 \<and> entry_of s3 = (entry_of s)(i \<mapsto> e3) \<and> e_depth e3 = 1 \<and> plist (e_pending e3) = w # ws
    \<and> t_locks s3 = t_locks s \<and> t_committed s3 = t_committed s \<and> t_notified s3 = t_notified s \<and> t_dropped s3 = t_dropped s \<and> t_runaway s3 = t_runaway s"
proof -
  obtain s1 where s1: "leave i kind s = (Some (e_pending e, e_turn e), s1)" "distinct_ids s1" "s1 = s\<lparr>t_entries := t_entries s1\<rparr>"
      "entry_of s1 = (entry_of s)(i := None)"
    using leave_outermost [OF assms(1-3)] by blast
  let ?s2 = "s1\<lparr>t_turns := insert i (t_turns s1)\<rparr>"
  let ?s3 = "resume_write i (w # ws) ?s2"
  let ?f = "\<lambda>e. (count_access Read_Access True e)\<lparr>e_turn := True, e_pending := Some (ahead (w # ws) (e_pending e))\<rparr> :: 'a entry"
  let ?e3 = "?f (new_entry i)"
  have turn: "e_turn e \<Longrightarrow> i \<in> t_turns s1" "\<not> e_turn e \<Longrightarrow> i \<notin> t_turns s1"
    using ok_turn [OF assms(1), of i] assms(2) rest_fields(1) [OF s1(3)] by auto
  have "(if e_turn e then Some s1 else take_turn i s1) = Some ?s2"
    using turn by (auto simp: take_turn_def insert_absorb)
  then have exit: "exit_access mark limit (Suc fuel) i kind s =
      Option.bind (drain mark i limit ?s3) (exit_access mark limit fuel i Read_Access)"
    using s1(1) pending by auto
  have e3: "entry_of ?s3 = (entry_of s)(i \<mapsto> ?e3)"
    unfolding resume_write_def using s1(4) by (subst entry_of_with) (simp_all add: fun_eq_iff)
  have fields3: "e_depth ?e3 = 1" "e_write_locks ?e3 = 0" "e_turn ?e3" "plist (e_pending ?e3) = w # ws"
    by (simp_all add: new_entry_def count_access_def Let_def ahead_def)
  have rest3: "t_turns ?s3 = insert i (t_turns s)" "t_locks ?s3 = t_locks s" "t_committed ?s3 = t_committed s"
    "t_notified ?s3 = t_notified s" "t_dropped ?s3 = t_dropped s" "t_runaway ?s3 = t_runaway s"
    using rest_fields [OF s1(3)] by (simp_all add: resume_write_def)
  have "distinct_ids ?s3" unfolding resume_write_def using s1(2) by (intro distinct_with) simp_all
  then have "ok ?s3" using okD [OF assms(1)] fields3 unfolding ok_def e3 rest3 by auto
  then show ?thesis using exit e3 fields3 rest3 by blast
qed

lemma exit_outermost:
  assumes mark: "good_mark mark" and "ok s" and "entry_of s i = Some e" and "e_depth e = 1" and "t_locks s i = 0"
    and exit: "exit_access mark limit fuel i kind s = Some s'"
  shows "ok s' \<and> entry_of s' i = None \<and> frame_on (- {i}) s s'"
proof (cases "plist (e_pending e)")
  case Nil
  note ended = exit_nothing_pending [OF assms(2-5) Nil exit]
  have "t_locks s' = t_locks s" "t_committed s' = t_committed s" "t_dropped s' = t_dropped s"
    using ended by (metis thread.ext_inject thread.surjective thread.update_convs(1,2))+
  then have "frame_on (- {i}) s s'" using ended by (intro frame_on_others) auto
  then show ?thesis using ended by simp
next
  case (Cons w ws)
  then have pending: "e_pending e = Some (w # ws)" by (cases "e_pending e") auto
  obtain fuel' where fuel: "fuel = Suc fuel'" using exit by (cases fuel) auto
  obtain s3 e3 where s3: "exit_access mark limit fuel i kind s =
        Option.bind (drain mark i limit s3) (exit_access mark limit fuel' i Read_Access)"
      "ok s3" "entry_of s3 = (entry_of s)(i \<mapsto> e3)" "e_depth e3 = 1"
      "t_locks s3 = t_locks s" "t_committed s3 = t_committed s" "t_dropped s3 = t_dropped s"
    using exit_flush [OF assms(2-5) pending, of mark limit fuel' kind] unfolding fuel by blast
  obtain s4 where s4: "drain mark i limit s3 = Some s4" "exit_access mark limit fuel' i Read_Access s4 = Some s'"
    using exit s3(1) by (auto simp: bind_eq_Some_conv)
  have frame3: "frame_on (- {i}) s s3" using s3 by (intro frame_on_others) simp_all
  obtain p where p: "ok s4" "entry_of s4 i = Some (e3\<lparr>e_pending := p\<rparr>)" "plist p = []" "frame_on (- {i}) s3 s4"
    using drain_frame [OF mark s3(2) _ s3(4) _ s4(1)] s3(3,5) assms(5) by auto
  have "t_locks s4 i = 0" using p(4) s3(5) assms(5) by (simp add: frame_on_def)
  note ended = exit_nothing_pending [OF p(1,2) _ this _ s4(2)]
  then have ended': "ok s'" "entry_of s' = (entry_of s4)(i := None)" "s' = s4\<lparr>t_entries := t_entries s', t_turns := t_turns s4 - {i}\<rparr>"
    using s3(4) p(3) by auto
  have "t_locks s' = t_locks s4" "t_committed s' = t_committed s4" "t_dropped s' = t_dropped s4"
    using ended'(3) by (metis thread.ext_inject thread.surjective thread.update_convs(1,2))+
  then have "frame_on (- {i}) s4 s'" using ended'(2) by (intro frame_on_others) auto
  then show ?thesis using ended'(1,2) frame3 p(4) frame_on_trans by (metis fun_upd_same)
qed

end
