(* ===== verification/Signal_Writes.thy ===== *)
theory Signal_Writes
  imports Signal_Frame
begin

text \<open>
  Every operation of \<open>signal/commit.rs\<close>, and all code made of them, keeps the record: no access is
  left over, no turn is kept, no write is dropped, and no write lands in the middle of a read.
\<close>

section \<open>Each operation keeps the record\<close>

lemma commit_frame:
  assumes mark: "good_mark mark" and s: "ok s" "entry_of s i = Some e" "e_depth e = 1" "t_locks s i = 0"
    and run: "commit mark i v notify s = Some s'"
  shows "ok s' \<and> (\<exists>p. entry_of s' i = Some (e\<lparr>e_pending := p\<rparr>)) \<and> frame_on (- {i}) s s'"
proof -
  let ?s1 = "s\<lparr>t_committed := (t_committed s)(i := v)\<rparr>"
  have s1: "ok ?s1" "entry_of ?s1 i = Some e" "frame_on (- {i}) s ?s1" using s by (auto intro: frame_on_others)
  have run1: "(if notify then mark i ?s1 else Some ?s1) = Some s'"
    using run s by (auto simp: commit_def commit_now_def swap_in_def depth_entry bind_eq_Some_conv split: if_splits)
  show ?thesis
  proof (cases notify)
    case True
    then have "mark i ?s1 = Some s'" using run1 by simp
    then obtain p where "ok s'" "frame_on UNIV ?s1 s'" "entry_of s' i = Some (e\<lparr>e_pending := p\<rparr>)"
      using mark_entry [OF mark s1(1) _ s1(2)] by blast
    then show ?thesis using frame_on_trans [OF s1(3)] frame_on_mono [of UNIV ?s1 s' "- {i}"] by blast
  next
    case False
    then show ?thesis using run1 s1 by (auto intro!: exI [of _ "e_pending e"])
  qed
qed

text \<open>A write of a signal that was not in use, from the start of the access to its end.\<close>

lemma write_frame:
  assumes mark: "good_mark mark" and s: "ok s" "entry_of s i = None"
    and started: "begin_write i snapshot s = (Started, s1)" and body: "ok s2" "frame_on UNIV s1 s2"
    and run: "Option.bind (commit mark i v notify s2) (exit_access mark limit fuel i kind) = Some s'"
  shows "ok s' \<and> frame_on UNIV s s'"
proof -
  obtain e where e: "ok s1" "entry_of s1 = (entry_of s)(i \<mapsto> e)" "e_depth e = 1"
      "s1 = s\<lparr>t_entries := t_entries s1, t_turns := insert i (t_turns s)\<rparr>"
    using begin_write_started [OF s, of snapshot] started by auto
  have same: "t_locks s1 = t_locks s" "t_committed s1 = t_committed s" "t_dropped s1 = t_dropped s"
    by (subst e(4), simp)+
  have frame1: "frame_on (- {i}) s s1" using e(2) same by (intro frame_on_others) simp_all
  obtain p where p: "entry_of s2 i = Some (e\<lparr>e_pending := p\<rparr>)"
    using frame_entry [OF body(2) UNIV_I, of i e] e(2) by auto
  have lock: "t_locks s2 i = 0" using body(2) same ok_unlocked [OF s] by (simp add: frame_on_def)
  obtain s3 where s3: "commit mark i v notify s2 = Some s3" "exit_access mark limit fuel i kind s3 = Some s'"
    using run by (auto simp: bind_eq_Some_conv)
  obtain q where q: "ok s3" "entry_of s3 i = Some (e\<lparr>e_pending := q\<rparr>)" "frame_on (- {i}) s2 s3"
    using commit_frame [OF mark body(1) p _ lock s3(1)] e(3) by auto
  have "t_locks s3 i = 0" using q(3) lock by (simp add: frame_on_def)
  then have end_: "ok s'" "entry_of s' i = None" "frame_on (- {i}) s3 s'"
    using exit_outermost [OF mark q(1,2) _ _ s3(2)] e(3) by auto
  have "frame_on (- {i}) s s'"
    using frame1 frame_on_mono [OF body(2), of "- {i}"] q(3) end_(3) frame_on_trans by (metis top_greatest)
  then show ?thesis using end_(1,2) s(2) by (auto intro!: frame_on_all simp: frame_at_def)
qed

lemma frame_change:
  assumes "entry_of s i = Some e" and "entry_of s' = (entry_of s)(i \<mapsto> e\<lparr>e_pending := p\<rparr>)" and "plist p = plist (e_pending e) @ q"
    and "s' = s\<lparr>t_entries := t_entries s'\<rparr>"
  shows "frame_on UNIV s s'"
proof (rule frame_on_all)
  show "frame_on (- {i}) s s'" using assms(2) rest_fields [OF assms(4)] by (intro frame_on_others) auto
  have "\<exists>p q. entry_of s' i = Some (e\<lparr>e_pending := p\<rparr>) \<and> plist p = plist (e_pending e) @ q"
    using assms(2,3) by (intro exI [of _ p] exI [of _ q]) simp
  then show "frame_at i s s'" using assms(1) rest_fields [OF assms(4)] by (simp add: frame_at_def)
qed

lemma defer_frame:
  assumes "ok s" and "entry_of s i = Some e"
  shows "ok (defer_write i w False s) \<and> frame_on UNIV s (defer_write i w False s)"
proof -
  obtain s' where s': "defer_write i w False s = s'" "ok s'" "s' = s\<lparr>t_entries := t_entries s'\<rparr>"
      "entry_of s' = (entry_of s)(i \<mapsto> e\<lparr>e_pending := Some (plist (e_pending e) @ [w])\<rparr>)"
    using defer_write_entry [OF assms, of w False] by auto
  then show ?thesis using frame_change [OF assms(2) s'(4) _ s'(3), of "[w]"] by simp
qed

lemma set_value_good: "good_mark mark \<Longrightarrow> good (set_value mark (exit_access mark limit fuel) i v notify)"
  unfolding good_def
proof (intro allI impI)
  fix s s' assume mark: "good_mark mark" and s: "ok s" and run: "set_value mark (exit_access mark limit fuel) i v notify s = Some s'"
  show "ok s' \<and> frame_on UNIV s s'"
  proof (cases "entry_of s i")
    case None
    obtain s1 where s1: "begin_write i False s = (Started, s1)" "ok s1" using begin_write_started [OF s None] by blast
    then show ?thesis using run write_frame [OF mark s None s1(1,2) frame_on_refl] by (simp add: set_value_def)
  next
    case (Some e)
    then show ?thesis using run defer_frame [OF s Some] begin_write_in_use [OF s Some] by (auto simp: set_value_def)
  qed
qed

lemma notify_good: "good_mark mark \<Longrightarrow> good (notify_or_defer mark i)"
  unfolding good_def
proof (intro allI impI)
  fix s s' assume mark: "good_mark mark" and s: "ok s" and run: "notify_or_defer mark i s = Some s'"
  show "ok s' \<and> frame_on UNIV s s'"
  proof (cases "entry_of s i")
    case None
    then show ?thesis using run mark s in_use_ok [OF s] by (auto simp: notify_or_defer_def good_mark_def good_def)
  next
    case (Some e)
    then show ?thesis using run defer_frame [OF s Some] in_use_ok [OF s] by (auto simp: notify_or_defer_def)
  qed
qed

lemma read_committed_ok: "ok s \<Longrightarrow> read_committed i s = Some (t_committed s i)"
  by (simp add: read_committed_def write_locks_ok)

lemma update_good:
  assumes mark: "good_mark mark" and body: "good body"
  shows "good (update_snapshot mark (exit_access mark limit fuel) body i fun)"
  unfolding good_def
proof (intro allI impI)
  fix s s' assume s: "ok s" and run: "update_snapshot mark (exit_access mark limit fuel) body i fun s = Some s'"
  show "ok s' \<and> frame_on UNIV s s'"
  proof (cases "entry_of s i")
    case None
    obtain s1 where s1: "begin_write i True s = (Started, s1)" "ok s1" using begin_write_started [OF s None] by blast
    then obtain s2 where s2: "body s1 = Some s2"
        "Option.bind (commit mark i (fst (fun (t_committed s1 i))) (snd (fun (t_committed s1 i))) s2) (exit_access mark limit fuel i Snapshot) = Some s'"
      using run by (auto simp: update_snapshot_def read_committed_ok bind_eq_Some_conv split_beta Let_def)
    then show ?thesis using write_frame [OF mark s None s1(1)] goodD [OF body s1(2)] by blast
  next
    case (Some e)
    let ?s2 = "if 0 < snapshots i s then s\<lparr>t_nested := i # t_nested s\<rparr> else s"
    have s2: "ok ?s2" "entry_of ?s2 i = Some e" "frame_on UNIV s ?s2"
      using s Some by (auto simp: frame_on_def intro: frame_at_same)
    obtain s3 p v where s3: "pending_or_committed i ?s2 = (Some v, s3)" "ok s3" "s3 = ?s2\<lparr>t_entries := t_entries s3\<rparr>"
        "entry_of s3 = (entry_of ?s2)(i \<mapsto> e\<lparr>e_pending := p\<rparr>)" "plist p = plist (e_pending e)"
      using pending_or_committed_entry [OF s2(1,2)] by blast
    have frame3: "frame_on UNIV ?s2 s3" using frame_change [OF s2(2) s3(4) _ s3(3), of "[]"] s3(5) by simp
    obtain s4 where s4: "body s3 = Some s4" "s' = defer_write i (Deferred_Set (fst (fun v)) (snd (fun v))) False s4"
      using run begin_write_in_use [OF s Some] s3(1) by (auto simp: update_snapshot_def Let_def bind_eq_Some_conv split_beta)
    have frame4: "ok s4" "frame_on UNIV s3 s4" using goodD [OF body s3(2) s4(1)] by auto
    obtain q where "entry_of s4 i = Some (e\<lparr>e_pending := p\<rparr>\<lparr>e_pending := q\<rparr>)"
      using frame_entry [OF frame4(2), of i "e\<lparr>e_pending := p\<rparr>"] s3(4) by auto
    then show ?thesis
      using defer_frame [OF frame4(1)] s4(2) frame_on_trans [OF s2(3) frame_on_trans [OF frame3 frame_on_trans [OF frame4(2)]]] by blast
  qed
qed

text \<open>
  An inner access of a signal in use: it is entered, \<open>body\<close> runs, and it is left (a read guard
  holds the lock meanwhile, of which \<open>k\<close> counts).
\<close>

lemma inner_access:
  assumes "ok s" and "entry_of s i = Some e" and "kind \<noteq> Write_Lock"
  shows "ok (enter i kind s)" and "entry_of (enter i kind s) = (entry_of s)(i \<mapsto> count_access kind True e)"
proof -
  show e: "entry_of (enter i kind s) = (entry_of s)(i \<mapsto> count_access kind True e)"
    unfolding enter_def using assms(2) by (subst entry_of_with) simp_all
  have d: "distinct_ids (enter i kind s)" unfolding enter_def using ok_distinct [OF assms(1)] by (intro distinct_with) simp_all
  have r: "enter i kind s = s\<lparr>t_entries := t_entries (enter i kind s)\<rparr>" by (simp add: enter_def with_entry_def)
  show "ok (enter i kind s)"
    using ok_entry [OF assms(1) r d e assms(2)] ok_write_locks [OF assms(1,2)] assms(3) by (simp add: count_write_locks)
qed

lemma enter_fields [simp]:
  "t_turns (enter i kind s) = t_turns s" "t_locks (enter i kind s) = t_locks s" "t_committed (enter i kind s) = t_committed s"
  "t_notified (enter i kind s) = t_notified s" "t_dropped (enter i kind s) = t_dropped s"
  by (simp_all add: enter_def)

lemma count_pending [simp]: "count_access kind False ((count_access kind True e)\<lparr>e_pending := x\<rparr>) = e\<lparr>e_pending := x\<rparr>"
  by (cases kind) (simp_all add: count_access_def Let_def)

lemma exit_inner_frame:
  assumes "ok s" and "entry_of s i = Some e" and "kind \<noteq> Write_Lock" and enter: "s1 = (enter i kind s)\<lparr>t_locks := l\<rparr>"
    and "ok s2" and frame: "frame_on UNIV s1 s2" and exit: "exit_access mark limit fuel i kind (s2\<lparr>t_locks := t_locks s\<rparr>) = Some s'"
  shows "ok s' \<and> frame_on UNIV s s'"
proof -
  let ?s2 = "s2\<lparr>t_locks := t_locks s\<rparr>"
  have e1: "entry_of s1 = (entry_of s)(i \<mapsto> count_access kind True e)" "t_committed s1 = t_committed s" "t_dropped s1 = t_dropped s"
    using inner_access(2) [OF assms(1-3)] unfolding enter by simp_all
  have "frame_at i s1 s2" using frame by (simp add: frame_on_def)
  then obtain p q where p: "entry_of s2 i = Some ((count_access kind True e)\<lparr>e_pending := p\<rparr>)" "plist p = plist (e_pending e) @ q"
      "t_committed s2 i = t_committed s i"
    using e1 by (auto simp: frame_at_def)
  have "t_locks s j = 0" if "entry_of s2 j = None" for j
  proof -
    have "entry_of s1 j = None" using that frame_None [OF frame] by simp
    then show ?thesis using ok_unlocked [OF assms(1)] e1(1) by (auto split: if_splits)
  qed
  then have ok2: "ok ?s2" using okD [OF assms(5)] unfolding ok_def by auto
  have s': "ok s'" "entry_of s' = (entry_of s2)(i \<mapsto> e\<lparr>e_pending := p\<rparr>)" "s' = ?s2\<lparr>t_entries := t_entries s'\<rparr>"
    using exit_inner [OF ok2 _ _ assms(3) exit, of "(count_access kind True e)\<lparr>e_pending := p\<rparr>"] p(1) ok_depth [OF assms(1,2)] by auto
  note same = rest_fields [OF s'(3)]
  have "frame_at j s s'" for j
  proof (cases "j = i")
    case True
    then show ?thesis using s'(2) same p(2,3) assms(2) by (auto simp: frame_at_def)
  next
    case False
    then have "frame_at j s s1" "frame_at j s2 s'" using e1 s'(2) same by (auto intro: frame_at_same)
    then show ?thesis using frame frame_at_trans unfolding frame_on_def by blast
  qed
  moreover have "t_dropped s2 = t_dropped s" using frame e1(3) by (simp add: frame_on_def)
  ultimately show ?thesis using s'(1) same by (simp add: frame_on_def)
qed

lemma guard_good:
  assumes mark: "good_mark mark" and body: "good body"
  shows "good (write_guard mark (exit_access mark limit fuel) body i change notify)"
  unfolding good_def
proof (intro allI impI)
  fix s s' assume s: "ok s" and run: "write_guard mark (exit_access mark limit fuel) body i change notify s = Some s'"
  show "ok s' \<and> frame_on UNIV s s'"
  proof (cases "entry_of s i")
    case None
    obtain s1 where s1: "begin_write i True s = (Started, s1)" "ok s1" using begin_write_started [OF s None] by blast
    then obtain s2 where s2: "body s1 = Some s2"
        "Option.bind (commit mark i (change (t_committed s1 i)) notify s2) (exit_access mark limit fuel i Snapshot) = Some s'"
      using run by (auto simp: write_guard_def read_committed_ok bind_eq_Some_conv)
    then show ?thesis using write_frame [OF mark s None s1(1)] goodD [OF body s1(2)] by blast
  next
    case (Some e)
    let ?s1 = "enter i Snapshot s"
    have s1: "ok ?s1" "entry_of ?s1 i = Some (count_access Snapshot True e)" "t_locks ?s1 = t_locks s"
      using inner_access [OF s Some, of Snapshot] by simp_all
    obtain s2 p v where s2: "pending_or_committed i ?s1 = (Some v, s2)" "ok s2" "s2 = ?s1\<lparr>t_entries := t_entries s2\<rparr>"
        "entry_of s2 = (entry_of ?s1)(i \<mapsto> (count_access Snapshot True e)\<lparr>e_pending := p\<rparr>)" "plist p = plist (e_pending (count_access Snapshot True e))"
      using pending_or_committed_entry [OF s1(1,2)] by blast
    have frame2: "frame_on UNIV ?s1 s2" using frame_change [OF s1(2) s2(4) _ s2(3), of "[]"] s2(5) by simp
    obtain s3 where s3: "body s2 = Some s3"
        "exit_access mark limit fuel i Snapshot (defer_write i (Deferred_Set (change v) notify) False s3) = Some s'"
      using run begin_write_in_use [OF s Some] s2(1) by (auto simp: write_guard_def bind_eq_Some_conv)
    have frame3: "ok s3" "frame_on UNIV s2 s3" using goodD [OF body s2(2) s3(1)] by auto
    obtain q where "entry_of s3 i = Some ((count_access Snapshot True e)\<lparr>e_pending := p\<rparr>\<lparr>e_pending := q\<rparr>)"
      using frame_entry [OF frame3(2), of i "(count_access Snapshot True e)\<lparr>e_pending := p\<rparr>"] s2(4) by auto
    from defer_frame [OF frame3(1) this] frame_on_trans [OF frame2 frame3(2)]
    have s4: "ok (defer_write i w False s3)" "frame_on UNIV ?s1 (defer_write i w False s3)" for w
      using frame_on_trans by blast+
    have "(defer_write i w False s3)\<lparr>t_locks := t_locks s\<rparr> = defer_write i w False s3" for w
      using s4(2) [of w] s1(3) by (simp add: frame_on_def)
    then show ?thesis
      using exit_inner_frame [OF s Some _ _ s4, of Snapshot "t_locks s"] s3(2) s1(3) by auto
  qed
qed

lemma swap_part_good:
  assumes mark: "good_mark mark"
  shows "good (swap_part mark (exit_access mark limit fuel) i put_part notify)"
  unfolding good_def
proof (intro allI impI)
  fix s s' assume s: "ok s" and run: "swap_part mark (exit_access mark limit fuel) i put_part notify s = Some s'"
  show "ok s' \<and> frame_on UNIV s s'"
  proof (cases "entry_of s i")
    case None
    obtain s1 where s1: "begin_write i False s = (Started, s1)" "ok s1"
        "s1 = s\<lparr>t_entries := t_entries s1, t_turns := insert i (t_turns s)\<rparr>" "depth i s1 = 1"
      using begin_write_started [OF s None, of False] by (auto simp: depth_entry)
    have "t_locks s1 i = 0" using ok_unlocked [OF s None] by (subst s1(3)) simp
    then have "Option.bind (commit mark i (put_part (t_committed s1 i)) notify s1) (exit_access mark limit fuel i Read_Access) = Some s'"
      using run s1(1,4)
      by (cases notify) (auto simp: swap_part_def commit_def commit_now_def swap_in_def Let_def bind_eq_Some_conv)
    then show ?thesis using write_frame [OF mark s None s1(1,2) frame_on_refl] by blast
  next
    case (Some e)
    then show ?thesis
      using run begin_write_in_use [OF s Some] s by (auto simp: swap_part_def frame_on_def intro: frame_at_same)
  qed
qed

lemma with_good:
  assumes mark: "good_mark mark" and body: "good body"
  shows "good (with_value (exit_access mark limit fuel) body i)"
  unfolding good_def
proof (intro allI impI)
  fix s s' assume s: "ok s" and run: "with_value (exit_access mark limit fuel) body i s = Some s'"
  let ?l = "(t_locks s)(i := Suc (t_locks s i))"
  let ?s1 = "(enter i Read_Access s)\<lparr>t_locks := ?l\<rparr>"
  obtain s2 where s2: "body ?s1 = Some s2"
      "exit_access mark limit fuel i Read_Access (s2\<lparr>t_locks := (t_locks s2)(i := t_locks s2 i - 1)\<rparr>) = Some s'"
    using run write_locks_ok [OF s, of i] by (auto simp: with_value_def Let_def bind_eq_Some_conv)
  have restored: "(t_locks s2)(i := t_locks s2 i - 1) = t_locks s" if "frame_on UNIV ?s1 s2"
    using that by (auto simp: frame_on_def)
  show "ok s' \<and> frame_on UNIV s s'"
  proof (cases "entry_of s i")
    case (Some e)
    have "ok ?s1" using inner_access [OF s Some, of Read_Access] okD [OF s] unfolding ok_def by (auto split: if_splits)
    then have f: "ok s2" "frame_on UNIV ?s1 s2" using goodD [OF body _ s2(1)] by auto
    show ?thesis using exit_inner_frame [OF s Some _ refl f] s2(2) restored [OF f(2)] by simp
  next
    case None
    let ?e = "count_access Read_Access True (new_entry i)"
    have e: "?e = (new_entry i)\<lparr>e_depth := 1\<rparr>" by (simp add: count_access_def Let_def new_entry_def)
    have e1: "entry_of ?s1 = (entry_of s)(i \<mapsto> ?e)" unfolding enter_def using None by (simp add: entry_of_with)
    have "distinct_ids ?s1" unfolding enter_def using ok_distinct [OF s] by (simp add: distinct_with)
    then have "ok ?s1" using okD [OF s] e1 None unfolding ok_def e by (auto simp: new_entry_def split: if_splits)
    then have f: "ok s2" "frame_on UNIV ?s1 s2" using goodD [OF body _ s2(1)] by auto
    let ?s2 = "s2\<lparr>t_locks := t_locks s\<rparr>"
    obtain p where p: "entry_of s2 i = Some (?e\<lparr>e_pending := p\<rparr>)" using frame_entry [OF f(2) UNIV_I, of i ?e] e1 by auto
    have "t_locks s j = 0" if "entry_of s2 j = None" for j
      using that frame_None [OF f(2), of j] e1 ok_unlocked [OF s, of j] by (auto split: if_splits)
    then have ok2: "ok ?s2" using okD [OF f(1)] unfolding ok_def by auto
    have fin: "ok s'" "entry_of s' i = None" "frame_on (- {i}) ?s2 s'"
      using exit_outermost [OF mark ok2 _ _ _ , of i "?e\<lparr>e_pending := p\<rparr>"] p s2(2) restored [OF f(2)] ok_unlocked [OF s None]
      by (auto simp: e)
    have "frame_at j s s'" if "j \<noteq> i" for j
    proof -
      have "frame_at j s ?s1" "frame_at j s2 ?s2" using e1 that by (auto intro: frame_at_same)
      then show ?thesis using f(2) fin(3) that frame_at_trans unfolding frame_on_def by blast
    qed
    moreover have "frame_at i s s'" using None fin(2) by (simp add: frame_at_def)
    moreover have "t_dropped s' = t_dropped s" "t_locks s' = t_locks s" using fin(3) f(2) by (simp_all add: frame_on_def)
    ultimately show ?thesis using fin(1) unfolding frame_on_def by metis
  qed
qed

lemma mark_good: "(\<And>c. good (run c)) \<Longrightarrow> good_mark (mark_subscribers handler run)"
  unfolding good_mark_def good_def [of "mark_subscribers handler run _"]
proof (intro allI impI)
  fix i and s s' :: "'a thread" assume run: "\<And>c. good (run c)" and s: "ok s" "mark_subscribers handler run i s = Some s'"
  let ?s = "s\<lparr>t_notified := t_notified s @ [(i, t_committed s i)]\<rparr>"
  have "ok s' \<and> frame_on UNIV ?s s'"
    using goodD [OF good_fold [OF run], of ?s] s by (simp add: mark_subscribers_def)
  moreover have "frame_on UNIV s ?s" by (auto simp: frame_on_def intro: frame_at_same)
  ultimately show "ok s' \<and> frame_on UNIV s s'" using frame_on_trans by blast
qed

lemma exec_good: "good (exec handler limit fuel c)"
proof (induction fuel arbitrary: c)
  case (Suc fuel)
  note mark = mark_good [OF Suc.IH]
  note body = good_fold [OF Suc.IH]
  have some: "good Some" by (simp add: good_def frame_on_refl)
  show ?case
  proof (cases c)
    case (Get_Value i cont)
    show ?thesis
      unfolding good_def
    proof (intro allI impI)
      fix s s' assume s: "ok s" and run: "exec handler limit (Suc fuel) c s = Some s'"
      let ?with = "with_value (exit_access (mark_subscribers handler (exec handler limit fuel)) limit fuel) Some i"
      obtain s1 where s1: "?with s = Some s1" "fold_opt (exec handler limit fuel) (cont (t_committed s i)) s1 = Some s'"
        using run read_committed_ok [OF s, of i] by (auto simp: Get_Value bind_eq_Some_conv)
      have f1: "ok s1" "frame_on UNIV s s1" using goodD [OF with_good [OF mark some] s s1(1)] by auto
      have "ok s'" "frame_on UNIV s1 s'" using goodD [OF body f1(1) s1(2)] by auto
      then show "ok s' \<and> frame_on UNIV s s'" using frame_on_trans [OF f1(2)] by blast
    qed
  qed (simp_all add: set_value_good notify_good update_good guard_good swap_part_good with_good mark body Let_def)
qed (simp add: good_def)

section \<open>What holds for all code\<close>

lemma code_good: "ok s \<Longrightarrow> fold_opt (exec handler limit fuel) cs s = Some s' \<Longrightarrow> ok s' \<and> frame_on UNIV s s'"
  using goodD [OF good_fold [where f = "exec handler limit fuel", OF exec_good]] by blast

lemma ok_idle [simp]: "ok (idle values)"
  by (simp add: ok_def idle_def entry_of_def find_entry_def distinct_ids_def)

lemma entry_of_idle [simp]: "entry_of (idle values) i = None"
  by (simp add: idle_def entry_of_def find_entry_def)

lemma all_accesses_end:
  assumes "fold_opt (exec handler limit fuel) cs (idle values) = Some s'"
  shows "t_entries s' = [] \<and> t_turns s' = {} \<and> (\<forall>i. t_locks s' i = 0) \<and> t_dropped s' = []"
proof -
  have s': "ok s'" "frame_on UNIV (idle values) s'" using code_good [OF ok_idle assms] by auto
  have none: "entry_of s' i = None" for i using frame_None [OF s'(2), of i] by simp
  have "find_entry (e_id e) (t_entries s') = Some e" if "e \<in> set (t_entries s')" for e
    using that find_entry_iff [of "t_entries s'" "e_id e" e] ok_distinct [OF s'(1)] by (simp add: distinct_ids_def)
  then have "t_entries s' = []" using none unfolding entry_of_def by (metis list.set_intros(1) neq_Nil_conv option.distinct(1))
  moreover have "t_turns s' = {}" using ok_turn [OF s'(1)] none by auto
  ultimately show ?thesis using s'(2) by (simp add: frame_on_def idle_def)
qed

end
