(* ===== verification/Signal_Returns.thy ===== *)
theory Signal_Returns
  imports Signal_Writes
begin

text \<open>
  Code that uses signals returns, with its subscribers: a signal's subscribers run while the signal
  is in use, when writes to it are deferred, so that the subscribers of one signal can only start
  those of signals not yet in use, and deferred writes are applied up to a limit.
\<close>

section \<open>How deep code goes\<close>

text \<open>
  At most so deep a nesting. The branches of a \<open>Get_Value\<close> are functions of the value, so a property of
  code is one of all branches.
\<close>

primrec height :: "'v cmd \<Rightarrow> nat \<Rightarrow> bool" where
  "height (Set i v notify) = (\<lambda>n. 1 \<le> n)"
| "height (Notify i) = (\<lambda>n. 1 \<le> n)"
| "height (Update i body fun) = (\<lambda>n. 1 \<le> n \<and> list_all (\<lambda>P. P (n - 1)) (map height body))"
| "height (Guard i body change notify) = (\<lambda>n. 1 \<le> n \<and> list_all (\<lambda>P. P (n - 1)) (map height body))"
| "height (Set_Part i put_part notify) = (\<lambda>n. 1 \<le> n)"
| "height (With i body) = (\<lambda>n. 1 \<le> n \<and> list_all (\<lambda>P. P (n - 1)) (map height body))"
| "height (Get_Value i cont) = (\<lambda>n. 1 \<le> n \<and> (\<forall>v. list_all (\<lambda>P. P (n - 1)) ((\<lambda>v. map height (cont v)) v)))"

text \<open>
  Code that uses only signals of \<open>S\<close>, and notifies (by hand) none, unless that is allowed: the
  subscribers of a notified signal may run while it is not in use.
\<close>

primrec acts_on :: "nat set \<Rightarrow> bool \<Rightarrow> 'v cmd \<Rightarrow> bool" where
  "acts_on S may_notify (Set i v notify) = (i \<in> S)"
| "acts_on S may_notify (Notify i) = (may_notify \<and> i \<in> S)"
| "acts_on S may_notify (Update i body fun) = (i \<in> S \<and> list_all (\<lambda>b. b) (map (acts_on S may_notify) body))"
| "acts_on S may_notify (Guard i body change notify) = (i \<in> S \<and> list_all (\<lambda>b. b) (map (acts_on S may_notify) body))"
| "acts_on S may_notify (Set_Part i put_part notify) = (i \<in> S)"
| "acts_on S may_notify (With i body) = (i \<in> S \<and> list_all (\<lambda>b. b) (map (acts_on S may_notify) body))"
| "acts_on S may_notify (Get_Value i cont) = (i \<in> S \<and> (\<forall>v. list_all (\<lambda>b. b) ((\<lambda>v. map (acts_on S may_notify) (cont v)) v)))"

lemma list_applied [simp]: "list_ex (\<lambda>b. b) (map P xs) = list_ex P xs" "list_all (\<lambda>b. b) (map P xs) = list_all P xs"
  by (simp_all add: list_ex_iff list_all_iff)

lemma list_all_applied [simp]: "list_all (\<lambda>P. P n) (map Q xs) = list_all (\<lambda>x. Q x n) xs"
  by (simp add: list_all_iff)

lemma height_pos: "height c n \<Longrightarrow> 0 < n"
  by (cases c) auto

section \<open>The signals that are not in use\<close>

definition unused :: "nat set \<Rightarrow> 'v thread \<Rightarrow> nat set" where
  "unused S s = {i \<in> S. entry_of s i = None}"

definition returns :: "nat set \<Rightarrow> nat \<Rightarrow> ('v thread \<Rightarrow> 'v thread option) \<Rightarrow> bool" where
  "returns S m run \<longleftrightarrow> (\<forall>s. ok s \<longrightarrow> card (unused S s) \<le> m \<longrightarrow> (\<exists>s'. run s = Some s'))"

lemma unused_frame: "frame_on UNIV s s' \<Longrightarrow> unused S s' = unused S s"
  by (simp add: unused_def frame_None)

lemma unused_used: "entry_of s' = (entry_of s)(i \<mapsto> e) \<Longrightarrow> unused S s' = unused S s - {i}"
  by (auto simp: unused_def)

lemma unused_again: "entry_of s i = Some e \<Longrightarrow> entry_of s' = (entry_of s)(i \<mapsto> e') \<Longrightarrow> unused S s' = unused S s"
  by (auto simp: unused_def)

lemma unused_same: "entry_of s' = entry_of s \<Longrightarrow> unused S s' = unused S s"
  by (simp add: unused_def)

lemma card_used:
  assumes "finite S" and "i \<in> S" and "entry_of s i = None" and "card (unused S s) \<le> m"
  obtains k where "m = Suc k" "card (unused S s - {i}) \<le> k"
proof -
  have "i \<in> unused S s" "finite (unused S s)" using assms(1-3) by (auto simp: unused_def)
  then have "card (unused S s) = Suc (card (unused S s - {i}))" by (metis card_Suc_Diff1)
  then show ?thesis using that assms(4) by (cases m) auto
qed

lemma returnsD: "returns S m run \<Longrightarrow> ok s \<Longrightarrow> card (unused S s) \<le> m \<Longrightarrow> \<exists>s'. run s = Some s'"
  unfolding returns_def by blast

lemma returns_fold:
  fixes f :: "'b \<Rightarrow> 'v thread \<Rightarrow> 'v thread option"
  assumes "\<And>x. x \<in> set xs \<Longrightarrow> returns S m (f x)" and "\<And>x. good (f x)"
  shows "returns S m (fold_opt f xs)"
  unfolding returns_def
proof (intro allI impI)
  fix s :: "'v thread" assume s: "ok s" "card (unused S s) \<le> m"
  have "\<exists>s'. fold_opt f xs s = Some s' \<and> (ok s' \<and> card (unused S s') \<le> m)"
  proof (rule fold_opt_total)
    fix x and s :: "'v thread" assume x: "x \<in> set xs" and s: "ok s \<and> card (unused S s) \<le> m"
    obtain s' where s': "f x s = Some s'" using returnsD [OF assms(1) [OF x]] s by blast
    then have "ok s'" "frame_on UNIV s s'" using goodD [OF assms(2)] s by blast+
    then show "\<exists>s'. f x s = Some s' \<and> (ok s' \<and> card (unused S s') \<le> m)" using s s' unused_frame [of s s' S] by simp
  qed (use s in simp)
  then show "\<exists>s'. fold_opt f xs s = Some s'" by blast
qed

section \<open>The end of an access returns\<close>

lemma drain_returns:
  assumes mark: "good_mark mark" "returns S m (mark i)"
  shows "ok s \<Longrightarrow> entry_of s i = Some e \<Longrightarrow> e_depth e = 1 \<Longrightarrow> t_locks s i = 0 \<Longrightarrow> card (unused S s) \<le> m \<Longrightarrow>
    \<exists>s'. drain mark i left s = Some s'"
proof (induction left arbitrary: s e)
  case (Suc left)
  have depth: "depth i s = 1" using Suc.prems(2,3) by (simp add: depth_entry)
  show ?case
  proof (cases "plist (e_pending e)")
    case Nil
    then show ?thesis
      using take_pending_entry [OF ok_distinct [OF Suc.prems(1)] Suc.prems(2)] depth by (cases "e_pending e") auto
  next
    case (Cons w ws)
    then have pending: "e_pending e = Some (w # ws)" by (cases "e_pending e") auto
    obtain s1 s2 p where s2: "take_pending i s = (Some (w # ws), s1)" "(if ws = [] then s1 else snd (put_pending i ws s1)) = s2" "ok s2"
        "entry_of s2 = (entry_of s)(i \<mapsto> e\<lparr>e_pending := p\<rparr>)" "s2 = s\<lparr>t_entries := t_entries s2\<rparr>"
      using pop_pending [OF Suc.prems(1,2) pending] by blast
    have unused: "card (unused S t) \<le> m" if "entry_of t = entry_of s2" for t
      using that Suc.prems(5) unused_same [of t s2 S] unused_again [OF Suc.prems(2) s2(4), of S] by simp
    have next_: "\<exists>s'. drain mark i left t = Some s'" if "ok t" "entry_of t = entry_of s2" "t_locks t = t_locks s" for t
      using that s2(4) Suc.prems(3,4) by (intro Suc.IH [OF that(1) _ _ _ unused [OF that(2)], of "e\<lparr>e_pending := p\<rparr>"]) simp_all
    have marked: "\<exists>s'. Option.bind (mark i t) (drain mark i left) = Some s'"
      if t: "ok t" "entry_of t = entry_of s2" "t_locks t = t_locks s" for t
    proof -
      obtain t' where t': "mark i t = Some t'" using returnsD [OF mark(2) t(1) unused [OF t(2)]] by blast
      obtain q where q: "ok t'" "frame_on UNIV t t'" "entry_of t' i = Some (e\<lparr>e_pending := p\<rparr>\<lparr>e_pending := q\<rparr>)"
        using mark_entry [OF mark(1) t(1) t', of "e\<lparr>e_pending := p\<rparr>"] t(2) s2(4) by auto
      then show ?thesis
        using Suc.IH [OF q(1,3)] t' t(3) Suc.prems(3,4) unused [OF t(2)] unused_frame [OF q(2), of S] by (simp add: frame_on_def)
    qed
    note same = rest_fields [OF s2(5)]
    show ?thesis
    proof (cases w)
      case (Deferred_Set v n)
      let ?t = "s2\<lparr>t_committed := (t_committed s2)(i := v)\<rparr>"
      have "drain mark i (Suc left) s = (if n then Option.bind (mark i ?t) (drain mark i left) else drain mark i left ?t)"
        using depth s2(1,2) Deferred_Set same Suc.prems(4) by (auto simp: Let_def swap_in_def)
      then show ?thesis using next_ [of ?t] marked [of ?t] s2(3) same by simp
    next
      case Deferred_Notify
      then show ?thesis using depth s2(1,2) marked [OF s2(3)] same by (auto simp: Let_def)
    qed
  qed
qed (simp add: Let_def)

lemma exit_returns:
  assumes mark: "good_mark mark" "returns S m (mark i)" and s: "ok s" "entry_of s i = Some e" "e_depth e = 1" "t_locks s i = 0"
    and unused: "card (unused S s) \<le> m" and fuel: "1 < fuel"
  shows "\<exists>s'. exit_access mark limit fuel i kind s = Some s'"
proof -
  have ends: "\<exists>s'. exit_access mark limit n i k t = Some s'"
    if "ok t" "entry_of t i = Some f" "e_depth f = 1" "plist (e_pending f) = []" "0 < n" for t f n k
    using leave_outermost [OF that(1-3), of k] that(4,5) by (cases n; cases "e_pending f") auto
  show ?thesis
  proof (cases "plist (e_pending e)")
    case Nil
    then show ?thesis using ends [OF s(1-3)] fuel by simp
  next
    case (Cons w ws)
    then have pending: "e_pending e = Some (w # ws)" by (cases "e_pending e") auto
    obtain n where n: "fuel = Suc n" "0 < n" using fuel by (cases fuel) auto
    obtain s3 e3 where s3: "exit_access mark limit (Suc n) i kind s =
          Option.bind (drain mark i limit s3) (exit_access mark limit n i Read_Access)"
        "ok s3" "entry_of s3 = (entry_of s)(i \<mapsto> e3)" "e_depth e3 = 1" "t_locks s3 = t_locks s"
      using exit_flush [OF s pending, of mark limit n kind] by blast
    have e3: "entry_of s3 i = Some e3" "t_locks s3 i = 0" "card (unused S s3) \<le> m"
      using s3(3,5) s(4) unused unused_again [OF s(2) s3(3), of S] by simp_all
    obtain s4 where s4: "drain mark i limit s3 = Some s4"
      using drain_returns [OF mark s3(2) e3(1) s3(4) e3(2,3)] by blast
    obtain p where "ok s4" "entry_of s4 i = Some (e3\<lparr>e_pending := p\<rparr>)" "plist p = []"
      using drain_frame [OF mark(1) s3(2) e3(1) s3(4) e3(2) s4] by blast
    then show ?thesis using ends [of s4 "e3\<lparr>e_pending := p\<rparr>" n] s3(1,4) s4 n by simp
  qed
qed

lemma exit_inner_returns:
  "ok s \<Longrightarrow> entry_of s i = Some e \<Longrightarrow> 1 < e_depth e \<Longrightarrow> 0 < fuel \<Longrightarrow> \<exists>s'. exit_access mark limit fuel i kind s = Some s'"
  using leave_inner [of s i e kind] by (cases fuel) auto

section \<open>Each operation returns\<close>

lemma write_returns:
  assumes mark: "good_mark mark" "returns S m (mark i)" and s: "ok s" "entry_of s i = None"
    and started: "begin_write i snapshot s = (Started, s1)" and body: "ok s2" "frame_on UNIV s1 s2"
    and unused: "card (unused S s - {i}) \<le> m" and fuel: "1 < fuel"
  shows "\<exists>s'. Option.bind (commit mark i v notify s2) (exit_access mark limit fuel i kind) = Some s'"
proof -
  obtain e where e: "entry_of s1 = (entry_of s)(i \<mapsto> e)" "e_depth e = 1"
      "s1 = s\<lparr>t_entries := t_entries s1, t_turns := insert i (t_turns s)\<rparr>"
    using begin_write_started [OF s, of snapshot] started by auto
  have "t_locks s1 = t_locks s" by (subst e(3)) simp
  then have lock: "t_locks s2 i = 0" using body(2) ok_unlocked [OF s] by (simp add: frame_on_def)
  have unused2: "card (unused S s2) \<le> m" using unused_used [OF e(1), of S] unused_frame [OF body(2), of S] unused by simp
  obtain p where p: "entry_of s2 i = Some (e\<lparr>e_pending := p\<rparr>)" using frame_entry [OF body(2) UNIV_I, of i e] e(1) by auto
  let ?t = "s2\<lparr>t_committed := (t_committed s2)(i := v)\<rparr>"
  have t: "ok ?t" "card (unused S ?t) \<le> m" using body(1) unused2 unused_same [of ?t s2 S] by simp_all
  have "commit mark i v notify s2 = (if notify then mark i ?t else Some ?t)"
    using p e(2) lock by (cases "mark i ?t") (simp_all add: commit_def commit_now_def swap_in_def depth_entry)
  then obtain s3 where s3: "commit mark i v notify s2 = Some s3" using returnsD [OF mark(2) t] by fastforce
  have c: "ok s3 \<and> (\<exists>q. entry_of s3 i = Some (e\<lparr>e_pending := p\<rparr>\<lparr>e_pending := q\<rparr>)) \<and> frame_on (- {i}) s2 s3"
    by (rule commit_frame [OF mark(1) body(1) p _ lock s3]) (use e(2) in simp)
  then obtain q where q: "ok s3" "entry_of s3 i = Some (e\<lparr>e_pending := p\<rparr>\<lparr>e_pending := q\<rparr>)" "frame_on (- {i}) s2 s3" by blast
  have "unused S s3 = unused S s2"
  proof -
    have "entry_of s3 j = None \<longleftrightarrow> entry_of s2 j = None" for j
      using q(2) p frame_None [OF q(3), of j] by (cases "j = i") simp_all
    then show ?thesis by (simp add: unused_def)
  qed
  then have "\<exists>s'. exit_access mark limit fuel i kind s3 = Some s'"
    using exit_returns [OF mark q(1,2) _ _ _ fuel] q(3) e(2) lock unused2 by (simp add: frame_on_def)
  then show ?thesis using s3 by simp
qed

section \<open>All code returns\<close>

text \<open>
  The operations, when the subscribers return from where one more signal is in use.
\<close>

definition lower_returns :: "nat set \<Rightarrow> nat \<Rightarrow> nat \<Rightarrow> 'v mark \<Rightarrow> bool" where
  "lower_returns S m fuel mark \<longleftrightarrow> good_mark mark \<and> finite S \<and> (\<forall>k. m = Suc k \<longrightarrow> 1 < fuel \<and> (\<forall>i. returns S k (mark i)))"

lemma first_write:
  assumes "lower_returns S m fuel mark" and "i \<in> S" and s: "ok s" "entry_of s i = None" "card (unused S s) \<le> m"
    and started: "begin_write i snapshot s = (Started, s1)" and body: "good body" "returns S m body"
  shows "\<exists>s2. body s1 = Some s2 \<and> (\<forall>v notify kind. \<exists>s'. Option.bind (commit mark i v notify s2) (exit_access mark limit fuel i kind) = Some s')"
proof -
  have mark: "good_mark mark" and S: "finite S" using assms(1) by (simp_all add: lower_returns_def)
  obtain k where k: "m = Suc k" "card (unused S s - {i}) \<le> k" using card_used [OF S assms(2) s(2,3)] by blast
  obtain e where e: "ok s1" "entry_of s1 = (entry_of s)(i \<mapsto> e)"
    using begin_write_started [OF s(1,2), of snapshot] started by auto
  have "card (unused S s1) \<le> m" using unused_used [OF e(2), of S] k by simp
  then obtain s2 where s2: "body s1 = Some s2" using returnsD [OF body(2) e(1)] by blast
  have "ok s2" "frame_on UNIV s1 s2" using goodD [OF body(1) e(1) s2] by auto
  then have "\<exists>s'. Option.bind (commit mark i v notify s2) (exit_access mark limit fuel i kind) = Some s'" for v notify kind
    using write_returns [OF mark _ s(1,2) started _ _ k(2)] assms(1) k(1) by (auto simp: lower_returns_def)
  then show ?thesis using s2 by blast
qed

lemma set_returns:
  assumes "lower_returns S m fuel mark" and "i \<in> S"
  shows "returns S m (set_value mark (exit_access mark limit fuel) i v notify)"
  unfolding returns_def
proof (intro allI impI)
  fix s :: "'a thread" assume s: "ok s" "card (unused S s) \<le> m"
  show "\<exists>s'. set_value mark (exit_access mark limit fuel) i v notify s = Some s'"
  proof (cases "entry_of s i")
    case None
    obtain s1 where s1: "begin_write i False s = (Started, s1)" using begin_write_started [OF s(1) None] by blast
    show ?thesis
      using first_write [OF assms s(1) None s(2) s1, of Some] s1 by (simp add: set_value_def good_def returns_def)
  qed (use begin_write_in_use [OF s(1)] in \<open>simp add: set_value_def\<close>)
qed

lemma update_returns:
  assumes "lower_returns S m fuel mark" and "i \<in> S" and body: "good body" "returns S m body"
  shows "returns S m (update_snapshot mark (exit_access mark limit fuel) body i fun)"
  unfolding returns_def
proof (intro allI impI)
  fix s :: "'a thread" assume s: "ok s" "card (unused S s) \<le> m"
  show "\<exists>s'. update_snapshot mark (exit_access mark limit fuel) body i fun s = Some s'"
  proof (cases "entry_of s i")
    case None
    obtain s1 where s1: "begin_write i True s = (Started, s1)" "ok s1" using begin_write_started [OF s(1) None] by blast
    obtain s2 where s2: "body s1 = Some s2"
        "\<And>v notify. \<exists>s'. Option.bind (commit mark i v notify s2) (exit_access mark limit fuel i Snapshot) = Some s'"
      using first_write [OF assms(1,2) s(1) None s(2) s1(1) body] by blast
    then show ?thesis using s1 by (simp add: update_snapshot_def read_committed_ok split_beta Let_def)
  next
    case (Some e)
    let ?s2 = "if 0 < snapshots i s then s\<lparr>t_nested := i # t_nested s\<rparr> else s"
    have s2: "ok ?s2" "entry_of ?s2 = entry_of s" using s by simp_all
    obtain s3 p v where s3: "pending_or_committed i ?s2 = (Some v, s3)" "ok s3" "entry_of s3 = (entry_of s)(i \<mapsto> e\<lparr>e_pending := p\<rparr>)"
      using pending_or_committed_entry [OF s2(1), of i e] s2(2) Some by auto
    have "card (unused S s3) \<le> m" using unused_again [OF Some s3(3), of S] s(2) by simp
    then obtain s4 where "body s3 = Some s4" using returnsD [OF body(2) s3(2)] by blast
    then show ?thesis using begin_write_in_use [OF s(1) Some] s3(1) by (simp add: update_snapshot_def Let_def split_beta)
  qed
qed

lemma guard_returns:
  assumes "lower_returns S m fuel mark" and "i \<in> S" and body: "good body" "returns S m body" and fuel: "0 < fuel"
  shows "returns S m (write_guard mark (exit_access mark limit fuel) body i change notify)"
  unfolding returns_def
proof (intro allI impI)
  fix s :: "'a thread" assume s: "ok s" "card (unused S s) \<le> m"
  show "\<exists>s'. write_guard mark (exit_access mark limit fuel) body i change notify s = Some s'"
  proof (cases "entry_of s i")
    case None
    obtain s1 where s1: "begin_write i True s = (Started, s1)" "ok s1" using begin_write_started [OF s(1) None] by blast
    obtain s2 where s2: "body s1 = Some s2"
        "\<And>v notify. \<exists>s'. Option.bind (commit mark i v notify s2) (exit_access mark limit fuel i Snapshot) = Some s'"
      using first_write [OF assms(1,2) s(1) None s(2) s1(1) body] by blast
    then show ?thesis using s1 by (simp add: write_guard_def read_committed_ok)
  next
    case (Some e)
    let ?s1 = "enter i Snapshot s" and ?e1 = "count_access Snapshot True e"
    have s1: "ok ?s1" "entry_of ?s1 = (entry_of s)(i \<mapsto> ?e1)" using inner_access [OF s(1) Some] by simp_all
    obtain s2 p v where s2: "pending_or_committed i ?s1 = (Some v, s2)" "ok s2" "entry_of s2 = (entry_of s)(i \<mapsto> ?e1\<lparr>e_pending := p\<rparr>)"
      using pending_or_committed_entry [OF s1(1), of i ?e1] s1(2) by auto
    have "card (unused S s2) \<le> m" using unused_again [OF Some s2(3), of S] s(2) by simp
    then obtain s3 where s3: "body s2 = Some s3" using returnsD [OF body(2) s2(2)] by blast
    have f3: "ok s3" "frame_on UNIV s2 s3" using goodD [OF body(1) s2(2) s3] by auto
    obtain q where q: "entry_of s3 i = Some (?e1\<lparr>e_pending := p\<rparr>\<lparr>e_pending := q\<rparr>)"
      using frame_entry [OF f3(2) UNIV_I, of i "?e1\<lparr>e_pending := p\<rparr>"] s2(3) by auto
    let ?s4 = "defer_write i (Deferred_Set (change v) notify) False s3"
    obtain q' where q': "entry_of ?s4 i = Some (?e1\<lparr>e_pending := q'\<rparr>)" "ok ?s4"
      using defer_write_entry [OF f3(1) q, of "Deferred_Set (change v) notify" False] by auto
    have "1 < e_depth (?e1\<lparr>e_pending := q'\<rparr>)" using ok_depth [OF s(1) Some] by (simp add: count_access_def Let_def)
    then show ?thesis
      using exit_inner_returns [OF q'(2,1) _ fuel, of mark limit Snapshot] begin_write_in_use [OF s(1) Some] s2(1) s3
      by (simp add: write_guard_def)
  qed
qed

lemma swap_part_returns:
  assumes "lower_returns S m fuel mark" and "i \<in> S"
  shows "returns S m (swap_part mark (exit_access mark limit fuel) i put_part notify)"
  unfolding returns_def
proof (intro allI impI)
  fix s :: "'a thread" assume s: "ok s" "card (unused S s) \<le> m"
  show "\<exists>s'. swap_part mark (exit_access mark limit fuel) i put_part notify s = Some s'"
  proof (cases "entry_of s i")
    case None
    obtain s1 where s1: "begin_write i False s = (Started, s1)" "depth i s1 = 1"
        "s1 = s\<lparr>t_entries := t_entries s1, t_turns := insert i (t_turns s)\<rparr>"
      using begin_write_started [OF s(1) None, of False] by (auto simp: depth_entry)
    have lock: "t_locks s1 i = 0" using ok_unlocked [OF s(1) None] by (subst s1(3)) simp
    obtain s' where "Option.bind (commit mark i (put_part (t_committed s1 i)) notify s1) (exit_access mark limit fuel i Read_Access) = Some s'"
      using first_write [OF assms s(1) None s(2) s1(1), of Some limit] unfolding good_def returns_def by fastforce
    then show ?thesis
      using s1(1,2) lock
      by (cases notify) (auto simp: swap_part_def commit_def commit_now_def swap_in_def Let_def bind_eq_Some_conv)
  qed (use begin_write_in_use [OF s(1)] in \<open>simp add: swap_part_def\<close>)
qed

lemma read_guard_entry:
  assumes "ok s" and s1: "s1 = (enter i Read_Access s)\<lparr>t_locks := (t_locks s)(i := Suc (t_locks s i))\<rparr>"
    and e: "e = (case entry_of s i of None \<Rightarrow> new_entry i | Some e \<Rightarrow> e)"
  shows "ok s1 \<and> entry_of s1 = (entry_of s)(i \<mapsto> count_access Read_Access True e)"
proof -
  let ?e1 = "count_access Read_Access True e"
  have e1: "entry_of s1 = (entry_of s)(i \<mapsto> ?e1)" unfolding s1 enter_def e by (simp add: entry_of_with)
  have "e_write_locks ?e1 = 0" "0 < e_depth ?e1" "e_turn ?e1 \<Longrightarrow> entry_of s i = Some e"
    using ok_write_locks [OF assms(1), of i] by (auto simp: e new_entry_def count_access_def Let_def split: option.splits)
  moreover have "distinct_ids s1" unfolding s1 enter_def using ok_distinct [OF assms(1)] by (simp add: distinct_with)
  moreover have "e_turn ?e1 = e_turn e" "entry_of s i = Some e' \<Longrightarrow> e = e'" for e' by (simp_all add: e count_access_def Let_def)
  moreover have "t_turns s1 = t_turns s" "t_locks s1 = (t_locks s)(i := Suc (t_locks s i))" by (simp_all add: s1)
  ultimately show ?thesis using okD [OF assms(1)] e1 unfolding ok_def e1 by (auto split: if_splits)
qed

lemma locks_ok: "ok s \<Longrightarrow> (\<And>j. entry_of s j = None \<Longrightarrow> l j = 0) \<Longrightarrow> ok (s\<lparr>t_locks := l\<rparr>)"
  unfolding ok_def by auto

lemma with_returns:
  assumes lower: "lower_returns S m fuel mark" and "i \<in> S" and body: "good body" "returns S m body" and fuel: "0 < fuel"
  shows "returns S m (with_value (exit_access mark limit fuel) body i)"
  unfolding returns_def
proof (intro allI impI)
  fix s :: "'a thread" assume s: "ok s" "card (unused S s) \<le> m"
  have mark: "good_mark mark" and S: "finite S" using lower by (simp_all add: lower_returns_def)
  define e where "e = (case entry_of s i of None \<Rightarrow> new_entry i | Some e \<Rightarrow> e)"
  let ?s1 = "(enter i Read_Access s)\<lparr>t_locks := (t_locks s)(i := Suc (t_locks s i))\<rparr>" and ?e1 = "count_access Read_Access True e"
  have s1: "ok ?s1" "entry_of ?s1 = (entry_of s)(i \<mapsto> ?e1)" using read_guard_entry [OF s(1) refl e_def] by auto
  have unused1: "unused S ?s1 = unused S s - {i}" by (rule unused_used [OF s1(2)])
  have "finite (unused S s)" using S by (simp add: unused_def)
  then have "card (unused S ?s1) \<le> m" using unused1 s(2) card_Diff1_le [of "unused S s" i] by simp
  then obtain s2 where s2: "body ?s1 = Some s2" using returnsD [OF body(2) s1(1)] by blast
  have f2: "ok s2" "frame_on UNIV ?s1 s2" using goodD [OF body(1) s1(1) s2] by auto
  let ?s2 = "s2\<lparr>t_locks := t_locks s\<rparr>"
  have unlock: "s2\<lparr>t_locks := (t_locks s2)(i := t_locks s2 i - 1)\<rparr> = ?s2" using f2(2) by (simp add: frame_on_def)
  have "t_locks s j = 0" if "entry_of s2 j = None" for j
    using that frame_None [OF f2(2), of j] s1(2) ok_unlocked [OF s(1), of j] by (auto split: if_splits)
  then have ok2: "ok ?s2" using locks_ok [OF f2(1)] by blast
  obtain p where p: "entry_of ?s2 i = Some (?e1\<lparr>e_pending := p\<rparr>)" using frame_entry [OF f2(2) UNIV_I, of i ?e1] s1(2) by auto
  have "\<exists>s'. exit_access mark limit fuel i Read_Access ?s2 = Some s'"
  proof (cases "entry_of s i")
    case None
    obtain k where k: "m = Suc k" "card (unused S s - {i}) \<le> k" using card_used [OF S assms(2) None s(2)] by blast
    have depth: "e_depth (?e1\<lparr>e_pending := p\<rparr>) = 1" using None by (simp add: e_def new_entry_def count_access_def Let_def)
    have "card (unused S ?s2) \<le> k"
      using k(2) unused1 unused_frame [OF f2(2), of S] unused_same [of ?s2 s2 S] by simp
    moreover have "returns S k (mark i)" "1 < fuel" using lower k(1) by (auto simp: lower_returns_def)
    ultimately show ?thesis using exit_returns [OF mark _ ok2 p depth] ok_unlocked [OF s(1) None] by simp
  next
    case (Some e')
    then have "1 < e_depth (?e1\<lparr>e_pending := p\<rparr>)" using ok_depth [OF s(1) Some] by (simp add: e_def count_access_def Let_def)
    then show ?thesis using exit_inner_returns [OF ok2 p _ fuel] by blast
  qed
  then show "\<exists>s'. with_value (exit_access mark limit fuel) body i s = Some s'"
    using s2 unlock write_locks_ok [OF s(1)] by (simp add: with_value_def Let_def)
qed

text \<open>
  Subscribers whose code goes at most \<open>h\<close> deep: from where \<open>m\<close> signals are not in use, \<open>h + 3\<close> of the
  fuel per signal is enough.
\<close>

definition subscribers_within :: "nat set \<Rightarrow> nat \<Rightarrow> 'v handler \<Rightarrow> bool" where
  "subscribers_within S h handler \<longleftrightarrow> finite S \<and> (\<forall>i v. list_all (\<lambda>c. acts_on S False c \<and> height c h) (handler i v))"

lemma exec_returns:
  assumes handler: "subscribers_within S h handler"
  shows "height c n \<Longrightarrow> acts_on S may_notify c \<Longrightarrow> n + (if may_notify then h else 0) + m * (h + 3) < fuel \<Longrightarrow>
    returns S m (exec handler limit fuel c)"
proof (induction fuel arbitrary: c n may_notify m)
  case (Suc fuel)
  let ?run = "exec handler limit fuel"
  let ?mark = "mark_subscribers handler ?run"
  let ?bound = "\<lambda>n. n + (if may_notify then h else 0) + m * (h + 3)"
  have marks: "returns S k (?mark i)" if "h + k * (h + 3) < fuel" for k i
    unfolding returns_def
  proof (intro allI impI)
    fix s :: "'a thread" assume s: "ok s" "card (unused S s) \<le> k"
    let ?s = "s\<lparr>t_notified := t_notified s @ [(i, t_committed s i)]\<rparr>"
    have "returns S k (fold_opt ?run (handler i (t_committed s i)))"
    proof (rule returns_fold)
      fix b assume "b \<in> set (handler i (t_committed s i))"
      then show "returns S k (?run b)"
        using Suc.IH [of b h False k] handler that by (auto simp: subscribers_within_def list_all_iff)
    qed (rule exec_good)
    from returnsD [OF this, of ?s] show "\<exists>s'. ?mark i s = Some s'"
      using s unused_same [of ?s s S] by (simp add: mark_subscribers_def)
  qed
  have pos: "0 < n" by (rule height_pos [OF Suc.prems(1)])
  have fuel: "0 < fuel" using pos Suc.prems(3) by simp
  have good_marks: "good_mark ?mark" by (rule mark_good) (rule exec_good)
  have lower: "lower_returns S m fuel ?mark"
    unfolding lower_returns_def
  proof (intro conjI allI impI)
    show "finite S" using handler by (simp add: subscribers_within_def)
    fix k i assume k: "m = Suc k"
    then show "1 < fuel" using pos Suc.prems(3) by simp
    show "returns S k (?mark i)" using k pos Suc.prems(3) by (intro marks) (simp split: if_splits)
  qed (rule good_marks)
  have body: "good (fold_opt ?run body) \<and> returns S m (fold_opt ?run body)"
    if "list_all (\<lambda>b. height b (n - 1)) body" "list_all (acts_on S may_notify) body" for body
  proof
    show "good (fold_opt ?run body)" by (rule good_fold) (rule exec_good)
    show "returns S m (fold_opt ?run body)"
    proof (rule returns_fold)
      fix b assume "b \<in> set body"
      then show "returns S m (?run b)" using that pos Suc.prems(3) Suc.IH [of b "n - 1" may_notify m] by (simp add: list_all_iff)
    qed (rule exec_good)
  qed
  show ?case
  proof (cases c)
    case (Set i v notify)
    then show ?thesis using set_returns [OF lower] Suc.prems(2) by (simp add: Let_def)
  next
    case (Notify i)
    then have "returns S m (?mark i)" using Suc.prems by (intro marks) simp
    then show ?thesis using Notify by (simp add: returns_def notify_or_defer_def Let_def)
  next
    case (Update i cs f)
    then show ?thesis using update_returns [OF lower, of i "fold_opt ?run cs" limit f] body [of cs] Suc.prems(1,2) by (simp add: Let_def)
  next
    case (Guard i cs f notify)
    then show ?thesis using guard_returns [OF lower _ _ _ fuel, of i "fold_opt ?run cs" limit f] body [of cs] Suc.prems(1,2) by (simp add: Let_def)
  next
    case (Set_Part i g notify)
    then show ?thesis using swap_part_returns [OF lower] Suc.prems(2) by (simp add: Let_def)
  next
    case (With i cs)
    then show ?thesis using with_returns [OF lower _ _ _ fuel, of i "fold_opt ?run cs" limit] body [of cs] Suc.prems(1,2) by (simp add: Let_def)
  next
    case (Get_Value i cont)
    let ?with = "with_value (exit_access ?mark limit fuel) Some i"
    have some: "good (Some :: 'a thread \<Rightarrow> 'a thread option)" "returns S m (Some :: 'a thread \<Rightarrow> 'a thread option)"
      by (simp_all add: good_def returns_def)
    have w: "returns S m ?with" using with_returns [OF lower _ some fuel, of i limit] Suc.prems(2) Get_Value by simp
    show ?thesis
      unfolding returns_def
    proof (intro allI impI)
      fix s :: "'a thread" assume s: "ok s" "card (unused S s) \<le> m"
      obtain s1 where s1: "?with s = Some s1" using returnsD [OF w s] by blast
      have f1: "ok s1" "frame_on UNIV s s1" using goodD [OF with_good [OF good_marks some(1)] s(1) s1] by auto
      have "returns S m (fold_opt ?run (cont (t_committed s i)))" using body Suc.prems(1,2) Get_Value by simp
      from returnsD [OF this f1(1)] show "\<exists>s'. exec handler limit (Suc fuel) c s = Some s'"
        using s(2) unused_frame [OF f1(2), of S] s1 read_committed_ok [OF s(1), of i] Get_Value by simp
    qed
  qed
qed simp

lemma code_returns:
  assumes "subscribers_within S h handler" and "list_all (\<lambda>c. acts_on S True c \<and> height c n) cs"
    and "n + h + card S * (h + 3) < fuel" and "ok s"
  shows "\<exists>s'. fold_opt (exec handler limit fuel) cs s = Some s'"
proof -
  have "returns S (card S) (fold_opt (exec handler limit fuel) cs)"
  proof (rule returns_fold)
    fix c assume "c \<in> set cs"
    then show "returns S (card S) (exec handler limit fuel c)"
      using exec_returns [OF assms(1), of c n True "card S" fuel limit] assms(2,3) by (simp add: list_all_iff)
  qed (rule exec_good)
  moreover have "card (unused S s) \<le> card S"
    using assms(1) by (intro card_mono) (auto simp: subscribers_within_def unused_def)
  ultimately show ?thesis using returnsD assms(4) by blast
qed

section \<open>What holds for all code\<close>

text \<open>
  C9. Code that uses signals on a thread, with subscribers that run code as well (reads, updates and
  write guards nested in any way, writes from inside them and from subscribers; the branches of the
  code may depend on the values read), returns: with fuel for its nesting, if it uses finitely many
  signals and its subscribers do not notify by hand. Then nothing is left behind: no access is
  recorded, no signal's turn is kept, no lock is held, and no write was lost because the thread's
  record or a turn was not available (\<open>t_dropped\<close>). Not said: that no write is lost for other reasons.
  A flush ends at its limit and drops the next write (\<open>t_runaway\<close>), and a part of a signal in use is
  not replaced (\<open>t_refused\<close>).
\<close>

theorem code_leaves_nothing_behind:
  assumes "subscribers_within S h handler" and "list_all (\<lambda>c. acts_on S True c \<and> height c n) cs"
    and "n + h + card S * (h + 3) < fuel"
  shows "\<exists>s'. fold_opt (exec handler limit fuel) cs (idle values) = Some s'
    \<and> t_entries s' = [] \<and> t_turns s' = {} \<and> (\<forall>i. t_locks s' i = 0) \<and> t_dropped s' = []"
  using code_returns [OF assms, of "idle values" limit] all_accesses_end by fastforce

theorem code_leaves_nothing_behind_witness:
  "map_option (\<lambda>s. (t_entries s, t_turns s, t_dropped s, t_committed s 0, t_committed s 1))
     (fold_opt (exec (\<lambda>i v. if i = 0 \<and> v < 3 then [Set 0 (v + 1) True, Set 1 (v * 10) True] else []) 9 14)
       [With 0 [Set 0 (1 :: int) True, Update 0 [Set 1 5 True] (\<lambda>v. (v + 1, True))], Get_Value 0 (\<lambda>v. [Set 1 (v + 4) False])]
       (idle (\<lambda>_. 0)))
   = Some ([], {}, [], 3, 7)"
proof -
  let ?handler = "\<lambda>i v. if i = 0 \<and> v < 3 then [Set 0 (v + 1) True, Set 1 (v * 10) True] else [] :: int cmd list"
  let ?cs = "[With 0 [Set 0 (1 :: int) True, Update 0 [Set 1 5 True] (\<lambda>v. (v + 1, True))], Get_Value 0 (\<lambda>v. [Set 1 (v + 4) False])]"
  let ?run = "fold_opt (exec ?handler 9 14) ?cs (idle (\<lambda>_. 0))"
  have "subscribers_within {0, 1} 1 ?handler" by (simp add: subscribers_within_def)
  from code_leaves_nothing_behind [OF this, of 3 ?cs 14 9 "\<lambda>_. 0"]
  obtain s where s: "?run = Some s" "t_entries s = []" "t_turns s = {}" "t_dropped s = []" by auto
  have "map_option (\<lambda>s. (t_committed s 0, t_committed s 1)) ?run = Some (3, 7)" by code_simp
  then show ?thesis using s by simp
qed

text \<open>
  C26. No write lands in the middle of a read or of an update: while a signal is in use, code and
  subscribers (within the bounds of C9, so that they return) leave its committed value as it is, and
  what they write to it is only added after the writes that are waiting for the end of that use.
\<close>

theorem values_in_use_do_not_change:
  assumes "ok s" and "in_use i s" and "subscribers_within S h handler" and "list_all (\<lambda>c. acts_on S True c \<and> height c n) cs"
    and "n + h + card S * (h + 3) < fuel"
  shows "\<exists>s'. fold_opt (exec handler limit fuel) cs s = Some s' \<and> t_committed s' i = t_committed s i \<and> in_use i s'
    \<and> (\<exists>later. plist (fst (take_pending i s')) = plist (fst (take_pending i s)) @ later)"
proof -
  obtain s' where run: "fold_opt (exec handler limit fuel) cs s = Some s'" using code_returns [OF assms(3-5,1)] by blast
  have s': "ok s'" "frame_on UNIV s s'" using code_good [OF assms(1) run] by auto
  obtain e where e: "entry_of s i = Some e" using in_use_ok [OF assms(1)] assms(2) by blast
  have "frame_at i s s'" using s'(2) by (simp add: frame_on_def)
  then obtain p q where "t_committed s' i = t_committed s i" "entry_of s' i = Some (e\<lparr>e_pending := p\<rparr>)"
      "plist p = plist (e_pending e) @ q"
    using e by (auto simp: frame_at_def)
  then show ?thesis using e in_use_ok [OF s'(1)] run by (simp add: take_pending_def entry_of_def)
qed

theorem values_in_use_do_not_change_witness:
  "\<exists>s'. fold_opt (exec (\<lambda>i v. if i = 1 then [Set 0 v True] else []) 9 12) [Set 0 (7 :: int) True, Set 1 8 True]
      (enter 0 Read_Access (idle (\<lambda>_. 5))) = Some s' \<and> t_committed s' 0 = 5 \<and> in_use 0 s'"
proof -
  have s: "ok (enter 0 Read_Access (idle (\<lambda>_. 5 :: int)))" "in_use 0 (enter 0 Read_Access (idle (\<lambda>_. 5 :: int)))"
    "t_committed (enter 0 Read_Access (idle (\<lambda>_. 5 :: int))) 0 = 5"
    by (simp_all add: ok_def enter_def with_entry_def idle_def find_entry_def new_entry_def count_access_def entry_of_def
        distinct_ids_def in_use_def depth_def)
  have "subscribers_within {0, 1} 1 (\<lambda>i v. if i = 1 then [Set 0 v True] else [] :: int cmd list)" by (simp add: subscribers_within_def)
  from values_in_use_do_not_change [OF s(1,2) this, of 1 "[Set 0 (7 :: int) True, Set 1 8 True]" 12 9] s(3)
  show ?thesis by auto
qed

end
