(* ===== verification/Signal_Plain.thy ===== *)
theory Signal_Plain
  imports Signal_Returns
begin

text \<open>
  What signals mean to code that uses them: a value per signal that every write replaces at once,
  and the list of values that its subscribers were notified of. The code of \<open>signal/commit.rs\<close>,
  which defers writes, refines it.
\<close>

section \<open>Writes that take effect at once\<close>

type_synonym 'v world = "nat \<Rightarrow> 'v \<times> 'v list"

definition write_world :: "nat \<Rightarrow> 'v \<Rightarrow> bool \<Rightarrow> 'v world \<Rightarrow> 'v world" where
  "write_world i v notify w = w(i := (v, snd (w i) @ (if notify then [v] else [])))"

text \<open>
  The meaning of code in this world, and what it does to a signal: the branches of a \<open>Get_Value\<close> are
  functions of the value, so a property of code is one of all branches.
\<close>

primrec plain :: "'v cmd \<Rightarrow> 'v world \<Rightarrow> 'v world" where
  "plain (Set i v notify) = write_world i v notify"
| "plain (Notify i) = (\<lambda>w. write_world i (fst (w i)) True w)"
| "plain (Update i body fun) =
    (\<lambda>w. write_world i (fst (fun (fst (w i)))) (snd (fun (fst (w i)))) (fold (\<lambda>f. f) (map plain body) w))"
| "plain (Guard i body change notify) = (\<lambda>w. write_world i (change (fst (w i))) notify (fold (\<lambda>f. f) (map plain body) w))"
| "plain (Set_Part i put_part notify) = (\<lambda>w. write_world i (put_part (fst (w i))) notify w)"
| "plain (With i body) = fold (\<lambda>f. f) (map plain body)"
| "plain (Get_Value i cont) = (\<lambda>w. fold (\<lambda>f. f) ((\<lambda>v. map plain (cont v)) (fst (w i))) w)"

primrec writes_to :: "nat \<Rightarrow> 'v cmd \<Rightarrow> bool" where
  "writes_to j (Set i v notify) = (i = j)"
| "writes_to j (Notify i) = (i = j)"
| "writes_to j (Update i body fun) = (i = j \<or> list_ex (\<lambda>b. b) (map (writes_to j) body))"
| "writes_to j (Guard i body change notify) = (i = j \<or> list_ex (\<lambda>b. b) (map (writes_to j) body))"
| "writes_to j (Set_Part i put_part notify) = (i = j)"
| "writes_to j (With i body) = list_ex (\<lambda>b. b) (map (writes_to j) body)"
| "writes_to j (Get_Value i cont) = (\<exists>v. list_ex (\<lambda>b. b) ((\<lambda>v. map (writes_to j) (cont v)) v))"

primrec sets_part :: "nat \<Rightarrow> 'v cmd \<Rightarrow> bool" where
  "sets_part j (Set i v notify) = False"
| "sets_part j (Notify i) = False"
| "sets_part j (Update i body fun) = list_ex (\<lambda>b. b) (map (sets_part j) body)"
| "sets_part j (Guard i body change notify) = list_ex (\<lambda>b. b) (map (sets_part j) body)"
| "sets_part j (Set_Part i put_part notify) = (i = j)"
| "sets_part j (With i body) = list_ex (\<lambda>b. b) (map (sets_part j) body)"
| "sets_part j (Get_Value i cont) = (\<exists>v. list_ex (\<lambda>b. b) ((\<lambda>v. map (sets_part j) (cont v)) v))"

primrec gets :: "nat \<Rightarrow> 'v cmd \<Rightarrow> bool" where
  "gets j (Set i v notify) = False"
| "gets j (Notify i) = False"
| "gets j (Update i body fun) = list_ex (\<lambda>b. b) (map (gets j) body)"
| "gets j (Guard i body change notify) = list_ex (\<lambda>b. b) (map (gets j) body)"
| "gets j (Set_Part i put_part notify) = False"
| "gets j (With i body) = list_ex (\<lambda>b. b) (map (gets j) body)"
| "gets j (Get_Value i cont) = (i = j \<or> (\<exists>v. list_ex (\<lambda>b. b) ((\<lambda>v. map (gets j) (cont v)) v)))"

text \<open>
  Code that does not write a signal inside an update of it, does not replace a part of a signal
  while it uses it (which is refused), and inside a use of a signal does not both write and copy it
  (the copy would be the value from before the use, which a deferred write does not change).
\<close>

primrec tidy :: "'v cmd \<Rightarrow> bool" where
  "tidy (Set i v notify) = True"
| "tidy (Notify i) = True"
| "tidy (Update i body fun) = (\<not> list_ex (writes_to i) body \<and> list_all (\<lambda>b. b) (map tidy body))"
| "tidy (Guard i body change notify) = (\<not> list_ex (writes_to i) body \<and> list_all (\<lambda>b. b) (map tidy body))"
| "tidy (Set_Part i put_part notify) = True"
| "tidy (With i body) = (\<not> list_ex (sets_part i) body \<and> \<not> (list_ex (writes_to i) body \<and> list_ex (gets i) body)
    \<and> list_all (\<lambda>b. b) (map tidy body))"
| "tidy (Get_Value i cont) = (\<forall>v. list_all (\<lambda>b. b) ((\<lambda>v. map tidy (cont v)) v))"

text \<open>At most so many writes on every branch.\<close>

primrec share :: "(nat \<Rightarrow> bool) list \<Rightarrow> nat \<Rightarrow> bool" where
  "share [] n = True"
| "share (P # Ps) n = (\<exists>k \<le> n. P k \<and> share Ps (n - k))"

primrec writes :: "'v cmd \<Rightarrow> nat \<Rightarrow> bool" where
  "writes (Set i v notify) = (\<lambda>n. 1 \<le> n)"
| "writes (Notify i) = (\<lambda>n. 1 \<le> n)"
| "writes (Update i body fun) = (\<lambda>n. 1 \<le> n \<and> share (map writes body) (n - 1))"
| "writes (Guard i body change notify) = (\<lambda>n. 1 \<le> n \<and> share (map writes body) (n - 1))"
| "writes (Set_Part i put_part notify) = (\<lambda>n. 1 \<le> n)"
| "writes (With i body) = share (map writes body)"
| "writes (Get_Value i cont) = (\<lambda>n. \<forall>v. share ((\<lambda>v. map writes (cont v)) v) n)"

lemma fold_applied [simp]: "fold (\<lambda>f. f) (map g xs) = fold g xs"
  by (induction xs) simp_all

section \<open>What a thread's state stands for\<close>

primrec run_pending :: "'v deferred list \<Rightarrow> 'v \<times> 'v list \<Rightarrow> 'v \<times> 'v list" where
  "run_pending [] w = w"
| "run_pending (d # ds) w = run_pending ds
    (case d of
       Deferred_Set v notify \<Rightarrow> (v, snd w @ (if notify then [v] else []))
     | Deferred_Notify \<Rightarrow> (fst w, snd w @ [fst w]))"

definition pend :: "'v thread \<Rightarrow> nat \<Rightarrow> 'v deferred list" where
  "pend s i = (case entry_of s i of None \<Rightarrow> [] | Some e \<Rightarrow> plist (e_pending e))"

definition heard :: "'v thread \<Rightarrow> nat \<Rightarrow> 'v list" where
  "heard s i = map snd (filter (\<lambda>(j, _). j = i) (t_notified s))"

definition view :: "'v thread \<Rightarrow> 'v world" where
  "view s i = run_pending (pend s i) (t_committed s i, heard s i)"

lemma run_pending_append [simp]: "run_pending (ds @ es) w = run_pending es (run_pending ds w)"
  by (induction ds arbitrary: w) simp_all

lemma run_pending_fst: "fst (run_pending ds w) = (case last_set ds of None \<Rightarrow> fst w | Some v \<Rightarrow> v)"
  by (induction ds arbitrary: w) (auto split: option.splits deferred.splits)

definition quiet_mark :: "'v mark" where
  "quiet_mark i s = Some (s\<lparr>t_notified := t_notified s @ [(i, t_committed s i)]\<rparr>)"

lemma mark_quiet: "mark_subscribers (\<lambda>_ _. []) run = quiet_mark"
  by (simp add: mark_subscribers_def quiet_mark_def fun_eq_iff)

lemma good_quiet_mark [simp]: "good_mark quiet_mark"
  by (auto simp: good_mark_def good_def quiet_mark_def frame_on_def intro!: frame_at_same)

text \<open>Two states that differ only in how far the deferred writes were applied.\<close>

lemma view_cong:
  assumes "\<And>i. pend s' i = pend s i" and "t_committed s' = t_committed s" and "t_notified s' = t_notified s"
  shows "view s' = view s"
  using assms by (simp add: view_def heard_def fun_eq_iff)

lemma view_at:
  assumes "pend s' j = pend s j" and "t_committed s' j = t_committed s j" and "heard s' j = heard s j"
  shows "view s' j = view s j"
  using assms by (simp add: view_def)

lemma heard_note: "heard (s\<lparr>t_notified := t_notified s @ [(i, v)]\<rparr>) j = heard s j @ (if j = i then [v] else [])"
  by (auto simp: heard_def)

lemma drain_view:
  assumes "ok s" and "entry_of s i = Some e" and "e_depth e = 1" and "t_locks s i = 0" and "length (pend s i) < left"
  shows "\<exists>s'. drain quiet_mark i left s = Some s' \<and> view s' = view s \<and> (\<forall>j. pend s' j = (if j = i then [] else pend s j))
    \<and> t_runaway s' = t_runaway s"
  using assms
proof (induction left arbitrary: s e)
  case (Suc left)
  note e = Suc.prems(2,3)
  have depth: "\<not> 1 < depth i s" using e by (simp add: depth_entry)
  show ?case
  proof (cases "plist (e_pending e)")
    case Nil
    obtain s1 where s1: "take_pending i s = (e_pending e, s1)" "entry_of s1 = (entry_of s)(i \<mapsto> e\<lparr>e_pending := None\<rparr>)"
        "s1 = s\<lparr>t_entries := t_entries s1\<rparr>"
      using take_pending_entry [OF ok_distinct [OF Suc.prems(1)] e(1)] by blast
    then have "drain quiet_mark i (Suc left) s = Some s1" using Nil depth by (cases "e_pending e") auto
    moreover have "pend s1 j = pend s j" for j using s1(2) e(1) Nil by (simp add: pend_def)
    moreover have "pend s i = []" using e(1) Nil by (simp add: pend_def)
    moreover have "view s1 = view s" using calculation(2) rest_fields [OF s1(3)] by (intro view_cong) simp_all
    ultimately show ?thesis using rest_fields [OF s1(3)] by auto
  next
    case (Cons w ws)
    then have pending: "e_pending e = Some (w # ws)" "pend s i = w # ws" using e(1) by (cases "e_pending e"; simp add: pend_def)+
    obtain s1 s2 p where s2: "take_pending i s = (Some (w # ws), s1)" "(if ws = [] then s1 else snd (put_pending i ws s1)) = s2" "ok s2"
        "entry_of s2 = (entry_of s)(i \<mapsto> e\<lparr>e_pending := p\<rparr>)" "plist p = ws" "s2 = s\<lparr>t_entries := t_entries s2\<rparr>"
      using pop_pending [OF Suc.prems(1) e(1) pending(1)] by blast
    note same = rest_fields [OF s2(6)]
    define v where "v = (case w of Deferred_Set v _ \<Rightarrow> v | Deferred_Notify \<Rightarrow> t_committed s i)"
    define n where "n = (case w of Deferred_Set _ n \<Rightarrow> n | Deferred_Notify \<Rightarrow> True)"
    define s3 where "s3 = (let s = s2\<lparr>t_committed := (t_committed s2)(i := v)\<rparr> in if n then s\<lparr>t_notified := t_notified s @ [(i, v)]\<rparr> else s)"
    have s3: "ok s3" "entry_of s3 = entry_of s2" "t_locks s3 i = 0" "t_runaway s3 = t_runaway s"
      using s2(3) same Suc.prems(4) by (simp_all add: s3_def Let_def)
    have pend3: "pend s3 j = (if j = i then ws else pend s j)" for j using s3(2) s2(4,5) by (simp add: pend_def)
    have view3: "view s3 j = view s j" for j
    proof (cases "j = i")
      case True
      then show ?thesis
        using pending(2) pend3 [of i] same
        by (cases w) (auto simp: view_def s3_def Let_def v_def n_def heard_def)
    next
      case False
      then show ?thesis using pend3 [of j] same by (auto simp: view_def s3_def Let_def heard_def)
    qed
    have "drain quiet_mark i (Suc left) s = drain quiet_mark i left s3"
    proof (cases w)
      case (Deferred_Set v' n')
      then show ?thesis using depth s2(1,2) same Suc.prems(4)
        by (auto simp: Let_def swap_in_def quiet_mark_def s3_def v_def n_def)
    next
      case Deferred_Notify
      then have "s3 = s2\<lparr>t_notified := t_notified s2 @ [(i, t_committed s2 i)]\<rparr>"
        using same by (intro thread.equality) (simp_all add: s3_def Let_def v_def n_def)
      then show ?thesis using Deferred_Notify depth s2(1,2) by (simp add: Let_def quiet_mark_def)
    qed
    moreover obtain s' where "drain quiet_mark i left s3 = Some s'" "view s' = view s3" "\<forall>j. pend s' j = (if j = i then [] else pend s3 j)"
        "t_runaway s' = t_runaway s3"
      using Suc.IH [OF s3(1), of "e\<lparr>e_pending := p\<rparr>"] s3 s2(4) e(2) Suc.prems(5) pend3 [of i] pending(2) by auto
    ultimately show ?thesis using view3 pend3 s3(4) by (auto simp: fun_eq_iff)
  qed
qed simp

lemma exit_inner_view:
  assumes "ok s" and "entry_of s i = Some e" and "1 < e_depth e" and "0 < fuel"
  shows "\<exists>s'. exit_access mark limit fuel i kind s = Some s' \<and> view s' = view s \<and> pend s' = pend s"
proof -
  obtain s1 where s1: "leave i kind s = (None, s1)" "s1 = s\<lparr>t_entries := t_entries s1\<rparr>"
      "entry_of s1 = (entry_of s)(i \<mapsto> count_access kind False e)"
    using leave_inner [OF assms(1-3)] by blast
  have "pend s1 = pend s" using s1(3) assms(2) by (auto simp: pend_def fun_eq_iff)
  then have "view s1 = view s" using rest_fields [OF s1(2)] by (intro view_cong) simp_all
  then show ?thesis using s1(1) assms(4) \<open>pend s1 = pend s\<close> by (cases fuel) auto
qed

lemma exit_done_view:
  assumes "ok s" and "entry_of s i = Some e" and "e_depth e = 1" and "plist (e_pending e) = []" and "0 < fuel"
  shows "\<exists>s'. exit_access mark limit fuel i kind s = Some s' \<and> view s' = view s \<and> pend s' = pend s"
proof -
  obtain s1 where s1: "leave i kind s = (Some (e_pending e, e_turn e), s1)" "s1 = s\<lparr>t_entries := t_entries s1\<rparr>"
      "entry_of s1 = (entry_of s)(i := None)"
    using leave_outermost [OF assms(1-3)] by blast
  let ?s = "if e_turn e then s1\<lparr>t_turns := t_turns s1 - {i}\<rparr> else s1"
  have pend: "pend ?s = pend s" using s1(3) assms(2,4) by (auto simp: pend_def fun_eq_iff)
  then have "view ?s = view s" using rest_fields [OF s1(2)] by (intro view_cong) auto
  moreover have "exit_access mark limit fuel i kind s = Some ?s"
    using s1(1) assms(4,5) by (cases fuel; cases "e_pending e") auto
  ultimately show ?thesis using pend by blast
qed

lemma exit_view:
  assumes "ok s" and "entry_of s i = Some e" and "e_depth e = 1" and "t_locks s i = 0" and "length (pend s i) < limit" and "1 < fuel"
  shows "\<exists>s'. exit_access quiet_mark limit fuel i kind s = Some s' \<and> view s' = view s
    \<and> (\<forall>j. pend s' j = (if j = i then [] else pend s j))"
proof (cases "plist (e_pending e)")
  case Nil
  then have "pend s i = []" using assms(2) by (simp add: pend_def)
  then show ?thesis using exit_done_view [OF assms(1-3) Nil, of fuel quiet_mark limit kind] assms(6) by auto
next
  case (Cons w ws)
  then have pending: "e_pending e = Some (w # ws)" "pend s i = w # ws" using assms(2) by (cases "e_pending e"; simp add: pend_def)+
  obtain fuel' where fuel: "fuel = Suc fuel'" "0 < fuel'" using assms(6) by (cases fuel) auto
  obtain s3 e3 where s3: "exit_access quiet_mark limit fuel i kind s =
        Option.bind (drain quiet_mark i limit s3) (exit_access quiet_mark limit fuel' i Read_Access)"
      "ok s3" "entry_of s3 = (entry_of s)(i \<mapsto> e3)" "e_depth e3 = 1" "plist (e_pending e3) = w # ws"
      "t_locks s3 = t_locks s" "t_committed s3 = t_committed s" "t_notified s3 = t_notified s"
    using exit_flush [OF assms(1-4) pending(1), of quiet_mark limit fuel' kind] unfolding fuel(1) by blast
  have pend3: "pend s3 = pend s" using s3(3,5) pending(2) by (auto simp: pend_def fun_eq_iff)
  then have "view s3 = view s" using s3(7,8) by (intro view_cong) simp_all
  moreover obtain s4 where s4: "drain quiet_mark i limit s3 = Some s4" "view s4 = view s3" "\<forall>j. pend s4 j = (if j = i then [] else pend s3 j)"
    using drain_view [OF s3(2), of i e3 limit] s3(3,4,6) assms(4,5) pend3 by auto
  moreover obtain p where p: "ok s4" "entry_of s4 i = Some (e3\<lparr>e_pending := p\<rparr>)" "plist p = []"
    using drain_frame [OF good_quiet_mark s3(2) _ s3(4) _ s4(1)] s3(3,6) assms(4) by auto
  moreover have "\<exists>s'. exit_access quiet_mark limit fuel' i Read_Access s4 = Some s' \<and> view s' = view s4 \<and> pend s' = pend s4"
    using exit_done_view [OF p(1,2), of fuel'] s3(4) p(3) fuel(2) by simp
  ultimately show ?thesis using s3(1) pend3 by auto
qed

section \<open>Each write in the plain world\<close>

lemma defer_view:
  assumes "ok s" and "entry_of s i = Some e"
  shows "pend (defer_write i w False s) = (pend s)(i := pend s i @ [w])"
    and "view (defer_write i w False s) = (view s)(i := run_pending [w] (view s i))"
proof -
  obtain s' where s': "defer_write i w False s = s'" "s' = s\<lparr>t_entries := t_entries s'\<rparr>"
      "entry_of s' = (entry_of s)(i \<mapsto> e\<lparr>e_pending := Some (plist (e_pending e) @ [w])\<rparr>)"
    using defer_write_entry [OF assms, of w False] by auto
  have pend: "pend s' = (pend s)(i := pend s i @ [w])" using s'(3) assms(2) by (auto simp: pend_def fun_eq_iff)
  then show "pend (defer_write i w False s) = (pend s)(i := pend s i @ [w])" using s'(1) by simp
  have "view s' j = (if j = i then run_pending [w] (view s i) else view s j)" for j
    using pend rest_fields [OF s'(2)] by (simp add: view_def heard_def del: run_pending.simps)
  then show "view (defer_write i w False s) = (view s)(i := run_pending [w] (view s i))" using s'(1) by (auto simp: fun_eq_iff)
qed

lemma defer_set_view:
  "ok s \<Longrightarrow> entry_of s i = Some e \<Longrightarrow> view (defer_write i (Deferred_Set v n) False s) = write_world i v n (view s)"
  by (simp add: defer_view(2) write_world_def)

lemma started_view:
  assumes "ok s" and "entry_of s i = None" and "begin_write i snapshot s = (Started, s1)"
  shows "ok s1 \<and> view s1 = view s \<and> pend s1 = pend s \<and> t_committed s1 i = fst (view s i) \<and> pend s i = []"
proof -
  obtain e where s1: "ok s1" "entry_of s1 = (entry_of s)(i \<mapsto> e)" "e_pending e = None"
      "s1 = s\<lparr>t_entries := t_entries s1, t_turns := insert i (t_turns s)\<rparr>"
    using begin_write_started [OF assms(1,2), of snapshot] assms(3) by auto
  have same: "t_committed s1 = t_committed s" "t_notified s1 = t_notified s" by (subst s1(4), simp)+
  have "pend s1 = pend s" using s1(2,3) assms(2) by (auto simp: pend_def fun_eq_iff)
  moreover have "view s1 = view s" using calculation same by (intro view_cong) simp_all
  moreover have "pend s i = []" using assms(2) by (simp add: pend_def)
  ultimately show ?thesis using s1(1) same by (simp add: view_def)
qed

lemma commit_view:
  assumes "ok s" and "entry_of s i = Some e" and "e_depth e = 1" and "t_locks s i = 0" and "pend s i = []"
  shows "\<exists>s'. commit quiet_mark i v n s = Some s' \<and> view s' = write_world i v n (view s) \<and> pend s' = pend s"
proof -
  let ?s = "let s = s\<lparr>t_committed := (t_committed s)(i := v)\<rparr> in if n then s\<lparr>t_notified := t_notified s @ [(i, v)]\<rparr> else s"
  have "commit quiet_mark i v n s = Some ?s"
    using assms(2-4) by (simp add: commit_def commit_now_def swap_in_def quiet_mark_def depth_entry Let_def)
  moreover have pend: "pend ?s = pend s" by (simp add: pend_def Let_def fun_eq_iff)
  moreover have "view ?s = write_world i v n (view s)"
    using assms(5) pend by (auto simp: view_def write_world_def fun_eq_iff Let_def heard_def)
  ultimately show ?thesis by blast
qed

lemma write_view:
  assumes s: "ok s" "entry_of s i = None" and started: "begin_write i snapshot s = (Started, s1)"
    and body: "ok s2" "frame_on UNIV s1 s2" "pend s2 i = []" and fuel: "1 < fuel" "0 < limit"
  shows "\<exists>s'. Option.bind (commit quiet_mark i v n s2) (exit_access quiet_mark limit fuel i kind) = Some s'
    \<and> view s' = write_world i v n (view s2) \<and> pend s' = pend s2"
proof -
  obtain e where e: "entry_of s1 = (entry_of s)(i \<mapsto> e)" "e_depth e = 1"
      "s1 = s\<lparr>t_entries := t_entries s1, t_turns := insert i (t_turns s)\<rparr>"
    using begin_write_started [OF s, of snapshot] started by auto
  obtain p where p: "entry_of s2 i = Some (e\<lparr>e_pending := p\<rparr>)" using frame_entry [OF body(2) UNIV_I, of i e] e(1) by auto
  have "t_locks s1 = t_locks s" by (subst e(3)) simp
  then have lock: "t_locks s2 i = 0" using body(2) ok_unlocked [OF s] by (simp add: frame_on_def)
  obtain s3 where s3: "commit quiet_mark i v n s2 = Some s3" "view s3 = write_world i v n (view s2)" "pend s3 = pend s2"
    using commit_view [OF body(1) p _ lock body(3)] e(2) by auto
  obtain q where q: "ok s3" "entry_of s3 i = Some (e\<lparr>e_pending := q\<rparr>)" "t_locks s3 i = 0"
    using commit_frame [OF good_quiet_mark body(1) p _ lock s3(1)] e(2) lock by (auto simp: frame_on_def)
  obtain s' where "exit_access quiet_mark limit fuel i kind s3 = Some s'" "view s' = view s3"
      "\<forall>j. pend s' j = (if j = i then [] else pend s3 j)"
    using exit_view [OF q(1,2) _ q(3), of limit fuel kind] e(2) s3(3) body(3) fuel by auto
  then show ?thesis using s3 body(3) by (auto simp: fun_eq_iff)
qed

text \<open>
  What the code needs of the signals that are in use: it replaces no part of them, and copies none that
  has, or that it gives, a deferred write.
\<close>

definition unhindered :: "'v thread \<Rightarrow> 'v cmd list \<Rightarrow> bool" where
  "unhindered s cs \<longleftrightarrow> (\<forall>i. entry_of s i \<noteq> None \<longrightarrow> \<not> list_ex (sets_part i) cs
     \<and> (pend s i \<noteq> [] \<or> list_ex (writes_to i) cs \<longrightarrow> \<not> list_ex (gets i) cs))"

definition refines_plain :: "nat \<Rightarrow> 'v cmd \<Rightarrow> ('v thread \<Rightarrow> 'v thread option) \<Rightarrow> bool" where
  "refines_plain limit c run \<longleftrightarrow>
    (\<forall>s n. ok s \<longrightarrow> tidy c \<longrightarrow> unhindered s [c] \<longrightarrow> writes c n \<longrightarrow> n < limit \<longrightarrow>
      (\<exists>s'. run s = Some s' \<and> view s' = plain c (view s) \<and> (\<forall>i. \<not> writes_to i c \<longrightarrow> pend s' i = pend s i)
        \<and> (\<forall>i. length (pend s' i) \<le> length (pend s i) + n)))"

lemma body_plain:
  assumes refines: "\<And>c. c \<in> set cs \<Longrightarrow> refines_plain limit c (run c)" and good: "\<And>c. good (run c)"
  shows "ok s \<Longrightarrow> list_all tidy cs \<Longrightarrow> unhindered s cs \<Longrightarrow> share (map writes cs) n \<Longrightarrow> n < limit \<Longrightarrow>
    \<exists>s'. fold_opt run cs s = Some s' \<and> ok s' \<and> frame_on UNIV s s' \<and> view s' = fold plain cs (view s)
      \<and> (\<forall>i. \<not> list_ex (writes_to i) cs \<longrightarrow> pend s' i = pend s i)
      \<and> (\<forall>i. length (pend s' i) \<le> length (pend s i) + n)"
  using refines
proof (induction cs arbitrary: s n)
  case (Cons c cs)
  obtain k where k: "k \<le> n" "writes c k" "share (map writes cs) (n - k)" using Cons.prems(4) by auto
  obtain s1 where s1: "run c s = Some s1" "view s1 = plain c (view s)" "\<And>i. \<not> writes_to i c \<Longrightarrow> pend s1 i = pend s i"
      "\<And>i. length (pend s1 i) \<le> length (pend s i) + k"
  proof -
    have "unhindered s [c]" using Cons.prems(3) by (auto simp: unhindered_def)
    moreover have "refines_plain limit c (run c)" "tidy c" "k < limit" using Cons.prems k(1) by auto
    ultimately show ?thesis using that Cons.prems(1) k(2) unfolding refines_plain_def by blast
  qed
  have f1: "ok s1" "frame_on UNIV s s1" using goodD [OF good Cons.prems(1) s1(1)] by auto
  have "unhindered s1 cs"
    unfolding unhindered_def
  proof (intro allI impI)
    fix i assume "entry_of s1 i \<noteq> None"
    then have "entry_of s i \<noteq> None" using frame_None [OF f1(2), of i] by simp
    then show "\<not> list_ex (sets_part i) cs \<and> (pend s1 i \<noteq> [] \<or> list_ex (writes_to i) cs \<longrightarrow> \<not> list_ex (gets i) cs)"
      using Cons.prems(3) s1(3) [of i] unfolding unhindered_def by (cases "writes_to i c") auto
  qed
  moreover have "n - k < limit" using Cons.prems(5) by simp
  ultimately obtain s2 where s2: "fold_opt run cs s1 = Some s2" "ok s2" "frame_on UNIV s1 s2" "view s2 = fold plain cs (view s1)"
      "\<And>i. \<not> list_ex (writes_to i) cs \<Longrightarrow> pend s2 i = pend s1 i"
      "\<And>i. length (pend s2 i) \<le> length (pend s1 i) + (n - k)"
    using Cons.IH [OF f1(1), of "n - k"] Cons.prems(2,6) k(3) by auto
  have "length (pend s2 i) \<le> length (pend s i) + n" for i
    using s1(4) [of i] s2(6) [of i] k(1) by simp
  then show ?case using s1(1-3) s2(1-5) frame_on_trans [OF f1(2) s2(3)] by auto
qed simp

section \<open>All code in the plain world\<close>

lemma sets_part_writes: "sets_part i c \<Longrightarrow> writes_to i c"
  by (induction c) (auto simp: list_ex_iff, blast+)

lemma view_update [simp]: "view (s\<lparr>t_nested := a\<rparr>) = view s" "view (s\<lparr>t_locks := l\<rparr>) = view s"
  "pend (s\<lparr>t_nested := a\<rparr>) = pend s" "pend (s\<lparr>t_locks := l\<rparr>) = pend s"
  by (simp_all add: view_def pend_def heard_def fun_eq_iff)

lemma pending_value:
  assumes "ok s" and "entry_of s i = Some e"
  shows "\<exists>s' p. pending_or_committed i s = (Some (fst (view s i)), s') \<and> ok s' \<and> view s' = view s \<and> pend s' = pend s
    \<and> entry_of s' = (entry_of s)(i \<mapsto> e\<lparr>e_pending := p\<rparr>) \<and> s' = s\<lparr>t_entries := t_entries s'\<rparr>"
proof -
  obtain s' p where s': "pending_or_committed i s =
        (Some (case last_set (plist (e_pending e)) of Some v \<Rightarrow> v | None \<Rightarrow> t_committed s i), s')"
      "ok s'" "s' = s\<lparr>t_entries := t_entries s'\<rparr>" "entry_of s' = (entry_of s)(i \<mapsto> e\<lparr>e_pending := p\<rparr>)" "plist p = plist (e_pending e)"
    using pending_or_committed_entry [OF assms] by blast
  have "pend s' = pend s" using s'(4,5) assms(2) by (auto simp: pend_def fun_eq_iff)
  moreover have "view s' = view s" using calculation rest_fields [OF s'(3)] by (intro view_cong) simp_all
  moreover have "(case last_set (plist (e_pending e)) of Some v \<Rightarrow> v | None \<Rightarrow> t_committed s i) = fst (view s i)"
    using assms(2) by (auto simp: view_def pend_def run_pending_fst split: option.splits)
  ultimately show ?thesis using s'(1-4) by auto
qed

lemma set_plain:
  assumes fuel: "1 < fuel"
  shows "refines_plain limit (Set i v n) (set_value quiet_mark (exit_access quiet_mark limit fuel) i v n)"
  unfolding refines_plain_def
proof (intro allI impI)
  fix s :: "'a thread" and k assume s: "ok s" and limit: "writes (Set i v n) k" "k < limit"
  show "\<exists>s'. set_value quiet_mark (exit_access quiet_mark limit fuel) i v n s = Some s' \<and> view s' = plain (Set i v n) (view s)
    \<and> (\<forall>j. \<not> writes_to j (Set i v n) \<longrightarrow> pend s' j = pend s j) \<and> (\<forall>j. length (pend s' j) \<le> length (pend s j) + k)"
  proof (cases "entry_of s i")
    case None
    obtain s1 where s1: "begin_write i False s = (Started, s1)" using begin_write_started [OF s None] by blast
    note st = started_view [OF s None s1]
    then have "pend s1 i = []" by simp
    then show ?thesis
      using s1 st write_view [OF s None s1 _ frame_on_refl _ fuel, of limit v n Read_Access] limit by (auto simp: set_value_def)
  next
    case (Some e)
    then show ?thesis
      using limit begin_write_in_use [OF s Some] defer_set_view [OF s Some] defer_view(1) [OF s Some] by (auto simp: set_value_def)
  qed
qed

lemma notify_plain: "refines_plain limit (Notify i) (notify_or_defer quiet_mark i)"
  unfolding refines_plain_def
proof (intro allI impI)
  fix s :: "'a thread" and k assume "ok s" and "writes (Notify i :: 'a cmd) k"
  then have s: "ok s" and limit: "1 \<le> k" by simp_all
  show "\<exists>s'. notify_or_defer quiet_mark i s = Some s' \<and> view s' = plain (Notify i) (view s)
    \<and> (\<forall>j. \<not> writes_to j (Notify i :: 'a cmd) \<longrightarrow> pend s' j = pend s j) \<and> (\<forall>j. length (pend s' j) \<le> length (pend s j) + k)"
  proof (cases "entry_of s i")
    case None
    let ?s = "s\<lparr>t_notified := t_notified s @ [(i, t_committed s i)]\<rparr>"
    have "pend ?s = pend s" "pend s i = []" using None by (simp_all add: pend_def fun_eq_iff)
    moreover from this have "view ?s = plain (Notify i) (view s)" by (auto simp: view_def write_world_def fun_eq_iff heard_def)
    ultimately show ?thesis using in_use_ok [OF s] None by (auto simp: notify_or_defer_def quiet_mark_def)
  next
    case (Some e)
    then show ?thesis
      using limit in_use_ok [OF s] defer_view [OF s Some, of Deferred_Notify] by (auto simp: notify_or_defer_def write_world_def)
  qed
qed

lemma swap_part_plain:
  assumes fuel: "1 < fuel"
  shows "refines_plain limit (Set_Part i g n) (swap_part quiet_mark (exit_access quiet_mark limit fuel) i g n)"
  unfolding refines_plain_def
proof (intro allI impI)
  fix s :: "'a thread" and k assume s: "ok s" and limit: "writes (Set_Part i g n) k" "k < limit"
    and "unhindered s [Set_Part i g n]"
  then have None: "entry_of s i = None" by (auto simp: unhindered_def)
  obtain s1 where s1: "begin_write i False s = (Started, s1)" "depth i s1 = 1"
      "s1 = s\<lparr>t_entries := t_entries s1, t_turns := insert i (t_turns s)\<rparr>"
    using begin_write_started [OF s None, of False] by (auto simp: depth_entry)
  note st = started_view [OF s None s1(1)]
  then have "pend s1 i = []" by simp
  moreover have "t_locks s1 i = 0" using ok_unlocked [OF s None] by (subst s1(3)) simp
  then have "swap_part quiet_mark (exit_access quiet_mark limit fuel) i g n s =
      Option.bind (commit quiet_mark i (g (t_committed s1 i)) n s1) (exit_access quiet_mark limit fuel i Read_Access)"
    using s1(1,2) by (cases n) (auto simp: swap_part_def commit_def commit_now_def swap_in_def Let_def quiet_mark_def)
  ultimately show "\<exists>s'. swap_part quiet_mark (exit_access quiet_mark limit fuel) i g n s = Some s' \<and> view s' = plain (Set_Part i g n) (view s)
    \<and> (\<forall>j. \<not> writes_to j (Set_Part i g n) \<longrightarrow> pend s' j = pend s j) \<and> (\<forall>j. length (pend s' j) \<le> length (pend s j) + k)"
    using st write_view [OF s None s1(1) _ frame_on_refl _ fuel, of limit "g (t_committed s1 i)" n Read_Access] limit by auto
qed

lemma list_ex_sets_part: "\<not> list_ex (writes_to i) cs \<Longrightarrow> \<not> list_ex (sets_part i) cs"
  using sets_part_writes by (auto simp: list_ex_iff)

lemma update_plain:
  assumes refines: "\<And>c. c \<in> set body \<Longrightarrow> refines_plain limit c (run c)" and good: "\<And>c. good (run c)" and fuel: "1 < fuel"
  shows "refines_plain limit (Update i body f)
    (update_snapshot quiet_mark (exit_access quiet_mark limit fuel) (fold_opt run body) i f)"
  unfolding refines_plain_def
proof (intro allI impI)
  fix s :: "'a thread" and k assume s: "ok s" and tidy: "tidy (Update i body f)" and limit: "writes (Update i body f) k" "k < limit"
    and free: "unhindered s [Update i body f]"
  note body = body_plain [where run = run, OF refines good]
  have pos: "0 < limit" using limit by simp
  have share: "1 \<le> k" "share (map writes body) (k - 1)" "k - 1 < limit" using limit by auto
  have no_write: "\<not> list_ex (writes_to i) body" and tidy_body: "list_all tidy body" using tidy by simp_all
  let ?v = "fst (view s i)"
  show "\<exists>s'. update_snapshot quiet_mark (exit_access quiet_mark limit fuel) (fold_opt run body) i f s = Some s'
    \<and> view s' = plain (Update i body f) (view s) \<and> (\<forall>j. \<not> writes_to j (Update i body f) \<longrightarrow> pend s' j = pend s j)
    \<and> (\<forall>j. length (pend s' j) \<le> length (pend s j) + k)"
  proof (cases "entry_of s i")
    case None
    obtain s1 e where s1: "begin_write i True s = (Started, s1)" "entry_of s1 = (entry_of s)(i \<mapsto> e)"
      using begin_write_started [OF s None] by blast
    note st = started_view [OF s None s1(1)]
    have "pend s1 i = []" using st by simp
    have "unhindered s1 body"
      unfolding unhindered_def
    proof (intro allI impI)
      fix j assume "entry_of s1 j \<noteq> None"
      then show "\<not> list_ex (sets_part j) body \<and> (pend s1 j \<noteq> [] \<or> list_ex (writes_to j) body \<longrightarrow> \<not> list_ex (gets j) body)"
        using s1(2) free st no_write list_ex_sets_part [of i body] by (cases "j = i") (auto simp: unhindered_def)
    qed
    then obtain s2 where s2: "fold_opt run body s1 = Some s2" "ok s2" "frame_on UNIV s1 s2" "view s2 = fold plain body (view s)"
        "\<And>j. \<not> list_ex (writes_to j) body \<Longrightarrow> pend s2 j = pend s j" "\<And>j. length (pend s2 j) \<le> length (pend s j) + (k - 1)"
      using body [of body s1 "k - 1"] st tidy_body share by auto
    have "pend s2 i = []" using s2(5) [OF no_write] st by simp
    then obtain s' where s': "Option.bind (commit quiet_mark i (fst (f ?v)) (snd (f ?v)) s2) (exit_access quiet_mark limit fuel i Snapshot) = Some s'"
        "view s' = write_world i (fst (f ?v)) (snd (f ?v)) (view s2)" "pend s' = pend s2"
      using write_view [OF s None s1(1) s2(2,3) _ fuel(1) pos] by blast
    have "update_snapshot quiet_mark (exit_access quiet_mark limit fuel) (fold_opt run body) i f s = Some s'"
      using s1(1) st s2(1) s'(1) by (simp add: update_snapshot_def read_committed_ok split_beta Let_def)
    moreover have "length (pend s' j) \<le> length (pend s j) + k" for j using s'(3) s2(6) [of j] by simp
    ultimately show ?thesis using s'(2,3) s2(4,5) by auto
  next
    case (Some e)
    let ?s2 = "if 0 < snapshots i s then s\<lparr>t_nested := i # t_nested s\<rparr> else s"
    have s2: "ok ?s2" "entry_of ?s2 = entry_of s" "view ?s2 = view s" "pend ?s2 = pend s" using s by simp_all
    obtain s3 p where s3: "pending_or_committed i ?s2 = (Some ?v, s3)" "ok s3" "view s3 = view s" "pend s3 = pend s"
        "entry_of s3 = (entry_of s)(i \<mapsto> e\<lparr>e_pending := p\<rparr>)"
      using pending_value [OF s2(1), of i e] s2 Some by auto
    have "unhindered s3 body"
      unfolding unhindered_def
    proof (intro allI impI)
      fix j assume "entry_of s3 j \<noteq> None"
      then have "entry_of s j \<noteq> None" using s3(5) Some by (cases "j = i") auto
      then show "\<not> list_ex (sets_part j) body \<and> (pend s3 j \<noteq> [] \<or> list_ex (writes_to j) body \<longrightarrow> \<not> list_ex (gets j) body)"
        using free s3(4) by (auto simp: unhindered_def)
    qed
    then obtain s4 where s4: "fold_opt run body s3 = Some s4" "ok s4" "frame_on UNIV s3 s4" "view s4 = fold plain body (view s)"
        "\<And>j. \<not> list_ex (writes_to j) body \<Longrightarrow> pend s4 j = pend s j" "\<And>j. length (pend s4 j) \<le> length (pend s j) + (k - 1)"
      using body [of body s3 "k - 1"] s3 tidy_body share by auto
    obtain q where q: "entry_of s4 i = Some (e\<lparr>e_pending := p\<rparr>\<lparr>e_pending := q\<rparr>)"
      using frame_entry [OF s4(3) UNIV_I, of i "e\<lparr>e_pending := p\<rparr>"] s3(5) by auto
    have "update_snapshot quiet_mark (exit_access quiet_mark limit fuel) (fold_opt run body) i f s =
        Some (defer_write i (Deferred_Set (fst (f ?v)) (snd (f ?v))) False s4)"
      using begin_write_in_use [OF s Some] s3(1) s4(1) by (simp add: update_snapshot_def Let_def split_beta)
    moreover have "length (pend (defer_write i (Deferred_Set (fst (f ?v)) (snd (f ?v))) False s4) j) \<le> length (pend s j) + k" for j
      using defer_view(1) [OF s4(2) q] s4(6) [of j] share(1) by auto
    ultimately show ?thesis
      using defer_set_view [OF s4(2) q] defer_view(1) [OF s4(2) q] s4(4,5) by auto
  qed
qed

lemma guard_plain:
  assumes refines: "\<And>c. c \<in> set body \<Longrightarrow> refines_plain limit c (run c)" and good: "\<And>c. good (run c)" and fuel: "1 < fuel"
  shows "refines_plain limit (Guard i body f n)
    (write_guard quiet_mark (exit_access quiet_mark limit fuel) (fold_opt run body) i f n)"
  unfolding refines_plain_def
proof (intro allI impI)
  fix s :: "'a thread" and k assume s: "ok s" and tidy: "tidy (Guard i body f n)" and limit: "writes (Guard i body f n) k" "k < limit"
    and free: "unhindered s [Guard i body f n]"
  note body = body_plain [where run = run, OF refines good]
  have pos: "0 < limit" using limit by simp
  have share: "1 \<le> k" "share (map writes body) (k - 1)" "k - 1 < limit" using limit by auto
  have no_write: "\<not> list_ex (writes_to i) body" and tidy_body: "list_all tidy body" using tidy by simp_all
  let ?v = "fst (view s i)"
  show "\<exists>s'. write_guard quiet_mark (exit_access quiet_mark limit fuel) (fold_opt run body) i f n s = Some s'
    \<and> view s' = plain (Guard i body f n) (view s) \<and> (\<forall>j. \<not> writes_to j (Guard i body f n) \<longrightarrow> pend s' j = pend s j)
    \<and> (\<forall>j. length (pend s' j) \<le> length (pend s j) + k)"
  proof (cases "entry_of s i")
    case None
    obtain s1 e where s1: "begin_write i True s = (Started, s1)" "entry_of s1 = (entry_of s)(i \<mapsto> e)"
      using begin_write_started [OF s None] by blast
    note st = started_view [OF s None s1(1)]
    have "pend s1 i = []" using st by simp
    have "unhindered s1 body"
      unfolding unhindered_def
    proof (intro allI impI)
      fix j assume "entry_of s1 j \<noteq> None"
      then show "\<not> list_ex (sets_part j) body \<and> (pend s1 j \<noteq> [] \<or> list_ex (writes_to j) body \<longrightarrow> \<not> list_ex (gets j) body)"
        using s1(2) free st no_write list_ex_sets_part [of i body] by (cases "j = i") (auto simp: unhindered_def)
    qed
    then obtain s2 where s2: "fold_opt run body s1 = Some s2" "ok s2" "frame_on UNIV s1 s2" "view s2 = fold plain body (view s)"
        "\<And>j. \<not> list_ex (writes_to j) body \<Longrightarrow> pend s2 j = pend s j" "\<And>j. length (pend s2 j) \<le> length (pend s j) + (k - 1)"
      using body [of body s1 "k - 1"] st tidy_body share by auto
    have "pend s2 i = []" using s2(5) [OF no_write] st by simp
    then obtain s' where s': "Option.bind (commit quiet_mark i (f ?v) n s2) (exit_access quiet_mark limit fuel i Snapshot) = Some s'"
        "view s' = write_world i (f ?v) n (view s2)" "pend s' = pend s2"
      using write_view [OF s None s1(1) s2(2,3) _ fuel(1) pos] by blast
    have "write_guard quiet_mark (exit_access quiet_mark limit fuel) (fold_opt run body) i f n s = Some s'"
      using s1(1) st s2(1) s'(1) by (simp add: write_guard_def read_committed_ok)
    moreover have "length (pend s' j) \<le> length (pend s j) + k" for j using s'(3) s2(6) [of j] by simp
    ultimately show ?thesis using s'(2,3) s2(4,5) by auto
  next
    case (Some e)
    let ?s1 = "enter i Snapshot s" and ?e1 = "count_access Snapshot True e"
    have s1: "ok ?s1" "entry_of ?s1 = (entry_of s)(i \<mapsto> ?e1)" using inner_access [OF s Some] by simp_all
    have pend1: "pend ?s1 = pend s" using s1(2) Some by (auto simp: pend_def fun_eq_iff)
    then have view1: "view ?s1 = view s" by (intro view_cong) simp_all
    obtain s3 p where s3: "pending_or_committed i ?s1 = (Some ?v, s3)" "ok s3" "view s3 = view s" "pend s3 = pend s"
        "entry_of s3 = (entry_of s)(i \<mapsto> ?e1\<lparr>e_pending := p\<rparr>)"
      using pending_value [OF s1(1), of i ?e1] s1(2) pend1 view1 by auto
    have "unhindered s3 body"
      unfolding unhindered_def
    proof (intro allI impI)
      fix j assume "entry_of s3 j \<noteq> None"
      then have "entry_of s j \<noteq> None" using s3(5) Some by (cases "j = i") auto
      then show "\<not> list_ex (sets_part j) body \<and> (pend s3 j \<noteq> [] \<or> list_ex (writes_to j) body \<longrightarrow> \<not> list_ex (gets j) body)"
        using free s3(4) by (auto simp: unhindered_def)
    qed
    then obtain s4 where s4: "fold_opt run body s3 = Some s4" "ok s4" "frame_on UNIV s3 s4" "view s4 = fold plain body (view s)"
        "\<And>j. \<not> list_ex (writes_to j) body \<Longrightarrow> pend s4 j = pend s j" "\<And>j. length (pend s4 j) \<le> length (pend s j) + (k - 1)"
      using body [of body s3 "k - 1"] s3 tidy_body share by auto
    let ?s5 = "defer_write i (Deferred_Set (f ?v) n) False s4"
    obtain q where q: "entry_of s4 i = Some (?e1\<lparr>e_pending := p\<rparr>\<lparr>e_pending := q\<rparr>)"
      using frame_entry [OF s4(3) UNIV_I, of i "?e1\<lparr>e_pending := p\<rparr>"] s3(5) by auto
    obtain q' where q': "entry_of ?s5 i = Some (?e1\<lparr>e_pending := q'\<rparr>)" "ok ?s5"
      using defer_write_entry [OF s4(2) q, of "Deferred_Set (f ?v) n" False] by auto
    have "1 < e_depth (?e1\<lparr>e_pending := q'\<rparr>)" using ok_depth [OF s Some] by simp
    then obtain s' where s': "exit_access quiet_mark limit fuel i Snapshot ?s5 = Some s'" "view s' = view ?s5" "pend s' = pend ?s5"
      using exit_inner_view [OF q'(2,1)] fuel by (meson less_trans zero_less_one)
    have "write_guard quiet_mark (exit_access quiet_mark limit fuel) (fold_opt run body) i f n s = Some s'"
      using begin_write_in_use [OF s Some] s3(1) s4(1) s'(1) by (simp add: write_guard_def)
    moreover have "length (pend s' j) \<le> length (pend s j) + k" for j
      using s'(3) defer_view(1) [OF s4(2) q] s4(6) [of j] share(1) by auto
    ultimately show ?thesis
      using s'(2,3) defer_set_view [OF s4(2) q] defer_view(1) [OF s4(2) q] s4(4,5) by auto
  qed
qed

lemma with_plain:
  assumes refines: "\<And>c. c \<in> set body \<Longrightarrow> refines_plain limit c (run c)" and good: "\<And>c. good (run c)" and fuel: "1 < fuel"
  shows "refines_plain limit (With i body) (with_value (exit_access quiet_mark limit fuel) (fold_opt run body) i)"
  unfolding refines_plain_def
proof (intro allI impI)
  fix s :: "'a thread" and k assume s: "ok s" and tidy: "tidy (With i body)" and limit: "writes (With i body) k" "k < limit"
    and free: "unhindered s [With i body]"
  let ?l = "(t_locks s)(i := Suc (t_locks s i))"
  let ?s1 = "(enter i Read_Access s)\<lparr>t_locks := ?l\<rparr>"
  define e where "e = (case entry_of s i of None \<Rightarrow> new_entry i | Some e \<Rightarrow> e)"
  let ?e1 = "count_access Read_Access True e"
  have ok1: "ok ?s1" and e1: "entry_of ?s1 = (entry_of s)(i \<mapsto> ?e1)" using read_guard_entry [OF s refl e_def] by auto
  have pend1: "pend ?s1 = pend s" unfolding pend_def e1 by (auto simp: fun_eq_iff e_def new_entry_def split: option.splits)
  have view1: "view ?s1 = view s" using pend1 by (intro view_cong) simp_all
  have "unhindered ?s1 body"
    unfolding unhindered_def
  proof (intro allI impI)
    fix j assume "entry_of ?s1 j \<noteq> None"
    moreover have "pend ?s1 i \<noteq> [] \<Longrightarrow> entry_of s i \<noteq> None" unfolding fun_cong [OF pend1, of i] by (auto simp: pend_def split: option.splits)
    ultimately show "\<not> list_ex (sets_part j) body \<and> (pend ?s1 j \<noteq> [] \<or> list_ex (writes_to j) body \<longrightarrow> \<not> list_ex (gets j) body)"
      using e1 free tidy pend1 by (cases "j = i") (auto simp: unhindered_def)
  qed
  then obtain s2 where s2: "fold_opt run body ?s1 = Some s2" "ok s2" "frame_on UNIV ?s1 s2" "view s2 = fold plain body (view s)"
      "\<And>j. \<not> list_ex (writes_to j) body \<Longrightarrow> pend s2 j = pend s j" "\<And>j. length (pend s2 j) \<le> length (pend s j) + k"
    using body_plain [where run = run, OF refines good, of body ?s1 k] ok1 view1 pend1 tidy limit by auto
  let ?s2 = "s2\<lparr>t_locks := t_locks s\<rparr>"
  have unlock: "s2\<lparr>t_locks := (t_locks s2)(i := t_locks s2 i - 1)\<rparr> = ?s2" using s2(3) by (simp add: frame_on_def)
  have "t_locks s j = 0" if "entry_of s2 j = None" for j
    using that frame_None [OF s2(3), of j] e1 ok_unlocked [OF s, of j] by (auto split: if_splits)
  then have ok2: "ok ?s2" using locks_ok [OF s2(2)] by blast
  obtain p where p: "entry_of ?s2 i = Some (?e1\<lparr>e_pending := p\<rparr>)" using frame_entry [OF s2(3) UNIV_I, of i ?e1] e1 by auto
  obtain s' where s': "exit_access quiet_mark limit fuel i Read_Access ?s2 = Some s'" "view s' = view s2"
      "\<And>j. \<not> list_ex (writes_to j) body \<Longrightarrow> pend s' j = pend s j" "\<And>j. length (pend s' j) \<le> length (pend s2 j)"
  proof (cases "entry_of s i")
    case None
    have "e_depth (?e1\<lparr>e_pending := p\<rparr>) = 1" "pend s i = []" using None by (simp_all add: e_def new_entry_def pend_def)
    then show ?thesis
      using that exit_view [OF ok2 p, of limit fuel Read_Access] ok_unlocked [OF s None] s2(5) s2(6) [of i] fuel limit by fastforce
  next
    case (Some e')
    then have "1 < e_depth (?e1\<lparr>e_pending := p\<rparr>)" using ok_depth [OF s Some] by (simp add: e_def)
    then show ?thesis using that exit_inner_view [OF ok2 p, of fuel quiet_mark limit Read_Access] fuel s2(5) by fastforce
  qed
  have "with_value (exit_access quiet_mark limit fuel) (fold_opt run body) i s = Some s'"
    using s2(1) s'(1) unlock write_locks_ok [OF s] by (simp add: with_value_def Let_def)
  moreover have "length (pend s' j) \<le> length (pend s j) + k" for j
    using s'(4) [of j] s2(6) [of j] by simp
  ultimately show "\<exists>s'. with_value (exit_access quiet_mark limit fuel) (fold_opt run body) i s = Some s'
    \<and> view s' = plain (With i body) (view s) \<and> (\<forall>j. \<not> writes_to j (With i body) \<longrightarrow> pend s' j = pend s j)
    \<and> (\<forall>j. length (pend s' j) \<le> length (pend s j) + k)"
    using s'(2,3) s2(4) by auto
qed

lemma fold_opt_none: "fold_opt f [] = Some"
  by (simp add: fun_eq_iff)

lemma get_plain:
  assumes refines: "\<And>v c. c \<in> set (cont v) \<Longrightarrow> refines_plain limit c (run c)" and good: "\<And>c. good (run c)" and fuel: "1 < fuel"
  shows "refines_plain limit (Get_Value i cont)
    (\<lambda>s. Option.bind (with_value (exit_access quiet_mark limit fuel) Some i s) (\<lambda>s1.
      case read_committed i s of None \<Rightarrow> Some s1 | Some v \<Rightarrow> fold_opt run (cont v) s1))" (is "refines_plain _ _ ?run")
  unfolding refines_plain_def
proof (intro allI impI)
  fix s :: "'a thread" and k assume s: "ok s" and tidy: "tidy (Get_Value i cont)" and limit: "writes (Get_Value i cont) k" "k < limit"
    and free: "unhindered s [Get_Value i cont]"
  let ?with = "with_value (exit_access quiet_mark limit fuel) (Some :: 'a thread \<Rightarrow> _) i" and ?v = "t_committed s i"
  have "refines_plain limit (With i []) ?with"
    using with_plain [where body = "[]" and run = run and i = i, OF _ good fuel, of limit] by (simp add: fold_opt_none)
  then have "\<exists>s'. ?with s = Some s' \<and> view s' = view s \<and> (\<forall>i. pend s' i = pend s i)"
    using s limit(2) by (simp add: refines_plain_def unhindered_def) blast
  then obtain s1 where s1: "?with s = Some s1" "view s1 = view s" "pend s1 = pend s" by (auto simp: fun_eq_iff)
  have "good ?with" using with_good [OF good_quiet_mark, of Some] by (simp add: good_def)
  then have f1: "ok s1" "frame_on UNIV s s1" using goodD [of ?with s s1] s s1(1) by auto
  have "pend s i = []" using free by (cases "entry_of s i") (auto simp: unhindered_def pend_def)
  then have v: "fst (view s i) = ?v" by (simp add: view_def)
  have "unhindered s1 (cont ?v)"
    unfolding unhindered_def
  proof (intro allI impI)
    fix j assume "entry_of s1 j \<noteq> None"
    then have "entry_of s j \<noteq> None" using frame_None [OF f1(2), of j] by simp
    then show "\<not> list_ex (sets_part j) (cont ?v) \<and> (pend s1 j \<noteq> [] \<or> list_ex (writes_to j) (cont ?v) \<longrightarrow> \<not> list_ex (gets j) (cont ?v))"
      using free s1(3) by (auto simp: unhindered_def)
  qed
  moreover have branch: "refines_plain limit c (run c)" if "c \<in> set (cont ?v)" for c by (rule refines [OF that])
  moreover have "list_all tidy (cont ?v)" "share (map writes (cont ?v)) k" using tidy limit(1) by auto
  ultimately obtain s2 where s2: "fold_opt run (cont ?v) s1 = Some s2" "view s2 = fold plain (cont ?v) (view s1)"
      "\<And>j. \<not> list_ex (writes_to j) (cont ?v) \<Longrightarrow> pend s2 j = pend s1 j" "\<And>j. length (pend s2 j) \<le> length (pend s1 j) + k"
    using body_plain [where run = run and cs = "cont ?v", OF branch good f1(1) _ _ _ limit(2)] by auto
  have "?run s = Some s2" using s1(1) s2(1) read_committed_ok [OF s, of i] by simp
  then show "\<exists>s'. ?run s = Some s' \<and> view s' = plain (Get_Value i cont) (view s)
    \<and> (\<forall>j. \<not> writes_to j (Get_Value i cont) \<longrightarrow> pend s' j = pend s j) \<and> (\<forall>j. length (pend s' j) \<le> length (pend s j) + k)"
    using s2(2-4) s1(2,3) v by auto
qed

lemma exec_plain: "height c n \<Longrightarrow> n + 2 \<le> fuel \<Longrightarrow> refines_plain limit c (exec (\<lambda>_ _. []) limit fuel c)"
proof (induction fuel arbitrary: c n)
  case (Suc fuel)
  have fuel: "1 < fuel" using Suc.prems height_pos [OF Suc.prems(1)] by simp
  have IH: "refines_plain limit b (exec (\<lambda>_ _. []) limit fuel b)" if "height b (n - 1)" for b :: "'a cmd"
    using Suc.IH [OF that] Suc.prems(2) height_pos [OF Suc.prems(1)] by simp
  show ?case
  proof (cases c)
    case (Update i body f)
    have "refines_plain limit b (exec (\<lambda>_ _. []) limit fuel b)" if "b \<in> set body" for b
      using IH that Update Suc.prems(1) by (simp add: list_all_iff)
    from update_plain [OF this exec_good fuel, where body = body and i = i and f = f]
    show ?thesis using Update by (simp add: mark_quiet)
  next
    case (Guard i body f notify)
    have "refines_plain limit b (exec (\<lambda>_ _. []) limit fuel b)" if "b \<in> set body" for b
      using IH that Guard Suc.prems(1) by (simp add: list_all_iff)
    from guard_plain [OF this exec_good fuel, where body = body and i = i and f = f and n = notify]
    show ?thesis using Guard by (simp add: mark_quiet)
  next
    case (With i body)
    have "refines_plain limit b (exec (\<lambda>_ _. []) limit fuel b)" if "b \<in> set body" for b
      using IH that With Suc.prems(1) by (simp add: list_all_iff)
    from with_plain [OF this exec_good fuel, where body = body and i = i]
    show ?thesis using With by (simp add: mark_quiet)
  next
    case (Get_Value i cont)
    have "refines_plain limit b (exec (\<lambda>_ _. []) limit fuel b)" if "b \<in> set (cont v)" for b v
      using IH that Get_Value Suc.prems(1) by (simp add: list_all_iff)
    from get_plain [OF this exec_good fuel, where cont = cont and i = i]
    show ?thesis using Get_Value by (simp add: mark_quiet)
  qed (use fuel in \<open>simp_all add: mark_quiet set_plain notify_plain swap_part_plain\<close>)
qed simp

text \<open>
  C6. What deferring means to code on its own, whose signals' subscribers only observe (they run no
  code). It may nest reads, updates, write guards and sets, and choose what it does next and writes
  by the values that it copies out of signals. Three things it must not do: write a signal inside
  an update or write guard of it, replace a part of a signal inside a use of it, or inside a read
  guard of a signal both write that signal and copy its value (\<open>code_in_a_read_guard\<close>). Then it returns (with
  fuel for its nesting, and fewer writes than the limit of a flush), leaves every signal with the
  value that it would have if each write took effect at once, and notifies each signal's subscribers
  of the same values in the same order. Notifications of different signals may be in another order.
\<close>

theorem deferred_writes_are_plain_writes:
  assumes "list_all tidy cs" and "share (map writes cs) n" and "n < limit" and "list_all (\<lambda>c. height c h) cs" and "h + 2 \<le> fuel"
  shows "\<exists>s'. fold_opt (exec (\<lambda>_ _. []) limit fuel) cs (idle values) = Some s'
    \<and> (\<lambda>i. (t_committed s' i, heard s' i)) = fold plain cs (\<lambda>i. (values i, []))"
proof -
  have plain: "refines_plain limit c (exec (\<lambda>_ _. []) limit fuel c)" if "c \<in> set cs" for c
    using that assms(4,5) by (intro exec_plain) (simp_all add: list_all_iff)
  have "unhindered (idle values) cs" by (simp add: unhindered_def)
  then obtain s' where s': "fold_opt (exec (\<lambda>_ _. []) limit fuel) cs (idle values) = Some s'"
      "frame_on UNIV (idle values) s'" "view s' = fold plain cs (view (idle values))"
    using body_plain [where run = "exec (\<lambda>_ _. []) limit fuel", OF plain exec_good ok_idle assms(1) _ assms(2,3)] by blast
  have "view (idle values) = (\<lambda>i. (values i, []))" by (simp add: view_def pend_def heard_def idle_def entry_of_def find_entry_def fun_eq_iff)
  moreover have "entry_of s' i = None" for i using frame_None [OF s'(2), of i] by simp
  then have "view s' = (\<lambda>i. (t_committed s' i, heard s' i))" by (simp add: view_def pend_def fun_eq_iff)
  ultimately show ?thesis using s'(1,3) by auto
qed

theorem deferred_writes_are_plain_writes_witness:
  "\<exists>s'. fold_opt (exec (\<lambda>_ _. []) 9 9)
      [With 0 [Set 0 (1 :: int) True, Guard 1 [Update 0 [] (\<lambda>v. (v + 1, True))] (\<lambda>v. v - 1) False],
       Get_Value 0 (\<lambda>v. [With 0 [Get_Value 1 (\<lambda>u. if u < v then [] else [Set 1 (u * v) True])]])] (idle (\<lambda>_. 5)) = Some s'
    \<and> t_committed s' 0 = 2 \<and> heard s' 0 = [1, 2] \<and> t_committed s' 1 = 8 \<and> heard s' 1 = [8]"
proof -
  let ?cs = "[With 0 [Set 0 (1 :: int) True, Guard 1 [Update 0 [] (\<lambda>v. (v + 1, True))] (\<lambda>v. v - 1) False],
       Get_Value 0 (\<lambda>v. [With 0 [Get_Value 1 (\<lambda>u. if u < v then [] else [Set 1 (u * v) True])]])]"
  have bound: "(\<exists>k \<le> Suc n. P k) \<longleftrightarrow> P (Suc n) \<or> (\<exists>k \<le> n. P k)" for P n by (auto simp: le_Suc_eq)
  have "share (map writes ?cs) 4" by (simp add: eval_nat_numeral bound)
  moreover have "list_all tidy ?cs" "list_all (\<lambda>c. height c 4) ?cs" by simp_all
  ultimately obtain s' where s': "fold_opt (exec (\<lambda>_ _. []) 9 9) ?cs (idle (\<lambda>_. 5)) = Some s'"
      "(\<lambda>i. (t_committed s' i, heard s' i)) = fold plain ?cs (\<lambda>i. (5, []))"
    using deferred_writes_are_plain_writes [of ?cs 4 9 4 9 "\<lambda>_. 5"] by fastforce
  have "(t_committed s' 0, heard s' 0) = (2, [1, 2])" "(t_committed s' 1, heard s' 1) = (8, [8])"
    using fun_cong [OF s'(2), of 0] fun_cong [OF s'(2), of 1] by (simp_all add: write_world_def)
  then show ?thesis using s'(1) by auto
qed

text \<open>
  Code that copies a signal inside a read guard of it, after a write there, gets the value from
  before the guard, since the write waits for the guard's end.
\<close>

theorem code_in_a_read_guard:
  "map_option (\<lambda>s. (t_committed s 0, t_committed s 1))
     (exec (\<lambda>_ _. []) 9 9 (With 0 [Set 0 1 True, Get_Value 0 (\<lambda>v. [Set 1 v True])]) (idle (\<lambda>_. 5 :: int))) = Some (1, 5)
   \<and> (let w = plain (With 0 [Set 0 1 True, Get_Value 0 (\<lambda>v. [Set 1 v True])]) (\<lambda>_. (5 :: int, [])) in (fst (w 0), fst (w 1))) = (1, 1)"
  by code_simp

section \<open>A subscriber that writes on every change\<close>

lemma drain_runaway:
  assumes mark: "\<And>s e. ok s \<Longrightarrow> entry_of s i = Some e \<Longrightarrow>
      mark i s = Some (defer_write i (Deferred_Set (f (t_committed s i)) True) False (s\<lparr>t_notified := t_notified s @ [(i, t_committed s i)]\<rparr>))"
  shows "ok s \<Longrightarrow> entry_of s i = Some e \<Longrightarrow> e_depth e = 1 \<Longrightarrow> t_locks s i = 0 \<Longrightarrow> pend s i = [Deferred_Set (f (t_committed s i)) True] \<Longrightarrow>
    \<exists>s' p. drain mark i left s = Some s' \<and> ok s' \<and> entry_of s' i = Some (e\<lparr>e_pending := p\<rparr>) \<and> plist p = [] \<and> t_locks s' i = 0
      \<and> t_committed s' i = (f ^^ left) (t_committed s i) \<and> t_runaway s' = i # t_runaway s"
proof (induction left arbitrary: s e)
  case 0
  obtain s1 where s1: "take_pending i s = (e_pending e, s1)" "entry_of s1 = (entry_of s)(i \<mapsto> e\<lparr>e_pending := None\<rparr>)"
      "distinct_ids s1" "s1 = s\<lparr>t_entries := t_entries s1\<rparr>"
    using take_pending_entry [OF ok_distinct [OF 0(1)] 0(2)] by blast
  have "ok s1" using ok_entry [OF 0(1) s1(4,3,2) 0(2)] ok_depth [OF 0(1,2)] ok_write_locks [OF 0(1,2)] by simp
  then show ?case
    using s1(1,2) rest_fields [OF s1(4)] 0(4) by (intro exI [of _ "s1\<lparr>t_runaway := i # t_runaway s1\<rparr>"] exI [of _ None]) simp
next
  case (Suc left)
  let ?v = "f (t_committed s i)"
  have pending: "e_pending e = Some [Deferred_Set ?v True]" using Suc.prems(2,5) by (cases "e_pending e") (auto simp: pend_def)
  obtain s2 p where s2: "take_pending i s = (Some [Deferred_Set ?v True], s2)" "ok s2"
      "entry_of s2 = (entry_of s)(i \<mapsto> e\<lparr>e_pending := p\<rparr>)" "plist p = []" "s2 = s\<lparr>t_entries := t_entries s2\<rparr>"
    using pop_pending [OF Suc.prems(1,2) pending] by auto
  note same = rest_fields [OF s2(5)]
  let ?s3 = "s2\<lparr>t_committed := (t_committed s2)(i := ?v)\<rparr>"
  let ?s4 = "?s3\<lparr>t_notified := t_notified ?s3 @ [(i, ?v)]\<rparr>"
  let ?s5 = "defer_write i (Deferred_Set (f ?v) True) False ?s4"
  have s4: "ok ?s4" "entry_of ?s4 i = Some (e\<lparr>e_pending := p\<rparr>)" using s2(2,3) by simp_all
  obtain q where s5: "ok ?s5" "entry_of ?s5 i = Some (e\<lparr>e_pending := q\<rparr>)" "?s5 = ?s4\<lparr>t_entries := t_entries ?s5\<rparr>"
    using defer_write_entry [OF s4, of "Deferred_Set (f ?v) True" False] by auto
  note same5 = rest_fields [OF s5(3)]
  have "drain mark i (Suc left) s = drain mark i left ?s5"
    using Suc.prems(2-4) s2(1,2,3) same mark [of ?s3 "e\<lparr>e_pending := p\<rparr>"]
    by (simp add: depth_entry swap_in_def Let_def)
  moreover have "pend ?s5 i = [Deferred_Set (f ?v) True]"
    using defer_view(1) [OF s4, of "Deferred_Set (f ?v) True"] s4(2) s2(4) by (simp add: pend_def)
  ultimately show ?case
    using Suc.IH [OF s5(1,2)] Suc.prems(3,4) same same5 by (simp add: funpow_swap1)
qed

text \<open>
  C35. A subscriber that writes the signal on every change does not keep the write from returning:
  after the limit (\<open>MAX_APPLIED\<close> in the code) the next deferred write is dropped and reported, and
  the signal is no longer in use.
\<close>

theorem runaway_writes_end:
  assumes "2 < fuel"
  shows "\<exists>s'. exec (\<lambda>i v. [Set i (f v) True]) limit fuel (Set i v True) (idle values) = Some s'
    \<and> t_committed s' i = (f ^^ limit) v \<and> t_runaway s' = [i] \<and> t_entries s' = [] \<and> t_turns s' = {}"
proof -
  let ?handler = "\<lambda>i v. [Set i (f v) True]"
  obtain k where k: "fuel = Suc (Suc (Suc k))" using assms by (metis Suc_diff_Suc less_imp_Suc_add numeral_2_eq_2 add_Suc)
  let ?mark = "mark_subscribers ?handler (exec ?handler limit (Suc (Suc k)))"
  have mark: "?mark i s = Some (defer_write i (Deferred_Set (f (t_committed s i)) True) False (s\<lparr>t_notified := t_notified s @ [(i, t_committed s i)]\<rparr>))"
    if "ok s" "entry_of s i = Some e" for s e
    using that by (simp add: mark_subscribers_def set_value_def begin_write_in_use [where e = e])
  obtain s1 e where s1: "begin_write i False (idle values) = (Started, s1)" "ok s1" "entry_of s1 i = Some e" "e_depth e = 1" "e_pending e = None"
      "s1 = (idle values)\<lparr>t_entries := t_entries s1, t_turns := insert i (t_turns (idle values))\<rparr>"
    using begin_write_started [OF ok_idle entry_of_idle] by fastforce
  have same1: "t_locks s1 i = 0" "t_runaway s1 = []" by (subst s1(6), simp add: idle_def)+
  let ?s2 = "s1\<lparr>t_committed := (t_committed s1)(i := v)\<rparr>"
  let ?s3 = "?s2\<lparr>t_notified := t_notified ?s2 @ [(i, v)]\<rparr>"
  let ?s4 = "defer_write i (Deferred_Set (f v) True) False ?s3"
  have s3: "ok ?s3" "entry_of ?s3 i = Some e" using s1(2,3) by simp_all
  have commit: "commit ?mark i v True s1 = Some ?s4"
    using s1(2-4) same1 mark [of ?s2 e] by (simp add: commit_def commit_now_def depth_entry swap_in_def)
  obtain s4: "ok ?s4" "entry_of ?s4 i = Some (e\<lparr>e_pending := Some [Deferred_Set (f v) True]\<rparr>)" "?s4 = ?s3\<lparr>t_entries := t_entries ?s4\<rparr>"
    using defer_write_entry [OF s3, of "Deferred_Set (f v) True" False] s1(5) by auto
  note same4 = rest_fields [OF s4(3)]
  obtain s5 e5 where s5: "exit_access ?mark limit (Suc (Suc k)) i Read_Access ?s4 =
        Option.bind (drain ?mark i limit s5) (exit_access ?mark limit (Suc k) i Read_Access)"
      "ok s5" "entry_of s5 i = Some e5" "e_depth e5 = 1" "plist (e_pending e5) = [Deferred_Set (f v) True]"
      "t_locks s5 = t_locks ?s4" "t_committed s5 = t_committed ?s4" "t_runaway s5 = t_runaway ?s4"
    using exit_flush [OF s4(1,2), of "Deferred_Set (f v) True" "[]" ?mark limit "Suc k" Read_Access] s1(4) same1 same4 by auto
  have s5': "t_locks s5 i = 0" "pend s5 i = [Deferred_Set (f (t_committed s5 i)) True]" "t_committed s5 i = v" "t_runaway s5 = []"
    using s5(3,5-8) same1 same4 by (simp_all add: pend_def)
  have "\<exists>s' p. drain ?mark i limit s5 = Some s' \<and> ok s' \<and> entry_of s' i = Some (e5\<lparr>e_pending := p\<rparr>) \<and> plist p = [] \<and> t_locks s' i = 0
      \<and> t_committed s' i = (f ^^ limit) (t_committed s5 i) \<and> t_runaway s' = i # t_runaway s5"
    by (rule drain_runaway [where f = f, OF _ s5(2-4) s5'(1,2)]) (rule mark)
  note runaway = this [unfolded s5'(3,4)]
  obtain s6 p where s6: "drain ?mark i limit s5 = Some s6" "ok s6" "entry_of s6 i = Some (e5\<lparr>e_pending := p\<rparr>)" "plist p = []"
      "t_locks s6 i = 0" "t_committed s6 i = (f ^^ limit) v" "t_runaway s6 = [i]"
    using runaway by auto
  obtain s' where s': "exit_access ?mark limit (Suc k) i Read_Access s6 = Some s'"
    using exit_done_view [OF s6(2,3), of "Suc k" ?mark limit Read_Access] s5(4) s6(4) by auto
  have run: "exec ?handler limit fuel (Set i v True) (idle values) = Some s'"
    using s1(1) commit s5(1) s6(1) s' unfolding k by (simp add: set_value_def)
  have "s' = s6\<lparr>t_entries := t_entries s', t_turns := t_turns s6 - {i}\<rparr>"
    using exit_nothing_pending [OF s6(2,3) _ s6(5) _ s'] s5(4) s6(4) by simp
  then have "t_committed s' = t_committed s6" "t_runaway s' = t_runaway s6"
    by (metis thread.ext_inject thread.surjective thread.update_convs(1,2))+
  moreover have "t_entries s' = [] \<and> t_turns s' = {}"
    using all_accesses_end [of ?handler limit fuel "[Set i v True]" "values" s'] run by simp
  ultimately show ?thesis using run s6(6,7) by auto
qed

theorem runaway_writes_end_witness:
  "\<exists>s'. exec (\<lambda>i v. [Set i (v + 1) True]) 5 3 (Set 0 (7 :: int) True) (idle (\<lambda>_. 0)) = Some s'
    \<and> t_committed s' 0 = 12 \<and> t_runaway s' = [0]"
  using runaway_writes_end [of 3 "\<lambda>v. v + 1" 5 0 7 "\<lambda>_. 0"] by (auto simp: eval_nat_numeral)

section \<open>An update inside an update\<close>

text \<open>
  An update nested in an update of the same signal is applied after it, and reported, only
  if the outer update is not itself inside a use of the signal: there both are deferred in the
  order in which they end, so that the outer one replaces the inner one, and nothing is reported.
\<close>

theorem nested_update_order:
  "map_option (\<lambda>s. (t_committed s 0, t_nested s))
     (exec (\<lambda>_ _. []) 9 9 (Update 0 [Update 0 [] (\<lambda>v. (v + 1, True))] (\<lambda>v. (v + 10, True))) (idle (\<lambda>_. 5 :: int))) = Some (6, [0])
   \<and> map_option (\<lambda>s. (t_committed s 0, t_nested s))
     (exec (\<lambda>_ _. []) 9 9 (With 0 [Update 0 [Update 0 [] (\<lambda>v. (v + 1, True))] (\<lambda>v. (v + 10, True))]) (idle (\<lambda>_. 5 :: int))) = Some (15, [])"
  by code_simp

end
