(* ===== verification/Html_Stream.thy ===== *)
theory Html_Stream
  imports Str
begin

text \<open>
  Streaming HTML from the server: \<open>StreamBuilder\<close> of \<open>halyard_tachys/src/ssr/mod.rs\<close>, what the
  suspended views write into it (\<open>suspense_component.rs\<close>, \<open>error_boundary.rs\<close>,
  \<open>reactive_graph/suspense.rs\<close>), and that an in-order stream is the HTML of the page.

  A future is its value and the number of times that a poll of it answers \<open>Pending\<close> before it is
  ready. The HTML that views without suspended parts write is a string. Capacities are hints to the
  allocator and have no part in the model.
\<close>

section \<open>Numbers and markers in the text\<close>

definition digit :: "nat \<Rightarrow> char" where
  "digit n = char_of (48 + n)"

fun decimal :: "nat \<Rightarrow> string" where
  "decimal n = (if n < 10 then [digit n] else decimal (n div 10) @ [digit (n mod 10)])"

declare decimal.simps [simp del]

definition push_chunk_id :: "nat list \<Rightarrow> string" where
  "push_chunk_id ids = concat (map (\<lambda>piece. decimal piece @ ''-'') ids)"

text \<open>\<open>str::split_once\<close>\<close>

fun split_once :: "string \<Rightarrow> string \<Rightarrow> (string \<times> string) option" where
  "split_once p [] = (if p = [] then Some ([], []) else None)"
| "split_once p (c # s) =
    (case strip_prefix p (c # s) of
       Some r \<Rightarrow> Some ([], r)
     | None \<Rightarrow> map_option (apfst ((#) c)) (split_once p s))"

definition opening_marker :: "string \<Rightarrow> string" where
  "opening_marker i = ''<!--s-'' @ i @ ''o-->''"

definition closing_marker :: "string \<Rightarrow> string" where
  "closing_marker i = ''<!--s-'' @ i @ ''c-->''"

datatype view_error = Chunk_Id_Wrapped | Unclosed_Chunk_Marker string

definition split_around_placeholder :: "string \<Rightarrow> string \<Rightarrow> (string \<times> string) option \<times> view_error list" where
  "split_around_placeholder buf i =
    (case split_once (opening_marker i) buf of
       None \<Rightarrow> (None, [])
     | Some (before, from_opening) \<Rightarrow>
         (case split_once (closing_marker i) from_opening of
            Some (fallback, after) \<Rightarrow> (Some (before, after), [])
          | None \<Rightarrow> (None, [Unclosed_Chunk_Marker i])))"

section \<open>Chunks and the stream\<close>

datatype stream_chunk =
    Sync string
  | Async_Chunks nat "stream_chunk list"
  | Out_Of_Order nat ooo_chunk
and ooo_chunk =
  Ooo_Chunk (ooo_id: string) (ooo_chunks: "stream_chunk list") (ooo_replace: bool) (ooo_nonce: "string option")

record stream_builder =
  sync_buf :: string
  chunks :: "stream_chunk list"
  pending :: "(nat \<times> stream_chunk list) option"
  pending_ooo :: "(nat \<times> ooo_chunk) list"
  chunk_id :: "nat list option"
  logged :: "view_error list"

definition new_builder :: "nat list option \<Rightarrow> stream_builder" where
  "new_builder i =
    \<lparr>sync_buf = [], chunks = [], pending = None, pending_ooo = [], chunk_id = i, logged = []\<rparr>"

definition push_sync :: "string \<Rightarrow> stream_builder \<Rightarrow> stream_builder" where
  "push_sync s b = b\<lparr>sync_buf := sync_buf b @ s\<rparr>"

definition flush_sync :: "stream_builder \<Rightarrow> stream_builder" where
  "flush_sync b =
    (if sync_buf b = [] then b else b\<lparr>sync_buf := [], chunks := chunks b @ [Sync (sync_buf b)]\<rparr>)"

definition push_async :: "nat \<Rightarrow> stream_chunk list \<Rightarrow> stream_builder \<Rightarrow> stream_builder" where
  "push_async d cs b = (let b = flush_sync b in b\<lparr>chunks := chunks b @ [Async_Chunks d cs]\<rparr>)"

definition take_chunks :: "stream_builder \<Rightarrow> stream_chunk list" where
  "take_chunks b = chunks (flush_sync b)"

definition append_builder :: "stream_builder \<Rightarrow> stream_builder \<Rightarrow> stream_builder" where
  "append_builder b other =
    (let b = flush_sync b in b\<lparr>chunks := chunks b @ chunks other, sync_buf := sync_buf b @ sync_buf other\<rparr>)"

definition finish :: "stream_builder \<Rightarrow> stream_builder" where
  "finish b =
    (if sync_buf b = [] then b
     else case rev (chunks b) of
         Sync buf # cs \<Rightarrow> b\<lparr>sync_buf := [], chunks := rev cs @ [Sync (buf @ sync_buf b)]\<rparr>
       | _ \<Rightarrow> b\<lparr>sync_buf := [], chunks := chunks b @ [Sync (sync_buf b)]\<rparr>)"

definition report_once :: "view_error \<Rightarrow> stream_builder \<Rightarrow> stream_builder" where
  "report_once e b = (if e \<in> set (logged b) then b else b\<lparr>logged := logged b @ [e]\<rparr>)"

text \<open>The pieces of an id are of type \<open>u16\<close>.\<close>

definition next_piece :: "nat \<Rightarrow> nat" where
  "next_piece n = (case checked_add 65535 n 1 of Some m \<Rightarrow> m | None \<Rightarrow> 0)"

definition next_id :: "stream_builder \<Rightarrow> stream_builder" where
  "next_id b =
    (case chunk_id b of
       None \<Rightarrow> b
     | Some ids \<Rightarrow>
         if ids = [] then b
         else
           (let b = (if checked_add 65535 (last ids) 1 = None then report_once Chunk_Id_Wrapped b else b)
            in b\<lparr>chunk_id := Some (butlast ids @ [next_piece (last ids)])\<rparr>))"

definition child_id :: "stream_builder \<Rightarrow> nat list option" where
  "child_id b = map_option (\<lambda>ids. ids @ [0]) (chunk_id b)"

definition write_chunk_marker :: "bool \<Rightarrow> stream_builder \<Rightarrow> stream_builder" where
  "write_chunk_marker opens b =
    (case chunk_id b of
       None \<Rightarrow> b
     | Some i \<Rightarrow>
         push_sync ((if opens then opening_marker else closing_marker) (push_chunk_id i)) b)"

definition push_fallback :: "string \<Rightarrow> stream_builder \<Rightarrow> stream_builder" where
  "push_fallback fallback b =
    write_chunk_marker False (push_sync fallback (write_chunk_marker True b))"

text \<open>
  The future of an out-of-order chunk awaits the view, renders it, and awaits the futures of the
  in-order chunks in it one after the other: the chunks and the number of polls.
\<close>

fun awaited :: "stream_chunk \<Rightarrow> nat \<times> stream_chunk list" where
  "awaited (Async_Chunks d cs) = (d, cs)"
| "awaited c = (0, [c])"

definition push_async_out_of_order ::
  "nat \<Rightarrow> bool \<Rightarrow> (stream_builder \<Rightarrow> stream_builder) \<Rightarrow> string option \<Rightarrow> stream_builder \<Rightarrow> stream_builder" where
  "push_async_out_of_order d is_some view nonce b =
    (let i = (case chunk_id b of None \<Rightarrow> [] | Some ids \<Rightarrow> push_chunk_id ids);
         subbuilder = view (new_builder (child_id b));
         parts = map awaited (take_chunks (finish subbuilder))
     in b\<lparr>chunks := chunks b @
           [Out_Of_Order (d + sum_list (map fst parts)) (Ooo_Chunk i (concat (map snd parts)) is_some nonce)]\<rparr>)"

section \<open>Polling\<close>

definition push_start :: "string \<Rightarrow> string" where
  "push_start i = ''<template id=\"'' @ i @ ''f'' @ ''\">''"

definition find_markers :: string where
  "find_markers = ''\";let open = undefined;let close = undefined;let walker = '' @
     ''document.createTreeWalker(document.body, '' @
     ''NodeFilter.SHOW_COMMENT);while(walker.nextNode()) '' @
     ''{if(walker.currentNode.textContent == `s-${id}o`){ '' @
     ''open=walker.currentNode; } else '' @
     ''if(walker.currentNode.textContent == `s-${id}c`) { close = '' @
     ''walker.currentNode;}}let range = new Range(); '' @
     ''range.setStartBefore(open); range.setEndBefore(close);''"

definition replace_fallback :: string where
  "replace_fallback = ''range.deleteContents(); let tpl = '' @
     ''document.getElementById(`${id}f`); '' @
     ''close.parentNode.insertBefore(tpl.content.cloneNode(true), '' @
     ''close);close.remove();''"

definition script_tag :: "string option \<Rightarrow> string" where
  "script_tag nonce =
    (case nonce of
       Some n \<Rightarrow> ''<script nonce=\"'' @ n @ ''\">(function() { let id = \"''
     | None \<Rightarrow> ''<script>(function() { let id = \"'')"

definition push_end_with_nonce :: "bool \<Rightarrow> string \<Rightarrow> string option \<Rightarrow> string" where
  "push_end_with_nonce replace i nonce =
     ''</template>'' @ script_tag nonce @ i @ find_markers @
     (if replace then replace_fallback else ''close.remove();open.remove();'') @ ''})()</script>''"

text \<open>
  The chunks of an out-of-order chunk that is ready are run through from the last to the first:
  text is written, everything else is put in front of the ones held.
\<close>

definition write_chunks :: "stream_chunk list \<Rightarrow> string \<times> stream_chunk list \<Rightarrow> string \<times> stream_chunk list" where
  "write_chunks cs =
     fold (\<lambda>c (buf, held). case c of Sync ready \<Rightarrow> (buf @ ready, held) | _ \<Rightarrow> (buf, c # held)) (rev cs)"

definition ooo_ready :: "ooo_chunk \<Rightarrow> stream_builder \<Rightarrow> stream_builder" where
  "ooo_ready c b =
    (let (split, log) = split_around_placeholder (sync_buf b) (ooo_id c); b = b\<lparr>logged := logged b @ log\<rparr>
     in case split of
          Some (before, after) \<Rightarrow>
            (let (buf, held) = write_chunks (ooo_chunks c) (before, [])
             in b\<lparr>sync_buf := buf @ after, chunks := fold (#) held (chunks b)\<rparr>)
        | None \<Rightarrow>
            (let (buf, cs) = write_chunks (ooo_chunks c) (sync_buf b @ push_start (ooo_id c), chunks b)
             in b\<lparr>sync_buf := buf @ push_end_with_nonce (ooo_replace c) (ooo_id c) (ooo_nonce c), chunks := cs\<rparr>))"

definition poll_ooo :: "nat \<times> ooo_chunk \<Rightarrow> stream_builder \<Rightarrow> stream_builder" where
  "poll_ooo fut b =
    (case fut of
       (0, c) \<Rightarrow> ooo_ready c b
     | (Suc d, c) \<Rightarrow> b\<lparr>pending_ooo := pending_ooo b @ [(d, c)]\<rparr>)"

datatype poll = Pending | Ready "string option"

text \<open>The inner loop after a chunk of text: more text, up to the first chunk of another kind.\<close>

fun take_sync :: "stream_chunk list \<Rightarrow> stream_builder \<Rightarrow> stream_builder" where
  "take_sync [] b = b\<lparr>chunks := []\<rparr>"
| "take_sync (Async_Chunks d cs # rest) b = b\<lparr>chunks := Async_Chunks d cs # rest\<rparr>"
| "take_sync (Out_Of_Order d c # rest) b = b\<lparr>chunks := rest, pending_ooo := pending_ooo b @ [(d, c)]\<rparr>"
| "take_sync (Sync s # rest) b = take_sync rest (b\<lparr>sync_buf := sync_buf b @ s\<rparr>)"

definition take_buf :: "stream_builder \<Rightarrow> poll \<times> stream_builder" where
  "take_buf b = (Ready (Some (sync_buf b)), b\<lparr>sync_buf := []\<rparr>)"

definition poll_all_ooo :: "stream_builder \<Rightarrow> stream_builder" where
  "poll_all_ooo b = fold poll_ooo (pending_ooo b) (b\<lparr>pending_ooo := []\<rparr>)"

lemma take_sync_size [termination_simp]:
  "size_list size (chunks (take_sync cs b)) \<le> size_list size cs \<and> pending (take_sync cs b) = pending b"
  by (induction cs b rule: take_sync.induct) auto

definition stream_size :: "stream_builder \<Rightarrow> nat" where
  "stream_size b = size_list size (chunks b) + (case pending b of None \<Rightarrow> 0 | Some (d, cs) \<Rightarrow> Suc (size_list size cs))"

function poll_next :: "stream_builder \<Rightarrow> poll \<times> stream_builder" where
  "poll_next b =
    (case pending b of
       Some (Suc d, cs) \<Rightarrow> (Pending, b\<lparr>pending := Some (d, cs)\<rparr>)
     | Some (0, cs) \<Rightarrow> poll_next (b\<lparr>pending := None, chunks := cs @ chunks b\<rparr>)
     | None \<Rightarrow>
         (case chunks b of
            [] \<Rightarrow>
              if pending_ooo b = []
              then (if sync_buf b = [] then (Ready None, b) else take_buf b)
              else (let b = poll_all_ooo b in if sync_buf b = [] then (Pending, b) else take_buf b)
          | Sync html # rest \<Rightarrow> poll_next (take_sync rest (b\<lparr>sync_buf := sync_buf b @ html\<rparr>))
          | Async_Chunks d cs # rest \<Rightarrow>
              (let b = b\<lparr>chunks := rest, pending := Some (d, cs)\<rparr>
               in if sync_buf b = [] then poll_next b else take_buf b)
          | Out_Of_Order d c # rest \<Rightarrow>
              (let b = b\<lparr>chunks := rest, pending_ooo := pending_ooo b @ [(d, c)]\<rparr>
               in if sync_buf b = [] then poll_next b else take_buf b)))"
  by pat_completeness auto
termination
  by (relation "measure stream_size")
    (use take_sync_size in \<open>auto simp: stream_size_def size_list_append less_Suc_eq_le le_imp_less_Suc\<close>)

declare poll_next.simps [simp del]

lemma poll_next_simps:
  "pending b = Some (Suc d, cs) \<Longrightarrow> poll_next b = (Pending, b\<lparr>pending := Some (d, cs)\<rparr>)"
  "pending b = Some (0, cs) \<Longrightarrow> poll_next b = poll_next (b\<lparr>pending := None, chunks := cs @ chunks b\<rparr>)"
  "pending b = None \<Longrightarrow> chunks b = [] \<Longrightarrow> pending_ooo b = [] \<Longrightarrow>
     poll_next b = (if sync_buf b = [] then (Ready None, b) else take_buf b)"
  "pending b = None \<Longrightarrow> chunks b = [] \<Longrightarrow> pending_ooo b \<noteq> [] \<Longrightarrow>
     poll_next b = (let b = poll_all_ooo b in if sync_buf b = [] then (Pending, b) else take_buf b)"
  "pending b = None \<Longrightarrow> chunks b = Sync html # rest \<Longrightarrow>
     poll_next b = poll_next (take_sync rest (b\<lparr>sync_buf := sync_buf b @ html\<rparr>))"
  "pending b = None \<Longrightarrow> chunks b = Async_Chunks d cs # rest \<Longrightarrow>
     poll_next b = (if sync_buf b = [] then poll_next (b\<lparr>chunks := rest, pending := Some (d, cs)\<rparr>)
       else take_buf (b\<lparr>chunks := rest, pending := Some (d, cs)\<rparr>))"
  "pending b = None \<Longrightarrow> chunks b = Out_Of_Order d c # rest \<Longrightarrow>
     poll_next b = (if sync_buf b = [] then poll_next (b\<lparr>chunks := rest, pending_ooo := pending_ooo b @ [(d, c)]\<rparr>)
       else take_buf (b\<lparr>chunks := rest, pending_ooo := pending_ooo b @ [(d, c)]\<rparr>))"
  by (simp_all add: poll_next.simps [of b])

lemma poll_next_induct [case_names Waiting Arrived Done Only_Ooo Text In_Order Ooo]:
  assumes "\<And>b d cs. pending b = Some (Suc d, cs) \<Longrightarrow> P b"
    and "\<And>b cs. pending b = Some (0, cs) \<Longrightarrow> P (b\<lparr>pending := None, chunks := cs @ chunks b\<rparr>) \<Longrightarrow> P b"
    and "\<And>b. pending b = None \<Longrightarrow> chunks b = [] \<Longrightarrow> pending_ooo b = [] \<Longrightarrow> P b"
    and "\<And>b. pending b = None \<Longrightarrow> chunks b = [] \<Longrightarrow> pending_ooo b \<noteq> [] \<Longrightarrow> P b"
    and "\<And>b html rest. pending b = None \<Longrightarrow> chunks b = Sync html # rest
      \<Longrightarrow> P (take_sync rest (b\<lparr>sync_buf := sync_buf b @ html\<rparr>)) \<Longrightarrow> P b"
    and "\<And>b d cs rest. pending b = None \<Longrightarrow> chunks b = Async_Chunks d cs # rest
      \<Longrightarrow> (sync_buf b = [] \<Longrightarrow> P (b\<lparr>chunks := rest, pending := Some (d, cs)\<rparr>)) \<Longrightarrow> P b"
    and "\<And>b d c rest. pending b = None \<Longrightarrow> chunks b = Out_Of_Order d c # rest
      \<Longrightarrow> (sync_buf b = [] \<Longrightarrow> P (b\<lparr>chunks := rest, pending_ooo := pending_ooo b @ [(d, c)]\<rparr>)) \<Longrightarrow> P b"
  shows "P b"
proof (induction b rule: measure_induct_rule [of stream_size])
  case (less b)
  consider d cs where "pending b = Some (Suc d, cs)" | cs where "pending b = Some (0, cs)"
    | "pending b = None" "chunks b = []" | html rest where "pending b = None" "chunks b = Sync html # rest"
    | d cs rest where "pending b = None" "chunks b = Async_Chunks d cs # rest"
    | d c rest where "pending b = None" "chunks b = Out_Of_Order d c # rest"
    by (metis not0_implies_Suc option.exhaust list.exhaust stream_chunk.exhaust surj_pair)
  then show ?case
  proof cases
    case (2 cs)
    then show ?thesis by (intro assms(2) [OF 2] less) (simp add: stream_size_def size_list_append)
  next
    case (4 html rest)
    then show ?thesis
      using take_sync_size [of rest "b\<lparr>sync_buf := sync_buf b @ html\<rparr>"]
      by (intro assms(5) [OF 4] less) (simp add: stream_size_def)
  next
    case (5 d cs rest)
    then show ?thesis by (intro assms(6) [OF 5] less) (simp add: stream_size_def)
  next
    case (6 d c rest)
    then show ?thesis by (intro assms(7) [OF 6] less) (simp add: stream_size_def)
  qed (use assms(1,3,4) in blast)+
qed

section \<open>Views that are suspended\<close>

text \<open>
  A view is the HTML that it writes at once, or a suspended view: its fallback, the polls that its
  future takes (it is polled once while rendering), the nonce for its script, and the views that it
  resolves to. \<open>render out_of_order\<close> is \<open>to_html_async_with_buf\<close>.
\<close>

datatype html_view = Html string | Suspense string nat "string option" "html_view list"

fun render :: "bool \<Rightarrow> html_view \<Rightarrow> stream_builder \<Rightarrow> stream_builder" and
  render_all :: "bool \<Rightarrow> html_view list \<Rightarrow> stream_builder \<Rightarrow> stream_builder" where
  "render out_of_order (Html s) b = push_sync s b"
| "render out_of_order (Suspense fallback 0 nonce children) b =
    render_all out_of_order children (next_id b)"
| "render out_of_order (Suspense fallback (Suc d) nonce children) b =
    (let b = next_id b
     in if out_of_order
        then push_async_out_of_order d True (\<lambda>b. render_all out_of_order children b) nonce (push_fallback fallback b)
        else push_async d
               (take_chunks (finish (render_all out_of_order children (new_builder (chunk_id b))))) b)"
| "render_all out_of_order [] b = b"
| "render_all out_of_order (v # vs) b = render_all out_of_order vs (render out_of_order v b)"

definition to_html_stream_in_order :: "html_view list \<Rightarrow> stream_builder" where
  "to_html_stream_in_order vs = finish (render_all False vs (new_builder None))"

definition to_html_stream_out_of_order :: "html_view list \<Rightarrow> stream_builder" where
  "to_html_stream_out_of_order vs = finish (render_all True vs (new_builder (Some [0])))"

text \<open>What is sent when the stream is polled \<open>k\<close> times, if it ends.\<close>

fun collect_stream :: "nat \<Rightarrow> stream_builder \<Rightarrow> string list option" where
  "collect_stream 0 b = None"
| "collect_stream (Suc k) b =
    (case poll_next b of
       (Ready None, b') \<Rightarrow> Some []
     | (Ready (Some s), b') \<Rightarrow> map_option ((#) s) (collect_stream k b')
     | (Pending, b') \<Rightarrow> collect_stream k b')"

section \<open>Every stream ends\<close>

fun work :: "stream_chunk \<Rightarrow> nat" and ooo_work :: "ooo_chunk \<Rightarrow> nat" where
  "work (Sync s) = 2"
| "work (Async_Chunks d cs) = d + 2 + sum_list (map work cs)"
| "work (Out_Of_Order d c) = d + 2 + ooo_work c"
| "ooo_work (Ooo_Chunk i cs r n) = sum_list (map work cs)"

definition pending_work :: "stream_builder \<Rightarrow> nat" where
  "pending_work b = sum_list (map (\<lambda>(d, c). d + 1 + ooo_work c) (pending_ooo b))"

definition stream_work :: "stream_builder \<Rightarrow> nat" where
  "stream_work b =
     sum_list (map work (chunks b)) + pending_work b +
     (case pending b of None \<Rightarrow> 0 | Some (d, cs) \<Rightarrow> d + 1 + sum_list (map work cs)) +
     (if sync_buf b = [] then 0 else 1)"

lemma write_chunks_work:
  "sum_list (map work (snd (write_chunks cs x))) \<le> sum_list (map work (snd x)) + sum_list (map work cs)"
proof (induction cs arbitrary: x rule: rev_induct)
  case (snoc c cs)
  show ?case
    using snoc [of "case c of Sync ready \<Rightarrow> (fst x @ ready, snd x) | _ \<Rightarrow> (fst x, c # snd x)"]
    by (cases c) (simp_all add: write_chunks_def case_prod_unfold)
qed (simp add: write_chunks_def)

lemma fold_Cons: "fold (#) xs ys = rev xs @ ys"
  by (induction xs arbitrary: ys) simp_all

lemma ooo_ready_work:
  "sum_list (map work (chunks (ooo_ready c b))) \<le> sum_list (map work (chunks b)) + ooo_work c
   \<and> pending (ooo_ready c b) = pending b \<and> pending_ooo (ooo_ready c b) = pending_ooo b"
proof -
  obtain split lg where split: "split_around_placeholder (sync_buf b) (ooo_id c) = (split, lg)" by fastforce
  have c: "ooo_work c = sum_list (map work (ooo_chunks c))" by (cases c) simp
  show ?thesis
  proof (cases split)
    case None
    then show ?thesis
      using write_chunks_work [of "ooo_chunks c" "(sync_buf b @ push_start (ooo_id c), chunks b)"] split c
      by (simp add: ooo_ready_def Let_def case_prod_unfold)
  next
    case (Some p)
    then show ?thesis
      using write_chunks_work [of "ooo_chunks c" "(fst p, [])"] split c
      by (simp add: ooo_ready_def Let_def case_prod_unfold fold_Cons rev_map [symmetric])
  qed
qed

lemma poll_each_ooo_work:
  "sum_list (map work (chunks (fold poll_ooo futs b))) + pending_work (fold poll_ooo futs b) + length futs
     \<le> sum_list (map work (chunks b)) + pending_work b + sum_list (map (\<lambda>(d, c). d + 1 + ooo_work c) futs)
   \<and> pending (fold poll_ooo futs b) = pending b"
proof (induction futs arbitrary: b)
  case (Cons fut futs)
  obtain d c where fut: "fut = (d, c)" by fastforce
  show ?case
    using Cons [of "poll_ooo fut b"] ooo_ready_work [of c b]
    by (cases d) (auto simp: fut poll_ooo_def pending_work_def)
qed simp

lemma take_sync_work:
  "stream_work (take_sync cs b) \<le> stream_work (b\<lparr>chunks := cs\<rparr>)"
proof (induction cs b rule: take_sync.induct)
  case (4 s rest b)
  have "stream_work (b\<lparr>sync_buf := sync_buf b @ s, chunks := rest\<rparr>) \<le> stream_work (b\<lparr>chunks := Sync s # rest\<rparr>)"
    by (simp add: stream_work_def pending_work_def)
  then show ?case using 4 by simp
qed (simp_all add: stream_work_def pending_work_def)

lemma take_buf_work: "sync_buf b \<noteq> [] \<Longrightarrow> stream_work (snd (take_buf b)) < stream_work b"
  by (simp add: take_buf_def stream_work_def pending_work_def)

lemma poll_next_work:
  "fst (poll_next b) \<noteq> Ready None \<Longrightarrow> stream_work (snd (poll_next b)) < stream_work b"
proof (induction b rule: poll_next_induct)
  case (Waiting b d cs)
  then show ?case by (simp add: poll_next_simps stream_work_def pending_work_def)
next
  case (Arrived b cs)
  then have "stream_work (b\<lparr>pending := None, chunks := cs @ chunks b\<rparr>) < stream_work b"
    by (simp add: stream_work_def pending_work_def)
  then show ?case using Arrived by (simp add: poll_next_simps)
next
  case (Done b)
  then show ?case using take_buf_work [of b] by (auto simp: poll_next_simps split: if_splits)
next
  case (Only_Ooo b)
  let ?b = "poll_all_ooo b"
  have "0 < length (pending_ooo b)" using Only_Ooo by simp
  then have "sum_list (map work (chunks ?b)) + pending_work ?b < stream_work b \<and> pending ?b = None"
    using poll_each_ooo_work [of "pending_ooo b" "b\<lparr>pending_ooo := []\<rparr>"] Only_Ooo
    by (simp add: poll_all_ooo_def stream_work_def pending_work_def del: length_greater_0_conv)
  moreover from this have "stream_work (snd (poll_next b)) = sum_list (map work (chunks ?b)) + pending_work ?b"
    using Only_Ooo by (simp add: poll_next_simps Let_def take_buf_def stream_work_def pending_work_def)
  ultimately show ?case by simp
next
  case (Text b html rest)
  have "stream_work (b\<lparr>sync_buf := sync_buf b @ html, chunks := rest\<rparr>) < stream_work b"
    using Text(1,2) by (simp add: stream_work_def pending_work_def)
  then have "stream_work (take_sync rest (b\<lparr>sync_buf := sync_buf b @ html\<rparr>)) < stream_work b"
    using take_sync_work [of rest "b\<lparr>sync_buf := sync_buf b @ html\<rparr>"] by simp
  then show ?case using Text by (simp add: poll_next_simps)
next
  case (In_Order b d cs rest)
  let ?b = "b\<lparr>chunks := rest, pending := Some (d, cs)\<rparr>"
  have "stream_work ?b < stream_work b" using In_Order by (simp add: stream_work_def pending_work_def)
  then show ?case using In_Order take_buf_work [of ?b] by (cases "sync_buf b = []") (simp_all add: poll_next_simps)
next
  case (Ooo b d c rest)
  let ?b = "b\<lparr>chunks := rest, pending_ooo := pending_ooo b @ [(d, c)]\<rparr>"
  have "stream_work ?b < stream_work b" using Ooo by (simp add: stream_work_def pending_work_def)
  then show ?case using Ooo take_buf_work [of ?b] by (cases "sync_buf b = []") (simp_all add: poll_next_simps)
qed

lemma collect_stream_ends: "stream_work b < k \<Longrightarrow> \<exists>out. collect_stream k b = Some out"
proof (induction k arbitrary: b)
  case (Suc k)
  obtain r b' where poll: "poll_next b = (r, b')" by fastforce
  then have "r \<noteq> Ready None \<Longrightarrow> stream_work b' < k" using poll_next_work [of b] Suc.prems by simp
  then show ?case using Suc.IH [of b'] poll by (auto split: poll.splits option.splits)
qed simp

section \<open>In-order streams\<close>

text \<open>What the page shows in the end: every suspended view replaced by what it resolves to.\<close>

fun resolved :: "html_view \<Rightarrow> string" where
  "resolved (Html s) = s"
| "resolved (Suspense fallback d nonce children) = concat (map resolved children)"

fun in_order_chunk :: "stream_chunk \<Rightarrow> bool" where
  "in_order_chunk (Sync s) = True"
| "in_order_chunk (Async_Chunks d cs) = list_all in_order_chunk cs"
| "in_order_chunk (Out_Of_Order d c) = False"

fun text_of :: "stream_chunk \<Rightarrow> string" where
  "text_of (Sync s) = s"
| "text_of (Async_Chunks d cs) = concat (map text_of cs)"
| "text_of (Out_Of_Order d c) = []"

definition stream_text :: "stream_builder \<Rightarrow> string" where
  "stream_text b = sync_buf b
     @ (case pending b of None \<Rightarrow> [] | Some (d, cs) \<Rightarrow> concat (map text_of cs)) @ concat (map text_of (chunks b))"

definition in_order_stream :: "stream_builder \<Rightarrow> bool" where
  "in_order_stream b \<longleftrightarrow> list_all in_order_chunk (chunks b) \<and> pending_ooo b = []
     \<and> (case pending b of None \<Rightarrow> True | Some (d, cs) \<Rightarrow> list_all in_order_chunk cs)"

lemmas stream_defs = stream_text_def in_order_stream_def

lemma take_sync_in_order:
  "list_all in_order_chunk cs \<Longrightarrow> pending b = None \<Longrightarrow> pending_ooo b = [] \<Longrightarrow>
     in_order_stream (take_sync cs b) \<and> stream_text (take_sync cs b) = sync_buf b @ concat (map text_of cs)"
  by (induction cs b rule: take_sync.induct) (auto simp: stream_defs)

definition sent :: "poll \<Rightarrow> string" where
  "sent r = (case r of Ready (Some s) \<Rightarrow> s | _ \<Rightarrow> [])"

lemma poll_in_order:
  "in_order_stream b \<Longrightarrow> sent (fst (poll_next b)) @ stream_text (snd (poll_next b)) = stream_text b
     \<and> in_order_stream (snd (poll_next b)) \<and> (fst (poll_next b) = Ready None \<longrightarrow> stream_text b = [])"
proof (induction b rule: poll_next_induct)
  case (Text b html rest)
  let ?b = "take_sync rest (b\<lparr>sync_buf := sync_buf b @ html\<rparr>)"
  have "in_order_stream ?b \<and> stream_text ?b = stream_text b"
    using take_sync_in_order [of rest "b\<lparr>sync_buf := sync_buf b @ html\<rparr>"] Text(1,2,4) by (simp add: stream_defs)
  then show ?case using Text(3) Text(1,2) by (simp add: poll_next_simps)
next
  case (In_Order b d cs rest)
  let ?b = "b\<lparr>chunks := rest, pending := Some (d, cs)\<rparr>"
  have "in_order_stream ?b \<and> stream_text ?b = stream_text b" using In_Order(1,2,4) by (simp add: stream_defs)
  then show ?case
    using In_Order by (cases "sync_buf b = []") (simp_all add: poll_next_simps take_buf_def sent_def stream_defs)
next
  case (Arrived b cs)
  let ?b = "b\<lparr>pending := None, chunks := cs @ chunks b\<rparr>"
  have "in_order_stream ?b \<and> stream_text ?b = stream_text b" using Arrived(1,3) by (simp add: stream_defs)
  then show ?case using Arrived by (simp add: poll_next_simps)
qed (simp_all add: poll_next_simps take_buf_def sent_def stream_defs)

lemma collect_in_order:
  "collect_stream k b = Some out \<Longrightarrow> in_order_stream b \<Longrightarrow> concat out = stream_text b"
proof (induction k arbitrary: b out)
  case (Suc k)
  obtain r b' where poll: "poll_next b = (r, b')" by fastforce
  then show ?case using Suc poll_in_order [of b] by (auto simp: sent_def split: poll.splits option.splits)
qed simp

definition builder_text :: "stream_builder \<Rightarrow> string" where
  "builder_text b = concat (map text_of (chunks b)) @ sync_buf b"

lemma flush_sync_text:
  "in_order_stream (flush_sync b) = in_order_stream b \<and> pending (flush_sync b) = pending b
   \<and> concat (map text_of (chunks (flush_sync b))) = builder_text b \<and> sync_buf (flush_sync b) = []"
  by (auto simp: flush_sync_def builder_text_def in_order_stream_def)

lemma next_id_fields [simp]:
  "sync_buf (next_id b) = sync_buf b" "chunks (next_id b) = chunks b" "pending (next_id b) = pending b"
  "pending_ooo (next_id b) = pending_ooo b"
  by (simp_all add: next_id_def report_once_def Let_def split: option.split)

lemma finish_text:
  assumes "in_order_stream b" and "pending b = None"
  shows "in_order_stream (finish b) \<and> pending (finish b) = None \<and> sync_buf (finish b) = []
    \<and> concat (map text_of (chunks (finish b))) = builder_text b"
proof (cases "chunks b" rule: rev_cases)
  case (snoc cs c)
  then show ?thesis using assms by (cases c) (auto simp: finish_def builder_text_def in_order_stream_def)
qed (use assms in \<open>simp add: finish_def builder_text_def in_order_stream_def\<close>)

lemma take_chunks_text:
  assumes "in_order_stream b" and "pending b = None"
  shows "list_all in_order_chunk (take_chunks (finish b)) \<and> concat (map text_of (take_chunks (finish b))) = builder_text b"
  using finish_text [OF assms] by (simp add: take_chunks_def flush_sync_def in_order_stream_def)

lemma render_in_order:
  "in_order_stream b \<Longrightarrow> pending b = None \<Longrightarrow> in_order_stream (render False v b) \<and> pending (render False v b) = None
     \<and> builder_text (render False v b) = builder_text b @ resolved v"
  "in_order_stream b \<Longrightarrow> pending b = None \<Longrightarrow> in_order_stream (render_all False vs b) \<and> pending (render_all False vs b) = None
     \<and> builder_text (render_all False vs b) = builder_text b @ concat (map resolved vs)"
proof (induction False v b and False vs b rule: render_render_all.induct)
  case (3 fallback d nonce children b)
  let ?sub = "render_all False children (new_builder (chunk_id (next_id b)))"
  have "in_order_stream ?sub" "pending ?sub = None" "builder_text ?sub = concat (map resolved children)"
    using 3(2) by (simp_all add: new_builder_def in_order_stream_def builder_text_def)
  then have "list_all in_order_chunk (take_chunks (finish ?sub))"
      "concat (map text_of (take_chunks (finish ?sub))) = concat (map resolved children)"
    using take_chunks_text by auto
  then show ?case
    using flush_sync_text [of "next_id b"] 3(3,4)
    by (simp add: push_async_def Let_def builder_text_def in_order_stream_def)
qed (simp_all add: push_sync_def in_order_stream_def builder_text_def)

text \<open>
  C39. Every stream ends: when each future in it is ready after some number of polls, polling the
  stream often enough reaches its end, whatever is nested in what, in order or out of order.
\<close>

theorem every_stream_ends:
  assumes "stream_work b < k"
  shows "\<exists>out. collect_stream k b = Some out"
  using collect_stream_ends [OF assms] .

theorem every_stream_ends_witness:
  "\<exists>out. collect_stream 20 ((new_builder None)\<lparr>chunks := [Sync ''a'', Async_Chunks 3 [Sync ''b''],
     Out_Of_Order 2 (Ooo_Chunk ''1-'' [Sync ''c'', Async_Chunks 1 []] True None)]\<rparr>) = Some out"
  by (rule every_stream_ends) (simp add: stream_work_def pending_work_def new_builder_def)

text \<open>
  C14. The in-order stream of a page ends, and what it sends is the page with every suspended view
  replaced by what it resolves to, in the order of the page.
\<close>

theorem in_order_stream_correct:
  assumes "stream_work (to_html_stream_in_order vs) < k"
  shows "\<exists>out. collect_stream k (to_html_stream_in_order vs) = Some out \<and> concat out = concat (map resolved vs)"
proof -
  obtain out where out: "collect_stream k (to_html_stream_in_order vs) = Some out"
    using collect_stream_ends [OF assms] by blast
  let ?b = "render_all False vs (new_builder None)"
  have b: "in_order_stream ?b" "pending ?b = None" "builder_text ?b = concat (map resolved vs)"
    using render_in_order(2) [of "new_builder None" vs]
    by (simp_all add: new_builder_def in_order_stream_def builder_text_def)
  then have "in_order_stream (finish ?b)" "stream_text (finish ?b) = concat (map resolved vs)"
    using finish_text [OF b(1,2)] by (simp_all add: stream_text_def)
  then show ?thesis using out collect_in_order [OF out] by (simp add: to_html_stream_in_order_def)
qed

theorem in_order_stream_correct_witness:
  "\<exists>out. collect_stream 40 (to_html_stream_in_order
     [Html ''<p>'', Suspense ''wait'' 3 None [Html ''b'', Suspense ''more'' 2 None [Html ''c''], Html ''d''], Html ''</p>'']) = Some out
     \<and> concat out = ''<p>bcd</p>''"
  using in_order_stream_correct [of "[Html ''<p>'', Suspense ''wait'' 3 None [Html ''b'', Suspense ''more'' 2 None [Html ''c''],
    Html ''d''], Html ''</p>'']" 40]
  by (simp add: to_html_stream_in_order_def numeral_nat push_async_def take_chunks_def flush_sync_def finish_def
      push_sync_def new_builder_def next_id_def stream_work_def pending_work_def)

end
