(* ===== verification/Html_Markers.thy ===== *)
theory Html_Markers
  imports Html_Stream
begin

text \<open>
  The markers around the fallback of an out-of-order chunk can be found in the text: ids are
  written without ambiguity, and text that holds no part of a marker is skipped by the search.
\<close>

section \<open>Ids\<close>

lemma of_char_digit [simp]: "n < 10 \<Longrightarrow> of_char (digit n) = 48 + n"
  by (simp add: digit_def)

lemma digit_inj: "m < 10 \<Longrightarrow> n < 10 \<Longrightarrow> digit m = digit n \<longleftrightarrow> m = n"
  by (metis of_char_digit add_left_cancel)

definition read_decimal :: "string \<Rightarrow> nat" where
  "read_decimal s = foldl (\<lambda>n c. 10 * n + (of_char c - 48)) 0 s"

lemma read_decimal_decimal: "read_decimal (decimal n) = n"
proof (induction n rule: decimal.induct)
  case (1 n)
  show ?case
  proof (cases "n < 10")
    case False
    then show ?thesis using 1 by (subst decimal.simps) (simp add: read_decimal_def)
  qed (simp add: decimal.simps [of n] read_decimal_def)
qed

lemma decimal_inj: "decimal m = decimal n \<longleftrightarrow> m = n"
  by (metis read_decimal_decimal)

definition is_digit :: "char \<Rightarrow> bool" where
  "is_digit c \<longleftrightarrow> (48 :: nat) \<le> of_char c \<and> of_char c < (58 :: nat)"

lemma decimal_digits: "c \<in> set (decimal n) \<Longrightarrow> is_digit c"
proof (induction n rule: decimal.induct)
  case (1 n)
  then show ?case by (cases "n < 10") (auto simp: decimal.simps [of n] is_digit_def)
qed

lemma not_is_digit [simp]: "\<not> is_digit CHR ''-''" "\<not> is_digit CHR ''<''" "\<not> is_digit CHR ''o''" "\<not> is_digit CHR ''c''"
  by (simp_all add: is_digit_def)

lemma push_chunk_id_chars: "c \<in> set (push_chunk_id ids) \<Longrightarrow> is_digit c \<or> c = CHR ''-''"
  using decimal_digits by (induction ids) (auto simp: push_chunk_id_def)

lemma push_chunk_id_Cons: "push_chunk_id (n # ids) = decimal n @ CHR ''-'' # push_chunk_id ids"
  by (simp add: push_chunk_id_def)

lemma dash_split:
  "CHR ''-'' \<notin> set a \<Longrightarrow> CHR ''-'' \<notin> set b \<Longrightarrow> a @ CHR ''-'' # s = b @ CHR ''-'' # t \<longleftrightarrow> a = b \<and> s = t"
proof (induction a arbitrary: b)
  case (Cons c a)
  then show ?case by (cases b) auto
next
  case Nil
  then show ?case by (cases b) auto
qed

lemma push_chunk_id_inj: "push_chunk_id a = push_chunk_id b \<longleftrightarrow> a = b"
proof (induction a arbitrary: b)
  case Nil
  show ?case by (cases b) (simp_all add: push_chunk_id_def)
next
  case (Cons n a)
  have "CHR ''-'' \<notin> set (decimal m)" for m using decimal_digits not_is_digit(1) by blast
  then show ?case using Cons by (cases b) (simp_all add: push_chunk_id_Cons dash_split decimal_inj, simp add: push_chunk_id_def)
qed

section \<open>Text that holds no part of a marker\<close>

text \<open>At no place of the text does a marker start, not even one that is cut off by its end.\<close>

fun clean :: "string \<Rightarrow> bool" where
  "clean [] = True"
| "clean (c # s) = (\<not> prefix (c # s) ''<!--s-'' \<and> \<not> prefix ''<!--s-'' (c # s) \<and> clean s)"

declare clean.simps(2) [simp del]

lemma not_prefix_append:
  assumes "\<not> prefix s m" and "\<not> prefix m s"
  shows "\<not> prefix (s @ t) m" "\<not> prefix m (s @ t)"
  using assms by (auto simp: prefix_append elim: prefix_same_cases append_prefixD intro: prefix_order.trans dest: append_prefixD)

lemma clean_append: "clean s \<Longrightarrow> clean t \<Longrightarrow> clean (s @ t)"
proof (induction s)
  case (Cons c s)
  then show ?case using not_prefix_append [of "c # s" "''<!--s-''" t] by (simp add: clean.simps(2))
qed simp

lemma clean_no_lt: "CHR ''<'' \<notin> set s \<Longrightarrow> clean s"
  by (induction s) (auto simp: clean.simps(2))

lemma clean_concat: "list_all clean ss \<Longrightarrow> clean (concat ss)"
  by (induction ss) (simp_all add: clean_append)

definition skips :: "string \<Rightarrow> string \<Rightarrow> bool" where
  "skips p t \<longleftrightarrow> (\<forall>s. split_once p (t @ s) = map_option (apfst ((@) t)) (split_once p s))"

lemma apfst_append_comp: "apfst ((@) s) (apfst ((@) t) x) = apfst ((@) (s @ t)) x"
  by (cases x) simp

lemma skips_Nil [simp]: "skips p []"
  by (simp add: skips_def option.map_ident_strong apfst_def map_prod_def case_prod_unfold)

lemma skips_append: "skips p s \<Longrightarrow> skips p t \<Longrightarrow> skips p (s @ t)"
  by (simp add: skips_def option.map_comp comp_def apfst_append_comp)

lemma skips_Cons:
  assumes "\<And>u. \<not> prefix p (c # t @ u)" and "skips p t"
  shows "skips p (c # t)"
  unfolding skips_def
proof
  fix s
  have "strip_prefix p (c # t @ s) = None" using assms(1) [of s] by (simp add: strip_prefix_def)
  then show "split_once p ((c # t) @ s) = map_option (apfst ((@) (c # t))) (split_once p s)"
    using assms(2) by (simp add: skips_def option.map_comp comp_def apfst_def map_prod_def case_prod_unfold)
qed

lemma clean_skips: "prefix ''<!--s-'' p \<Longrightarrow> clean t \<Longrightarrow> skips p t"
proof (induction t)
  case (Cons c t)
  have "\<not> prefix p (c # t @ u)" for u
    using not_prefix_append(2) [of "c # t" "''<!--s-''" u] Cons.prems prefix_order.trans [of "''<!--s-''" p "c # t @ u"]
    unfolding clean.simps(2) append_Cons by blast
  then show ?case using Cons by (intro skips_Cons) (simp_all add: clean.simps(2))
qed simp

section \<open>Markers\<close>

definition marker :: "nat list \<Rightarrow> char \<Rightarrow> string" where
  "marker i x = ''<!--s-'' @ push_chunk_id i @ x # ''-->''"

lemma opening_marker_eq: "opening_marker (push_chunk_id i) = marker i CHR ''o''"
  by (simp add: marker_def opening_marker_def)

lemma closing_marker_eq: "closing_marker (push_chunk_id i) = marker i CHR ''c''"
  by (simp add: marker_def closing_marker_def)

lemma prefix_marker [simp]: "prefix ''<!--s-'' (marker i x)"
  by (simp add: marker_def)

lemma id_end_unique:
  assumes "\<forall>c \<in> set a. P c" and "\<forall>c \<in> set b. P c" and "\<not> P x" and "\<not> P y" and "a @ x # s = b @ y # t"
  shows "a = b \<and> x = y"
  using assms
proof (induction a arbitrary: b)
  case (Cons c a)
  then show ?case by (cases b) auto
next
  case Nil
  then show ?case by (cases b) auto
qed

lemma marker_unique:
  assumes "prefix (marker i x) (marker j y @ s)" and "x \<in> {CHR ''o'', CHR ''c''}" and "y \<in> {CHR ''o'', CHR ''c''}"
  shows "i = j \<and> x = y"
proof -
  let ?P = "\<lambda>c. is_digit c \<or> c = CHR ''-''"
  obtain u where "push_chunk_id j @ y # ''-->'' @ s = push_chunk_id i @ x # ''-->'' @ u"
    using assms(1) by (auto simp: marker_def prefix_def)
  then have "push_chunk_id j = push_chunk_id i \<and> y = x"
    using assms(2,3) push_chunk_id_chars
    by (intro id_end_unique [where P = ?P and s = "''-->'' @ s" and t = "''-->'' @ u"]) auto
  then show ?thesis by (simp add: push_chunk_id_inj)
qed

lemma marker_skips:
  assumes "i \<noteq> j \<or> x \<noteq> y" and "x \<in> {CHR ''o'', CHR ''c''}" and "y \<in> {CHR ''o'', CHR ''c''}"
  shows "skips (marker i x) (marker j y)"
proof -
  have "CHR ''<'' \<notin> set (tl (marker j y))"
    using assms(3) push_chunk_id_chars not_is_digit(2) by (fastforce simp: marker_def)
  then have "skips (marker i x) (tl (marker j y))" by (intro clean_skips clean_no_lt) simp_all
  moreover have "\<not> prefix (marker i x) (marker j y @ u)" for u using marker_unique [OF _ assms(2,3)] assms(1) by blast
  ultimately have "skips (marker i x) (hd (marker j y) # tl (marker j y))"
    by (intro skips_Cons) (simp_all add: marker_def)
  then show ?thesis by (simp add: marker_def)
qed

lemma split_once_found: "p \<noteq> [] \<Longrightarrow> skips p a \<Longrightarrow> split_once p (a @ p @ s) = Some (a, s)"
  by (cases p) (simp_all add: skips_def strip_prefix_def)

lemma split_once_none: "p \<noteq> [] \<Longrightarrow> skips p a \<Longrightarrow> split_once p a = None"
  by (metis append_Nil2 option.simps(8) skips_def split_once.simps(1))

lemma split_around_found:
  assumes "skips (marker i CHR ''o'') before" and "clean fallback"
  shows "split_around_placeholder (before @ marker i CHR ''o'' @ fallback @ marker i CHR ''c'' @ after) (push_chunk_id i)
    = (Some (before, after), [])"
proof -
  have "skips (marker i CHR ''c'') fallback" using assms(2) by (intro clean_skips) simp_all
  then show ?thesis
    using split_once_found [OF _ assms(1), of "fallback @ marker i CHR ''c'' @ after"]
      split_once_found [of "marker i CHR ''c''" fallback after]
    by (simp add: split_around_placeholder_def opening_marker_eq closing_marker_eq marker_def)
qed

lemma split_around_none:
  assumes "skips (marker i CHR ''o'') buf"
  shows "split_around_placeholder buf (push_chunk_id i) = (None, [])"
  using split_once_none [OF _ assms] by (simp add: split_around_placeholder_def opening_marker_eq marker_def)

end
