(* ===== verification/Html_Page.thy ===== *)
theory Html_Page
  imports Html_Markers
begin

text \<open>
  What the browser makes of an out-of-order stream. The stream is read as pieces: text, fallbacks
  between their markers, and templates with the script that puts their content in the place of a
  fallback. The page that results is the page with every suspended view resolved.
\<close>

section \<open>Pieces of the stream\<close>

datatype piece = Txt string | Slot "nat list" string | Templ "nat list" "piece list" "string option"

fun show_piece :: "piece \<Rightarrow> string" where
  "show_piece (Txt t) = t"
| "show_piece (Slot i fallback) = marker i CHR ''o'' @ fallback @ marker i CHR ''c''"
| "show_piece (Templ i ps nonce) =
    push_start (push_chunk_id i) @ concat (map show_piece ps) @ push_end_with_nonce True (push_chunk_id i) nonce"

abbreviation show_pieces :: "piece list \<Rightarrow> string" where
  "show_pieces ps \<equiv> concat (map show_piece ps)"

definition clean_nonce :: "string option \<Rightarrow> bool" where
  "clean_nonce nonce = (case nonce of None \<Rightarrow> True | Some n \<Rightarrow> CHR ''<'' \<notin> set n)"

fun flat_piece :: "piece \<Rightarrow> bool" where
  "flat_piece (Txt t) = clean t"
| "flat_piece (Slot i fallback) = clean fallback"
| "flat_piece (Templ i ps nonce) = False"

fun ok_piece :: "piece \<Rightarrow> bool" where
  "ok_piece (Templ i ps nonce) = (list_all flat_piece ps \<and> clean_nonce nonce)"
| "ok_piece p = flat_piece p"

fun slots :: "piece \<Rightarrow> nat list list" where
  "slots (Txt t) = []"
| "slots (Slot i fallback) = [i]"
| "slots (Templ i ps nonce) = concat (map slots ps)"

abbreviation all_slots :: "piece list \<Rightarrow> nat list list" where
  "all_slots ps \<equiv> concat (map slots ps)"

fun templ_id :: "piece \<Rightarrow> nat list set" where
  "templ_id (Templ i ps nonce) = {i}"
| "templ_id p = {}"

definition templ_ids :: "piece list \<Rightarrow> nat list set" where
  "templ_ids ps = (\<Union>p \<in> set ps. templ_id p)"

fun fill :: "nat list \<Rightarrow> piece list \<Rightarrow> piece \<Rightarrow> piece list" where
  "fill i qs (Txt t) = [Txt t]"
| "fill i qs (Slot j fallback) = (if j = i then qs else [Slot j fallback])"
| "fill i qs (Templ j ps nonce) = [Templ j (concat (map (fill i qs) ps)) nonce]"

abbreviation fill_all :: "nat list \<Rightarrow> piece list \<Rightarrow> piece list \<Rightarrow> piece list" where
  "fill_all i qs ps \<equiv> concat (map (fill i qs) ps)"

text \<open>
  The browser: text is added to the page; the script after a template puts the template's content
  in the place of the markers with its id and of what is between them.
\<close>

fun receive :: "piece list \<Rightarrow> piece \<Rightarrow> piece list" where
  "receive page (Templ i ps nonce) = fill_all i ps page"
| "receive page p = page @ [p]"

definition page :: "piece list \<Rightarrow> piece list" where
  "page ps = foldl receive [] ps"

lemma page_simps [simp]: "page [] = []" "page (ps @ [p]) = receive (page ps) p"
  by (simp_all add: page_def)

section \<open>Finding a slot in the text\<close>

lemma flat_ok: "flat_piece p \<Longrightarrow> ok_piece p"
  by (cases p) simp_all

lemma list_all_flat_ok: "list_all flat_piece ps \<Longrightarrow> list_all ok_piece ps"
  by (auto simp: list_all_iff flat_ok)

lemma push_start_clean: "clean (push_start (push_chunk_id i))"
proof -
  have "CHR ''<'' \<notin> set (push_chunk_id i)" using push_chunk_id_chars not_is_digit(2) by blast
  then have "clean (push_chunk_id i @ ''f\">'')" by (intro clean_no_lt) simp
  moreover have "clean ''<template id=\"''" by (simp add: clean.simps(2))
  ultimately show ?thesis using clean_append by (fastforce simp: push_start_def)
qed

lemma script_tag_clean:
  assumes "clean_nonce nonce"
  shows "clean (script_tag nonce)"
proof (cases nonce)
  case (Some n)
  have "clean ''<script nonce=\"''" by (simp add: clean.simps(2))
  moreover have "clean (n @ ''\">(function() { let id = \"'')"
    using assms Some by (intro clean_no_lt) (simp add: clean_nonce_def)
  ultimately show ?thesis unfolding script_tag_def Some option.case by (rule clean_append)
qed (simp add: script_tag_def clean.simps(2))

lemma push_end_clean:
  assumes "clean_nonce nonce"
  shows "clean (push_end_with_nonce True (push_chunk_id i) nonce)"
proof -
  have "CHR ''<'' \<notin> set (push_chunk_id i)" using push_chunk_id_chars not_is_digit(2) by blast
  then have body: "clean (push_chunk_id i @ find_markers @ replace_fallback)"
    by (intro clean_no_lt) (simp add: find_markers_def replace_fallback_def)
  have ends: "clean ''</template>''" "clean ''})()</script>''" by (simp_all add: clean.simps(2))
  show ?thesis
    using clean_append [OF ends(1) clean_append [OF script_tag_clean [OF assms] clean_append [OF body ends(2)]]]
    by (simp add: push_end_with_nonce_def)
qed

lemma flat_skips:
  assumes "flat_piece p" and "i \<notin> set (slots p)"
  shows "skips (marker i CHR ''o'') (show_piece p)"
proof (cases p)
  case (Slot j fallback)
  then show ?thesis
    using assms clean_skips [OF prefix_marker, of fallback i] marker_skips [of i j] by (simp add: skips_append)
qed (use assms clean_skips [OF prefix_marker] in simp_all)

lemma concat_skips: "(\<And>p. p \<in> set ps \<Longrightarrow> skips m (f p)) \<Longrightarrow> skips m (concat (map f ps))"
  by (induction ps) (simp_all add: skips_append)

lemma piece_skips:
  assumes "ok_piece p" and "i \<notin> set (slots p)"
  shows "skips (marker i CHR ''o'') (show_piece p)"
proof (cases p)
  case (Templ j ps nonce)
  have "skips (marker i CHR ''o'') (show_pieces ps)"
    using assms Templ by (intro concat_skips flat_skips) (auto simp: list_all_iff)
  moreover have "skips (marker i CHR ''o'') (push_end_with_nonce True (push_chunk_id j) nonce)"
    using push_end_clean assms(1) Templ by (intro clean_skips) simp_all
  ultimately show ?thesis using Templ clean_skips [OF _ push_start_clean] by (simp add: skips_append)
qed (use assms flat_skips [of p i] in simp_all)

lemma pieces_skip:
  "list_all ok_piece ps \<Longrightarrow> i \<notin> set (all_slots ps) \<Longrightarrow> skips (marker i CHR ''o'') (show_pieces ps)"
  by (rule concat_skips, rule piece_skips) (auto simp: list_all_iff)

lemma fill_absent: "i \<notin> set (slots p) \<Longrightarrow> fill i qs p = [p]"
proof (induction p)
  case (Templ j ps nonce)
  then have "\<forall>p \<in> set ps. fill i qs p = [p]" by auto
  then have "fill_all i qs ps = ps" by (induction ps) simp_all
  then show ?case by simp
qed auto

lemma fill_all_absent: "i \<notin> set (all_slots ps) \<Longrightarrow> fill_all i qs ps = ps"
  by (induction ps) (simp_all add: fill_absent)

text \<open>Where the slot \<open>i\<close> is in a text, with what is before it and after it.\<close>

definition found :: "nat list \<Rightarrow> string \<Rightarrow> (piece list \<Rightarrow> string) \<Rightarrow> bool" where
  "found i s filled \<longleftrightarrow> (\<exists>before fallback after.
     s = before @ marker i CHR ''o'' @ fallback @ marker i CHR ''c'' @ after \<and> clean fallback
     \<and> skips (marker i CHR ''o'') before \<and> (\<forall>qs. filled qs = before @ show_pieces qs @ after))"

lemma found_between:
  assumes "found i s filled" and "skips (marker i CHR ''o'') a"
  shows "found i (a @ s @ z) (\<lambda>qs. a @ filled qs @ z)"
proof -
  obtain before fallback after where s: "s = before @ marker i CHR ''o'' @ fallback @ marker i CHR ''c'' @ after"
      "clean fallback" "skips (marker i CHR ''o'') before" "\<forall>qs. filled qs = before @ show_pieces qs @ after"
    using assms(1) by (auto simp: found_def)
  show ?thesis
    unfolding found_def
    by (rule exI [of _ "a @ before"], rule exI [of _ fallback], rule exI [of _ "after @ z"])
      (use s assms(2) in \<open>simp add: skips_append\<close>)
qed

lemma found_in_list:
  assumes "\<And>p. p \<in> set ps \<Longrightarrow> i \<in> set (slots p) \<Longrightarrow> found i (show_piece p) (\<lambda>qs. show_pieces (fill i qs p))"
    and "list_all ok_piece ps" and "distinct (all_slots ps)" and "i \<in> set (all_slots ps)"
  shows "found i (show_pieces ps) (\<lambda>qs. show_pieces (fill_all i qs ps))"
proof -
  obtain as p zs where ps: "ps = as @ p # zs" "i \<in> set (slots p)"
    using assms(4) by (auto simp: in_set_conv_decomp [of _ ps] dest: split_list)
  then have absent: "i \<notin> set (all_slots as)" "i \<notin> set (all_slots zs)" using assms(3) by auto
  have "found i (show_piece p) (\<lambda>qs. show_pieces (fill i qs p))" using assms(1) ps by simp
  moreover have "skips (marker i CHR ''o'') (show_pieces as)" using pieces_skip absent(1) assms(2) ps by simp
  ultimately have "found i (show_pieces as @ show_piece p @ show_pieces zs)
      (\<lambda>qs. show_pieces as @ show_pieces (fill i qs p) @ show_pieces zs)"
    by (rule found_between)
  then show ?thesis using ps fill_all_absent absent by simp
qed

lemma found_flat:
  assumes "flat_piece p" and "i \<in> set (slots p)"
  shows "found i (show_piece p) (\<lambda>qs. show_pieces (fill i qs p))"
  using assms by (cases p) (auto simp: found_def intro: exI [of _ "[]"])

lemma found_piece:
  assumes "ok_piece p" and "i \<in> set (slots p)" and "distinct (slots p)"
  shows "found i (show_piece p) (\<lambda>qs. show_pieces (fill i qs p))"
proof (cases p)
  case (Templ j ps nonce)
  have "found i (show_pieces ps) (\<lambda>qs. show_pieces (fill_all i qs ps))"
    using assms Templ by (intro found_in_list) (auto simp: list_all_iff flat_ok intro: found_flat)
  then show ?thesis
    using found_between [OF _ clean_skips [OF prefix_marker push_start_clean],
        where z = "push_end_with_nonce True (push_chunk_id j) nonce"] Templ by simp
qed (use assms found_flat [of p i] in simp_all)

lemma found_pieces:
  assumes "list_all ok_piece ps" and "distinct (all_slots ps)" and "i \<in> set (all_slots ps)"
  shows "found i (show_pieces ps) (\<lambda>qs. show_pieces (fill_all i qs ps))"
proof (rule found_in_list [OF _ assms])
  fix p assume "p \<in> set ps" "i \<in> set (slots p)"
  moreover have "distinct (slots p)" using assms(2) \<open>p \<in> set ps\<close> by (auto dest!: split_list)
  ultimately show "found i (show_piece p) (\<lambda>qs. show_pieces (fill i qs p))"
    using assms(1) by (intro found_piece) (auto simp: list_all_iff)
qed

end
