(* ===== verification/Html_Out_Of_Order.thy ===== *)
theory Html_Out_Of_Order
  imports Html_Page "HOL-Library.Multiset"
begin

text \<open>
  The out-of-order stream of a page: what rendering leaves in the stream, what a poll of the stream
  does to the pieces, and that the browser ends up with the page in which every suspended view is
  resolved.
\<close>

section \<open>What rendering leaves in the stream\<close>

text \<open>How many ids the views use in the stream that they are rendered into.\<close>

fun blocks :: "html_view list \<Rightarrow> nat" where
  "blocks [] = 0"
| "blocks (Html s # vs) = blocks vs"
| "blocks (Suspense fallback 0 nonce ws # vs) = Suc (blocks ws + blocks vs)"
| "blocks (Suspense fallback (Suc d) nonce ws # vs) = Suc (blocks vs)"

fun view_pieces :: "nat list \<Rightarrow> nat \<Rightarrow> html_view list \<Rightarrow> piece list" where
  "view_pieces pre k [] = []"
| "view_pieces pre k (Html s # vs) = Txt s # view_pieces pre k vs"
| "view_pieces pre k (Suspense fallback 0 nonce ws # vs) = view_pieces pre (Suc k) ws @ view_pieces pre (Suc k + blocks ws) vs"
| "view_pieces pre k (Suspense fallback (Suc d) nonce ws # vs) = Slot (pre @ [Suc k]) fallback # view_pieces pre (Suc k) vs"

type_synonym wait = "nat list \<times> nat \<times> string option \<times> html_view list"

fun waits :: "nat list \<Rightarrow> nat \<Rightarrow> html_view list \<Rightarrow> wait list" where
  "waits pre k [] = []"
| "waits pre k (Html s # vs) = waits pre k vs"
| "waits pre k (Suspense fallback 0 nonce ws # vs) = waits pre (Suc k) ws @ waits pre (Suc k + blocks ws) vs"
| "waits pre k (Suspense fallback (Suc d) nonce ws # vs) = (pre @ [Suc k], d, nonce, ws) # waits pre (Suc k) vs"

text \<open>No stream runs out of ids, and no text holds a part of a marker.\<close>

fun fitting :: "html_view \<Rightarrow> bool" where
  "fitting (Html s) = clean s"
| "fitting (Suspense fallback d nonce ws) =
    (clean fallback \<and> clean_nonce nonce \<and> blocks ws \<le> 65535 \<and> list_all fitting ws)"

definition ooo_body :: "nat list \<Rightarrow> html_view list \<Rightarrow> stream_chunk list" where
  "ooo_body i ws = take_chunks (finish (render_all True ws (new_builder (Some (i @ [0])))))"

fun future_of :: "wait \<Rightarrow> nat \<times> ooo_chunk" where
  "future_of (i, d, nonce, ws) = (d, Ooo_Chunk (push_chunk_id i) (ooo_body i ws) True nonce)"

definition chunk_of :: "wait \<Rightarrow> stream_chunk" where
  "chunk_of w = Out_Of_Order (fst (future_of w)) (snd (future_of w))"

definition text_chunk :: "string \<Rightarrow> stream_chunk list" where
  "text_chunk s = (if s = [] then [] else [Sync s])"

definition rendered_views :: "nat list \<Rightarrow> nat \<Rightarrow> html_view list \<Rightarrow> stream_builder \<Rightarrow> stream_builder" where
  "rendered_views pre k vs b = b\<lparr>sync_buf := sync_buf b @ show_pieces (view_pieces pre k vs),
     chunks := chunks b @ map chunk_of (waits pre k vs), chunk_id := Some (pre @ [k + blocks vs])\<rparr>"

lemma blocks_Cons: "blocks (v # vs) = blocks [v] + blocks vs"
  by (cases "[v]" rule: blocks.cases) simp_all

lemma pieces_Cons: "view_pieces pre k (v # vs) = view_pieces pre k [v] @ view_pieces pre (k + blocks [v]) vs"
  by (cases "[v]" rule: blocks.cases) simp_all

lemma waits_Cons: "waits pre k (v # vs) = waits pre k [v] @ waits pre (k + blocks [v]) vs"
  by (cases "[v]" rule: blocks.cases) simp_all

lemma rendered_Cons: "rendered_views pre (k + blocks [v]) vs (rendered_views pre k [v] b) = rendered_views pre k (v # vs) b"
  by (simp add: rendered_views_def pieces_Cons [of pre k v vs] waits_Cons [of pre k v vs] blocks_Cons [of v vs])

lemma next_id_fits:
  "chunk_id b = Some (pre @ [k]) \<Longrightarrow> k < 65535 \<Longrightarrow> next_id b = b\<lparr>chunk_id := Some (pre @ [Suc k])\<rparr>"
  by (simp add: next_id_def next_piece_def arith_defs)

lemma push_fallback_at:
  "chunk_id b = Some i \<Longrightarrow> push_fallback fallback b = push_sync (show_piece (Slot i fallback)) b"
  by (simp add: push_fallback_def write_chunk_marker_def push_sync_def opening_marker_eq closing_marker_eq)

lemma finished_chunks:
  "take_chunks (finish (b\<lparr>sync_buf := s, chunks := map chunk_of ws\<rparr>)) = map chunk_of ws @ text_chunk s"
proof (cases ws rule: rev_cases)
  case (snoc ws' w)
  then show ?thesis by (simp add: finish_def take_chunks_def flush_sync_def text_chunk_def chunk_of_def)
qed (simp add: finish_def take_chunks_def flush_sync_def text_chunk_def)

lemma awaited_chunks:
  "concat (map snd (map awaited (map chunk_of ws @ text_chunk s))) = map chunk_of ws @ text_chunk s
   \<and> sum_list (map fst (map awaited (map chunk_of ws @ text_chunk s))) = 0"
  by (induction ws) (simp_all add: text_chunk_def chunk_of_def)

lemma rendered_new:
  "take_chunks (finish (rendered_views pre k vs (new_builder i))) = map chunk_of (waits pre k vs) @ text_chunk (show_pieces (view_pieces pre k vs))"
  using finished_chunks [where b = "(new_builder i)\<lparr>chunk_id := Some (pre @ [k + blocks vs])\<rparr>"]
  by (simp add: rendered_views_def new_builder_def)

lemma render_rendered:
  "chunk_id b = Some (pre @ [k]) \<Longrightarrow> k + blocks [v] \<le> 65535 \<Longrightarrow> fitting v \<Longrightarrow> render True v b = rendered_views pre k [v] b"
  "chunk_id b = Some (pre @ [k]) \<Longrightarrow> k + blocks vs \<le> 65535 \<Longrightarrow> list_all fitting vs \<Longrightarrow> render_all True vs b = rendered_views pre k vs b"
proof (induction True v b and True vs b arbitrary: pre k and pre k rule: render_render_all.induct)
  case (1 s b)
  then show ?case by (simp add: rendered_views_def push_sync_def)
next
  case (2 fallback nonce children b)
  then have "next_id b = b\<lparr>chunk_id := Some (pre @ [Suc k])\<rparr>" by (intro next_id_fits) simp_all
  then show ?case using 2(1) [of pre "Suc k"] 2(3,4) by (simp add: rendered_views_def)
next
  case (3 fallback d nonce children b)
  let ?i = "pre @ [Suc k]"
  have b: "next_id b = b\<lparr>chunk_id := Some ?i\<rparr>" using 3 by (intro next_id_fits) simp_all
  have sub: "render_all True children (new_builder (Some (?i @ [0]))) = rendered_views ?i 0 children (new_builder (Some (?i @ [0])))"
    using 3(1) [OF refl, of "new_builder (Some (?i @ [0]))" ?i 0] 3(5) by (simp add: new_builder_def)
  show ?case
    using b sub awaited_chunks [of "waits ?i 0 children" "show_pieces (view_pieces ?i 0 children)"]
    by (simp add: push_fallback_at push_async_out_of_order_def child_id_def push_sync_def rendered_views_def [of pre] Let_def
        chunk_of_def [of "(?i, d, nonce, children)"] ooo_body_def rendered_new del: map_map)
next
  case (4 b)
  then show ?case by (simp add: rendered_views_def)
next
  case (5 v vs b)
  have "render True v b = rendered_views pre k [v] b" using 5 blocks_Cons [of v vs] by simp
  moreover have "render_all True vs (render True v b) = rendered_views pre (k + blocks [v]) vs (render True v b)"
    using 5(2) [of pre "k + blocks [v]"] 5(4,5) blocks_Cons [of v vs] calculation by (simp add: rendered_views_def)
  ultimately show ?case by (simp add: rendered_Cons)
qed

section \<open>Ids of the slots\<close>

lemma slots_of_pieces: "all_slots (view_pieces pre k vs) = map fst (waits pre k vs)"
  by (induction pre k vs rule: view_pieces.induct) simp_all

lemma wait_id:
  "w \<in> set (waits pre k vs) \<Longrightarrow> \<exists>m. fst w = pre @ [m] \<and> k < m \<and> m \<le> k + blocks vs"
proof (induction pre k vs rule: waits.induct)
  case (3 pre k fallback nonce ws vs)
  then consider "w \<in> set (waits pre (Suc k) ws)" | "w \<in> set (waits pre (Suc k + blocks ws) vs)" by auto
  then show ?case using 3 by cases fastforce+
next
  case (4 pre k fallback d nonce ws vs)
  then show ?case by fastforce
qed auto

lemma waits_distinct: "distinct (map fst (waits pre k vs))"
proof (induction pre k vs rule: waits.induct)
  case (3 pre k fallback nonce ws vs)
  have "fst ` set (waits pre (Suc k) ws) \<inter> fst ` set (waits pre (Suc k + blocks ws) vs) = {}"
    by (auto dest!: wait_id)
  then show ?case using 3 by simp
next
  case (4 pre k fallback d nonce ws vs)
  have "pre @ [Suc k] \<notin> fst ` set (waits pre (Suc k) vs)" by (auto dest: wait_id)
  then show ?case using 4 by simp
qed simp_all

lemma pieces_flat: "list_all fitting vs \<Longrightarrow> list_all flat_piece (view_pieces pre k vs)"
  by (induction pre k vs rule: view_pieces.induct) simp_all

fun wait_fits :: "wait \<Rightarrow> bool" where
  "wait_fits (i, d, nonce, ws) \<longleftrightarrow> clean_nonce nonce \<and> blocks ws \<le> 65535 \<and> list_all fitting ws"

lemma waits_fit: "list_all fitting vs \<Longrightarrow> list_all wait_fits (waits pre k vs)"
  by (induction pre k vs rule: waits.induct) simp_all

section \<open>What the pieces mean\<close>

definition content :: "wait list \<Rightarrow> nat list \<Rightarrow> string" where
  "content ws i = (case map_of ws i of None \<Rightarrow> [] | Some (d, nonce, vs) \<Rightarrow> concat (map resolved vs))"

fun meaning :: "wait list \<Rightarrow> piece \<Rightarrow> string" where
  "meaning ws (Txt t) = t"
| "meaning ws (Slot i fallback) = content ws i"
| "meaning ws (Templ i ps nonce) = []"

lemma content_Cons: "content ((i, d, nonce, vs) # ws) j = (if j = i then concat (map resolved vs) else content ws j)"
  by (simp add: content_def)

lemma content_append1: "i \<in> fst ` set ws \<Longrightarrow> content (ws @ ws') i = content ws i"
  by (auto simp: content_def map_add_def map_of_append dom_map_of_conv_image_fst [symmetric] split: option.splits)

lemma content_append2: "i \<notin> fst ` set ws \<Longrightarrow> content (ws @ ws') i = content ws' i"
  by (auto simp: content_def map_add_def map_of_append map_of_eq_None_iff [symmetric] split: option.splits)

lemma content_perm:
  assumes "distinct (map fst ws)" and "mset ws = mset ws'"
  shows "content ws i = content ws' i"
proof -
  have "distinct (map fst ws')" using assms by (metis mset_map mset_eq_imp_distinct_iff)
  then have "map_of ws = map_of ws'" using assms by (intro map_of_inject_set [THEN iffD2]) (auto dest: mset_eq_setD)
  then show ?thesis by (simp add: content_def)
qed

lemma meaning_cong:
  "(\<And>i. i \<in> set (all_slots ps) \<Longrightarrow> content ws i = content ws' i) \<Longrightarrow> concat (map (meaning ws) ps) = concat (map (meaning ws') ps)"
proof (induction ps)
  case (Cons p ps)
  then show ?case by (cases p) auto
qed simp

lemma meaning_of_pieces: "concat (map (meaning (waits pre k vs)) (view_pieces pre k vs)) = concat (map resolved vs)"
proof (induction pre k vs rule: view_pieces.induct)
  case (3 pre k fallback nonce ws vs)
  let ?w1 = "waits pre (Suc k) ws" and ?w2 = "waits pre (Suc k + blocks ws) vs"
  have "concat (map (meaning (?w1 @ ?w2)) (view_pieces pre (Suc k) ws)) = concat (map (meaning ?w1) (view_pieces pre (Suc k) ws))"
    by (rule meaning_cong, rule content_append1) (simp add: slots_of_pieces)
  moreover have "concat (map (meaning (?w1 @ ?w2)) (view_pieces pre (Suc k + blocks ws) vs)) = concat (map (meaning ?w2) (view_pieces pre (Suc k + blocks ws) vs))"
    by (rule meaning_cong, rule content_append2) (auto simp: slots_of_pieces dest!: wait_id)
  ultimately show ?case using 3 by simp
next
  case (4 pre k fallback d nonce ws vs)
  have "concat (map (meaning ((pre @ [Suc k], d, nonce, ws) # waits pre (Suc k) vs)) (view_pieces pre (Suc k) vs))
      = concat (map (meaning (waits pre (Suc k) vs)) (view_pieces pre (Suc k) vs))"
    by (rule meaning_cong) (auto simp: slots_of_pieces content_Cons dest!: wait_id)
  then show ?case using 4 by (simp add: content_Cons)
qed simp_all

section \<open>Filling a slot of the page\<close>

lemma fill_slots: "slots' = (\<lambda>j. if j = i then all_slots qs else [j]) \<Longrightarrow>
    all_slots (fill i qs p) = concat (map slots' (slots p))"
proof (induction p)
  case (Templ j ps nonce)
  then have "\<forall>p \<in> set ps. all_slots (fill i qs p) = concat (map slots' (slots p))" by blast
  then have "all_slots (fill_all i qs ps) = concat (map slots' (all_slots ps))" by (induction ps) simp_all
  then show ?case by simp
qed auto

lemma fill_all_slots:
  "all_slots (fill_all i qs ps) = concat (map (\<lambda>j. if j = i then all_slots qs else [j]) (all_slots ps))"
  by (induction ps) (simp_all add: fill_slots [OF refl])

lemma set_replaced: "set (concat (map (\<lambda>j. if j = i then xs else [j]) js)) = set js - {i} \<union> (if i \<in> set js then set xs else {})"
  by (induction js) auto

lemma distinct_replaced:
  "distinct js \<Longrightarrow> distinct xs \<Longrightarrow> set xs \<inter> set js = {} \<Longrightarrow> distinct (concat (map (\<lambda>j. if j = i then xs else [j]) js))"
proof (induction js)
  case (Cons j js)
  have "set (concat (map (\<lambda>j. if j = i then xs else [j]) js)) = set js - {i} \<union> (if i \<in> set js then set xs else {})"
    by (rule set_replaced)
  then show ?case using Cons by auto
qed simp

lemma fill_flat: "flat_piece p \<Longrightarrow> list_all flat_piece qs \<Longrightarrow> list_all flat_piece (fill i qs p)"
  by (cases p) simp_all

lemma fill_all_flat: "list_all flat_piece ps \<Longrightarrow> list_all flat_piece qs \<Longrightarrow> list_all flat_piece (fill_all i qs ps)"
  by (induction ps) (simp_all add: fill_flat)

lemma fill_all_ok: "list_all ok_piece ps \<Longrightarrow> list_all flat_piece qs \<Longrightarrow> list_all ok_piece (fill_all i qs ps)"
proof (induction ps)
  case (Cons p ps)
  have "list_all ok_piece (fill i qs p)" using Cons fill_flat list_all_flat_ok by (cases p) (simp_all add: fill_all_flat)
  then show ?case using Cons by simp
qed simp

lemma page_append_flat: "list_all flat_piece qs \<Longrightarrow> page (ps @ qs) = page ps @ qs"
proof (induction qs rule: rev_induct)
  case (snoc q qs)
  then show ?case using page_simps(2) [of "ps @ qs" q] by (cases q) simp_all
qed simp

lemma page_flat: "list_all ok_piece ps \<Longrightarrow> list_all flat_piece (page ps)"
proof (induction ps rule: rev_induct)
  case (snoc p ps)
  then show ?case by (cases p) (simp_all add: fill_all_flat)
qed simp

lemma fill_all_commute:
  assumes "i \<noteq> j" and "j \<notin> set (all_slots qs)"
  shows "list_all flat_piece ps \<Longrightarrow> fill_all i qs (fill_all j rs ps) = fill_all j (fill_all i qs rs) (fill_all i qs ps)"
proof (induction ps)
  case (Cons p ps)
  have "fill_all i qs (fill j rs p) = fill_all j (fill_all i qs rs) (fill i qs p)"
    using Cons(2) assms fill_all_absent [OF assms(2)] by (cases p) auto
  then show ?case using Cons by simp
qed simp

lemma templ_ids_simps [simp]:
  "templ_ids [] = {}" "templ_ids (p # ps) = templ_id p \<union> templ_ids ps" "templ_ids (ps @ qs) = templ_ids ps \<union> templ_ids qs"
  by (auto simp: templ_ids_def)

lemma flat_templ_ids: "list_all flat_piece ps \<Longrightarrow> templ_ids ps = {}"
proof (induction ps)
  case (Cons p ps)
  then show ?case by (cases p) simp_all
qed simp

lemma fill_templ_ids: "list_all flat_piece qs \<Longrightarrow> templ_ids (fill_all i qs ps) = templ_ids ps"
proof (induction ps)
  case (Cons p ps)
  then show ?case by (cases p) (simp_all add: flat_templ_ids)
qed simp

lemma page_fill:
  assumes "list_all flat_piece qs"
  shows "list_all ok_piece ps \<Longrightarrow> i \<notin> templ_ids ps \<Longrightarrow> templ_ids ps \<inter> set (all_slots qs) = {}
    \<Longrightarrow> page (fill_all i qs ps) = fill_all i qs (page ps)"
proof (induction ps rule: rev_induct)
  case (snoc p ps)
  then have IH: "page (fill_all i qs ps) = fill_all i qs (page ps)" by auto
  show ?case
  proof (cases p)
    case (Templ j rs nonce)
    then have "fill_all i qs (fill_all j rs (page ps)) = fill_all j (fill_all i qs rs) (fill_all i qs (page ps))"
      using snoc(2-4) page_flat [of ps] by (intro fill_all_commute) auto
    then show ?thesis using Templ IH by simp
  next
    case (Slot j fallback)
    then show ?thesis using IH page_append_flat [OF assms] by simp
  qed (use IH in simp)
qed simp

section \<open>The invariant of the stream\<close>

text \<open>
  \<open>E\<close> is everything that was written so far, sent or in the buffer; \<open>ws\<close> are the suspended views
  that are still to come.
\<close>

definition html_page_inv :: "string \<Rightarrow> piece list \<Rightarrow> wait list \<Rightarrow> bool" where
  "html_page_inv target E ws \<longleftrightarrow>
     list_all ok_piece E \<and> distinct (all_slots E) \<and> distinct (map fst ws) \<and> fst ` set ws \<subseteq> set (all_slots E)
   \<and> templ_ids E \<subseteq> set (all_slots E) \<and> templ_ids E \<inter> fst ` set ws = {}
   \<and> (\<forall>i \<in> fst ` set ws. \<forall>j \<in> set (all_slots E). prefix i j \<longrightarrow> j = i)
   \<and> set (all_slots (page E)) \<subseteq> fst ` set ws
   \<and> concat (map (meaning ws) (page E)) = target \<and> list_all wait_fits ws"

lemma page_inv_perm:
  assumes "html_page_inv target E ws" and "mset ws = mset ws'"
  shows "html_page_inv target E ws'"
proof -
  have "set ws' = set ws" "distinct (map fst ws')"
    using assms by (auto simp: html_page_inv_def dest: mset_eq_setD) (metis mset_map mset_eq_imp_distinct_iff)
  moreover have "concat (map (meaning ws) (page E)) = concat (map (meaning ws') (page E))"
    using assms by (intro meaning_cong content_perm) (simp_all add: html_page_inv_def)
  ultimately show ?thesis using assms(1) by (simp add: html_page_inv_def list_all_iff)
qed

lemma meaning_fill:
  assumes "list_all flat_piece ps" and "set (all_slots ps) \<subseteq> insert i (fst ` set ws)" and "i \<notin> fst ` set ws"
    and "fst ` set ws \<inter> fst ` set ws' = {}" and "list_all flat_piece qs" and "set (all_slots qs) \<subseteq> fst ` set ws'"
    and "concat (map (meaning ws') qs) = concat (map resolved vs)"
  shows "concat (map (meaning (ws' @ ws)) (fill_all i qs ps)) = concat (map (meaning ((i, d, nonce, vs) # ws)) ps)"
  using assms(1,2)
proof (induction ps)
  case (Cons p ps)
  have "concat (map (meaning (ws' @ ws)) (fill i qs p)) = meaning ((i, d, nonce, vs) # ws) p"
  proof (cases p)
    case (Slot j fallback)
    have "concat (map (meaning (ws' @ ws)) qs) = concat (map (meaning ws') qs)"
      using assms(6) by (intro meaning_cong content_append1) auto
    moreover have "content (ws' @ ws) j = content ws j" if "j \<noteq> i"
      using that Cons(3) Slot assms(4) by (intro content_append2) auto
    ultimately show ?thesis using Slot assms(7) by (simp add: content_Cons)
  qed (use Cons in simp_all)
  then show ?case using Cons by simp
qed simp

lemma new_slot: "j \<in> fst ` set (waits i k vs) \<Longrightarrow> \<exists>m. j = i @ [m]"
  using wait_id by fastforce

lemma new_slot_longer: "j \<in> fst ` set (waits i k vs) \<Longrightarrow> prefix i j \<and> j \<noteq> i"
  using new_slot by fastforce

lemma page_inv_step:
  assumes inv: "html_page_inv target E ((i, d, nonce, vs) # ws)"
    and E': "list_all ok_piece E'" "distinct (all_slots E')" "templ_ids E' \<subseteq> insert i (templ_ids E)" "templ_ids E' \<subseteq> set (all_slots E')"
      "set (all_slots E) - {i} \<union> fst ` set (waits i 0 vs) \<subseteq> set (all_slots E')"
      "set (all_slots E') \<subseteq> set (all_slots E) \<union> fst ` set (waits i 0 vs)"
      "page E' = fill_all i (view_pieces i 0 vs) (page E)"
  shows "html_page_inv target E' (waits i 0 vs @ ws)"
proof -
  let ?new = "fst ` set (waits i 0 vs)"
  have i: "i \<notin> fst ` set ws" "i \<in> set (all_slots E)" "i \<notin> templ_ids E" and vs: "list_all fitting vs"
    and fresh: "\<forall>o' \<in> insert i (fst ` set ws). \<forall>j \<in> set (all_slots E). prefix o' j \<longrightarrow> j = o'"
    using inv by (auto simp: html_page_inv_def)
  have new: "\<exists>m. j = i @ [m]" if "j \<in> ?new" for j using new_slot [OF that] .
  have not_old: "j \<notin> set (all_slots E)" "j \<noteq> i" if "j \<in> ?new" for j
    using new_slot_longer [OF that] fresh by blast+
  have qs: "list_all flat_piece (view_pieces i 0 vs)" "set (all_slots (view_pieces i 0 vs)) = ?new"
    using pieces_flat [OF vs] by (simp_all add: slots_of_pieces)
  have flat_page: "list_all flat_piece (page E)" using inv page_flat by (simp add: html_page_inv_def)
  have ws_old: "fst ` set ws \<subseteq> set (all_slots E)" using inv by (simp add: html_page_inv_def)
  have disjoint: "fst ` set ws \<inter> ?new = {}" using not_old(1) ws_old by blast
  have slots_page: "set (all_slots (page E)) \<subseteq> insert i (fst ` set ws)" using inv by (simp add: html_page_inv_def)
  have "set (all_slots (page E')) \<subseteq> fst ` set (waits i 0 vs @ ws)"
    unfolding E'(7) fill_all_slots set_replaced using slots_page qs(2) by auto
  moreover have "concat (map (meaning (waits i 0 vs @ ws)) (page E')) = target"
    unfolding E'(7) using meaning_fill [OF flat_page slots_page i(1) disjoint qs(1) _ meaning_of_pieces, of d nonce] qs(2) inv
    by (simp add: html_page_inv_def)
  moreover have "\<forall>o' \<in> fst ` set (waits i 0 vs @ ws). \<forall>j \<in> set (all_slots E'). prefix o' j \<longrightarrow> j = o'"
  proof (intro ballI impI)
    fix o' j assume o': "o' \<in> fst ` set (waits i 0 vs @ ws)" and j: "j \<in> set (all_slots E')" and p: "prefix o' j"
    have "o' \<in> ?new \<union> fst ` set ws" using o' by (simp only: set_append image_Un)
    moreover have "j \<in> set (all_slots E) \<union> ?new" by (rule subsetD [OF E'(6) j])
    ultimately consider "o' \<in> ?new" "j \<in> ?new" | "o' \<in> ?new" "j \<in> set (all_slots E)"
      | "o' \<in> fst ` set ws" "j \<in> ?new" | "o' \<in> fst ` set ws" "j \<in> set (all_slots E)" by (elim UnE) blast+
    then show "j = o'"
    proof cases
      case 1
      then obtain m n where "o' = i @ [m]" "j = i @ [n]" using new by meson
      then show ?thesis using p by simp
    next
      case 2
      obtain m where m: "o' = i @ [m]" using new [OF 2(1)] by blast
      then have "prefix i j" using p append_prefixD by blast
      then have "j = i" using fresh 2(2) by blast
      then show ?thesis using m p by (simp add: prefix_def)
    next
      case 3
      obtain m where m: "j = i @ [m]" using new [OF 3(2)] by blast
      then have "o' = j \<or> prefix o' i" using p by (simp add: prefix_snoc)
      then show ?thesis using fresh 3(1) i(1,2) by (metis insertCI)
    next
      case 4
      then show ?thesis using fresh p by blast
    qed
  qed
  moreover have "templ_ids E' \<inter> fst ` set (waits i 0 vs @ ws) = {}"
  proof -
    have "templ_ids E \<subseteq> set (all_slots E)" "templ_ids E \<inter> fst ` set ws = {}" using inv by (auto simp: html_page_inv_def)
    then show ?thesis using E'(3) not_old i(1) unfolding set_append image_Un by blast
  qed
  moreover have "fst ` set (waits i 0 vs @ ws) \<subseteq> set (all_slots E')" using ws_old E'(5) i(1) unfolding set_append image_Un by blast
  moreover have "distinct (map fst (waits i 0 vs @ ws))"
    using waits_distinct disjoint inv by (auto simp: html_page_inv_def)
  moreover have "list_all wait_fits (waits i 0 vs @ ws)" using waits_fit [OF vs] inv by (simp add: html_page_inv_def)
  ultimately show ?thesis using E' by (simp add: html_page_inv_def)
qed

text \<open>The two ways a chunk is written when it is ready.\<close>

lemma page_inv_template:
  assumes inv: "html_page_inv target E ((i, d, nonce, vs) # ws)"
  shows "html_page_inv target (E @ [Templ i (view_pieces i 0 vs) nonce]) (waits i 0 vs @ ws)"
proof (rule page_inv_step [OF inv])
  have i: "i \<in> set (all_slots E)" and fits: "list_all fitting vs" "clean_nonce nonce"
    and old: "list_all ok_piece E" "distinct (all_slots E)" "templ_ids E \<subseteq> set (all_slots E)"
    and fresh: "\<forall>j \<in> set (all_slots E). prefix i j \<longrightarrow> j = i"
    using inv by (auto simp: html_page_inv_def)
  show "list_all ok_piece (E @ [Templ i (view_pieces i 0 vs) nonce])" using old fits pieces_flat by simp
  have "j \<notin> set (all_slots E)" if "j \<in> fst ` set (waits i 0 vs)" for j
    using new_slot_longer [OF that] fresh by blast
  then show "distinct (all_slots (E @ [Templ i (view_pieces i 0 vs) nonce]))"
    using old waits_distinct by (auto simp: slots_of_pieces)
  show "templ_ids (E @ [Templ i (view_pieces i 0 vs) nonce]) \<subseteq> set (all_slots (E @ [Templ i (view_pieces i 0 vs) nonce]))"
    using old(3) i by auto
qed (auto simp: slots_of_pieces)

lemma page_inv_in_place:
  assumes inv: "html_page_inv target E ((i, d, nonce, vs) # ws)"
  shows "html_page_inv target (fill_all i (view_pieces i 0 vs) E) (waits i 0 vs @ ws)"
proof (rule page_inv_step [OF inv])
  let ?qs = "view_pieces i 0 vs"
  have i: "i \<in> set (all_slots E)" "i \<notin> templ_ids E" and fits: "list_all fitting vs"
    and old: "list_all ok_piece E" "distinct (all_slots E)" "templ_ids E \<subseteq> set (all_slots E)"
    and fresh: "\<forall>j \<in> set (all_slots E). prefix i j \<longrightarrow> j = i"
    using inv by (auto simp: html_page_inv_def)
  have qs: "list_all flat_piece ?qs" using pieces_flat [OF fits] .
  have new: "set (all_slots ?qs) \<inter> set (all_slots E) = {}"
    using fresh new_slot_longer by (fastforce simp: slots_of_pieces)
  show "list_all ok_piece (fill_all i ?qs E)" using fill_all_ok old(1) qs by blast
  show "distinct (all_slots (fill_all i ?qs E))"
    unfolding fill_all_slots using distinct_replaced [OF old(2) _ new] waits_distinct by (simp add: slots_of_pieces)
  show "page (fill_all i ?qs E) = fill_all i ?qs (page E)"
    using page_fill [OF qs old(1) i(2)] new old(3) by blast
  show "templ_ids (fill_all i ?qs E) \<subseteq> insert i (templ_ids E)" using fill_templ_ids [OF qs] by auto
  show "templ_ids (fill_all i ?qs E) \<subseteq> set (all_slots (fill_all i ?qs E))"
    unfolding fill_all_slots set_replaced fill_templ_ids [OF qs] using old(3) i(2) by auto
  show "set (all_slots E) - {i} \<union> fst ` set (waits i 0 vs) \<subseteq> set (all_slots (fill_all i ?qs E))"
    unfolding fill_all_slots set_replaced using i(1) by (simp add: slots_of_pieces)
  show "set (all_slots (fill_all i ?qs E)) \<subseteq> set (all_slots E) \<union> fst ` set (waits i 0 vs)"
    unfolding fill_all_slots set_replaced by (auto simp: slots_of_pieces)
qed

lemma page_inv_delay:
  "html_page_inv target E ((i, d, nonce, vs) # ws) \<longleftrightarrow> html_page_inv target E ((i, d', nonce, vs) # ws)"
proof -
  have "concat (map (meaning ((i, d, nonce, vs) # ws)) (page E)) = concat (map (meaning ((i, d', nonce, vs) # ws)) (page E))"
    by (rule meaning_cong) (simp add: content_Cons)
  then show ?thesis by (simp add: html_page_inv_def)
qed

lemma page_inv_done:
  assumes "html_page_inv target E []"
  shows "\<exists>ts. page E = map Txt ts \<and> concat ts = target"
proof -
  have "list_all flat_piece ps \<Longrightarrow> all_slots ps = [] \<Longrightarrow> \<exists>ts. ps = map Txt ts" for ps
  proof (induction ps)
    case (Cons p ps)
    then obtain ts where "ps = map Txt ts" by auto
    moreover obtain t where "p = Txt t" using Cons(2,3) by (cases p) simp_all
    ultimately have "p # ps = map Txt (t # ts)" by simp
    then show ?case by (rule exI)
  qed simp
  then obtain ts where ts: "page E = map Txt ts" using assms page_flat [of E] unfolding html_page_inv_def by force
  have "concat (map (meaning []) (map Txt ts)) = concat ts" by (simp add: comp_def)
  then show ?thesis using assms ts by (intro exI [of _ ts]) (simp add: html_page_inv_def)
qed

section \<open>Polling\<close>

definition stream_state :: "piece list \<Rightarrow> wait list \<Rightarrow> wait list \<Rightarrow> stream_builder \<Rightarrow> bool" where
  "stream_state B A P b \<longleftrightarrow> sync_buf b = show_pieces B \<and> chunks b = map chunk_of A
     \<and> pending_ooo b = map future_of P \<and> pending b = None"

lemma ooo_body_rendered:
  assumes "blocks vs \<le> 65535" and "list_all fitting vs"
  shows "ooo_body i vs = map chunk_of (waits i 0 vs) @ text_chunk (show_pieces (view_pieces i 0 vs))"
  using render_rendered(2) [of "new_builder (Some (i @ [0]))" i 0 vs] assms
  by (simp add: ooo_body_def rendered_new new_builder_def [of "Some (i @ [0])"] flip: rendered_new [of i 0 vs "Some (i @ [0])"])

lemma write_chunks_rendered:
  "write_chunks (map chunk_of ws @ text_chunk t) (buf, held) = (buf @ t, map chunk_of ws @ held)"
proof -
  have "write_chunks (map chunk_of ws) (buf, held) = (buf, map chunk_of ws @ held)" for buf held
    by (induction ws arbitrary: held rule: rev_induct) (simp_all add: write_chunks_def chunk_of_def)
  then show ?thesis by (simp add: write_chunks_def text_chunk_def)
qed

lemma ready_step:
  assumes st: "stream_state B A P b" and inv: "html_page_inv target (S @ B) ((i, d, nonce, vs) # ws)"
  shows "\<exists>B' A'. stream_state B' A' P (ooo_ready (snd (future_of (i, d, nonce, vs))) b)
    \<and> mset A' = mset (waits i 0 vs) + mset A \<and> html_page_inv target (S @ B') (waits i 0 vs @ ws)"
proof -
  let ?qs = "view_pieces i 0 vs" and ?ws = "waits i 0 vs"
  have vs: "blocks vs \<le> 65535" "list_all fitting vs" and ok: "list_all ok_piece (S @ B)" "distinct (all_slots (S @ B))"
    using inv by (auto simp: html_page_inv_def)
  note body = ooo_body_rendered [OF vs, of i] write_chunks_rendered
  show ?thesis
  proof (cases "i \<in> set (all_slots B)")
    case True
    have "found i (show_pieces B) (\<lambda>qs. show_pieces (fill_all i qs B))" using ok True by (intro found_pieces) auto
    then obtain before fallback after where
      buf: "show_pieces B = before @ marker i CHR ''o'' @ fallback @ marker i CHR ''c'' @ after" and
      clean: "clean fallback" "skips (marker i CHR ''o'') before" and
      filled: "show_pieces (fill_all i ?qs B) = before @ show_pieces ?qs @ after"
      by (auto simp: found_def)
    have split: "split_around_placeholder (sync_buf b) (push_chunk_id i) = (Some (before, after), [])"
      using st split_around_found [OF clean(2,1), of after] buf by (simp add: stream_state_def)
    have "stream_state (fill_all i ?qs B) (rev ?ws @ A) P (ooo_ready (snd (future_of (i, d, nonce, vs))) b)"
      using st split filled by (simp add: ooo_ready_def body stream_state_def fold_Cons rev_map)
    moreover have "fill_all i ?qs (S @ B) = S @ fill_all i ?qs B"
      using ok(2) True fill_all_absent [of i S ?qs] by auto
    ultimately show ?thesis
      using page_inv_in_place [OF inv] by (intro exI [of _ "fill_all i ?qs B"] exI [of _ "rev ?ws @ A"]) simp
  next
    case False
    have "skips (marker i CHR ''o'') (show_pieces B)" using pieces_skip False ok(1) by simp
    then have split: "split_around_placeholder (sync_buf b) (push_chunk_id i) = (None, [])"
      using st split_around_none by (simp add: stream_state_def)
    have "stream_state (B @ [Templ i ?qs nonce]) (?ws @ A) P (ooo_ready (snd (future_of (i, d, nonce, vs))) b)"
      using st split by (simp add: ooo_ready_def body stream_state_def)
    then show ?thesis
      using page_inv_template [OF inv] by (intro exI [of _ "B @ [Templ i ?qs nonce]"] exI [of _ "?ws @ A"]) simp
  qed
qed

lemma poll_each_ooo:
  "stream_state B A P b \<Longrightarrow> html_page_inv target (S @ B) (L @ A @ P) \<Longrightarrow>
   \<exists>B' A' P'. stream_state B' A' P' (fold poll_ooo (map future_of L) b) \<and> html_page_inv target (S @ B') (A' @ P')"
proof (induction L arbitrary: B A P b)
  case (Cons w L)
  obtain i d nonce vs where w: "w = (i, d, nonce, vs)" by (metis surj_pair)
  show ?case
  proof (cases d)
    case 0
    obtain B' A' where st: "stream_state B' A' P (ooo_ready (snd (future_of w)) b)"
        and A': "mset A' = mset (waits i 0 vs) + mset A" and inv: "html_page_inv target (S @ B') (waits i 0 vs @ (L @ A @ P))"
      using ready_step [OF Cons.prems(1), of target S i d nonce vs "L @ A @ P"] Cons.prems(2) w by auto
    have "html_page_inv target (S @ B') (L @ A' @ P)" by (rule page_inv_perm [OF inv]) (simp add: A')
    then show ?thesis using Cons.IH [OF st] w 0 by (simp add: poll_ooo_def)
  next
    case (Suc d')
    let ?w = "(i, d', nonce, vs)"
    have st: "stream_state B A (P @ [?w]) (poll_ooo (future_of w) b)"
      using Cons.prems(1) w Suc by (simp add: stream_state_def poll_ooo_def)
    have "html_page_inv target (S @ B) (?w # L @ A @ P)"
      using Cons.prems(2) page_inv_delay [of target "S @ B" i d nonce vs _ d'] w by simp
    then have "html_page_inv target (S @ B) (L @ A @ P @ [?w])" by (rule page_inv_perm) simp
    then show ?thesis using Cons.IH [OF st] by simp
  qed
qed auto

definition poll_state :: "piece list \<Rightarrow> wait list \<Rightarrow> wait list \<Rightarrow> stream_builder \<Rightarrow> bool" where
  "poll_state B A P b \<longleftrightarrow> sync_buf b = [] \<and> chunks b = map chunk_of A @ text_chunk (show_pieces B)
     \<and> pending_ooo b = map future_of P \<and> pending b = None"

lemma poll_from_state:
  "poll_state B A P b \<Longrightarrow>
   \<exists>b1. stream_state B [] (P @ A) b1 \<and> poll_next b = poll_next b1"
proof (induction A arbitrary: P b)
  case Nil
  show ?case
  proof (cases "show_pieces B = []")
    case True
    then show ?thesis using Nil by (intro exI [of _ b]) (simp add: poll_state_def stream_state_def text_chunk_def)
  next
    case False
    let ?b = "b\<lparr>sync_buf := show_pieces B, chunks := []\<rparr>"
    have "poll_next b = poll_next ?b"
      using Nil False poll_next_simps(5) [of b "show_pieces B" "[]"] by (simp add: poll_state_def text_chunk_def)
    moreover have "stream_state B [] (P @ []) ?b" using Nil by (simp add: poll_state_def stream_state_def)
    ultimately show ?thesis by blast
  qed
next
  case (Cons w A)
  let ?b = "b\<lparr>chunks := map chunk_of A @ text_chunk (show_pieces B), pending_ooo := pending_ooo b @ [future_of w]\<rparr>"
  have "poll_next b = poll_next ?b"
    using Cons.prems poll_next_simps(7) [of b "fst (future_of w)" "snd (future_of w)" "map chunk_of A @ text_chunk (show_pieces B)"]
    by (simp add: poll_state_def chunk_of_def)
  moreover have "poll_state B A (P @ [w]) ?b" using Cons.prems by (simp add: poll_state_def)
  ultimately show ?case using Cons.IH [of "P @ [w]" ?b] by simp
qed

lemma poll_out_of_order:
  assumes st: "poll_state B A P b" and inv: "html_page_inv target (S @ B) (A @ P)"
  shows "(fst (poll_next b) = Ready None \<and> A = [] \<and> P = [] \<and> show_pieces B = [])
    \<or> (fst (poll_next b) \<noteq> Ready None \<and> (\<exists>B' A' P'. sent (fst (poll_next b)) = show_pieces B'
        \<and> poll_state [] A' P' (snd (poll_next b)) \<and> html_page_inv target (S @ B') (A' @ P')))"
proof -
  obtain b1 where b1: "stream_state B [] (P @ A) b1" "poll_next b = poll_next b1" using poll_from_state [OF st] by blast
  have none: "pending b1 = None" "chunks b1 = []" using b1(1) by (simp_all add: stream_state_def)
  show ?thesis
  proof (cases "P @ A")
    case Nil
    then have "pending_ooo b1 = []" using b1(1) by (simp add: stream_state_def)
    then show ?thesis
      using b1 none Nil inv poll_next_simps(3) [OF none]
      by (auto simp: take_buf_def stream_state_def poll_state_def sent_def text_chunk_def intro: exI [of _ B])
  next
    case (Cons w L)
    have "stream_state B [] [] (b1\<lparr>pending_ooo := []\<rparr>)" using b1(1) by (simp add: stream_state_def)
    moreover have "html_page_inv target (S @ B) ((P @ A) @ [] @ [])" by (rule page_inv_perm [OF inv]) simp
    ultimately obtain B' A' P' where st': "stream_state B' A' P' (poll_all_ooo b1)" "html_page_inv target (S @ B') (A' @ P')"
      using poll_each_ooo [of B "[]" "[]" "b1\<lparr>pending_ooo := []\<rparr>" target S "P @ A"] b1(1)
      unfolding poll_all_ooo_def stream_state_def by auto
    have "pending_ooo b1 \<noteq> []" using b1(1) Cons by (simp add: stream_state_def)
    from poll_next_simps(4) [OF none this] have p: "poll_next b =
        (if sync_buf (poll_all_ooo b1) = [] then (Pending, poll_all_ooo b1) else take_buf (poll_all_ooo b1))"
      using b1(2) by (simp add: Let_def)
    have "fst (poll_next b) \<noteq> Ready None" "sent (fst (poll_next b)) = show_pieces B'" "poll_state [] A' P' (snd (poll_next b))"
      using st'(1) unfolding p by (auto simp: take_buf_def sent_def stream_state_def poll_state_def text_chunk_def)
    then show ?thesis using st'(2) by blast
  qed
qed

lemma collect_out_of_order:
  "collect_stream k b = Some out \<Longrightarrow> poll_state B A P b \<Longrightarrow> html_page_inv target (S @ B) (A @ P)
    \<Longrightarrow> \<exists>E. concat out = show_pieces E \<and> html_page_inv target (S @ E) []"
proof (induction k arbitrary: b out S B A P)
  case (Suc k)
  from poll_out_of_order [OF Suc.prems(2,3)] show ?case
  proof (elim disjE conjE exE)
    assume "fst (poll_next b) = Ready None" "A = []" "P = []" "show_pieces B = []"
    then show ?thesis using Suc.prems(1,3) by (intro exI [of _ B]) (auto split: prod.splits)
  next
    fix B' A' P'
    assume next': "fst (poll_next b) \<noteq> Ready None" "sent (fst (poll_next b)) = show_pieces B'"
      "poll_state [] A' P' (snd (poll_next b))" "html_page_inv target (S @ B') (A' @ P')"
    obtain out' where out': "collect_stream k (snd (poll_next b)) = Some out'" "concat out = sent (fst (poll_next b)) @ concat out'"
      using Suc.prems(1) next'(1) by (auto simp: sent_def split: prod.splits poll.splits option.splits)
    obtain E where "concat out' = show_pieces E" "html_page_inv target ((S @ B') @ E) []"
      using Suc.IH [OF out'(1) next'(3), of "S @ B'"] next'(4) by auto
    then show ?thesis using out'(2) next'(2) by (intro exI [of _ "B' @ E"]) simp
  qed
qed simp

section \<open>The page in the browser\<close>

lemma page_of_flat: "list_all flat_piece ps \<Longrightarrow> page ps = ps"
  using page_append_flat [of ps "[]"] by simp

lemma page_inv_start:
  assumes "list_all fitting vs"
  shows "html_page_inv (concat (map resolved vs)) (view_pieces [] 0 vs) (waits [] 0 vs)"
proof -
  have flat_piece: "list_all flat_piece (view_pieces [] 0 vs)" using pieces_flat [OF assms] .
  have "\<forall>i \<in> fst ` set (waits [] 0 vs). \<forall>j \<in> fst ` set (waits [] 0 vs). prefix i j \<longrightarrow> j = i"
  proof (intro ballI impI)
    fix i j assume "i \<in> fst ` set (waits [] 0 vs)" "j \<in> fst ` set (waits [] 0 vs)" "prefix i j"
    moreover obtain m where "i = [m]" using new_slot [OF calculation(1)] by auto
    moreover obtain n where "j = [n]" using new_slot [OF calculation(2)] by auto
    ultimately show "j = i" by simp
  qed
  then show ?thesis
    using flat_piece list_all_flat_ok [OF flat_piece] flat_templ_ids [OF flat_piece] meaning_of_pieces [of "[]" 0 vs]
      waits_distinct [of "[]" 0 vs] waits_fit [OF assms]
    unfolding html_page_inv_def page_of_flat [OF flat_piece] slots_of_pieces by simp
qed

text \<open>
  C4. Out-of-order streaming shows the right page: whatever the nesting of suspended views and the
  order in which they become ready, the stream ends, and a browser that reads it, putting the
  content of every template in the place of the fallback that its script finds, ends with the page
  in which every suspended view is replaced by what it resolves to, and no fallback is left. The
  views' text and nonces hold no marker, and no stream has more than 65535 suspended views.
\<close>

theorem out_of_order_page_correct:
  assumes "list_all fitting vs" and "blocks vs \<le> 65535" and "stream_work (to_html_stream_out_of_order vs) < k"
  shows "\<exists>out E ts. collect_stream k (to_html_stream_out_of_order vs) = Some out \<and> concat out = show_pieces E
    \<and> page E = map Txt ts \<and> concat ts = concat (map resolved vs)"
proof -
  let ?b = "to_html_stream_out_of_order vs"
  obtain out where out: "collect_stream k ?b = Some out" using collect_stream_ends [OF assms(3)] by blast
  have "render_all True vs (new_builder (Some [0])) = rendered_views [] 0 vs (new_builder (Some [0]))"
    using assms(1,2) by (intro render_rendered(2)) (simp_all add: new_builder_def)
  then have b: "?b = finish (rendered_views [] 0 vs (new_builder (Some [0])))" by (simp add: to_html_stream_out_of_order_def)
  have "sync_buf ?b = []" "pending ?b = None" "pending_ooo ?b = []"
    unfolding b finish_def rendered_views_def new_builder_def by (auto split: list.splits stream_chunk.splits)
  moreover from this(1) have "chunks ?b = map chunk_of (waits [] 0 vs) @ text_chunk (show_pieces (view_pieces [] 0 vs))"
    using rendered_new [of "[]" 0 vs "Some [0]"] by (simp add: take_chunks_def flush_sync_def flip: b)
  ultimately have st: "poll_state (view_pieces [] 0 vs) (waits [] 0 vs) [] ?b" by (simp add: poll_state_def)
  obtain E where "concat out = show_pieces E" "html_page_inv (concat (map resolved vs)) E []"
    using collect_out_of_order [OF out st, of _ "[]"] page_inv_start [OF assms(1)] by auto
  then show ?thesis using out page_inv_done by blast
qed

theorem out_of_order_page_correct_witness:
  "\<exists>out E ts. collect_stream 40 (to_html_stream_out_of_order
       [Html ''<p>'', Suspense ''wait'' (Suc 0) None [Html ''b'', Suspense ''more'' (Suc (Suc 0)) (Some ''n0'') [Html ''c''], Html ''d''], Html ''</p>'']) = Some out
     \<and> concat out = show_pieces E \<and> page E = map Txt ts \<and> concat ts = ''<p>bcd</p>''"
  using out_of_order_page_correct [of "[Html ''<p>'', Suspense ''wait'' (Suc 0) None [Html ''b'', Suspense ''more'' (Suc (Suc 0)) (Some ''n0'') [Html ''c''],
    Html ''d''], Html ''</p>'']" 40]
  by (simp add: clean.simps(2) clean_nonce_def to_html_stream_out_of_order_def push_async_out_of_order_def
      take_chunks_def flush_sync_def finish_def push_sync_def new_builder_def next_id_def next_piece_def arith_defs child_id_def
      push_fallback_def write_chunk_marker_def stream_work_def pending_work_def opening_marker_def closing_marker_def)

end
