(* ===== verification/Html_Boundary.thy ===== *)
theory Html_Boundary
  imports Html_Out_Of_Order
begin

text \<open>
  Error boundaries in an out-of-order stream (\<open>halyard/src/error_boundary.rs\<close>), in the case that no
  error was thrown, and three streams that do not show the page that was meant.
\<close>

section \<open>\<open>ErrorBoundary\<close>\<close>

text \<open>
  \<open>new_buf\<close> holds the children; without a \<open>Suspense\<close> among them it is appended, otherwise a chunk
  that waits for the \<open>Suspense\<close> (\<open>d\<close> polls) and then for the chunks of the children, one after the
  other.
\<close>

fun boundary_chunk :: "stream_chunk \<Rightarrow> nat \<times> stream_chunk list" where
  "boundary_chunk (Sync s) = (0, [Sync s])"
| "boundary_chunk (Async_Chunks d cs) = (d, cs)"
| "boundary_chunk (Out_Of_Order d c) = (d, [Out_Of_Order 0 c])"

definition error_boundary :: "nat option \<Rightarrow> (stream_builder \<Rightarrow> stream_builder) \<Rightarrow> stream_builder \<Rightarrow> stream_builder" where
  "error_boundary suspended children b =
    (let new_buf = children (new_builder (chunk_id b))
     in case suspended of
          None \<Rightarrow> append_builder b new_buf
        | Some d \<Rightarrow>
            (let view_buf = next_id (new_builder (chunk_id new_buf));
                 parts = map boundary_chunk (take_chunks new_buf)
             in append_builder b (push_async (d + sum_list (map fst parts)) (concat (map snd parts)) view_buf)))"

section \<open>Streams that go wrong\<close>

lemma decimal_0 [simp]: "decimal 0 = ''0''" and decimal_1 [simp]: "decimal (Suc 0) = ''1''"
  by code_simp+

lemmas stream_evaluation = push_async_out_of_order_def take_chunks_def flush_sync_def finish_def push_sync_def
  new_builder_def next_id_def next_piece_def arith_defs child_id_def push_fallback_def write_chunk_marker_def
  opening_marker_def closing_marker_def push_async_def append_builder_def error_boundary_def
  push_chunk_id_def decimal_0 decimal_1 poll_next_simps poll_all_ooo_def poll_ooo_def ooo_ready_def write_chunks_def
  split_around_placeholder_def strip_prefix_def take_buf_def push_start_def Let_def

text \<open>
  The in-order chunks of an error boundary inside a suspended view make more than one piece of
  text of its content; the pieces are written from the last to the first.
\<close>

lemma boundary_in_suspense_is_reversed:
  "collect_stream (Suc (Suc (Suc 0))) (finish (push_async_out_of_order 0 True
      (\<lambda>b. push_sync ''after'' (error_boundary (Some 0) (render True (Suspense ''...'' 0 None [Html ''inner''])) (push_sync ''before'' b)))
      None (push_fallback ''wait'' (next_id (new_builder (Some [0])))))) = Some [''afterinnerbefore'']"
  by (simp add: stream_evaluation)

text \<open>
  A view that cannot be resolved on the server keeps its fallback: the script of its template only
  removes the markers. When it is ready before the fallback was sent, the fallback is replaced.
\<close>

lemma unresolved_view_loses_fallback:
  "collect_stream (Suc (Suc (Suc 0))) (finish (push_async_out_of_order 0 False (push_sync ''<!>'') None
      (push_fallback ''wait'' (next_id (new_builder (Some [0])))))) = Some [''<!>'']"
  by (simp add: stream_evaluation)

text \<open>
  An error boundary does not hand the ids that its children used on to the views after it: the
  content of a view after it is put in the place of a view inside it.
\<close>

lemma boundary_reuses_ids:
  "map_option hd (collect_stream (Suc (Suc (Suc 0))) (finish (render True (Suspense ''second'' (Suc 0) None [Html ''B''])
      (error_boundary None (render True (Suspense ''first'' (Suc (Suc 0)) None [Html ''A''])) (new_builder (Some [0]))))))
    = Some ''B<!--s-1-o-->second<!--s-1-c-->''"
  by (simp add: stream_evaluation)

end
