(* ===== verification/Owner_Tree.thy ===== *)
theory Owner_Tree
  imports Prelude "HOL-Library.Multiset"
begin

text \<open>
  The owners of \<open>halyard_reactive_graph/src/owner.rs\<close>: a tree of owners that hold cleanup
  functions, contexts and the arena's nodes, on one thread.

  An owner is the address of its \<open>OwnerInner\<close>; a \<open>Weak\<close> reference can be upgraded while the
  owner's strong count is positive. A cleanup function is its number and whether it asks for the
  current owner when it runs; what else it does is not modelled. A value in the arena is the list
  of the owners that it keeps alive (an effect in the arena holds its owner). Contexts are keyed by
  the name of their type. A cleanup function that asks for the current owner while \<open>OWNER\<close> is borrowed
  panics, and the panic unwinds: the loops that it passes are left, the functions that they had taken
  are dropped unrun, and a second panic in a \<open>Drop\<close> on the way aborts the process. Cleaning up and dropping an owner call each other without a bound in the
  source: the model runs them with fuel.
\<close>

section \<open>State\<close>

type_synonym cleanup_fn = "nat \<times> bool"

record 'v owner_inner =
  o_parent :: "nat option"
  o_nodes :: "nat list"
  o_contexts :: "string \<Rightarrow> 'v option"
  o_cleanups :: "cleanup_fn list"
  o_children :: "nat list"
  o_paused :: bool

text \<open>
  \<open>ran\<close> are the cleanup functions that were called, \<open>panicked\<close> those of them that found \<open>OWNER\<close> borrowed,
  \<open>lost\<close> those that a panic dropped unrun. \<open>unwinding\<close> says that a panic is on its way up; after two at
  once the process is \<open>aborted\<close>, and the rest of the state says nothing any more.
\<close>

record 'v owners =
  inner :: "nat \<Rightarrow> 'v owner_inner"
  strong :: "nat \<Rightarrow> nat"
  arena :: "nat \<Rightarrow> nat list option"
  next_owner :: nat
  next_node :: nat
  current :: "nat option"
  borrowed :: bool
  ran :: "cleanup_fn list"
  panicked :: "cleanup_fn list"
  lost :: "cleanup_fn list"
  unwinding :: bool
  aborted :: bool

definition new_inner :: "nat option \<Rightarrow> bool \<Rightarrow> 'v owner_inner" where
  "new_inner p is_paused =
    \<lparr>o_parent = p, o_nodes = [], o_contexts = (\<lambda>_. None), o_cleanups = [], o_children = [], o_paused = is_paused\<rparr>"

definition no_owners :: "'v owners" where
  "no_owners = \<lparr>inner = (\<lambda>_. new_inner None False), strong = (\<lambda>_. 0), arena = (\<lambda>_. None), next_owner = 0, next_node = 0,
     current = None, borrowed = False, ran = [], panicked = [], lost = [], unwinding = False, aborted = False\<rparr>"

definition on_inner :: "nat \<Rightarrow> ('v owner_inner \<Rightarrow> 'v owner_inner) \<Rightarrow> 'v owners \<Rightarrow> 'v owners" where
  "on_inner n f s = s\<lparr>inner := (inner s)(n := f (inner s n))\<rparr>"

definition alive :: "'v owners \<Rightarrow> nat \<Rightarrow> bool" where
  "alive s n \<longleftrightarrow> 0 < strong s n"

definition upgrade :: "'v owners \<Rightarrow> nat option \<Rightarrow> nat option" where
  "upgrade s w = (case w of None \<Rightarrow> None | Some n \<Rightarrow> if alive s n then Some n else None)"

definition current_owner :: "'v owners \<Rightarrow> nat option" where
  "current_owner s = upgrade s (current s)"

section \<open>Making owners\<close>

definition add_owner :: "nat option \<Rightarrow> bool \<Rightarrow> 'v owners \<Rightarrow> nat \<times> 'v owners" where
  "add_owner p is_paused s =
    (let n = next_owner s;
         s = s\<lparr>inner := (inner s)(n := new_inner p is_paused), strong := (strong s)(n := 1), next_owner := Suc n\<rparr>
     in (n, case p of
              None \<Rightarrow> s
            | Some p \<Rightarrow> on_inner p (\<lambda>x. x\<lparr>o_children := o_children x @ [n]\<rparr>) s))"

definition owner_new :: "'v owners \<Rightarrow> nat \<times> 'v owners" where
  "owner_new s = add_owner (current_owner s) False s"

definition owner_child :: "nat \<Rightarrow> 'v owners \<Rightarrow> nat \<times> 'v owners" where
  "owner_child n s = add_owner (Some n) (o_paused (inner s n)) s"

definition owner_set :: "nat \<Rightarrow> 'v owners \<Rightarrow> 'v owners" where
  "owner_set n s = s\<lparr>current := Some n\<rparr>"

definition new_root :: "'v owners \<Rightarrow> nat \<times> 'v owners" where
  "new_root s = (let (n, s) = add_owner None False s in (n, owner_set n s))"

definition with_owner :: "nat \<Rightarrow> ('v owners \<Rightarrow> 'r \<times> 'v owners) \<Rightarrow> 'v owners \<Rightarrow> 'r \<times> 'v owners" where
  "with_owner n fn s = (let prev = current s; (r, s) = fn (s\<lparr>current := Some n\<rparr>) in (r, s\<lparr>current := prev\<rparr>))"

definition on_cleanup :: "cleanup_fn \<Rightarrow> 'v owners \<Rightarrow> 'v owners" where
  "on_cleanup f s =
    (case current_owner s of
       None \<Rightarrow> s
     | Some n \<Rightarrow> on_inner n (\<lambda>x. x\<lparr>o_cleanups := o_cleanups x @ [f]\<rparr>) s)"

text \<open>\<open>ArenaItem::new_with_storage\<close>: the value moves into the arena, with the owners that it holds.\<close>

definition store_item :: "nat list \<Rightarrow> 'v owners \<Rightarrow> nat \<times> 'v owners" where
  "store_item held s =
    (let node = next_node s; s = s\<lparr>arena := (arena s)(node := Some held), next_node := Suc node\<rparr>
     in (node, case current_owner s of
                 None \<Rightarrow> s
               | Some n \<Rightarrow> on_inner n (\<lambda>x. x\<lparr>o_nodes := o_nodes x @ [node]\<rparr>) s))"

section \<open>Cleaning up and dropping\<close>

text \<open>One turn of the loop over the functions that were taken: after a panic the rest is dropped.\<close>

definition run_cleanup :: "cleanup_fn \<Rightarrow> 'v owners \<Rightarrow> 'v owners" where
  "run_cleanup f s =
    (if unwinding s then s\<lparr>lost := lost s @ [f]\<rparr>
     else if snd f \<and> borrowed s then s\<lparr>ran := ran s @ [f], panicked := panicked s @ [f], unwinding := True\<rparr>
     else s\<lparr>ran := ran s @ [f]\<rparr>)"

text \<open>The end of a \<open>Drop\<close> that was called while a panic was (or was not) on its way already.\<close>

definition end_drop :: "bool \<Rightarrow> 'v owners \<Rightarrow> 'v owners" where
  "end_drop outer s = s\<lparr>aborted := (aborted s \<or> outer \<and> unwinding s), unwinding := (outer \<or> unwinding s)\<rparr>"

definition retain :: "nat \<Rightarrow> 'v owners \<Rightarrow> 'v owners" where
  "retain n s = s\<lparr>strong := (strong s)(n := Suc (strong s n))\<rparr>"

fun remove_nodes :: "nat list \<Rightarrow> (nat \<Rightarrow> nat list option) \<Rightarrow> nat list \<times> (nat \<Rightarrow> nat list option)" where
  "remove_nodes [] a = ([], a)"
| "remove_nodes (node # ns) a =
    (case a node of
       None \<Rightarrow> remove_nodes ns a
     | Some held \<Rightarrow> (let (rest, a) = remove_nodes ns (a(node := None)) in (held @ rest, a)))"

text \<open>
  \<open>Cleanup::cleanup\<close>, and dropping a strong reference (\<open>release\<close>), with the \<open>Drop\<close> of the owner
  when it was the last. While a child is cleaned up its \<open>Weak\<close> reference is upgraded. A panic leaves
  the loop over the children (their handle is dropped on the way), then the taken functions are
  dropped, and the taken nodes with their values left in the arena.
\<close>

fun cleanup :: "nat \<Rightarrow> nat \<Rightarrow> 'v owners \<Rightarrow> 'v owners option" and
  release :: "nat \<Rightarrow> nat \<Rightarrow> 'v owners \<Rightarrow> 'v owners option" where
  "cleanup 0 n s = None"
| "cleanup (Suc fuel) n s =
    (let old = inner s n;
         s = on_inner n (\<lambda>x. x\<lparr>o_cleanups := [], o_nodes := [], o_children := []\<rparr>) s
     in Option.bind
          (fold_opt (\<lambda>c s. if alive s c \<and> \<not> unwinding s
               then Option.bind (cleanup fuel c (retain c s)) (\<lambda>s. release fuel c s) else Some s)
            (o_children old) s)
          (\<lambda>s. let s = fold run_cleanup (o_cleanups old) s
               in if unwinding s then Some s
                  else (let (held, a) = remove_nodes (o_nodes old) (arena s)
                        in fold_opt (\<lambda>n s. release fuel n s) held (s\<lparr>arena := a\<rparr>))))"
| "release 0 n s = None"
| "release (Suc fuel) n s =
    (let s = s\<lparr>strong := (strong s)(n := strong s n - 1)\<rparr>
     in if alive s n then Some s
        else
          map_option (end_drop (unwinding s)) (Option.bind
            (fold_opt (\<lambda>c s. if alive s c \<and> \<not> unwinding s
                 then Option.bind (cleanup fuel c (retain c s)) (\<lambda>s. release fuel c s) else Some s)
              (o_children (inner s n)) (on_inner n (\<lambda>x. x\<lparr>o_children := []\<rparr>) (s\<lparr>unwinding := False\<rparr>)))
            (\<lambda>s. let s = fold run_cleanup (o_cleanups (inner s n)) (on_inner n (\<lambda>x. x\<lparr>o_cleanups := []\<rparr>) s)
                 in if unwinding s then Some (on_inner n (\<lambda>x. x\<lparr>o_nodes := []\<rparr>) s)
                    else (let (held, a) = remove_nodes (o_nodes (inner s n)) (arena s)
                          in fold_opt (\<lambda>n s. release fuel n s) held (on_inner n (\<lambda>x. x\<lparr>o_nodes := []\<rparr>) (s\<lparr>arena := a\<rparr>))))))"

definition dispose_item :: "nat \<Rightarrow> nat \<Rightarrow> 'v owners \<Rightarrow> 'v owners option" where
  "dispose_item fuel node s =
    (let (held, a) = remove_nodes [node] (arena s) in fold_opt (\<lambda>n s. release fuel n s) held (s\<lparr>arena := a\<rparr>))"

definition with_cleanup :: "nat \<Rightarrow> nat \<Rightarrow> ('v owners \<Rightarrow> 'r \<times> 'v owners) \<Rightarrow> 'v owners \<Rightarrow> ('r \<times> 'v owners) option" where
  "with_cleanup fuel n fn s = map_option (with_owner n fn) (cleanup fuel n s)"

text \<open>
  \<open>unset\<close> compares the handle with the current owner inside the closure that has \<open>OWNER\<close> borrowed:
  both handles, the given one and the upgraded one, are dropped there, and only then is \<open>OWNER\<close> emptied.
  A panic on the way unwinds out of \<open>with_borrow_mut\<close>, which ends the borrow and leaves \<open>OWNER\<close> as it is.
\<close>

definition owner_unset :: "nat \<Rightarrow> nat \<Rightarrow> 'v owners \<Rightarrow> 'v owners option" where
  "owner_unset fuel n s =
    (let up = current_owner s;
         s = (case up of None \<Rightarrow> s | Some c \<Rightarrow> retain c s)\<lparr>borrowed := True\<rparr>
     in map_option (\<lambda>s. (if up = Some n \<and> \<not> unwinding s then s\<lparr>current := None\<rparr> else s)\<lparr>borrowed := False\<rparr>)
          (Option.bind (release fuel n s) (\<lambda>s. case up of None \<Rightarrow> Some s | Some c \<Rightarrow> release fuel c s)))"

definition unset_with_forced_cleanup :: "nat \<Rightarrow> nat \<Rightarrow> 'v owners \<Rightarrow> 'v owners option" where
  "unset_with_forced_cleanup fuel n s =
    (let s = (if current_owner s = Some n then s\<lparr>current := None\<rparr> else s)
     in Option.bind (cleanup fuel n s) (\<lambda>s. release fuel n s))"

section \<open>Pausing\<close>

text \<open>\<open>pause\<close> and \<open>resume\<close>: a stack of owners, the last one first.\<close>

fun pause_loop :: "nat \<Rightarrow> bool \<Rightarrow> nat list \<Rightarrow> 'v owners \<Rightarrow> 'v owners option" where
  "pause_loop fuel b stack s =
    (if stack = [] then Some s
     else case fuel of
         0 \<Rightarrow> None
       | Suc fuel \<Rightarrow>
           (let curr = last stack; stack = butlast stack
            in if alive s curr
               then pause_loop fuel b (stack @ o_children (inner s curr)) (on_inner curr (\<lambda>x. x\<lparr>o_paused := b\<rparr>) s)
               else pause_loop fuel b stack s))"

declare pause_loop.simps [simp del]

definition pause :: "nat \<Rightarrow> nat \<Rightarrow> 'v owners \<Rightarrow> 'v owners option" where
  "pause fuel n s = pause_loop fuel True [n] s"

definition resume :: "nat \<Rightarrow> nat \<Rightarrow> 'v owners \<Rightarrow> 'v owners option" where
  "resume fuel n s = pause_loop fuel False [n] s"

section \<open>Contexts\<close>

text \<open>\<open>owner/context.rs\<close>; the loops run up the parents that are alive, or through the descendants.\<close>

definition parent_of :: "'v owners \<Rightarrow> nat \<Rightarrow> nat option" where
  "parent_of s n = upgrade s (o_parent (inner s n))"

fun ancestry_loop :: "nat \<Rightarrow> 'v owners \<Rightarrow> nat option \<Rightarrow> nat list option" where
  "ancestry_loop fuel s None = Some []"
| "ancestry_loop 0 s (Some n) = None"
| "ancestry_loop (Suc fuel) s (Some n) = map_option ((#) n) (ancestry_loop fuel s (parent_of s n))"

definition ancestry :: "nat \<Rightarrow> nat \<Rightarrow> 'v owners \<Rightarrow> nat list option" where
  "ancestry fuel n s = ancestry_loop fuel s (parent_of s n)"

definition provide_context :: "string \<Rightarrow> 'v \<Rightarrow> nat \<Rightarrow> 'v owners \<Rightarrow> 'v owners" where
  "provide_context ty v n s = on_inner n (\<lambda>x. x\<lparr>o_contexts := (o_contexts x)(ty := Some v)\<rparr>) s"

fun find_provider :: "nat \<Rightarrow> string \<Rightarrow> 'v owners \<Rightarrow> nat option \<Rightarrow> nat option option" where
  "find_provider fuel ty s None = Some None"
| "find_provider 0 ty s (Some n) = None"
| "find_provider (Suc fuel) ty s (Some n) =
    (case o_contexts (inner s n) ty of
       Some v \<Rightarrow> Some (Some n)
     | None \<Rightarrow> find_provider fuel ty s (parent_of s n))"

definition with_context :: "nat \<Rightarrow> string \<Rightarrow> nat \<Rightarrow> 'v owners \<Rightarrow> 'v option option" where
  "with_context fuel ty n s =
    map_option (\<lambda>p. Option.bind p (\<lambda>p. o_contexts (inner s p) ty)) (find_provider fuel ty s (Some n))"

definition take_context :: "nat \<Rightarrow> string \<Rightarrow> nat \<Rightarrow> 'v owners \<Rightarrow> ('v option \<times> 'v owners) option" where
  "take_context fuel ty n s =
    map_option (\<lambda>p. case p of
        None \<Rightarrow> (None, s)
      | Some p \<Rightarrow> (o_contexts (inner s p) ty, on_inner p (\<lambda>x. x\<lparr>o_contexts := (o_contexts x)(ty := None)\<rparr>) s))
      (find_provider fuel ty s (Some n))"

definition update_context :: "nat \<Rightarrow> string \<Rightarrow> ('v \<Rightarrow> 'v) \<Rightarrow> nat \<Rightarrow> 'v owners \<Rightarrow> (bool \<times> 'v owners) option" where
  "update_context fuel ty cb n s =
    map_option (\<lambda>p. case p of
        None \<Rightarrow> (False, s)
      | Some p \<Rightarrow> (True, on_inner p (\<lambda>x. x\<lparr>o_contexts := (o_contexts x)(ty := map_option cb (o_contexts x ty))\<rparr>) s))
      (find_provider fuel ty s (Some n))"

fun find_in_children :: "nat \<Rightarrow> string \<Rightarrow> nat list \<Rightarrow> 'v owners \<Rightarrow> 'v option option" where
  "find_in_children fuel ty [] s = Some None"
| "find_in_children 0 ty (c # to_search) s = None"
| "find_in_children (Suc fuel) ty (c # to_search) s =
    (if alive s c
     then case o_contexts (inner s c) ty of
            Some v \<Rightarrow> Some (Some v)
          | None \<Rightarrow> find_in_children fuel ty (to_search @ o_children (inner s c)) s
     else find_in_children fuel ty to_search s)"

text \<open>
  The call of \<open>use_context\<close> in \<open>use_context_bidirectional\<close> is at the type \<open>Option<T>\<close>: its result
  is unwrapped to the result of the whole function. \<open>as_option\<close> is what a value of such a type holds.
\<close>

definition option_type :: "string \<Rightarrow> string" where
  "option_type ty = ''Option<'' @ ty @ ''>''"

definition use_context_bidirectional :: "('v \<Rightarrow> 'v option) \<Rightarrow> nat \<Rightarrow> string \<Rightarrow> nat \<Rightarrow> 'v owners \<Rightarrow> 'v option option" where
  "use_context_bidirectional as_option fuel ty n s =
    Option.bind (with_context fuel (option_type ty) n s) (\<lambda>found.
      case found of Some v \<Rightarrow> Some (as_option v) | None \<Rightarrow> find_in_children fuel ty (o_children (inner s n)) s)"

end
