(* ===== verification/Owner_Cleanup.thy ===== *)
theory Owner_Cleanup
  imports Owner_Tree
begin

text \<open>
  Cleaning up and dropping owners ends on every heap of owners, runs every registered cleanup
  function at most once (a panic drops some unrun), and leaves nothing registered with an owner that
  is gone.
\<close>

section \<open>What a teardown may change\<close>

definition emptied :: "'v owner_inner \<Rightarrow> bool" where
  "emptied x \<longleftrightarrow> o_children x = [] \<and> o_nodes x = [] \<and> o_cleanups x = []"

definition bounded :: "'v owners \<Rightarrow> bool" where
  "bounded s \<longleftrightarrow> (\<forall>n \<ge> next_owner s. emptied (inner s n))"

definition entries :: "'v owners \<Rightarrow> nat" where
  "entries s = (\<Sum>n < next_owner s. length (o_children (inner s n)) + length (o_nodes (inner s n)))"

text \<open>Every cleanup function, registered, run already or dropped by a panic.\<close>

definition total :: "'v owners \<Rightarrow> cleanup_fn multiset" where
  "total s = (\<Sum>n < next_owner s. mset (o_cleanups (inner s n))) + (mset (ran s) + mset (lost s))"

definition shrunk :: "'v owner_inner \<Rightarrow> 'v owner_inner \<Rightarrow> bool" where
  "shrunk x y \<longleftrightarrow> o_children y \<in> {o_children x, []} \<and> o_nodes y \<in> {o_nodes x, []} \<and> o_cleanups y \<in> {o_cleanups x, []}
     \<and> o_parent y = o_parent x \<and> o_contexts y = o_contexts x \<and> o_paused y = o_paused x"

definition torn :: "'v owners \<Rightarrow> 'v owners \<Rightarrow> bool" where
  "torn s s' \<longleftrightarrow> next_owner s' = next_owner s \<and> next_node s' = next_node s \<and> current s' = current s \<and> borrowed s' = borrowed s
     \<and> (\<forall>n. shrunk (inner s n) (inner s' n)) \<and> (\<forall>n. strong s' n \<le> strong s n)
     \<and> (\<forall>node held. arena s' node = Some held \<longrightarrow> arena s node = Some held)"

definition dead_clean :: "nat set \<Rightarrow> 'v owners \<Rightarrow> bool" where
  "dead_clean X s \<longleftrightarrow> (\<forall>n. \<not> alive s n \<longrightarrow> n \<in> X \<or> emptied (inner s n))"

definition torn_down :: "'v owners \<Rightarrow> 'v owners \<Rightarrow> bool" where
  "torn_down s s' \<longleftrightarrow> torn s s' \<and> total s' = total s \<and> (\<forall>X. dead_clean X s \<longrightarrow> dead_clean X s')"

lemma shrunk_refl [simp]: "shrunk x x"
  by (simp add: shrunk_def)

lemma shrunk_trans: "shrunk x y \<Longrightarrow> shrunk y z \<Longrightarrow> shrunk x z"
  by (auto simp: shrunk_def)

lemma torn_refl [simp]: "torn s s"
  by (simp add: torn_def)

lemma torn_trans: "torn s t \<Longrightarrow> torn t u \<Longrightarrow> torn s u"
  unfolding torn_def by (auto intro: shrunk_trans order.trans)

lemma torn_down_refl [simp]: "torn_down s s"
  by (simp add: torn_down_def)

lemma torn_down_trans: "torn_down s t \<Longrightarrow> torn_down t u \<Longrightarrow> torn_down s u"
  unfolding torn_down_def by (auto intro: torn_trans)

lemma shrunk_emptied: "shrunk x y \<Longrightarrow> emptied x \<Longrightarrow> emptied y"
  by (auto simp: shrunk_def emptied_def)

lemma torn_bounded: "torn s s' \<Longrightarrow> bounded s \<Longrightarrow> bounded s'"
  unfolding torn_def bounded_def using shrunk_emptied by metis

lemma torn_entries: "torn s s' \<Longrightarrow> entries s' \<le> entries s"
  by (auto simp: torn_def entries_def shrunk_def intro!: sum_mono add_mono)
     (metis insertE list.size(3) order_refl singletonD zero_le)+

lemma torn_emptied: "torn s s' \<Longrightarrow> emptied (inner s n) \<Longrightarrow> emptied (inner s' n)"
  unfolding torn_def using shrunk_emptied by blast

lemma on_inner_simps [simp]:
  "next_owner (on_inner n f s) = next_owner s" "next_node (on_inner n f s) = next_node s" "current (on_inner n f s) = current s"
  "borrowed (on_inner n f s) = borrowed s" "strong (on_inner n f s) = strong s" "arena (on_inner n f s) = arena s"
  "ran (on_inner n f s) = ran s" "panicked (on_inner n f s) = panicked s" "lost (on_inner n f s) = lost s"
  "unwinding (on_inner n f s) = unwinding s" "aborted (on_inner n f s) = aborted s" "alive (on_inner n f s) = alive s"
  "inner (on_inner n f s) = (inner s)(n := f (inner s n))"
  by (simp_all add: on_inner_def alive_def fun_eq_iff)

text \<open>Sums over all owners, when one of them changes.\<close>

lemma sum_owner_upd:
  fixes g :: "'b \<Rightarrow> 'c :: comm_monoid_add"
  assumes "n < (k :: nat)"
  shows "(\<Sum>m < k. g ((h(n := y)) m)) + g (h n) = (\<Sum>m < k. g (h m)) + g y"
proof -
  have "(\<Sum>m < k. g ((h(n := y)) m)) = g y + (\<Sum>m \<in> {..<k} - {n}. g (h m))"
    using assms by (subst sum.remove [of _ n]) (auto intro!: sum.cong)
  moreover have "(\<Sum>m < k. g (h m)) = g (h n) + (\<Sum>m \<in> {..<k} - {n}. g (h m))"
    using assms by (intro sum.remove) auto
  ultimately show ?thesis by (simp add: ac_simps)
qed

lemma sum_owner_upd_out:
  "\<not> n < (k :: nat) \<Longrightarrow> (\<Sum>m < k. g ((h(n := y)) m)) = (\<Sum>m < k. g (h m))"
  by (intro sum.cong) auto

lemma entries_on_inner:
  assumes "bounded s"
    and "length (o_children (f (inner s n))) + length (o_nodes (f (inner s n))) + d
      = length (o_children (inner s n)) + length (o_nodes (inner s n))"
  shows "entries (on_inner n f s) + d = entries s"
proof (cases "n < next_owner s")
  case True
  then show ?thesis
    using sum_owner_upd [OF True, of "\<lambda>x. length (o_children x) + length (o_nodes x)" "inner s" "f (inner s n)"] assms(2)
    by (simp add: entries_def)
next
  case False
  then have "d = 0" using assms by (simp add: bounded_def emptied_def)
  then show ?thesis
    using sum_owner_upd_out [OF False, of "\<lambda>x. length (o_children x) + length (o_nodes x)" "inner s"] by (simp add: entries_def)
qed

lemma total_on_inner:
  assumes "bounded s" and "mset (o_cleanups (f (inner s n))) + M = mset (o_cleanups (inner s n))"
  shows "total (on_inner n f s) + M = total s"
proof (cases "n < next_owner s")
  case True
  have "(\<Sum>m < next_owner s. mset (o_cleanups (((inner s)(n := f (inner s n))) m))) + mset (o_cleanups (inner s n))
      = (\<Sum>m < next_owner s. mset (o_cleanups (inner s m))) + mset (o_cleanups (f (inner s n)))"
    by (rule sum_owner_upd [OF True, of "\<lambda>x. mset (o_cleanups x)"])
  then have "(\<Sum>m < next_owner s. mset (o_cleanups (((inner s)(n := f (inner s n))) m))) + M
      = (\<Sum>m < next_owner s. mset (o_cleanups (inner s m)))"
    unfolding assms(2) [symmetric] by (simp add: ac_simps)
  then show ?thesis by (simp add: total_def ac_simps)
next
  case False
  then have "M = {#}" using assms by (simp add: bounded_def emptied_def)
  then show ?thesis
    using sum_owner_upd_out [OF False, of "\<lambda>x. mset (o_cleanups x)" "inner s"] by (simp add: total_def)
qed

text \<open>A panic splits the functions into those that were called and those that were dropped.\<close>

lemma run_cleanups:
  obtains called dropped found u where "fs = called @ dropped"
    and "fold run_cleanup fs s = s\<lparr>ran := ran s @ called, panicked := panicked s @ found, lost := lost s @ dropped, unwinding := u\<rparr>"
proof -
  have "\<exists>called dropped found u. fs = called @ dropped \<and> (unwinding s \<longrightarrow> called = [])
    \<and> fold run_cleanup fs s = s\<lparr>ran := ran s @ called, panicked := panicked s @ found, lost := lost s @ dropped, unwinding := u\<rparr>"
  proof (induction fs arbitrary: s)
    case Nil
    show ?case by (intro exI [of _ "[]"] exI [of _ "unwinding s"]) simp
  next
    case (Cons f fs)
    from Cons.IH [of "run_cleanup f s"] obtain called dropped found u where ih: "fs = called @ dropped"
        "unwinding (run_cleanup f s) \<longrightarrow> called = []"
        "fold run_cleanup fs (run_cleanup f s) = (run_cleanup f s)\<lparr>ran := ran (run_cleanup f s) @ called,
          panicked := panicked (run_cleanup f s) @ found, lost := lost (run_cleanup f s) @ dropped, unwinding := u\<rparr>"
      by blast
    consider "unwinding s" | "\<not> unwinding s" "snd f \<and> borrowed s" | "\<not> unwinding s" "\<not> (snd f \<and> borrowed s)" by blast
    then show ?case
    proof cases
      case 1
      then have "run_cleanup f s = s\<lparr>lost := lost s @ [f]\<rparr>" by (simp add: run_cleanup_def)
      then show ?thesis
        using 1 ih by - (rule exI [of _ "[]"], rule exI [of _ "f # dropped"], rule exI [of _ "found"], rule exI [of _ u], cases s, auto)
    next
      case 2
      then have "run_cleanup f s = s\<lparr>ran := ran s @ [f], panicked := panicked s @ [f], unwinding := True\<rparr>" by (simp add: run_cleanup_def)
      then show ?thesis
        using 2 ih by - (rule exI [of _ "f # called"], rule exI [of _ "dropped"], rule exI [of _ "f # found"], rule exI [of _ u], cases s, auto)
    next
      case 3
      then have "run_cleanup f s = s\<lparr>ran := ran s @ [f]\<rparr>" by (simp add: run_cleanup_def)
      then show ?thesis
        using 3 ih by - (rule exI [of _ "f # called"], rule exI [of _ "dropped"], rule exI [of _ "found"], rule exI [of _ u], cases s, auto)
    qed
  qed
  then show ?thesis using that by blast
qed

lemma run_cleanups_keep [simp]:
  "next_owner (fold run_cleanup fs s) = next_owner s" "next_node (fold run_cleanup fs s) = next_node s"
  "current (fold run_cleanup fs s) = current s" "borrowed (fold run_cleanup fs s) = borrowed s"
  "inner (fold run_cleanup fs s) = inner s" "strong (fold run_cleanup fs s) = strong s" "arena (fold run_cleanup fs s) = arena s"
  "aborted (fold run_cleanup fs s) = aborted s"
  by (rule run_cleanups [of fs s]; simp)+

lemma run_cleanups_total:
  "mset (ran (fold run_cleanup fs s)) + mset (lost (fold run_cleanup fs s)) = mset (ran s) + mset (lost s) + mset fs"
  by (rule run_cleanups [of fs s]) (simp add: ac_simps)

lemma run_cleanups_on_inner: "fold run_cleanup fs (on_inner n f s) = on_inner n f (fold run_cleanup fs s)"
proof (induction fs arbitrary: s)
  case (Cons g fs)
  have "run_cleanup g (on_inner n f s) = on_inner n f (run_cleanup g s)" by (simp add: run_cleanup_def on_inner_def)
  then show ?case by (simp add: Cons.IH)
qed simp

text \<open>Without a panic on its way and outside of the borrow, all of them are called.\<close>

lemma run_cleanups_calm:
  "\<not> unwinding s \<Longrightarrow> \<not> borrowed s \<Longrightarrow> fold run_cleanup fs s = s\<lparr>ran := ran s @ fs\<rparr>"
  by (induction fs arbitrary: s) (simp_all add: run_cleanup_def)

text \<open>That a panic is on its way is no matter for what a teardown changes.\<close>

lemma unwinding_same [simp]:
  "bounded (s\<lparr>unwinding := u\<rparr>) = bounded s" "entries (s\<lparr>unwinding := u\<rparr>) = entries s" "total (s\<lparr>unwinding := u\<rparr>) = total s"
  "dead_clean X (s\<lparr>unwinding := u\<rparr>) = dead_clean X s" "torn (s\<lparr>unwinding := u\<rparr>) t = torn s t" "torn t (s\<lparr>unwinding := u\<rparr>) = torn t s"
  "alive (s\<lparr>unwinding := u\<rparr>) = alive s"
  by (simp_all add: bounded_def entries_def total_def dead_clean_def torn_def alive_def fun_eq_iff)

lemma end_drop_same [simp]:
  "bounded (end_drop b s) = bounded s" "entries (end_drop b s) = entries s" "total (end_drop b s) = total s"
  "dead_clean X (end_drop b s) = dead_clean X s" "torn t (end_drop b s) = torn t s" "inner (end_drop b s) = inner s"
  "strong (end_drop b s) = strong s"
  by (simp_all add: end_drop_def bounded_def entries_def total_def dead_clean_def torn_def alive_def)

lemma remove_nodes_arena: "snd (remove_nodes ns a) = (\<lambda>node. if node \<in> set ns then None else a node)"
proof (induction ns arbitrary: a)
  case (Cons node ns)
  then show ?case by (cases "a node") (auto simp: Let_def case_prod_unfold fun_eq_iff)
qed simp

section \<open>The two calls\<close>

definition cleanup_works :: "nat \<Rightarrow> 'v owners itself \<Rightarrow> bool" where
  "cleanup_works fuel ty \<longleftrightarrow> (\<forall>n (s :: 'v owners). bounded s \<longrightarrow> entries s < fuel \<longrightarrow>
     (\<exists>s'. cleanup fuel n s = Some s' \<and> torn_down s s' \<and> emptied (inner s' n)))"

definition release_works :: "nat \<Rightarrow> 'v owners itself \<Rightarrow> bool" where
  "release_works fuel ty \<longleftrightarrow> (\<forall>n (s :: 'v owners). bounded s \<longrightarrow> entries s < fuel \<longrightarrow>
     (\<exists>s'. release fuel n s = Some s' \<and> total s' = total s \<and> torn s s' \<and> strong s' n \<le> strong s n - 1
        \<and> (\<forall>X. dead_clean X s \<longrightarrow> dead_clean X s')))"

abbreviation child_round :: "nat \<Rightarrow> nat \<Rightarrow> 'v owners \<Rightarrow> 'v owners option" where
  "child_round fuel c s \<equiv>
    (if alive s c \<and> \<not> unwinding s then Option.bind (cleanup fuel c (retain c s)) (\<lambda>s. release fuel c s) else Some s)"

text \<open>The end of both: the taken functions, then the taken nodes.\<close>

abbreviation teardown_rest :: "nat \<Rightarrow> cleanup_fn list \<Rightarrow> nat list \<Rightarrow> 'v owners \<Rightarrow> 'v owners option" where
  "teardown_rest fuel fs ns s \<equiv>
    (let s = fold run_cleanup fs s
     in if unwinding s then Some s
        else (let (held, a) = remove_nodes ns (arena s) in fold_opt (\<lambda>n s. release fuel n s) held (s\<lparr>arena := a\<rparr>)))"

lemma retain_simps [simp]:
  "next_owner (retain n s) = next_owner s" "next_node (retain n s) = next_node s" "current (retain n s) = current s"
  "borrowed (retain n s) = borrowed s" "inner (retain n s) = inner s" "arena (retain n s) = arena s" "ran (retain n s) = ran s"
  "lost (retain n s) = lost s" "panicked (retain n s) = panicked s" "unwinding (retain n s) = unwinding s" "aborted (retain n s) = aborted s"
  "strong (retain n s) m = (if m = n then Suc (strong s n) else strong s m)"
  by (simp_all add: retain_def)

lemma release_parts:
  "release (Suc fuel) n s =
    (let d = s\<lparr>strong := (strong s)(n := strong s n - 1)\<rparr>
     in if alive d n then Some d
        else map_option (end_drop (unwinding d)) (Option.bind
          (fold_opt (child_round fuel) (o_children (inner d n)) (on_inner n (\<lambda>x. x\<lparr>o_children := []\<rparr>) (d\<lparr>unwinding := False\<rparr>)))
          (\<lambda>u. teardown_rest fuel (o_cleanups (inner u n)) (o_nodes (inner u n)) (on_inner n (\<lambda>x. x\<lparr>o_cleanups := [], o_nodes := []\<rparr>) u))))"
proof -
  have swap: "(on_inner n f t)\<lparr>arena := a\<rparr> = on_inner n f (t\<lparr>arena := a\<rparr>)" for f a and t :: "'a owners"
    by (simp add: on_inner_def)
  have two: "on_inner n f (on_inner n g t) = on_inner n (\<lambda>x. f (g x)) t" for f g and t :: "'a owners"
    by (simp add: on_inner_def)
  have "(let s = fold run_cleanup fs (on_inner n (\<lambda>x. x\<lparr>o_cleanups := []\<rparr>) u)
         in if unwinding s then Some (on_inner n (\<lambda>x. x\<lparr>o_nodes := []\<rparr>) s)
            else (let (held, a) = remove_nodes (o_nodes (inner s n)) (arena s)
                  in fold_opt (\<lambda>n s. release fuel n s) held (on_inner n (\<lambda>x. x\<lparr>o_nodes := []\<rparr>) (s\<lparr>arena := a\<rparr>))))
      = teardown_rest fuel fs (o_nodes (inner u n)) (on_inner n (\<lambda>x. x\<lparr>o_cleanups := [], o_nodes := []\<rparr>) u)" for fs and u :: "'a owners"
    unfolding run_cleanups_on_inner Let_def swap [symmetric] by (simp add: two)
  then show ?thesis unfolding release.simps Let_def by simp
qed

lemma retain_same: "bounded (retain n s) = bounded s" "entries (retain n s) = entries s" "total (retain n s) = total s"
  "dead_clean X s \<Longrightarrow> dead_clean X (retain n s)"
  by (auto simp: bounded_def entries_def total_def dead_clean_def alive_def split: if_splits)

lemma child_round_works:
  assumes "cleanup_works fuel TYPE('v owners)" and "release_works fuel TYPE('v owners)"
    and "bounded (s :: 'v owners)" and "entries s < fuel"
  shows "\<exists>s'. child_round fuel c s = Some s' \<and> torn_down s s'"
proof (cases "alive s c \<and> \<not> unwinding s")
  case True
  obtain s1 where s1: "cleanup fuel c (retain c s) = Some s1" "torn_down (retain c s) s1"
    using assms unfolding cleanup_works_def by (metis retain_same(1,2))
  then have "bounded s1" "entries s1 < fuel"
    using torn_bounded torn_entries [of "retain c s" s1] assms(3,4) retain_same(1,2) [of c s] by (auto simp: torn_down_def)
  then obtain s2 where s2: "release fuel c s1 = Some s2" "total s2 = total s1" "torn s1 s2" "strong s2 c \<le> strong s1 c - 1"
      "\<forall>X. dead_clean X s1 \<longrightarrow> dead_clean X s2"
    using assms(2) unfolding release_works_def by blast
  have t: "torn (retain c s) s2" using s1(2) s2(3) torn_trans by (auto simp: torn_down_def)
  have "strong s1 c \<le> Suc (strong s c)" using s1(2) by (auto simp: torn_down_def torn_def split: if_splits)
  then have "strong s2 m \<le> strong s m" for m
    using s2(4) t by (cases "m = c") (auto simp: torn_def split: if_splits)
  then have "torn s s2" using t by (simp add: torn_def)
  moreover have "dead_clean X s2" if "dead_clean X s" for X
    using s2(5) s1(2) retain_same(4) [OF that] by (auto simp: torn_down_def)
  ultimately have "torn_down s s2" using s1(2) s2(2) retain_same(3) [of c s] by (simp add: torn_down_def)
  then show ?thesis using True s1(1) s2(1) by auto
next
  case False
  then show ?thesis by (intro exI [of _ s]) auto
qed

lemma fold_torn_down:
  assumes "\<And>x s. x \<in> set xs \<Longrightarrow> bounded s \<Longrightarrow> entries s < fuel \<Longrightarrow> \<exists>s'. f x s = Some s' \<and> torn_down s s'"
    and "bounded s" and "entries s < fuel"
  shows "\<exists>s'. fold_opt f xs s = Some s' \<and> torn_down s s'"
proof -
  have "\<exists>s'. fold_opt f xs s = Some s' \<and> torn_down s s' \<and> (\<forall>x \<in> set xs. True)"
  proof (rule fold_opt_reaches [where I = "\<lambda>s. bounded s \<and> entries s < fuel" and R = torn_down and Q = "\<lambda>_ _. True"])
    show "torn_down s s" for s by simp
    show "torn_down s t \<Longrightarrow> torn_down t u \<Longrightarrow> torn_down s u" for s t u by (rule torn_down_trans)
    show "bounded s \<and> entries s < fuel \<Longrightarrow> torn_down s t \<Longrightarrow> bounded t \<and> entries t < fuel" for s t
      using torn_bounded torn_entries by (fastforce simp: torn_down_def)
  qed (use assms in auto)
  then show ?thesis by simp
qed

lemma fold_release_works:
  assumes "release_works fuel TYPE('v owners)" and "bounded (s :: 'v owners)" and "entries s < fuel"
  shows "\<exists>s'. fold_opt (\<lambda>n s. release fuel n s) held s = Some s' \<and> torn_down s s'"
  using assms(1) by (intro fold_torn_down [OF _ assms(2,3)]) (auto simp: release_works_def torn_down_def, blast)

lemma children_work:
  assumes "cleanup_works fuel TYPE('v owners)" and "release_works fuel TYPE('v owners)"
    and "bounded (s :: 'v owners)" and "cs \<noteq> [] \<Longrightarrow> entries s < fuel"
  shows "\<exists>s'. fold_opt (child_round fuel) cs s = Some s' \<and> torn_down s s'"
proof (cases "cs = []")
  case False
  show ?thesis
    by (rule fold_torn_down [OF _ assms(3) assms(4) [OF False]]) (rule child_round_works [OF assms(1,2)])
qed simp

text \<open>Running the cleanup functions and removing the nodes of an owner that were taken from it.\<close>

lemma teardown_tail:
  assumes "release_works fuel TYPE('v owners)" and "bounded (s :: 'v owners)" and "ns \<noteq> [] \<Longrightarrow> entries s < fuel"
  shows "\<exists>s'. teardown_rest fuel fs ns s = Some s'
    \<and> torn s s' \<and> total s' = total s + mset fs \<and> (\<forall>X. dead_clean X s \<longrightarrow> dead_clean X s')"
proof -
  define t where "t = fold run_cleanup fs s"
  have t: "bounded t" "entries t = entries s" "torn s t" "total t = total s + mset fs" "dead_clean X s \<Longrightarrow> dead_clean X t" for X
    using assms(2) run_cleanups_total [of fs s]
    by (simp_all add: t_def bounded_def entries_def torn_def total_def dead_clean_def alive_def ac_simps)
  obtain held a where h: "remove_nodes ns (arena t) = (held, a)" by fastforce
  let ?s = "t\<lparr>arena := a\<rparr>"
  have a: "a node = Some h \<Longrightarrow> arena t node = Some h" for node h
    using remove_nodes_arena [of ns "arena t"] h by (auto split: if_splits)
  have "torn t ?s" using a by (simp add: torn_def)
  then have s: "bounded ?s" "entries ?s = entries s" "torn s ?s" "total ?s = total s + mset fs" "dead_clean X s \<Longrightarrow> dead_clean X ?s" for X
    using t torn_trans [OF t(3)] t(5) [of X] by (simp_all add: bounded_def entries_def total_def dead_clean_def alive_def)
  have "\<exists>s'. fold_opt (\<lambda>n s. release fuel n s) held ?s = Some s' \<and> torn_down ?s s'"
  proof (cases "ns = []")
    case True
    then show ?thesis using h by simp
  next
    case False
    then show ?thesis using fold_release_works [OF assms(1) s(1)] s(2) assms(3) by simp
  qed
  then obtain s' where s': "fold_opt (\<lambda>n s. release fuel n s) held ?s = Some s'" "torn_down ?s s'" by blast
  show ?thesis
  proof (cases "unwinding t")
    case True
    then show ?thesis using t by (simp add: t_def [symmetric] Let_def)
  next
    case False
    then show ?thesis
      using s' s torn_trans [OF s(3)] by (auto simp: t_def [symmetric] Let_def h torn_down_def)
  qed
qed

lemma on_inner_shrunk: "shrunk (inner s n) (f (inner s n)) \<Longrightarrow> torn s (on_inner n f s)"
  by (simp add: torn_def)

lemma on_inner_dead_clean:
  "dead_clean X s \<Longrightarrow> shrunk (inner s n) (f (inner s n)) \<Longrightarrow> dead_clean X (on_inner n f s)"
  using shrunk_emptied by (auto simp: dead_clean_def)

lemma cleanup_step:
  assumes "cleanup_works fuel TYPE('v owners)" and "release_works fuel TYPE('v owners)"
    and b: "bounded (s :: 'v owners)" and e: "entries s < Suc fuel"
  shows "\<exists>s'. cleanup (Suc fuel) n s = Some s' \<and> torn_down s s' \<and> emptied (inner s' n)"
proof -
  define old where "old = inner s n"
  define s1 where "s1 = on_inner n (\<lambda>x. x\<lparr>o_cleanups := [], o_nodes := [], o_children := []\<rparr>) s"
  have t1: "torn s s1" "dead_clean X s \<Longrightarrow> dead_clean X s1" for X
    by (auto simp: s1_def shrunk_def intro: on_inner_shrunk on_inner_dead_clean)
  have e1: "entries s1 + (length (o_children old) + length (o_nodes old)) = entries s"
    unfolding s1_def old_def by (rule entries_on_inner [OF b]) simp
  have m1: "total s1 + mset (o_cleanups old) = total s"
    unfolding s1_def old_def by (rule total_on_inner [OF b]) simp
  have c1: "o_children old \<noteq> [] \<Longrightarrow> entries s1 < fuel" and n1: "o_nodes old \<noteq> [] \<Longrightarrow> entries s1 < fuel"
    using e e1 by (auto simp: neq_Nil_conv)
  obtain s2 where s2: "fold_opt (child_round fuel) (o_children old) s1 = Some s2" "torn_down s1 s2"
    using children_work [OF assms(1,2) torn_bounded [OF t1(1) b] c1] by blast
  have t2: "torn s s2" "torn s1 s2" using t1(1) s2(2) torn_trans by (auto simp: torn_down_def)
  obtain s3 where s3: "teardown_rest fuel (o_cleanups old) (o_nodes old) s2 = Some s3"
      "torn s2 s3" "total s3 = total s2 + mset (o_cleanups old)" "\<forall>X. dead_clean X s2 \<longrightarrow> dead_clean X s3"
    using teardown_tail [OF assms(2) torn_bounded [OF t2(1) b], of "o_nodes old" "o_cleanups old"] n1 torn_entries [OF t2(2)] by fastforce
  have "cleanup (Suc fuel) n s = Some s3"
    using s2(1) s3(1) [unfolded Let_def]
    unfolding cleanup.simps Let_def old_def [symmetric] s1_def [symmetric] by simp
  moreover have "torn_down s s3"
    using t1 s2(2) s3 m1 torn_trans [OF t2(1) s3(2)] by (auto simp: torn_down_def)
  moreover have "emptied (inner s3 n)"
    by (rule torn_emptied [OF torn_trans [OF t2(2) s3(2)]]) (simp add: s1_def emptied_def)
  ultimately show ?thesis by blast
qed

lemma release_step:
  assumes "cleanup_works fuel TYPE('v owners)" and "release_works fuel TYPE('v owners)"
    and b: "bounded (s :: 'v owners)" and e: "entries s < Suc fuel"
  shows "\<exists>s'. release (Suc fuel) n s = Some s' \<and> total s' = total s \<and> torn s s' \<and> strong s' n \<le> strong s n - 1
    \<and> (\<forall>X. dead_clean X s \<longrightarrow> dead_clean X s')"
proof -
  define s0 where "s0 = s\<lparr>strong := (strong s)(n := strong s n - 1)\<rparr>"
  have s0: "torn s s0" "bounded s0" "entries s0 = entries s" "total s0 = total s" "strong s0 n = strong s n - 1"
    using b by (auto simp: s0_def torn_def bounded_def entries_def total_def)
  have d0: "dead_clean X s \<Longrightarrow> dead_clean (insert n X) s0" for X
    by (auto simp: s0_def dead_clean_def alive_def split: if_splits)
  show ?thesis
  proof (cases "alive s0 n")
    case True
    then have "dead_clean X s \<Longrightarrow> dead_clean X s0" for X by (auto simp: s0_def dead_clean_def alive_def split: if_splits)
    then show ?thesis using True s0 by (intro exI [of _ s0]) (auto simp: s0_def Let_def)
  next
    case False
    define s0' where "s0' = s0\<lparr>unwinding := False\<rparr>"
    have b0: "bounded s0'" and i0: "inner s0' = inner s0" using s0(2) by (simp_all add: s0'_def)
    define s1 where "s1 = on_inner n (\<lambda>x. x\<lparr>o_children := []\<rparr>) s0'"
    have "torn s0' s1" "dead_clean X s0' \<Longrightarrow> dead_clean X s1" for X
      by (auto simp: s1_def shrunk_def intro: on_inner_shrunk on_inner_dead_clean)
    then have t1: "torn s0 s1" "dead_clean X s0 \<Longrightarrow> dead_clean X s1" for X by (simp_all add: s0'_def)
    have "entries s1 + length (o_children (inner s0' n)) = entries s0'"
      unfolding s1_def by (rule entries_on_inner [OF b0]) simp
    then have e1: "entries s1 + length (o_children (inner s0 n)) = entries s0" by (simp add: s0'_def)
    have "total s1 + {#} = total s0'" unfolding s1_def by (rule total_on_inner [OF b0]) simp
    then have m1: "total s1 + {#} = total s0" by (simp add: s0'_def)
    have c1: "o_children (inner s0 n) \<noteq> [] \<Longrightarrow> entries s1 < fuel" using e e1 s0(3) by (auto simp: neq_Nil_conv)
    obtain s2 where s2: "fold_opt (child_round fuel) (o_children (inner s0 n)) s1 = Some s2" "torn_down s1 s2"
      using children_work [OF assms(1,2) torn_bounded [OF t1(1) s0(2)] c1] by blast
    have t2: "torn s0 s2" "torn s1 s2" using t1(1) s2(2) torn_trans by (auto simp: torn_down_def)
    define s4 where "s4 = on_inner n (\<lambda>x. x\<lparr>o_cleanups := []\<rparr>) s2"
    define s5 where "s5 = on_inner n (\<lambda>x. x\<lparr>o_nodes := []\<rparr>) s4"
    have t4: "torn s2 s4" "dead_clean X s2 \<Longrightarrow> dead_clean X s4" for X
      by (auto simp: s4_def shrunk_def intro: on_inner_shrunk on_inner_dead_clean)
    have t5: "torn s4 s5" "dead_clean X s4 \<Longrightarrow> dead_clean X s5" for X
      by (auto simp: s5_def shrunk_def intro: on_inner_shrunk on_inner_dead_clean)
    have b2: "bounded s2" and b4: "bounded s4" and b5: "bounded s5"
      using s0(2) t2(1) t4(1) t5(1) torn_bounded by blast+
    have m4: "total s4 + mset (o_cleanups (inner s2 n)) = total s2"
      unfolding s4_def by (rule total_on_inner [OF b2]) simp
    have m5: "total s5 + {#} = total s4" unfolding s5_def by (rule total_on_inner [OF b4]) simp
    have "entries s5 + length (o_nodes (inner s4 n)) = entries s4"
      unfolding s5_def by (rule entries_on_inner [OF b4]) simp
    then have n5: "o_nodes (inner s4 n) \<noteq> [] \<Longrightarrow> entries s5 < fuel"
      using e s0(3) torn_entries [OF t2(1)] torn_entries [OF t4(1)] by (auto simp: neq_Nil_conv)
    obtain s6 where s6: "teardown_rest fuel (o_cleanups (inner s2 n)) (o_nodes (inner s4 n)) s5 = Some s6"
        "torn s5 s6" "total s6 = total s5 + mset (o_cleanups (inner s2 n))" "\<forall>X. dead_clean X s5 \<longrightarrow> dead_clean X s6"
      using teardown_tail [OF assms(2) b5 n5, where fs = "o_cleanups (inner s2 n)"] by auto
    have "release (Suc fuel) n s = Some (end_drop (unwinding s0) s6)"
    proof -
      have swap: "(on_inner n f t)\<lparr>arena := a\<rparr> = on_inner n f (t\<lparr>arena := a\<rparr>)" for f a and t :: "'v owners"
        by (simp add: on_inner_def)
      have rest: "(let s = fold run_cleanup fs s4
           in if unwinding s then Some (on_inner n (\<lambda>x. x\<lparr>o_nodes := []\<rparr>) s)
              else (let (held, a) = remove_nodes (o_nodes (inner s n)) (arena s)
                    in fold_opt (\<lambda>n s. release fuel n s) held (on_inner n (\<lambda>x. x\<lparr>o_nodes := []\<rparr>) (s\<lparr>arena := a\<rparr>))))
        = teardown_rest fuel fs (o_nodes (inner s4 n)) s5" for fs
        unfolding s5_def run_cleanups_on_inner Let_def swap [symmetric] by simp
      show ?thesis
        using False s2(1) s6(1) rest [of "o_cleanups (inner s2 n)"]
        unfolding release.simps s0_def [symmetric]
        by (simp only: Let_def if_False s0'_def [symmetric] s1_def [symmetric] s4_def [symmetric] bind.simps option.map)
    qed
    moreover have t6: "torn s0 s6" using t2(1) t4(1) t5(1) s6(2) torn_trans by blast
    moreover have "emptied (inner s6 n)"
    proof -
      have "o_children (inner s1 n) = []" by (simp add: s1_def)
      moreover have "shrunk (inner s1 n) (inner s2 n)" using t2(2) by (simp add: torn_def)
      ultimately have "o_children (inner s2 n) = []" by (auto simp: shrunk_def)
      then have "emptied (inner s5 n)" by (simp add: s5_def s4_def emptied_def)
      then show ?thesis using s6(2) torn_emptied by blast
    qed
    moreover have "dead_clean (insert n X) s6" if "dead_clean X s" for X
      using d0 [OF that] t1(2) s2(2) t4(2) t5(2) s6(4) by (auto simp: torn_down_def)
    ultimately have "dead_clean X s \<Longrightarrow> dead_clean X s6" for X by (auto simp: dead_clean_def)
    moreover have "total s6 = total s" using m1 m4 m5 s0(4) s2(2) s6(3) by (simp add: torn_down_def)
    moreover have "strong s6 n \<le> strong s n - 1" using t6 unfolding torn_def s0(5) [symmetric] by blast
    ultimately show ?thesis
      using \<open>release (Suc fuel) n s = Some (end_drop (unwinding s0) s6)\<close> torn_trans [OF s0(1) t6]
      by (intro exI [of _ "end_drop (unwinding s0) s6"]) auto
  qed
qed

lemma teardown_works: "cleanup_works fuel TYPE('v owners) \<and> release_works fuel TYPE('v owners)"
proof (induction fuel)
  case (Suc fuel)
  then show ?case
    unfolding cleanup_works_def [of "Suc fuel"] release_works_def [of "Suc fuel"]
    by (blast intro: cleanup_step release_step)
qed (simp add: cleanup_works_def release_works_def)

declare cleanup.simps [simp del] release.simps [simp del]

lemma cleanup_torn_down:
  "bounded s \<Longrightarrow> entries s < fuel \<Longrightarrow> \<exists>s'. cleanup fuel n s = Some s' \<and> torn_down s s' \<and> emptied (inner s' n)"
  using teardown_works unfolding cleanup_works_def by blast

lemma release_torn_down:
  "bounded s \<Longrightarrow> entries s < fuel \<Longrightarrow> \<exists>s'. release fuel n s = Some s' \<and> torn_down s s' \<and> strong s' n \<le> strong s n - 1"
  using teardown_works unfolding release_works_def torn_down_def by blast

section \<open>What every step keeps\<close>

text \<open>
  A property of the panic fields that each step of a teardown keeps. The flag says what has to hold
  because a panic was on its way when the teardown began.
\<close>

definition step_keeps :: "(bool \<Rightarrow> 'v owners \<Rightarrow> bool) \<Rightarrow> bool" where
  "step_keeps I \<longleftrightarrow>
     (\<forall>b s n f. I b s \<longrightarrow> I b (on_inner n f s)) \<and> (\<forall>b s h. I b s \<longrightarrow> I b (s\<lparr>strong := h\<rparr>))
   \<and> (\<forall>b s a. I b s \<longrightarrow> I b (s\<lparr>arena := a\<rparr>)) \<and> (\<forall>b s f. I b s \<longrightarrow> I b (run_cleanup f s))
   \<and> (\<forall>b s. I b s \<longrightarrow> I (b \<or> unwinding s) (s\<lparr>unwinding := False\<rparr>))
   \<and> (\<forall>b u s. I (b \<or> u) s \<longrightarrow> I b (end_drop u s))"

lemma fold_opt_keeps:
  "fold_opt f xs s = Some s' \<Longrightarrow> P s \<Longrightarrow> (\<And>x s s'. f x s = Some s' \<Longrightarrow> P s \<Longrightarrow> P s') \<Longrightarrow> P s'"
proof (induction xs arbitrary: s)
  case (Cons x xs)
  then obtain t where "f x s = Some t" "fold_opt f xs t = Some s'" by (auto simp: bind_eq_Some_conv)
  then show ?case using Cons.IH Cons.prems(2,3) by blast
qed simp

lemma run_cleanups_keep_step: "step_keeps I \<Longrightarrow> I b s \<Longrightarrow> I b (fold run_cleanup fs s)"
proof (induction fs arbitrary: s)
  case (Cons f fs)
  have "I b (run_cleanup f s)" using Cons.prems unfolding step_keeps_def by blast
  then show ?case using Cons by simp
qed simp

lemma teardown_keeps:
  fixes I :: "bool \<Rightarrow> 'v owners \<Rightarrow> bool"
  assumes I: "step_keeps I"
  shows "(\<forall>n b s s'. cleanup fuel n s = Some s' \<longrightarrow> I b s \<longrightarrow> I b s') \<and> (\<forall>n b s s'. release fuel n s = Some s' \<longrightarrow> I b s \<longrightarrow> I b s')"
proof (induction fuel)
  case 0
  then show ?case by (simp add: cleanup.simps release.simps)
next
  case (Suc fuel)
  have rel: "I b t" if "fold_opt (\<lambda>n s. release fuel n s) held s = Some t" "I b s" for held b s t
    by (rule fold_opt_keeps [where P = "I b", OF that]) (use Suc.IH in blast)
  have kids: "I b t" if "fold_opt (child_round fuel) cs s = Some t" "I b s" for cs b s t
  proof (rule fold_opt_keeps [where P = "I b", OF that])
    fix c s' t' assume "child_round fuel c s' = Some t'" "I b s'"
    moreover have "I b (retain c s')" if "I b s'" using I that by (simp add: step_keeps_def retain_def)
    ultimately show "I b t'" using Suc.IH by (auto simp: bind_eq_Some_conv split: if_splits)
  qed
  have rest: "I b t" if r: "teardown_rest fuel fs ns s = Some t" and b: "I b s" for fs ns b s t
  proof -
    let ?t = "fold run_cleanup fs s"
    have t: "I b ?t" by (rule run_cleanups_keep_step [OF I b])
    then have "I b (?t\<lparr>arena := a\<rparr>)" for a using I by (simp add: step_keeps_def)
    then show ?thesis using r t by (auto simp: Let_def case_prod_unfold split: if_splits intro: rel)
  qed
  show ?case
  proof (intro conjI allI impI)
    fix n b and s s' :: "'v owners" assume c: "cleanup (Suc fuel) n s = Some s'" and b: "I b s"
    define t where "t = on_inner n (\<lambda>x. x\<lparr>o_cleanups := [], o_nodes := [], o_children := []\<rparr>) s"
    obtain u where u: "fold_opt (child_round fuel) (o_children (inner s n)) t = Some u"
        "teardown_rest fuel (o_cleanups (inner s n)) (o_nodes (inner s n)) u = Some s'"
      using c unfolding cleanup.simps Let_def t_def [symmetric] by (auto simp: bind_eq_Some_conv)
    have "I b t" using I b by (simp add: step_keeps_def t_def)
    then show "I b s'" using kids [OF u(1)] rest [OF u(2)] by blast
  next
    fix n b and s s' :: "'v owners" assume c: "release (Suc fuel) n s = Some s'" and b: "I b s"
    define d where "d = s\<lparr>strong := (strong s)(n := strong s n - 1)\<rparr>"
    have d: "I b d" using I b by (simp add: step_keeps_def d_def)
    show "I b s'"
    proof (cases "alive d n")
      case True
      then show ?thesis using c d by (simp add: release.simps Let_def d_def)
    next
      case False
      define t where "t = on_inner n (\<lambda>x. x\<lparr>o_children := []\<rparr>) (d\<lparr>unwinding := False\<rparr>)"
      obtain u w where u: "fold_opt (child_round fuel) (o_children (inner d n)) t = Some u"
          and w: "teardown_rest fuel (o_cleanups (inner u n)) (o_nodes (inner u n))
            (on_inner n (\<lambda>x. x\<lparr>o_cleanups := [], o_nodes := []\<rparr>) u) = Some w"
          and s': "s' = end_drop (unwinding d) w"
        using c False unfolding release_parts d_def [symmetric] Let_def [of d] t_def [symmetric]
        by (auto simp del: fold_opt.simps simp: bind_eq_Some_conv)
      have "I (b \<or> unwinding d) t" using I d by (simp add: step_keeps_def t_def)
      then have "I (b \<or> unwinding d) (on_inner n (\<lambda>x. x\<lparr>o_cleanups := [], o_nodes := []\<rparr>) u)"
        using kids [OF u] I by (simp add: step_keeps_def)
      then have "I (b \<or> unwinding d) w" by (rule rest [OF w])
      then show ?thesis using I by (simp add: step_keeps_def s')
    qed
  qed
qed

lemma dispose_keeps:
  assumes I: "step_keeps I" and d: "dispose_item fuel node s = Some s'" and s: "I b s"
  shows "I b s'"
proof -
  obtain held a where "fold_opt (\<lambda>n s. release fuel n s) held (s\<lparr>arena := a\<rparr>) = Some s'"
    using d by (auto simp: dispose_item_def case_prod_unfold Let_def)
  moreover have "I b (s\<lparr>arena := a\<rparr>)" using I s by (simp add: step_keeps_def)
  ultimately show ?thesis
    by (rule fold_opt_keeps [where P = "I b"]) (use teardown_keeps [OF I] in blast)
qed

end
