(* ===== verification/Owner_Lifetime.thy ===== *)
theory Owner_Lifetime
  imports Owner_Cleanup
begin

text \<open>
  The life of a thread's owners: every sequence of the operations keeps the owners a tree, runs
  each registered cleanup function at most once, loses one only through a panic of another, and
  leaves a dropped owner empty.
\<close>

section \<open>Sequences of operations\<close>

text \<open>
  \<open>owners_reach R s\<close>: the operations led to \<open>s\<close>, and the cleanup functions \<open>R\<close> were registered on
  the way. An operation on an owner needs a handle to it, so the owner is alive. While a panic
  unwinds, handles on its way are dropped, until it is caught.
\<close>

inductive owners_reach :: "cleanup_fn multiset \<Rightarrow> 'v owners \<Rightarrow> bool" where
  reach_start: "owners_reach {#} no_owners"
| reach_new: "owners_reach R s \<Longrightarrow> owners_reach R (snd (owner_new s))"
| reach_child: "owners_reach R s \<Longrightarrow> alive s n \<Longrightarrow> owners_reach R (snd (owner_child n s))"
| reach_root: "owners_reach R s \<Longrightarrow> owners_reach R (snd (new_root s))"
| reach_current: "owners_reach R s \<Longrightarrow> owners_reach R (s\<lparr>current := w\<rparr>)"
| reach_register: "owners_reach R s \<Longrightarrow> current_owner s \<noteq> None \<Longrightarrow> owners_reach (add_mset f R) (on_cleanup f s)"
| reach_store: "owners_reach R s \<Longrightarrow> owners_reach R (snd (store_item held s))"
| reach_clone: "owners_reach R s \<Longrightarrow> alive s n \<Longrightarrow> owners_reach R (retain n s)"
| reach_drop: "owners_reach R s \<Longrightarrow> alive s n \<Longrightarrow> release (Suc (entries s)) n s = Some s' \<Longrightarrow> owners_reach R s'"
| reach_cleanup: "owners_reach R s \<Longrightarrow> \<not> unwinding s \<Longrightarrow> alive s n \<Longrightarrow> cleanup (Suc (entries s)) n s = Some s' \<Longrightarrow> owners_reach R s'"
| reach_unset: "owners_reach R s \<Longrightarrow> \<not> unwinding s \<Longrightarrow> alive s n \<Longrightarrow> owner_unset (Suc (entries s)) n s = Some s' \<Longrightarrow> owners_reach R s'"
| reach_unset_forced: "owners_reach R s \<Longrightarrow> \<not> unwinding s \<Longrightarrow> alive s n \<Longrightarrow> unset_with_forced_cleanup (Suc (entries s)) n s = Some s'
    \<Longrightarrow> owners_reach R s'"
| reach_caught: "owners_reach R s \<Longrightarrow> owners_reach R (s\<lparr>unwinding := False\<rparr>)"
| reach_dispose: "owners_reach R s \<Longrightarrow> dispose_item (Suc (entries s)) node s = Some s' \<Longrightarrow> owners_reach R s'"
| reach_provide: "owners_reach R s \<Longrightarrow> alive s n \<Longrightarrow> owners_reach R (provide_context ty v n s)"
| reach_take: "owners_reach R s \<Longrightarrow> alive s n \<Longrightarrow> take_context fuel ty n s = Some (r, s') \<Longrightarrow> owners_reach R s'"
| reach_update: "owners_reach R s \<Longrightarrow> alive s n \<Longrightarrow> update_context fuel ty cb n s = Some (b, s') \<Longrightarrow> owners_reach R s'"
| reach_pause: "owners_reach R s \<Longrightarrow> alive s n \<Longrightarrow> pause fuel n s = Some s' \<Longrightarrow> owners_reach R s'"
| reach_resume: "owners_reach R s \<Longrightarrow> alive s n \<Longrightarrow> resume fuel n s = Some s' \<Longrightarrow> owners_reach R s'"

section \<open>The invariant\<close>

definition family :: "'v owners \<Rightarrow> bool" where
  "family s \<longleftrightarrow> (\<forall>n p. o_parent (inner s n) = Some p \<longrightarrow> p < n \<and> n < next_owner s)
     \<and> (\<forall>n. distinct (o_children (inner s n)) \<and> (\<forall>c \<in> set (o_children (inner s n)). o_parent (inner s c) = Some n))
     \<and> (\<forall>n \<ge> next_owner s. strong s n = 0)"

definition owners_inv :: "cleanup_fn multiset \<Rightarrow> 'v owners \<Rightarrow> bool" where
  "owners_inv R s \<longleftrightarrow> bounded s \<and> family s \<and> dead_clean {} s \<and> total s = R"

lemma torn_family:
  assumes t: "torn s s'" and f: "family s"
  shows "family s'"
proof -
  have sh: "shrunk (inner s n) (inner s' n)" and st: "strong s' n \<le> strong s n" and nx: "next_owner s' = next_owner s" for n
    using t by (auto simp: torn_def)
  have p: "o_parent (inner s' n) = o_parent (inner s n)" for n using sh [of n] by (simp add: shrunk_def)
  have c: "o_children (inner s' n) \<in> {o_children (inner s n), []}" for n using sh [of n] by (simp add: shrunk_def)
  show ?thesis
    unfolding family_def p nx
  proof (intro conjI allI ballI impI)
    fix n
    show "distinct (o_children (inner s' n))" using c [of n] f by (auto simp: family_def)
  next
    fix n c assume "c \<in> set (o_children (inner s' n))"
    then show "o_parent (inner s c) = Some n" using c [of n] f by (auto simp: family_def)
  next
    fix n assume "next_owner s \<le> n"
    then show "strong s' n = 0" using st [of n] f by (auto simp: family_def)
  qed (use f in \<open>auto simp: family_def\<close>)
qed

lemma torn_down_inv: "torn_down s s' \<Longrightarrow> owners_inv R s \<Longrightarrow> owners_inv R s'"
  by (auto simp: torn_down_def owners_inv_def intro: torn_bounded torn_family)

text \<open>Operations that change neither lists nor counts; those that only change contexts and the pause.\<close>

definition same_lists :: "'v owners \<Rightarrow> 'v owners \<Rightarrow> bool" where
  "same_lists s s' \<longleftrightarrow> next_owner s' = next_owner s \<and> strong s' = strong s \<and> ran s' = ran s \<and> lost s' = lost s
     \<and> panicked s' = panicked s \<and> unwinding s' = unwinding s \<and> borrowed s' = borrowed s
     \<and> (\<forall>n. o_parent (inner s' n) = o_parent (inner s n) \<and> o_children (inner s' n) = o_children (inner s n)
          \<and> o_nodes (inner s' n) = o_nodes (inner s n) \<and> o_cleanups (inner s' n) = o_cleanups (inner s n))"

lemma same_lists_refl [simp]: "same_lists s s"
  by (simp add: same_lists_def)

lemma same_lists_trans: "same_lists s t \<Longrightarrow> same_lists t u \<Longrightarrow> same_lists s u"
  by (simp add: same_lists_def)

lemma same_lists_inv: "same_lists s s' \<Longrightarrow> owners_inv R s \<Longrightarrow> owners_inv R s'"
  by (simp add: same_lists_def owners_inv_def bounded_def emptied_def family_def dead_clean_def alive_def total_def)

lemma pause_loop_same_lists: "pause_loop fuel b stack s = Some s' \<Longrightarrow> same_lists s s'"
proof (induction fuel b stack s rule: pause_loop.induct)
  case (1 fuel b stack s)
  show ?case
  proof (cases "stack = [] \<or> fuel = 0")
    case True
    then show ?thesis using "1.prems" by (subst (asm) pause_loop.simps) (auto split: if_splits)
  next
    case False
    then obtain k where k: "fuel = Suc k" "stack \<noteq> []" by (cases fuel) auto
    have "same_lists s (on_inner (last stack) (\<lambda>x. x\<lparr>o_paused := b\<rparr>) s)" by (simp add: same_lists_def)
    then show ?thesis
      using "1.prems" "1.IH"(1) [OF k(2) k(1) refl refl] "1.IH"(2) [OF k(2) k(1) refl refl] k
      by (subst (asm) pause_loop.simps) (auto simp: Let_def split: if_splits intro: same_lists_trans)
  qed
qed

lemma context_same_lists:
  "same_lists s (provide_context ty v n s)"
  "take_context fuel ty n s = Some (r, s') \<Longrightarrow> same_lists s s'"
  "update_context fuel ty cb n s = Some (b, s') \<Longrightarrow> same_lists s s'"
  by (auto simp: provide_context_def take_context_def update_context_def same_lists_def split: option.splits)

lemma owners_inv_current [simp]: "owners_inv R (s\<lparr>current := w\<rparr>) = owners_inv R s"
  by (simp add: owners_inv_def bounded_def emptied_def family_def dead_clean_def alive_def total_def)

lemma owners_inv_borrowed [simp]: "owners_inv R (s\<lparr>borrowed := w\<rparr>) = owners_inv R s"
  by (simp add: owners_inv_def bounded_def emptied_def family_def dead_clean_def alive_def total_def)

lemma owners_inv_unwinding [simp]: "owners_inv R (s\<lparr>unwinding := w\<rparr>) = owners_inv R s"
  by (simp add: owners_inv_def family_def)

lemma owners_inv_arena: "owners_inv R (s\<lparr>arena := a, next_node := k\<rparr>) = owners_inv R s"
  by (simp add: owners_inv_def bounded_def emptied_def family_def dead_clean_def alive_def total_def)

lemma owners_inv_retain: "owners_inv R s \<Longrightarrow> alive s n \<Longrightarrow> owners_inv R (retain n s)"
  by (auto simp: owners_inv_def retain_same family_def alive_def not_less_eq_eq split: if_splits)

text \<open>An owner is new: nothing refers to it yet.\<close>

lemma add_owner_simps:
  "inner (snd (add_owner p b s)) m =
    (if m = next_owner s then (if p = Some m then (new_inner p b)\<lparr>o_children := [m]\<rparr> else new_inner p b)
     else if p = Some m then (inner s m)\<lparr>o_children := o_children (inner s m) @ [next_owner s]\<rparr> else inner s m)"
  "strong (snd (add_owner p b s)) m = (if m = next_owner s then 1 else strong s m)"
  "next_owner (snd (add_owner p b s)) = Suc (next_owner s)" "fst (add_owner p b s) = next_owner s"
  "ran (snd (add_owner p b s)) = ran s" "lost (snd (add_owner p b s)) = lost s" "panicked (snd (add_owner p b s)) = panicked s"
  "unwinding (snd (add_owner p b s)) = unwinding s" "borrowed (snd (add_owner p b s)) = borrowed s" "arena (snd (add_owner p b s)) = arena s" "current (snd (add_owner p b s)) = current s"
  by (auto simp: add_owner_def Let_def new_inner_def split: option.splits)

lemma add_owner_inv:
  assumes inv: "owners_inv R s" and p: "\<And>q. p = Some q \<Longrightarrow> alive s q"
  shows "owners_inv R (snd (add_owner p b s))"
proof -
  let ?k = "next_owner s" and ?s = "snd (add_owner p b s)"
  have fam: "family s" and bd: "bounded s" using inv by (auto simp: owners_inv_def)
  have st: "strong s n = 0" if "?k \<le> n" for n using fam that by (simp add: family_def)
  have k: "emptied (inner s ?k)" using bd by (simp add: bounded_def)
  have pk: "q < ?k" if "p = Some q" for q using p [OF that] st [of q] by (cases "q < ?k") (auto simp: alive_def)
  have no: "o_parent (inner s n) = None" if "?k \<le> n" for n
  proof (cases "o_parent (inner s n)")
    case (Some q)
    then have "n < ?k" using fam unfolding family_def by blast
    then show ?thesis using that by simp
  qed
  have kc: "?k \<notin> set (o_children (inner s n))" for n
    using fam no [of ?k] unfolding family_def by (metis option.distinct(1) order_refl)
  have "bounded ?s"
    using bd pk unfolding bounded_def by (fastforce simp: add_owner_simps emptied_def)
  moreover have "family ?s"
    unfolding family_def
  proof (intro conjI allI ballI impI)
    fix n q assume a: "o_parent (inner ?s n) = Some q"
    show "q < n" "n < next_owner ?s"
      using a fam pk unfolding family_def by (auto simp: add_owner_simps new_inner_def less_Suc_eq split: if_splits)
  next
    fix n show "distinct (o_children (inner ?s n))"
      using fam kc by (auto simp: add_owner_simps new_inner_def family_def)
  next
    fix n c assume "c \<in> set (o_children (inner ?s n))"
    then show "o_parent (inner ?s c) = Some n"
      using fam kc pk by (auto simp: add_owner_simps new_inner_def family_def split: if_splits)
  next
    fix n assume "next_owner ?s \<le> n"
    then show "strong ?s n = 0" using st by (simp add: add_owner_simps)
  qed
  moreover have "dead_clean {} ?s"
    using inv p by (auto simp: owners_inv_def dead_clean_def alive_def add_owner_simps split: if_splits)
  moreover have "total ?s = total s"
  proof -
    have "o_cleanups (inner ?s n) = (if n = ?k then [] else o_cleanups (inner s n))" for n
      using pk by (auto simp: add_owner_simps new_inner_def)
    then show ?thesis by (simp add: total_def add_owner_simps)
  qed
  ultimately show ?thesis using inv by (simp add: owners_inv_def)
qed

lemma alive_known: "owners_inv R s \<Longrightarrow> alive s n \<Longrightarrow> n < next_owner s"
  unfolding owners_inv_def family_def alive_def by (metis less_irrefl not_le)

lemma on_cleanup_inv:
  assumes inv: "owners_inv R s" and c: "current_owner s \<noteq> None"
  shows "owners_inv (add_mset f R) (on_cleanup f s)"
proof -
  obtain n where n: "current_owner s = Some n" "alive s n"
    using c by (auto simp: current_owner_def upgrade_def split: option.splits if_splits)
  then have lt: "n < next_owner s"
    using alive_known inv by blast
  let ?s = "on_inner n (\<lambda>x. x\<lparr>o_cleanups := o_cleanups x @ [f]\<rparr>) s"
  have "(\<Sum>m < next_owner s. mset (o_cleanups (inner ?s m))) + mset (o_cleanups (inner s n))
      = (\<Sum>m < next_owner s. mset (o_cleanups (inner s m))) + add_mset f (mset (o_cleanups (inner s n)))"
    using sum_owner_upd [OF lt, of "\<lambda>x. mset (o_cleanups x)" "inner s" "(inner s n)\<lparr>o_cleanups := o_cleanups (inner s n) @ [f]\<rparr>"]
    by simp
  then have "total ?s = add_mset f (total s)" by (simp add: total_def)
  moreover have "bounded ?s" "dead_clean {} ?s" "family ?s"
    using inv lt n(2) by (auto simp: owners_inv_def bounded_def family_def dead_clean_def)
  ultimately show ?thesis using n inv by (simp add: on_cleanup_def owners_inv_def)
qed

lemma store_item_eq:
  "snd (store_item held s) =
    (case current_owner s of
       None \<Rightarrow> s
     | Some n \<Rightarrow> on_inner n (\<lambda>x. x\<lparr>o_nodes := o_nodes x @ [next_node s]\<rparr>) s)
    \<lparr>arena := (arena s)(next_node s := Some held), next_node := Suc (next_node s)\<rparr>"
proof -
  have "current_owner (s\<lparr>arena := a, next_node := k\<rparr>) = current_owner s" for a k
    by (simp add: current_owner_def upgrade_def alive_def cong: option.case_cong)
  then show ?thesis by (simp add: store_item_def Let_def on_inner_def split: option.splits)
qed

lemma store_item_inv:
  assumes inv: "owners_inv R s"
  shows "owners_inv R (snd (store_item held s))"
proof (cases "current_owner s")
  case None
  then show ?thesis using inv by (simp add: store_item_eq owners_inv_arena)
next
  case (Some n)
  then have n: "alive s n" by (auto simp: current_owner_def upgrade_def split: option.splits if_splits)
  then have lt: "n < next_owner s" using alive_known inv by blast
  have "owners_inv R (on_inner n (\<lambda>x. x\<lparr>o_nodes := o_nodes x @ [next_node s]\<rparr>) s)"
    using inv lt n by (auto simp: owners_inv_def bounded_def family_def dead_clean_def total_def intro!: sum.cong)
  then show ?thesis using Some by (simp add: store_item_eq owners_inv_arena)
qed

section \<open>Every operation keeps it\<close>

lemma teardown_inv:
  assumes "owners_inv R s" and "entries s < fuel"
  shows "\<exists>s'. release fuel n s = Some s' \<and> owners_inv R s'" "\<exists>s'. cleanup fuel n s = Some s' \<and> owners_inv R s' \<and> emptied (inner s' n)"
  using assms release_torn_down [of s fuel n] cleanup_torn_down [of s fuel n] torn_down_inv by (auto simp: owners_inv_def) 

lemma dispose_inv:
  assumes "owners_inv R s" and "entries s < fuel"
  shows "\<exists>s'. dispose_item fuel node s = Some s' \<and> owners_inv R s'"
proof -
  obtain held a where h: "remove_nodes [node] (arena s) = (held, a)" by fastforce
  then have "torn_down s (s\<lparr>arena := a\<rparr>)"
    using remove_nodes_arena [of "[node]" "arena s"]
    by (auto simp: torn_down_def torn_def total_def dead_clean_def alive_def split: if_splits)
  then have "owners_inv R (s\<lparr>arena := a\<rparr>)" and "entries (s\<lparr>arena := a\<rparr>) < fuel" and "bounded (s\<lparr>arena := a\<rparr>)"
    using assms torn_down_inv by (auto simp: entries_def owners_inv_def)
  then show ?thesis
    using fold_release_works [of fuel "s\<lparr>arena := a\<rparr>" held] teardown_works torn_down_inv h by (fastforce simp: dispose_item_def)
qed

lemma unset_releases:
  assumes "owner_unset fuel n s = Some s'"
  obtains u v where "release fuel n ((case current_owner s of None \<Rightarrow> s | Some c \<Rightarrow> retain c s)\<lparr>borrowed := True\<rparr>) = Some u"
    and "(case current_owner s of None \<Rightarrow> Some u | Some c \<Rightarrow> release fuel c u) = Some v"
    and "s' = (if current_owner s = Some n \<and> \<not> unwinding v then v\<lparr>current := None\<rparr> else v)\<lparr>borrowed := False\<rparr>"
  using assms unfolding owner_unset_def Let_def by (auto simp: bind_eq_Some_conv)

lemma current_alive: "current_owner s = Some n \<Longrightarrow> alive s n"
  by (auto simp: current_owner_def upgrade_def split: option.splits if_splits)

lemma unset_inv:
  assumes i: "owners_inv R s" and u: "owner_unset (Suc (entries s)) n s = Some s'"
  shows "owners_inv R s'"
proof -
  let ?t = "(case current_owner s of None \<Rightarrow> s | Some c \<Rightarrow> retain c s)\<lparr>borrowed := True\<rparr>"
  obtain t v where t: "release (Suc (entries s)) n ?t = Some t"
      and v: "(case current_owner s of None \<Rightarrow> Some t | Some c \<Rightarrow> release (Suc (entries s)) c t) = Some v"
      and s': "s' = (if current_owner s = Some n \<and> \<not> unwinding v then v\<lparr>current := None\<rparr> else v)\<lparr>borrowed := False\<rparr>"
    by (rule unset_releases [OF u])
  have e: "owners_inv R ?t" "entries ?t = entries s"
    using owners_inv_retain [OF i current_alive] i retain_same(2) by (auto simp: entries_def split: option.splits)
  obtain t' where t': "release (Suc (entries s)) n ?t = Some t'" "torn_down ?t t'"
    using release_torn_down [of ?t "Suc (entries s)" n] e by (auto simp: owners_inv_def)
  then have tt: "torn_down ?t t" using t by simp
  have it: "owners_inv R t" "entries t < Suc (entries s)"
    using torn_down_inv [OF tt e(1)] torn_entries [of ?t t] tt e(2) by (auto simp: torn_down_def)
  have "owners_inv R v"
  proof (cases "current_owner s")
    case (Some c)
    then show ?thesis using teardown_inv(1) [OF it, of c] v by auto
  qed (use v it in auto)
  then show ?thesis by (simp add: s')
qed

lemma reach_inv: "owners_reach R s \<Longrightarrow> owners_inv R s"
proof (induction rule: owners_reach.induct)
  case reach_start
  then show ?case
    by (simp add: owners_inv_def bounded_def family_def dead_clean_def total_def emptied_def no_owners_def new_inner_def)
next
  case (reach_new R s)
  then show ?case
    by (auto simp: owner_new_def current_owner_def upgrade_def intro!: add_owner_inv split: option.splits if_splits)
next
  case (reach_child R s n)
  then show ?case by (auto simp: owner_child_def intro: add_owner_inv)
next
  case (reach_root R s)
  then show ?case
    using add_owner_inv [of R s None False] by (simp add: new_root_def owner_set_def case_prod_unfold Let_def)
next
  case (reach_drop R s n s')
  then show ?case using teardown_inv(1) [of R s "Suc (entries s)" n] by auto
next
  case (reach_cleanup R s n s')
  then show ?case using teardown_inv(2) [of R s "Suc (entries s)" n] by auto
next
  case (reach_unset R s n s')
  then show ?case using unset_inv by blast
next
  case (reach_unset_forced R s n s')
  let ?s = "if current_owner s = Some n then s\<lparr>current := None\<rparr> else s"
  have i: "owners_inv R ?s" "entries ?s < Suc (entries s)" "entries ?s = entries s" using reach_unset_forced by (simp_all add: entries_def)
  obtain s1 where s1: "cleanup (Suc (entries s)) n ?s = Some s1" "torn_down ?s s1"
    using cleanup_torn_down i by (metis owners_inv_def)
  then have "owners_inv R s1" "entries s1 < Suc (entries s)"
    using i torn_down_inv torn_entries [of ?s s1] by (auto simp: torn_down_def)
  from teardown_inv(1) [OF this, of n] s1 reach_unset_forced show ?case
    by (auto simp: unset_with_forced_cleanup_def Let_def)
next
  case (reach_dispose R s node s')
  then show ?case using dispose_inv [of R s "Suc (entries s)" node] by auto
next
  case (reach_pause R s fuel n s')
  then show ?case using pause_loop_same_lists same_lists_inv unfolding pause_def by blast
next
  case (reach_resume R s fuel n s')
  then show ?case using pause_loop_same_lists same_lists_inv unfolding resume_def by blast
qed (blast intro: on_cleanup_inv store_item_inv owners_inv_retain context_same_lists same_lists_inv owners_inv_current [THEN iffD2]
    owners_inv_unwinding [THEN iffD2])+

section \<open>Panics\<close>

text \<open>A function is dropped unrun only after another has panicked, and only one that asks for the current owner panics.\<close>

definition panics_ok :: "bool \<Rightarrow> 'v owners \<Rightarrow> bool" where
  "panics_ok b s \<longleftrightarrow> (b \<or> unwinding s \<or> lost s \<noteq> [] \<longrightarrow> panicked s \<noteq> []) \<and> mset (panicked s) \<subseteq># filter_mset snd (mset (ran s))"

lemma subset_add_mset: "A \<subseteq># B \<Longrightarrow> A \<subseteq># add_mset x B"
  by (auto simp: subseteq_mset_def intro: le_SucI)

lemma panics_ok_steps: "step_keeps (panics_ok :: bool \<Rightarrow> 'v owners \<Rightarrow> bool)"
  unfolding step_keeps_def panics_ok_def run_cleanup_def end_drop_def
  by (auto intro: subset_add_mset)

lemma teardown_panics:
  "cleanup fuel n s = Some s' \<Longrightarrow> panics_ok False s \<Longrightarrow> panics_ok False s'"
  "release fuel n s = Some s' \<Longrightarrow> panics_ok False s \<Longrightarrow> panics_ok False s'"
  using teardown_keeps [OF panics_ok_steps] by blast+

lemma panics_ok_same:
  "ran s' = ran s \<Longrightarrow> lost s' = lost s \<Longrightarrow> panicked s' = panicked s \<Longrightarrow> unwinding s' = unwinding s \<Longrightarrow> panics_ok b s' = panics_ok b s"
  by (simp add: panics_ok_def)

lemma reach_panics: "owners_reach R s \<Longrightarrow> panics_ok False s"
proof (induction rule: owners_reach.induct)
  case (reach_unset R s n s')
  let ?t = "(case current_owner s of None \<Rightarrow> s | Some c \<Rightarrow> retain c s)\<lparr>borrowed := True\<rparr>"
  obtain t v where t: "release (Suc (entries s)) n ?t = Some t"
      and v: "(case current_owner s of None \<Rightarrow> Some t | Some c \<Rightarrow> release (Suc (entries s)) c t) = Some v"
      and s': "s' = (if current_owner s = Some n \<and> \<not> unwinding v then v\<lparr>current := None\<rparr> else v)\<lparr>borrowed := False\<rparr>"
    using unset_releases reach_unset.hyps(4) by blast
  have "panics_ok False ?t" using reach_unset.IH by (auto simp: panics_ok_def split: option.split)
  then have "panics_ok False t" using teardown_panics(2) t by blast
  then have "panics_ok False v" using teardown_panics(2) v by (auto split: option.splits)
  then show ?case by (simp add: s' panics_ok_def)
next
  case (reach_unset_forced R s n s')
  let ?t = "if current_owner s = Some n then s\<lparr>current := None\<rparr> else s"
  obtain u where "cleanup (Suc (entries s)) n ?t = Some u" "release (Suc (entries s)) n u = Some s'"
    using reach_unset_forced.hyps(4) by (auto simp: unset_with_forced_cleanup_def Let_def bind_eq_Some_conv)
  moreover have "panics_ok False ?t" using reach_unset_forced.IH by (simp add: panics_ok_def)
  ultimately show ?case using teardown_panics by blast
next
  case (reach_drop R s n s')
  then show ?case using teardown_panics(2) by blast
next
  case (reach_cleanup R s n s')
  then show ?case using teardown_panics(1) by blast
next
  case (reach_dispose R s node s')
  then show ?case using dispose_keeps [OF panics_ok_steps] by blast
next
  case (reach_pause R s fuel n s')
  then show ?case using pause_loop_same_lists panics_ok_same unfolding pause_def same_lists_def by metis
next
  case (reach_resume R s fuel n s')
  then show ?case using pause_loop_same_lists panics_ok_same unfolding resume_def same_lists_def by metis
next
  case (reach_take R s n fuel ty r s')
  then show ?case using context_same_lists(2) panics_ok_same unfolding same_lists_def by metis
next
  case (reach_update R s n fuel ty cb b s')
  then show ?case using context_same_lists(3) panics_ok_same unfolding same_lists_def by metis
qed (auto simp: panics_ok_def no_owners_def owner_new_def owner_child_def new_root_def owner_set_def add_owner_simps
    case_prod_unfold Let_def on_cleanup_def store_item_eq retain_def provide_context_def teardown_panics split: option.splits)

text \<open>\<open>OWNER\<close> is borrowed only inside \<open>unset\<close>.\<close>

lemma torn_borrowed: "torn s s' \<Longrightarrow> borrowed s' = borrowed s"
  by (simp add: torn_def)

lemma borrowed_steps: "step_keeps (\<lambda>b s. borrowed s = w)"
  by (simp add: step_keeps_def run_cleanup_def end_drop_def)

lemma teardown_borrowed:
  "cleanup fuel n s = Some s' \<Longrightarrow> borrowed s' = borrowed s" "release fuel n s = Some s' \<Longrightarrow> borrowed s' = borrowed s"
  using teardown_keeps [OF borrowed_steps] by blast+

lemma reach_not_borrowed: "owners_reach R s \<Longrightarrow> \<not> borrowed s"
proof (induction rule: owners_reach.induct)
  case (reach_unset R s n s')
  then show ?case by (auto elim!: unset_releases)
next
  case (reach_unset_forced R s n s')
  then show ?case
    by (auto simp: unset_with_forced_cleanup_def Let_def bind_eq_Some_conv dest!: teardown_borrowed split: if_splits)
next
  case (reach_dispose R s node s')
  then show ?case
    using dispose_keeps [OF borrowed_steps [of False]] by blast
next
  case (reach_pause R s fuel n s')
  then show ?case using pause_loop_same_lists unfolding pause_def same_lists_def by metis
next
  case (reach_resume R s fuel n s')
  then show ?case using pause_loop_same_lists unfolding resume_def same_lists_def by metis
next
  case (reach_take R s n fuel ty r s')
  then show ?case using context_same_lists(2) unfolding same_lists_def by metis
next
  case (reach_update R s n fuel ty cb b s')
  then show ?case using context_same_lists(3) unfolding same_lists_def by metis
qed (auto simp: no_owners_def owner_new_def owner_child_def new_root_def owner_set_def add_owner_simps
    case_prod_unfold Let_def on_cleanup_def store_item_eq retain_def provide_context_def teardown_borrowed split: option.splits)

section \<open>Properties\<close>

text \<open>
  C18. Whatever sequence of operations led here, every cleanup function that was registered has been
  called exactly once, or is still held by an owner that is alive, or was dropped unrun by a panic
  that unwound through the teardown that had taken it. Only a function that asks for the current
  owner (while \<open>unset\<close> has it borrowed) panics, and without such a panic none is dropped: when no
  registered function asks for the current owner, each was called exactly once or is still held.
  An owner that is gone holds no child, no arena node and no cleanup function.
\<close>

theorem cleanups_run_exactly_once:
  assumes "owners_reach R s"
  shows "mset (ran s) + mset (lost s) + (\<Sum>n \<in> {n. n < next_owner s \<and> alive s n}. mset (o_cleanups (inner s n))) = R
    \<and> (lost s \<noteq> [] \<longrightarrow> panicked s \<noteq> []) \<and> mset (panicked s) \<subseteq># filter_mset snd (mset (ran s))
    \<and> (filter_mset snd R = {#} \<longrightarrow> lost s = [])
    \<and> (\<forall>n. \<not> alive s n \<longrightarrow> emptied (inner s n))"
proof -
  have i: "total s = R" "dead_clean {} s" using reach_inv [OF assms] by (auto simp: owners_inv_def)
  have p: "lost s \<noteq> [] \<longrightarrow> panicked s \<noteq> []" "mset (panicked s) \<subseteq># filter_mset snd (mset (ran s))"
    using reach_panics [OF assms] by (auto simp: panics_ok_def)
  have "(\<Sum>n < next_owner s. mset (o_cleanups (inner s n)))
      = (\<Sum>n \<in> {n. n < next_owner s \<and> alive s n}. mset (o_cleanups (inner s n)))"
    using i(2) by (intro sum.mono_neutral_right) (auto simp: dead_clean_def emptied_def)
  then have R: "mset (ran s) + mset (lost s) + (\<Sum>n \<in> {n. n < next_owner s \<and> alive s n}. mset (o_cleanups (inner s n))) = R"
    using i(1) by (simp add: total_def ac_simps)
  have "lost s = []" if "filter_mset snd R = {#}"
  proof -
    have "filter_mset snd (mset (ran s)) = {#}" using that unfolding R [symmetric] by auto
    then show ?thesis using p by (metis mset_zero_iff subset_mset.le_zero_eq)
  qed
  then show ?thesis using R p i(2) by (auto simp: dead_clean_def)
qed

text \<open>A root with a cleanup function, and a child with another, which is dropped first.\<close>

definition two_owners :: "nat owners" where
  "two_owners =
    (let s = on_cleanup (1, False) (snd (new_root no_owners)); (c, s) = owner_child 0 s; s = on_cleanup (2, False) (owner_set c s)
     in snd (store_item [] s))"

lemma two_owners_reach: "owners_reach {#(1, False), (2, False)#} two_owners"
proof -
  let ?s1 = "on_cleanup (1, False) (snd (new_root no_owners)) :: nat owners"
  let ?s2 = "snd (owner_child 0 ?s1)\<lparr>current := Some 1\<rparr>"
  have "owners_reach {#(1, False)#} ?s1"
    by (intro reach_register reach_root reach_start)
       (simp add: new_root_def add_owner_def no_owners_def owner_set_def current_owner_def upgrade_def alive_def)
  then have "owners_reach {#(1, False)#} ?s2"
    by (intro reach_current reach_child) (auto simp: new_root_def add_owner_def no_owners_def owner_set_def on_cleanup_def
      current_owner_def upgrade_def alive_def on_inner_def)
  moreover have "current_owner ?s2 \<noteq> None"
    by (simp add: new_root_def add_owner_def no_owners_def owner_set_def on_cleanup_def owner_child_def Let_def
      current_owner_def upgrade_def alive_def on_inner_def)
  ultimately have "owners_reach {#(2, False), (1, False)#} (snd (store_item [] (on_cleanup (2, False) ?s2)))"
    by (intro reach_store reach_register)
  moreover have "fst (owner_child 0 ?s1) = 1"
    by (simp add: new_root_def add_owner_def no_owners_def owner_set_def on_cleanup_def owner_child_def Let_def
      current_owner_def upgrade_def alive_def on_inner_def)
  ultimately show ?thesis
    by (simp add: two_owners_def Let_def case_prod_unfold owner_set_def add_mset_commute)
qed

lemmas owner_run = new_root_def add_owner_def no_owners_def owner_set_def on_cleanup_def owner_child_def current_owner_def
  upgrade_def alive_def on_inner_def store_item_def retain_def new_inner_def run_cleanup_def end_drop_def two_owners_def

text \<open>A root that is unset: its first function asks for the current owner and panics, the second is dropped.\<close>

definition asking_owner :: "nat owners" where
  "asking_owner = on_cleanup (2, False) (on_cleanup (1, True) (snd (new_root no_owners)))"

lemma asking_owner_reach: "owners_reach {#(1, True), (2, False)#} asking_owner"
proof -
  have "owners_reach {#(2, False), (1, True)#} asking_owner"
    unfolding asking_owner_def
    by (intro reach_register reach_root reach_start) (simp_all add: owner_run)
  then show ?thesis by (simp add: add_mset_commute)
qed

theorem cleanups_run_exactly_once_witness:
  "(\<exists>s. release 6 1 two_owners = Some s \<and> ran s = [(2, False)] \<and> \<not> alive s 1
    \<and> mset (ran s) + mset (lost s) + (\<Sum>n \<in> {n. n < next_owner s \<and> alive s n}. mset (o_cleanups (inner s n))) = {#(1, False), (2, False)#}
    \<and> lost s = [])
  \<and> (\<exists>s. owner_unset 1 0 asking_owner = Some s \<and> ran s = [(1, True)] \<and> lost s = [(2, False)]
    \<and> mset (ran s) + mset (lost s) + (\<Sum>n \<in> {n. n < next_owner s \<and> alive s n}. mset (o_cleanups (inner s n))) = {#(1, True), (2, False)#})"
proof (intro conjI)
  have e: "entries two_owners = 2"
    by (simp add: owner_run entries_def Let_def lessThan_Suc)
  have a: "alive two_owners 1" by (simp add: owner_run Let_def)
  obtain s where s: "release (Suc (entries two_owners)) 1 two_owners = Some s"
    using release_torn_down [of two_owners "Suc (entries two_owners)" 1] reach_inv [OF two_owners_reach]
    by (auto simp: owners_inv_def)
  have r: "ran s = [(2, False)] \<and> \<not> alive s 1 \<and> release 6 1 two_owners = Some s"
    using s by (simp add: e owner_run cleanup.simps release.simps Let_def numeral_nat) auto
  have "filter_mset snd {#(1 :: nat, False), (2, False)#} = {#}" by simp
  then show "\<exists>s. release 6 1 two_owners = Some s \<and> ran s = [(2, False)] \<and> \<not> alive s 1
    \<and> mset (ran s) + mset (lost s) + (\<Sum>n \<in> {n. n < next_owner s \<and> alive s n}. mset (o_cleanups (inner s n))) = {#(1, False), (2, False)#}
    \<and> lost s = []"
    using cleanups_run_exactly_once [OF reach_drop [OF two_owners_reach a s]] r by blast
next
  have e: "entries asking_owner = 0" by (simp add: owner_run asking_owner_def entries_def)
  have a: "alive asking_owner 0" "\<not> unwinding asking_owner" by (simp_all add: owner_run asking_owner_def)
  obtain s where s: "owner_unset (Suc (entries asking_owner)) 0 asking_owner = Some s" "ran s = [(1, True)]" "lost s = [(2, False)]"
    unfolding e by (simp add: owner_unset_def owner_run asking_owner_def release.simps Let_def)
  then show "\<exists>s. owner_unset 1 0 asking_owner = Some s \<and> ran s = [(1, True)] \<and> lost s = [(2, False)]
    \<and> mset (ran s) + mset (lost s) + (\<Sum>n \<in> {n. n < next_owner s \<and> alive s n}. mset (o_cleanups (inner s n))) = {#(1, True), (2, False)#}"
    using cleanups_run_exactly_once [OF reach_unset [OF asking_owner_reach a(2,1) s(1)]] by (auto simp: e)
qed

text \<open>
  C20. Cleaning an owner up, or dropping a handle to it, ends, however the owners and the arena refer
  to one another: a recursion no deeper than the number of registered children and arena nodes is
  enough. Afterwards the owner that was cleaned up has nothing registered.
\<close>

theorem teardown_returns:
  assumes "owners_reach R s" and "entries s < fuel"
  shows "(\<exists>s'. cleanup fuel n s = Some s' \<and> emptied (inner s' n) \<and> torn s s') \<and> (\<exists>s'. release fuel n s = Some s' \<and> torn s s')"
  using cleanup_torn_down [of s fuel n] release_torn_down [of s fuel n] reach_inv [OF assms(1)] assms(2)
  by (auto simp: owners_inv_def torn_down_def)

theorem teardown_returns_witness:
  "entries two_owners < 3 \<and> (\<exists>s'. cleanup 3 0 two_owners = Some s' \<and> emptied (inner s' 0) \<and> torn two_owners s')"
proof -
  have "entries two_owners < 3"
    by (simp add: owner_run entries_def Let_def lessThan_Suc)
  then show ?thesis using teardown_returns [OF two_owners_reach, of 3 0] by blast
qed

end
