(* ===== verification/Owner_Order.thy ===== *)
theory Owner_Order
  imports Owner_Lifetime
begin

text \<open>
  The order of a cleanup: the children in the order in which they were made, each with its own
  children first, then the owner's cleanup functions in the order of their registration, then the
  arena's values. It holds when the values that an owner keeps in the arena hold children of that
  owner, as those of effects and memos do.
\<close>

section \<open>The specification\<close>

text \<open>A child is made after its parent, so it has a greater number.\<close>

function (sequential) cleanup_order :: "'v owners \<Rightarrow> nat \<Rightarrow> cleanup_fn list" where
  "cleanup_order s n =
    concat (map (\<lambda>c. if alive s c \<and> n < c \<and> c < next_owner s then cleanup_order s c else []) (o_children (inner s n)))
    @ o_cleanups (inner s n)"
  by pat_completeness auto
termination by (relation "measure (\<lambda>(s, n). next_owner s - n)") auto

declare cleanup_order.simps [simp del]

section \<open>The descendants of an owner\<close>

definition up :: "'v owners \<Rightarrow> (nat \<times> nat) set" where
  "up s = {(c, p). o_parent (inner s c) = Some p}"

abbreviation under :: "'v owners \<Rightarrow> nat \<Rightarrow> nat \<Rightarrow> bool" where
  "under s n m \<equiv> (m, n) \<in> (up s)\<^sup>*"

text \<open>
  The values that the owner and its descendants keep in the arena hold only children of the owner
  that keeps them, and these are alive. A stored handle to any other owner is not such a value.
\<close>

definition own_values :: "'v owners \<Rightarrow> nat \<Rightarrow> bool" where
  "own_values s k \<longleftrightarrow> (\<forall>n. under s k n \<longrightarrow> (\<forall>node \<in> set (o_nodes (inner s n)).
     case arena s node of None \<Rightarrow> True | Some held \<Rightarrow> (\<forall>h \<in> set held. h \<in> set (o_children (inner s n)) \<and> alive s h)))"

lemma up_single: "single_valued (up s)"
  by (auto simp: up_def single_valued_def)

lemma up_same: "(\<And>m. o_parent (inner s' m) = o_parent (inner s m)) \<Longrightarrow> up s' = up s"
  by (simp add: up_def)

lemma under_le: "under s n m \<Longrightarrow> family s \<Longrightarrow> n \<le> m"
proof (induction rule: rtrancl_induct)
  case (step p q)
  have "q < p" using step(2,4) by (auto simp: family_def up_def)
  then show ?case using step(3) [OF step(4)] by simp
qed simp

lemma up_greater: "family s \<Longrightarrow> (c, n) \<in> up s \<Longrightarrow> n < c \<and> c < next_owner s"
  by (auto simp: family_def up_def)

lemma child_up: "family s \<Longrightarrow> c \<in> set (o_children (inner s n)) \<Longrightarrow> (c, n) \<in> up s"
  by (auto simp: family_def up_def)

lemma under_child: "(c, n) \<in> up s \<Longrightarrow> under s c m \<Longrightarrow> under s n m"
  by (rule rtrancl_into_rtrancl)

lemma own_values_child: "(c, n) \<in> up s \<Longrightarrow> own_values s n \<Longrightarrow> own_values s c"
  using under_child unfolding own_values_def by blast

lemma not_under_child: "family s \<Longrightarrow> (c, n) \<in> up s \<Longrightarrow> \<not> under s c n"
  using under_le up_greater by (metis not_le)

lemma parent_not_under: "family s \<Longrightarrow> (c, n) \<in> up s \<Longrightarrow> (c, p) \<in> up s \<Longrightarrow> \<not> under s c p"
  using up_single [of s] not_under_child by (metis single_valuedD)

lemma siblings_apart:
  assumes f: "family s" and c: "(c, n) \<in> up s" "(d, n) \<in> up s" "c \<noteq> d" and m: "under s c m"
  shows "\<not> under s d m"
proof
  have apart: "\<not> under s d c" if cn: "(c, n) \<in> up s" and ne: "d \<noteq> c" and dn: "(d, n) \<in> up s" for c d
  proof
    assume "under s d c"
    then obtain p where "(c, p) \<in> up s" "under s d p" using ne by (metis converse_rtranclE)
    then show False using cn up_single [of s] not_under_child [OF f dn] by (metis single_valuedD)
  qed
  assume "under s d m"
  then have "under s d c \<or> under s c d"
    using single_valued_confluent [OF up_single m] by blast
  then show False using c apart by metis
qed

text \<open>The order is a matter of the descendants.\<close>

lemma cleanup_order_same:
  assumes "family s" and "next_owner s' = next_owner s"
    and "\<And>m. under s n m \<Longrightarrow> inner s' m = inner s m \<and> alive s' m = alive s m"
  shows "cleanup_order s' n = cleanup_order s n"
  using assms
proof (induction s n rule: cleanup_order.induct)
  case (1 s n)
  have n: "inner s' n = inner s n" using "1.prems"(3) by blast
  have "(if alive s' c \<and> n < c \<and> c < next_owner s' then cleanup_order s' c else [])
      = (if alive s c \<and> n < c \<and> c < next_owner s then cleanup_order s c else [])" if c: "c \<in> set (o_children (inner s n))" for c
  proof -
    have u: "under s c m \<Longrightarrow> under s n m" for m using under_child [OF child_up [OF "1.prems"(1) c]] .
    then have "alive s' c = alive s c" using "1.prems"(3) by blast
    then show ?thesis
      using "1.IH" [OF c _ "1.prems"(1,2)] "1.prems"(2,3) u by auto
  qed
  then show ?case
    unfolding cleanup_order.simps [of s' n] cleanup_order.simps [of s n] n by (simp cong: map_cong)
qed

section \<open>What cleaning up changes exactly\<close>

definition wiped :: "'v owner_inner \<Rightarrow> 'v owner_inner" where
  "wiped x = x\<lparr>o_cleanups := [], o_nodes := [], o_children := []\<rparr>"

text \<open>Only owners in \<open>D\<close> are emptied, and a handle can go only when the parent of its owner was emptied.\<close>

definition exact :: "'v owners \<Rightarrow> nat set \<Rightarrow> 'v owners \<Rightarrow> bool" where
  "exact s D s' \<longleftrightarrow> next_owner s' = next_owner s
     \<and> (\<forall>m. inner s' m = inner s m \<or> m \<in> D \<and> inner s' m = wiped (inner s m))
     \<and> (\<forall>h. strong s' h = strong s h \<or> strong s' h < strong s h \<and> (\<exists>p \<in> D. (h, p) \<in> up s \<and> emptied (inner s' p)))
     \<and> (\<forall>node held. arena s' node = Some held \<longrightarrow> arena s node = Some held)"

lemma emptied_wiped [simp]: "emptied (wiped x)" "o_parent (wiped x) = o_parent x" "wiped (wiped x) = wiped x"
  by (simp_all add: wiped_def emptied_def)

lemma exact_emptied: "exact s D s' \<Longrightarrow> emptied (inner s m) \<Longrightarrow> emptied (inner s' m)"
  unfolding exact_def by (metis emptied_wiped(1))

lemma exact_up: "exact s D s' \<Longrightarrow> up s' = up s"
  unfolding exact_def by (intro up_same) (metis emptied_wiped(2))

lemma exact_refl: "exact s D s"
  by (simp add: exact_def)

lemma exact_trans:
  assumes st: "exact s D t" and tu: "exact t E u"
  shows "exact s (D \<union> E) u"
proof -
  have "inner u m = inner s m \<or> m \<in> D \<union> E \<and> inner u m = wiped (inner s m)" for m
    using st tu unfolding exact_def by (metis Un_iff emptied_wiped(3))
  moreover have "strong u h = strong s h \<or> strong u h < strong s h \<and> (\<exists>p \<in> D \<union> E. (h, p) \<in> up s \<and> emptied (inner u p))" for h
  proof (cases "strong u h = strong t h")
    case True
    then show ?thesis using st exact_emptied [OF tu] unfolding exact_def by (metis UnI1)
  next
    case False
    then have "strong u h < strong t h" "\<exists>p \<in> E. (h, p) \<in> up s \<and> emptied (inner u p)"
      using tu exact_up [OF st] by (auto simp: exact_def)
    moreover have "strong t h \<le> strong s h" using st unfolding exact_def by (metis le_less)
    ultimately show ?thesis by auto
  qed
  moreover have "next_owner u = next_owner s" "arena u node = Some held \<Longrightarrow> arena s node = Some held" for node held
    using st tu by (auto simp: exact_def)
  ultimately show ?thesis unfolding exact_def by blast
qed

lemma exact_family:
  assumes e: "exact s D s'" and f: "family s"
  shows "family s'"
proof -
  have st: "strong s' n \<le> strong s n" for n using e unfolding exact_def by (metis le_less)
  have i: "o_parent (inner s' n) = o_parent (inner s n)" "o_children (inner s' n) = o_children (inner s n) \<or> o_children (inner s' n) = []" for n
    using e unfolding exact_def by (metis emptied_wiped(2)) (metis e emptied_def emptied_wiped(1) exact_def)
  have nx: "next_owner s' = next_owner s" using e by (simp add: exact_def)
  show ?thesis
    unfolding family_def i(1) nx
  proof (intro conjI allI ballI impI)
    fix n show "distinct (o_children (inner s' n))" using i(2) [of n] f by (auto simp: family_def)
  next
    fix n c assume "c \<in> set (o_children (inner s' n))"
    then show "o_parent (inner s c) = Some n" using i(2) [of n] f by (auto simp: family_def)
  next
    fix n assume "next_owner s \<le> n"
    then show "strong s' n = 0" using st [of n] f by (auto simp: family_def)
  qed (use f in \<open>auto simp: family_def\<close>)
qed

lemma exact_own_values:
  assumes e: "exact s D s'" and f: "family s" and v: "own_values s k"
  shows "own_values s' k"
  unfolding own_values_def
proof (intro allI impI ballI)
  fix n node assume un: "under s' k n" and node: "node \<in> set (o_nodes (inner s' n))"
  then have ne: "\<not> emptied (inner s' n)" by (auto simp: emptied_def)
  then have i: "inner s' n = inner s n" using e unfolding exact_def by (metis emptied_wiped(1))
  have "h \<in> set (o_children (inner s n)) \<and> alive s' h" if "arena s' node = Some held" "h \<in> set held" for held h
  proof -
    have h: "h \<in> set (o_children (inner s n))" "alive s h"
      using v un node that e unfolding own_values_def i exact_def exact_up [OF e] by fastforce+
    then have "strong s' h = strong s h"
      using e ne child_up [OF f h(1)] up_single [of s] unfolding exact_def by (metis single_valuedD)
    then show ?thesis using h by (simp add: alive_def)
  qed
  then show "case arena s' node of None \<Rightarrow> True | Some held \<Rightarrow> \<forall>h \<in> set held. h \<in> set (o_children (inner s' n)) \<and> alive s' h"
    by (simp add: i split: option.split)
qed

section \<open>The steps of a cleanup\<close>

abbreviation drop_handle :: "nat \<Rightarrow> 'v owners \<Rightarrow> 'v owners" where
  "drop_handle n s \<equiv> s\<lparr>strong := (strong s)(n := strong s n - 1)\<rparr>"

text \<open>Dropping a handle to an owner that stays, or that is empty.\<close>

lemma on_inner_same: "f (inner s n) = inner s n \<Longrightarrow> on_inner n f s = s"
  by (simp add: on_inner_def fun_upd_idem)

lemma release_quiet:
  assumes "release fuel n s = Some s'" and "emptied (inner s n) \<or> 1 < strong s n"
  shows "s' = drop_handle n s"
proof -
  obtain k where k: "fuel = Suc k" using assms(1) by (cases fuel) (auto simp: release.simps)
  show ?thesis
  proof (cases "alive (drop_handle n s) n")
    case True
    then show ?thesis using assms(1) k unfolding k release.simps Let_def by simp
  next
    case False
    then have "emptied (inner s n)" using assms(2) by (auto simp: alive_def)
    then have e: "o_children (inner s n) = []" "o_cleanups (inner s n) = []" "o_nodes (inner s n) = []"
      by (auto simp: emptied_def)
    let ?t = "(drop_handle n s)\<lparr>unwinding := False\<rparr>"
    have "on_inner n (\<lambda>x. x\<lparr>o_children := []\<rparr>) ?t = ?t" "on_inner n (\<lambda>x. x\<lparr>o_cleanups := []\<rparr>) ?t = ?t"
      "on_inner n (\<lambda>x. x\<lparr>o_nodes := []\<rparr>) ?t = ?t"
      using e by (intro on_inner_same; simp)+
    moreover have "end_drop (unwinding s) ?t = drop_handle n s" by (simp add: end_drop_def)
    ultimately show ?thesis
      using assms(1) False e unfolding k release.simps Let_def by simp
  qed
qed

text \<open>No panic is on its way, and none can begin.\<close>

definition calm :: "'v owners \<Rightarrow> bool" where
  "calm s \<longleftrightarrow> \<not> unwinding s \<and> \<not> borrowed s"

lemma calm_steps: "step_keeps (\<lambda>b s. \<not> b \<and> calm s)"
  by (simp add: step_keeps_def calm_def run_cleanup_def end_drop_def)

lemma cleanup_calm: "cleanup fuel n s = Some s' \<Longrightarrow> calm s \<Longrightarrow> calm s'"
  using teardown_keeps [OF calm_steps] by blast

lemma release_calm: "release fuel n s = Some s' \<Longrightarrow> calm s \<Longrightarrow> calm s'"
  using teardown_keeps [OF calm_steps] by blast

lemma child_calm: "child_round fuel c s = Some s' \<Longrightarrow> calm s \<Longrightarrow> calm s'"
proof -
  assume "child_round fuel c s = Some s'" and "calm s"
  moreover have "calm (retain c s)" if "calm s" using that by (simp add: calm_def)
  ultimately show "calm s'" by (auto simp: bind_eq_Some_conv split: if_splits intro: release_calm cleanup_calm)
qed

lemma fold_release_quiet:
  assumes "fold_opt (\<lambda>n s. release fuel n s) held s = Some s'" and "\<And>h. h \<in> set held \<Longrightarrow> emptied (inner s h)"
  shows "inner s' = inner s \<and> ran s' = ran s \<and> arena s' = arena s \<and> next_owner s' = next_owner s
    \<and> (\<forall>h. strong s' h = strong s h \<or> strong s' h < strong s h \<and> h \<in> set held)"
  using assms
proof (induction held arbitrary: s)
  case (Cons h held)
  obtain t where t: "release fuel h s = Some t" "fold_opt (\<lambda>n s. release fuel n s) held t = Some s'"
    using Cons.prems(1) by (auto simp: bind_eq_Some_conv)
  then have td: "t = drop_handle h s" using release_quiet Cons.prems(2) by (metis list.set_intros(1))
  have le: "strong t m = strong s m \<or> strong t m < strong s m \<and> m = h" for m by (auto simp: td)
  have "inner s' = inner t \<and> ran s' = ran t \<and> arena s' = arena t \<and> next_owner s' = next_owner t
    \<and> (\<forall>h. strong s' h = strong t h \<or> strong s' h < strong t h \<and> h \<in> set held)"
    using Cons.IH [OF t(2)] Cons.prems(2) by (simp add: td)
  moreover have "strong s' m = strong s m \<or> strong s' m < strong s m \<and> m \<in> set (h # held)"
    if "strong s' m = strong t m \<or> strong s' m < strong t m \<and> m \<in> set held" for m
    using le [of m] that by auto
  ultimately show ?case by (simp add: td)
qed simp

lemma remove_nodes_held:
  "h \<in> set (fst (remove_nodes ns a)) \<Longrightarrow> \<exists>node \<in> set ns. \<exists>held. a node = Some held \<and> h \<in> set held"
proof (induction ns arbitrary: a)
  case (Cons node ns)
  show ?case
  proof (cases "a node")
    case None
    then show ?thesis using Cons by auto
  next
    case (Some held)
    then consider "h \<in> set held" | "h \<in> set (fst (remove_nodes ns (a(node := None))))"
      using Cons.prems by (auto simp: Let_def case_prod_unfold)
    then show ?thesis
    proof cases
      case 2
      then show ?thesis using Cons.IH [OF 2] by (auto split: if_splits)
    qed (use Some in auto)
  qed
qed simp

text \<open>One child: it keeps its handles, and what happens to it is no matter for its siblings.\<close>

definition cleans_exactly :: "nat \<Rightarrow> 'v owners itself \<Rightarrow> bool" where
  "cleans_exactly fuel ty \<longleftrightarrow> (\<forall>n (s :: 'v owners) s'. family s \<longrightarrow> own_values s n \<longrightarrow> calm s \<longrightarrow> cleanup fuel n s = Some s' \<longrightarrow>
     exact s {m. under s n m} s' \<and> ran s' = ran s @ cleanup_order s n \<and> emptied (inner s' n))"

lemma child_exact:
  assumes ih: "cleans_exactly fuel TYPE('v owners)" and f: "family (s :: 'v owners)" and v: "own_values s n" and calm: "calm s"
    and c: "(c, n) \<in> up s" and a: "alive s c" and r: "child_round fuel c s = Some s'"
  shows "exact s {m. under s c m} s' \<and> ran s' = ran s @ cleanup_order s c \<and> emptied (inner s' c)"
proof -
  let ?r = "retain c s"
  have up: "up ?r = up s" by (simp add: up_def)
  obtain u where u: "cleanup fuel c ?r = Some u" "release fuel c u = Some s'"
    using r a calm by (auto simp: bind_eq_Some_conv calm_def)
  have fr: "family ?r" using f up_greater [OF f c] by (auto simp: family_def)
  have "own_values s c" by (rule own_values_child [OF c v])
  then have vr: "own_values ?r c" by (fastforce simp: own_values_def up alive_def split: option.splits)
  have cr: "calm ?r" using calm by (simp add: calm_def)
  have ord: "cleanup_order ?r c = cleanup_order s c"
    using a by (intro cleanup_order_same [OF f]) (auto simp: alive_def)
  have ex: "exact ?r {m. under s c m} u" "ran u = ran s @ cleanup_order s c" "emptied (inner u c)"
    using ih fr vr cr u(1) up ord unfolding cleans_exactly_def by fastforce+
  have "strong u c = strong ?r c"
    using ex(1) parent_not_under [OF f c] unfolding exact_def up by blast
  then have "strong u c = Suc (strong s c)" by simp
  moreover have s': "s' = drop_handle c u" using release_quiet [OF u(2)] ex(3) by blast
  ultimately have "strong s' h = (if h = c then strong s h else strong u h)" for h by simp
  then have "exact s {m. under s c m} s'"
    using ex(1) unfolding exact_def up s' by (auto split: if_splits)
  then show ?thesis using ex s' by simp
qed

lemma children_exact:
  assumes ih: "cleans_exactly fuel TYPE('v owners)"
    and "family (s :: 'v owners)" and "own_values s n" and "calm s" and "\<And>c. c \<in> set cs \<Longrightarrow> (c, n) \<in> up s" and "distinct cs"
    and "fold_opt (child_round fuel) cs s = Some s'"
  shows "exact s {m. \<exists>c \<in> set cs. under s c m} s'
    \<and> ran s' = ran s @ concat (map (\<lambda>c. if alive s c then cleanup_order s c else []) cs)
    \<and> (\<forall>c \<in> set cs. alive s c \<longrightarrow> emptied (inner s' c))"
  using assms(2-)
proof (induction cs arbitrary: s)
  case Nil
  then show ?case by (simp add: exact_refl)
next
  case (Cons c cs)
  note f = Cons.prems(1) and v = Cons.prems(2) and calm = Cons.prems(3)
  have c: "(c, n) \<in> up s" using Cons.prems(4) by simp
  obtain t where t: "child_round fuel c s = Some t" "fold_opt (child_round fuel) cs t = Some s'"
    using Cons.prems(6) by (cases "child_round fuel c s") auto
  have ct: "exact s {m. under s c m} t \<and> (ran t = ran s @ (if alive s c then cleanup_order s c else []))
      \<and> (alive s c \<longrightarrow> emptied (inner t c))"
  proof (cases "alive s c")
    case True
    then show ?thesis using child_exact [OF ih f v calm c True t(1)] by simp
  next
    case False
    then show ?thesis using t(1) by (simp add: exact_refl)
  qed
  then have et: "exact s {m. under s c m} t" by blast
  have up: "up t = up s" by (rule exact_up [OF et])
  have ft: "family t" and vt: "own_values t n" using exact_family [OF et f] exact_own_values [OF et f v] by auto
  have ct': "calm t" by (rule child_calm [OF t(1) calm])
  have apart: "inner t m = inner s m \<and> strong t m = strong s m" if d: "d \<in> set cs" "under s d m" for d m
  proof -
    have dn: "(d, n) \<in> up s" "d \<noteq> c" using d(1) Cons.prems(4,5) by auto
    have nc: "\<not> under s c m" using siblings_apart [OF f dn(1) c dn(2) d(2)] .
    have "\<not> under s c p" if p: "(m, p) \<in> up s" for p
    proof
      assume "under s c p"
      then have "under s c m" using p by (rule converse_rtrancl_into_rtrancl [rotated])
      then show False using nc by simp
    qed
    then show ?thesis using et nc unfolding exact_def by blast
  qed
  have same: "cleanup_order t d = cleanup_order s d" "alive t d = alive s d" if "d \<in> set cs" for d
    using apart [OF that] et by (auto simp: alive_def exact_def intro!: cleanup_order_same [OF f])
  have IH: "exact t {m. \<exists>c \<in> set cs. under t c m} s'
    \<and> ran s' = ran t @ concat (map (\<lambda>c. if alive t c then cleanup_order t c else []) cs)
    \<and> (\<forall>c \<in> set cs. alive t c \<longrightarrow> emptied (inner s' c))"
    using Cons.IH [OF ft vt ct' _ _ t(2)] Cons.prems(4,5) up by simp
  have eqm: "map (\<lambda>c. if alive t c then cleanup_order t c else []) cs = map (\<lambda>c. if alive s c then cleanup_order s c else []) cs"
    using same by simp
  have "{m. under s c m} \<union> {m. \<exists>c \<in> set cs. under t c m} = {m. \<exists>c \<in> set (c # cs). under s c m}"
    by (auto simp: up)
  then have "exact s {m. \<exists>c \<in> set (c # cs). under s c m} s'"
    using exact_trans [OF et, of "{m. \<exists>c \<in> set cs. under t c m}" s'] IH by simp
  moreover have "\<forall>d \<in> set (c # cs). alive s d \<longrightarrow> emptied (inner s' d)"
    using IH ct same(2) exact_emptied by auto
  moreover have "ran s' = ran s @ concat (map (\<lambda>c. if alive s c then cleanup_order s c else []) (c # cs))"
    using IH [unfolded eqm] ct by simp
  ultimately show ?case by blast
qed

section \<open>The whole cleanup\<close>

lemma cleanup_order_children:
  assumes "family s"
  shows "cleanup_order s n =
    concat (map (\<lambda>c. if alive s c then cleanup_order s c else []) (o_children (inner s n))) @ o_cleanups (inner s n)"
proof -
  have "map (\<lambda>c. if alive s c \<and> n < c \<and> c < next_owner s then cleanup_order s c else []) (o_children (inner s n))
      = map (\<lambda>c. if alive s c then cleanup_order s c else []) (o_children (inner s n))"
    using up_greater [OF assms child_up [OF assms]] by (intro map_cong) auto
  then show ?thesis unfolding cleanup_order.simps [of s n] by (rule arg_cong)
qed

lemma cleanup_exact_step:
  assumes ih: "cleans_exactly fuel TYPE('v owners)"
    and f: "family (s :: 'v owners)" and v: "own_values s n" and calm: "calm s" and r: "cleanup (Suc fuel) n s = Some s'"
  shows "exact s {m. under s n m} s' \<and> ran s' = ran s @ cleanup_order s n \<and> emptied (inner s' n)"
proof -
  define old where "old = inner s n"
  define s1 where "s1 = on_inner n (\<lambda>x. x\<lparr>o_cleanups := [], o_nodes := [], o_children := []\<rparr>) s"
  have e1: "exact s {m. m = n} s1" by (simp add: exact_def s1_def wiped_def)
  have up1: "up s1 = up s" and f1: "family s1" and v1: "own_values s1 n"
    using exact_up exact_family exact_own_values e1 f v by blast+
  have c1: "calm s1" using calm by (simp add: s1_def calm_def)
  have em1: "emptied (inner s1 n)" by (simp add: s1_def emptied_def)
  have kids: "(c, n) \<in> up s" if "c \<in> set (o_children old)" for c using child_up [OF f] that by (simp add: old_def)
  obtain s2 where s2: "fold_opt (child_round fuel) (o_children old) s1 = Some s2"
    using r by (auto simp: cleanup.simps Let_def s1_def old_def bind_eq_Some_conv)
  have c2: "exact s1 {m. \<exists>c \<in> set (o_children old). under s1 c m} s2"
      "ran s2 = ran s1 @ concat (map (\<lambda>c. if alive s1 c then cleanup_order s1 c else []) (o_children old))"
      "\<And>c. c \<in> set (o_children old) \<Longrightarrow> alive s1 c \<Longrightarrow> emptied (inner s2 c)"
    using children_exact [OF ih f1 v1 c1 _ _ s2] kids up1 f by (auto simp: family_def old_def)
  have ord: "cleanup_order s1 c = cleanup_order s c" "alive s1 c = alive s c" if "c \<in> set (o_children old)" for c
    using not_under_child [OF f kids [OF that]] by (auto simp: s1_def alive_def intro!: cleanup_order_same [OF f])
  have eq: "map (\<lambda>c. if alive s1 c then cleanup_order s1 c else []) (o_children old)
      = map (\<lambda>c. if alive s c then cleanup_order s c else []) (o_children old)"
    using ord by simp
  have r2: "ran s2 @ o_cleanups old = ran s @ cleanup_order s n"
    using c2(2) [unfolded eq] cleanup_order_children [OF f, of n] by (simp add: s1_def old_def)
  obtain held a where h: "remove_nodes (o_nodes old) (arena s2) = (held, a)" by fastforce
  have "calm s2" by (rule fold_opt_keeps [where P = calm, OF s2 c1]) (rule child_calm)
  then have run: "fold run_cleanup (o_cleanups old) s2 = s2\<lparr>ran := ran s2 @ o_cleanups old\<rparr>"
    by (simp add: calm_def run_cleanups_calm)
  let ?s3 = "s2\<lparr>ran := ran s2 @ o_cleanups old, arena := a\<rparr>"
  have r3: "fold_opt (\<lambda>n s. release fuel n s) held ?s3 = Some s'"
    using r s2 h \<open>calm s2\<close>
    unfolding cleanup.simps Let_def old_def [symmetric] s1_def [symmetric]
    by (simp add: run calm_def)
  have hk: "h \<in> set (o_children old) \<and> alive s h" if hh: "h \<in> set held" for h
  proof -
    obtain node hs where n: "node \<in> set (o_nodes old)" "arena s2 node = Some hs" "h \<in> set hs"
      using remove_nodes_held [of h "o_nodes old" "arena s2"] hh h by auto
    then have "arena s node = Some hs" using c2(1) e1 by (auto simp: exact_def)
    then show ?thesis using v n unfolding own_values_def old_def by fastforce
  qed
  then have "emptied (inner ?s3 h)" if "h \<in> set held" for h using c2(3) ord(2) that by simp
  from fold_release_quiet [OF r3 this]
  have q: "inner s' = inner s2" "ran s' = ran s2 @ o_cleanups old" "arena s' = a" "next_owner s' = next_owner s2"
      "\<And>h. strong s' h = strong s2 h \<or> strong s' h < strong s2 h \<and> h \<in> set held"
    by simp_all
  have em2: "emptied (inner s' n)" using exact_emptied [OF c2(1) em1] by (simp add: q)
  have "exact s2 {m. m = n} s'"
    unfolding exact_def
  proof (intro conjI allI impI)
    fix h
    have "(h, n) \<in> up s2" if "h \<in> set held" using kids hk [OF that] exact_up [OF c2(1)] up1 by simp
    then show "strong s' h = strong s2 h \<or> strong s' h < strong s2 h \<and> (\<exists>p \<in> {m. m = n}. (h, p) \<in> up s2 \<and> emptied (inner s' p))"
      using q(5) [of h] em2 by auto
  next
    fix node hs assume "arena s' node = Some hs"
    then show "arena s2 node = Some hs"
      using remove_nodes_arena [of "o_nodes old" "arena s2"] h by (auto simp: q split: if_splits)
  qed (simp_all add: q)
  then have "exact s ({m. m = n} \<union> {m. \<exists>c \<in> set (o_children old). under s1 c m} \<union> {m. m = n}) s'"
    using exact_trans [OF exact_trans [OF e1 c2(1)]] by blast
  moreover have "{m. m = n} \<union> {m. \<exists>c \<in> set (o_children old). under s1 c m} \<union> {m. m = n} \<subseteq> {m. under s n m}"
    using up1 by (auto intro: under_child [OF kids])
  ultimately have "exact s {m. under s n m} s'" unfolding exact_def by blast
  then show ?thesis using r2 q(2) em2 by simp
qed

lemma cleanup_exact: "cleans_exactly fuel TYPE('v owners)"
proof (induction fuel)
  case (Suc fuel)
  then show ?case
    unfolding cleans_exactly_def [of "Suc fuel"] using cleanup_exact_step by blast
qed (simp add: cleans_exactly_def cleanup.simps)

section \<open>Properties\<close>

text \<open>
  C19. Cleaning an owner up, outside of an unwinding panic and when the arena values of the owner and of
  its descendants hold only live children of the owner that keeps them (as effects and memos hold
  theirs; a stored handle to any other owner is excluded, since dropping it may run that owner's
  functions), calls the cleanup functions of its descendants that are alive and its own in the
  documented order: the children in the order of their creation, each with its own children first,
  then the owner's functions in the order of their registration. Only the owner and its
  descendants lose anything.
\<close>

theorem cleanup_runs_children_first:
  assumes "owners_reach R s" and "\<not> unwinding s" and "own_values s n" and "entries s < fuel"
  shows "\<exists>s'. cleanup fuel n s = Some s' \<and> ran s' = ran s @ cleanup_order s n
    \<and> (\<forall>m. \<not> under s n m \<longrightarrow> inner s' m = inner s m)"
proof -
  have i: "family s" "bounded s" using reach_inv [OF assms(1)] by (auto simp: owners_inv_def)
  have c: "calm s" using reach_not_borrowed [OF assms(1)] assms(2) by (simp add: calm_def)
  obtain s' where s': "cleanup fuel n s = Some s'" using cleanup_torn_down [OF i(2) assms(4)] by blast
  moreover have "exact s {m. under s n m} s'" "ran s' = ran s @ cleanup_order s n"
    using cleanup_exact [of fuel] s' i(1) assms(3) c unfolding cleans_exactly_def by blast+
  ultimately show ?thesis unfolding exact_def by blast
qed

text \<open>A root that keeps its child alive through a value in the arena, as an effect does.\<close>

definition kept_child :: "nat owners" where
  "kept_child =
    (let s = on_cleanup (1, False) (snd (new_root no_owners));
         (c, s) = owner_child 0 s;
         s = on_cleanup (2, False) (owner_set c s)
     in snd (store_item [c] (owner_set 0 s)))"

lemma kept_child_reach: "owners_reach {#(1, False), (2, False)#} kept_child"
proof -
  let ?s1 = "on_cleanup (1, False) (snd (new_root no_owners)) :: nat owners"
  let ?s2 = "snd (owner_child 0 ?s1)\<lparr>current := Some 1\<rparr>"
  have "owners_reach {#(1, False)#} ?s1"
    by (intro reach_register reach_root reach_start) (simp add: owner_run)
  then have "owners_reach {#(1, False)#} ?s2"
    by (intro reach_current reach_child) (auto simp: owner_run)
  moreover have "current_owner ?s2 \<noteq> None" by (simp add: owner_run Let_def)
  ultimately have "owners_reach {#(2, False), (1, False)#} (on_cleanup (2, False) ?s2)"
    by (rule reach_register)
  from reach_store [OF reach_current [OF this, of "Some 0"], of "[1]"]
  have "owners_reach {#(2, False), (1, False)#} (snd (store_item [1] ((on_cleanup (2, False) ?s2)\<lparr>current := Some 0\<rparr>)))" .
  moreover have "fst (owner_child 0 ?s1) = 1" by (simp add: owner_run Let_def)
  ultimately show ?thesis
    by (simp add: kept_child_def Let_def case_prod_unfold owner_set_def add_mset_commute)
qed

theorem cleanup_runs_children_first_witness:
  "cleanup_order kept_child 0 = [(2, False), (1, False)] \<and> arena kept_child 0 = Some [1]
    \<and> (\<exists>s'. cleanup 3 0 kept_child = Some s' \<and> ran s' = [(2, False), (1, False)])"
proof -
  have "entries kept_child < 3" by (simp add: owner_run kept_child_def entries_def Let_def lessThan_Suc)
  moreover have "own_values kept_child 0" by (auto simp: owner_run kept_child_def own_values_def Let_def)
  moreover have "ran kept_child = []" "\<not> unwinding kept_child" by (simp_all add: owner_run kept_child_def Let_def)
  moreover have "cleanup_order kept_child 0 = [(2, False), (1, False)]"
    by (simp add: cleanup_order.simps owner_run kept_child_def Let_def)
  moreover have "arena kept_child 0 = Some [1]" by (simp add: owner_run kept_child_def Let_def)
  ultimately show ?thesis using cleanup_runs_children_first [OF kept_child_reach, of 0 3] by fastforce
qed

end
