(* ===== verification/Owner_Contexts.thy ===== *)
theory Owner_Contexts
  imports Owner_Order
begin

text \<open>
  Contexts and pausing: a context is looked up from an owner through its ancestors that are alive, the
  nearest provider wins; pausing an owner pauses it and its live descendants and nothing else.
\<close>

section \<open>Looking a context up\<close>

text \<open>What the first owner of a list that provides a context provides.\<close>

fun nearest :: "string \<Rightarrow> 'v owners \<Rightarrow> nat list \<Rightarrow> 'v option" where
  "nearest ty s [] = None"
| "nearest ty s (n # ns) = (case o_contexts (inner s n) ty of Some v \<Rightarrow> Some v | None \<Rightarrow> nearest ty s ns)"

lemma parent_of_less: "family s \<Longrightarrow> parent_of s n = Some p \<Longrightarrow> p < n \<and> alive s p"
  by (auto simp: parent_of_def upgrade_def family_def split: option.splits if_splits)

lemma lookup_total:
  assumes "family s" and "\<And>n. start = Some n \<Longrightarrow> n < fuel"
  shows "\<exists>chain p. ancestry_loop fuel s start = Some chain \<and> find_provider fuel ty s start = Some p
    \<and> nearest ty s chain = Option.bind p (\<lambda>p. o_contexts (inner s p) ty)
    \<and> (\<forall>q. p = Some q \<longrightarrow> q \<in> set chain \<and> o_contexts (inner s q) ty \<noteq> None)"
  using assms(2)
proof (induction fuel arbitrary: start)
  case 0
  then show ?case by (cases start) auto
next
  case (Suc fuel)
  show ?case
  proof (cases start)
    case (Some n)
    have "q < fuel" if "parent_of s n = Some q" for q
      using parent_of_less [OF assms(1) that] Suc.prems [OF Some] by simp
    from Suc.IH [OF this] obtain chain p where cp: "ancestry_loop fuel s (parent_of s n) = Some chain"
        "find_provider fuel ty s (parent_of s n) = Some p"
        "nearest ty s chain = Option.bind p (\<lambda>p. o_contexts (inner s p) ty)"
        "\<forall>q. p = Some q \<longrightarrow> q \<in> set chain \<and> o_contexts (inner s q) ty \<noteq> None"
      by blast
    then show ?thesis
      unfolding Some by (cases "o_contexts (inner s n) ty") (auto split: option.splits)
  qed simp
qed

lemma chain_shape:
  "family s \<Longrightarrow> ancestry_loop fuel s start = Some chain \<Longrightarrow> sorted_wrt (>) chain \<and> (\<forall>m \<in> set chain. \<forall>n. start = Some n \<longrightarrow> m \<le> n)"
proof (induction fuel s start arbitrary: chain rule: ancestry_loop.induct)
  case (3 fuel s n)
  then obtain rest where rest: "ancestry_loop fuel s (parent_of s n) = Some rest" "chain = n # rest" by auto
  have "m < n" if "m \<in> set rest" for m
  proof (cases "parent_of s n")
    case None
    then show ?thesis using rest that by (cases fuel) auto
  next
    case (Some p)
    then have "m \<le> p" using "3.IH" [OF "3.prems"(1) rest(1)] that by blast
    then show ?thesis using parent_of_less [OF "3.prems"(1) Some] by simp
  qed
  then show ?case using "3.IH" [OF "3.prems"(1) rest(1)] rest(2) by (auto intro: less_imp_le)
qed auto

lemma with_context_provided:
  "o_contexts (inner s n) ty = Some v \<Longrightarrow> 0 < fuel \<Longrightarrow> with_context fuel ty n s = Some (Some v)"
  by (cases fuel) (auto simp: with_context_def)

lemma with_context_inherited:
  "o_contexts (inner s n) ty = None \<Longrightarrow> parent_of s n = Some p \<Longrightarrow> with_context (Suc fuel) ty n s = with_context fuel ty p s"
  by (simp add: with_context_def)

lemma ancestry_mono: "ancestry_loop k s start = Some chain \<Longrightarrow> ancestry_loop (Suc k) s start = Some chain"
proof (induction k s start arbitrary: chain rule: ancestry_loop.induct)
  case (3 k s n)
  then obtain rest where rest: "ancestry_loop k s (parent_of s n) = Some rest" "chain = n # rest" by auto
  then show ?case using "3.IH" [OF rest(1)] by (simp only: ancestry_loop.simps option.map)
qed auto

lemma context_from:
  assumes "family s" and "n < fuel"
  obtains chain p where "ancestry fuel n s = Some chain" "sorted_wrt (>) (n # chain)"
    "find_provider fuel ty s (Some n) = Some p" "nearest ty s (n # chain) = Option.bind p (\<lambda>p. o_contexts (inner s p) ty)"
    "\<And>q. p = Some q \<Longrightarrow> q \<in> set (n # chain) \<and> o_contexts (inner s q) ty \<noteq> None"
proof -
  obtain all p where a: "ancestry_loop fuel s (Some n) = Some all" "find_provider fuel ty s (Some n) = Some p"
      "nearest ty s all = Option.bind p (\<lambda>p. o_contexts (inner s p) ty)"
      "\<forall>q. p = Some q \<longrightarrow> q \<in> set all \<and> o_contexts (inner s q) ty \<noteq> None"
    using lookup_total [OF assms(1), of "Some n" fuel ty] assms(2) by auto
  obtain k where k: "fuel = Suc k" using assms(2) by (cases fuel) auto
  obtain chain where c: "ancestry_loop k s (parent_of s n) = Some chain" "all = n # chain"
    using a(1) k by auto
  have "ancestry fuel n s = Some chain" unfolding ancestry_def k by (rule ancestry_mono [OF c(1)])
  moreover have "sorted_wrt (>) (n # chain)" using chain_shape [OF assms(1) a(1)] c(2) by simp
  ultimately show ?thesis using that a(2-4) c(2) by auto
qed

text \<open>Who the ancestors are does not depend on the contexts.\<close>

lemma ancestry_same:
  assumes "\<And>m. o_parent (inner s' m) = o_parent (inner s m)" and "strong s' = strong s"
  shows "ancestry fuel n s' = ancestry fuel n s"
proof -
  have p: "parent_of s' = parent_of s"
    using assms by (auto simp: fun_eq_iff parent_of_def upgrade_def alive_def split: option.split)
  have "ancestry_loop fuel s' start = ancestry_loop fuel s start" for start
  proof (induction fuel arbitrary: start)
    case 0
    then show ?case by (cases start) auto
  next
    case (Suc fuel)
    then show ?case by (cases start) (auto simp: p)
  qed
  then show ?thesis by (simp add: ancestry_def p)
qed

section \<open>Properties of contexts\<close>

text \<open>
  C31. Looking a context up ends, and gives the value of the nearest owner that provides one: the owner
  itself or the first such ancestor, each ancestor older than the one before. Taking it gives the same
  value and removes it from that owner only: a second look finds the next provider up, and providing
  the value there again restores everything.
\<close>

theorem use_context_is_nearest:
  assumes "owners_reach R s" and "n < fuel"
  shows "\<exists>chain. ancestry fuel n s = Some chain \<and> sorted_wrt (>) (n # chain)
    \<and> with_context fuel ty n s = Some (nearest ty s (n # chain))
    \<and> (\<exists>s'. take_context fuel ty n s = Some (nearest ty s (n # chain), s')
         \<and> with_context fuel ty n s' = Some (nearest ty s' (n # chain))
         \<and> (\<forall>v. nearest ty s (n # chain) = Some v \<longrightarrow>
              (\<exists>p \<in> set (n # chain). o_contexts (inner s' p) ty = None \<and> provide_context ty v p s' = s)))"
proof -
  have f: "family s" using reach_inv [OF assms(1)] by (simp add: owners_inv_def)
  obtain chain p where c: "ancestry fuel n s = Some chain" "sorted_wrt (>) (n # chain)"
      "find_provider fuel ty s (Some n) = Some p" "nearest ty s (n # chain) = Option.bind p (\<lambda>p. o_contexts (inner s p) ty)"
      "\<And>q. p = Some q \<Longrightarrow> q \<in> set (n # chain) \<and> o_contexts (inner s q) ty \<noteq> None"
    using context_from [OF f assms(2)] by metis
  have w: "with_context fuel ty n s = Some (nearest ty s (n # chain))" using c(3,4) by (simp add: with_context_def)
  show ?thesis
  proof (cases p)
    case None
    then show ?thesis using c w by (auto simp: take_context_def)
  next
    case (Some q)
    let ?s = "on_inner q (\<lambda>x. x\<lparr>o_contexts := (o_contexts x)(ty := None)\<rparr>) s"
    have t: "take_context fuel ty n s = Some (nearest ty s (n # chain), ?s)" using c(3,4) Some by (simp add: take_context_def)
    have a: "ancestry fuel n ?s = Some chain"
      using c(1) ancestry_same [of ?s s fuel n] by simp
    have "family ?s" using f by (simp add: family_def)
    then obtain chain' p' where p': "ancestry fuel n ?s = Some chain'" "find_provider fuel ty ?s (Some n) = Some p'"
        "nearest ty ?s (n # chain') = Option.bind p' (\<lambda>p. o_contexts (inner ?s p) ty)"
      by (rule context_from [OF _ assms(2), of ?s ty])
    have w': "with_context fuel ty n ?s = Some (nearest ty ?s (n # chain))"
      using p' a unfolding with_context_def by simp
    have "provide_context ty v q ?s = s" if "nearest ty s (n # chain) = Some v" for v
      using that c(4) Some by (simp add: provide_context_def on_inner_def fun_upd_idem)
    moreover have "q \<in> set (n # chain)" "o_contexts (inner ?s q) ty = None" using c(5) [OF Some] by auto
    ultimately show ?thesis using c(1,2) w t w' by blast
  qed
qed

text \<open>A root that provides a number, a child that provides another, and a grandchild.\<close>

definition three_owners :: "nat owners" where
  "three_owners =
    (let s = provide_context ''Theme'' 7 0 (snd (new_root no_owners)); s = provide_context ''Theme'' 8 1 (snd (owner_child 0 s))
     in snd (owner_child 1 s))"

lemma three_owners_reach: "owners_reach {#} three_owners"
proof -
  let ?s1 = "provide_context ''Theme'' 7 0 (snd (new_root no_owners)) :: nat owners"
  let ?s2 = "provide_context ''Theme'' 8 1 (snd (owner_child 0 ?s1))"
  have s1: "owners_reach {#} ?s1"
    by (rule reach_provide [OF reach_root [OF reach_start]]) (simp add: owner_run Let_def)
  have a: "alive ?s1 0" "alive (snd (owner_child 0 ?s1)) 1" "alive ?s2 1"
    by (simp_all add: owner_run provide_context_def Let_def)
  show ?thesis
    using reach_child [OF reach_provide [OF reach_child [OF s1 a(1)] a(2)] a(3)]
    unfolding three_owners_def Let_def .
qed

theorem use_context_is_nearest_witness:
  "with_context 3 ''Theme'' 2 three_owners = Some (Some 8)
    \<and> (\<exists>s'. take_context 3 ''Theme'' 2 three_owners = Some (Some 8, s') \<and> with_context 3 ''Theme'' 2 s' = Some (Some 7))"
proof -
  have a: "ancestry 3 2 three_owners = Some [1, 0]"
    by (simp add: three_owners_def owner_run provide_context_def Let_def ancestry_def parent_of_def numeral_nat)
  have "nearest ''Theme'' three_owners [2, 1, 0] = Some 8"
    by (simp add: three_owners_def owner_run provide_context_def Let_def)
  moreover have "take_context 3 ''Theme'' 2 three_owners = Some (r, s') \<Longrightarrow> nearest ''Theme'' s' [2, 1, 0] = Some 7" for r s'
    by (auto simp: three_owners_def owner_run provide_context_def take_context_def parent_of_def Let_def numeral_nat)
  ultimately show ?thesis
    using use_context_is_nearest [OF three_owners_reach, of 2 3 "''Theme''"] a by auto
qed

section \<open>Pausing\<close>

text \<open>The owners that are reached through live children, and the number of rounds it takes.\<close>

definition live_child :: "'v owners \<Rightarrow> (nat \<times> nat) set" where
  "live_child s = {(p, c). c \<in> set (o_children (inner s p)) \<and> alive s c}"

function (sequential) rounds :: "'v owners \<Rightarrow> nat \<Rightarrow> nat" where
  "rounds s n = Suc (sum_list (map (\<lambda>c. if n < c \<and> c < next_owner s then rounds s c else 1) (o_children (inner s n))))"
  by pat_completeness auto
termination by (relation "measure (\<lambda>(s, n). next_owner s - n)") auto

declare rounds.simps [simp del]

lemma rounds_children: "family s \<Longrightarrow> rounds s n = Suc (sum_list (map (rounds s) (o_children (inner s n))))"
proof -
  assume f: "family s"
  have "map (\<lambda>c. if n < c \<and> c < next_owner s then rounds s c else 1) (o_children (inner s n)) = map (rounds s) (o_children (inner s n))"
    using up_greater [OF f child_up [OF f]] by (intro map_cong) auto
  then show ?thesis unfolding rounds.simps [of s n] by (rule arg_cong)
qed

lemma rounds_same:
  assumes "next_owner s' = next_owner s" and "\<And>m. o_children (inner s' m) = o_children (inner s m)"
  shows "rounds s' n = rounds s n"
  using assms
proof (induction s n rule: rounds.induct)
  case (1 s n)
  have "map (\<lambda>c. if n < c \<and> c < next_owner s' then rounds s' c else 1) (o_children (inner s' n))
      = map (\<lambda>c. if n < c \<and> c < next_owner s then rounds s c else 1) (o_children (inner s n))"
    unfolding "1.prems" by (rule map_cong) (use "1.IH" "1.prems" in auto)
  then show ?case unfolding rounds.simps [of s' n] rounds.simps [of s n] by simp
qed

lemma live_child_paused: "live_child (on_inner n (\<lambda>x. x\<lparr>o_paused := b\<rparr>) s) = live_child s"
  by (auto simp: live_child_def split: if_splits)

lemma pause_loop_works:
  assumes "family s" and "sum_list (map (rounds s) stack) \<le> fuel"
  shows "\<exists>s'. pause_loop fuel b stack s = Some s'
    \<and> s' = s\<lparr>inner := \<lambda>m. if \<exists>x \<in> set stack. alive s x \<and> (x, m) \<in> (live_child s)\<^sup>* then (inner s m)\<lparr>o_paused := b\<rparr> else inner s m\<rparr>"
  using assms
proof (induction fuel arbitrary: stack s)
  case 0
  have "stack = []" using "0.prems"(2) by (cases stack) (auto simp: rounds.simps)
  then show ?case by (simp add: pause_loop.simps)
next
  case (Suc fuel)
  show ?case
  proof (cases "stack = []")
    case True
    then show ?thesis by (simp add: pause_loop.simps)
  next
    case False
    then obtain st n where stack: "stack = st @ [n]" by (metis append_butlast_last_id)
    have pos: "0 < rounds s n" by (simp add: rounds.simps)
    show ?thesis
    proof (cases "alive s n")
      case True
      let ?s = "on_inner n (\<lambda>x. x\<lparr>o_paused := b\<rparr>) s" and ?next = "st @ o_children (inner s n)"
      have f: "family ?s" using Suc.prems(1) by (simp add: family_def)
      have "rounds ?s = rounds s" by (rule ext, rule rounds_same) simp_all
      then have r: "sum_list (map (rounds ?s) ?next) \<le> fuel"
        using Suc.prems(2) rounds_children [OF Suc.prems(1), of n] by (simp add: stack)
      have lp: "(\<exists>x \<in> set stack. alive s x \<and> (x, m) \<in> (live_child s)\<^sup>*)
          \<longleftrightarrow> m = n \<or> (\<exists>x \<in> set ?next. alive s x \<and> (x, m) \<in> (live_child s)\<^sup>*)" for m
      proof -
        have "(n, m) \<in> (live_child s)\<^sup>* \<longleftrightarrow> m = n \<or> (\<exists>x \<in> set (o_children (inner s n)). alive s x \<and> (x, m) \<in> (live_child s)\<^sup>*)"
          by (subst rtrancl_eq_or_trancl, subst trancl_unfold_left) (auto simp: live_child_def)
        then show ?thesis using True by (auto simp: stack)
      qed
      have "pause_loop (Suc fuel) b stack s = pause_loop fuel b ?next ?s"
        using True by (subst pause_loop.simps) (simp add: stack Let_def)
      moreover have eq: "?s\<lparr>inner := \<lambda>m. if P m then (inner ?s m)\<lparr>o_paused := b\<rparr> else inner ?s m\<rparr>
          = s\<lparr>inner := \<lambda>m. if m = n \<or> P m then (inner s m)\<lparr>o_paused := b\<rparr> else inner s m\<rparr>" for P
        unfolding on_inner_def by (auto intro!: arg_cong [of _ _ "\<lambda>f. s\<lparr>inner := f\<rparr>"])
      ultimately show ?thesis
        using Suc.IH [OF f r] unfolding lp live_child_paused on_inner_simps(12) eq by (simp only: simp_thms)
    next
      case False
      have "sum_list (map (rounds s) st) \<le> fuel" using Suc.prems(2) pos by (simp add: stack)
      moreover have "pause_loop (Suc fuel) b stack s = pause_loop fuel b st s"
        using False by (subst pause_loop.simps) (simp add: stack Let_def)
      ultimately show ?thesis using Suc.IH [OF Suc.prems(1)] False by (simp add: stack)
    qed
  qed
qed

text \<open>
  C40. Pausing an owner ends, and pauses it and every descendant that is reached through live owners, and
  changes nothing else; resuming it does the reverse.
\<close>

theorem pause_reaches_live_descendants:
  assumes "owners_reach R s" and "alive s n" and "rounds s n \<le> fuel"
  shows "pause fuel n s = Some (s\<lparr>inner := \<lambda>m. if (n, m) \<in> (live_child s)\<^sup>* then (inner s m)\<lparr>o_paused := True\<rparr> else inner s m\<rparr>)
    \<and> resume fuel n s = Some (s\<lparr>inner := \<lambda>m. if (n, m) \<in> (live_child s)\<^sup>* then (inner s m)\<lparr>o_paused := False\<rparr> else inner s m\<rparr>)"
proof -
  have f: "family s" using reach_inv [OF assms(1)] by (simp add: owners_inv_def)
  show ?thesis using pause_loop_works [OF f, of "[n]" fuel] assms(2,3) by (simp add: pause_def resume_def)
qed

theorem pause_reaches_live_descendants_witness:
  "\<exists>s'. pause 3 0 three_owners = Some s' \<and> o_paused (inner s' 2) \<and> \<not> o_paused (inner three_owners 2)"
proof -
  have a: "alive three_owners 0" by (simp add: three_owners_def owner_run provide_context_def Let_def)
  have r: "rounds three_owners 0 = 3"
    by (simp add: rounds.simps three_owners_def owner_run provide_context_def Let_def)
  have "(0, 1) \<in> live_child three_owners" "(1, 2) \<in> live_child three_owners"
    by (simp_all add: live_child_def three_owners_def owner_run provide_context_def Let_def numeral_nat)
  then have "(0, 2) \<in> (live_child three_owners)\<^sup>*" by (meson r_into_rtrancl rtrancl_trans)
  moreover have "\<not> o_paused (inner three_owners 2)"
    by (simp add: three_owners_def owner_run provide_context_def Let_def)
  ultimately show ?thesis
    using pause_reaches_live_descendants [OF three_owners_reach a, of 3] r by simp
qed

section \<open>Two divergences\<close>

text \<open>
  \<open>unset\<close> drops the owner while \<open>OWNER\<close> is mutably borrowed: a cleanup function that asks for the
  current owner panics there, and does not when the owner is dropped in any other way. The function
  registered after it is then dropped unrun, and \<open>OWNER\<close> keeps pointing to the owner that is gone.
\<close>

lemma unset_panics:
  "map_option panicked (owner_unset 3 0 (on_cleanup (1, True) (snd (new_root no_owners)))) = Some [(1, True)]"
  "map_option (\<lambda>s. (ran s, lost s, current s, alive s 0, unwinding s))
    (owner_unset 3 0 (on_cleanup (2, False) (on_cleanup (1, True) (snd (new_root no_owners)))))
    = Some ([(1, True)], [(2, False)], Some 0, False, True)"
  "map_option panicked (unset_with_forced_cleanup 3 0 (on_cleanup (1, True) (snd (new_root no_owners)))) = Some []"
  by (simp_all add: owner_unset_def unset_with_forced_cleanup_def owner_run cleanup.simps release.simps Let_def numeral_nat)

text \<open>\<open>use_context_bidirectional\<close> does not find what an ancestor, or the owner itself, provides.\<close>

lemma bidirectional_misses_ancestors:
  "use_context_bidirectional Some 4 ''Theme'' 2 three_owners = Some None"
  "with_context 4 ''Theme'' 2 three_owners = Some (Some 8)"
  by (simp_all add: use_context_bidirectional_def with_context_def option_type_def three_owners_def owner_run
    provide_context_def parent_of_def Let_def numeral_nat)

end
