(* ===== verification/Page_Script.thy ===== *)
theory Page_Script
  imports Prelude
begin

text \<open>
  The texts of the data scripts in a page: how the server writes numbers and string literals
  (\<open>halyard_reactive_graph/src/hydration_context/ssr.rs\<close>), and what JavaScript reads in them.

  A text is the list of its code points. Which of them \<open>Debug\<close> prints as they are is a table of
  Rust's library: the argument \<open>shown\<close>.
\<close>

section \<open>Texts and numbers\<close>

type_synonym utext = "nat list"

definition codes :: "string \<Rightarrow> utext" where
  "codes s = map of_char s"

text \<open>\<open>str::replace('<', "\u003c")\<close>.\<close>

definition escape_lt :: "utext \<Rightarrow> utext" where
  "escape_lt t = concat (map (\<lambda>c. if c = 60 then [92, 117, 48, 48, 51, 99] else [c]) t)"

fun radix :: "nat \<Rightarrow> nat \<Rightarrow> nat list" where
  "radix b n = (if b < 2 \<or> n < b then [n] else radix b (n div b) @ [n mod b])"

declare radix.simps [simp del]

definition digit_code :: "nat \<Rightarrow> nat" where
  "digit_code d = (if d < 10 then 48 + d else 87 + d)"

definition show_nat :: "nat \<Rightarrow> nat \<Rightarrow> utext" where
  "show_nat b n = map digit_code (radix b n)"

definition digit_value :: "nat \<Rightarrow> nat \<Rightarrow> nat option" where
  "digit_value b c =
    (let d = (if 48 \<le> c \<and> c \<le> 57 then c - 48 else if 97 \<le> c \<and> c \<le> 102 then c - 87 else if 65 \<le> c \<and> c \<le> 70 then c - 55 else b)
     in if d < b then Some d else None)"

definition from_digits :: "nat \<Rightarrow> utext \<Rightarrow> nat" where
  "from_digits b t = foldl (\<lambda>n c. n * b + (case digit_value b c of Some d \<Rightarrow> d | None \<Rightarrow> 0)) 0 t"

definition is_base_digit :: "nat \<Rightarrow> nat \<Rightarrow> bool" where
  "is_base_digit b c \<longleftrightarrow> digit_value b c \<noteq> None"

lemma digit_value_code: "d < b \<Longrightarrow> b \<le> 16 \<Longrightarrow> digit_value b (digit_code d) = Some d"
  by (auto simp: digit_value_def digit_code_def Let_def)

lemma radix_digits: "2 \<le> b \<Longrightarrow> d \<in> set (radix b n) \<Longrightarrow> d < b"
proof (induction b n rule: radix.induct)
  case (1 b n)
  then show ?case by (subst (asm) (2) radix.simps) (auto split: if_splits)
qed

lemma radix_not_empty: "radix b n \<noteq> []"
  by (subst radix.simps) simp

lemma from_digits_snoc: "from_digits b (t @ [c]) = from_digits b t * b + (case digit_value b c of Some d \<Rightarrow> d | None \<Rightarrow> 0)"
  by (simp add: from_digits_def)

lemma from_digits_show: "2 \<le> b \<Longrightarrow> b \<le> 16 \<Longrightarrow> from_digits b (show_nat b n) = n"
proof (induction b n rule: radix.induct)
  case (1 b n)
  show ?case
  proof (cases "n < b")
    case True
    then show ?thesis
      using "1.prems" digit_value_code [of n b] by (simp add: show_nat_def radix.simps [of b n] from_digits_def)
  next
    case False
    then have "show_nat b n = show_nat b (n div b) @ [digit_code (n mod b)]"
      using "1.prems" by (simp add: show_nat_def radix.simps [of b n])
    moreover have "from_digits b (show_nat b (n div b)) = n div b" using 1 False by simp
    ultimately show ?thesis
      using "1.prems" digit_value_code [of "n mod b" b] by (simp add: from_digits_snoc)
  qed
qed

lemma show_nat_digits: "2 \<le> b \<Longrightarrow> b \<le> 16 \<Longrightarrow> c \<in> set (show_nat b n) \<Longrightarrow> is_base_digit b c"
proof -
  assume a: "2 \<le> b" "b \<le> 16" "c \<in> set (show_nat b n)"
  then obtain d where "d \<in> set (radix b n)" "c = digit_code d" by (auto simp: show_nat_def)
  then show ?thesis using radix_digits a(1,2) digit_value_code by (simp add: is_base_digit_def)
qed

lemma show_nat_not_empty: "show_nat b n \<noteq> []"
  by (simp add: show_nat_def radix_not_empty)

text \<open>Reading digits as far as they go.\<close>

lemma takeWhile_show:
  assumes "2 \<le> b" and "b \<le> 16" and "\<not> is_base_digit b c"
  shows "takeWhile (is_base_digit b) (show_nat b n @ c # t) = show_nat b n" "dropWhile (is_base_digit b) (show_nat b n @ c # t) = c # t"
  using show_nat_digits [OF assms(1,2)] assms(3) by (auto simp: takeWhile_append dropWhile_append)

section \<open>String literals\<close>

text \<open>\<open>char::escape_debug\<close> as \<open>Debug\<close> for \<open>str\<close> uses it: single quotes are left alone.\<close>

definition escape_debug :: "(nat \<Rightarrow> bool) \<Rightarrow> nat \<Rightarrow> utext" where
  "escape_debug shown c =
    (if c = 0 then [92, 48] else if c = 9 then [92, 116] else if c = 10 then [92, 110] else if c = 13 then [92, 114]
     else if c = 34 then [92, 34] else if c = 92 then [92, 92]
     else if shown c then [c]
     else [92, 117, 123] @ show_nat 16 c @ [125])"

definition debug_str :: "(nat \<Rightarrow> bool) \<Rightarrow> utext \<Rightarrow> utext" where
  "debug_str shown t = 34 # concat (map (escape_debug shown) t) @ [34]"

text \<open>
  JavaScript, outside strict mode: the character that follows a backslash, with what it needs of the
  rest; the result is what it stands for and the rest. Surrogates are left as they are.
\<close>

definition js_code_point :: "utext \<Rightarrow> (utext \<times> utext) option" where
  "js_code_point t =
    (let ds = takeWhile (is_base_digit 16) t; r = dropWhile (is_base_digit 16) t
     in if take 1 r = [125] \<and> ds \<noteq> [] \<and> from_digits 16 ds \<le> 1114111 then Some ([from_digits 16 ds], tl r) else None)"

definition js_hex :: "nat \<Rightarrow> utext \<Rightarrow> (utext \<times> utext) option" where
  "js_hex k t =
    (if k \<le> length t \<and> list_all (is_base_digit 16) (take k t) then Some ([from_digits 16 (take k t)], drop k t) else None)"

definition js_octal :: "nat \<Rightarrow> utext \<Rightarrow> (utext \<times> utext) option" where
  "js_octal c t =
    (let ds = c # takeWhile (is_base_digit 8) (take (if c \<le> 51 then 2 else 1) t)
     in Some ([from_digits 8 ds], drop (length ds - 1) t))"

definition js_escape :: "nat \<Rightarrow> utext \<Rightarrow> (utext \<times> utext) option" where
  "js_escape c t =
    (if c = 110 then Some ([10], t) else if c = 116 then Some ([9], t) else if c = 114 then Some ([13], t)
     else if c = 98 then Some ([8], t) else if c = 102 then Some ([12], t) else if c = 118 then Some ([11], t)
     else if c = 117 then (if take 1 t = [123] then js_code_point (tl t) else js_hex 4 t)
     else if c = 120 then js_hex 2 t
     else if is_base_digit 8 c then js_octal c t
     else if c = 10 \<or> c = 13 \<or> c = 8232 \<or> c = 8233 then Some ([], t)
     else Some ([c], t))"

text \<open>The rest of a string literal after its opening quote.\<close>

function (sequential) js_string :: "utext \<Rightarrow> (utext \<times> utext) option" where
  "js_string [] = None"
| "js_string (c # t) =
    (if c = 34 then Some ([], t)
     else if c = 10 \<or> c = 13 then None
     else if c = 92 then
       (case t of
          [] \<Rightarrow> None
        | e # r \<Rightarrow>
            (case js_escape e r of
               None \<Rightarrow> None
             | Some (cs, r') \<Rightarrow>
                 if length r' \<le> length r then map_option (\<lambda>(s, r). (cs @ s, r)) (js_string r') else None))
     else map_option (\<lambda>(s, r). (c # s, r)) (js_string t))"
  by pat_completeness auto
termination by (relation "measure length") auto

declare js_string.simps [simp del]

section \<open>What a literal stands for\<close>

text \<open>In \<open>\0\<close> the zero takes the octal digits that follow it.\<close>

fun nul_digit_free :: "utext \<Rightarrow> bool" where
  "nul_digit_free (c # d # t) \<longleftrightarrow> \<not> (c = 0 \<and> is_base_digit 8 d) \<and> nul_digit_free (d # t)"
| "nul_digit_free t \<longleftrightarrow> True"

definition unicode_text :: "utext \<Rightarrow> bool" where
  "unicode_text t \<longleftrightarrow> list_all (\<lambda>c. c \<le> 1114111) t"

lemma js_string_plain: "c \<notin> {34, 10, 13, 92} \<Longrightarrow> js_string (c # t) = map_option (\<lambda>(s, r). (c # s, r)) (js_string t)"
  by (simp add: js_string.simps)

lemma js_string_escape:
  "js_escape e t = Some ([c], r) \<Longrightarrow> length r \<le> length t \<Longrightarrow>
    js_string (92 # e # t) = map_option (\<lambda>(s, r). (c # s, r)) (js_string r)"
  by (simp add: js_string.simps)

lemma js_code_point_show:
  assumes "c \<le> 1114111"
  shows "js_code_point (show_nat 16 c @ 125 # t) = Some ([c], t)"
proof -
  have "\<not> is_base_digit 16 125" by (simp add: is_base_digit_def digit_value_def)
  then show ?thesis
    using takeWhile_show [of 16 125 c t] from_digits_show [of 16 c] assms
    by (simp add: js_code_point_def Let_def show_nat_not_empty)
qed

lemma js_nul: "\<not> (t \<noteq> [] \<and> is_base_digit 8 (hd t)) \<Longrightarrow> js_escape 48 t = Some ([0], t)"
proof -
  assume a: "\<not> (t \<noteq> [] \<and> is_base_digit 8 (hd t))"
  have z: "digit_value 8 48 = Some 0" by (simp add: digit_value_def)
  have "takeWhile (is_base_digit 8) (take 2 t) = []" using a by (cases t) auto
  then show ?thesis using z by (simp add: js_escape_def js_octal_def is_base_digit_def from_digits_def)
qed

text \<open>One character of the text, as it is written and then rid of \<open><\<close>.\<close>

lemma js_string_char:
  assumes c: "c \<le> 1114111" and z: "c = 0 \<Longrightarrow> \<not> (t \<noteq> [] \<and> is_base_digit 8 (hd t))"
  shows "js_string (escape_lt (escape_debug shown c) @ t) = map_option (\<lambda>(s, r). (c # s, r)) (js_string t)"
proof -
  have lt: "escape_lt (show_nat 16 c) = show_nat 16 c"
  proof -
    have "d \<noteq> 60" if "d \<in> set (show_nat 16 c)" for d
      using show_nat_digits [OF _ _ that] by (auto simp: is_base_digit_def digit_value_def Let_def split: if_splits)
    then show ?thesis unfolding escape_lt_def by (induction "show_nat 16 c") (auto simp: map_idI cong: map_cong)
  qed
  consider "c = 0" | "c = 60" "shown c" | "c \<in> {9, 10, 13, 34, 92}" | "c \<notin> {0, 9, 10, 13, 34, 92, 60}" "shown c"
    | "c \<notin> {0, 9, 10, 13, 34, 92}" "\<not> shown c" by (cases "shown c") auto
  then show ?thesis
  proof cases
    case 1
    then show ?thesis using js_string_escape [OF js_nul [OF z]] by (simp add: escape_debug_def escape_lt_def)
  next
    case 2
    have "js_escape 117 ([48, 48, 51, 99] @ t) = Some ([60], t)"
      by (simp add: js_escape_def js_hex_def is_base_digit_def digit_value_def from_digits_def)
    then show ?thesis using 2 js_string_escape [of 117 "[48, 48, 51, 99] @ t" 60 t] by (simp add: escape_debug_def escape_lt_def)
  next
    case 3
    then show ?thesis
      by (auto simp: escape_debug_def escape_lt_def js_escape_def is_base_digit_def digit_value_def intro!: js_string_escape)
  next
    case 4
    then show ?thesis by (simp add: escape_debug_def escape_lt_def js_string_plain)
  next
    case 5
    have "escape_lt (escape_debug shown c) = 92 # 117 # 123 # show_nat 16 c @ [125]"
      using 5 lt by (simp add: escape_debug_def escape_lt_def)
    moreover have "js_escape 117 (123 # show_nat 16 c @ 125 # t) = Some ([c], t)"
      using js_code_point_show [OF c] by (simp add: js_escape_def)
    ultimately show ?thesis using js_string_escape [of 117 "123 # show_nat 16 c @ 125 # t" c t] by simp
  qed
qed

lemma escape_lt_append: "escape_lt (s @ t) = escape_lt s @ escape_lt t"
  by (simp add: escape_lt_def)

lemma escape_lt_clean: "60 \<notin> set (escape_lt t)"
  by (auto simp: escape_lt_def split: if_splits)

lemma escape_lt_Cons: "escape_lt (c # t) = (if c = 60 then [92, 117, 48, 48, 51, 99] else [c]) @ escape_lt t"
  by (simp add: escape_lt_def)

lemma first_written: "\<exists>u. escape_lt (escape_debug shown c) = c # u \<or> escape_lt (escape_debug shown c) = 92 # u"
  by (simp add: escape_debug_def escape_lt_Cons)

text \<open>The literal of an error message: written by \<open>Debug\<close>, then rid of every \<open><\<close>.\<close>

lemma js_string_text:
  assumes "unicode_text msg" and "nul_digit_free msg"
  shows "js_string (escape_lt (concat (map (escape_debug shown) msg)) @ 34 # t) = Some (msg, t)"
  using assms
proof (induction msg)
  case Nil
  then show ?case by (simp add: escape_lt_def js_string.simps)
next
  case (Cons c msg)
  let ?t = "escape_lt (concat (map (escape_debug shown) msg)) @ 34 # t"
  have n: "nul_digit_free msg" using Cons.prems(2) by (cases msg) auto
  have "\<not> is_base_digit 8 (hd ?t)" if "c = 0"
  proof (cases msg)
    case Nil
    then show ?thesis by (simp add: escape_lt_def is_base_digit_def digit_value_def)
  next
    case (Cons d u)
    have "\<not> is_base_digit 8 92" by (simp add: is_base_digit_def digit_value_def)
    then show ?thesis using first_written [of shown d] \<open>nul_digit_free (c # msg)\<close> that Cons by (auto simp: escape_lt_append)
  qed
  then have "js_string (escape_lt (escape_debug shown c) @ ?t) = map_option (\<lambda>(s, r). (c # s, r)) (js_string ?t)"
    using Cons.prems(1) by (intro js_string_char) (auto simp: unicode_text_def)
  then show ?case using Cons n by (simp add: escape_lt_append unicode_text_def)
qed

definition error_literal :: "(nat \<Rightarrow> bool) \<Rightarrow> utext \<Rightarrow> utext" where
  "error_literal shown msg = escape_lt (debug_str shown msg)"

definition resource_literal :: "(nat \<Rightarrow> bool) \<Rightarrow> utext \<Rightarrow> utext" where
  "resource_literal shown data = debug_str shown (escape_lt data)"

definition js_literal :: "utext \<Rightarrow> (utext \<times> utext) option" where
  "js_literal t = (if take 1 t = [34] then js_string (tl t) else None)"

lemma error_literal_read:
  assumes "unicode_text msg" and "nul_digit_free msg"
  shows "js_literal (error_literal shown msg @ t) = Some (msg, t)"
proof -
  have "error_literal shown msg = 34 # escape_lt (concat (map (escape_debug shown) msg)) @ [34]"
    by (simp add: error_literal_def debug_str_def escape_lt_def)
  then show ?thesis using js_string_text [OF assms, of shown t] by (simp add: js_literal_def)
qed

text \<open>The literal of a resource is rid of every \<open><\<close> before: what is read is the escaped text.\<close>

lemma escaped_keeps:
  "unicode_text t \<Longrightarrow> unicode_text (escape_lt t)"
  by (induction t) (auto simp: unicode_text_def escape_lt_def)

lemma escape_lt_nul: "nul_digit_free t \<Longrightarrow> nul_digit_free (escape_lt t)"
proof (induction t rule: nul_digit_free.induct)
  case (1 c d t)
  have "nul_digit_free (c # escape_lt (d # t))" if "c \<noteq> 60"
    using 1 that by (auto simp: escape_lt_def is_base_digit_def digit_value_def)
  moreover have "nul_digit_free ([92, 117, 48, 48, 51, 99] @ escape_lt (d # t))"
    using 1 by (cases "escape_lt (d # t)") (auto simp: is_base_digit_def)
  ultimately show ?case using 1 by (auto simp: escape_lt_def)
qed (auto simp: escape_lt_def)

lemma debug_clean: "60 \<notin> set t \<Longrightarrow> escape_lt (concat (map (escape_debug shown) t)) = concat (map (escape_debug shown) t)"
proof (induction t)
  case (Cons c t)
  have "d \<noteq> 60" if "d \<in> set (show_nat 16 c)" for d
    using show_nat_digits [OF _ _ that] by (auto simp: is_base_digit_def digit_value_def Let_def split: if_splits)
  then have "d \<noteq> 60" if "d \<in> set (escape_debug shown c)" for d
    using that Cons.prems by (auto simp: escape_debug_def split: if_splits)
  moreover have "(\<And>d. d \<in> set s \<Longrightarrow> d \<noteq> 60) \<Longrightarrow> escape_lt s = s" for s by (induction s) (auto simp: escape_lt_def)
  ultimately show ?case using Cons by (simp add: escape_lt_append)
qed (simp add: escape_lt_def)

lemma resource_literal_read:
  assumes "unicode_text data" and "nul_digit_free data"
  shows "js_literal (resource_literal shown data @ t) = Some (escape_lt data, t)"
proof -
  have "resource_literal shown data = 34 # escape_lt (concat (map (escape_debug shown) (escape_lt data))) @ [34]"
    using debug_clean [OF escape_lt_clean] by (simp add: resource_literal_def debug_str_def)
  then show ?thesis
    using js_string_text [OF escaped_keeps [OF assms(1)] escape_lt_nul [OF assms(2)], of shown t] by (simp add: js_literal_def)
qed

lemma literals_clean: "60 \<notin> set (error_literal shown msg)" "60 \<notin> set (resource_literal shown data)"
proof -
  show "60 \<notin> set (error_literal shown msg)" by (simp add: error_literal_def escape_lt_clean)
  have "escape_lt (debug_str shown (escape_lt data)) = debug_str shown (escape_lt data)"
    using debug_clean [OF escape_lt_clean, of shown data] by (simp add: debug_str_def escape_lt_append) (simp add: escape_lt_def)
  then show "60 \<notin> set (resource_literal shown data)"
    unfolding resource_literal_def using escape_lt_clean by metis
qed

end
