(* ===== verification/Page_Data.thy ===== *)
theory Page_Data
  imports Page_Script Complex_Main
begin

text \<open>
  Reading the hydration data of a page (\<open>halyard_reactive_graph/src/hydration_context/page_data.rs\<close>):
  every JavaScript value is either of the shape that the server writes, and used, or left out and
  reported. How a number is printed in a report is Rust's: the argument \<open>show_num\<close>. \<open>usz\<close> is \<open>usize::MAX\<close>.
\<close>

section \<open>JavaScript values\<close>

text \<open>An \<open>f64\<close> is not a number, infinite, or a fraction; \<open>Other\<close> is a value of any other type, with its \<open>typeof\<close>.\<close>

datatype js_num = Not_A_Number | Infinite bool | Finite rat

datatype js = Undefined | Null | Number js_num | String utext | Array "js list" | Other utext

fun is_missing :: "js \<Rightarrow> bool" where
  "is_missing Undefined \<longleftrightarrow> True"
| "is_missing _ \<longleftrightarrow> False"

fun js_number :: "js \<Rightarrow> js_num option" where
  "js_number (Number n) = Some n"
| "js_number _ = None"

fun js_text :: "js \<Rightarrow> utext option" where
  "js_text (String s) = Some s"
| "js_text _ = None"

fun js_items :: "js \<Rightarrow> js list option" where
  "js_items (Array vs) = Some vs"
| "js_items _ = None"

fun type_of :: "js \<Rightarrow> utext" where
  "type_of Undefined = codes ''undefined''"
| "type_of Null = codes ''null''"
| "type_of (Number n) = codes ''number''"
| "type_of (String s) = codes ''string''"
| "type_of (Array vs) = codes ''object''"
| "type_of (Other ty) = ty"

section \<open>Problems\<close>

record malformed_entry =
  location :: utext
  expected :: utext
  found :: utext

datatype page_data_error =
    Missing utext
  | Unreadable utext utext
  | Not_An_Array utext utext
  | Malformed_Entries utext nat malformed_entry
  | Malformed_Resource malformed_entry
  | Id_Out_Of_Range nat

definition RESOLVED_RESOURCES :: utext where
  "RESOLVED_RESOURCES = codes ''__RESOLVED_RESOURCES''"

definition SERIALIZED_ERRORS :: utext where
  "SERIALIZED_ERRORS = codes ''__SERIALIZED_ERRORS''"

definition INCOMPLETE_CHUNKS :: utext where
  "INCOMPLETE_CHUNKS = codes ''__INCOMPLETE_CHUNKS''"

definition describe :: "(js_num \<Rightarrow> utext) \<Rightarrow> js \<Rightarrow> utext" where
  "describe show_num v =
    (case js_number v of
       Some n \<Rightarrow> codes ''the number '' @ show_num n
     | None \<Rightarrow> if js_items v \<noteq> None then codes ''an array'' else codes ''a value of type `'' @ type_of v @ codes ''`'')"

definition not_an_array :: "(js_num \<Rightarrow> utext) \<Rightarrow> utext \<Rightarrow> js \<Rightarrow> page_data_error" where
  "not_an_array show_num global v = (if is_missing v then Missing global else Not_An_Array global (describe show_num v))"

section \<open>Parsing\<close>

text \<open>An id: a finite number that is not negative and has no fraction; the conversion saturates.\<close>

definition js_id :: "nat \<Rightarrow> js \<Rightarrow> nat option" where
  "js_id usz v =
    (case js_number v of
       Some (Finite q) \<Rightarrow> if 0 \<le> q \<and> of_int \<lfloor>q\<rfloor> = q then Some (min usz (nat \<lfloor>q\<rfloor>)) else None
     | _ \<Rightarrow> None)"

definition resource_index :: "nat \<Rightarrow> page_data_error + nat" where
  "resource_index i = (if i < 2 ^ 32 then Inr i else Inl (Id_Out_Of_Range i))"

definition resolved_resource :: "(js_num \<Rightarrow> utext) \<Rightarrow> nat \<Rightarrow> js \<Rightarrow> page_data_error + utext option" where
  "resolved_resource show_num i entry =
    (if is_missing entry then Inr None
     else case js_text entry of
         Some s \<Rightarrow> Inr (Some s)
       | None \<Rightarrow> Inl (Malformed_Resource
           \<lparr>location = RESOLVED_RESOURCES @ codes ''['' @ show_nat 10 i @ codes '']'',
            expected = codes ''a serialized value (a string)'', found = describe show_num entry\<rparr>))"

definition entry_at :: "utext \<Rightarrow> nat \<Rightarrow> utext" where
  "entry_at global index = global @ codes ''['' @ show_nat 10 index @ codes '']''"

definition bad_field :: "(js_num \<Rightarrow> utext) \<Rightarrow> nat \<Rightarrow> nat \<Rightarrow> string \<Rightarrow> js \<Rightarrow> malformed_entry" where
  "bad_field show_num index field what v =
    \<lparr>location = entry_at SERIALIZED_ERRORS index @ codes ''['' @ show_nat 10 field @ codes '']'', expected = codes what,
     found = describe show_num v\<rparr>"

definition bad_shape :: "nat \<Rightarrow> utext \<Rightarrow> malformed_entry" where
  "bad_shape index what =
    \<lparr>location = entry_at SERIALIZED_ERRORS index, expected = codes ''an array [boundary id, error id, message]'', found = what\<rparr>"

definition serialized_error :: "nat \<Rightarrow> (js_num \<Rightarrow> utext) \<Rightarrow> nat \<Rightarrow> js \<Rightarrow> malformed_entry + (nat \<times> nat \<times> utext)" where
  "serialized_error usz show_num index entry =
    (case js_items entry of
       None \<Rightarrow> Inl (bad_shape index (describe show_num entry))
     | Some (boundary # error # message # rest) \<Rightarrow>
         (case js_id usz boundary of
            None \<Rightarrow> Inl (bad_field show_num index 0 ''a boundary id (a non-negative integer)'' boundary)
          | Some b \<Rightarrow>
              (case js_id usz error of
                 None \<Rightarrow> Inl (bad_field show_num index 1 ''an error id (a non-negative integer)'' error)
               | Some e \<Rightarrow>
                   (case js_text message of
                      None \<Rightarrow> Inl (bad_field show_num index 2 ''an error message (a string)'' message)
                    | Some m \<Rightarrow> Inr (b, e, m))))
     | Some few \<Rightarrow> Inl (bad_shape index (codes ''an array of length '' @ show_nat 10 (length few))))"

text \<open>\<open>collect\<close>, the loop that keeps what parsed and counts what did not.\<close>

fun collect_loop :: "(malformed_entry + 'a) list \<Rightarrow> 'a list \<Rightarrow> malformed_entry list \<Rightarrow> 'a list \<times> malformed_entry list" where
  "collect_loop [] vs bad = (vs, bad)"
| "collect_loop (Inr v # es) vs bad = collect_loop es (vs @ [v]) bad"
| "collect_loop (Inl b # es) vs bad = collect_loop es vs (bad @ [b])"

definition collect :: "utext \<Rightarrow> (malformed_entry + 'a) list \<Rightarrow> 'a list \<times> page_data_error option" where
  "collect global entries =
    (let (vs, bad) = collect_loop entries [] []
     in (vs, case bad of [] \<Rightarrow> None | b # bs \<Rightarrow> Some (Malformed_Entries global (length bad) b)))"

definition map_enum :: "(nat \<Rightarrow> 'a \<Rightarrow> 'b) \<Rightarrow> 'a list \<Rightarrow> 'b list" where
  "map_enum f xs = map (\<lambda>(i, x). f i x) (enumerate 0 xs)"

definition serialized_errors :: "nat \<Rightarrow> (js_num \<Rightarrow> utext) \<Rightarrow> js list \<Rightarrow> (nat \<times> nat \<times> utext) list \<times> page_data_error option" where
  "serialized_errors usz show_num entries = collect SERIALIZED_ERRORS (map_enum (serialized_error usz show_num) entries)"

definition incomplete_chunk :: "nat \<Rightarrow> (js_num \<Rightarrow> utext) \<Rightarrow> nat \<Rightarrow> js \<Rightarrow> malformed_entry + nat" where
  "incomplete_chunk usz show_num index entry =
    (case js_id usz entry of
       Some i \<Rightarrow> Inr i
     | None \<Rightarrow> Inl \<lparr>location = entry_at INCOMPLETE_CHUNKS index, expected = codes ''a chunk id (a non-negative integer)'',
                  found = describe show_num entry\<rparr>)"

definition incomplete_chunks :: "nat \<Rightarrow> (js_num \<Rightarrow> utext) \<Rightarrow> js list \<Rightarrow> nat list \<times> page_data_error option" where
  "incomplete_chunks usz show_num entries = collect INCOMPLETE_CHUNKS (map_enum (incomplete_chunk usz show_num) entries)"

section \<open>What is kept\<close>

lemma collect_loop_eq:
  "collect_loop es vs bad = (vs @ map projr (filter (Not \<circ> isl) es), bad @ map projl (filter isl es))"
  by (induction es vs bad rule: collect_loop.induct) auto

lemma collect_values: "fst (collect g es) = map projr (filter (Not \<circ> isl) es)"
  by (simp add: collect_def collect_loop_eq Let_def)

lemma collect_report:
  "snd (collect g es) = (if filter isl es = [] then None else Some (Malformed_Entries g (length (filter isl es)) (projl (hd (filter isl es)))))"
  by (cases "filter isl es") (simp_all add: collect_def collect_loop_eq Let_def)

text \<open>The shapes that the server writes.\<close>

definition js_of_nat :: "nat \<Rightarrow> js" where
  "js_of_nat n = Number (Finite (of_nat n))"

lemma js_id_of_nat [simp]: "js_id usz (js_of_nat n) = Some (min usz n)"
  by (simp add: js_id_def js_of_nat_def)

lemma js_id_iff: "js_id usz v = Some i \<longleftrightarrow> (\<exists>n. v = js_of_nat n \<and> i = min usz n)"
proof
  assume a: "js_id usz v = Some i"
  then obtain q where q: "v = Number (Finite q)" "0 \<le> q" "of_int \<lfloor>q\<rfloor> = q" "i = min usz (nat \<lfloor>q\<rfloor>)"
    by (auto simp: js_id_def split: option.splits js_num.splits if_splits elim!: js_number.elims)
  then have "0 \<le> \<lfloor>q\<rfloor>" by simp
  then have "of_nat (nat \<lfloor>q\<rfloor>) = q" using q(3) by (metis of_int_of_nat_eq int_nat_eq)
  then show "\<exists>n. v = js_of_nat n \<and> i = min usz n" using q(1,4) by (metis js_of_nat_def)
qed auto

lemma js_text_iff: "js_text v = Some m \<longleftrightarrow> v = String m"
  by (cases v) auto

lemma serialized_error_iff:
  "serialized_error usz show_num index v = Inr x \<longleftrightarrow>
    (\<exists>b e m rest. v = Array (js_of_nat b # js_of_nat e # String m # rest) \<and> x = (min usz b, min usz e, m))"
proof
  assume a: "serialized_error usz show_num index v = Inr x"
  then obtain b e m rest where v: "v = Array (b # e # m # rest)"
    by (cases v) (auto simp: serialized_error_def split: list.splits)
  then show "\<exists>b e m rest. v = Array (js_of_nat b # js_of_nat e # String m # rest) \<and> x = (min usz b, min usz e, m)"
    using a by (auto simp: serialized_error_def js_id_iff js_text_iff split: option.splits)
qed (auto simp: serialized_error_def)

lemma map_enum_nth: "length (map_enum f xs) = length xs" "i < length xs \<Longrightarrow> map_enum f xs ! i = f i (xs ! i)"
  by (simp_all add: map_enum_def nth_enumerate_eq)

lemma map_enum_map: "(\<And>i x. x \<in> set xs \<Longrightarrow> f i x = g x) \<Longrightarrow> map_enum f xs = map g xs"
  by (rule nth_equalityI) (auto simp: map_enum_nth)

lemma map_enum_ex: "e \<in> set (map_enum f xs) \<Longrightarrow> \<exists>i. i < length xs \<and> e = f i (xs ! i)"
  by (auto simp: in_set_conv_nth map_enum_nth)

text \<open>What the browser reads where the server wrote \<open>errors\<close>, with other values in between.\<close>

definition error_js :: "nat \<times> nat \<times> utext \<Rightarrow> js" where
  "error_js x = (case x of (b, e, m) \<Rightarrow> Array [js_of_nat b, js_of_nat e, String m])"

definition well_formed_error :: "js \<Rightarrow> bool" where
  "well_formed_error v \<longleftrightarrow> (case js_items v of
     Some (b # e # m # rest) \<Rightarrow> js_id 0 b \<noteq> None \<and> js_id 0 e \<noteq> None \<and> js_text m \<noteq> None
   | _ \<Rightarrow> False)"

definition error_of :: "nat \<Rightarrow> js \<Rightarrow> nat \<times> nat \<times> utext" where
  "error_of usz v = (case js_items v of
     Some (b # e # m # rest) \<Rightarrow> (the (js_id usz b), the (js_id usz e), the (js_text m)))"

lemma well_formed_error_iff:
  "well_formed_error v \<longleftrightarrow> (\<exists>b e m rest. v = Array (js_of_nat b # js_of_nat e # String m # rest))"
proof
  assume a: "well_formed_error v"
  then obtain b e m rest where v: "v = Array (b # e # m # rest)"
    by (cases v) (auto simp: well_formed_error_def split: list.splits)
  then show "\<exists>b e m rest. v = Array (js_of_nat b # js_of_nat e # String m # rest)"
    using a by (auto simp: well_formed_error_def js_id_iff js_text_iff)
qed (auto simp: well_formed_error_def)

lemma isl_serialized_error: "isl (serialized_error usz show_num index v) \<longleftrightarrow> \<not> well_formed_error v"
proof (cases "serialized_error usz show_num index v")
  case (Inl b)
  then have "\<not> well_formed_error v"
    using serialized_error_iff [of usz show_num index v] unfolding well_formed_error_iff by (metis Inl_Inr_False)
  then show ?thesis using Inl by simp
next
  case (Inr x)
  then show ?thesis using serialized_error_iff [of usz show_num index v x] by (auto simp: well_formed_error_iff)
qed

lemma map_enum_Cons: "map_enum f (x # xs) = f 0 x # map_enum (\<lambda>i. f (Suc i)) xs"
  by (rule nth_equalityI) (auto simp: map_enum_nth nth_Cons split: nat.split)

lemma kept_errors:
  "map projr (filter (Not \<circ> isl) (map_enum (\<lambda>i. serialized_error usz show_num (i + k)) vs))
    = map (error_of usz) (filter well_formed_error vs)
  \<and> length (filter isl (map_enum (\<lambda>i. serialized_error usz show_num (i + k)) vs)) = length (filter (Not \<circ> well_formed_error) vs)"
proof (induction vs arbitrary: k)
  case (Cons v vs)
  have "projr (serialized_error usz show_num k v) = error_of usz v" if "well_formed_error v"
    using that unfolding well_formed_error_iff by (auto simp: serialized_error_def error_of_def)
  then show ?case using Cons [of "Suc k"] by (simp add: map_enum_Cons isl_serialized_error)
qed (simp add: map_enum_def)

text \<open>
  C25. Reading the page's errors never fails: exactly the entries of the shape that the server writes are kept, in
  their order, with their ids and messages; the others are left out, and one report counts them.
\<close>

theorem page_errors_kept_exactly:
  "fst (serialized_errors usz show_num entries) = map (error_of usz) (filter well_formed_error entries)
   \<and> (snd (serialized_errors usz show_num entries) = None \<longleftrightarrow> list_all well_formed_error entries)
   \<and> (list_all well_formed_error entries
      \<or> (\<exists>first. snd (serialized_errors usz show_num entries)
           = Some (Malformed_Entries SERIALIZED_ERRORS (length (filter (Not \<circ> well_formed_error) entries)) first)))"
proof -
  have k: "map projr (filter (Not \<circ> isl) (map_enum (serialized_error usz show_num) entries))
        = map (error_of usz) (filter well_formed_error entries)"
      "length (filter isl (map_enum (serialized_error usz show_num) entries)) = length (filter (Not \<circ> well_formed_error) entries)"
    using kept_errors [of usz show_num 0 entries] by simp_all
  have "filter isl (map_enum (serialized_error usz show_num) entries) = [] \<longleftrightarrow> filter (Not \<circ> well_formed_error) entries = []"
    using k(2) by (metis length_0_conv)
  then have "filter isl (map_enum (serialized_error usz show_num) entries) = [] \<longleftrightarrow> list_all well_formed_error entries"
    by (simp add: filter_empty_conv list_all_iff)
  then show ?thesis using k by (auto simp: serialized_errors_def collect_values collect_report)
qed

end
