(* ===== verification/Page_Server.thy ===== *)
theory Page_Server
  imports Page_Data
begin

text \<open>
  The server's side of the hydration data (\<open>hydration_context/ssr.rs\<close>): the ids, values and errors of
  a page, and the stream of data scripts that is sent after its HTML. A future is the number of polls until it is
  ready and its value. An error is its message. Ids are \<open>usize\<close> on the server, 64 bits wide.
\<close>

section \<open>The context\<close>

record ssr_context =
  sc_id :: nat
  sc_non_hydration_id :: nat
  sc_is_hydrating :: bool
  sc_sync :: "(nat \<times> utext) list"
  sc_async :: "(nat \<times> nat \<times> utext) list"
  sc_errors :: "(nat \<times> nat \<times> utext) list"
  sc_sealed :: "nat list"
  sc_deferred :: "nat list"
  sc_incomplete :: "nat list"

definition new_context :: "bool \<Rightarrow> ssr_context" where
  "new_context hydrating =
    \<lparr>sc_id = 0, sc_non_hydration_id = 2 ^ 64 - 1, sc_is_hydrating = hydrating, sc_sync = [], sc_async = [], sc_errors = [],
     sc_sealed = [], sc_deferred = [], sc_incomplete = []\<rparr>"

definition ssr_next_id :: "ssr_context \<Rightarrow> nat \<times> ssr_context" where
  "ssr_next_id c =
    (if sc_is_hydrating c then (sc_id c, c\<lparr>sc_id := (sc_id c + 1) mod 2 ^ 64\<rparr>)
     else (sc_non_hydration_id c, c\<lparr>sc_non_hydration_id := (sc_non_hydration_id c + (2 ^ 64 - 1)) mod 2 ^ 64\<rparr>))"

definition set_is_hydrating :: "bool \<Rightarrow> ssr_context \<Rightarrow> ssr_context" where
  "set_is_hydrating b c = c\<lparr>sc_is_hydrating := b\<rparr>"

definition write_async :: "nat \<Rightarrow> nat \<Rightarrow> utext \<Rightarrow> ssr_context \<Rightarrow> ssr_context" where
  "write_async i delay data c = c\<lparr>sc_async := sc_async c @ [(i, delay, data)]\<rparr>"

definition ssr_errors :: "nat \<Rightarrow> ssr_context \<Rightarrow> (nat \<times> utext) list" where
  "ssr_errors boundary c = map snd (filter (\<lambda>x. fst x = boundary) (sc_errors c))"

definition register_error :: "nat \<Rightarrow> nat \<Rightarrow> utext \<Rightarrow> ssr_context \<Rightarrow> ssr_context" where
  "register_error boundary i msg c = c\<lparr>sc_errors := sc_errors c @ [(boundary, i, msg)]\<rparr>"

definition take_errors :: "ssr_context \<Rightarrow> (nat \<times> nat \<times> utext) list \<times> ssr_context" where
  "take_errors c = (sc_errors c, c\<lparr>sc_errors := []\<rparr>)"

definition seal_errors :: "nat \<Rightarrow> ssr_context \<Rightarrow> ssr_context" where
  "seal_errors boundary c = c\<lparr>sc_sealed := List.insert boundary (sc_sealed c)\<rparr>"

definition defer_stream :: "nat \<Rightarrow> ssr_context \<Rightarrow> ssr_context" where
  "defer_stream delay c = c\<lparr>sc_deferred := sc_deferred c @ [delay]\<rparr>"

text \<open>\<open>join_all\<close> is ready when every future is: after as many polls as the slowest needs.\<close>

definition await_deferred :: "ssr_context \<Rightarrow> nat option \<times> ssr_context" where
  "await_deferred c = (if sc_deferred c = [] then None else Some (Max (set (sc_deferred c))), c\<lparr>sc_deferred := []\<rparr>)"

definition set_incomplete_chunk :: "nat \<Rightarrow> ssr_context \<Rightarrow> ssr_context" where
  "set_incomplete_chunk i c = c\<lparr>sc_incomplete := sc_incomplete c @ [i]\<rparr>"

definition ssr_get_incomplete_chunk :: "nat \<Rightarrow> ssr_context \<Rightarrow> bool" where
  "ssr_get_incomplete_chunk i c \<longleftrightarrow> i \<in> set (sc_incomplete c)"

definition consume_buffers :: "ssr_context \<Rightarrow> (nat \<times> utext) list \<times> ssr_context" where
  "consume_buffers c = (sc_sync c @ map (\<lambda>(i, d, x). (i, x)) (sc_async c), c\<lparr>sc_sync := [], sc_async := []\<rparr>)"

section \<open>The data scripts\<close>

definition write_to_buf :: "(nat \<Rightarrow> bool) \<Rightarrow> nat \<times> utext \<Rightarrow> utext" where
  "write_to_buf shown d = show_nat 10 (fst d) @ codes '': '' @ resource_literal shown (snd d)"

definition error_text :: "(nat \<Rightarrow> bool) \<Rightarrow> nat \<times> nat \<times> utext \<Rightarrow> utext" where
  "error_text shown x =
    (case x of (boundary, i, msg) \<Rightarrow>
       codes ''['' @ show_nat 10 boundary @ codes '', '' @ show_nat 10 i @ codes '', '' @ error_literal shown msg @ codes '']'')"

definition id_items :: "nat list \<Rightarrow> utext" where
  "id_items is = concat (map (\<lambda>i. show_nat 10 i @ codes '','') is)"

definition initial_chunk :: "(nat \<Rightarrow> bool) \<Rightarrow> ssr_context \<Rightarrow> utext" where
  "initial_chunk shown c =
    codes ''__RESOLVED_RESOURCES=['' @ concat (map (\<lambda>d. write_to_buf shown d @ codes '','') (sc_sync c)) @ codes ''];''
    @ codes ''__SERIALIZED_ERRORS=['' @ concat (map (\<lambda>x. error_text shown x @ codes '','') (sc_errors c)) @ codes ''];''
    @ codes ''__PENDING_RESOURCES=['' @ id_items (map fst (sc_async c)) @ codes ''];''
    @ codes ''__RESOURCE_RESOLVERS=[];''"

definition incomplete_script :: "ssr_context \<Rightarrow> utext" where
  "incomplete_script c = codes ''__INCOMPLETE_CHUNKS=['' @ id_items (sc_incomplete c) @ codes ''];''"

text \<open>One poll of \<open>AsyncDataStream\<close>: every future is polled once, those that are not ready keep their order.\<close>

fun poll_futures :: "(nat \<times> nat \<times> utext) list \<Rightarrow> (nat \<times> nat \<times> utext) list \<times> (nat \<times> utext) list" where
  "poll_futures [] = ([], [])"
| "poll_futures ((i, delay, data) # fs) =
    (let (waiting, ready) = poll_futures fs
     in case delay of 0 \<Rightarrow> (waiting, (i, data) # ready) | Suc d \<Rightarrow> ((i, d, data) # waiting, ready))"

definition resolved_text :: "(nat \<Rightarrow> bool) \<Rightarrow> nat \<times> utext \<Rightarrow> utext" where
  "resolved_text shown d = codes ''__RESOLVED_RESOURCES['' @ show_nat 10 (fst d) @ codes ''] = '' @ resource_literal shown (snd d) @ codes '';''"

definition push_error_text :: "(nat \<Rightarrow> bool) \<Rightarrow> nat \<times> nat \<times> utext \<Rightarrow> utext" where
  "push_error_text shown x = codes ''__SERIALIZED_ERRORS.push('' @ error_text shown x @ codes '');''"

datatype data_poll = Data_Pending | Data_Ready "utext option"

definition poll_async :: "(nat \<Rightarrow> bool) \<Rightarrow> ssr_context \<Rightarrow> data_poll \<times> ssr_context" where
  "poll_async shown c =
    (let (waiting, ready) = poll_futures (sc_async c);
         open_errors = filter (\<lambda>x. fst x \<notin> set (sc_sealed c)) (sc_errors c);
         resolved = concat (map (resolved_text shown) ready) @ concat (map (push_error_text shown) open_errors);
         c = c\<lparr>sc_async := waiting, sc_errors := []\<rparr>
     in (if waiting = [] \<and> resolved = [] then Data_Ready None else if resolved = [] then Data_Pending else Data_Ready (Some resolved), c))"

text \<open>
  \<open>pending_data\<close> makes the first chunk at once; the stream sends it, then the chunks of the futures, then
  (in the poll in which those end) the ids of the incomplete chunks.
\<close>

datatype data_phase = First utext | Loading | Sent

definition pending_data :: "(nat \<Rightarrow> bool) \<Rightarrow> ssr_context \<Rightarrow> data_phase \<times> ssr_context" where
  "pending_data shown c = (First (initial_chunk shown c), c\<lparr>sc_sync := [], sc_errors := []\<rparr>)"

fun poll_data :: "(nat \<Rightarrow> bool) \<Rightarrow> data_phase \<Rightarrow> ssr_context \<Rightarrow> data_poll \<times> data_phase \<times> ssr_context" where
  "poll_data shown (First t) c = (Data_Ready (Some t), Loading, c)"
| "poll_data shown Loading c =
    (case poll_async shown c of
       (Data_Ready None, c) \<Rightarrow> (Data_Ready (Some (incomplete_script c)), Sent, c\<lparr>sc_incomplete := []\<rparr>)
     | (p, c) \<Rightarrow> (p, Loading, c))"
| "poll_data shown Sent c = (Data_Ready None, Sent, c)"

section \<open>Futures that are polled\<close>

lemma poll_futures_set:
  "(\<lambda>(i, d, x). (i, x)) ` set fs = (\<lambda>(i, d, x). (i, x)) ` set (fst (poll_futures fs)) \<union> set (snd (poll_futures fs))"
proof (induction fs rule: poll_futures.induct)
  case (2 i d x fs)
  obtain w r where wr: "poll_futures fs = (w, r)" by fastforce
  show ?case using 2 wr by (cases d) auto
qed simp

text \<open>No script can close the element that it is in.\<close>

lemma codes_clean: "CHR ''<'' \<notin> set s \<Longrightarrow> 60 \<notin> set (codes s)"
proof -
  assume a: "CHR ''<'' \<notin> set s"
  have "(of_char c = (60 :: nat)) = (c = CHR ''<'')" for c
    using of_char_eq_iff [where 'a = nat, of c "CHR ''<''"] by simp
  then show ?thesis using a unfolding codes_def set_map by (metis imageE)
qed

lemma show_nat_clean: "60 \<notin> set (show_nat 10 n)"
proof -
  have "\<not> is_base_digit 10 60" by (simp add: is_base_digit_def digit_value_def)
  then show ?thesis using show_nat_digits [of 10 60 n] by auto
qed

lemmas script_defs = initial_chunk_def write_to_buf_def error_text_def id_items_def incomplete_script_def resolved_text_def
  push_error_text_def

lemma scripts_clean:
  "60 \<notin> set (initial_chunk shown c)" "60 \<notin> set (incomplete_script c)" "60 \<notin> set (resolved_text shown d)"
  "60 \<notin> set (push_error_text shown x)"
  by (auto simp: script_defs codes_clean show_nat_clean literals_clean split: prod.splits)

end
