(* ===== verification/Page_Browser.thy ===== *)
theory Page_Browser
  imports Page_Server
begin

text \<open>
  The browser's side: JavaScript runs the data scripts, and \<open>hydration_context/hydrate.rs\<close> reads
  the globals that they leave. The interpreter knows the statements that the server writes; any other text,
  and a statement that throws, is \<open>None\<close>.
\<close>

section \<open>Numbers\<close>

text \<open>A literal is rounded to the nearest \<open>f64\<close>, to the even one of two.\<close>

fun excess_bits :: "nat \<Rightarrow> nat" where
  "excess_bits n = (if n < 2 ^ 53 then 0 else Suc (excess_bits (n div 2)))"

declare excess_bits.simps [simp del]

definition f64_of_nat :: "nat \<Rightarrow> nat" where
  "f64_of_nat n =
    (let k = excess_bits n; q = n div 2 ^ k; r = n mod 2 ^ k
     in (if 2 * r < 2 ^ k \<or> 2 * r = 2 ^ k \<and> even q then q else q + 1) * 2 ^ k)"

lemma f64_exact: "n < 2 ^ 53 \<Longrightarrow> f64_of_nat n = n"
  by (simp add: f64_of_nat_def excess_bits.simps [of n])

lemma excess_bits_large: "2 ^ 53 \<le> n \<Longrightarrow> 2 ^ 52 \<le> n div 2 ^ excess_bits n \<and> 1 \<le> excess_bits n"
proof (induction n rule: excess_bits.induct)
  case (1 n)
  have e: "excess_bits n = Suc (excess_bits (n div 2))" using 1 by (simp add: excess_bits.simps [of n])
  show ?case
  proof (cases "2 ^ 53 \<le> n div 2")
    case True
    then show ?thesis using 1 e by (simp add: div_mult2_eq)
  next
    case False
    then have "excess_bits (n div 2) = 0" by (simp add: excess_bits.simps [of "n div 2"])
    then show ?thesis using e "1.prems" by simp
  qed
qed

lemma f64_large: "2 ^ 53 \<le> n \<Longrightarrow> 2 ^ 53 \<le> f64_of_nat n"
proof -
  assume n: "2 ^ 53 \<le> n"
  let ?k = "excess_bits n" and ?q = "n div 2 ^ excess_bits n"
  have q: "2 ^ 52 \<le> ?q" "1 \<le> ?k" using excess_bits_large [OF n] by auto
  then have "(2 :: nat) ^ 53 \<le> ?q * 2 ^ ?k"
    using mult_le_mono [of "2 ^ 52" ?q "2 ^ 1" "2 ^ ?k"] power_increasing [of 1 ?k "2 :: nat"] by simp
  also have "\<dots> \<le> f64_of_nat n" by (simp add: f64_of_nat_def Let_def)
  finally show ?thesis .
qed

lemma f64_small: "i < 2 ^ 53 \<Longrightarrow> f64_of_nat n = i \<Longrightarrow> n = i"
  using f64_exact f64_large by (metis not_le)

section \<open>Running a data script\<close>

record page_globals =
  pg_resolved :: "(nat \<Rightarrow> js) option"
  pg_errors :: "js list option"
  pg_pending :: "js list option"
  pg_resolvers :: bool
  pg_incomplete :: "js list option"

definition empty_page :: page_globals where
  "empty_page = \<lparr>pg_resolved = None, pg_errors = None, pg_pending = None, pg_resolvers = False, pg_incomplete = None\<rparr>"

definition eat :: "utext \<Rightarrow> utext \<Rightarrow> utext option" where
  "eat p t = (if take (length p) t = p then Some (drop (length p) t) else None)"

definition read_nat :: "utext \<Rightarrow> (nat \<times> utext) option" where
  "read_nat t =
    (let ds = takeWhile (is_base_digit 10) t in if ds = [] then None else Some (from_digits 10 ds, dropWhile (is_base_digit 10) t))"

definition read_number :: "utext \<Rightarrow> (js \<times> utext) option" where
  "read_number t = map_option (\<lambda>(n, t). (js_of_nat (f64_of_nat n), t)) (read_nat t)"

definition read_error :: "utext \<Rightarrow> (js \<times> utext) option" where
  "read_error t =
    Option.bind (eat (codes ''['') t) (\<lambda>t. Option.bind (read_number t) (\<lambda>(b, t).
    Option.bind (eat (codes '', '') t) (\<lambda>t. Option.bind (read_number t) (\<lambda>(i, t).
    Option.bind (eat (codes '', '') t) (\<lambda>t. Option.bind (js_literal t) (\<lambda>(m, t).
    map_option (\<lambda>t. (Array [b, i, String m], t)) (eat (codes '']'') t)))))))"

text \<open>The elements of an array literal, each with a comma, and its closing bracket.\<close>

fun read_items :: "(utext \<Rightarrow> (js \<times> utext) option) \<Rightarrow> nat \<Rightarrow> utext \<Rightarrow> (js list \<times> utext) option" where
  "read_items item 0 t = None"
| "read_items item (Suc fuel) t =
    (case eat (codes '']'') t of
       Some t \<Rightarrow> Some ([], t)
     | None \<Rightarrow>
         Option.bind (item t) (\<lambda>(v, t). Option.bind (eat (codes '','') t) (\<lambda>t.
           map_option (\<lambda>(vs, t). (v # vs, t)) (read_items item fuel t))))"

definition read_array :: "(utext \<Rightarrow> (js \<times> utext) option) \<Rightarrow> utext \<Rightarrow> (js list \<times> utext) option" where
  "read_array item t =
    Option.bind (read_items item (Suc (length t)) t) (\<lambda>(vs, t). map_option (\<lambda>t. (vs, t)) (eat (codes '';'') t))"

definition set_element :: "utext \<Rightarrow> page_globals \<Rightarrow> (page_globals \<times> utext) option" where
  "set_element t pg =
    Option.bind (read_nat t) (\<lambda>(n, t). Option.bind (eat (codes ''] = '') t) (\<lambda>t.
    Option.bind (js_literal t) (\<lambda>(s, t). Option.bind (eat (codes '';'') t) (\<lambda>t.
    case pg_resolved pg of None \<Rightarrow> None | Some f \<Rightarrow> Some (pg\<lparr>pg_resolved := Some (f(f64_of_nat n := String s))\<rparr>, t)))))"

definition push_element :: "utext \<Rightarrow> page_globals \<Rightarrow> (page_globals \<times> utext) option" where
  "push_element t pg =
    Option.bind (read_error t) (\<lambda>(v, t). Option.bind (eat (codes '');'') t) (\<lambda>t.
    case pg_errors pg of None \<Rightarrow> None | Some vs \<Rightarrow> Some (pg\<lparr>pg_errors := Some (vs @ [v])\<rparr>, t)))"

definition run_statement :: "utext \<Rightarrow> page_globals \<Rightarrow> (page_globals \<times> utext) option" where
  "run_statement t pg =
    (case eat (codes ''__RESOLVED_RESOURCES=[];'') t of Some t \<Rightarrow> Some (pg\<lparr>pg_resolved := Some (\<lambda>_. Undefined)\<rparr>, t) | None \<Rightarrow>
    (case eat (codes ''__RESOLVED_RESOURCES['') t of Some t \<Rightarrow> set_element t pg | None \<Rightarrow>
    (case eat (codes ''__SERIALIZED_ERRORS=['') t of
       Some t \<Rightarrow> map_option (\<lambda>(vs, t). (pg\<lparr>pg_errors := Some vs\<rparr>, t)) (read_array read_error t) | None \<Rightarrow>
    (case eat (codes ''__SERIALIZED_ERRORS.push('') t of Some t \<Rightarrow> push_element t pg | None \<Rightarrow>
    (case eat (codes ''__PENDING_RESOURCES=['') t of
       Some t \<Rightarrow> map_option (\<lambda>(vs, t). (pg\<lparr>pg_pending := Some vs\<rparr>, t)) (read_array read_number t) | None \<Rightarrow>
    (case eat (codes ''__RESOURCE_RESOLVERS=[];'') t of Some t \<Rightarrow> Some (pg\<lparr>pg_resolvers := True\<rparr>, t) | None \<Rightarrow>
    (case eat (codes ''__INCOMPLETE_CHUNKS=['') t of
       Some t \<Rightarrow> map_option (\<lambda>(vs, t). (pg\<lparr>pg_incomplete := Some vs\<rparr>, t)) (read_array read_number t) | None \<Rightarrow> None)))))))"

fun run_script :: "nat \<Rightarrow> utext \<Rightarrow> page_globals \<Rightarrow> page_globals option" where
  "run_script fuel t pg =
    (if t = [] then Some pg
     else case fuel of
         0 \<Rightarrow> None
       | Suc fuel \<Rightarrow> Option.bind (run_statement t pg) (\<lambda>(pg, t). run_script fuel t pg))"

declare run_script.simps [simp del]

definition run_page :: "utext list \<Rightarrow> page_globals \<Rightarrow> page_globals option" where
  "run_page scripts pg = fold_opt (\<lambda>t pg. run_script (length t) t pg) scripts pg"

section \<open>Reading what was written\<close>

fun differ :: "string \<Rightarrow> string \<Rightarrow> bool" where
  "differ (x # xs) (y # ys) \<longleftrightarrow> x \<noteq> y \<or> differ xs ys"
| "differ _ _ \<longleftrightarrow> False"

lemma eat_same: "eat p (p @ t) = Some t" "eat p p = Some []"
  by (simp_all add: eat_def)

lemma eat_other: "differ a b \<Longrightarrow> eat (codes a) (codes b @ t) = None"
proof -
  have "differ a b \<Longrightarrow> take (length (codes a)) (codes b @ t) \<noteq> codes a"
    by (induction a b rule: differ.induct) (auto simp: codes_def)
  then show "differ a b \<Longrightarrow> eat (codes a) (codes b @ t) = None" by (simp add: eat_def)
qed

lemma read_nat_show: "\<not> is_base_digit 10 (of_char c) \<Longrightarrow> read_nat (show_nat 10 n @ codes (c # s) @ t) = Some (n, codes (c # s) @ t)"
  using takeWhile_show [of 10 "of_char c" n "codes s @ t"] from_digits_show [of 10 n]
  by (simp add: read_nat_def Let_def codes_def show_nat_not_empty)

lemma read_number_show:
  "\<not> is_base_digit 10 (of_char c) \<Longrightarrow> read_number (show_nat 10 n @ codes (c # s) @ t) = Some (js_of_nat (f64_of_nat n), codes (c # s) @ t)"
  by (simp add: read_number_def read_nat_show)

lemma not_digits: "\<not> is_base_digit 10 44" "\<not> is_base_digit 10 93"
  by (simp_all add: is_base_digit_def digit_value_def)

text \<open>What a registered error is in the page.\<close>

definition page_error :: "nat \<times> nat \<times> utext \<Rightarrow> js" where
  "page_error x = (case x of (b, i, m) \<Rightarrow> Array [js_of_nat (f64_of_nat b), js_of_nat (f64_of_nat i), String m])"

definition readable :: "utext \<Rightarrow> bool" where
  "readable t \<longleftrightarrow> unicode_text t \<and> nul_digit_free t"

lemma read_error_text:
  "readable (snd (snd x)) \<Longrightarrow> read_error (error_text shown x @ t) = Some (page_error x, t)"
  by (cases x) (simp add: read_error_def error_text_def page_error_def eat_same read_number_show not_digits
    error_literal_read readable_def)

lemma read_items_written:
  assumes "\<And>x t. x \<in> set xs \<Longrightarrow> item (written x @ codes '','' @ t) = Some (f x, codes '','' @ t)"
    and "\<And>x t. x \<in> set xs \<Longrightarrow> eat (codes '']'') (written x @ t) = None"
    and "length xs < fuel"
  shows "read_items item fuel (concat (map (\<lambda>x. written x @ codes '','') xs) @ codes '']'' @ t) = Some (map f xs, t)"
  using assms
proof (induction xs arbitrary: fuel)
  case Nil
  then show ?case by (cases fuel) (simp_all add: eat_same)
next
  case (Cons x xs)
  obtain k where k: "fuel = Suc k" "length xs < k" using Cons.prems(3) by (cases fuel) auto
  have "read_items item k (concat (map (\<lambda>x. written x @ codes '','') xs) @ codes '']'' @ t) = Some (map f xs, t)"
    using Cons k by simp
  then show ?case using Cons.prems(1,2) by (simp add: k eat_same)
qed

lemma codes_append: "codes (a @ b) = codes a @ codes b"
  by (simp add: codes_def)

lemma close_array: "codes ''];'' = codes '']'' @ codes '';''"
  by (simp add: codes_def)

lemma read_array_written:
  assumes "\<And>x t. x \<in> set xs \<Longrightarrow> item (written x @ codes '','' @ t) = Some (f x, codes '','' @ t)"
    and "\<And>x t. x \<in> set xs \<Longrightarrow> eat (codes '']'') (written x @ t) = None"
  shows "read_array item (concat (map (\<lambda>x. written x @ codes '','') xs) @ codes ''];'' @ t) = Some (map f xs, t)"
proof -
  have "length xs \<le> length (concat (map (\<lambda>x. written x @ codes '','') xs))"
    by (induction xs) (auto simp: codes_def)
  then show ?thesis
    unfolding read_array_def close_array append_assoc
    using read_items_written [of xs item written f _ "codes '';'' @ t", OF assms(1) assms(2)]
    by (simp add: eat_same del: read_items.simps)
qed

lemma array_of_numbers:
  "read_array read_number (id_items is @ codes ''];'' @ t) = Some (map (\<lambda>n. js_of_nat (f64_of_nat n)) is, t)"
proof -
  have "eat (codes '']'') (show_nat 10 n @ t) = None" for n t
  proof -
    obtain c cs where c: "show_nat 10 n = c # cs" using show_nat_not_empty [of 10 n] by (cases "show_nat 10 n") auto
    then have "is_base_digit 10 c" using show_nat_digits [of 10 c n] by simp
    then have "c \<noteq> 93" using not_digits(2) by auto
    then show ?thesis using c by (simp add: eat_def codes_def)
  qed
  then show ?thesis
    unfolding id_items_def by (intro read_array_written) (simp_all add: read_number_show not_digits)
qed

lemma array_of_errors:
  assumes "\<And>x. x \<in> set xs \<Longrightarrow> readable (snd (snd x))"
  shows "read_array read_error (concat (map (\<lambda>x. error_text shown x @ codes '','') xs) @ codes ''];'' @ t) = Some (map page_error xs, t)"
proof -
  have "eat (codes '']'') (error_text shown x @ t) = None" for x t
    by (cases x) (simp add: error_text_def eat_other)
  then show ?thesis using assms by (intro read_array_written) (simp_all add: read_error_text)
qed

section \<open>Running what was written\<close>

lemma run_resolved:
  assumes "readable (snd d)" and "pg_resolved pg = Some f"
  shows "run_statement (resolved_text shown d @ t) pg = Some (pg\<lparr>pg_resolved := Some (f(f64_of_nat (fst d) := String (escape_lt (snd d))))\<rparr>, t)"
proof -
  have "run_statement (resolved_text shown d @ t) pg = set_element (show_nat 10 (fst d) @ codes ''] = '' @ resource_literal shown (snd d) @ codes '';'' @ t) pg"
    by (simp add: run_statement_def resolved_text_def eat_same eat_other)
  then show ?thesis
    using assms by (simp add: set_element_def read_nat_show not_digits eat_same resource_literal_read readable_def)
qed

lemma run_push:
  assumes "readable (snd (snd x))" and "pg_errors pg = Some vs"
  shows "run_statement (push_error_text shown x @ t) pg = Some (pg\<lparr>pg_errors := Some (vs @ [page_error x])\<rparr>, t)"
proof -
  have "run_statement (push_error_text shown x @ t) pg = push_element (error_text shown x @ codes '');'' @ t) pg"
    by (simp add: run_statement_def push_error_text_def eat_same eat_other)
  then show ?thesis using assms by (simp add: push_element_def read_error_text eat_same)
qed

definition piece_effect :: "utext \<Rightarrow> page_globals \<Rightarrow> page_globals \<Rightarrow> bool" where
  "piece_effect p pg pg' \<longleftrightarrow> p \<noteq> [] \<and> (\<forall>t. run_statement (p @ t) pg = Some (pg', t))"

inductive effects :: "utext list \<Rightarrow> page_globals \<Rightarrow> page_globals \<Rightarrow> bool" where
  no_effect: "effects [] pg pg"
| more_effects: "piece_effect p pg pg' \<Longrightarrow> effects ps pg' pg'' \<Longrightarrow> effects (p # ps) pg pg''"

lemma effects_append: "effects ps pg pg' \<Longrightarrow> effects qs pg' pg'' \<Longrightarrow> effects (ps @ qs) pg pg''"
  by (induction rule: effects.induct) (auto intro: effects.intros)

lemma run_script_effects: "effects ps pg pg' \<Longrightarrow> length (concat ps) \<le> fuel \<Longrightarrow> run_script fuel (concat ps) pg = Some pg'"
proof (induction arbitrary: fuel rule: effects.induct)
  case (no_effect pg)
  then show ?case by (simp add: run_script.simps)
next
  case (more_effects p pg pg' ps pg'')
  then obtain k where k: "fuel = Suc k" "length (concat ps) \<le> k"
    by (cases fuel; cases p) (auto simp: piece_effect_def)
  then show ?case using more_effects by (subst run_script.simps) (simp add: piece_effect_def)
qed

definition resolve_all :: "(nat \<times> utext) list \<Rightarrow> (nat \<Rightarrow> js) \<Rightarrow> nat \<Rightarrow> js" where
  "resolve_all ds f = fold (\<lambda>d f. f(f64_of_nat (fst d) := String (escape_lt (snd d)))) ds f"

lemma codes_not_empty: "codes (c # s) \<noteq> []"
  by (simp add: codes_def)

lemma effects_resolved:
  assumes "\<And>d. d \<in> set ds \<Longrightarrow> readable (snd d)" and "pg_resolved pg = Some f"
  shows "effects (map (resolved_text shown) ds) pg (pg\<lparr>pg_resolved := Some (resolve_all ds f)\<rparr>)"
  using assms
proof (induction ds arbitrary: pg f)
  case Nil
  then show ?case by (cases pg) (auto simp: resolve_all_def intro: no_effect)
next
  case (Cons d ds)
  let ?f = "f(f64_of_nat (fst d) := String (escape_lt (snd d)))"
  have "piece_effect (resolved_text shown d) pg (pg\<lparr>pg_resolved := Some ?f\<rparr>)"
    unfolding piece_effect_def
  proof (intro conjI allI)
    show "resolved_text shown d \<noteq> []" by (simp add: resolved_text_def codes_not_empty)
    show "run_statement (resolved_text shown d @ t) pg = Some (pg\<lparr>pg_resolved := Some ?f\<rparr>, t)" for t
      by (rule run_resolved) (use Cons.prems in auto)
  qed
  moreover have "effects (map (resolved_text shown) ds) (pg\<lparr>pg_resolved := Some ?f\<rparr>)
      ((pg\<lparr>pg_resolved := Some ?f\<rparr>)\<lparr>pg_resolved := Some (resolve_all ds ?f)\<rparr>)"
    by (rule Cons.IH) (use Cons.prems in auto)
  ultimately show ?case by (auto simp: resolve_all_def intro: more_effects)
qed

lemma effects_pushed:
  assumes "\<And>x. x \<in> set xs \<Longrightarrow> readable (snd (snd x))" and "pg_errors pg = Some vs"
  shows "effects (map (push_error_text shown) xs) pg (pg\<lparr>pg_errors := Some (vs @ map page_error xs)\<rparr>)"
  using assms
proof (induction xs arbitrary: pg vs)
  case Nil
  then show ?case by (cases pg) (auto intro: no_effect)
next
  case (Cons x xs)
  let ?vs = "vs @ [page_error x]"
  have "piece_effect (push_error_text shown x) pg (pg\<lparr>pg_errors := Some ?vs\<rparr>)"
    unfolding piece_effect_def
  proof (intro conjI allI)
    show "push_error_text shown x \<noteq> []" by (simp add: push_error_text_def codes_not_empty)
    show "run_statement (push_error_text shown x @ t) pg = Some (pg\<lparr>pg_errors := Some ?vs\<rparr>, t)" for t
      by (rule run_push) (use Cons.prems in auto)
  qed
  moreover have "effects (map (push_error_text shown) xs) (pg\<lparr>pg_errors := Some ?vs\<rparr>)
      ((pg\<lparr>pg_errors := Some ?vs\<rparr>)\<lparr>pg_errors := Some (?vs @ map page_error xs)\<rparr>)"
    by (rule Cons.IH) (use Cons.prems in auto)
  ultimately show ?case by (auto intro: more_effects)
qed

text \<open>The first chunk, when no value was resolved before (nothing writes to that buffer).\<close>

lemma run_initial_chunk:
  assumes "sc_sync c = []" and e: "\<And>x. x \<in> set (sc_errors c) \<Longrightarrow> readable (snd (snd x))"
  shows "\<exists>pg'. run_script (length (initial_chunk shown c)) (initial_chunk shown c) pg = Some pg'
    \<and> pg_resolved pg' = Some (\<lambda>_. Undefined) \<and> pg_errors pg' = Some (map page_error (sc_errors c)) \<and> pg_incomplete pg' = pg_incomplete pg"
proof -
  let ?p1 = "codes ''__RESOLVED_RESOURCES=[];''"
    and ?p2 = "codes ''__SERIALIZED_ERRORS=['' @ concat (map (\<lambda>x. error_text shown x @ codes '','') (sc_errors c)) @ codes ''];''"
    and ?p3 = "codes ''__PENDING_RESOURCES=['' @ id_items (map fst (sc_async c)) @ codes ''];''"
    and ?p4 = "codes ''__RESOURCE_RESOLVERS=[];''"
  let ?g1 = "pg\<lparr>pg_resolved := Some (\<lambda>_. Undefined)\<rparr>"
  let ?g2 = "?g1\<lparr>pg_errors := Some (map page_error (sc_errors c))\<rparr>"
  let ?g3 = "?g2\<lparr>pg_pending := Some (map (\<lambda>n. js_of_nat (f64_of_nat n)) (map fst (sc_async c)))\<rparr>"
  have "initial_chunk shown c = concat [?p1, ?p2, ?p3, ?p4]"
    using assms(1) by (simp add: initial_chunk_def codes_append [symmetric])
  moreover have "piece_effect ?p1 pg ?g1"
    by (simp add: piece_effect_def codes_not_empty run_statement_def eat_same)
  moreover have "piece_effect ?p2 ?g1 ?g2"
    using array_of_errors [of "sc_errors c" shown] e
    by (simp add: piece_effect_def codes_not_empty run_statement_def eat_same eat_other)
  moreover have "piece_effect ?p3 ?g2 ?g3"
    using array_of_numbers by (simp add: piece_effect_def codes_not_empty run_statement_def eat_same eat_other)
  moreover have "piece_effect ?p4 ?g3 (?g3\<lparr>pg_resolvers := True\<rparr>)"
    by (simp add: piece_effect_def codes_not_empty run_statement_def eat_same eat_other)
  ultimately have "run_script (length (initial_chunk shown c)) (initial_chunk shown c) pg = Some (?g3\<lparr>pg_resolvers := True\<rparr>)"
    using run_script_effects [of "[?p1, ?p2, ?p3, ?p4]" pg "?g3\<lparr>pg_resolvers := True\<rparr>" "length (initial_chunk shown c)"]
    by (auto intro!: effects.intros)
  then show ?thesis by auto
qed

lemma run_incomplete_script:
  "run_script (length (incomplete_script c)) (incomplete_script c) pg
    = Some (pg\<lparr>pg_incomplete := Some (map (\<lambda>n. js_of_nat (f64_of_nat n)) (sc_incomplete c))\<rparr>)"
proof -
  have "piece_effect (incomplete_script c) pg (pg\<lparr>pg_incomplete := Some (map (\<lambda>n. js_of_nat (f64_of_nat n)) (sc_incomplete c))\<rparr>)"
    using array_of_numbers
    by (simp add: piece_effect_def incomplete_script_def codes_not_empty run_statement_def eat_same eat_other)
  then have "effects [incomplete_script c] pg (pg\<lparr>pg_incomplete := Some (map (\<lambda>n. js_of_nat (f64_of_nat n)) (sc_incomplete c))\<rparr>)"
    by (rule more_effects) (rule no_effect)
  from run_script_effects [OF this] show ?thesis by simp
qed

section \<open>The browser's context\<close>

definition global_value :: "js list option \<Rightarrow> js" where
  "global_value g = (case g of None \<Rightarrow> Undefined | Some vs \<Rightarrow> Array vs)"

definition global_array :: "(js_num \<Rightarrow> utext) \<Rightarrow> utext \<Rightarrow> js \<Rightarrow> page_data_error + js list" where
  "global_array show_num name v = (case js_items v of Some vs \<Rightarrow> Inr vs | None \<Rightarrow> Inl (not_an_array show_num name v))"

text \<open>The result is what was read and the warnings that are logged.\<close>

definition parse_global ::
  "(js_num \<Rightarrow> utext) \<Rightarrow> utext \<Rightarrow> (js list \<Rightarrow> 'a list \<times> page_data_error option) \<Rightarrow> js \<Rightarrow> 'a list \<times> page_data_error list" where
  "parse_global show_num name parse v =
    (case global_array show_num name v of
       Inl e \<Rightarrow> ([], [e])
     | Inr vs \<Rightarrow> (let (xs, malformed) = parse vs in (xs, case malformed of None \<Rightarrow> [] | Some e \<Rightarrow> [e])))"

definition page_errors :: "nat \<Rightarrow> (js_num \<Rightarrow> utext) \<Rightarrow> page_globals \<Rightarrow> (nat \<times> nat \<times> utext) list \<times> page_data_error list" where
  "page_errors usz show_num pg =
    parse_global show_num SERIALIZED_ERRORS (serialized_errors usz show_num) (global_value (pg_errors pg))"

definition page_incomplete :: "nat \<Rightarrow> (js_num \<Rightarrow> utext) \<Rightarrow> page_globals \<Rightarrow> nat list \<times> page_data_error list" where
  "page_incomplete usz show_num pg =
    parse_global show_num INCOMPLETE_CHUNKS (incomplete_chunks usz show_num) (global_value (pg_incomplete pg))"

definition hydrate_read_data :: "(js_num \<Rightarrow> utext) \<Rightarrow> nat \<Rightarrow> page_globals \<Rightarrow> utext option \<times> page_data_error list" where
  "hydrate_read_data show_num i pg =
    (case pg_resolved pg of
       None \<Rightarrow> (None, [])
     | Some resources \<Rightarrow>
         (case resource_index i of
            Inl e \<Rightarrow> (None, [e])
          | Inr index \<Rightarrow>
              (case resolved_resource show_num i (resources index) of Inl e \<Rightarrow> (None, [e]) | Inr data \<Rightarrow> (data, []))))"

definition hydrate_errors :: "nat \<Rightarrow> (js_num \<Rightarrow> utext) \<Rightarrow> nat \<Rightarrow> page_globals \<Rightarrow> (nat \<times> utext) list" where
  "hydrate_errors usz show_num boundary pg = map snd (filter (\<lambda>x. fst x = boundary) (fst (page_errors usz show_num pg)))"

definition hydrate_get_incomplete_chunk :: "nat \<Rightarrow> (js_num \<Rightarrow> utext) \<Rightarrow> nat \<Rightarrow> page_globals \<Rightarrow> bool" where
  "hydrate_get_incomplete_chunk usz show_num i pg \<longleftrightarrow> i \<in> set (fst (page_incomplete usz show_num pg))"

record hydrate_context =
  hc_id :: nat
  hc_is_hydrating :: bool
  hc_during_hydration :: bool

definition new_hydrate_context :: "bool \<Rightarrow> hydrate_context" where
  "new_hydrate_context hydrating = \<lparr>hc_id = 0, hc_is_hydrating = hydrating, hc_during_hydration = True\<rparr>"

definition hydrate_next_id :: "nat \<Rightarrow> hydrate_context \<Rightarrow> nat \<times> hydrate_context" where
  "hydrate_next_id usz h = (hc_id h, h\<lparr>hc_id := (hc_id h + 1) mod (usz + 1)\<rparr>)"

definition hydrate_set_is_hydrating :: "bool \<Rightarrow> hydrate_context \<Rightarrow> hydrate_context" where
  "hydrate_set_is_hydrating b h = h\<lparr>hc_is_hydrating := b\<rparr>"

definition hydration_complete :: "hydrate_context \<Rightarrow> hydrate_context" where
  "hydration_complete h = h\<lparr>hc_during_hydration := False\<rparr>"

end
