(* ===== verification/Page_Hydration.thy ===== *)
theory Page_Hydration
  imports Page_Browser
begin

text \<open>
  From the server to the browser: whatever values, errors and incomplete chunks the application
  registers until the data stream has ended, before or during it and in any order, the browser
  that runs the data scripts reads back.
\<close>

section \<open>Serving a page\<close>

text \<open>
  \<open>serving shown W E I ph c out\<close>: the values \<open>W\<close>, errors \<open>E\<close> and incomplete chunks \<open>I\<close> were registered,
  the chunks \<open>out\<close> were sent, and the data stream is in phase \<open>ph\<close>. What is registered after the stream
  has ended is not sent: there is no such step. Nothing seals the errors of a boundary.
\<close>

inductive serving ::
  "(nat \<Rightarrow> bool) \<Rightarrow> (nat \<times> utext) list \<Rightarrow> (nat \<times> nat \<times> utext) list \<Rightarrow> nat list \<Rightarrow> data_phase option \<Rightarrow> ssr_context \<Rightarrow> utext list \<Rightarrow> bool"
  for shown where
  serve_start: "serving shown [] [] [] None (new_context hydrating) []"
| serve_id: "serving shown W E I ph c out \<Longrightarrow> serving shown W E I ph (snd (ssr_next_id c)) out"
| serve_hydrating: "serving shown W E I ph c out \<Longrightarrow> serving shown W E I ph (set_is_hydrating b c) out"
| serve_defer: "serving shown W E I ph c out \<Longrightarrow> serving shown W E I ph (defer_stream d c) out"
| serve_await: "serving shown W E I ph c out \<Longrightarrow> serving shown W E I ph (snd (await_deferred c)) out"
| serve_value: "serving shown W E I ph c out \<Longrightarrow> ph \<noteq> Some Sent \<Longrightarrow> i \<notin> fst ` set W \<Longrightarrow>
    serving shown (W @ [(i, data)]) E I ph (write_async i d data c) out"
| serve_error: "serving shown W E I ph c out \<Longrightarrow> ph \<noteq> Some Sent \<Longrightarrow>
    serving shown W (E @ [(b, i, msg)]) I ph (register_error b i msg c) out"
| serve_incomplete: "serving shown W E I ph c out \<Longrightarrow> ph \<noteq> Some Sent \<Longrightarrow>
    serving shown W E (I @ [i]) ph (set_incomplete_chunk i c) out"
| serve_begin: "serving shown W E I None c out \<Longrightarrow>
    serving shown W E I (Some (fst (pending_data shown c))) (snd (pending_data shown c)) out"
| serve_pending: "serving shown W E I (Some ph) c out \<Longrightarrow> poll_data shown ph c = (Data_Pending, ph', c') \<Longrightarrow>
    serving shown W E I (Some ph') c' out"
| serve_chunk: "serving shown W E I (Some ph) c out \<Longrightarrow> poll_data shown ph c = (Data_Ready (Some t), ph', c') \<Longrightarrow>
    serving shown W E I (Some ph') c' (out @ [t])"

section \<open>What the browser has at every moment\<close>

definition waiting :: "ssr_context \<Rightarrow> (nat \<times> utext) set" where
  "waiting c = (\<lambda>(i, d, x). (i, x)) ` set (sc_async c)"

definition all_readable :: "(nat \<times> utext) list \<Rightarrow> (nat \<times> nat \<times> utext) list \<Rightarrow> bool" where
  "all_readable W E \<longleftrightarrow> list_all (readable \<circ> snd) W \<and> list_all (readable \<circ> snd \<circ> snd) E"

abbreviation page_ids :: "nat list \<Rightarrow> js list" where
  "page_ids is \<equiv> map (\<lambda>n. js_of_nat (f64_of_nat n)) is"

fun unsent :: "data_phase \<Rightarrow> utext list" where
  "unsent (First t) = [t]"
| "unsent _ = []"

definition received :: "(nat \<times> utext) list \<Rightarrow> (nat \<times> nat \<times> utext) list \<Rightarrow> nat list \<Rightarrow> data_phase \<Rightarrow> ssr_context \<Rightarrow> page_globals \<Rightarrow> bool" where
  "received W E I ph c pg \<longleftrightarrow>
    (\<exists>f. pg_resolved pg = Some f \<and> (\<forall>(i, x) \<in> set W. i < 2 ^ 53 \<longrightarrow> (i, x) \<in> waiting c \<or> f i = String (escape_lt x)))
    \<and> (\<exists>sent. pg_errors pg = Some (map page_error sent) \<and> E = sent @ sc_errors c)
    \<and> (if ph = Sent then sc_async c = [] \<and> sc_errors c = [] \<and> pg_incomplete pg = Some (page_ids I) else sc_incomplete c = I)"

definition serving_inv ::
  "(nat \<times> utext) list \<Rightarrow> (nat \<times> nat \<times> utext) list \<Rightarrow> nat list \<Rightarrow> data_phase option \<Rightarrow> ssr_context \<Rightarrow> utext list \<Rightarrow> bool" where
  "serving_inv W E I ph c out \<longleftrightarrow> sc_sealed c = [] \<and> sc_sync c = [] \<and> distinct (map fst W) \<and> waiting c \<subseteq> set W
    \<and> (all_readable W E \<longrightarrow>
       (case ph of
          None \<Rightarrow> out = [] \<and> waiting c = set W \<and> sc_errors c = E \<and> sc_incomplete c = I
        | Some ph \<Rightarrow> \<exists>pg. run_page (out @ unsent ph) empty_page = Some pg \<and> received W E I ph c pg))"

lemma run_page_snoc: "run_page (ts @ [t]) pg = Option.bind (run_page ts pg) (run_script (length t) t)"
proof (induction ts arbitrary: pg)
  case Nil
  then show ?case by (cases "run_script (length t) t pg") (simp_all add: run_page_def)
next
  case (Cons s ts)
  then show ?case by (cases "run_script (length s) s pg") (simp_all add: run_page_def)
qed

text \<open>An id is written once, so every write of it has its value.\<close>

lemma resolve_all_other: "i < 2 ^ 53 \<Longrightarrow> i \<notin> fst ` set ds \<Longrightarrow> resolve_all ds f i = f i"
proof (induction ds arbitrary: f)
  case (Cons d ds)
  then have "f64_of_nat (fst d) \<noteq> i" using f64_small by fastforce
  then show ?case using Cons by (simp add: resolve_all_def)
qed (simp add: resolve_all_def)

lemma resolve_all_written:
  assumes "i < 2 ^ 53" and "(i, x) \<in> set ds" and "\<And>y. (i, y) \<in> set ds \<Longrightarrow> y = x"
  shows "resolve_all ds f i = String (escape_lt x)"
  using assms(2,3)
proof (induction ds arbitrary: f)
  case (Cons d ds)
  let ?f = "f(f64_of_nat (fst d) := String (escape_lt (snd d)))"
  have e: "resolve_all (d # ds) f = resolve_all ds ?f" by (simp add: resolve_all_def)
  show ?case
  proof (cases "i \<in> fst ` set ds")
    case True
    then obtain y where "(i, y) \<in> set ds" by force
    then have "(i, x) \<in> set ds" using Cons.prems(2) by (metis list.set_intros(2))
    then have "resolve_all ds ?f i = String (escape_lt x)" using Cons.IH Cons.prems(2) by (meson list.set_intros(2))
    then show ?thesis unfolding e .
  next
    case False
    then have "d = (i, x)" using Cons.prems(1) by force
    then have "?f i = String (escape_lt x)" using f64_exact [OF assms(1)] by simp
    then show ?thesis unfolding e resolve_all_other [OF assms(1) False, of ?f] .
  qed
qed simp

lemma distinct_fst: "distinct (map fst W) \<Longrightarrow> (i, x) \<in> set W \<Longrightarrow> (i, y) \<in> set W \<Longrightarrow> x = y"
  by (metis eq_key_imp_eq_value)

section \<open>Every step keeps it\<close>

lemma serving_inv_same:
  assumes "serving_inv W E I ph c out"
    and "sc_async c' = sc_async c" "sc_errors c' = sc_errors c" "sc_sealed c' = sc_sealed c" "sc_sync c' = sc_sync c"
    and "sc_incomplete c' = sc_incomplete c"
  shows "serving_inv W E I ph c' out"
proof -
  have w: "waiting c' = waiting c" using assms(2) by (simp add: waiting_def)
  have r: "received W E I p c' pg = received W E I p c pg" for p pg
    unfolding received_def w assms(2-) ..
  show ?thesis using assms(1) unfolding serving_inv_def w r assms(2-) .
qed

lemma serving_inv_value:
  assumes "serving_inv W E I ph c out" and "ph \<noteq> Some Sent" and "i \<notin> fst ` set W"
  shows "serving_inv (W @ [(i, data)]) E I ph (write_async i d data c) out"
proof -
  let ?c = "write_async i d data c" and ?W = "W @ [(i, data)]"
  have w: "waiting ?c = insert (i, data) (waiting c)" by (auto simp: waiting_def write_async_def)
  have r: "received ?W E I p ?c pg" if "received W E I p c pg" "p \<noteq> Sent" for p pg
    using that unfolding received_def w by (auto simp: write_async_def)
  have "all_readable ?W E \<Longrightarrow> all_readable W E" by (simp add: all_readable_def)
  then show ?thesis
    using assms r w unfolding serving_inv_def by (cases ph) (auto simp: write_async_def)
qed

lemma serving_inv_error:
  assumes "serving_inv W E I ph c out" and "ph \<noteq> Some Sent"
  shows "serving_inv W (E @ [x]) I ph (c\<lparr>sc_errors := sc_errors c @ [x]\<rparr>) out"
proof -
  let ?c = "c\<lparr>sc_errors := sc_errors c @ [x]\<rparr>"
  have w: "waiting ?c = waiting c" by (simp add: waiting_def)
  have r: "received W (E @ [x]) I p ?c pg" if "received W E I p c pg" "p \<noteq> Sent" for p pg
    using that unfolding received_def w by auto
  have "all_readable W (E @ [x]) \<Longrightarrow> all_readable W E" by (simp add: all_readable_def)
  then show ?thesis using assms r w unfolding serving_inv_def by (cases ph) auto
qed

lemma serving_inv_incomplete:
  assumes "serving_inv W E I ph c out" and "ph \<noteq> Some Sent"
  shows "serving_inv W E (I @ [i]) ph (set_incomplete_chunk i c) out"
proof -
  let ?c = "set_incomplete_chunk i c"
  have w: "waiting ?c = waiting c" by (simp add: waiting_def set_incomplete_chunk_def)
  have r: "received W E (I @ [i]) p ?c pg" if "received W E I p c pg" "p \<noteq> Sent" for p pg
    using that unfolding received_def w by (auto simp: set_incomplete_chunk_def)
  show ?thesis using assms r w unfolding serving_inv_def by (cases ph) (auto simp: set_incomplete_chunk_def)
qed

lemma serving_inv_begin:
  assumes i: "serving_inv W E I None c out"
  shows "serving_inv W E I (Some (fst (pending_data shown c))) (snd (pending_data shown c)) out"
proof -
  let ?c = "snd (pending_data shown c)" and ?t = "initial_chunk shown c"
  have w: "waiting ?c = waiting c" by (simp add: waiting_def pending_data_def)
  have "\<exists>pg. run_page (out @ [?t]) empty_page = Some pg \<and> received W E I (First ?t) ?c pg" if r: "all_readable W E"
  proof -
    have c: "out = []" "waiting c = set W" "sc_errors c = E" "sc_incomplete c = I" "sc_sync c = []"
      using i r by (auto simp: serving_inv_def)
    then have "\<And>x. x \<in> set (sc_errors c) \<Longrightarrow> readable (snd (snd x))" using r by (auto simp: all_readable_def list_all_iff)
    from run_initial_chunk [OF c(5) this, of shown empty_page] obtain pg where
      "run_script (length ?t) ?t empty_page = Some pg" "pg_resolved pg = Some (\<lambda>_. Undefined)" "pg_errors pg = Some (map page_error E)"
      unfolding c(3) by blast
    then show ?thesis
      using c w by (intro exI [of _ pg]) (auto simp: run_page_def received_def pending_data_def)
  qed
  then show ?thesis using i w by (simp add: serving_inv_def pending_data_def)
qed

text \<open>A poll: the values that are ready, and the errors since the last one.\<close>

lemma poll_async_cases:
  assumes "sc_sealed c = []"
  obtains ready c' where "snd (poll_async shown c) = c'" "waiting c = waiting c' \<union> set ready" "sc_errors c' = []"
    "sc_sealed c' = []" "sc_sync c' = sc_sync c" "sc_incomplete c' = sc_incomplete c"
    "fst (poll_async shown c) =
      (let t = concat (map (resolved_text shown) ready @ map (push_error_text shown) (sc_errors c))
       in if sc_async c' = [] \<and> t = [] then Data_Ready None else if t = [] then Data_Pending else Data_Ready (Some t))"
proof -
  obtain w r where wr: "poll_futures (sc_async c) = (w, r)" by fastforce
  let ?c = "c\<lparr>sc_async := w, sc_errors := []\<rparr>"
  have "waiting c = waiting ?c \<union> set r" using poll_futures_set [of "sc_async c"] wr by (simp add: waiting_def)
  then show ?thesis
    using that [of ?c r] assms wr by (simp add: poll_async_def Let_def)
qed

lemma texts_not_empty: "resolved_text shown d \<noteq> []" "push_error_text shown x \<noteq> []"
  by (simp_all add: resolved_text_def push_error_text_def codes_not_empty)

lemma received_poll:
  assumes d: "distinct (map fst W)" and w: "waiting c \<subseteq> set W" and a: "all_readable W E"
    and pg: "received W E I Loading c pg"
    and c': "waiting c = waiting c' \<union> set ready" "sc_errors c' = []" "sc_incomplete c' = sc_incomplete c"
    and t: "t = concat (map (resolved_text shown) ready @ map (push_error_text shown) (sc_errors c))"
  shows "\<exists>pg'. run_script (length t) t pg = Some pg' \<and> received W E I Loading c' pg'"
proof -
  obtain f sent where f: "pg_resolved pg = Some f" "\<And>i x. (i, x) \<in> set W \<Longrightarrow> i < 2 ^ 53 \<Longrightarrow> (i, x) \<in> waiting c \<or> f i = String (escape_lt x)"
      and s: "pg_errors pg = Some (map page_error sent)" "E = sent @ sc_errors c" and n: "sc_incomplete c = I"
    using pg unfolding received_def by fastforce
  let ?pg1 = "pg\<lparr>pg_resolved := Some (resolve_all ready f)\<rparr>"
  let ?pg2 = "?pg1\<lparr>pg_errors := Some (map page_error sent @ map page_error (sc_errors c))\<rparr>"
  have rd: "readable (snd d)" if "d \<in> set ready" for d using that a w c'(1) by (auto simp: all_readable_def list_all_iff)
  have re: "readable (snd (snd x))" if "x \<in> set (sc_errors c)" for x using that a s(2) by (auto simp: all_readable_def list_all_iff)
  have "effects (map (resolved_text shown) ready @ map (push_error_text shown) (sc_errors c)) pg ?pg2"
    using effects_append [OF effects_resolved [OF rd f(1)] effects_pushed [OF re]] s(1) by simp
  then have "run_script (length t) t pg = Some ?pg2" using run_script_effects t by blast
  moreover have "(i, x) \<in> waiting c' \<or> resolve_all ready f i = String (escape_lt x)" if ix: "(i, x) \<in> set W" "i < 2 ^ 53" for i x
  proof (cases "i \<in> fst ` set ready")
    case True
    then obtain y where y: "(i, y) \<in> set ready" by force
    have u: "y = x" if "(i, y) \<in> set ready" for y using distinct_fst [OF d] ix(1) that w c'(1) by blast
    show ?thesis using resolve_all_written [OF ix(2), of x ready f] y u by blast
  next
    case False
    then have "(i, x) \<notin> set ready" by force
    then show ?thesis using f(2) [OF ix] c'(1) resolve_all_other [OF ix(2) False, of f] by auto
  qed
  ultimately show ?thesis
    using s(2) n c'(2,3) unfolding received_def by (intro exI [of _ ?pg2]) auto
qed

lemma run_nothing: "run_script (length []) [] pg = Some pg"
  by (simp add: run_script.simps)

text \<open>What one poll does to the invariant.\<close>

lemma serving_inv_poll:
  assumes i: "serving_inv W E I (Some ph) c out" and p: "poll_data shown ph c = (p, ph', c')"
    and o: "out' = (case p of Data_Ready (Some t) \<Rightarrow> out @ [t] | _ \<Rightarrow> out)"
  shows "serving_inv W E I (Some ph') c' out'"
proof (cases ph)
  case (First t)
  have "received W E I (First t) c pg = received W E I Loading c pg" for pg by (simp add: received_def)
  then show ?thesis using i p o First by (auto simp: serving_inv_def)
next
  case Sent
  then show ?thesis using i p o by auto
next
  case Loading
  have s: "sc_sealed c = []" "sc_sync c = []" "distinct (map fst W)" "waiting c \<subseteq> set W" using i by (auto simp: serving_inv_def)
  obtain ready c1 where c1: "snd (poll_async shown c) = c1" "waiting c = waiting c1 \<union> set ready" "sc_errors c1 = []"
      "sc_sealed c1 = []" "sc_sync c1 = sc_sync c" "sc_incomplete c1 = sc_incomplete c"
    and pa: "fst (poll_async shown c) =
      (let t = concat (map (resolved_text shown) ready @ map (push_error_text shown) (sc_errors c))
       in if sc_async c1 = [] \<and> t = [] then Data_Ready None else if t = [] then Data_Pending else Data_Ready (Some t))"
    by (rule poll_async_cases [OF s(1)])
  define t where "t = concat (map (resolved_text shown) ready @ map (push_error_text shown) (sc_errors c))"
  have w1: "waiting c1 \<subseteq> set W" using s(4) c1(2) by blast
  have go: "\<exists>pg pg1. run_page out empty_page = Some pg \<and> run_script (length t) t pg = Some pg1 \<and> received W E I Loading c1 pg1"
    if a: "all_readable W E"
  proof -
    obtain pg where pg: "run_page out empty_page = Some pg" "received W E I Loading c pg"
      using i a Loading by (auto simp: serving_inv_def)
    then show ?thesis using received_poll [OF s(3,4) a pg(2) c1(2,3,6) t_def] by blast
  qed
  consider (last) "sc_async c1 = []" "t = []" "poll_async shown c = (Data_Ready None, c1)"
    | (none) "sc_async c1 \<noteq> []" "t = []" "poll_async shown c = (Data_Pending, c1)"
    | (some) "t \<noteq> []" "poll_async shown c = (Data_Ready (Some t), c1)"
    using pa c1(1) unfolding t_def [symmetric] Let_def by (cases "poll_async shown c") (auto split: if_splits)
  then show ?thesis
  proof cases
    case last
    have e: "p = Data_Ready (Some (incomplete_script c1))" "ph' = Sent" "c' = c1\<lparr>sc_incomplete := []\<rparr>"
      using p last(3) Loading by auto
    have "\<exists>pg. run_page (out @ [incomplete_script c1]) empty_page = Some pg \<and> received W E I Sent c' pg" if a: "all_readable W E"
    proof -
      obtain pg where pg: "run_page out empty_page = Some pg" "received W E I Loading c1 pg"
        using go [OF a] last(2) run_nothing by auto
      then have "run_page (out @ [incomplete_script c1]) empty_page = Some (pg\<lparr>pg_incomplete := Some (page_ids I)\<rparr>)"
        by (simp add: run_page_snoc run_incomplete_script received_def)
      moreover have "received W E I Sent c' (pg\<lparr>pg_incomplete := Some (page_ids I)\<rparr>)"
        using pg(2) last(1) c1(3) by (simp add: received_def e waiting_def)
      ultimately show ?thesis by blast
    qed
    moreover have "waiting c' = waiting c1" by (simp add: waiting_def e)
    ultimately show ?thesis using s(2,3) w1 c1(4,5) o e by (simp add: serving_inv_def)
  next
    case none
    have "p = Data_Pending" "ph' = Loading" "c' = c1" using p none(3) Loading by auto
    then show ?thesis using s(2,3) w1 c1(4,5) o go none(2) run_nothing by (auto simp: serving_inv_def)
  next
    case some
    have e: "p = Data_Ready (Some t)" "ph' = Loading" "c' = c1" using p some(2) Loading by auto
    have "\<exists>pg. run_page (out @ [t]) empty_page = Some pg \<and> received W E I Loading c1 pg" if a: "all_readable W E"
      using go [OF a] by (auto simp: run_page_snoc)
    then show ?thesis using s(2,3) w1 c1(4,5) o e by (simp add: serving_inv_def)
  qed
qed

lemma serving_inv: "serving shown W E I ph c out \<Longrightarrow> serving_inv W E I ph c out"
proof (induction rule: serving.induct)
  case (serve_start hydrating)
  then show ?case by (simp add: serving_inv_def new_context_def waiting_def)
next
  case (serve_id W E I ph c out)
  then show ?case by (elim serving_inv_same) (simp_all add: ssr_next_id_def)
next
  case (serve_hydrating W E I ph c out b)
  then show ?case by (elim serving_inv_same) (simp_all add: set_is_hydrating_def)
next
  case (serve_defer W E I ph c out d)
  then show ?case by (elim serving_inv_same) (simp_all add: defer_stream_def)
next
  case (serve_await W E I ph c out)
  then show ?case by (elim serving_inv_same) (simp_all add: await_deferred_def)
next
  case (serve_value W E I ph c out i data d)
  then show ?case by (intro serving_inv_value)
next
  case (serve_error W E I ph c out b i msg)
  then show ?case unfolding register_error_def by (intro serving_inv_error)
next
  case (serve_incomplete W E I ph c out i)
  then show ?case by (intro serving_inv_incomplete)
next
  case (serve_begin W E I c out)
  then show ?case by (intro serving_inv_begin)
next
  case (serve_pending W E I ph c out ph' c')
  then show ?case using serving_inv_poll by fastforce
next
  case (serve_chunk W E I ph c out t ph' c')
  then show ?case using serving_inv_poll by fastforce
qed

section \<open>The page\<close>

text \<open>How an id of the server arrives: rounded to an \<open>f64\<close>, then converted to the browser's \<open>usize\<close>.\<close>

definition browser_id :: "nat \<Rightarrow> nat \<Rightarrow> nat" where
  "browser_id usz n = min usz (f64_of_nat n)"

lemma browser_id_exact: "n < 2 ^ 53 \<Longrightarrow> n \<le> usz \<Longrightarrow> browser_id usz n = n"
  by (simp add: browser_id_def f64_exact)

lemma page_error_shape: "serialized_error usz show_num k (page_error (b, i, m)) = Inr (browser_id usz b, browser_id usz i, m)"
  by (simp add: serialized_error_def page_error_def browser_id_def)

lemma collect_all: "collect g (map (Inr \<circ> f) xs) = (map f xs, None)"
proof -
  have "collect_loop (map (Inr \<circ> f) xs) vs bad = (vs @ map f xs, bad)" for vs bad
    by (induction xs arbitrary: vs) auto
  then show ?thesis by (simp add: collect_def)
qed

lemma read_page_errors:
  "serialized_errors usz show_num (map page_error E) = (map (\<lambda>(b, i, m). (browser_id usz b, browser_id usz i, m)) E, None)"
proof -
  have "map_enum (serialized_error usz show_num) (map page_error E) = map (Inr \<circ> (\<lambda>(b, i, m). (browser_id usz b, browser_id usz i, m))) E"
    by (rule nth_equalityI) (auto simp: map_enum_nth page_error_shape split: prod.split)
  then show ?thesis by (simp only: serialized_errors_def collect_all)
qed

lemma read_page_ids: "incomplete_chunks usz show_num (page_ids I) = (map (browser_id usz) I, None)"
proof -
  have "map_enum (incomplete_chunk usz show_num) (page_ids I) = map (Inr \<circ> browser_id usz) I"
    by (rule nth_equalityI) (auto simp: map_enum_nth incomplete_chunk_def browser_id_def)
  then show ?thesis by (simp only: incomplete_chunks_def collect_all)
qed

text \<open>A page with one value, one error and one incomplete chunk.\<close>

lemma small_page: "\<exists>c out. serving shown [(0, data)] [(1, 2, [120])] [3] (Some Sent) c out \<and> 3 \<le> length out"
proof -
  let ?c1 = "write_async 0 0 data (new_context True)"
  let ?c2 = "register_error 1 2 [120] ?c1"
  let ?c3 = "set_incomplete_chunk 3 ?c2"
  let ?c4 = "snd (pending_data shown ?c3)" and ?t = "initial_chunk shown ?c3"
  let ?c5 = "?c4\<lparr>sc_async := []\<rparr>"
  have "serving shown ([] @ [(0, data)]) [] [] None ?c1 []"
    by (rule serve_value [OF serve_start]) simp_all
  then have "serving shown [(0, data)] ([] @ [(1, 2, [120])]) [] None ?c2 []"
    by (intro serve_error) simp_all
  then have "serving shown [(0, data)] [(1, 2, [120])] ([] @ [3]) None ?c3 []"
    by (intro serve_incomplete) simp_all
  from serve_begin [OF this] have "serving shown [(0, data)] [(1, 2, [120])] [3] (Some (First ?t)) ?c4 []"
    by (simp add: pending_data_def)
  from serve_chunk [OF this, of ?t Loading ?c4] have
    s: "serving shown [(0, data)] [(1, 2, [120])] [3] (Some Loading) ?c4 [?t]" by simp
  have "poll_data shown Loading ?c4 = (Data_Ready (Some (resolved_text shown (0, data))), Loading, ?c5)"
    by (auto simp: poll_async_def pending_data_def set_incomplete_chunk_def register_error_def write_async_def new_context_def
      texts_not_empty Let_def)
  from serve_chunk [OF s this] have
    s: "serving shown [(0, data)] [(1, 2, [120])] [3] (Some Loading) ?c5 [?t, resolved_text shown (0, data)]" by simp
  have "poll_data shown Loading ?c5 = (Data_Ready (Some (incomplete_script ?c5)), Sent, ?c5\<lparr>sc_incomplete := []\<rparr>)"
    by (simp add: poll_async_def pending_data_def set_incomplete_chunk_def register_error_def write_async_def new_context_def)
  from serve_chunk [OF s this] show ?thesis by fastforce
qed

lemma page_data_read:
  assumes "serving shown W E I (Some Sent) c out" and "all_readable W E"
  shows "\<exists>pg. run_page out empty_page = Some pg \<and> received W E I Sent c pg
    \<and> (\<forall>(i, x) \<in> set W. i < 2 ^ 32 \<longrightarrow> hydrate_read_data show_num i pg = (Some (escape_lt x), []))"
proof -
  obtain pg where pg: "run_page out empty_page = Some pg" "received W E I Sent c pg"
    using serving_inv [OF assms(1)] assms(2) by (auto simp: serving_inv_def)
  obtain f where f: "pg_resolved pg = Some f" "\<And>i x. (i, x) \<in> set W \<Longrightarrow> i < 2 ^ 53 \<Longrightarrow> f i = String (escape_lt x)"
    using pg(2) by (fastforce simp: received_def waiting_def)
  have "hydrate_read_data show_num i pg = (Some (escape_lt x), [])" if "(i, x) \<in> set W" "i < 2 ^ 32" for i x
  proof -
    have "f i = String (escape_lt x)" using f(2) [OF that(1)] that(2) by simp
    then show ?thesis using f(1) that(2) by (simp add: hydrate_read_data_def resource_index_def resolved_resource_def)
  qed
  then show ?thesis using pg by blast
qed

text \<open>
  C15. What the server sends arrives: when the data stream has ended, running its scripts succeeds, and then every
  value that was written with an id below 2^32 (an array's index) is read as its text with each \<open><\<close> replaced by the
  six characters \<open>\u003c\<close> (\<open>escape_lt\<close>; a JSON reader turns them back, see C22); all errors are read back with their
  messages, in order, and so are the ids of the incomplete chunks (as the browser's \<open>usize\<close> has them). Nothing is
  reported as malformed. The texts must be Unicode and have no NUL before an octal digit (\<open>all_readable\<close>): such a
  NUL is misread (\<open>nul_before_digit_is_misread\<close>).
\<close>

theorem page_data_round_trip:
  assumes "serving shown W E I (Some Sent) c out" and "all_readable W E"
  shows "\<exists>pg. run_page out empty_page = Some pg
    \<and> (\<forall>(i, x) \<in> set W. i < 2 ^ 32 \<longrightarrow> hydrate_read_data show_num i pg = (Some (escape_lt x), []))
    \<and> page_errors usz show_num pg = (map (\<lambda>(b, i, m). (browser_id usz b, browser_id usz i, m)) E, [])
    \<and> page_incomplete usz show_num pg = (map (browser_id usz) I, [])"
proof -
  obtain pg where pg: "run_page out empty_page = Some pg" "received W E I Sent c pg"
      "\<forall>(i, x) \<in> set W. i < 2 ^ 32 \<longrightarrow> hydrate_read_data show_num i pg = (Some (escape_lt x), [])"
    using page_data_read [OF assms] by blast
  have "pg_errors pg = Some (map page_error E)" "pg_incomplete pg = Some (page_ids I)"
    using pg(2) by (auto simp: received_def)
  then have "page_errors usz show_num pg = (map (\<lambda>(b, i, m). (browser_id usz b, browser_id usz i, m)) E, [])"
      "page_incomplete usz show_num pg = (map (browser_id usz) I, [])"
    by (simp_all add: page_errors_def page_incomplete_def parse_global_def global_array_def global_value_def read_page_errors read_page_ids)
  then show ?thesis using pg(1,3) by blast
qed

theorem page_data_round_trip_witness:
  "\<exists>c out pg. serving (\<lambda>_. False) [(0, [97, 60, 98])] [(1, 2, [120])] [3] (Some Sent) c out \<and> run_page out empty_page = Some pg
    \<and> hydrate_read_data (\<lambda>_. []) 0 pg = (Some ([97, 92, 117, 48, 48, 51, 99, 98]), [])
    \<and> page_errors 4294967295 (\<lambda>_. []) pg = ([(1, 2, [120])], [])"
proof -
  obtain c out where s: "serving (\<lambda>_. False) [(0, [97, 60, 98])] [(1, 2, [120])] [3] (Some Sent) c out" using small_page by blast
  have r: "all_readable [(0, [97, 60, 98])] [(1, 2, [120])]"
    by (simp add: all_readable_def readable_def unicode_text_def is_base_digit_def)
  have e: "escape_lt [97, 60, 98] = [97, 92, 117, 48, 48, 51, 99, 98]" by (simp add: escape_lt_def codes_def)
  have "browser_id 4294967295 1 = 1" "browser_id 4294967295 2 = 2" by (simp_all add: browser_id_exact)
  then show ?thesis
    using page_data_round_trip [OF s r, of "\<lambda>_. []" 4294967295] s by (auto simp: e)
qed

text \<open>
  C21. No data script can end the script element that it is sent in, or start another: whatever
  the values and messages are, no chunk contains the character \<open><\<close>.
\<close>

theorem scripts_stay_in_their_element:
  assumes "serving shown W E I ph c out" and "t \<in> set out"
  shows "60 \<notin> set t"
proof -
  have "(\<forall>t \<in> set out. 60 \<notin> set t) \<and> (\<forall>t. ph = Some (First t) \<longrightarrow> 60 \<notin> set t)"
    using assms(1)
  proof (induction rule: serving.induct)
    case (serve_begin W E I c out)
    then show ?case by (simp add: pending_data_def scripts_clean)
  next
    case (serve_pending W E I ph c out ph' c')
    then show ?case by (cases ph) (auto split: prod.splits data_poll.splits option.splits)
  next
    case (serve_chunk W E I ph c out t ph' c')
    show ?case
    proof (cases ph)
      case Loading
      obtain p c1 where pa: "poll_async shown c = (p, c1)" by fastforce
      have "60 \<notin> set u" if "p = Data_Ready (Some u)" for u
        using pa that by (auto simp: poll_async_def Let_def scripts_clean split: prod.splits if_splits)
      then have "60 \<notin> set t \<and> ph' \<noteq> First u" for u
        using serve_chunk.hyps(2) pa Loading by (auto simp: scripts_clean split: data_poll.splits option.splits)
      then show ?thesis using serve_chunk.IH by auto
    qed (use serve_chunk in auto)
  qed auto
  then show ?thesis using assms(2) by blast
qed

theorem scripts_stay_in_their_element_witness:
  "\<exists>c out. serving (\<lambda>_. True) [(0, [97, 60, 98])] [(1, 2, [120])] [3] (Some Sent) c out \<and> out \<noteq> [] \<and> (\<forall>t \<in> set out. 60 \<notin> set t)"
proof -
  obtain c out where s: "serving (\<lambda>_. True) [(0, [97, 60, 98])] [(1, 2, [120])] [3] (Some Sent) c out" "3 \<le> length out"
    using small_page by blast
  then have "out \<noteq> []" by auto
  then show ?thesis using scripts_stay_in_their_element [OF s(1)] s(1) by blast
qed

section \<open>Ids on both sides\<close>

text \<open>
  The ids that the server hands out while it hydrates are those of the browser, whatever it hands
  out in between for parts that are not hydrated.
\<close>

fun server_ids :: "bool list \<Rightarrow> ssr_context \<Rightarrow> (bool \<times> nat) list" where
  "server_ids [] c = []"
| "server_ids (b # bs) c = (let (i, c) = ssr_next_id (set_is_hydrating b c) in (b, i) # server_ids bs c)"

fun browser_ids :: "nat \<Rightarrow> nat \<Rightarrow> hydrate_context \<Rightarrow> nat list" where
  "browser_ids usz 0 h = []"
| "browser_ids usz (Suc k) h = (let (i, h) = hydrate_next_id usz h in i # browser_ids usz k h)"

lemma server_ids_from:
  "sc_id c + length (filter (\<lambda>b. b) bs) < 2 ^ 64 \<Longrightarrow>
    map snd (filter fst (server_ids bs c)) = [sc_id c ..< sc_id c + length (filter (\<lambda>b. b) bs)]"
proof (induction bs arbitrary: c)
  case (Cons b bs)
  then show ?case
    by (cases b) (simp_all add: Let_def ssr_next_id_def set_is_hydrating_def upt_conv_Cons del: upt_Suc)
qed simp

lemma browser_ids_from: "hc_id h + k \<le> usz \<Longrightarrow> browser_ids usz k h = [hc_id h ..< hc_id h + k]"
proof (induction k arbitrary: h)
  case (Suc k)
  then show ?case by (simp add: hydrate_next_id_def upt_conv_Cons del: upt_Suc)
qed simp

lemma ids_agree:
  assumes "length (filter (\<lambda>b. b) bs) \<le> usz" and "usz < 2 ^ 64"
  shows "map snd (filter fst (server_ids bs (new_context s))) = browser_ids usz (length (filter (\<lambda>b. b) bs)) (new_hydrate_context t)"
  using server_ids_from [of "new_context s" bs] browser_ids_from [of "new_hydrate_context t" "length (filter (\<lambda>b. b) bs)" usz] assms
  by (simp add: new_context_def new_hydrate_context_def)

end
