(* ===== verification/Page_Resource.thy ===== *)
theory Page_Resource
  imports Page_Hydration
begin

text \<open>
  The values of resources on their way through the page (\<open>halyard/src/server/hydration_data.rs\<close> and
  the start of a resource in the browser, \<open>server/resource.rs\<close>). The codec is a crate of its own: \<open>enc\<close> encodes
  a value to a text or fails with a reason, \<open>from_str\<close> and \<open>dec\<close> are the two steps that decode it. Nothing is assumed
  of them here: what the browser reads depends on how the codec reads a text in which \<open><\<close> was escaped.
\<close>

datatype resource_error = Encode nat utext | No_Value nat | Not_Sent nat | Unreadable_Data nat utext | Decode nat utext

definition NOT_SENT :: utext where
  "NOT_SENT = codes ''!halyard: the server sent no value for this resource''"

definition encode_value :: "('a \<Rightarrow> utext + utext) \<Rightarrow> 'a option \<Rightarrow> nat \<Rightarrow> resource_error + utext" where
  "encode_value enc v i =
    (case v of
       None \<Rightarrow> Inl (No_Value i)
     | Some v \<Rightarrow> (case enc v of Inl reason \<Rightarrow> Inl (Encode i reason) | Inr t \<Rightarrow> Inr t))"

definition for_the_page :: "resource_error + utext \<Rightarrow> utext" where
  "for_the_page encoded = (case encoded of Inr t \<Rightarrow> t | Inl e \<Rightarrow> NOT_SENT)"

definition decode_value :: "(utext \<Rightarrow> utext + 'e) \<Rightarrow> ('e \<Rightarrow> utext + 'a) \<Rightarrow> utext \<Rightarrow> nat \<Rightarrow> resource_error + 'a" where
  "decode_value from_str dec data i =
    (if data = NOT_SENT then Inl (Not_Sent i)
     else case from_str data of
         Inl reason \<Rightarrow> Inl (Unreadable_Data i reason)
       | Inr e \<Rightarrow> (case dec e of Inl reason \<Rightarrow> Inl (Decode i reason) | Inr v \<Rightarrow> Inr v))"

text \<open>The value that a resource starts with in the browser, and what is logged.\<close>

definition initial_value ::
  "(utext \<Rightarrow> utext + 'e) \<Rightarrow> ('e \<Rightarrow> utext + 'a) \<Rightarrow> (js_num \<Rightarrow> utext) \<Rightarrow> nat \<Rightarrow> page_globals \<Rightarrow> 'a option \<times> resource_error list" where
  "initial_value from_str dec show_num i pg =
    (case fst (hydrate_read_data show_num i pg) of
       None \<Rightarrow> (None, [])
     | Some data \<Rightarrow> (case decode_value from_str dec data i of Inr v \<Rightarrow> (Some v, []) | Inl e \<Rightarrow> (None, [e])))"

lemma escape_lt_same: "60 \<notin> set t \<Longrightarrow> escape_lt t = t"
  by (induction t) (auto simp: escape_lt_def)

lemma escape_lt_not_sent: "escape_lt NOT_SENT = NOT_SENT"
  unfolding NOT_SENT_def by (intro escape_lt_same codes_clean) simp

text \<open>
  C22. A resource's value that the server could encode is the value that the resource starts with in the browser,
  and nothing is logged; one that it could not encode, or that was cleared, makes the browser load the resource itself.
  Two things are needed of the codec, for this value: it reads back what it encoded, and it reads the encoded text
  the same with each \<open><\<close> written as \<open>\u003c\<close>. A JSON codec does for every value. The string codecs (\<open>FromToStringCodec\<close>, the
  identity \<open>FromEncodedStr\<close> of \<open>str\<close>) do for a text without \<open><\<close>, which is not changed (\<open>string_resource_arrives\<close>); one with \<open><\<close> arrives changed
  (\<open>string_resource_is_changed\<close>). The id is below 2^32, and the texts have no NUL before an octal digit (\<open>all_readable\<close>).
\<close>

theorem resource_value_round_trip:
  assumes "serving shown W E I (Some Sent) c out" and "all_readable W E" and "i < 2 ^ 32"
    and "(i, for_the_page (encode_value enc v i)) \<in> set W"
    and reads_back: "\<And>x t. v = Some x \<Longrightarrow> enc x = Inr t \<Longrightarrow> t \<noteq> NOT_SENT \<and> (\<exists>e. from_str t = Inr e \<and> dec e = Inr x)"
    and reads_escapes: "\<And>x t. v = Some x \<Longrightarrow> enc x = Inr t \<Longrightarrow> from_str (escape_lt t) = from_str t \<and> escape_lt t \<noteq> NOT_SENT"
  shows "\<exists>pg. run_page out empty_page = Some pg
    \<and> initial_value from_str dec show_num i pg =
       (case encode_value enc v i of Inr t \<Rightarrow> (v, []) | Inl e \<Rightarrow> (None, [Not_Sent i]))"
proof -
  let ?t = "for_the_page (encode_value enc v i)"
  obtain pg where pg: "run_page out empty_page = Some pg" "hydrate_read_data show_num i pg = (Some (escape_lt ?t), [])"
    using page_data_read [OF assms(1,2), of show_num] assms(3,4) by blast
  have "initial_value from_str dec show_num i pg = (case encode_value enc v i of Inr t \<Rightarrow> (v, []) | Inl e \<Rightarrow> (None, [Not_Sent i]))"
  proof (cases "encode_value enc v i")
    case (Inl e)
    then show ?thesis using pg(2) by (simp add: initial_value_def for_the_page_def decode_value_def escape_lt_not_sent)
  next
    case (Inr t)
    then obtain x where x: "v = Some x" "enc x = Inr t" by (auto simp: encode_value_def split: option.splits sum.splits)
    obtain e where "from_str t = Inr e" "dec e = Inr x" using reads_back [OF x] by blast
    then show ?thesis
      using Inr pg(2) x reads_escapes [OF x] by (simp add: initial_value_def for_the_page_def decode_value_def)
  qed
  then show ?thesis using pg(1) by blast
qed

text \<open>A codec of numbers, in decimal.\<close>

definition encode_nat :: "nat \<Rightarrow> utext + utext" where
  "encode_nat n = Inr (show_nat 10 n)"

definition decode_nat :: "utext \<Rightarrow> utext + nat" where
  "decode_nat t = (if list_all (is_base_digit 10) t then Inr (from_digits 10 t) else Inl (codes ''invalid digit''))"

lemma nat_codec:
  assumes "encode_nat x = Inr t"
  shows "t \<noteq> NOT_SENT" "escape_lt t = t" "decode_nat t = Inr x"
proof -
  have t: "t = show_nat 10 x" using assms by (simp add: encode_nat_def)
  have d: "list_all (is_base_digit 10) t" using show_nat_digits [of 10 _ x] by (simp add: t list_all_iff)
  moreover have "\<not> list_all (is_base_digit 10) NOT_SENT" by (simp add: NOT_SENT_def codes_def is_base_digit_def digit_value_def)
  ultimately show "t \<noteq> NOT_SENT" by auto
  show "escape_lt t = t" by (simp add: t escape_lt_same show_nat_clean)
  show "decode_nat t = Inr x" using d from_digits_show [of 10 x] by (simp add: decode_nat_def t)
qed

theorem resource_value_round_trip_witness:
  "\<exists>c out pg. serving (\<lambda>_. True) [(0, show_nat 10 7)] [(1, 2, [120])] [3] (Some Sent) c out \<and> run_page out empty_page = Some pg
    \<and> initial_value Inr decode_nat (\<lambda>_. []) 0 pg = (Some 7, [])"
proof -
  obtain c out where s: "serving (\<lambda>_. True) [(0, show_nat 10 7)] [(1, 2, [120])] [3] (Some Sent) c out" using small_page by blast
  have "all_readable [(0, show_nat 10 7)] [(1, 2, [120])]"
    by (simp add: all_readable_def readable_def unicode_text_def show_nat_def radix.simps digit_code_def)
  moreover have "(0, for_the_page (encode_value encode_nat (Some 7) 0)) \<in> set [(0, show_nat 10 7)]"
    by (simp add: for_the_page_def encode_value_def encode_nat_def)
  ultimately show ?thesis
    using resource_value_round_trip [OF s, of 0 encode_nat "Some 7" Inr decode_nat "\<lambda>_. []"] nat_codec s
    by (auto simp: encode_value_def encode_nat_def)
qed

section \<open>Two divergences\<close>

text \<open>
  \<open>FromToStringCodec\<close> sends the string itself, and reads the string itself: a string with \<open><\<close> arrives with
  the six characters of the escape in its place.
\<close>

lemma string_resource_is_changed:
  "\<exists>c out pg. serving (\<lambda>_. True) [(0, for_the_page (encode_value Inr (Some [97, 60, 98]) 0))] [(1, 2, [120])] [3] (Some Sent) c out
    \<and> run_page out empty_page = Some pg
    \<and> initial_value Inr Inr (\<lambda>_. []) 0 pg = (Some [97, 92, 117, 48, 48, 51, 99, 98], [])"
proof -
  obtain c out where s: "serving (\<lambda>_. True) [(0, [97, 60, 98])] [(1, 2, [120])] [3] (Some Sent) c out" using small_page by blast
  have r: "all_readable [(0, [97, 60, 98])] [(1, 2, [120])]"
    by (simp add: all_readable_def readable_def unicode_text_def is_base_digit_def)
  have "escape_lt [97, 60, 98] = [97, 92, 117, 48, 48, 51, 99, 98]" by (simp add: escape_lt_def)
  moreover have "[97, 92, 117, 48, 48, 51, 99, 98] \<noteq> NOT_SENT" by (simp add: NOT_SENT_def codes_def)
  ultimately show ?thesis
    using page_data_read [OF s r, of "\<lambda>_. []"] s
    by (fastforce simp: initial_value_def decode_value_def for_the_page_def encode_value_def)
qed

text \<open>A string without \<open><\<close> arrives as it is.\<close>

lemma string_resource_arrives:
  assumes "serving shown W E I (Some Sent) c out" and "all_readable W E" and "i < 2 ^ 32" and "(i, x) \<in> set W"
    and "60 \<notin> set x" and "x \<noteq> NOT_SENT"
  shows "\<exists>pg. run_page out empty_page = Some pg \<and> initial_value Inr Inr show_num i pg = (Some x, [])"
  using page_data_read [OF assms(1,2), of show_num] assms(3-6) escape_lt_same [OF assms(5)]
  by (fastforce simp: initial_value_def decode_value_def)

text \<open>A NUL is written \<open>\0\<close>; JavaScript reads the octal digits after it as part of the escape.\<close>

lemma nul_before_digit_is_misread: "js_literal (error_literal (\<lambda>_. True) [0, 49]) = Some ([1], [])"
  by (simp add: error_literal_def debug_str_def escape_debug_def escape_lt_def js_literal_def js_string.simps js_escape_def
    js_octal_def is_base_digit_def digit_value_def from_digits_def)

end
