(* ===== verification/View_Dom.thy ===== *)
theory View_Dom
  imports Prelude
begin

text \<open>
  The page as the renderer sees it, and the attributes of an element
  (\<^verbatim>\<open>halyard_tachys/src/renderer/dom.rs\<close>, \<^verbatim>\<open>html/attribute/value.rs\<close>, \<^verbatim>\<open>html/attribute/mod.rs\<close>).

  A \<^verbatim>\<open>web_sys::Node\<close> is a number; a \<open>document\<close> says of each number which node it is, which node
  is its parent and which are its children, and which number the next node gets. The operations
  of the browser are those of the DOM standard: a node that is inserted somewhere leaves the
  place where it was, and inserting before a node that is not a child of the parent fails and
  changes nothing. What the standard checks besides (a node is not put under itself) is not
  written out: the renderer puts new nodes under old ones.

  The operations of the renderer are named as in the code, without the \<^verbatim>\<open>Dom::\<close> prefix where
  that is not ambiguous.
\<close>

section \<open>Nodes\<close>

text \<open>
  An element has a namespace (\<open>None\<close> is HTML), a local name and attributes. \<open>OtherN\<close> is a node of
  another type (a document, a fragment): it cannot be cast to an element, a text or a comment.
\<close>

datatype dom_node =
    ElementN "string option" string "string \<rightharpoonup> string"
  | TextN string
  | CommentN string
  | OtherN

record document =
  nodes :: "nat \<Rightarrow> dom_node"
  parent_node :: "nat \<Rightarrow> nat option"
  child_nodes :: "nat \<Rightarrow> nat list"
  next_node :: nat

fun is_element_node :: "dom_node \<Rightarrow> bool" where
  "is_element_node (ElementN ns t m) = True"
| "is_element_node other = False"

fun is_text_node :: "dom_node \<Rightarrow> bool" where
  "is_text_node (TextN s) = True"
| "is_text_node other = False"

fun is_comment_node :: "dom_node \<Rightarrow> bool" where
  "is_comment_node (CommentN s) = True"
| "is_comment_node other = False"

section \<open>Operations of the browser\<close>

definition create_node :: "dom_node \<Rightarrow> document \<Rightarrow> nat \<times> document" where
  "create_node k h =
     (next_node h,
      h\<lparr>nodes := (nodes h)(next_node h := k),
        parent_node := (parent_node h)(next_node h := None),
        child_nodes := (child_nodes h)(next_node h := []),
        next_node := Suc (next_node h)\<rparr>)"

text \<open>\<^verbatim>\<open>Element.remove()\<close>: nothing happens to a node without a parent.\<close>

definition detach :: "nat \<Rightarrow> document \<Rightarrow> document" where
  "detach n h =
     (case parent_node h n of
        None \<Rightarrow> h
      | Some p \<Rightarrow>
          h\<lparr>child_nodes := (child_nodes h)(p := removeAll n (child_nodes h p)),
            parent_node := (parent_node h)(n := None)\<rparr>)"

definition put_before :: "nat \<Rightarrow> nat \<Rightarrow> nat list \<Rightarrow> nat list" where
  "put_before n a xs = takeWhile (\<lambda>x. x \<noteq> a) xs @ n # dropWhile (\<lambda>x. x \<noteq> a) xs"

definition put_child :: "nat \<Rightarrow> nat \<Rightarrow> nat option \<Rightarrow> nat list \<Rightarrow> nat list" where
  "put_child p n a xs = (case a of None \<Rightarrow> xs @ [n] | Some b \<Rightarrow> put_before n b xs)"

definition sibling_after :: "nat \<Rightarrow> nat list \<Rightarrow> nat option" where
  "sibling_after n xs =
     (case dropWhile (\<lambda>x. x \<noteq> n) xs of x # y # ys \<Rightarrow> Some y | other \<Rightarrow> None)"

definition next_sibling :: "nat \<Rightarrow> document \<Rightarrow> nat option" where
  "next_sibling n h =
     (case parent_node h n of None \<Rightarrow> None | Some p \<Rightarrow> sibling_after n (child_nodes h p))"

definition first_child :: "nat \<Rightarrow> document \<Rightarrow> nat option" where
  "first_child n h = (case child_nodes h n of [] \<Rightarrow> None | x # xs \<Rightarrow> Some x)"

text \<open>\<^verbatim>\<open>Node.insertBefore\<close>; \<open>None\<close> is the exception for an anchor that is not a child of the parent.\<close>

definition insert_before_node :: "nat \<Rightarrow> nat \<Rightarrow> nat option \<Rightarrow> document \<Rightarrow> document option" where
  "insert_before_node p n a h =
     (if a \<noteq> None \<and> parent_node h (the a) \<noteq> Some p then None
      else
        let b = (if a = Some n then next_sibling n h else a);
            h1 = detach n h
        in Some (h1\<lparr>child_nodes := (child_nodes h1)(p := put_child p n b (child_nodes h1 p)),
                    parent_node := (parent_node h1)(n := Some p)\<rparr>))"

text \<open>\<^verbatim>\<open>Element.tagName\<close>: in upper case for an HTML element of an HTML document.\<close>

definition upper_char :: "char \<Rightarrow> char" where
  "upper_char c =
     (let n = of_char c :: nat in if 97 \<le> n \<and> n \<le> 122 then char_of (n - 32) else c)"

definition upper_text :: "string \<Rightarrow> string" where
  "upper_text s = map upper_char s"

definition lower_char :: "char \<Rightarrow> char" where
  "lower_char c =
     (let n = of_char c :: nat in if 65 \<le> n \<and> n \<le> 90 then char_of (n + 32) else c)"

definition lower_text :: "string \<Rightarrow> string" where
  "lower_text s = map lower_char s"

fun tag_name_of :: "dom_node \<Rightarrow> string" where
  "tag_name_of (ElementN ns t m) = (if ns = None then upper_text t else t)"
| "tag_name_of other = []"

section \<open>The renderer\<close>

text \<open>
  \<^verbatim>\<open>Dom::create_element\<close>: \<^verbatim>\<open>createElement\<close> lowers the tag, \<^verbatim>\<open>createElementNS\<close> keeps it. The browser
  refuses an empty tag, for which a placeholder element is created; the other tags the browser
  refuses are not modelled.
\<close>

definition element_name :: "string option \<Rightarrow> string \<Rightarrow> string" where
  "element_name ns tag =
     (if tag = [] then ''halyard-invalid-element''
      else if ns = None then lower_text tag else tag)"

definition create_element :: "string \<Rightarrow> string option \<Rightarrow> document \<Rightarrow> nat \<times> document" where
  "create_element tag ns h =
     create_node (ElementN ns (element_name ns tag) Map.empty) h"

definition create_text_node :: "string \<Rightarrow> document \<Rightarrow> nat \<times> document" where
  "create_text_node s h = create_node (TextN s) h"

definition create_placeholder :: "document \<Rightarrow> nat \<times> document" where
  "create_placeholder h = create_node (CommentN []) h"

definition set_text :: "nat \<Rightarrow> string \<Rightarrow> document \<Rightarrow> document" where
  "set_text n s h = h\<lparr>nodes := (nodes h)(n := TextN s)\<rparr>"

fun node_with :: "(string \<rightharpoonup> string) \<Rightarrow> dom_node \<Rightarrow> dom_node" where
  "node_with m (ElementN ns t m') = ElementN ns t m"
| "node_with m other = other"

fun attributes_of :: "dom_node \<Rightarrow> string \<rightharpoonup> string" where
  "attributes_of (ElementN ns t m) = m"
| "attributes_of other = Map.empty"

definition set_attribute :: "nat \<Rightarrow> string \<Rightarrow> string \<Rightarrow> document \<Rightarrow> document" where
  "set_attribute n k s h =
     h\<lparr>nodes := (nodes h)(n := node_with ((attributes_of (nodes h n))(k \<mapsto> s)) (nodes h n))\<rparr>"

definition remove_attribute :: "nat \<Rightarrow> string \<Rightarrow> document \<Rightarrow> document" where
  "remove_attribute n k h =
     h\<lparr>nodes := (nodes h)(n := node_with ((attributes_of (nodes h n))(k := None)) (nodes h n))\<rparr>"

text \<open>\<^verbatim>\<open>Dom::insert_node\<close> logs the failure of an insertion and goes on.\<close>

definition insert_node :: "nat \<Rightarrow> nat \<Rightarrow> nat option \<Rightarrow> document \<Rightarrow> document" where
  "insert_node p n a h = (case insert_before_node p n a h of None \<Rightarrow> h | Some h' \<Rightarrow> h')"

definition try_insert_node :: "nat \<Rightarrow> nat \<Rightarrow> nat option \<Rightarrow> document \<Rightarrow> bool \<times> document" where
  "try_insert_node p n a h =
     (case insert_before_node p n a h of None \<Rightarrow> (False, h) | Some h' \<Rightarrow> (True, h'))"

text \<open>
  The element a node is a child of: \<^verbatim>\<open>Dom::get_parent(node).and_then(Element::cast_from)\<close>.
\<close>

definition parent_element :: "nat \<Rightarrow> document \<Rightarrow> nat option" where
  "parent_element n h =
     (case parent_node h n of
        None \<Rightarrow> None
      | Some p \<Rightarrow> if is_element_node (nodes h p) then Some p else None)"

section \<open>Attribute values\<close>

text \<open>
  The values an attribute has: a text (a string of any type, or what \<^verbatim>\<open>to_string\<close> gives for a
  number), a boolean, or an optional value. The state keeps the element and the previous value.
\<close>

datatype attr_value = StrValue string | BoolValue bool | OptValue "attr_value option"

datatype attr_state =
    StrState nat string
  | BoolState nat bool
  | OptState nat "attr_state option"

fun value_build :: "attr_value \<Rightarrow> nat \<Rightarrow> string \<Rightarrow> document \<Rightarrow> attr_state \<times> document" where
  "value_build (StrValue s) el k h = (StrState el s, set_attribute el k s h)"
| "value_build (BoolValue b) el k h =
     (BoolState el b, if b then set_attribute el k [] h else h)"
| "value_build (OptValue None) el k h = (OptState el None, h)"
| "value_build (OptValue (Some v)) el k h =
     (let (st, h') = value_build v el k h in (OptState el (Some st), h'))"

fun value_hydrate :: "bool \<Rightarrow> attr_value \<Rightarrow> string \<Rightarrow> nat \<Rightarrow> document \<Rightarrow> attr_state \<times> document" where
  "value_hydrate from_server (StrValue s) k el h =
     (StrState el s, if from_server then h else set_attribute el k s h)"
| "value_hydrate from_server (BoolValue b) k el h =
     (BoolState el b, if from_server then h else set_attribute el k [] h)"
| "value_hydrate from_server (OptValue None) k el h = (OptState el None, h)"
| "value_hydrate from_server (OptValue (Some v)) k el h =
     (let (st, h') = value_hydrate from_server v k el h in (OptState el (Some st), h'))"

text \<open>\<open>None\<close>: the state is not that of a value of this type, which the types of the code exclude.\<close>

fun value_rebuild ::
  "attr_value \<Rightarrow> string \<Rightarrow> attr_state \<Rightarrow> document \<Rightarrow> (attr_state \<times> document) option" where
  "value_rebuild (StrValue s) k (StrState el prev) h =
     Some (StrState el s, if s \<noteq> prev then set_attribute el k s h else h)"
| "value_rebuild (BoolValue b) k (BoolState el prev) h =
     Some (BoolState el b,
           if b \<noteq> prev then (if b then set_attribute el k [] h else remove_attribute el k h)
           else h)"
| "value_rebuild (OptValue None) k (OptState el None) h = Some (OptState el None, h)"
| "value_rebuild (OptValue None) k (OptState el (Some prev)) h =
     Some (OptState el None, remove_attribute el k h)"
| "value_rebuild (OptValue (Some v)) k (OptState el None) h =
     (let (st, h') = value_build v el k h in Some (OptState el (Some st), h'))"
| "value_rebuild (OptValue (Some v)) k (OptState el (Some prev)) h =
     (case value_rebuild v k prev h of
        None \<Rightarrow> None
      | Some (st, h') \<Rightarrow> Some (OptState el (Some st), h'))"
| "value_rebuild v k st h = None"

text \<open>The third-party escaping of texts and of attribute values is a parameter.\<close>

record escaping =
  encode_text :: "string \<Rightarrow> string"
  encode_attr :: "string \<Rightarrow> string"

fun value_html :: "escaping \<Rightarrow> attr_value \<Rightarrow> string \<Rightarrow> string" where
  "value_html esc (StrValue s) k = '' '' @ k @ ''=\"'' @ encode_attr esc s @ ''\"''"
| "value_html esc (BoolValue b) k = (if b then '' '' @ k else [])"
| "value_html esc (OptValue None) k = []"
| "value_html esc (OptValue (Some v)) k = value_html esc v k"

section \<open>Attributes\<close>

text \<open>The attributes of an element: pairs of a key, which the type fixes, and a value.\<close>

type_synonym attrs = "(string \<times> attr_value) list"

fun attrs_build :: "attrs \<Rightarrow> nat \<Rightarrow> document \<Rightarrow> attr_state list \<times> document" where
  "attrs_build [] el h = ([], h)"
| "attrs_build ((k, v) # as) el h =
     (let (st, h1) = value_build v el k h; (sts, h2) = attrs_build as el h1
      in (st # sts, h2))"

fun attrs_hydrate :: "bool \<Rightarrow> attrs \<Rightarrow> nat \<Rightarrow> document \<Rightarrow> attr_state list \<times> document" where
  "attrs_hydrate from_server [] el h = ([], h)"
| "attrs_hydrate from_server ((k, v) # as) el h =
     (let (st, h1) = value_hydrate from_server v k el h;
          (sts, h2) = attrs_hydrate from_server as el h1
      in (st # sts, h2))"

fun attrs_rebuild :: "attrs \<Rightarrow> attr_state list \<Rightarrow> document \<Rightarrow> (attr_state list \<times> document) option" where
  "attrs_rebuild [] [] h = Some ([], h)"
| "attrs_rebuild ((k, v) # as) (st # sts) h =
     (case value_rebuild v k st h of
        None \<Rightarrow> None
      | Some (st', h1) \<Rightarrow>
          (case attrs_rebuild as sts h1 of
             None \<Rightarrow> None
           | Some (sts', h2) \<Rightarrow> Some (st' # sts', h2)))"
| "attrs_rebuild as sts h = None"

fun attrs_html :: "escaping \<Rightarrow> attrs \<Rightarrow> string" where
  "attrs_html esc [] = []"
| "attrs_html esc ((k, v) # as) = value_html esc v k @ attrs_html esc as"

section \<open>What attributes should do\<close>

text \<open>The value the element has for the attribute, and the state that belongs to it.\<close>

fun shown_value :: "attr_value \<Rightarrow> string option" where
  "shown_value (StrValue s) = Some s"
| "shown_value (BoolValue b) = (if b then Some [] else None)"
| "shown_value (OptValue None) = None"
| "shown_value (OptValue (Some v)) = shown_value v"

fun value_state :: "nat \<Rightarrow> attr_value \<Rightarrow> attr_state" where
  "value_state el (StrValue s) = StrState el s"
| "value_state el (BoolValue b) = BoolState el b"
| "value_state el (OptValue None) = OptState el None"
| "value_state el (OptValue (Some v)) = OptState el (Some (value_state el v))"

datatype attr_type = StrType | BoolType | OptType attr_type

fun value_typed :: "attr_value \<Rightarrow> attr_type \<Rightarrow> bool" where
  "value_typed (StrValue s) StrType = True"
| "value_typed (BoolValue b) BoolType = True"
| "value_typed (OptValue None) (OptType t) = True"
| "value_typed (OptValue (Some v)) (OptType t) = value_typed v t"
| "value_typed v t = False"

fun attrs_typed :: "attrs \<Rightarrow> (string \<times> attr_type) list \<Rightarrow> bool" where
  "attrs_typed [] [] = True"
| "attrs_typed ((k, v) # as) ((k', t) # ts) = (k = k' \<and> value_typed v t \<and> attrs_typed as ts)"
| "attrs_typed as ts = False"

fun put_attrs :: "attrs \<Rightarrow> (string \<rightharpoonup> string) \<Rightarrow> string \<rightharpoonup> string" where
  "put_attrs [] m = m"
| "put_attrs ((k, v) # as) m = put_attrs as (m(k := shown_value v))"

definition attrs_states :: "nat \<Rightarrow> attrs \<Rightarrow> attr_state list" where
  "attrs_states el as = map (\<lambda>(k, v). value_state el v) as"

lemma attrs_states_simps [simp]:
  "attrs_states el [] = []"
  "attrs_states el ((k, v) # as) = value_state el v # attrs_states el as"
  by (simp_all add: attrs_states_def)

definition with_attributes :: "nat \<Rightarrow> (string \<rightharpoonup> string) \<Rightarrow> document \<Rightarrow> document" where
  "with_attributes n m h = h\<lparr>nodes := (nodes h)(n := node_with m (nodes h n))\<rparr>"

lemma node_with_simps [simp]:
  "node_with m (node_with m' k) = node_with m k"
  "is_element_node k \<Longrightarrow> attributes_of (node_with m k) = m"
  "node_with (attributes_of k) k = k"
  "is_element_node (node_with m k) = is_element_node k"
  by (cases k; simp)+

lemma with_attributes_simps [simp]:
  "with_attributes n m (with_attributes n m' h) = with_attributes n m h"
  "with_attributes n (attributes_of (nodes h n)) h = h"
  "is_element_node (nodes h n) \<Longrightarrow> attributes_of (nodes (with_attributes n m h) n) = m"
  "is_element_node (nodes (with_attributes n m h) n) = is_element_node (nodes h n)"
  by (simp_all add: with_attributes_def)

lemma set_attribute_with:
  "set_attribute n k s h = with_attributes n ((attributes_of (nodes h n))(k \<mapsto> s)) h"
  "remove_attribute n k h = with_attributes n ((attributes_of (nodes h n))(k := None)) h"
  by (simp_all add: set_attribute_def remove_attribute_def with_attributes_def)

lemma fun_upd_same_value: "m k = x \<Longrightarrow> m(k := x) = m"
  by auto

lemma value_build_works:
  assumes "is_element_node (nodes h el)" "attributes_of (nodes h el) k = None"
  shows "value_build v el k h =
    (value_state el v, with_attributes el ((attributes_of (nodes h el))(k := shown_value v)) h)"
  using assms
  by (induction v el k h rule: value_build.induct)
     (simp_all add: set_attribute_with fun_upd_same_value del: fun_upd_apply)

lemma value_rebuild_works:
  assumes "is_element_node (nodes h el)" "attributes_of (nodes h el) k = shown_value v"
    "value_typed v t" "value_typed v' t"
  shows "value_rebuild v' k (value_state el v) h =
    Some (value_state el v', with_attributes el ((attributes_of (nodes h el))(k := shown_value v')) h)"
  using assms
proof (induction v arbitrary: v' t rule: value_state.induct)
  case (1 el s)
  then show ?case
    by (cases t; cases v') (auto simp: set_attribute_with fun_upd_same_value simp del: fun_upd_apply)
next
  case (2 el b)
  then show ?case
    by (cases t; cases v') (auto simp: set_attribute_with fun_upd_same_value simp del: fun_upd_apply)
next
  case (3 el)
  show ?case
  proof (cases v')
    case (OptValue o')
    then show ?thesis
      using 3 by (cases o') (simp_all add: value_build_works fun_upd_same_value del: fun_upd_apply)
  qed (use 3 in \<open>cases t; simp\<close>)+
next
  case (4 el v)
  show ?case
  proof (cases v')
    case (OptValue o')
    then show ?thesis
      using 4 by (cases t; cases o') (simp_all add: set_attribute_with del: fun_upd_apply)
  qed (use 4 in \<open>cases t; simp\<close>)+
qed

lemma put_attrs_other: "k \<notin> fst ` set as \<Longrightarrow> put_attrs as m k = m k"
  by (induction as m rule: put_attrs.induct) auto

lemma put_attrs_upd:
  "k \<notin> fst ` set as \<Longrightarrow> put_attrs as (m(k := x)) = (put_attrs as m)(k := x)"
  by (induction as m rule: put_attrs.induct) (auto simp: fun_upd_twist)

lemma put_attrs_again:
  assumes "map fst as = map fst bs" "distinct (map fst as)"
  shows "put_attrs bs (put_attrs as m) = put_attrs bs m"
  using assms
proof (induction as arbitrary: m bs)
  case (Cons a as)
  obtain k v where a: "a = (k, v)"
    by (cases a)
  from Cons(2) a obtain w bs' where "bs = (k, w) # bs'" "map fst as = map fst bs'"
    by (cases bs) auto
  moreover from this Cons(3) a have "k \<notin> fst ` set as" "k \<notin> fst ` set bs'" "distinct (map fst as)"
    by (auto simp flip: set_map)
  ultimately show ?case
    using Cons(1)[of bs'] a by (simp add: put_attrs_upd del: fun_upd_apply)
qed simp

lemma attrs_build_works:
  assumes "is_element_node (nodes h el)" "distinct (map fst as)"
    "\<And>k. k \<in> fst ` set as \<Longrightarrow> attributes_of (nodes h el) k = None"
  shows "attrs_build as el h =
    (attrs_states el as, with_attributes el (put_attrs as (attributes_of (nodes h el))) h)"
  using assms
proof (induction as el h rule: attrs_build.induct)
  case (2 k v as el h)
  have "value_build v el k h =
      (value_state el v, with_attributes el ((attributes_of (nodes h el))(k := shown_value v)) h)"
    using 2 by (intro value_build_works) auto
  moreover from this have "attrs_build as el (snd (value_build v el k h)) =
      (attrs_states el as, with_attributes el (put_attrs ((k, v) # as) (attributes_of (nodes h el))) h)"
    using 2 by (subst 2(1)) auto
  ultimately show ?case
    by simp
qed simp

lemma attrs_typed_keys: "attrs_typed as ts \<Longrightarrow> map fst as = map fst ts"
  by (induction as ts rule: attrs_typed.induct) auto

lemma attrs_rebuild_works:
  assumes "is_element_node (nodes h el)" "distinct (map fst as)"
    "attrs_typed as ts" "attrs_typed bs ts"
    "\<And>k v. (k, v) \<in> set as \<Longrightarrow> attributes_of (nodes h el) k = shown_value v"
  shows "attrs_rebuild bs (attrs_states el as) h =
    Some (attrs_states el bs, with_attributes el (put_attrs bs (attributes_of (nodes h el))) h)"
  using assms
proof (induction as ts arbitrary: bs h rule: attrs_typed.induct)
  case 1
  then show ?case
    by (cases bs) auto
next
  case (2 k v as k' t ts)
  from 2(5) obtain w bs' where bs: "bs = (k', w) # bs'" "value_typed w t" "attrs_typed bs' ts"
    by (cases bs) auto
  let ?h = "with_attributes el ((attributes_of (nodes h el))(k := shown_value w)) h"
  have "value_rebuild w k (value_state el v) h = Some (value_state el w, ?h)"
    using 2 bs by (intro value_rebuild_works) auto
  moreover have "attrs_rebuild bs' (attrs_states el as) ?h =
      Some (attrs_states el bs', with_attributes el (put_attrs bs (attributes_of (nodes h el))) h)"
    using 2 bs by (subst 2(1)) (auto simp: image_iff)
  ultimately show ?case
    using 2(4) bs by simp
qed simp_all

lemma put_attrs_values:
  assumes "distinct (map fst as)" "(k, v) \<in> set as"
  shows "put_attrs as m k = shown_value v"
  using assms
  by (induction as arbitrary: m) (auto simp: put_attrs_upd put_attrs_other image_iff)

lemma value_hydrate_server [simp]: "value_hydrate True v k el h = (value_state el v, h)"
  by (induction v rule: value_state.induct) simp_all

lemma attrs_hydrate_server [simp]: "attrs_hydrate True as el h = (attrs_states el as, h)"
  by (induction as) auto

end
