(* ===== verification/View_Types.thy ===== *)
theory View_Types
  imports View_Dom
begin

text \<open>
  The views of \<^verbatim>\<open>tachys\<close>, the states they leave in the browser, and the four operations of the
  traits \<^verbatim>\<open>Render\<close> and \<^verbatim>\<open>Mountable\<close> on them: \<^verbatim>\<open>build\<close>, \<^verbatim>\<open>rebuild\<close>, \<^verbatim>\<open>mount\<close>, \<^verbatim>\<open>unmount\<close> and
  \<^verbatim>\<open>insert_before_this\<close> (\<^verbatim>\<open>halyard_tachys/src/view/\<close>: \<^verbatim>\<open>strings.rs\<close>, \<^verbatim>\<open>primitives.rs\<close>, \<^verbatim>\<open>tuples.rs\<close>,
  \<^verbatim>\<open>iterators.rs\<close>, \<^verbatim>\<open>either.rs\<close>, \<^verbatim>\<open>any_view.rs\<close>, and \<^verbatim>\<open>html/element/mod.rs\<close>).

  A Rust type that is a view is a \<open>view_type\<close>, a value of it a \<open>view\<close>, its \<^verbatim>\<open>State\<close> a
  \<open>view_state\<close>. The code has one implementation per type; here one function has one clause per
  constructor. \<open>rebuild\<close> is given a view and a state of the same type by the types of the code; on
  any other pair it is \<open>None\<close>, and \<open>rebuild_typed\<close> below shows that this never happens.
\<close>

section \<open>Types, views and states\<close>

text \<open>The constants of \<^verbatim>\<open>ElementType\<close>; a custom element has the tag \<open>[]\<close>.\<close>

record element_type =
  const_tag :: string
  self_closing :: bool
  escape_children :: bool
  namespace :: "string option"

text \<open>
  \<open>EitherType\<close> has the types of the branches of an \<^verbatim>\<open>Either\<close> or \<^verbatim>\<open>EitherOf3\<close> to \<^verbatim>\<open>EitherOf16\<close>. The
  string of \<open>TextType\<close> and \<open>PrimType\<close> is the name of the type, the boolean of \<open>PrimType\<close> whether
  its text is escaped.
\<close>

datatype view_type =
    TextType string
  | PrimType bool string
  | UnitType
  | TupleType "view_type list"
  | ArrayType view_type nat
  | EitherType "view_type list"
  | VecType view_type
  | AnyType
  | ElementType element_type "(string \<times> attr_type) list" view_type

text \<open>
  \<open>EitherView n i v\<close> is the branch \<open>i\<close> of \<open>n\<close>; \<open>AnyView t v\<close> is a view \<open>v\<close> of which the \<^verbatim>\<open>TypeId\<close> is that
  of \<open>t\<close>; the string of an \<open>ElementView\<close> is what \<^verbatim>\<open>tag()\<close> returns.
\<close>

datatype view =
    TextView string
  | PrimView bool string
  | UnitView
  | TupleView "view list"
  | ArrayView "view list"
  | EitherView nat nat view
  | VecView "view list"
  | AnyView view_type view
  | ElementView element_type string attrs view

datatype view_state =
    TextState nat string
  | PlaceholderState nat
  | TupleState "view_state list"
  | ArrayState "view_state list"
  | EitherState nat view_state
  | VecState "view_state list" nat
  | AnyState view_type view_state "nat option"
  | ElementState nat "attr_state list" "view_state option"

text \<open>An \<^verbatim>\<open>Option\<close> is rendered as an \<^verbatim>\<open>Either\<close> of its content and \<^verbatim>\<open>()\<close>.\<close>

definition option_view :: "view option \<Rightarrow> view" where
  "option_view v = (case v of Some w \<Rightarrow> EitherView 2 0 w | None \<Rightarrow> EitherView 2 1 UnitView)"

text \<open>\<^verbatim>\<open>RenderHtml::EXISTS\<close>, which the shape of the view determines.\<close>

fun view_exists :: "view \<Rightarrow> bool" where
  "view_exists UnitView = False"
| "view_exists (TupleView vs) = list_ex view_exists vs"
| "view_exists v = True"

section \<open>Mounting\<close>

fun mount :: "view_state \<Rightarrow> nat \<Rightarrow> nat option \<Rightarrow> document \<Rightarrow> document"
and mount_all :: "view_state list \<Rightarrow> nat \<Rightarrow> nat option \<Rightarrow> document \<Rightarrow> document" where
  "mount (TextState n s) p m h = insert_node p n m h"
| "mount (PlaceholderState n) p m h = insert_node p n m h"
| "mount (TupleState sts) p m h = mount_all sts p m h"
| "mount (ArrayState sts) p m h = mount_all sts p m h"
| "mount (EitherState i st) p m h = mount st p m h"
| "mount (VecState sts n) p m h = insert_node p n m (mount_all sts p m h)"
| "mount (AnyState t st ph) p m h =
     (case ph of None \<Rightarrow> mount st p m h | Some n \<Rightarrow> insert_node p n m (mount st p m h))"
| "mount (ElementState el as ch) p m h = insert_node p el m h"
| "mount_all [] p m h = h"
| "mount_all (st # sts) p m h = mount_all sts p m (mount st p m h)"

fun unmount :: "view_state \<Rightarrow> document \<Rightarrow> document"
and unmount_all :: "view_state list \<Rightarrow> document \<Rightarrow> document" where
  "unmount (TextState n s) h = detach n h"
| "unmount (PlaceholderState n) h = detach n h"
| "unmount (TupleState sts) h = unmount_all sts h"
| "unmount (ArrayState sts) h = unmount_all sts h"
| "unmount (EitherState i st) h = unmount st h"
| "unmount (VecState sts n) h = detach n (unmount_all sts h)"
| "unmount (AnyState t st ph) h =
     (case ph of None \<Rightarrow> unmount st h | Some n \<Rightarrow> detach n (unmount st h))"
| "unmount (ElementState el as ch) h = detach el h"
| "unmount_all [] h = h"
| "unmount_all (st # sts) h = unmount_all sts (unmount st h)"

text \<open>\<^verbatim>\<open>insert_before_this\<close> of a node, and of the states, which ask their parts in order.\<close>

definition insert_before_one :: "nat \<Rightarrow> view_state \<Rightarrow> document \<Rightarrow> bool \<times> document" where
  "insert_before_one n child h =
     (case parent_element n h of
        None \<Rightarrow> (False, h)
      | Some p \<Rightarrow> (True, mount child p (Some n) h))"

fun insert_before_state :: "view_state \<Rightarrow> view_state \<Rightarrow> document \<Rightarrow> bool \<times> document"
and insert_before_first :: "view_state list \<Rightarrow> view_state \<Rightarrow> document \<Rightarrow> bool \<times> document" where
  "insert_before_state (TextState n s) child h = insert_before_one n child h"
| "insert_before_state (PlaceholderState n) child h = insert_before_one n child h"
| "insert_before_state (TupleState sts) child h = insert_before_first sts child h"
| "insert_before_state (ArrayState sts) child h = insert_before_first sts child h"
| "insert_before_state (EitherState i st) child h = insert_before_state st child h"
| "insert_before_state (VecState sts n) child h =
     (let (inserted, h1) = insert_before_first sts child h
      in if inserted then (True, h1) else insert_before_one n child h1)"
| "insert_before_state (AnyState t st ph) child h =
     (let (inserted, h1) = insert_before_state st child h
      in if inserted then (True, h1)
         else case ph of None \<Rightarrow> (False, h1) | Some n \<Rightarrow> insert_before_one n child h1)"
| "insert_before_state (ElementState el as ch) child h = insert_before_one el child h"
| "insert_before_first [] child h = (False, h)"
| "insert_before_first (st # sts) child h =
     (let (inserted, h1) = insert_before_state st child h
      in if inserted then (True, h1) else insert_before_first sts child h1)"

text \<open>\<^verbatim>\<open>Dom::try_mount_before\<close>.\<close>

definition try_mount_before :: "view_state \<Rightarrow> nat \<Rightarrow> document \<Rightarrow> bool \<times> document" where
  "try_mount_before st before h =
     (case parent_element before h of
        None \<Rightarrow> (False, h)
      | Some p \<Rightarrow> (True, mount st p (Some before) h))"

section \<open>Building\<close>

fun build :: "view \<Rightarrow> document \<Rightarrow> view_state \<times> document"
and build_all :: "view list \<Rightarrow> document \<Rightarrow> view_state list \<times> document" where
  "build (TextView s) h = (let (n, h1) = create_text_node s h in (TextState n s, h1))"
| "build (PrimView e s) h = (let (n, h1) = create_text_node s h in (TextState n s, h1))"
| "build UnitView h = (let (n, h1) = create_placeholder h in (PlaceholderState n, h1))"
| "build (TupleView vs) h = (let (sts, h1) = build_all vs h in (TupleState sts, h1))"
| "build (ArrayView vs) h = (let (sts, h1) = build_all vs h in (ArrayState sts, h1))"
| "build (EitherView n i v) h = (let (st, h1) = build v h in (EitherState i st, h1))"
| "build (VecView vs) h =
     (let (marker, h1) = create_placeholder h; (sts, h2) = build_all vs h1
      in (VecState sts marker, h2))"
| "build (AnyView t v) h =
     (let (st, h1) = build v h
      in if view_exists v then (AnyState t st None, h1)
         else let (n, h2) = create_placeholder h1 in (AnyState t st (Some n), h2))"
| "build (ElementView et tag as ch) h =
     (let (el, h1) = create_element tag (namespace et) h;
          (sts, h2) = attrs_build as el h1
      in if self_closing et then (ElementState el sts None, h2)
         else let (st, h3) = build ch h2
              in (ElementState el sts (Some st), mount st el None h3))"
| "build_all [] h = ([], h)"
| "build_all (v # vs) h =
     (let (st, h1) = build v h; (sts, h2) = build_all vs h1 in (st # sts, h2))"

section \<open>Rebuilding\<close>

text \<open>The common end of the replacements: the old state is removed once the new one stands before it.\<close>

definition replace_with :: "view \<Rightarrow> view_state \<Rightarrow> document \<Rightarrow> view_state \<times> document" where
  "replace_with v old h =
     (let (new, h1) = build v h;
          (inserted, h2) = insert_before_state old new h1
      in (new, unmount old h2))"

text \<open>\<^verbatim>\<open>AnyView::rebuild\<close> puts the new view before the placeholder, when there is one.\<close>

definition replace_any :: "view \<Rightarrow> view_state \<Rightarrow> document \<Rightarrow> view_state \<times> document" where
  "replace_any v old h =
     (let (new, h1) = build v h;
          h2 = (case old of
                  AnyState t st (Some n) \<Rightarrow> detach n (snd (insert_before_one n new h1))
                | other \<Rightarrow> snd (insert_before_state old new h1))
      in (new, unmount old h2))"

fun mount_before_all :: "view_state list \<Rightarrow> nat \<Rightarrow> document \<Rightarrow> document" where
  "mount_before_all [] marker h = h"
| "mount_before_all (st # sts) marker h =
     mount_before_all sts marker (snd (try_mount_before st marker h))"

text \<open>A state with its document, or \<open>None\<close>: what \<open>rebuild\<close> does to the parts of a state.\<close>

fun rebuild :: "view \<Rightarrow> view_state \<Rightarrow> document \<Rightarrow> (view_state \<times> document) option"
and rebuild_all :: "view list \<Rightarrow> view_state list \<Rightarrow> document \<Rightarrow> (view_state list \<times> document) option"
and rebuild_items ::
  "view list \<Rightarrow> view_state list \<Rightarrow> nat \<Rightarrow> document \<Rightarrow> (view_state list \<times> document) option" where
  "rebuild (TextView s) st h =
     (case st of
        TextState n prev \<Rightarrow> Some (TextState n s, if s \<noteq> prev then set_text n s h else h)
      | other \<Rightarrow> None)"
| "rebuild (PrimView e s) st h =
     (case st of
        TextState n prev \<Rightarrow> Some (TextState n s, if s \<noteq> prev then set_text n s h else h)
      | other \<Rightarrow> None)"
| "rebuild UnitView st h =
     (case st of PlaceholderState n \<Rightarrow> Some (PlaceholderState n, h) | other \<Rightarrow> None)"
| "rebuild (TupleView vs) st h =
     (case st of
        TupleState sts \<Rightarrow>
          map_option (\<lambda>(sts', h'). (TupleState sts', h')) (rebuild_all vs sts h)
      | other \<Rightarrow> None)"
| "rebuild (ArrayView vs) st h =
     (case st of
        ArrayState sts \<Rightarrow>
          map_option (\<lambda>(sts', h'). (ArrayState sts', h')) (rebuild_all vs sts h)
      | other \<Rightarrow> None)"
| "rebuild (EitherView n i v) st h =
     (case st of
        EitherState j old \<Rightarrow>
          (if i = j then map_option (\<lambda>(st', h'). (EitherState i st', h')) (rebuild v old h)
           else let (st', h') = replace_with v old h in Some (EitherState i st', h'))
      | other \<Rightarrow> None)"
| "rebuild (VecView vs) st h =
     (case st of
        VecState sts marker \<Rightarrow>
          (if sts = [] then
             let (m', h1) = create_placeholder h; (new, h2) = build_all vs h1
             in Some (VecState new marker, mount_before_all new marker h2)
           else if vs = [] then Some (VecState [] marker, unmount_all sts h)
           else map_option (\<lambda>(sts', h'). (VecState sts' marker, h')) (rebuild_items vs sts marker h))
      | other \<Rightarrow> None)"
| "rebuild (AnyView t v) st h =
     (case st of
        AnyState t' old ph \<Rightarrow>
          (if t = t' then map_option (\<lambda>(st', h'). (AnyState t st' ph, h')) (rebuild v old h)
           else Some (replace_any (AnyView t v) (AnyState t' old ph) h))
      | other \<Rightarrow> None)"
| "rebuild (ElementView et tag as ch) st h =
     (case st of
        ElementState el sts old \<Rightarrow>
          (if const_tag et = [] \<and> tag \<noteq> tag_name_of (nodes h el)
           then Some (replace_with (ElementView et tag as ch) (ElementState el sts old) h)
           else case attrs_rebuild as sts h of
                  None \<Rightarrow> None
                | Some (sts', h1) \<Rightarrow>
                    (case old of
                       None \<Rightarrow> Some (ElementState el sts' None, h1)
                     | Some c \<Rightarrow>
                         map_option (\<lambda>(c', h2). (ElementState el sts' (Some c'), h2))
                           (rebuild ch c h1)))
      | other \<Rightarrow> None)"
| "rebuild_all [] sts h = (if sts = [] then Some ([], h) else None)"
| "rebuild_all (v # vs) sts h =
     (case sts of
        [] \<Rightarrow> None
      | st # rest \<Rightarrow>
          (case rebuild v st h of
             None \<Rightarrow> None
           | Some (st', h1) \<Rightarrow>
               map_option (\<lambda>(rest', h2). (st' # rest', h2)) (rebuild_all vs rest h1)))"
| "rebuild_items [] sts marker h = Some ([], unmount_all sts h)"
| "rebuild_items (v # vs) sts marker h =
     (case sts of
        [] \<Rightarrow>
          (let (st', h1) = build v h;
               (mounted, h2) = try_mount_before st' marker h1
           in map_option (\<lambda>(sts', h3). (st' # sts', h3)) (rebuild_items vs [] marker h2))
      | st # rest \<Rightarrow>
          (case rebuild v st h of
             None \<Rightarrow> None
           | Some (st', h1) \<Rightarrow>
               map_option (\<lambda>(sts', h2). (st' # sts', h2)) (rebuild_items vs rest marker h1)))"

section \<open>Typing\<close>

fun view_typed :: "view \<Rightarrow> view_type \<Rightarrow> bool"
and views_typed :: "view list \<Rightarrow> view_type list \<Rightarrow> bool" where
  "view_typed (TextView s) t = (case t of TextType name \<Rightarrow> True | other \<Rightarrow> False)"
| "view_typed (PrimView e s) t = (case t of PrimType e' name \<Rightarrow> e = e' | other \<Rightarrow> False)"
| "view_typed UnitView t = (t = UnitType)"
| "view_typed (TupleView vs) t =
     (case t of TupleType ts \<Rightarrow> vs \<noteq> [] \<and> views_typed vs ts | other \<Rightarrow> False)"
| "view_typed (ArrayView vs) t =
     (case t of ArrayType u n \<Rightarrow> length vs = n \<and> views_typed vs (replicate n u) | other \<Rightarrow> False)"
| "view_typed (EitherView n i v) t =
     (case t of
        EitherType ts \<Rightarrow> n = length ts \<and> i < length ts \<and> view_typed v (ts ! i)
      | other \<Rightarrow> False)"
| "view_typed (VecView vs) t =
     (case t of VecType u \<Rightarrow> views_typed vs (replicate (length vs) u) | other \<Rightarrow> False)"
| "view_typed (AnyView u v) t = (t = AnyType \<and> view_typed v u)"
| "view_typed (ElementView et tag as ch) t =
     (case t of
        ElementType et' ats u \<Rightarrow>
          et = et' \<and> (const_tag et \<noteq> [] \<longrightarrow> tag = const_tag et) \<and> attrs_typed as ats \<and>
          view_typed ch u \<and> (self_closing et \<longrightarrow> u = UnitType)
      | other \<Rightarrow> False)"
| "views_typed [] ts = (ts = [])"
| "views_typed (v # vs) ts =
     (case ts of [] \<Rightarrow> False | t # rest \<Rightarrow> view_typed v t \<and> views_typed vs rest)"

fun attr_state_typed :: "attr_state \<Rightarrow> attr_type \<Rightarrow> bool" where
  "attr_state_typed (StrState el s) StrType = True"
| "attr_state_typed (BoolState el b) BoolType = True"
| "attr_state_typed (OptState el None) (OptType t) = True"
| "attr_state_typed (OptState el (Some st)) (OptType t) = attr_state_typed st t"
| "attr_state_typed st t = False"

fun attr_states_typed :: "attr_state list \<Rightarrow> (string \<times> attr_type) list \<Rightarrow> bool" where
  "attr_states_typed [] [] = True"
| "attr_states_typed (st # sts) ((k, t) # ts) = (attr_state_typed st t \<and> attr_states_typed sts ts)"
| "attr_states_typed sts ts = False"

fun state_typed :: "view_state \<Rightarrow> view_type \<Rightarrow> bool"
and states_typed :: "view_state list \<Rightarrow> view_type list \<Rightarrow> bool" where
  "state_typed (TextState n s) t =
     (case t of TextType name \<Rightarrow> True | PrimType e name \<Rightarrow> True | other \<Rightarrow> False)"
| "state_typed (PlaceholderState n) t = (t = UnitType)"
| "state_typed (TupleState sts) t =
     (case t of TupleType ts \<Rightarrow> states_typed sts ts | other \<Rightarrow> False)"
| "state_typed (ArrayState sts) t =
     (case t of ArrayType u n \<Rightarrow> length sts = n \<and> states_typed sts (replicate n u) | other \<Rightarrow> False)"
| "state_typed (EitherState i st) t =
     (case t of EitherType ts \<Rightarrow> i < length ts \<and> state_typed st (ts ! i) | other \<Rightarrow> False)"
| "state_typed (VecState sts n) t =
     (case t of VecType u \<Rightarrow> states_typed sts (replicate (length sts) u) | other \<Rightarrow> False)"
| "state_typed (AnyState u st ph) t = (t = AnyType \<and> state_typed st u)"
| "state_typed (ElementState el sts st) t =
     (case t of
        ElementType et ats u \<Rightarrow>
          attr_states_typed sts ats \<and>
          (case st of None \<Rightarrow> True | Some c \<Rightarrow> state_typed c u)
      | other \<Rightarrow> False)"
| "states_typed [] ts = (ts = [])"
| "states_typed (st # sts) ts =
     (case ts of [] \<Rightarrow> False | t # rest \<Rightarrow> state_typed st t \<and> states_typed sts rest)"

lemma value_build_typed:
  "value_typed v t \<Longrightarrow> attr_state_typed (fst (value_build v el k h)) t"
proof (induction v el k h arbitrary: t rule: value_build.induct)
  case (4 v el k h)
  then show ?case
    by (cases t) (auto split: prod.splits)
qed (case_tac t; simp)+

lemma attrs_build_typed:
  "attrs_typed as ats \<Longrightarrow> attr_states_typed (fst (attrs_build as el h)) ats"
proof (induction as ats arbitrary: h rule: attrs_typed.induct)
  case (2 k v as k' t ts)
  then show ?case
    using value_build_typed[of v t el k h] by (auto split: prod.splits) (metis fst_conv)
qed simp_all

lemma value_rebuild_typed:
  assumes "value_typed v t" "attr_state_typed st t"
  shows "\<exists>st' h'. value_rebuild v k st h = Some (st', h') \<and> attr_state_typed st' t"
  using assms
proof (induction v k st h arbitrary: t rule: value_rebuild.induct)
  case (5 v k el h)
  then show ?case
    using value_build_typed[of v _ el k h] by (cases t) (auto split: prod.splits)
next
  case (6 v k el prev h)
  then show ?case
    by (cases t) fastforce+
qed (case_tac t; simp)+

lemma attrs_rebuild_typed:
  assumes "attrs_typed as ats" "attr_states_typed sts ats"
  shows "\<exists>sts' h'. attrs_rebuild as sts h = Some (sts', h') \<and> attr_states_typed sts' ats"
  using assms
proof (induction as ats arbitrary: sts h rule: attrs_typed.induct)
  case 1
  then show ?case
    by (cases sts) auto
next
  case (2 k v as k' t ts)
  then obtain st sts' where sts: "sts = st # sts'" "attr_state_typed st t" "attr_states_typed sts' ts"
    by (cases sts) auto
  obtain st1 h1 where "value_rebuild v k st h = Some (st1, h1)" "attr_state_typed st1 t"
    using value_rebuild_typed 2 sts by (metis attrs_typed.simps(2))
  then show ?case
    using 2(1)[of sts' h1] 2(2) sts by auto
qed simp_all

section \<open>Rebuilding never goes wrong\<close>

lemma build_typed:
  "view_typed v t \<Longrightarrow> state_typed (fst (build v h)) t"
  "views_typed vs ts \<Longrightarrow> states_typed (fst (build_all vs h)) ts \<and>
    length (fst (build_all vs h)) = length vs"
proof (induction v h and vs h arbitrary: t and ts rule: build_build_all.induct)
  case (9 et tag as ch h)
  then show ?case
    using attrs_build_typed[of as _ "fst (create_element tag (namespace et) h)"
        "snd (create_element tag (namespace et) h)"]
    by (auto split: prod.splits view_type.splits)
qed (auto split: prod.splits view_type.splits list.splits)

lemma replace_with_typed: "view_typed v t \<Longrightarrow> state_typed (fst (replace_with v old h)) t"
  using build_typed(1)[of v t h] by (auto simp: replace_with_def split: prod.splits)

lemma replace_any_typed: "view_typed v t \<Longrightarrow> state_typed (fst (replace_any v old h)) t"
  using build_typed(1)[of v t h] by (auto simp: replace_any_def split: prod.splits)

definition gives_typed :: "(view_state \<times> document) option \<Rightarrow> view_type \<Rightarrow> bool" where
  "gives_typed r t = (\<exists>st h. r = Some (st, h) \<and> state_typed st t)"

definition give_typed :: "(view_state list \<times> document) option \<Rightarrow> view_type list \<Rightarrow> bool" where
  "give_typed r ts = (\<exists>sts h. r = Some (sts, h) \<and> states_typed sts ts)"

lemma states_typed_length: "states_typed sts ts \<Longrightarrow> length sts = length ts"
  by (induction sts arbitrary: ts) (auto split: list.splits)

lemma rebuild_gives_typed:
  "view_typed v t \<Longrightarrow> state_typed st t \<Longrightarrow> gives_typed (rebuild v st h) t"
  "views_typed vs ts \<Longrightarrow> states_typed sts ts \<Longrightarrow> give_typed (rebuild_all vs sts h) ts"
  "views_typed us (replicate (length us) u) \<Longrightarrow> states_typed items (replicate (length items) u) \<Longrightarrow>
    give_typed (rebuild_items us items m g) (replicate (length us) u)"
proof (induction v st h and vs sts h and us items m g arbitrary: t and ts and u
    rule: rebuild_rebuild_all_rebuild_items.induct)
  case (6 n i v st h)
  from 6(2,3) obtain ts j old where t: "t = EitherType ts" "st = EitherState j old"
    and v: "i < length ts" "view_typed v (ts ! i)" and old: "state_typed old (ts ! j)"
    by (cases st) (auto split: view_type.splits)
  show ?case
  proof (cases "i = j")
    case True
    then show ?thesis
      using 6(1)[OF t(2) True v(2)] old v t by (auto simp: gives_typed_def)
  next
    case False
    then show ?thesis
      using replace_with_typed[OF v(2), of old h] v t by (auto simp: gives_typed_def split: prod.splits)
  qed
next
  case (7 vs st h)
  from 7(2,3) obtain u sts marker where t: "t = VecType u" "st = VecState sts marker"
    and vs: "views_typed vs (replicate (length vs) u)"
    and sts: "states_typed sts (replicate (length sts) u)"
    by (cases st) (auto split: view_type.splits)
  show ?case
  proof (cases "sts = [] \<or> vs = []")
    case True
    then show ?thesis
      using build_typed(2)[OF vs, of "snd (create_placeholder h)"] t
      by (auto simp: gives_typed_def split: prod.splits)
  next
    case False
    then have "give_typed (rebuild_items vs sts marker h) (replicate (length vs) u)"
      using 7(1)[OF t(2)] vs sts by blast
    then show ?thesis
      using False t states_typed_length[of _ "replicate (length vs) u"]
      by (auto simp: gives_typed_def give_typed_def)
  qed
next
  case (8 t1 v st h)
  from 8(2,3) obtain t2 old ph where t: "t = AnyType" "st = AnyState t2 old ph"
    and v: "view_typed v t1" and old: "state_typed old t2"
    by (cases st) (auto split: view_type.splits)
  show ?case
  proof (cases "t1 = t2")
    case True
    then show ?thesis
      using 8(1)[OF t(2) True v] old t by (auto simp: gives_typed_def)
  next
    case False
    then show ?thesis
      using replace_any_typed[of "AnyView t1 v" AnyType "AnyState t2 old ph" h] v t
      by (auto simp: gives_typed_def) (metis prod.collapse)
  qed
next
  case (9 et tag as ch st h)
  from 9(2,3) obtain ats u el sts old where t: "t = ElementType et ats u" "st = ElementState el sts old"
    and as: "attrs_typed as ats" "attr_states_typed sts ats" and ch: "view_typed ch u"
    and old: "\<And>c. old = Some c \<Longrightarrow> state_typed c u"
    by (cases st) (auto split: view_type.splits option.splits)
  obtain sts' h1 where r: "attrs_rebuild as sts h = Some (sts', h1)" "attr_states_typed sts' ats"
    using attrs_rebuild_typed[OF as] by blast
  show ?case
  proof (cases "const_tag et = [] \<and> tag \<noteq> tag_name_of (nodes h el)")
    case True
    then show ?thesis
      using replace_with_typed[OF 9(2), of "ElementState el sts old" h] t
      by (auto simp: gives_typed_def) (metis prod.collapse)
  next
    case False
    show ?thesis
    proof (cases old)
      case None
      then show ?thesis
        using False t r by (auto simp: gives_typed_def)
    next
      case (Some c)
      have "gives_typed (rebuild ch c h1) u"
        using 9(1)[OF t(2) False r(1) _ Some ch] old[OF Some] by auto
      then show ?thesis
        using False t r Some by (auto simp: gives_typed_def)
    qed
  qed
next
  case (11 v vs sts h)
  then show ?case
    by (fastforce simp: gives_typed_def give_typed_def split: list.splits option.splits)
next
  case (13 v vs sts m h)
  have rest: "view_typed v u" "views_typed vs (replicate (length vs) u)"
    using 13(4) by simp_all
  show ?case
  proof (cases sts)
    case Nil
    obtain st h1 mounted h2 where b: "build v h = (st, h1)" "try_mount_before st m h1 = (mounted, h2)"
      by (meson surj_pair)
    have "give_typed (rebuild_items vs [] m h2) (replicate (length vs) u)"
      using 13(1)[OF Nil b(1)[symmetric] refl b(2)[symmetric] refl rest(2)] by simp
    then show ?thesis
      using Nil b rest build_typed(1)[OF rest(1), of h] by (auto simp: give_typed_def)
  next
    case (Cons st rs)
    obtain st' h1 where r: "rebuild v st h = Some (st', h1)" "state_typed st' u"
      using 13(2)[OF Cons rest(1)] 13(5) Cons by (auto simp: gives_typed_def)
    have "give_typed (rebuild_items vs rs m h1) (replicate (length vs) u)"
      using 13(3)[OF Cons r(1) _ rest(2)] 13(5) Cons by simp
    then show ?thesis
      using Cons r by (auto simp: give_typed_def)
  qed
next
  case (1 s st h)
  then show ?case
    by (cases st) (auto simp: gives_typed_def split: view_type.splits)
next
  case (2 e s st h)
  then show ?case
    by (cases st) (auto simp: gives_typed_def split: view_type.splits)
next
  case (3 st h)
  then show ?case
    by (cases st) (auto simp: gives_typed_def split: view_type.splits)
next
  case (4 vs st h)
  then show ?case
    by (cases st) (fastforce simp: gives_typed_def give_typed_def split: view_type.splits)+
next
  case (5 vs st h)
  from 5(2,3) obtain u sts where t: "t = ArrayType u (length vs)" "st = ArrayState sts"
    and vs: "views_typed vs (replicate (length vs) u)" "states_typed sts (replicate (length vs) u)"
    by (cases st) (auto split: view_type.splits)
  have "give_typed (rebuild_all vs sts h) (replicate (length vs) u)"
    using 5(1)[OF t(2) vs] .
  then show ?case
    using t states_typed_length[of _ "replicate (length vs) u"]
    by (auto simp: gives_typed_def give_typed_def)
qed (auto simp: gives_typed_def give_typed_def dest: states_typed_length)

end
