(* ===== verification/View_Html.thy ===== *)
theory View_Html
  imports View_Types
begin

text \<open>
  The HTML of a view (\<^verbatim>\<open>RenderHtml::to_html_with_buf\<close> in the files of \<^verbatim>\<open>halyard_tachys/src/view/\<close> and in
  \<^verbatim>\<open>html/element/mod.rs\<close>), and the nodes it stands for.

  \<open>to_html\<close> returns the text that is appended to the buffer and the new position. With branch
  markers it is given the text that names a type (the debug text of its \<^verbatim>\<open>TypeId\<close>). The escaping is
  third-party code: a parameter. Attributes that are added from outside, classes, styles and
  \<^verbatim>\<open>inner_html\<close> are not modelled: an element has plain attributes.
\<close>

section \<open>Rendering to HTML\<close>

datatype hydration_position =
    Current
  | FirstChild
  | NextChild
  | NextChildAfterText
  | OnlyChild
  | LastChild

definition open_branch :: "string \<Rightarrow> string" where
  "open_branch name = ''<!--bo-'' @ name @ ''-->''"

definition close_branch :: "string \<Rightarrow> string" where
  "close_branch name = ''<!--bc-'' @ name @ ''-->''"

text \<open>\<^verbatim>\<open>Either\<close> names its branches \<^verbatim>\<open>0\<close> and \<^verbatim>\<open>1\<close>, \<^verbatim>\<open>EitherOfN\<close> by the letters from \<^verbatim>\<open>A\<close>.\<close>

definition branch_name :: "nat \<Rightarrow> nat \<Rightarrow> string" where
  "branch_name n i = (if n = 2 then [char_of (48 + i)] else [char_of (65 + i)])"

definition mark_branch ::
  "(view_type \<Rightarrow> string) option \<Rightarrow> bool \<Rightarrow> string \<Rightarrow> string \<times> hydration_position \<Rightarrow>
    string \<times> hydration_position" where
  "mark_branch marks escape name r =
     (if marks \<noteq> None \<and> escape
      then (open_branch name @ fst r @ close_branch name,
            if snd r = NextChildAfterText then NextChild else snd r)
      else r)"

definition text_separator :: "hydration_position \<Rightarrow> string" where
  "text_separator pos = (if pos = NextChildAfterText then ''<!>'' else [])"

fun to_html ::
  "escaping \<Rightarrow> (view_type \<Rightarrow> string) option \<Rightarrow> view \<Rightarrow> hydration_position \<Rightarrow> bool \<Rightarrow>
    string \<times> hydration_position"
and to_html_all ::
  "escaping \<Rightarrow> (view_type \<Rightarrow> string) option \<Rightarrow> view list \<Rightarrow> hydration_position \<Rightarrow> bool \<Rightarrow>
    string \<times> hydration_position" where
  "to_html esc marks (TextView s) pos escape =
     (text_separator pos @
        (if s = [] \<and> escape then '' '' else if escape then encode_text esc s else s),
      NextChildAfterText)"
| "to_html esc marks (PrimView lit s) pos escape =
     (text_separator pos @ (if lit \<and> escape then encode_text esc s else s), NextChildAfterText)"
| "to_html esc marks UnitView pos escape = (if escape then (''<!>'', NextChild) else ([], pos))"
| "to_html esc marks (TupleView vs) pos escape = to_html_all esc marks vs pos escape"
| "to_html esc marks (ArrayView vs) pos escape = to_html_all esc marks vs pos escape"
| "to_html esc marks (EitherView n i v) pos escape =
     mark_branch marks escape (branch_name n i) (to_html esc marks v pos escape)"
| "to_html esc marks (VecView vs) pos escape =
     (let (html, pos') = to_html_all esc marks vs pos escape
      in if escape then (html @ ''<!>'', NextChild) else (html, pos'))"
| "to_html esc marks (AnyView t v) pos escape =
     mark_branch marks escape (case marks of None \<Rightarrow> [] | Some name \<Rightarrow> name t)
       (let (html, pos') = to_html esc marks v pos escape
        in (html @ (if view_exists v then [] else ''<!--<() />-->''), pos'))"
| "to_html esc marks (ElementView et tag as ch) pos escape =
     (''<'' @ tag @ attrs_html esc as @ ''>'' @
        (if self_closing et then []
         else (if view_exists ch then fst (to_html esc marks ch FirstChild (escape_children et))
               else []) @ ''</'' @ tag @ ''>''),
      NextChild)"
| "to_html_all esc marks [] pos escape = ([], pos)"
| "to_html_all esc marks (v # vs) pos escape =
     (let (html, pos1) = to_html esc marks v pos escape;
          (rest, pos2) = to_html_all esc marks vs pos1 escape
      in (html @ rest, pos2))"

text \<open>\<^verbatim>\<open>RenderHtml::to_html\<close> and \<^verbatim>\<open>to_html_branching\<close>.\<close>

definition render_html :: "escaping \<Rightarrow> view \<Rightarrow> string" where
  "render_html esc v = fst (to_html esc None v FirstChild True)"

definition render_html_branching :: "escaping \<Rightarrow> (view_type \<Rightarrow> string) \<Rightarrow> view \<Rightarrow> string" where
  "render_html_branching esc name v = fst (to_html esc (Some name) v FirstChild True)"

section \<open>The nodes of the HTML\<close>

text \<open>
  Elements with their attributes, an attribute without a value is \<open>None\<close>; texts; comments. \<open>markup\<close>
  writes them: the comment \<^verbatim>\<open><!>\<close> is empty, void elements have no closing tag.
\<close>

datatype html =
    ElementH string "(string \<times> string option) list" "html list"
  | TextH string
  | CommentH string

definition void_tags :: "string list" where
  "void_tags = [''area'', ''base'', ''br'', ''col'', ''embed'', ''hr'', ''img'', ''input'', ''link'',
     ''meta'', ''source'', ''track'', ''wbr'']"

definition attr_markup :: "escaping \<Rightarrow> string \<times> string option \<Rightarrow> string" where
  "attr_markup esc a =
     '' '' @ fst a @
     (case snd a of None \<Rightarrow> [] | Some s \<Rightarrow> ''=\"'' @ encode_attr esc s @ ''\"'')"

fun markup :: "escaping \<Rightarrow> html \<Rightarrow> string"
and markup_all :: "escaping \<Rightarrow> html list \<Rightarrow> string" where
  "markup esc (ElementH tag as kids) =
     ''<'' @ tag @ concat (map (attr_markup esc) as) @ ''>'' @
     (if tag \<in> set void_tags then [] else markup_all esc kids @ ''</'' @ tag @ ''>'')"
| "markup esc (TextH s) = encode_text esc s"
| "markup esc (CommentH c) = (if c = [] then ''<!>'' else ''<!--'' @ c @ ''-->'')"
| "markup_all esc [] = []"
| "markup_all esc (x # xs) = markup esc x @ markup_all esc xs"

lemma markup_append [simp]: "markup_all esc (xs @ ys) = markup_all esc xs @ markup_all esc ys"
  by (induction xs) auto

text \<open>The attributes that a view writes.\<close>

fun value_items :: "attr_value \<Rightarrow> string option list" where
  "value_items (StrValue s) = [Some s]"
| "value_items (BoolValue b) = (if b then [None] else [])"
| "value_items (OptValue None) = []"
| "value_items (OptValue (Some v)) = value_items v"

definition attr_items :: "attrs \<Rightarrow> (string \<times> string option) list" where
  "attr_items as = concat (map (\<lambda>(k, v). map (Pair k) (value_items v)) as)"

lemma value_items_html: "value_html esc v k = concat (map (attr_markup esc) (map (Pair k) (value_items v)))"
  by (induction esc v k rule: value_html.induct) (auto simp: attr_markup_def)

lemma attr_items_html: "attrs_html esc as = concat (map (attr_markup esc) (attr_items as))"
  by (induction esc as rule: attrs_html.induct) (auto simp: attr_items_def value_items_html)

text \<open>The nodes of a view, from a position, and the position after them.\<close>

definition separated :: "hydration_position \<Rightarrow> string \<Rightarrow> html list" where
  "separated pos s = (if pos = NextChildAfterText then [CommentH []] else []) @ [TextH s]"

fun served :: "view \<Rightarrow> hydration_position \<Rightarrow> html list \<times> hydration_position"
and served_all :: "view list \<Rightarrow> hydration_position \<Rightarrow> html list \<times> hydration_position" where
  "served (TextView s) pos = (separated pos (if s = [] then '' '' else s), NextChildAfterText)"
| "served (PrimView lit s) pos = (separated pos s, NextChildAfterText)"
| "served UnitView pos = ([CommentH []], NextChild)"
| "served (TupleView vs) pos = served_all vs pos"
| "served (ArrayView vs) pos = served_all vs pos"
| "served (EitherView n i v) pos = served v pos"
| "served (VecView vs) pos = (fst (served_all vs pos) @ [CommentH []], NextChild)"
| "served (AnyView t v) pos =
     (fst (served v pos) @ (if view_exists v then [] else [CommentH ''<() />'']), snd (served v pos))"
| "served (ElementView et tag as ch) pos =
     ([ElementH tag (attr_items as)
         (if self_closing et \<or> \<not> view_exists ch then [] else fst (served ch FirstChild))],
      NextChild)"
| "served_all [] pos = ([], pos)"
| "served_all (v # vs) pos =
     (fst (served v pos) @ fst (served_all vs (snd (served v pos))),
      snd (served_all vs (snd (served v pos))))"

section \<open>Plain pages\<close>

text \<open>
  The forests a browser reads back from their markup: the texts are not empty, no two stand next to
  each other, and they have none of the characters that a parser replaces; the elements are ordinary
  ones (no script, form or select), or have no content.
\<close>

definition plain_text :: "string \<Rightarrow> bool" where
  "plain_text s \<longleftrightarrow> (\<forall>c\<in>set s. c \<noteq> CHR 0x00 \<and> c \<noteq> CHR 0x0D)"

definition plain_comment :: "string \<Rightarrow> bool" where
  "plain_comment c \<longleftrightarrow> c = [] \<or> c = ''<() />''"

definition name_char :: "char \<Rightarrow> bool" where
  "name_char c \<longleftrightarrow> c \<in> set ''abcdefghijklmnopqrstuvwxyz0123456789-''"

definition plain_name :: "string \<Rightarrow> bool" where
  "plain_name s \<longleftrightarrow> s \<noteq> [] \<and> hd s \<in> set ''abcdefghijklmnopqrstuvwxyz'' \<and> (\<forall>c\<in>set s. name_char c)"

definition nesting_tags :: "string list" where
  "nesting_tags = [''div'', ''span'', ''section'', ''article'', ''main'', ''header'', ''footer'', ''nav'',
     ''aside'', ''figure'', ''ul'', ''ol'', ''blockquote'', ''cite'', ''label'', ''output'',
     ''p'', ''h1'', ''h2'', ''h3'', ''h4'', ''h5'', ''h6'', ''li'', ''a'', ''button'', ''strong'', ''em'', ''b'', ''i'', ''code'', ''small'',
     ''table'', ''thead'', ''tbody'', ''tfoot'', ''tr'', ''th'', ''td'']"

definition plain_tag :: "string \<Rightarrow> bool" where
  "plain_tag t \<longleftrightarrow> plain_name t \<and> (t \<in> set nesting_tags \<or> CHR ''-'' \<in> set t)"

definition plain_void :: "string \<Rightarrow> bool" where
  "plain_void t \<longleftrightarrow> t \<in> set [''br'', ''img'', ''input'', ''wbr'', ''hr'']"

fun is_text :: "html \<Rightarrow> bool" where
  "is_text (TextH s) = True"
| "is_text other = False"

definition plain_attrs :: "(string \<times> string option) list \<Rightarrow> bool" where
  "plain_attrs as \<longleftrightarrow>
     distinct (map fst as) \<and>
     (\<forall>(k, s)\<in>set as. plain_name k \<and> (case s of None \<Rightarrow> True | Some t \<Rightarrow> plain_text t))"

fun plain_html :: "html \<Rightarrow> bool"
and plain_forest :: "html list \<Rightarrow> bool" where
  "plain_html (ElementH tag as kids) =
     ((plain_tag tag \<and> plain_forest kids \<or> plain_void tag \<and> kids = []) \<and> plain_attrs as)"
| "plain_html (TextH s) = (s \<noteq> [] \<and> plain_text s)"
| "plain_html (CommentH c) = plain_comment c"
| "plain_forest [] = True"
| "plain_forest (x # xs) =
     (plain_html x \<and> plain_forest xs \<and> \<not> (is_text x \<and> xs \<noteq> [] \<and> is_text (hd xs)))"

text \<open>
  Where a start tag leaves the open elements (innermost first) alone: a block or a heading would end an
  open paragraph, a heading another one, a link or a button one that is open, an item of a list the
  item it stands in; a table has its parts and nothing else.
\<close>

definition closes_paragraph :: "string list" where
  "closes_paragraph = [''div'', ''section'', ''article'', ''main'', ''header'', ''footer'', ''nav'', ''aside'', ''figure'',
     ''ul'', ''ol'', ''li'', ''blockquote'', ''p'', ''h1'', ''h2'', ''h3'', ''h4'', ''h5'', ''h6'', ''table'', ''hr'']"

definition headings :: "string list" where
  "headings = [''h1'', ''h2'', ''h3'', ''h4'', ''h5'', ''h6'']"

definition table_part :: "string \<Rightarrow> string list" where
  "table_part parent =
     (if parent = ''table'' then [''thead'', ''tbody'', ''tfoot'']
      else if parent \<in> set [''thead'', ''tbody'', ''tfoot''] then [''tr'']
      else if parent = ''tr'' then [''th'', ''td''] else [])"

definition may_stand :: "string list \<Rightarrow> string \<Rightarrow> bool" where
  "may_stand stack tag \<longleftrightarrow>
     (if stack \<noteq> [] \<and> table_part (hd stack) \<noteq> [] then tag \<in> set (table_part (hd stack))
      else tag \<notin> set [''thead'', ''tbody'', ''tfoot'', ''tr'', ''th'', ''td'']) \<and>
     (tag \<in> set closes_paragraph \<longrightarrow> ''p'' \<notin> set stack) \<and>
     (tag \<in> set headings \<longrightarrow> set stack \<inter> set headings = {}) \<and>
     (tag \<in> set [''a'', ''button''] \<longrightarrow> tag \<notin> set stack) \<and>
     (tag = ''li'' \<longrightarrow> stack \<noteq> [] \<and> hd stack \<in> set [''ul'', ''ol''])"

fun nests :: "string list \<Rightarrow> html \<Rightarrow> bool"
and nests_all :: "string list \<Rightarrow> html list \<Rightarrow> bool" where
  "nests stack (ElementH tag as kids) = (may_stand stack tag \<and> nests_all (tag # stack) kids)"
| "nests stack (TextH s) = (stack = [] \<or> table_part (hd stack) = [])"
| "nests stack (CommentH c) = True"
| "nests_all stack [] = True"
| "nests_all stack (x # xs) = (nests stack x \<and> nests_all stack xs)"

lemma plain_forest_append:
  "plain_forest (xs @ ys) \<longleftrightarrow>
     plain_forest xs \<and> plain_forest ys \<and>
     \<not> (xs \<noteq> [] \<and> ys \<noteq> [] \<and> is_text (last xs) \<and> is_text (hd ys))"
  by (induction xs) (auto simp: hd_append)

text \<open>
  What is relied on of the browser and of the escaping: the parser reads a plain and well nested
  forest back from its markup, and escaping leaves a text alone that has no character to escape.
\<close>

definition reads_markup :: "escaping \<Rightarrow> (string \<Rightarrow> html list) \<Rightarrow> bool" where
  "reads_markup esc parse \<longleftrightarrow>
     (\<forall>f. plain_forest f \<and> nests_all [] f \<longrightarrow> parse (markup_all esc f) = f) \<and>
     (\<forall>s. set s \<inter> set ''<>&'' = {} \<longrightarrow> encode_text esc s = s)"

text \<open>The views whose HTML is plain, and hydrated in full.\<close>

fun plain_view :: "view \<Rightarrow> bool" where
  "plain_view (TextView s) = plain_text s"
| "plain_view (PrimView lit s) =
     (s \<noteq> [] \<and> plain_text s \<and> (lit \<or> set s \<inter> set ''<>&'' = {}))"
| "plain_view UnitView = True"
| "plain_view (TupleView vs) = list_all plain_view vs"
| "plain_view (ArrayView vs) = list_all plain_view vs"
| "plain_view (EitherView n i v) = plain_view v"
| "plain_view (VecView vs) = list_all plain_view vs"
| "plain_view (AnyView t v) = plain_view v"
| "plain_view (ElementView et tag as ch) =
     (namespace et = None \<and> escape_children et \<and> plain_attrs (attr_items as) \<and>
      (if self_closing et then plain_void tag \<and> ch = UnitView
       else plain_tag tag \<and> plain_view ch))"

text \<open>The elements of a view stand, in its HTML, where the parser leaves them.\<close>

definition well_nested :: "view \<Rightarrow> bool" where
  "well_nested v \<longleftrightarrow> nests_all [] (fst (served v FirstChild))"

lemma plain_tag_not_void: "plain_tag t \<Longrightarrow> t \<notin> set void_tags"
  by (auto simp: plain_tag_def nesting_tags_def void_tags_def)

lemma plain_void_void: "plain_void t \<Longrightarrow> t \<in> set void_tags"
  by (auto simp: plain_void_def void_tags_def)

lemma plain_void_name: "plain_void tag \<Longrightarrow> plain_name tag"
proof -
  have "\<forall>t\<in>set [''br'', ''img'', ''input'', ''wbr'', ''hr'']. plain_name t"
    by code_simp
  then show "plain_void tag \<Longrightarrow> plain_name tag"
    unfolding plain_void_def by blast
qed

text \<open>The HTML of a view is the markup of its nodes.\<close>

lemma to_html_markup:
  assumes "reads_markup esc parse"
  shows "plain_view v \<Longrightarrow> to_html esc None v pos True = (markup_all esc (fst (served v pos)), snd (served v pos))"
    and "list_all plain_view vs \<Longrightarrow>
      to_html_all esc None vs pos True = (markup_all esc (fst (served_all vs pos)), snd (served_all vs pos))"
proof (induction v pos and vs pos rule: served_served_all.induct)
  case (1 s pos)
  have "encode_text esc '' '' = '' ''"
    using assms by (simp add: reads_markup_def)
  then show ?case
    by (simp add: text_separator_def separated_def)
next
  case (2 lit s pos)
  then show ?case
    using assms by (auto simp: text_separator_def separated_def reads_markup_def)
next
  case (9 et tag as ch pos)
  then show ?case
    using plain_tag_not_void[of tag] plain_void_void[of tag]
    by (auto simp: attr_items_html)
qed (auto simp: mark_branch_def split: prod.splits)

text \<open>The nodes of a plain view are plain: a text never stands next to another.\<close>

definition fits :: "hydration_position \<Rightarrow> html list \<Rightarrow> hydration_position \<Rightarrow> bool" where
  "fits pos f pos' \<longleftrightarrow>
     plain_forest f \<and> (f \<noteq> [] \<and> pos = NextChildAfterText \<longrightarrow> \<not> is_text (hd f)) \<and>
     (f \<noteq> [] \<and> is_text (last f) \<longrightarrow> pos' = NextChildAfterText) \<and> (f = [] \<longrightarrow> pos' = pos)"

lemma fits_append: "fits pos f pos1 \<Longrightarrow> fits pos1 g pos2 \<Longrightarrow> fits pos (f @ g) pos2"
  by (cases "f = []"; cases "g = []") (auto simp: fits_def plain_forest_append)

lemma fits_comment: "plain_comment c \<Longrightarrow> fits pos [CommentH c] NextChild"
  and fits_more: "fits pos f pos1 \<Longrightarrow> f \<noteq> [] \<Longrightarrow> plain_comment c \<Longrightarrow> fits pos (f @ [CommentH c]) pos2"
  by (auto simp: fits_def plain_forest_append)

lemma fits_text: "s \<noteq> [] \<Longrightarrow> plain_text s \<Longrightarrow> fits pos (separated pos s) NextChildAfterText"
  by (auto simp: fits_def separated_def plain_comment_def)

lemma plain_comments: "plain_comment []" "plain_comment ''<() />''"
  by (simp_all add: plain_comment_def)

lemma served_fits:
  "plain_view v \<Longrightarrow> fits pos (fst (served v pos)) (snd (served v pos))"
  "list_all plain_view vs \<Longrightarrow> fits pos (fst (served_all vs pos)) (snd (served_all vs pos))"
proof (induction v pos and vs pos rule: served_served_all.induct)
  case (1 s pos)
  then show ?case
    using fits_text[of "if s = [] then '' '' else s" pos] by (simp add: plain_text_def split: if_splits)
next
  case (7 vs pos)
  then show ?case
    using fits_append[OF _ fits_comment[OF plain_comments(1)]] by simp
next
  case (8 t v pos)
  then show ?case
    by (auto simp: fits_def plain_forest_append plain_comments hd_append)
next
  case (9 et tag as ch pos)
  then show ?case
    by (auto simp: fits_def split: if_splits)
next
  case (11 v vs pos)
  then show ?case
    using fits_append[of pos "fst (served v pos)" "snd (served v pos)"] by simp
qed (auto simp: fits_text fits_comment plain_comments, simp add: fits_def)

lemma served_plain: "plain_view v \<Longrightarrow> plain_forest (fst (served v pos))"
  using served_fits(1) by (simp add: fits_def)

end
