(* ===== verification/View_Hydrate.thy ===== *)
theory View_Hydrate
  imports View_Html
begin

text \<open>
  Hydration: the walk over the nodes that the server rendered (\<^verbatim>\<open>halyard_tachys/src/hydration.rs\<close> and
  the \<^verbatim>\<open>hydrate\<close> functions of the views).

  A \<open>walk\<close> is a cursor with the position and the flag that says that hydration has failed, together
  with the page. The feature that makes the cursor skip branch markers is a parameter (\<open>skip\<close>), and
  so is \<^verbatim>\<open>FROM_SERVER\<close>. The node that a failed cursor returns, which can be cast to nothing, is
  \<open>None\<close>.
\<close>

section \<open>The cursor\<close>

record walk =
  page :: document
  cursor :: nat
  at_position :: hydration_position
  failed :: bool

definition starts_with_text :: "string \<Rightarrow> string \<Rightarrow> bool" where
  "starts_with_text p s = (take (length p) s = p)"

fun is_branch_marker :: "dom_node \<Rightarrow> bool" where
  "is_branch_marker (CommentN c) = (starts_with_text ''bo'' c \<or> starts_with_text ''bc'' c)"
| "is_branch_marker other = False"

text \<open>The loop over branch markers: \<open>xs\<close> are the siblings after \<open>n\<close>.\<close>

fun skip_markers :: "document \<Rightarrow> nat \<Rightarrow> nat list \<Rightarrow> nat" where
  "skip_markers h n [] = n"
| "skip_markers h n (x # xs) =
     (if is_branch_marker (nodes h n) then skip_markers h x xs else n)"

definition siblings_after :: "nat \<Rightarrow> document \<Rightarrow> nat list" where
  "siblings_after n h =
     (case parent_node h n of
        None \<Rightarrow> []
      | Some p \<Rightarrow> tl (dropWhile (\<lambda>x. x \<noteq> n) (child_nodes h p)))"

definition past_markers :: "bool \<Rightarrow> document \<Rightarrow> nat \<Rightarrow> nat" where
  "past_markers skip h n = (if skip then skip_markers h n (siblings_after n h) else n)"

definition cursor_child :: "bool \<Rightarrow> walk \<Rightarrow> walk" where
  "cursor_child skip w =
     (if failed w then w
      else w\<lparr>cursor := past_markers skip (page w)
               (case first_child (cursor w) (page w) of None \<Rightarrow> cursor w | Some n \<Rightarrow> n)\<rparr>)"

definition cursor_sibling :: "bool \<Rightarrow> walk \<Rightarrow> walk" where
  "cursor_sibling skip w =
     (if failed w then w
      else w\<lparr>cursor := past_markers skip (page w)
               (case next_sibling (cursor w) (page w) of None \<Rightarrow> cursor w | Some n \<Rightarrow> n)\<rparr>)"

definition cursor_set :: "nat \<Rightarrow> walk \<Rightarrow> walk" where
  "cursor_set n w = (if failed w then w else w\<lparr>cursor := n\<rparr>)"

definition cursor_current :: "walk \<Rightarrow> nat option" where
  "cursor_current w = (if failed w then None else Some (cursor w))"

definition cursor_cast :: "(dom_node \<Rightarrow> bool) \<Rightarrow> walk \<Rightarrow> nat option" where
  "cursor_cast ok w =
     (case cursor_current w of
        None \<Rightarrow> None
      | Some n \<Rightarrow> if ok (nodes (page w) n) then Some n else None)"

text \<open>What the views have in common: to the child from the first position, else to the sibling.\<close>

definition advance :: "bool \<Rightarrow> walk \<Rightarrow> walk" where
  "advance skip w =
     (if at_position w = FirstChild then cursor_child skip w else cursor_sibling skip w)"

definition advance_to_placeholder :: "bool \<Rightarrow> walk \<Rightarrow> walk" where
  "advance_to_placeholder skip w = (advance skip w)\<lparr>at_position := NextChild\<rparr>"

text \<open>A mismatch is reported, hydration has then failed, and a new node stands in.\<close>

definition failed_to_cast :: "nat \<times> document \<Rightarrow> walk \<Rightarrow> nat \<times> walk" where
  "failed_to_cast made w = (fst made, w\<lparr>failed := True, page := snd made\<rparr>)"

definition next_placeholder :: "bool \<Rightarrow> walk \<Rightarrow> nat \<times> walk" where
  "next_placeholder skip w =
     (let w1 = advance_to_placeholder skip w
      in case cursor_cast is_comment_node w1 of
           Some n \<Rightarrow> (n, w1)
         | None \<Rightarrow> failed_to_cast (create_placeholder (page w1)) w1)"

section \<open>Hydrating views\<close>

definition hydrate_text :: "bool \<Rightarrow> bool \<Rightarrow> string \<Rightarrow> walk \<Rightarrow> view_state \<times> walk" where
  "hydrate_text skip from_server s w =
     (let w1 = advance skip w;
          w2 = (if at_position w = NextChildAfterText then cursor_sibling skip w1 else w1);
          (n, w3) = (case cursor_cast is_text_node w2 of
                       Some n \<Rightarrow> (n, w2)
                     | None \<Rightarrow> failed_to_cast (create_text_node [] (page w2)) w2);
          w4 = (if from_server then w3 else w3\<lparr>page := set_text n s (page w3)\<rparr>)
      in (TextState n s, w4\<lparr>at_position := NextChildAfterText\<rparr>))"

definition hydrate_build :: "view \<Rightarrow> walk \<Rightarrow> view_state \<times> walk" where
  "hydrate_build v w = (let (st, h) = build v (page w) in (st, w\<lparr>page := h\<rparr>))"

definition hydrate_element_node :: "bool \<Rightarrow> element_type \<Rightarrow> walk \<Rightarrow> nat \<times> walk" where
  "hydrate_element_node skip et w =
     (let w1 = (if at_position w = FirstChild then cursor_child skip w
                else if at_position w \<noteq> Current then cursor_sibling skip w else w)
      in case cursor_cast is_element_node w1 of
           Some n \<Rightarrow> (n, w1)
         | None \<Rightarrow> failed_to_cast (create_element (const_tag et) None (page w1)) w1)"

fun hydrate :: "bool \<Rightarrow> bool \<Rightarrow> view \<Rightarrow> walk \<Rightarrow> view_state \<times> walk"
and hydrate_all :: "bool \<Rightarrow> bool \<Rightarrow> view list \<Rightarrow> walk \<Rightarrow> view_state list \<times> walk" where
  "hydrate skip from_server (TextView s) w = hydrate_text skip from_server s w"
| "hydrate skip from_server (PrimView lit s) w = hydrate_text skip from_server s w"
| "hydrate skip from_server UnitView w =
     (let (n, w1) = next_placeholder skip w
      in (PlaceholderState n, w1\<lparr>at_position := NextChild\<rparr>))"
| "hydrate skip from_server (TupleView vs) w =
     (let (sts, w1) = hydrate_all skip from_server vs w in (TupleState sts, w1))"
| "hydrate skip from_server (ArrayView vs) w =
     (let (sts, w1) = hydrate_all skip from_server vs w in (ArrayState sts, w1))"
| "hydrate skip from_server (EitherView n i v) w =
     (let (st, w1) = hydrate skip from_server v w in (EitherState i st, w1))"
| "hydrate skip from_server (VecView vs) w =
     (let (sts, w1) = hydrate_all skip from_server vs w;
          (n, w2) = next_placeholder skip w1
      in (VecState sts n, w2\<lparr>at_position := NextChild\<rparr>))"
| "hydrate skip from_server (AnyView t v) w =
     (if from_server then
        let (st, w1) = hydrate skip from_server v w
        in if view_exists v then (AnyState t st None, w1)
           else let (n, w2) = next_placeholder skip w1 in (AnyState t st (Some n), w2)
      else hydrate_build (AnyView t v) w)"
| "hydrate skip from_server (ElementView et tag as ch) w =
     (if const_tag et = [] \<and> \<not> from_server then hydrate_build (ElementView et tag as ch) w
      else
        let (el, w1) = hydrate_element_node skip et w;
            (sts, h1) = attrs_hydrate from_server as el (page w1);
            w2 = w1\<lparr>page := h1\<rparr>;
            (c, w3) = (if \<not> view_exists ch \<or> \<not> escape_children et then (None, w2)
                       else let (st, w4) = hydrate skip from_server ch (w2\<lparr>at_position := FirstChild\<rparr>)
                            in (Some st, w4))
        in (ElementState el sts c, (cursor_set el w3)\<lparr>at_position := NextChild\<rparr>))"
| "hydrate_all skip from_server [] w = ([], w)"
| "hydrate_all skip from_server (v # vs) w =
     (let (st, w1) = hydrate skip from_server v w;
          (sts, w2) = hydrate_all skip from_server vs w1
      in (st # sts, w2))"

text \<open>\<^verbatim>\<open>RenderHtml::hydrate_from\<close>, with the flag cleared.\<close>

definition hydrate_from :: "bool \<Rightarrow> bool \<Rightarrow> view \<Rightarrow> nat \<Rightarrow> document \<Rightarrow> view_state \<times> walk" where
  "hydrate_from skip from_server v root h =
     hydrate skip from_server v
       \<lparr>page = h, cursor = root, at_position = FirstChild, failed = False\<rparr>"

section \<open>On any page\<close>

text \<open>Old nodes are as they were; nodes may have been created.\<close>

definition grown :: "document \<Rightarrow> document \<Rightarrow> bool" where
  "grown h h' \<longleftrightarrow>
     next_node h \<le> next_node h' \<and>
     (\<forall>x<next_node h. nodes h' x = nodes h x \<and> parent_node h' x = parent_node h x \<and>
        child_nodes h' x = child_nodes h x)"

lemma grown_refl [simp]: "grown h h"
  by (simp add: grown_def)

lemma grown_trans: "grown h h1 \<Longrightarrow> grown h1 h2 \<Longrightarrow> grown h h2"
  by (fastforce simp: grown_def)

lemma grown_create: "grown h (snd (create_node k h))"
  by (simp add: grown_def create_node_def)

lemma page_moves [simp]:
  "page (cursor_child skip w) = page w" "page (cursor_sibling skip w) = page w"
  "page (cursor_set n w) = page w" "page (advance skip w) = page w"
  "page (advance_to_placeholder skip w) = page w"
  by (simp_all add: cursor_child_def cursor_sibling_def cursor_set_def advance_def
      advance_to_placeholder_def)

lemma failed_moves [simp]:
  "failed (cursor_child skip w) = failed w" "failed (cursor_sibling skip w) = failed w"
  "failed (cursor_set n w) = failed w" "failed (advance skip w) = failed w"
  "failed (advance_to_placeholder skip w) = failed w"
  by (simp_all add: cursor_child_def cursor_sibling_def cursor_set_def advance_def
      advance_to_placeholder_def)

lemma next_placeholder_grown: "grown (page w) (page (snd (next_placeholder skip w)))"
  by (auto simp: next_placeholder_def Let_def failed_to_cast_def create_placeholder_def grown_create
      split: option.splits)

lemma hydrate_text_grown: "grown (page w) (page (snd (hydrate_text skip True s w)))"
  by (auto simp: hydrate_text_def Let_def failed_to_cast_def create_text_node_def grown_create
      split: option.splits)

lemma hydrate_element_grown: "grown (page w) (page (snd (hydrate_element_node skip et w)))"
  by (auto simp: hydrate_element_node_def Let_def failed_to_cast_def create_element_def grown_create
      split: option.splits)

lemma hydrate_grown:
  "grown (page w) (page (snd (hydrate skip True v w)))"
  "grown (page w) (page (snd (hydrate_all skip True vs w)))"
proof (induction skip True v w and skip True vs w rule: hydrate_hydrate_all.induct)
  case (1 skip s w)
  then show ?case
    by (simp add: hydrate_text_grown)
next
  case (2 skip lit s w)
  then show ?case
    by (simp add: hydrate_text_grown)
next
  case (3 skip w)
  then show ?case
    using next_placeholder_grown[of w skip] by (simp add: case_prod_beta)
next
  case (7 skip vs w)
  then show ?case
    using next_placeholder_grown[of "snd (hydrate_all skip True vs w)" skip]
    by (auto simp: case_prod_beta intro: grown_trans)
next
  case (8 skip t v w)
  then show ?case
    using next_placeholder_grown[of "snd (hydrate skip True v w)" skip]
    by (auto simp: case_prod_beta intro: grown_trans)
next
  case (9 skip et tag as ch w)
  let ?w1 = "snd (hydrate_element_node skip et w)"
  have "view_exists ch \<and> escape_children et \<Longrightarrow>
      grown (page ?w1) (page (snd (hydrate skip True ch (?w1\<lparr>at_position := FirstChild\<rparr>))))"
    using 9(1)[of "hydrate_element_node skip et w" "fst (hydrate_element_node skip et w)" ?w1
        "(attrs_states (fst (hydrate_element_node skip et w)) as, page ?w1)"] by simp
  then show ?case
    using hydrate_element_grown[of w skip et] by (auto simp: case_prod_beta intro: grown_trans)
next
  case (11 skip v vs w)
  have "grown (page (snd (hydrate skip True v w)))
      (page (snd (hydrate_all skip True vs (snd (hydrate skip True v w)))))"
    using 11(2)[of "hydrate skip True v w" "fst (hydrate skip True v w)" "snd (hydrate skip True v w)"] by simp
  then show ?case
    using grown_trans[OF 11(1)] by (simp add: case_prod_beta)
qed (auto simp: case_prod_beta)

lemma value_state_typed: "value_typed v t \<Longrightarrow> attr_state_typed (value_state el v) t"
  by (induction v t rule: value_typed.induct) auto

lemma attrs_states_typed: "attrs_typed as ts \<Longrightarrow> attr_states_typed (attrs_states el as) ts"
  by (induction as ts rule: attrs_typed.induct) (auto simp: value_state_typed)

lemma hydrate_typed:
  "view_typed v t \<Longrightarrow> state_typed (fst (hydrate skip True v w)) t"
  "views_typed vs ts \<Longrightarrow> states_typed (fst (hydrate_all skip True vs w)) ts \<and>
    length (fst (hydrate_all skip True vs w)) = length vs"
proof (induction skip True v w and skip True vs w arbitrary: t and ts rule: hydrate_hydrate_all.induct)
  case (9 skip et tag as ch w)
  let ?w1 = "snd (hydrate_element_node skip et w)"
  from 9(2) obtain ats u where t: "t = ElementType et ats u" "attrs_typed as ats" "view_typed ch u"
    by (auto split: view_type.splits)
  have "view_exists ch \<and> escape_children et \<Longrightarrow>
      state_typed (fst (hydrate skip True ch (?w1\<lparr>at_position := FirstChild\<rparr>))) u"
    using 9(1)[of "hydrate_element_node skip et w" "fst (hydrate_element_node skip et w)" ?w1
        "(attrs_states (fst (hydrate_element_node skip et w)) as, page ?w1)"] t(3) by simp
  then show ?case
    using t by (auto simp: case_prod_beta attrs_states_typed)
next
  case (11 skip v vs w)
  then show ?case
    using 11(2)[of "hydrate skip True v w" "fst (hydrate skip True v w)" "snd (hydrate skip True v w)"]
    by (auto simp: case_prod_beta split: list.splits)
qed (auto simp: hydrate_text_def Let_def case_prod_beta split: view_type.splits)


text \<open>C16. Hydration only reads what the server sent. On any page whatever, whether it fits the view or
  not, and with or without branch markers, hydrating a view changes no node that was there: not
  its text or attributes, not its place, not its children. All that can happen is that new nodes
  are created that stand nowhere.\<close>

theorem hydration_changes_nothing:
  "grown h (page (snd (hydrate_from skip True v root h)))"
  using hydrate_grown(1)[of "\<lparr>page = h, cursor = root, at_position = FirstChild, failed = False\<rparr>"]
  by (simp add: hydrate_from_def)

end
