(* ===== verification/View_Place.thy ===== *)
theory View_Place
  imports View_Types
begin

text \<open>
  What it means that a state shows a view at a place of the page, and what mounting and unmounting
  do to the list of children there.

  \<open>roots st\<close> are the nodes of a state that stand among the children of its parent, in order;
  \<open>owned st\<close> are all nodes the state keeps. A page from the server also holds separators, which no
  state keeps: they are the set \<open>J\<close>, and \<open>own_children\<close> are the children that are not in it.
\<close>

section \<open>The nodes of a state\<close>

fun roots :: "view_state \<Rightarrow> nat list"
and roots_all :: "view_state list \<Rightarrow> nat list" where
  "roots (TextState n s) = [n]"
| "roots (PlaceholderState n) = [n]"
| "roots (TupleState sts) = roots_all sts"
| "roots (ArrayState sts) = roots_all sts"
| "roots (EitherState i st) = roots st"
| "roots (VecState sts n) = roots_all sts @ [n]"
| "roots (AnyState t st ph) = roots st @ (case ph of None \<Rightarrow> [] | Some n \<Rightarrow> [n])"
| "roots (ElementState el as ch) = [el]"
| "roots_all [] = []"
| "roots_all (st # sts) = roots st @ roots_all sts"

fun owned :: "view_state \<Rightarrow> nat list"
and owned_all :: "view_state list \<Rightarrow> nat list" where
  "owned (TextState n s) = [n]"
| "owned (PlaceholderState n) = [n]"
| "owned (TupleState sts) = owned_all sts"
| "owned (ArrayState sts) = owned_all sts"
| "owned (EitherState i st) = owned st"
| "owned (VecState sts n) = owned_all sts @ [n]"
| "owned (AnyState t st ph) = owned st @ (case ph of None \<Rightarrow> [] | Some n \<Rightarrow> [n])"
| "owned (ElementState el as ch) = el # (case ch of None \<Rightarrow> [] | Some c \<Rightarrow> owned c)"
| "owned_all [] = []"
| "owned_all (st # sts) = owned st @ owned_all sts"

lemma roots_owned:
  "set (roots st) \<subseteq> set (owned st)"
  "set (roots_all sts) \<subseteq> set (owned_all sts)"
  by (induction st and sts rule: roots_roots_all.induct) (auto split: option.splits)

lemma distinct_roots:
  "distinct (owned st) \<Longrightarrow> distinct (roots st)"
  "distinct (owned_all sts) \<Longrightarrow> distinct (roots_all sts)"
  using roots_owned
  by (induction st and sts rule: roots_roots_all.induct) (auto split: option.splits, blast+)

text \<open>Mounting and unmounting are done root by root.\<close>

lemma mount_roots:
  "mount st p m h = fold (\<lambda>n. insert_node p n m) (roots st) h"
  "mount_all sts p m h = fold (\<lambda>n. insert_node p n m) (roots_all sts) h"
  by (induction st p m h and sts p m h rule: mount_mount_all.induct) (auto split: option.splits)

lemma unmount_roots:
  "unmount st h = fold detach (roots st) h"
  "unmount_all sts h = fold detach (roots_all sts) h"
  by (induction st h and sts h rule: unmount_unmount_all.induct) (auto split: option.splits)

lemma insert_before_roots:
  "(\<And>n. n \<in> set (roots st) \<Longrightarrow> parent_element n h = Some p) \<Longrightarrow>
    insert_before_state st child h =
      (if roots st = [] then (False, h) else (True, mount child p (Some (hd (roots st))) h))"
  "(\<And>n. n \<in> set (roots_all sts) \<Longrightarrow> parent_element n h = Some p) \<Longrightarrow>
    insert_before_first sts child h =
      (if roots_all sts = [] then (False, h) else (True, mount child p (Some (hd (roots_all sts))) h))"
  by (induction st child h and sts child h rule: insert_before_state_insert_before_first.induct)
     (auto simp: insert_before_one_def split: option.splits, fastforce)

section \<open>Inserting and removing lists of nodes\<close>

text \<open>The page after the nodes of \<open>R\<close> became children of \<open>p\<close>, of which \<open>xs\<close> are then the children.\<close>

definition adopted :: "nat \<Rightarrow> nat list \<Rightarrow> nat list \<Rightarrow> document \<Rightarrow> document" where
  "adopted p R xs h =
     h\<lparr>child_nodes := (child_nodes h)(p := xs),
       parent_node := (\<lambda>n. if n \<in> set R then Some p else parent_node h n)\<rparr>"

definition orphaned :: "nat \<Rightarrow> nat list \<Rightarrow> nat list \<Rightarrow> document \<Rightarrow> document" where
  "orphaned p R xs h =
     h\<lparr>child_nodes := (child_nodes h)(p := xs),
       parent_node := (\<lambda>n. if n \<in> set R then None else parent_node h n)\<rparr>"

lemma adopted_simps [simp]:
  "nodes (adopted p R xs h) = nodes h"
  "next_node (adopted p R xs h) = next_node h"
  "child_nodes (adopted p R xs h) n = (if n = p then xs else child_nodes h n)"
  "parent_node (adopted p R xs h) n = (if n \<in> set R then Some p else parent_node h n)"
  "adopted p [] (child_nodes h p) h = h"
  by (simp_all add: adopted_def)

lemma orphaned_simps [simp]:
  "nodes (orphaned p R xs h) = nodes h"
  "next_node (orphaned p R xs h) = next_node h"
  "child_nodes (orphaned p R xs h) n = (if n = p then xs else child_nodes h n)"
  "parent_node (orphaned p R xs h) n = (if n \<in> set R then None else parent_node h n)"
  "orphaned p [] (child_nodes h p) h = h"
  by (simp_all add: orphaned_def)

lemma adopted_twice:
  "adopted p R ys (adopted p [n] xs h) = adopted p (n # R) ys h"
  by (auto simp: adopted_def fun_eq_iff)

lemma orphaned_twice:
  "orphaned p R ys (orphaned p [n] xs h) = orphaned p (n # R) ys h"
  by (auto simp: orphaned_def fun_eq_iff)

lemma adopted_one:
  "adopted p [n] xs h =
    h\<lparr>child_nodes := (child_nodes h)(p := xs), parent_node := (parent_node h)(n := Some p)\<rparr>"
  by (simp add: adopted_def fun_upd_def)

lemma orphaned_one:
  "orphaned p [n] xs h =
    h\<lparr>child_nodes := (child_nodes h)(p := xs), parent_node := (parent_node h)(n := None)\<rparr>"
  by (simp add: orphaned_def fun_upd_def)

lemma put_child_simps [simp]:
  "put_child p n None xs = xs @ [n]"
  "put_child p n (Some a) xs = put_before n a xs"
  by (simp_all add: put_child_def)

lemma put_before_split: "a \<notin> set xs \<Longrightarrow> put_before n a (xs @ a # ys) = xs @ n # a # ys"
  by (induction xs) (auto simp: put_before_def)

lemma insert_node_before:
  assumes "parent_node h n = None" "parent_node h a = Some p"
    "child_nodes h p = xs @ a # ys" "a \<notin> set xs"
  shows "insert_node p n (Some a) h = adopted p [n] (xs @ n # a # ys) h"
proof -
  have "n \<noteq> a"
    using assms by auto
  then show ?thesis
    using assms
    by (auto simp: insert_node_def insert_before_node_def detach_def adopted_one put_before_split)
qed

lemma insert_node_last:
  assumes "parent_node h n = None"
  shows "insert_node p n None h = adopted p [n] (child_nodes h p @ [n]) h"
  using assms
  by (auto simp: insert_node_def insert_before_node_def detach_def adopted_one)

lemma insert_nodes_before:
  assumes "\<And>n. n \<in> set R \<Longrightarrow> parent_node h n = None" "distinct R" "parent_node h a = Some p"
    "child_nodes h p = xs @ a # ys" "a \<notin> set xs"
  shows "fold (\<lambda>n. insert_node p n (Some a)) R h = adopted p R (xs @ R @ a # ys) h"
  using assms
proof (induction R arbitrary: xs h)
  case Nil
  then show ?case
    using adopted_simps(5)[of p h] by simp
next
  case (Cons n R)
  have "n \<noteq> a"
    using Cons(2,4) by auto
  then have "fold (\<lambda>n. insert_node p n (Some a)) R (adopted p [n] (xs @ n # a # ys) h) =
      adopted p R ((xs @ [n]) @ R @ a # ys) (adopted p [n] (xs @ n # a # ys) h)"
    using Cons by (intro Cons(1)) auto
  then show ?case
    using Cons by (simp add: insert_node_before adopted_twice)
qed

lemma insert_nodes_last:
  assumes "\<And>n. n \<in> set R \<Longrightarrow> parent_node h n = None" "distinct R"
  shows "fold (\<lambda>n. insert_node p n None) R h = adopted p R (child_nodes h p @ R) h"
  using assms
proof (induction R arbitrary: h)
  case (Cons n R)
  have "fold (\<lambda>n. insert_node p n None) R (adopted p [n] (child_nodes h p @ [n]) h) =
      adopted p R ((child_nodes h p @ [n]) @ R) (adopted p [n] (child_nodes h p @ [n]) h)"
    using Cons by (subst Cons(1)) auto
  then show ?case
    using Cons by (simp add: insert_node_last adopted_twice)
qed simp

lemma detach_child:
  assumes "parent_node h n = Some p"
  shows "detach n h = orphaned p [n] (removeAll n (child_nodes h p)) h"
  using assms by (simp add: detach_def orphaned_one)

lemma detach_children:
  assumes "\<And>n. n \<in> set R \<Longrightarrow> parent_node h n = Some p" "distinct R"
  shows "fold detach R h = orphaned p R (filter (\<lambda>x. x \<notin> set R) (child_nodes h p)) h"
  using assms
proof (induction R arbitrary: h)
  case Nil
  then show ?case
    by simp
next
  case (Cons n R)
  let ?xs = "removeAll n (child_nodes h p)"
  have "fold detach R (orphaned p [n] ?xs h) =
      orphaned p R (filter (\<lambda>x. x \<notin> set R) ?xs) (orphaned p [n] ?xs h)"
    using Cons by (subst Cons(1)) auto
  moreover have "filter (\<lambda>x. x \<notin> set R) ?xs = filter (\<lambda>x. x \<notin> set (n # R)) (child_nodes h p)"
    by (auto simp: removeAll_filter_not_eq intro: filter_cong)
  ultimately show ?case
    using Cons by (simp add: detach_child orphaned_twice)
qed

section \<open>The page without separators\<close>

definition own_children :: "nat set \<Rightarrow> document \<Rightarrow> nat \<Rightarrow> nat list" where
  "own_children J h p = filter (\<lambda>x. x \<notin> J) (child_nodes h p)"

lemma split_unique:
  "xs @ a # ys = us @ a # vs \<Longrightarrow> a \<notin> set xs \<Longrightarrow> a \<notin> set us \<Longrightarrow> xs = us \<and> ys = vs"
  by (induction xs arbitrary: us) (case_tac us; auto)+

lemma filter_split_at:
  assumes "distinct xs" "a \<in> set xs" "P a" "filter P xs = A @ a # B"
  shows "\<exists>ys zs. xs = ys @ a # zs \<and> a \<notin> set ys \<and> filter P ys = A \<and> filter P zs = B"
proof -
  obtain ys zs where xs: "xs = ys @ a # zs" "a \<notin> set ys" "a \<notin> set zs"
    using split_list[OF assms(2)] assms(1) by auto
  have "filter P ys @ a # filter P zs = A @ a # B"
    using assms(3,4) xs(1) by simp
  moreover have "a \<notin> set (filter P ys)" "a \<notin> set A"
    using xs assms(1,4) distinct_filter[OF assms(1), of P] by auto
  ultimately have "filter P ys = A" "filter P zs = B"
    by (auto dest: split_unique)
  then show ?thesis
    using xs by blast
qed

end
