(* ===== verification/View_Shows.thy ===== *)
theory View_Shows
  imports View_Place
begin

text \<open>
  \<open>displays w J h p v st\<close>: in the page \<open>h\<close>, the state \<open>st\<close> shows the view \<open>v\<close>, and its roots are children
  of \<open>p\<close>. The flag \<open>w\<close> allows what a page from the server may have and a built page has not: a space
  for an empty text, a comment that is not empty as a placeholder, an element whose children hold
  nothing and were not hydrated. The separators \<open>J\<close> are overlooked.
\<close>

section \<open>A state shows a view\<close>

definition text_shown :: "bool \<Rightarrow> string \<Rightarrow> dom_node \<Rightarrow> bool" where
  "text_shown w s k \<longleftrightarrow> k = TextN s \<or> w \<and> s = [] \<and> k = TextN '' ''"

definition marker_shown :: "bool \<Rightarrow> document \<Rightarrow> nat option \<Rightarrow> nat \<Rightarrow> bool" where
  "marker_shown w h p n \<longleftrightarrow>
     parent_node h n = p \<and> child_nodes h n = [] \<and> (\<exists>c. nodes h n = CommentN c \<and> (w \<or> c = []))"

definition local_name :: "element_type \<Rightarrow> string \<Rightarrow> string" where
  "local_name et tag = element_name (namespace et) tag"

fun displays :: "bool \<Rightarrow> nat set \<Rightarrow> document \<Rightarrow> nat option \<Rightarrow> view \<Rightarrow> view_state \<Rightarrow> bool"
and displays_all :: "bool \<Rightarrow> nat set \<Rightarrow> document \<Rightarrow> nat option \<Rightarrow> view list \<Rightarrow> view_state list \<Rightarrow> bool" where
  "displays w J h p (TextView s) st =
     (case st of
        TextState n t \<Rightarrow>
          t = s \<and> parent_node h n = p \<and> child_nodes h n = [] \<and> text_shown w s (nodes h n)
      | other \<Rightarrow> False)"
| "displays w J h p (PrimView e s) st =
     (case st of
        TextState n t \<Rightarrow>
          t = s \<and> parent_node h n = p \<and> child_nodes h n = [] \<and> nodes h n = TextN s
      | other \<Rightarrow> False)"
| "displays w J h p UnitView st =
     (case st of PlaceholderState n \<Rightarrow> marker_shown w h p n | other \<Rightarrow> False)"
| "displays w J h p (TupleView vs) st =
     (case st of TupleState sts \<Rightarrow> displays_all w J h p vs sts | other \<Rightarrow> False)"
| "displays w J h p (ArrayView vs) st =
     (case st of ArrayState sts \<Rightarrow> displays_all w J h p vs sts | other \<Rightarrow> False)"
| "displays w J h p (EitherView n i v) st =
     (case st of EitherState j c \<Rightarrow> j = i \<and> displays w J h p v c | other \<Rightarrow> False)"
| "displays w J h p (VecView vs) st =
     (case st of
        VecState sts n \<Rightarrow> displays_all w J h p vs sts \<and> marker_shown w h p n
      | other \<Rightarrow> False)"
| "displays w J h p (AnyView t v) st =
     (case st of
        AnyState u c ph \<Rightarrow>
          u = t \<and> displays w J h p v c \<and>
          (case ph of
             None \<Rightarrow> view_exists v
           | Some n \<Rightarrow> \<not> view_exists v \<and> marker_shown w h p n)
      | other \<Rightarrow> False)"
| "displays w J h p (ElementView et tag as ch) st =
     (case st of
        ElementState el sts c \<Rightarrow>
          sts = attrs_states el as \<and> parent_node h el = p \<and>
          nodes h el = ElementN (namespace et) (local_name et tag) (put_attrs as Map.empty) \<and>
          (case c of
             None \<Rightarrow>
               (self_closing et \<or> w \<and> \<not> view_exists ch) \<and> own_children J h el = []
           | Some d \<Rightarrow>
               \<not> self_closing et \<and> own_children J h el = roots d \<and>
               distinct (child_nodes h el) \<and> set (child_nodes h el) \<subseteq> {..<next_node h} \<and>
               displays w J h (Some el) ch d)
      | other \<Rightarrow> False)"
| "displays_all w J h p [] sts = (sts = [])"
| "displays_all w J h p (v # vs) sts =
     (case sts of [] \<Rightarrow> False | st # rest \<Rightarrow> displays w J h p v st \<and> displays_all w J h p vs rest)"

text \<open>
  Views that always have a node: an array has an element, a number has a text. No attribute is
  given twice.
\<close>

fun proper :: "view \<Rightarrow> bool" where
  "proper (TextView s) = True"
| "proper (PrimView e s) = (s \<noteq> [])"
| "proper UnitView = True"
| "proper (TupleView vs) = (vs \<noteq> [] \<and> list_all proper vs)"
| "proper (ArrayView vs) = (vs \<noteq> [] \<and> list_all proper vs)"
| "proper (EitherView n i v) = proper v"
| "proper (VecView vs) = list_all proper vs"
| "proper (AnyView t v) = proper v"
| "proper (ElementView et tag as ch) = (distinct (map fst as) \<and> proper ch)"

lemma displays_has_roots:
  "displays w J h p v st \<Longrightarrow> proper v \<Longrightarrow> roots st \<noteq> []"
  "displays_all w J h p vs sts \<Longrightarrow> list_all proper vs \<Longrightarrow> vs \<noteq> [] \<Longrightarrow> roots_all sts \<noteq> []"
  by (induction w J h p v st and w J h p vs sts rule: displays_displays_all.induct)
     (auto split: view_state.splits list.splits)

section \<open>Pages that agree\<close>

definition same_node :: "document \<Rightarrow> document \<Rightarrow> nat \<Rightarrow> bool" where
  "same_node h h' x \<longleftrightarrow>
     nodes h' x = nodes h x \<and> parent_node h' x = parent_node h x \<and> child_nodes h' x = child_nodes h x"

definition agree :: "nat set \<Rightarrow> document \<Rightarrow> document \<Rightarrow> bool" where
  "agree S h h' \<longleftrightarrow> (\<forall>x\<in>S. same_node h h' x)"

lemma agree_refl [simp]: "agree S h h"
  by (simp add: agree_def same_node_def)

lemma agree_trans: "agree S h h1 \<Longrightarrow> agree S h1 h2 \<Longrightarrow> agree S h h2"
  by (simp add: agree_def same_node_def)

lemma agree_subset: "agree S h h' \<Longrightarrow> T \<subseteq> S \<Longrightarrow> agree T h h'"
  by (auto simp: agree_def)

lemma agree_un [simp]: "agree (S \<union> T) h h' \<longleftrightarrow> agree S h h' \<and> agree T h h'"
  by (auto simp: agree_def)

lemma agree_insert [simp]: "agree (insert x S) h h' \<longleftrightarrow> same_node h h' x \<and> agree S h h'"
  by (auto simp: agree_def)

lemma agree_empty [simp]: "agree {} h h'"
  by (simp add: agree_def)

lemma same_node_marker:
  "same_node h h' n \<Longrightarrow> marker_shown w h p n \<Longrightarrow> marker_shown w h' p n"
  by (simp add: same_node_def marker_shown_def)

lemma displays_agree:
  "displays w J h p v st \<Longrightarrow> agree (set (owned st)) h h' \<Longrightarrow> next_node h \<le> next_node h' \<Longrightarrow>
    displays w J h' p v st"
  "displays_all w J h p vs sts \<Longrightarrow> agree (set (owned_all sts)) h h' \<Longrightarrow> next_node h \<le> next_node h' \<Longrightarrow>
    displays_all w J h' p vs sts"
proof (induction w J h p v st and w J h p vs sts rule: displays_displays_all.induct)
  case (9 w J h p et tag as ch st)
  then show ?case
    by (cases st) (auto simp: own_children_def same_node_def split: option.splits)
next
  case (11 w J h p v vs sts)
  then show ?case
    by (cases sts) auto
next
  case (8 w J h p t v st)
  then show ?case
    by (cases st) (auto simp: same_node_def marker_shown_def split: option.splits)
next
  case (7 w J h p vs st)
  then show ?case
    by (cases st) (auto simp: same_node_def marker_shown_def)
qed (auto simp: same_node_def marker_shown_def split: view_state.splits)

text \<open>Only the parent of the roots changes.\<close>

lemma displays_moved:
  "displays w J h p v st \<Longrightarrow> distinct (owned st) \<Longrightarrow> next_node h \<le> next_node h' \<Longrightarrow>
    (\<And>n. n \<in> set (owned st) \<Longrightarrow> nodes h' n = nodes h n \<and> child_nodes h' n = child_nodes h n) \<Longrightarrow>
    (\<And>n. n \<in> set (roots st) \<Longrightarrow> parent_node h' n = q) \<Longrightarrow>
    (\<And>n. n \<in> set (owned st) \<Longrightarrow> n \<notin> set (roots st) \<Longrightarrow> parent_node h' n = parent_node h n) \<Longrightarrow>
    displays w J h' q v st"
  "displays_all w J h p vs sts \<Longrightarrow> distinct (owned_all sts) \<Longrightarrow> next_node h \<le> next_node h' \<Longrightarrow>
    (\<And>n. n \<in> set (owned_all sts) \<Longrightarrow> nodes h' n = nodes h n \<and> child_nodes h' n = child_nodes h n) \<Longrightarrow>
    (\<And>n. n \<in> set (roots_all sts) \<Longrightarrow> parent_node h' n = q) \<Longrightarrow>
    (\<And>n. n \<in> set (owned_all sts) \<Longrightarrow> n \<notin> set (roots_all sts) \<Longrightarrow> parent_node h' n = parent_node h n) \<Longrightarrow>
    displays_all w J h' q vs sts"
proof (induction w J h p v st and w J h p vs sts rule: displays_displays_all.induct)
  case (9 w J h p et tag as ch st)
  then obtain el sts c where st: "st = ElementState el sts c"
    by (cases st) auto
  show ?case
  proof (cases c)
    case None
    then show ?thesis
      using 9 st by (simp add: own_children_def)
  next
    case (Some d)
    then have "displays w J h (Some el) ch d" and el: "el \<notin> set (owned d)"
      using 9 st by auto
    moreover have "agree (set (owned d)) h h'"
      unfolding agree_def same_node_def using 9(5,7) el st Some by auto
    ultimately have "displays w J h' (Some el) ch d"
      using displays_agree(1) 9(4) by blast
    then show ?thesis
      using 9 st Some by (auto simp: own_children_def)
  qed
next
  case (11 w J h p v vs sts)
  then obtain st rest where sts: "sts = st # rest"
    by (cases sts) auto
  have "set (owned st) \<inter> set (owned_all rest) = {}"
    using 11(4) sts by simp
  then have apart: "n \<in> set (owned st) \<Longrightarrow> n \<notin> set (roots_all rest)"
    "n \<in> set (owned_all rest) \<Longrightarrow> n \<notin> set (roots st)" for n
    using roots_owned(1)[of st] roots_owned(2)[of rest] by auto
  have "displays w J h' q v st"
    using 11(3-) sts apart by (intro 11(1)[OF sts]) auto
  moreover have "displays_all w J h' q vs rest"
    using 11(3-) sts apart by (intro 11(2)[OF sts]) auto
  ultimately show ?case
    using sts by simp
next
  case (7 w J h p vs st)
  then obtain sts n where st: "st = VecState sts n"
    by (cases st) auto
  have "displays_all w J h' q vs sts"
    using 7(2-) st by (intro 7(1)[OF st]) auto
  then show ?case
    using 7(2-) st by (auto simp: marker_shown_def)
next
  case (8 w J h p t v st)
  then obtain u c ph where st: "st = AnyState u c ph"
    by (cases st) auto
  have "displays w J h' q v c"
    using 8(2-) st by (intro 8(1)[OF st]) (auto split: option.splits)
  then show ?case
    using 8(2-) st by (auto simp: marker_shown_def split: option.splits)
qed (auto simp: marker_shown_def split: view_state.splits)

end
