(* ===== verification/View_Served.thy ===== *)
theory View_Served
  imports View_Hydrate View_Shows
begin

text \<open>
  Hydration of the page that the server sent. The HTML of a view is parsed (the parser is a
  parameter that reads plain markup back), its nodes are put into a document under a root element,
  and the view is hydrated there: the state that results shows the view, so that all updates
  after it do what they do on a page that was built in the browser.

  The comments that the HTML has for separation only are the separators \<open>J\<close>: no state keeps them.
\<close>

section \<open>Loading HTML\<close>

definition dom_attrs :: "(string \<times> string option) list \<Rightarrow> string \<rightharpoonup> string" where
  "dom_attrs as = map_of (map (\<lambda>(k, s). (k, case s of None \<Rightarrow> [] | Some t \<Rightarrow> t)) as)"

fun node_kind :: "html \<Rightarrow> dom_node" where
  "node_kind (ElementH tag as kids) = ElementN None tag (dom_attrs as)"
| "node_kind (TextH s) = TextN s"
| "node_kind (CommentH c) = CommentN c"

fun html_kids :: "html \<Rightarrow> html list" where
  "html_kids (ElementH tag as kids) = kids"
| "html_kids other = []"

lemma html_kids_smaller: "size_list size (html_kids x) < Suc (size x + n)"
  by (cases x) auto

text \<open>The browser creates the nodes in the order of the document.\<close>

function load_all :: "nat \<Rightarrow> html list \<Rightarrow> document \<Rightarrow> document" where
  "load_all p [] h = h"
| "load_all p (x # xs) h =
     load_all p xs
       (load_all (next_node h) (html_kids x)
         (insert_node p (next_node h) None (snd (create_node (node_kind x) h))))"
  by pat_completeness auto

termination
  by (relation "measure (\<lambda>(p, xs, h). size_list size xs)")
     (simp_all add: html_kids_smaller)

text \<open>The nodes \<open>ns\<close> are children of \<open>p\<close> and stand for the HTML; all nodes of the HTML.\<close>

function stands_all :: "document \<Rightarrow> nat \<Rightarrow> nat list \<Rightarrow> html list \<Rightarrow> bool" where
  "stands_all h p ns [] = (ns = [])"
| "stands_all h p ns (x # xs) =
     (case ns of
        [] \<Rightarrow> False
      | n # ms \<Rightarrow>
          parent_node h n = Some p \<and> nodes h n = node_kind x \<and>
          stands_all h n (child_nodes h n) (html_kids x) \<and> stands_all h p ms xs)"
  by pat_completeness auto

termination
  by (relation "measure (\<lambda>(h, p, ns, xs). size_list size xs)")
     (simp_all add: html_kids_smaller)

function below_all :: "document \<Rightarrow> nat list \<Rightarrow> html list \<Rightarrow> nat list" where
  "below_all h ns [] = []"
| "below_all h ns (x # xs) =
     (case ns of
        [] \<Rightarrow> []
      | n # ms \<Rightarrow> n # below_all h (child_nodes h n) (html_kids x) @ below_all h ms xs)"
  by pat_completeness auto

termination
  by (relation "measure (\<lambda>(h, ns, xs). size_list size xs)")
     (simp_all add: html_kids_smaller)

lemma stands_cons:
  "stands_all h p ns (x # xs) \<longleftrightarrow>
    (\<exists>n ms. ns = n # ms \<and> parent_node h n = Some p \<and> nodes h n = node_kind x \<and>
      stands_all h n (child_nodes h n) (html_kids x) \<and> stands_all h p ms xs)"
  by (cases ns) auto

declare stands_all.simps(2) [simp del]

lemma stands_append_split:
  "stands_all h p ns (f @ g) \<Longrightarrow>
    \<exists>ms ks. ns = ms @ ks \<and> stands_all h p ms f \<and> stands_all h p ks g"
proof (induction f arbitrary: ns)
  case (Cons x f)
  then obtain n rest where n: "ns = n # rest" "stands_all h p [n] [x]" "stands_all h p rest (f @ g)"
    by (auto simp: stands_cons)
  then obtain ms ks where "rest = ms @ ks" "stands_all h p ms f" "stands_all h p ks g"
    using Cons by blast
  then have "ns = (n # ms) @ ks \<and> stands_all h p (n # ms) (x # f) \<and> stands_all h p ks g"
    using n by (auto simp: stands_cons)
  then show ?case
    by blast
qed simp

lemma stands_append:
  "stands_all h p ms f \<Longrightarrow> stands_all h p ks g \<Longrightarrow> stands_all h p (ms @ ks) (f @ g)"
  by (induction f arbitrary: ms) (auto simp: stands_cons)

lemma below_append:
  "stands_all h p ns f \<Longrightarrow> below_all h (ns @ ms) (f @ g) = below_all h ns f @ below_all h ms g"
  by (induction f arbitrary: ns) (auto simp: stands_cons)

lemma stands_agree:
  "stands_all h p ns f \<Longrightarrow> agree (set (below_all h ns f)) h h' \<Longrightarrow>
    stands_all h' p ns f \<and> below_all h' ns f = below_all h ns f"
proof (induction h p ns f rule: stands_all.induct)
  case (2 h p ns x xs)
  then obtain n ms where ns: "ns = n # ms"
    by (cases ns) (auto simp: stands_cons)
  then have "same_node h h' n" "agree (set (below_all h (child_nodes h n) (html_kids x))) h h'"
    "agree (set (below_all h ms xs)) h h'"
    using 2(4) by (auto simp: agree_def)
  then show ?case
    using 2 ns by (simp add: same_node_def stands_cons)
qed simp

lemma stands_below: "stands_all h p ns f \<Longrightarrow> set ns \<subseteq> set (below_all h ns f)"
  by (induction f arbitrary: ns) (auto simp: stands_cons, blast)

lemma below_cons: "below_all h (n # ms) (x # xs) = n # below_all h (child_nodes h n) (html_kids x) @ below_all h ms xs"
  by simp

definition loaded :: "nat \<Rightarrow> html list \<Rightarrow> document \<Rightarrow> nat list \<Rightarrow> document \<Rightarrow> bool" where
  "loaded p f h ns h' \<longleftrightarrow>
     next_node h \<le> next_node h' \<and> child_nodes h' p = child_nodes h p @ ns \<and> stands_all h' p ns f \<and>
     distinct (below_all h' ns f) \<and> set (below_all h' ns f) = {next_node h..<next_node h'} \<and>
     nodes h' p = nodes h p \<and> parent_node h' p = parent_node h p \<and>
     agree ({..<next_node h} - {p}) h h'"

lemma load_all_works:
  "p < next_node h \<Longrightarrow> \<exists>ns. loaded p f h ns (load_all p f h)"
proof (induction p f h rule: load_all.induct)
  case (1 p h)
  then show ?case
    by (auto simp: loaded_def)
next
  case (2 p x xs h)
  let ?n = "next_node h"
  let ?h1 = "insert_node p ?n None (snd (create_node (node_kind x) h))"
  let ?h2 = "load_all ?n (html_kids x) ?h1"
  let ?h3 = "load_all p xs ?h2"
  have h1: "?h1 = adopted p [?n] (child_nodes h p @ [?n]) (snd (create_node (node_kind x) h))"
    using 2(3) by (subst insert_node_last) (auto simp: create_node_def)
  have f1: "next_node ?h1 = Suc ?n" "child_nodes ?h1 p = child_nodes h p @ [?n]"
    "child_nodes ?h1 ?n = []" "parent_node ?h1 ?n = Some p" "nodes ?h1 ?n = node_kind x"
    "agree ({..<?n} - {p}) h ?h1" "nodes ?h1 p = nodes h p" "parent_node ?h1 p = parent_node h p"
    using 2(3) unfolding h1 by (auto simp: create_node_def agree_def same_node_def)
  obtain ns1 where l1: "loaded ?n (html_kids x) ?h1 ns1 ?h2"
    using 2(1) f1(1) by auto
  have p2: "same_node ?h1 ?h2 p"
    using l1 2(3) f1(1) by (auto simp: loaded_def agree_def)
  obtain ns2 where l2: "loaded p xs ?h2 ns2 ?h3"
    using 2(2) l1 f1(1) 2(3) by (auto simp: loaded_def)
  have sub: "set (below_all ?h2 ns1 (html_kids x)) \<union> {?n} \<subseteq> {..<next_node ?h2} - {p}"
    using l1 2(3) f1(1) by (auto simp: loaded_def)
  then have ag: "agree (set (below_all ?h2 ns1 (html_kids x)) \<union> {?n}) ?h2 ?h3"
    using l2 agree_subset unfolding loaded_def by blast
  have st: "stands_all ?h3 ?n ns1 (html_kids x) \<and>
      below_all ?h3 ns1 (html_kids x) = below_all ?h2 ns1 (html_kids x)"
    using l1 ag by (intro stands_agree) (auto simp: loaded_def)
  have n: "same_node ?h2 ?h3 ?n" "child_nodes ?h2 ?n = ns1"
    using ag l1 f1 by (auto simp: loaded_def)
  have k: "stands_all ?h3 p (?n # ns2) (x # xs)"
    using n st l1 l2 f1 by (auto simp: stands_cons loaded_def same_node_def)
  have old: "agree ({..<?n} - {p}) h ?h3"
  proof -
    have "agree ({..<?n} - {p}) ?h1 ?h2" "agree ({..<?n} - {p}) ?h2 ?h3"
      using l1 l2 f1(1) by (auto simp: loaded_def agree_def)
    then show ?thesis
      using f1(6) agree_trans by blast
  qed
  have "loaded p (x # xs) h (?n # ns2) ?h3"
    using k old n st l1 l2 f1 p2 by (auto simp: loaded_def same_node_def)
  then show ?case
    by auto
qed


section \<open>The cursor over served nodes\<close>

text \<open>The cursor stands after the children \<open>A\<close> of \<open>p\<close>.\<close>

definition cursor_at ::
  "document \<Rightarrow> nat \<Rightarrow> nat list \<Rightarrow> hydration_position \<Rightarrow> walk \<Rightarrow> bool" where
  "cursor_at h p A pos w \<longleftrightarrow>
     \<not> failed w \<and> page w = h \<and> at_position w = pos \<and>
     (if pos = FirstChild then A = [] \<and> cursor w = p
      else pos \<in> {NextChild, NextChildAfterText} \<and> A \<noteq> [] \<and> cursor w = last A \<and>
        parent_node h (last A) = Some p)"

lemma sibling_after_split: "a \<notin> set X \<Longrightarrow> sibling_after a (X @ a # n # B) = Some n"
  by (induction X) (auto simp: sibling_after_def)

lemma next_sibling_split:
  assumes "parent_node h (last A) = Some p" "child_nodes h p = A @ n # B" "A \<noteq> []"
    "distinct (child_nodes h p)"
  shows "next_sibling (last A) h = Some n"
proof -
  obtain X a where "A = X @ [a]"
    using assms(3) by (cases A rule: rev_cases) auto
  then show ?thesis
    using assms by (simp add: next_sibling_def sibling_after_split)
qed

lemma past_no_markers [simp]: "past_markers False h n = n"
  by (simp add: past_markers_def)

lemma advance_to:
  assumes "cursor_at h p A pos w" "child_nodes h p = A @ n # B" "distinct (child_nodes h p)"
  shows "advance False w = w\<lparr>cursor := n\<rparr>"
  using assms next_sibling_split[of h A p n B]
  by (auto simp: cursor_at_def advance_def cursor_child_def cursor_sibling_def first_child_def
      split: if_splits)

lemma cursor_after:
  assumes "cursor_at h p A pos w" "parent_node h n = Some p" "pos' \<in> {NextChild, NextChildAfterText}"
  shows "cursor_at h p (A @ [n]) pos' (w\<lparr>cursor := n, at_position := pos'\<rparr>)"
  using assms by (auto simp: cursor_at_def)

lemma next_placeholder_served:
  assumes "cursor_at h p A pos w" "child_nodes h p = A @ n # B" "distinct (child_nodes h p)"
    "nodes h n = CommentN c"
  shows "next_placeholder False w = (n, w\<lparr>cursor := n, at_position := NextChild\<rparr>)"
  using assms advance_to[OF assms(1-3)]
  by (simp add: next_placeholder_def advance_to_placeholder_def cursor_cast_def cursor_current_def
      cursor_at_def)

lemma hydrate_element_served:
  assumes "cursor_at h p A pos w" "child_nodes h p = A @ n # B" "distinct (child_nodes h p)"
    "is_element_node (nodes h n)"
  shows "hydrate_element_node False et w = (n, w\<lparr>cursor := n\<rparr>)"
proof -
  have "(if at_position w = FirstChild then cursor_child False w
      else if at_position w \<noteq> Current then cursor_sibling False w else w) = w\<lparr>cursor := n\<rparr>"
    using advance_to[OF assms(1-3)] assms(1) by (auto simp: advance_def cursor_at_def split: if_splits)
  then show ?thesis
    using assms by (simp add: hydrate_element_node_def cursor_cast_def cursor_current_def cursor_at_def)
qed

lemma hydrate_text_served:
  assumes "cursor_at h p A pos w" "child_nodes h p = A @ M @ B" "distinct (child_nodes h p)"
    "stands_all h p M (separated pos t)"
  shows "hydrate_text False True s w =
    (TextState (last M) s, w\<lparr>cursor := last M, at_position := NextChildAfterText\<rparr>)"
proof (cases "pos = NextChildAfterText")
  case True
  then obtain c n where M: "M = [c, n]" "parent_node h c = Some p" "nodes h n = TextN t"
    using assms(4) by (auto simp: separated_def stands_cons)
  have "advance False w = w\<lparr>cursor := c\<rparr>"
    using advance_to[OF assms(1) _ assms(3), of c "n # B"] assms(2) M by simp
  moreover have "next_sibling c h = Some n"
    using next_sibling_split[of h "A @ [c]" p n B] assms(2,3) M by simp
  ultimately show ?thesis
    using assms(1) M True
    by (simp add: hydrate_text_def cursor_at_def cursor_sibling_def cursor_cast_def cursor_current_def)
next
  case False
  then obtain n where M: "M = [n]" "nodes h n = TextN t"
    using assms(4) by (auto simp: separated_def stands_cons)
  have "advance False w = w\<lparr>cursor := n\<rparr>"
    using advance_to[OF assms(1) _ assms(3), of n B] assms(2) M by simp
  then show ?thesis
    using assms(1) M False
    by (simp add: hydrate_text_def cursor_at_def cursor_cast_def cursor_current_def)
qed

section \<open>What a hydrated state keeps\<close>

text \<open>
  Of the nodes of \<open>f\<close> a state keeps \<open>O\<close>; the others are comments. Whatever separators contain these
  comments and nothing that is kept, \<open>D\<close> holds for them and the roots are \<open>R\<close>.
\<close>

definition covers ::
  "document \<Rightarrow> nat list \<Rightarrow> html list \<Rightarrow> nat list \<Rightarrow> nat list \<Rightarrow> (nat set \<Rightarrow> bool) \<Rightarrow> bool" where
  "covers h M f own R D \<longleftrightarrow>
     set own \<subseteq> set (below_all h M f) \<and> distinct own \<and>
     (\<forall>x\<in>set (below_all h M f) - set own. is_comment_node (nodes h x) \<and> child_nodes h x = []) \<and>
     (\<forall>J. J \<inter> set own = {} \<and> set (below_all h M f) - set own \<subseteq> J \<longrightarrow>
        D J \<and> filter (\<lambda>x. x \<notin> J) M = R)"

lemma covers_append:
  assumes "covers h M f own R D" "covers h N g own' R' D'" "stands_all h p M f"
    "distinct (below_all h (M @ N) (f @ g))"
  shows "covers h (M @ N) (f @ g) (own @ own') (R @ R') (\<lambda>J. D J \<and> D' J)"
proof -
  have b: "below_all h (M @ N) (f @ g) = below_all h M f @ below_all h N g"
    using below_append[OF assms(3)] .
  have o: "set own \<subseteq> set (below_all h M f)" "set own' \<subseteq> set (below_all h N g)"
    "distinct own" "distinct own'" "set (below_all h M f) \<inter> set (below_all h N g) = {}"
    using assms(1,2,4) unfolding b by (simp_all add: covers_def)
  have d: "D J \<and> filter (\<lambda>x. x \<notin> J) M = R" if "J \<inter> set own = {}" "set (below_all h M f) - set own \<subseteq> J" for J
    using assms(1) that by (simp add: covers_def)
  have d': "D' J \<and> filter (\<lambda>x. x \<notin> J) N = R'"
    if "J \<inter> set own' = {}" "set (below_all h N g) - set own' \<subseteq> J" for J
    using assms(2) that by (simp add: covers_def)
  have "D J \<and> D' J \<and> filter (\<lambda>x. x \<notin> J) (M @ N) = R @ R'"
    if J: "J \<inter> set (own @ own') = {}" "set (below_all h (M @ N) (f @ g)) - set (own @ own') \<subseteq> J" for J
  proof -
    have "J \<inter> set own = {}" "J \<inter> set own' = {}"
      using J(1) by auto
    moreover have "set (below_all h M f) - set own \<subseteq> J" "set (below_all h N g) - set own' \<subseteq> J"
      using J(2) o unfolding b by auto
    ultimately show ?thesis
      using d d' by simp
  qed
  moreover have "is_comment_node (nodes h x) \<and> child_nodes h x = []"
    if "x \<in> set (below_all h (M @ N) (f @ g)) - set (own @ own')" for x
    using assms(1,2) that unfolding b by (auto simp: covers_def)
  moreover have "set (own @ own') \<subseteq> set (below_all h (M @ N) (f @ g))" "distinct (own @ own')"
    using o unfolding b by auto
  ultimately show ?thesis
    by (simp add: covers_def)
qed

lemma covers_mono: "covers h M f own R D \<Longrightarrow> (\<And>J. D J \<Longrightarrow> D' J) \<Longrightarrow> covers h M f own R D'"
  by (auto simp: covers_def)

lemma covers_nothing: "D {} \<Longrightarrow> (\<And>J. D J) \<Longrightarrow> covers h [] [] [] [] D"
  by (simp add: covers_def)


lemma covers_one:
  assumes "D" "child_nodes h n = []" "html_kids x = []"
  shows "covers h [n] [x] [n] [n] (\<lambda>J. D)"
  using assms by (simp add: covers_def)

lemma covers_text:
  assumes "stands_all h p M (separated pos t)" "distinct (below_all h M (separated pos t))" "D"
  shows "covers h M (separated pos t) [last M] [last M] (\<lambda>J. D)"
  using assms by (auto simp: covers_def separated_def stands_cons split: if_splits)

lemma covers_element:
  assumes "nodes h n = node_kind x" "covers h (child_nodes h n) (html_kids x) own R D"
    "distinct (below_all h [n] [x])"
  shows "covers h [n] [x] (n # own) [n] (\<lambda>J. D J \<and> own_children J h n = R)"
  using assms by (auto simp: covers_def own_children_def)

section \<open>Hydration of a served view\<close>

lemma served_none:
  "\<not> view_exists v \<Longrightarrow> proper v \<Longrightarrow> snd (served v pos) = NextChild"
  "list_all (\<lambda>v. \<not> view_exists v) vs \<Longrightarrow> list_all proper vs \<Longrightarrow> vs \<noteq> [] \<Longrightarrow>
    snd (served_all vs pos) = NextChild"
proof (induction v pos and vs pos rule: served_served_all.induct)
  case (4 vs pos)
  then show ?case
    by (simp add: list_all_iff list_ex_iff)
next
  case (11 v vs pos)
  then show ?case
    by (cases vs) auto
qed simp_all

lemma dom_attrs_item:
  "dom_attrs (map (Pair k) (value_items v) @ rest) =
    (case shown_value v of None \<Rightarrow> dom_attrs rest | Some s \<Rightarrow> (dom_attrs rest)(k \<mapsto> s))"
  by (induction v rule: shown_value.induct) (simp_all add: dom_attrs_def)

lemma dom_attrs_shown:
  "distinct (map fst as) \<Longrightarrow> dom_attrs (attr_items as) = put_attrs as Map.empty"
proof (induction as)
  case (Cons a as)
  obtain k v where a: "a = (k, v)"
    by (cases a)
  have "attr_items (a # as) = map (Pair k) (value_items v) @ attr_items as"
    by (simp add: attr_items_def a)
  moreover have k: "k \<notin> fst ` set as"
    using Cons(2) a by simp
  moreover have "put_attrs as Map.empty = (put_attrs as Map.empty)(k := None)"
    using put_attrs_other[OF k, of Map.empty] by (simp add: fun_upd_idem)
  ultimately show ?case
    using Cons a
    by (auto simp: dom_attrs_item put_attrs_upd simp del: fun_upd_apply split: option.splits)
qed (simp add: dom_attrs_def attr_items_def)

lemma name_chars_lower: "\<forall>c\<in>set ''abcdefghijklmnopqrstuvwxyz0123456789-''. lower_char c = c"
  by code_simp

lemma name_char_lower: "name_char c \<Longrightarrow> lower_char c = c"
  using name_chars_lower unfolding name_char_def by blast

lemma plain_name_lower: "plain_name tag \<Longrightarrow> element_name None tag = tag"
proof -
  assume "plain_name tag"
  then have "tag \<noteq> []" "\<And>c. c \<in> set tag \<Longrightarrow> name_char c"
    unfolding plain_name_def by blast+
  then show "element_name None tag = tag"
    by (simp add: element_name_def lower_text_def map_idI name_char_lower)
qed

lemma plain_view_name: "plain_view (ElementView et tag as ch) \<Longrightarrow> local_name et tag = tag"
  using plain_name_lower plain_void_name by (auto simp: local_name_def plain_tag_def split: if_splits)

definition hydrated ::
  "document \<Rightarrow> nat \<Rightarrow> nat list \<Rightarrow> nat list \<Rightarrow> view \<Rightarrow> hydration_position \<Rightarrow> view_state \<Rightarrow> walk \<Rightarrow> bool" where
  "hydrated h p A M v pos st w \<longleftrightarrow>
     cursor_at h p (A @ M) (snd (served v pos)) w \<and>
     covers h M (fst (served v pos)) (owned st) (roots st) (\<lambda>J. displays True J h (Some p) v st)"

text \<open>The nodes \<open>M\<close> of a forest stand after \<open>A\<close> in \<open>p\<close>.\<close>

definition served_at :: "document \<Rightarrow> nat \<Rightarrow> nat list \<Rightarrow> nat list \<Rightarrow> html list \<Rightarrow> bool" where
  "served_at h p A M f \<longleftrightarrow>
     (\<exists>B. child_nodes h p = A @ M @ B) \<and> distinct (child_nodes h p) \<and> stands_all h p M f \<and>
     distinct (below_all h M f) \<and> set (below_all h M f) \<subseteq> {..<next_node h}"

lemma served_at_append:
  assumes "served_at h p A M (f @ g)"
  obtains M1 M2 where "M = M1 @ M2" "served_at h p A M1 f" "served_at h p (A @ M1) M2 g"
    "distinct (below_all h (M1 @ M2) (f @ g))" "stands_all h p M1 f"
proof -
  obtain M1 M2 where M: "M = M1 @ M2" "stands_all h p M1 f" "stands_all h p M2 g"
    using assms stands_append_split unfolding served_at_def by blast
  have "served_at h p A M1 f \<and> served_at h p (A @ M1) M2 g"
    using assms M below_append[OF M(2)] by (auto simp: served_at_def)
  then show ?thesis
    using that M assms by (auto simp: served_at_def)
qed


text \<open>The placeholder after the nodes of a vector or of a view that has none.\<close>

lemma marker_served:
  assumes "served_at h p A M [CommentH c]" "cursor_at h p A pos w"
  obtains n where "M = [n]" "next_placeholder False w = (n, w\<lparr>cursor := n, at_position := NextChild\<rparr>)"
    "cursor_at h p (A @ [n]) NextChild (w\<lparr>cursor := n, at_position := NextChild\<rparr>)"
    "covers h [n] [CommentH c] [n] [n] (\<lambda>J. marker_shown True h (Some p) n)"
proof -
  obtain n B where n: "M = [n]" "parent_node h n = Some p" "nodes h n = CommentN c"
    "child_nodes h n = []" "child_nodes h p = A @ n # B" "distinct (child_nodes h p)"
    using assms(1) by (auto simp: served_at_def stands_cons)
  have "next_placeholder False w = (n, w\<lparr>cursor := n, at_position := NextChild\<rparr>)"
    using next_placeholder_served[OF assms(2) n(5,6,3)] .
  moreover have "cursor_at h p (A @ [n]) NextChild (w\<lparr>cursor := n, at_position := NextChild\<rparr>)"
    using cursor_after[OF assms(2) n(2), of NextChild] by simp
  moreover have "covers h [n] [CommentH c] [n] [n] (\<lambda>J. marker_shown True h (Some p) n)"
    using n by (intro covers_one) (auto simp: marker_shown_def)
  ultimately show ?thesis
    using that n(1) by blast
qed

lemma text_hydrated:
  assumes "served_at h p A M (separated pos t)" "cursor_at h p A pos w"
    "\<And>J. nodes h (last M) = TextN t \<Longrightarrow> parent_node h (last M) = Some p \<Longrightarrow> child_nodes h (last M) = [] \<Longrightarrow>
      displays True J h (Some p) v (TextState (last M) s)"
    "served v pos = (separated pos t, NextChildAfterText)"
  shows "\<exists>w'. hydrate_text False True s w = (TextState (last M) s, w') \<and>
    hydrated h p A M v pos (TextState (last M) s) w'"
proof -
  obtain B where a: "child_nodes h p = A @ M @ B" "distinct (child_nodes h p)"
    "stands_all h p M (separated pos t)" "distinct (below_all h M (separated pos t))"
    using assms(1) by (auto simp: served_at_def)
  have n: "M \<noteq> []" "nodes h (last M) = TextN t" "parent_node h (last M) = Some p"
    "child_nodes h (last M) = []"
    using a(3) by (auto simp: separated_def stands_cons split: if_splits)
  have "cursor_at h p (A @ M) NextChildAfterText (w\<lparr>cursor := last M, at_position := NextChildAfterText\<rparr>)"
    using assms(2) n by (auto simp: cursor_at_def)
  moreover have "covers h M (separated pos t) [last M] [last M]
      (\<lambda>J. displays True J h (Some p) v (TextState (last M) s))"
    by (rule covers_mono[OF covers_text[OF a(3,4), of True]]) (simp_all add: assms(3)[OF n(2-4)])
  ultimately show ?thesis
    using hydrate_text_served[OF assms(2) a(1-3), of s] assms(4) by (simp add: hydrated_def)
qed


lemma cursor_position: "cursor_at h p A pos w \<Longrightarrow> w\<lparr>at_position := pos\<rparr> = w"
  by (auto simp: cursor_at_def)

lemma hydrate_all_tuple:
  "hydrated h p A M (TupleView vs) pos (TupleState sts) w \<longleftrightarrow>
    cursor_at h p (A @ M) (snd (served_all vs pos)) w \<and>
    covers h M (fst (served_all vs pos)) (owned_all sts) (roots_all sts)
      (\<lambda>J. displays_all True J h (Some p) vs sts)"
  by (simp add: hydrated_def)

lemma stands_distinct: "stands_all h p ns f \<Longrightarrow> distinct (below_all h ns f) \<Longrightarrow> distinct ns"
proof (induction f arbitrary: ns)
  case (Cons x f)
  then obtain n ms where "ns = n # ms" "stands_all h p ms f"
    by (auto simp: stands_cons)
  then show ?case
    using Cons stands_below[of h p ms f] by auto
qed simp

lemma served_at_one:
  assumes "served_at h p A M [x]"
  shows "\<exists>n B. M = [n] \<and> parent_node h n = Some p \<and> nodes h n = node_kind x \<and>
    stands_all h n (child_nodes h n) (html_kids x) \<and> child_nodes h p = A @ n # B \<and>
    distinct (child_nodes h p) \<and> distinct (below_all h [n] [x]) \<and>
    set (below_all h [n] [x]) \<subseteq> {..<next_node h}"
  using assms by (auto simp: served_at_def stands_cons)

lemma element_hydrated:
  assumes "served_at h p A M (fst (served (ElementView et tag as ch) pos))" "cursor_at h p A pos w"
    "plain_view (ElementView et tag as ch)" "proper (ElementView et tag as ch)"
    "\<And>n N u. \<not> self_closing et \<Longrightarrow> view_exists ch \<Longrightarrow> served_at h n [] N (fst (served ch FirstChild)) \<Longrightarrow>
      cursor_at h n [] FirstChild u \<Longrightarrow>
      \<exists>st u'. hydrate False True ch u = (st, u') \<and> hydrated h n [] N ch FirstChild st u'"
  shows "\<exists>st w'. hydrate False True (ElementView et tag as ch) w = (st, w') \<and>
    hydrated h p A M (ElementView et tag as ch) pos st w'"
proof -
  let ?kids = "if self_closing et \<or> \<not> view_exists ch then [] else fst (served ch FirstChild)"
  let ?x = "ElementH tag (attr_items as) ?kids"
  obtain n B where n: "M = [n]" "parent_node h n = Some p" "nodes h n = node_kind ?x"
    "stands_all h n (child_nodes h n) ?kids" "child_nodes h p = A @ n # B" "distinct (child_nodes h p)"
    and b: "distinct (below_all h [n] [?x])" "set (below_all h [n] [?x]) \<subseteq> {..<next_node h}"
    using served_at_one[of h p A M ?x] assms(1) by auto
  have e: "hydrate_element_node False et w = (n, w\<lparr>cursor := n\<rparr>)"
    using hydrate_element_served[OF assms(2) n(5,6)] n(3) by simp
  have pg: "page w = h" "\<not> failed w"
    using assms(2) by (auto simp: cursor_at_def)
  have k: "nodes h n = ElementN (namespace et) (local_name et tag) (put_attrs as Map.empty)"
    using n(3) plain_view_name[OF assms(3)] dom_attrs_shown[of as] assms(3,4) by simp
  have esc: "escape_children et"
    using assms(3) by simp
  have sc: "self_closing et \<Longrightarrow> \<not> view_exists ch"
    using assms(3) by simp
  have kids: "distinct (child_nodes h n)" "set (child_nodes h n) \<subseteq> {..<next_node h}"
    using stands_distinct[OF n(4)] stands_below[OF n(4)] b by auto
  show ?thesis
  proof (cases "view_exists ch")
    case False
    then have "child_nodes h n = []"
      using n(4) by simp
    then have "covers h [n] [?x] [n] [n] (\<lambda>J. True \<and> own_children J h n = [])"
      using covers_element[OF n(3), of "[]" "[]" "\<lambda>J. True"] b(1) False by (simp add: covers_def)
    then have "covers h [n] [?x] [n] [n]
        (\<lambda>J. displays True J h (Some p) (ElementView et tag as ch) (ElementState n (attrs_states n as) None))"
      by (rule covers_mono) (use False k n(2) in simp)
    then show ?thesis
      using e pg False n(1,2) assms(2) by (simp add: hydrated_def cursor_at_def cursor_set_def)
  next
    case True
    then have ns: "\<not> self_closing et"
      using sc by blast
    let ?u = "w\<lparr>cursor := n, at_position := FirstChild\<rparr>"
    have "served_at h n [] (child_nodes h n) (fst (served ch FirstChild))"
      using n(4) b kids True ns by (auto simp: served_at_def)
    moreover have "cursor_at h n [] FirstChild ?u"
      using pg by (simp add: cursor_at_def)
    ultimately obtain st u' where r: "hydrate False True ch ?u = (st, u')"
      "hydrated h n [] (child_nodes h n) ch FirstChild st u'"
      using assms(5)[OF ns True] by blast
    have "covers h [n] [?x] (n # owned st) [n]
        (\<lambda>J. displays True J h (Some n) ch st \<and> own_children J h n = roots st)"
      using r(2) b(1) True ns by (intro covers_element[OF n(3)]) (simp_all add: hydrated_def)
    then have "covers h [n] [?x] (n # owned st) [n] (\<lambda>J. displays True J h (Some p)
        (ElementView et tag as ch) (ElementState n (attrs_states n as) (Some st)))"
      by (rule covers_mono) (use ns k n(2) kids in simp)
    moreover have "page u' = h" "\<not> failed u'"
      using r(2) by (auto simp: hydrated_def cursor_at_def)
    ultimately show ?thesis
      using e pg True ns n(1,2) r(1) esc by (simp add: hydrated_def cursor_at_def cursor_set_def)
  qed
qed

lemma any_hydrated:
  assumes "served_at h p A M (fst (served (AnyView t v) pos))" "cursor_at h p A pos w"
    "proper v"
    and ih: "\<And>N u. served_at h p A N (fst (served v pos)) \<Longrightarrow> cursor_at h p A pos u \<Longrightarrow>
      \<exists>st u'. hydrate False True v u = (st, u') \<and> hydrated h p A N v pos st u'"
  shows "\<exists>st w'. hydrate False True (AnyView t v) w = (st, w') \<and> hydrated h p A M (AnyView t v) pos st w'"
proof (cases "view_exists v")
  case True
  then show ?thesis
    using ih[of M w] assms(1,2) by (fastforce simp: hydrated_def)
next
  case False
  let ?c = "CommentH ''<() />''"
  have s: "served_at h p A M (fst (served v pos) @ [?c])"
    using assms(1) False by simp
  obtain M1 M2 where M: "M = M1 @ M2" "served_at h p A M1 (fst (served v pos))"
    "served_at h p (A @ M1) M2 [?c]"
    "distinct (below_all h (M1 @ M2) (fst (served v pos) @ [?c]))"
    "stands_all h p M1 (fst (served v pos))"
    using served_at_append[OF s] by blast
  obtain st w1 where r: "hydrate False True v w = (st, w1)" "hydrated h p A M1 v pos st w1"
    using ih[OF M(2) assms(2)] by blast
  have pos: "snd (served v pos) = NextChild"
    using served_none(1) False assms(3) by simp
  have c: "cursor_at h p (A @ M1) NextChild w1"
    and v: "covers h M1 (fst (served v pos)) (owned st) (roots st) (\<lambda>J. displays True J h (Some p) v st)"
    using r(2) pos by (simp_all add: hydrated_def)
  obtain n where m: "M2 = [n]"
    "next_placeholder False w1 = (n, w1\<lparr>cursor := n, at_position := NextChild\<rparr>)"
    "cursor_at h p ((A @ M1) @ [n]) NextChild (w1\<lparr>cursor := n, at_position := NextChild\<rparr>)"
    "covers h [n] [?c] [n] [n] (\<lambda>J. marker_shown True h (Some p) n)"
    using marker_served[OF M(3) c] by blast
  show ?thesis
    using covers_append[OF v m(4) M(5)] M(1,4) m r(1) pos False by (simp add: hydrated_def)
qed

lemma hydrate_served:
  "plain_view v \<Longrightarrow> proper v \<Longrightarrow> served_at h p A M (fst (served v pos)) \<Longrightarrow> cursor_at h p A pos w \<Longrightarrow>
    \<exists>st w'. hydrate False True v w = (st, w') \<and> hydrated h p A M v pos st w'"
  "list_all plain_view vs \<Longrightarrow> list_all proper vs \<Longrightarrow> served_at h p A M (fst (served_all vs pos)) \<Longrightarrow>
    cursor_at h p A pos w \<Longrightarrow>
    \<exists>sts w'. hydrate_all False True vs w = (sts, w') \<and>
      hydrated h p A M (TupleView vs) pos (TupleState sts) w'"
proof (induction v pos and vs pos arbitrary: p A M w and p A M w rule: served_served_all.induct)
  case (1 s pos)
  have "\<exists>w'. hydrate_text False True s w = (TextState (last M) s, w') \<and>
      hydrated h p A M (TextView s) pos (TextState (last M) s) w'"
    using 1 by (intro text_hydrated[where t = "if s = [] then '' '' else s"])
      (auto simp: text_shown_def split: if_splits)
  then show ?case
    by auto
next
  case (2 lit s pos)
  then show ?case
    using text_hydrated[of h p A M pos s w "PrimView lit s" s] by auto
next
  case (3 pos)
  then obtain n where m: "M = [n]" "next_placeholder False w = (n, w\<lparr>cursor := n, at_position := NextChild\<rparr>)"
    "cursor_at h p (A @ [n]) NextChild (w\<lparr>cursor := n, at_position := NextChild\<rparr>)"
    "covers h [n] [CommentH []] [n] [n] (\<lambda>J. marker_shown True h (Some p) n)"
    using marker_served[of h p A M "[]" pos w] by auto
  then show ?case
    by (simp add: hydrated_def)
next
  case (4 vs pos)
  then show ?case
    by (fastforce simp: hydrated_def)
next
  case (5 vs pos)
  then show ?case
    by (fastforce simp: hydrated_def)
next
  case (6 n i v pos)
  then show ?case
    by (fastforce simp: hydrated_def)
next
  case (7 vs pos)
  have s: "served_at h p A M (fst (served_all vs pos) @ [CommentH []])"
    using 7(4) by simp
  obtain M1 M2 where M: "M = M1 @ M2" "served_at h p A M1 (fst (served_all vs pos))"
    "served_at h p (A @ M1) M2 [CommentH []]"
    "distinct (below_all h (M1 @ M2) (fst (served_all vs pos) @ [CommentH []]))"
    "stands_all h p M1 (fst (served_all vs pos))"
    using served_at_append[OF s] by blast
  obtain sts w1 where r: "hydrate_all False True vs w = (sts, w1)"
    "hydrated h p A M1 (TupleView vs) pos (TupleState sts) w1"
    using 7(1)[OF _ _ M(2) 7(5)] 7(2,3) by auto
  then have c: "cursor_at h p (A @ M1) (snd (served_all vs pos)) w1"
    and v: "covers h M1 (fst (served_all vs pos)) (owned_all sts) (roots_all sts)
      (\<lambda>J. displays_all True J h (Some p) vs sts)"
    by (simp_all add: hydrate_all_tuple)
  obtain n where m: "M2 = [n]"
    "next_placeholder False w1 = (n, w1\<lparr>cursor := n, at_position := NextChild\<rparr>)"
    "cursor_at h p ((A @ M1) @ [n]) NextChild (w1\<lparr>cursor := n, at_position := NextChild\<rparr>)"
    "covers h [n] [CommentH []] [n] [n] (\<lambda>J. marker_shown True h (Some p) n)"
    using marker_served[OF M(3) c] by blast
  show ?case
    using covers_append[OF v m(4) M(5)] M(1,4) m r(1) by (simp add: hydrated_def)
next
  case (8 t v pos)
  have ih: "\<exists>st u'. hydrate False True v u = (st, u') \<and> hydrated h p A N v pos st u'"
    if "served_at h p A N (fst (served v pos))" "cursor_at h p A pos u" for N u
    using 8 that by auto
  show ?case
    using 8 by (intro any_hydrated ih) auto
next
  case (9 et tag as ch pos)
  show ?case
    using 9 by (intro element_hydrated[OF 9(4,5,2,3)]) auto
next
  case (10 pos)
  then show ?case
    by (auto simp: hydrated_def served_at_def covers_def)
next
  case (11 v vs pos)
  let ?pos = "snd (served v pos)"
  have s: "served_at h p A M (fst (served v pos) @ fst (served_all vs ?pos))"
    using "11.prems"(3) by simp
  obtain M1 M2 where M: "M = M1 @ M2" "served_at h p A M1 (fst (served v pos))"
    "served_at h p (A @ M1) M2 (fst (served_all vs ?pos))"
    "distinct (below_all h (M1 @ M2) (fst (served v pos) @ fst (served_all vs ?pos)))"
    "stands_all h p M1 (fst (served v pos))"
    using served_at_append[OF s] by blast
  obtain st w1 where r: "hydrate False True v w = (st, w1)" "hydrated h p A M1 v pos st w1"
    using 11(1)[OF _ _ M(2) "11.prems"(4)] "11.prems"(1,2) by auto
  then have c: "cursor_at h p (A @ M1) ?pos w1"
    by (simp add: hydrated_def)
  obtain sts w2 where q: "hydrate_all False True vs w1 = (sts, w2)"
    "hydrated h p (A @ M1) M2 (TupleView vs) ?pos (TupleState sts) w2"
    using 11(5)[OF _ _ M(3) c] "11.prems"(1,2) by auto
  show ?case
    using covers_append[of h M1 "fst (served v pos)" "owned st" "roots st" _ M2] r q M
    by (simp add: hydrated_def)
qed

end
