(* ===== verification/View_Rebuild.thy ===== *)
theory View_Rebuild
  imports View_Shows
begin

text \<open>
  Building and rebuilding do what they should: a built state shows its view and is made of new
  nodes; a rebuilt state shows the new view, at the place where the old one was, and nothing else
  of the page changes.
\<close>

section \<open>Building\<close>

lemma create_node_simps [simp]:
  "fst (create_node k h) = next_node h"
  "nodes (snd (create_node k h)) n = (if n = next_node h then k else nodes h n)"
  "parent_node (snd (create_node k h)) n = (if n = next_node h then None else parent_node h n)"
  "child_nodes (snd (create_node k h)) n = (if n = next_node h then [] else child_nodes h n)"
  "next_node (snd (create_node k h)) = Suc (next_node h)"
  by (simp_all add: create_node_def)

lemma create_node_pair: "create_node k h = (next_node h, snd (create_node k h))"
  by (simp add: create_node_def)

lemmas creates = create_text_node_def create_placeholder_def create_element_def

lemma create_agree: "agree {..<next_node h} h (snd (create_node k h))"
  by (simp add: agree_def same_node_def)

lemma with_attributes_fields [simp]:
  "parent_node (with_attributes n m h) = parent_node h"
  "child_nodes (with_attributes n m h) = child_nodes h"
  "next_node (with_attributes n m h) = next_node h"
  "nodes (with_attributes n m h) x = (if x = n then node_with m (nodes h n) else nodes h x)"
  by (simp_all add: with_attributes_def)

text \<open>The state is new and detached, and shows the view.\<close>

definition built ::
  "nat set \<Rightarrow> document \<Rightarrow> document \<Rightarrow> nat list \<Rightarrow> bool" where
  "built J h h' ns \<longleftrightarrow>
     next_node h \<le> next_node h' \<and> set ns \<subseteq> {next_node h..<next_node h'} \<and> distinct ns \<and>
     agree {..<next_node h} h h'"

lemma built_step: "built J h (snd (create_node k h)) [next_node h]"
  by (simp add: built_def create_agree)

lemma built_append:
  assumes "built J h h1 ns" "built J h1 h2 ms"
  shows "built J h h2 (ns @ ms)"
proof -
  have "agree {..<next_node h} h1 h2"
    using assms by (auto simp: built_def intro: agree_subset)
  then show ?thesis
    using assms by (fastforce simp: built_def intro: agree_trans)
qed

lemma built_agree: "built J h h' ns \<Longrightarrow> S \<subseteq> {..<next_node h} \<Longrightarrow> agree S h h'"
  by (auto simp: built_def intro: agree_subset)

lemma built_keeps:
  assumes "built J h h' ns" "displays w J h p v st" "set (owned st) \<subseteq> {..<next_node h}"
  shows "displays w J h' p v st"
  using assms displays_agree(1)[OF assms(2) built_agree[OF assms(1,3)]] by (simp add: built_def)

lemma built_new_node:
  "built J (snd (create_node k h)) h' ns \<Longrightarrow>
    nodes h' (next_node h) = k \<and> parent_node h' (next_node h) = None \<and> child_nodes h' (next_node h) = []"
  by (auto simp: built_def agree_def same_node_def)

lemma displays_none: "displays w J h p v st \<Longrightarrow> n \<in> set (roots st) \<Longrightarrow> parent_node h n = p"
  and displays_all_none: "displays_all w J h p vs sts \<Longrightarrow> n \<in> set (roots_all sts) \<Longrightarrow> parent_node h n = p"
  by (induction w J h p v st and w J h p vs sts rule: displays_displays_all.induct)
     (auto simp: marker_shown_def split: view_state.splits list.splits option.splits)

lemma mount_last:
  assumes "displays w J h None v st" "distinct (owned st)" "el \<notin> set (owned st)"
  shows "mount st el None h = adopted el (roots st) (child_nodes h el @ roots st) h"
  using assms by (simp add: mount_roots insert_nodes_last displays_none distinct_roots)

lemma displays_adopted:
  assumes "displays w J h None v st" "distinct (owned st)" "p \<notin> set (owned st)"
  shows "displays w J (adopted p (roots st) xs h) (Some p) v st"
  using assms by (intro displays_moved(1)[OF assms(1,2)]) auto

lemma own_children_all: "J \<inter> set (child_nodes h p) = {} \<Longrightarrow> own_children J h p = child_nodes h p"
  by (auto simp: own_children_def filter_id_conv)

lemma create_element_pair:
  "create_element tag ns h =
    (next_node h,
     snd (create_node (ElementN ns (element_name ns tag) Map.empty) h))"
  by (simp add: create_element_def create_node_def)

lemma attrs_build_new:
  assumes "distinct (map fst as)" "h1 = snd (create_node (ElementN ns t Map.empty) h)"
  shows "attrs_build as (next_node h) h1 =
    (attrs_states (next_node h) as, with_attributes (next_node h) (put_attrs as Map.empty) h1)"
  using assms attrs_build_works[of h1 "next_node h" as] by simp

lemma build_element:
  assumes "distinct (map fst as)" "J \<subseteq> {..<next_node h}"
    "h2 = with_attributes (next_node h) (put_attrs as Map.empty)
        (snd (create_element tag (namespace et) h))"
    "build ch h2 = (st, h3)"
    "\<not> self_closing et \<Longrightarrow> displays w J h3 None ch st \<and> built J h2 h3 (owned st)"
    "build (ElementView et tag as ch) h = (r, h')"
  shows "displays w J h' None (ElementView et tag as ch) r \<and> built J h h' (owned r)"
proof -
  let ?el = "next_node h"
  have n2: "next_node h2 = Suc ?el" "child_nodes h2 ?el = []" "parent_node h2 ?el = None"
    "nodes h2 ?el = ElementN (namespace et) (local_name et tag) (put_attrs as Map.empty)"
    and a2: "agree {..<?el} h h2"
    using assms(3) by (auto simp: create_element_pair local_name_def agree_def same_node_def)
  have r: "(r, h') = (if self_closing et then (ElementState ?el (attrs_states ?el as) None, h2)
      else (ElementState ?el (attrs_states ?el as) (Some st), mount st ?el None h3))"
    using assms(4,6) attrs_build_new[OF assms(1) refl, where h = h] assms(3)
    by (simp add: create_element_pair split: if_splits)
  show ?thesis
  proof (cases "self_closing et")
    case True
    then show ?thesis
      using r n2 a2 by (auto simp: built_def own_children_def)
  next
    case False
    then have d: "displays w J h3 None ch st" and b: "built J h2 h3 (owned st)"
      using assms(5) by auto
    have el: "?el \<notin> set (owned st)" "distinct (owned st)" "set (owned st) \<subseteq> {Suc ?el..<next_node h3}"
      using b n2 by (auto simp: built_def)
    have n3: "child_nodes h3 ?el = []" "parent_node h3 ?el = None" "nodes h3 ?el = nodes h2 ?el"
      and a3: "agree {..<?el} h h3" and le: "Suc ?el \<le> next_node h3"
      using b n2 a2 by (auto simp: built_def agree_def same_node_def)
    have h': "h' = adopted ?el (roots st) (roots st) h3"
      and r': "r = ElementState ?el (attrs_states ?el as) (Some st)"
      using r False mount_last[OF d el(2,1)] n3 by auto
    have sub: "set (roots st) \<subseteq> {Suc ?el..<next_node h3}"
      using roots_owned(1) el(3) by blast
    have "displays w J h' (Some ?el) ch st"
      unfolding h' by (rule displays_adopted[OF d el(2,1)])
    moreover have "own_children J h' ?el = roots st"
      using sub assms(2) unfolding h' by (subst own_children_all) fastforce+
    moreover have "agree {..<?el} h h'"
      using a3 sub unfolding h' by (auto simp: agree_def same_node_def)
    moreover have "parent_node h' ?el = None" "nodes h' ?el = nodes h2 ?el"
      "child_nodes h' ?el = roots st" "next_node h' = next_node h3"
      using n3 sub unfolding h' by auto
    ultimately show ?thesis
      using False el sub le n2 n3 r' distinct_roots(1)[OF el(2)] by (auto simp: built_def)
  qed
qed

lemma build_eqs:
  "build (TextView s) h = (TextState (next_node h) s, snd (create_node (TextN s) h))"
  "build (PrimView e s) h = (TextState (next_node h) s, snd (create_node (TextN s) h))"
  "build UnitView h = (PlaceholderState (next_node h), snd (create_node (CommentN []) h))"
  "build (VecView vs) h =
    (VecState (fst (build_all vs (snd (create_node (CommentN []) h)))) (next_node h),
     snd (build_all vs (snd (create_node (CommentN []) h))))"
  "build (AnyView t v) h =
    (if view_exists v then (AnyState t (fst (build v h)) None, snd (build v h))
     else (AnyState t (fst (build v h)) (Some (next_node (snd (build v h)))),
           snd (create_node (CommentN []) (snd (build v h)))))"
  by (simp_all add: creates create_node_def split: prod.splits)

lemma built_marker:
  "built J (snd (create_node (CommentN c) h)) h' ns \<Longrightarrow> (w \<or> c = []) \<Longrightarrow>
    marker_shown w h' None (next_node h)"
  using built_new_node by (auto simp: marker_shown_def)

lemma built_rotate: "built J h h' (n # ns) \<Longrightarrow> built J h h' (ns @ [n])"
  by (auto simp: built_def)

lemma built_cons:
  "built J (snd (create_node k h)) h' ns \<Longrightarrow> built J h h' (next_node h # ns)"
  using built_append[OF built_step] by fastforce

lemma built_keeps_all:
  assumes "built J h h' ns" "displays_all w J h p vs sts" "set (owned_all sts) \<subseteq> {..<next_node h}"
  shows "displays_all w J h' p vs sts"
  using assms displays_agree(2)[OF assms(2) built_agree[OF assms(1,3)]] by (simp add: built_def)

lemma built_below: "built J h h' ns \<Longrightarrow> set ns \<subseteq> {..<next_node h'}"
  by (auto simp: built_def)

lemma built_le: "built J h h' ns \<Longrightarrow> J \<subseteq> {..<next_node h} \<Longrightarrow> J \<subseteq> {..<next_node h'}"
  by (auto simp: built_def)

lemma build_works:
  "proper v \<Longrightarrow> J \<subseteq> {..<next_node h} \<Longrightarrow>
    displays w J (snd (build v h)) None v (fst (build v h)) \<and>
    built J h (snd (build v h)) (owned (fst (build v h)))"
  "list_all proper vs \<Longrightarrow> J \<subseteq> {..<next_node h} \<Longrightarrow>
    displays_all w J (snd (build_all vs h)) None vs (fst (build_all vs h)) \<and>
    built J h (snd (build_all vs h)) (owned_all (fst (build_all vs h)))"
proof (induction v h and vs h rule: build_build_all.induct)
  case (1 s h)
  then show ?case
    using built_step by (simp add: build_eqs text_shown_def del: build.simps)
next
  case (2 e s h)
  then show ?case
    using built_step by (simp add: build_eqs del: build.simps)
next
  case (3 h)
  then show ?case
    using built_step by (simp add: build_eqs marker_shown_def del: build.simps)
next
  case (4 vs h)
  then show ?case
    by (auto split: prod.splits)
next
  case (5 vs h)
  then show ?case
    by (auto split: prod.splits)
next
  case (6 n i v h)
  then show ?case
    by (auto split: prod.splits)
next
  case (7 vs h)
  let ?h1 = "snd (create_node (CommentN []) h)"
  have IH: "displays_all w J (snd (build_all vs ?h1)) None vs (fst (build_all vs ?h1)) \<and>
      built J ?h1 (snd (build_all vs ?h1)) (owned_all (fst (build_all vs ?h1)))"
    using 7(2,3) by (intro 7(1)) (auto simp: creates create_node_def)
  then have "marker_shown w (snd (build_all vs ?h1)) None (next_node h)"
    "built J h (snd (build_all vs ?h1)) (owned_all (fst (build_all vs ?h1)) @ [next_node h])"
    by (auto intro: built_marker built_rotate built_cons)
  then show ?case
    using IH by (simp add: build_eqs del: build.simps)
next
  case (8 t v h)
  let ?st = "fst (build v h)"
  let ?h1 = "snd (build v h)"
  have IH: "displays w J ?h1 None v ?st" "built J h ?h1 (owned ?st)"
    using 8 by auto
  have "displays w J (snd (create_node (CommentN []) ?h1)) None v ?st"
    by (rule built_keeps[OF built_step IH(1) built_below[OF IH(2)]])
  then show ?case
    using IH built_append[OF IH(2) built_step[of J ?h1 "CommentN []"]]
    by (simp add: build_eqs marker_shown_def del: build.simps)
next
  case (9 et tag as ch h)
  let ?h2 = "with_attributes (next_node h) (put_attrs as Map.empty)
      (snd (create_element tag (namespace et) h))"
  have "\<not> self_closing et \<Longrightarrow> displays w J (snd (build ch ?h2)) None ch (fst (build ch ?h2)) \<and>
      built J ?h2 (snd (build ch ?h2)) (owned (fst (build ch ?h2)))"
    using 9(2,3) attrs_build_new[of as _ "namespace et" _ h]
    by (intro 9(1)) (auto simp: create_element_pair)
  then show ?case
    using 9(2,3) by (intro build_element) auto
next
  case (10 h)
  then show ?case
    by (simp add: built_def)
next
  case (11 v vs h)
  let ?st = "fst (build v h)"
  let ?h1 = "snd (build v h)"
  let ?sts = "fst (build_all vs ?h1)"
  let ?h2 = "snd (build_all vs ?h1)"
  have v: "displays w J ?h1 None v ?st" "built J h ?h1 (owned ?st)"
    using 11(1,3,4) by auto
  then have vs: "displays_all w J ?h2 None vs ?sts" "built J ?h1 ?h2 (owned_all ?sts)"
    using 11(2)[of "(?st, ?h1)" ?st ?h1] 11(3) built_le[OF v(2) 11(4)] by auto
  have "displays w J ?h2 None v ?st"
    by (rule built_keeps[OF vs(2) v(1) built_below[OF v(2)]])
  then show ?case
    using v vs built_append[OF v(2) vs(2)] by (auto split: prod.splits)
qed

section \<open>Places\<close>

text \<open>
  A place: the children of the element \<open>p\<close> that are not separators. \<open>changes S p h h'\<close> says that of
  the old nodes only those in \<open>S\<close> and the list of children of \<open>p\<close> may have changed.
\<close>

definition place :: "nat set \<Rightarrow> document \<Rightarrow> nat \<Rightarrow> nat list \<Rightarrow> bool" where
  "place J h p X \<longleftrightarrow>
     is_element_node (nodes h p) \<and> p < next_node h \<and> distinct (child_nodes h p) \<and>
     set (child_nodes h p) \<subseteq> {..<next_node h} \<and> J \<subseteq> {..<next_node h} \<and> own_children J h p = X"

definition changes :: "nat set \<Rightarrow> nat \<Rightarrow> document \<Rightarrow> document \<Rightarrow> bool" where
  "changes S p h h' \<longleftrightarrow>
     next_node h \<le> next_node h' \<and>
     (\<forall>x<next_node h. x \<notin> S \<longrightarrow>
        nodes h' x = nodes h x \<and> parent_node h' x = parent_node h x \<and>
        (x \<noteq> p \<longrightarrow> child_nodes h' x = child_nodes h x))"

definition placed ::
  "bool \<Rightarrow> nat set \<Rightarrow> document \<Rightarrow> nat \<Rightarrow> nat list \<Rightarrow> nat list \<Rightarrow> view \<Rightarrow> view_state \<Rightarrow> bool" where
  "placed w J h p A B v st \<longleftrightarrow>
     displays w J h (Some p) v st \<and> distinct (owned st) \<and> p \<notin> set (owned st) \<and>
     set (owned st) \<subseteq> {..<next_node h} \<and> J \<inter> set (owned st) = {} \<and>
     place J h p (A @ roots st @ B) \<and> (set A \<union> set B) \<inter> set (owned st) = {}"

lemma changes_refl [simp]: "changes S p h h"
  by (simp add: changes_def)

lemma changes_trans:
  assumes "changes S p h h1" "changes T p h1 h2" "T \<subseteq> S \<union> {next_node h..}"
  shows "changes S p h h2"
  unfolding changes_def
proof (intro conjI allI impI)
  fix x
  assume x: "x < next_node h" "x \<notin> S"
  then have "x < next_node h1" "x \<notin> T"
    using assms by (auto simp: changes_def)
  then show "nodes h2 x = nodes h x" "parent_node h2 x = parent_node h x"
    using assms(1,2) x by (auto simp: changes_def)
  assume "x \<noteq> p"
  then show "child_nodes h2 x = child_nodes h x"
    using assms(1,2) x \<open>x < next_node h1\<close> \<open>x \<notin> T\<close> by (auto simp: changes_def)
qed (use assms in \<open>auto simp: changes_def\<close>)

lemma changes_mono: "changes S p h h' \<Longrightarrow> S \<subseteq> T \<Longrightarrow> changes T p h h'"
  by (auto simp: changes_def)

lemma changes_agree:
  "changes S p h h' \<Longrightarrow> T \<subseteq> {..<next_node h} \<Longrightarrow> T \<inter> S = {} \<Longrightarrow> p \<notin> T \<Longrightarrow> agree T h h'"
  by (auto simp: changes_def agree_def same_node_def)

lemma changes_displays:
  assumes "changes S p h h'" "displays w J h q v st" "set (owned st) \<subseteq> {..<next_node h}"
    "set (owned st) \<inter> S = {}" "p \<notin> set (owned st)"
  shows "displays w J h' q v st"
  using displays_agree(1)[OF assms(2) changes_agree[OF assms(1,3-5)]] assms(1)
  by (simp add: changes_def)

lemma built_changes:
  assumes "built J h h' ns" "p < next_node h"
  shows "changes {} p h h'"
  using assms by (auto simp: built_def changes_def agree_def same_node_def)

lemma place_below: "place J h p X \<Longrightarrow> set X \<subseteq> {..<next_node h}"
  by (auto simp: place_def own_children_def)

lemma place_split:
  assumes "place J h p (A @ a # B)"
  obtains ys zs where "child_nodes h p = ys @ a # zs" "a \<notin> set ys" "a \<notin> J"
    "filter (\<lambda>x. x \<notin> J) ys = A" "filter (\<lambda>x. x \<notin> J) zs = B"
proof -
  have f: "filter (\<lambda>x. x \<notin> J) (child_nodes h p) = A @ a # B" and d: "distinct (child_nodes h p)"
    using assms by (auto simp: place_def own_children_def)
  have "a \<in> set (filter (\<lambda>x. x \<notin> J) (child_nodes h p))"
    unfolding f by simp
  then have "a \<in> set (child_nodes h p)" "a \<notin> J"
    by auto
  then show ?thesis
    using filter_split_at[OF d _ _ f] that by blast
qed

lemma insert_built:
  assumes "place J h p (A @ a # B)" "parent_node h a = Some p"
    "displays w J h1 None v st" "built J h h1 (owned st)"
  defines "h2 \<equiv> mount st p (Some a) h1"
  shows "place J h2 p (A @ roots st @ a # B) \<and> displays w J h2 (Some p) v st \<and>
    changes {} p h h2 \<and> next_node h2 = next_node h1"
proof -
  obtain ys zs where s: "child_nodes h p = ys @ a # zs" "a \<notin> set ys" "a \<notin> J"
    "filter (\<lambda>x. x \<notin> J) ys = A" "filter (\<lambda>x. x \<notin> J) zs = B"
    using place_split[OF assms(1)] .
  have old: "x < next_node h \<Longrightarrow> same_node h h1 x" for x
    using assms(4) by (auto simp: built_def agree_def)
  have pl: "p < next_node h" "set (child_nodes h p) \<subseteq> {..<next_node h}" "distinct (child_nodes h p)"
    "is_element_node (nodes h p)" "J \<subseteq> {..<next_node h}"
    using assms(1) by (auto simp: place_def)
  have a: "a < next_node h"
    using pl s by auto
  have own: "distinct (owned st)" "set (owned st) \<subseteq> {next_node h..<next_node h1}"
    "next_node h \<le> next_node h1"
    using assms(4) by (auto simp: built_def)
  have rt: "set (roots st) \<subseteq> {next_node h..<next_node h1}"
    using own roots_owned(1) by blast
  have new: "x \<in> set (roots st) \<Longrightarrow> x \<notin> set ys \<and> x \<notin> set zs \<and> x \<notin> J" for x
    using rt pl(2,5) s(1) by fastforce
  have h2: "h2 = adopted p (roots st) (ys @ roots st @ a # zs) h1"
    unfolding h2_def mount_roots
    using assms(2,3) old[OF a] old[OF pl(1)] s own(1)
    by (intro insert_nodes_before) (auto simp: same_node_def displays_none distinct_roots)
  have "displays w J h2 (Some p) v st"
    unfolding h2 using own pl(1) assms(3) by (intro displays_adopted) auto
  moreover have "place J h2 p (A @ roots st @ a # B)"
    using pl s own rt new old[OF pl(1)] distinct_roots(1)[OF own(1)]
    unfolding h2 place_def own_children_def
    by (auto simp: same_node_def filter_id_conv)
  moreover have "changes {} p h h2"
    using old rt own(3) unfolding h2 by (auto simp: changes_def same_node_def)
  ultimately show ?thesis
    by (simp add: h2)
qed

lemma remove_roots:
  assumes "place J h p X" "\<And>n. n \<in> set R \<Longrightarrow> parent_node h n = Some p" "distinct R"
  defines "h' \<equiv> fold detach R h"
  shows "place J h' p (filter (\<lambda>x. x \<notin> set R) X) \<and> changes (set R) p h h' \<and>
    next_node h' = next_node h \<and> (\<forall>n\<in>set R. parent_node h' n = None) \<and>
    (\<forall>n. n \<notin> set R \<longrightarrow> n \<noteq> p \<longrightarrow> same_node h h' n)"
proof -
  have "h' = orphaned p R (filter (\<lambda>x. x \<notin> set R) (child_nodes h p)) h"
    unfolding h'_def by (rule detach_children[OF assms(2,3)])
  then show ?thesis
    using assms(1)
    by (auto simp: place_def own_children_def changes_def same_node_def filter_filter conj_commute)
qed

section \<open>Replacing a state\<close>

text \<open>What all the ways to update the state of a view at its place have in common.\<close>

definition updated ::
  "bool \<Rightarrow> nat set \<Rightarrow> nat \<Rightarrow> nat list \<Rightarrow> nat list \<Rightarrow> nat set \<Rightarrow> document \<Rightarrow> view \<Rightarrow> view_state \<Rightarrow> document \<Rightarrow> bool"
where
  "updated w J p A B S h v st h' \<longleftrightarrow>
     placed w J h' p A B v st \<and> changes S p h h' \<and>
     set (owned st) \<subseteq> S \<union> {next_node h..<next_node h'}"

lemma placed_parents:
  "placed w J h p A B v st \<Longrightarrow> n \<in> set (roots st) \<Longrightarrow> parent_node h n = Some p"
  by (auto simp: placed_def intro: displays_none)

lemma detach_last_first:
  assumes "\<And>x. x \<in> set (xs @ [n]) \<Longrightarrow> parent_node h x = Some p" "distinct (xs @ [n])"
  shows "fold detach (xs @ [n]) (detach n h) = fold detach (xs @ [n]) h"
proof -
  let ?ys = "filter (\<lambda>x. x \<notin> set (n # xs)) (child_nodes h p)"
  have "fold detach (n # xs) h = orphaned p (n # xs) ?ys h"
    using assms by (intro detach_children) auto
  moreover have "detach n (orphaned p (n # xs) ?ys h) = orphaned p (n # xs) ?ys h"
    by (simp add: detach_def)
  moreover have "fold detach (xs @ [n]) h = orphaned p (xs @ [n]) ?ys h"
    using detach_children[OF assms] by simp
  moreover have "orphaned p (xs @ [n]) ?ys h = orphaned p (n # xs) ?ys h"
    by (auto simp: orphaned_def)
  ultimately show ?thesis
    by simp
qed

lemma replaced:
  assumes "placed w J h p A B v old" "roots old = R1 @ a # R2" "proper v'"
  defines "new \<equiv> fst (build v' h)"
    and "h1 \<equiv> snd (build v' h)"
  defines "h2 \<equiv> mount new p (Some a) h1"
  shows "updated w J p A B (set (owned old)) h v' new (fold detach (roots old) h2) \<and>
    (\<forall>n\<in>set (roots old). parent_element n h1 = Some p \<and> parent_node h2 n = Some p)"
proof -
  have J: "J \<subseteq> {..<next_node h}" and el: "is_element_node (nodes h p)" "p < next_node h"
    using assms(1) by (auto simp: placed_def place_def)
  have own: "distinct (owned old)" "p \<notin> set (owned old)" "set (owned old) \<subseteq> {..<next_node h}"
    "(set A \<union> set B) \<inter> set (owned old) = {}" "J \<inter> set (owned old) = {}"
    using assms(1) by (auto simp: placed_def)
  have d: "displays w J h1 None v' new" and b: "built J h h1 (owned new)"
    using build_works(1)[OF assms(3) J] by (simp_all add: new_def h1_def)
  have new: "distinct (owned new)" "set (owned new) \<subseteq> {next_node h..<next_node h1}"
    using b by (auto simp: built_def)
  have old: "n \<in> set (roots old) \<Longrightarrow> n \<in> set (owned old) \<and> n < next_node h" for n
    using roots_owned(1) own(3) by blast
  have pl: "place J h p ((A @ R1) @ a # R2 @ B)"
    using assms(1,2) by (simp add: placed_def)
  have i: "place J h2 p ((A @ R1) @ roots new @ a # R2 @ B)" "displays w J h2 (Some p) v' new"
    "changes {} p h h2" "next_node h2 = next_node h1"
    using insert_built[OF pl placed_parents[OF assms(1)] d b] assms(2) by (simp_all add: h2_def)
  have par: "n \<in> set (roots old) \<Longrightarrow> parent_node h2 n = Some p" for n
    using placed_parents[OF assms(1)] i(3) old by (auto simp: changes_def)
  have elem: "n \<in> set (roots old) \<Longrightarrow> parent_element n h1 = Some p" for n
    using placed_parents[OF assms(1), of n] old[of n] el b
    by (auto simp: parent_element_def built_def agree_def same_node_def)
  let ?h3 = "fold detach (roots old) h2"
  have rm: "place J ?h3 p (filter (\<lambda>x. x \<notin> set (roots old)) ((A @ R1) @ roots new @ a # R2 @ B))"
    "changes (set (roots old)) p h2 ?h3" "next_node ?h3 = next_node h2"
    "\<And>n. n \<notin> set (roots old) \<Longrightarrow> n \<noteq> p \<Longrightarrow> same_node h2 ?h3 n"
    using remove_roots[OF i(1) par distinct_roots(1)[OF own(1)]] by auto
  have apart: "x \<in> set (owned new) \<Longrightarrow> x \<notin> set (roots old) \<and> x \<noteq> p \<and> x \<notin> J \<and> next_node h \<le> x" for x
    using new(2) old[of x] el(2) J by fastforce
  have "filter (\<lambda>x. x \<notin> set (roots old)) A = A" "filter (\<lambda>x. x \<notin> set (roots old)) B = B"
    "filter (\<lambda>x. x \<notin> set (roots old)) (roots new) = roots new"
    using apart roots_owned(1)[of new] roots_owned(1)[of old] own(4) unfolding filter_id_conv
    by blast+
  then have "filter (\<lambda>x. x \<notin> set (roots old)) ((A @ R1) @ roots new @ a # R2 @ B) = A @ roots new @ B"
    using assms(2) by (auto simp: filter_empty_conv)
  then have place3: "place J ?h3 p (A @ roots new @ B)"
    using rm(1) by simp
  have "displays w J ?h3 (Some p) v' new"
    using i(2) rm(3,4) apart by (intro displays_agree(1)[OF i(2)]) (auto simp: agree_def)
  moreover have "x \<in> set A \<union> set B \<Longrightarrow> x < next_node h" for x
    using place_below[OF pl] by auto
  then have "(set A \<union> set B) \<inter> set (owned new) = {}"
    using apart by fastforce
  moreover have "changes (set (owned old)) p h ?h3"
    using roots_owned(1)[of old] by (intro changes_trans[OF changes_mono[OF i(3)] rm(2)]) auto
  ultimately have "updated w J p A B (set (owned old)) h v' new ?h3"
    unfolding updated_def placed_def using new place3 apart i(4) rm(3) by fastforce
  then show ?thesis
    using par elem by blast
qed

lemma replace_with_works:
  assumes "placed w J h p A B v old" "roots old \<noteq> []" "proper v'"
  shows "updated w J p A B (set (owned old)) h v' (fst (replace_with v' old h)) (snd (replace_with v' old h))"
proof -
  obtain a R where R: "roots old = [] @ a # R"
    using assms(2) by (cases "roots old") auto
  have "insert_before_state old (fst (build v' h)) (snd (build v' h)) =
      (True, mount (fst (build v' h)) p (Some a) (snd (build v' h)))"
    using replaced[OF assms(1) R assms(3)] insert_before_roots(1)[of old _ p] R by auto
  then show ?thesis
    using replaced[OF assms(1) R assms(3)]
    by (simp add: replace_with_def unmount_roots Let_def case_prod_beta)
qed

lemma replace_any_works:
  assumes "placed w J h p A B v old" "roots old \<noteq> []" "proper v'" "old = AnyState t st ph"
  shows "updated w J p A B (set (owned old)) h v' (fst (replace_any v' old h)) (snd (replace_any v' old h))"
proof (cases ph)
  case None
  then have "replace_any v' old h = replace_with v' old h"
    using assms(4) by (simp add: replace_any_def replace_with_def split: prod.splits)
  then show ?thesis
    using replace_with_works[OF assms(1-3)] by simp
next
  case (Some n)
  let ?new = "fst (build v' h)"
  let ?h1 = "snd (build v' h)"
  let ?h2 = "mount ?new p (Some n) ?h1"
  have R: "roots old = roots st @ n # []"
    using assms(4) Some by simp
  have r: "updated w J p A B (set (owned old)) h v' ?new (fold detach (roots old) ?h2)"
    "\<And>x. x \<in> set (roots old) \<Longrightarrow> parent_element x ?h1 = Some p"
    "\<And>x. x \<in> set (roots old) \<Longrightarrow> parent_node ?h2 x = Some p"
    using replaced[OF assms(1) R assms(3)] by auto
  have "insert_before_one n ?new ?h1 = (True, ?h2)"
    using r(2)[of n] R by (simp add: insert_before_one_def)
  moreover have "distinct (roots old)"
    using assms(1) distinct_roots(1) by (auto simp: placed_def)
  then have "fold detach (roots old) (detach n ?h2) = fold detach (roots old) ?h2"
    using r(3) R by (metis detach_last_first)
  ultimately have "snd (replace_any v' old h) = fold detach (roots old) ?h2"
    "fst (replace_any v' old h) = ?new"
    using assms(4) Some by (simp_all add: replace_any_def unmount_roots Let_def case_prod_beta)
  then show ?thesis
    using r(1) by simp
qed

end
