(* ===== verification/View_Update.thy ===== *)
theory View_Update
  imports View_Rebuild
begin

text \<open>
  Rebuilding a state with a new view of the same type: the state then shows the new view, at the
  same place, and only the nodes of the state and the children of the parent have changed.
\<close>

section \<open>Small facts\<close>

fun type_exists :: "view_type \<Rightarrow> bool" where
  "type_exists UnitType = False"
| "type_exists (TupleType ts) = list_ex type_exists ts"
| "type_exists t = True"

lemma view_exists_typed:
  "view_typed v t \<Longrightarrow> view_exists v = type_exists t"
  "views_typed vs ts \<Longrightarrow> list_ex view_exists vs = list_ex type_exists ts"
  by (induction v t and vs ts rule: view_typed_views_typed.induct)
     (auto split: view_type.splits list.splits)

lemma case_chars: "lower_char (upper_char c) = lower_char c"
  by (auto simp: lower_char_def upper_char_def Let_def)

lemma lower_upper: "lower_text (upper_text s) = lower_text s"
  by (simp add: lower_text_def upper_text_def case_chars)

lemma lower_lower: "lower_text (lower_text s) = lower_text s"
  by (auto simp: lower_text_def lower_char_def Let_def)

lemma insert_node_keeps [simp]:
  "nodes (insert_node p n a h) = nodes h"
  "x \<noteq> n \<Longrightarrow> parent_node (insert_node p n a h) x = parent_node h x"
  by (auto simp: insert_node_def insert_before_node_def Let_def detach_def split: option.splits)

lemma parent_element_insert: "x \<noteq> n \<Longrightarrow> parent_element x (insert_node p n a h) = parent_element x h"
  by (cases "parent_node h x") (simp_all add: parent_element_def)

lemma insert_nodes_keep:
  "x \<notin> set R \<Longrightarrow> parent_element x (fold (\<lambda>n. insert_node p n a) R h) = parent_element x h"
  by (induction R arbitrary: h) (auto simp: parent_element_insert)

lemma mount_before_all_eq:
  assumes "parent_element m h = Some p" "m \<notin> set (roots_all sts)"
  shows "mount_before_all sts m h = mount_all sts p (Some m) h"
  using assms
proof (induction sts arbitrary: h)
  case (Cons st sts)
  then have "parent_element m (mount st p (Some m) h) = Some p"
    by (simp add: mount_roots insert_nodes_keep)
  then show ?case
    using Cons by (simp add: try_mount_before_def)
qed simp

lemma place_elsewhere:
  assumes "place J h p X" "changes S q h h'" "p \<notin> S" "p \<noteq> q"
  shows "place J h' p X"
  using assms by (fastforce simp: place_def changes_def own_children_def)

lemma place_built:
  assumes "place J h p X" "built J h h' ns"
  shows "place J h' p X"
  using assms by (fastforce simp: place_def built_def agree_def same_node_def own_children_def)

section \<open>Lists of states\<close>

lemma placed_first:
  assumes "placed w J h p A B (TupleView (v # vs)) (TupleState (st # sts))"
  shows "placed w J h p A (roots_all sts @ B) v st"
  using assms roots_owned(2)[of sts] by (auto simp: placed_def)

lemma placed_rest:
  assumes "placed w J h p A B (TupleView (v # vs)) (TupleState (st # sts))"
    "updated w J p A (roots_all sts @ B) (set (owned st)) h v' st' h1"
  shows "placed w J h1 p (A @ roots st') B (TupleView vs) (TupleState sts)"
proof -
  have pl: "displays_all w J h (Some p) vs sts" "distinct (owned_all sts)" "p \<notin> set (owned_all sts)"
    "set (owned_all sts) \<subseteq> {..<next_node h}" "J \<inter> set (owned_all sts) = {}"
    "set (owned st) \<inter> set (owned_all sts) = {}" "(set A \<union> set B) \<inter> set (owned_all sts) = {}"
    using assms(1) by (auto simp: placed_def)
  have u: "place J h1 p (A @ roots st' @ roots_all sts @ B)" "changes (set (owned st)) p h h1"
    "set (owned st') \<subseteq> set (owned st) \<union> {next_node h..<next_node h1}"
    using assms(2) by (auto simp: updated_def placed_def)
  have "displays_all w J h1 (Some p) vs sts"
    using displays_agree(2)[OF pl(1) changes_agree[OF u(2) pl(4)]] pl u(2)
    by (auto simp: changes_def)
  moreover have "set (roots st') \<inter> set (owned_all sts) = {}"
    using roots_owned(1)[of st'] u(3) pl(4,6) by fastforce
  moreover have "next_node h \<le> next_node h1"
    using u(2) by (simp add: changes_def)
  ultimately show ?thesis
    using pl u(1) by (fastforce simp: placed_def)
qed

lemma join_updates:
  assumes u1: "updated w J p A (C @ B) S h v st' h1"
    and u2: "updated w J p (A @ roots st') B T h1 (TupleView vs) (TupleState sts') h2"
    and apart: "T \<inter> set (owned st') = {}"
  shows "updated w J p A B (S \<union> T) h (TupleView (v # vs)) (TupleState (st' # sts')) h2"
proof -
  have a: "displays w J h1 (Some p) v st'" "distinct (owned st')" "p \<notin> set (owned st')"
    "set (owned st') \<subseteq> {..<next_node h1}" "J \<inter> set (owned st') = {}"
    "(set A \<union> set B) \<inter> set (owned st') = {}" "changes S p h h1"
    "set (owned st') \<subseteq> S \<union> {next_node h..<next_node h1}"
    using u1 by (auto simp: updated_def placed_def)
  have b: "displays_all w J h2 (Some p) vs sts'" "distinct (owned_all sts')" "p \<notin> set (owned_all sts')"
    "set (owned_all sts') \<subseteq> {..<next_node h2}" "J \<inter> set (owned_all sts') = {}"
    "(set A \<union> set B) \<inter> set (owned_all sts') = {}" "changes T p h1 h2"
    "set (owned_all sts') \<subseteq> T \<union> {next_node h1..<next_node h2}"
    "place J h2 p (A @ (roots st' @ roots_all sts') @ B)"
    using u2 by (auto simp: updated_def placed_def)
  have "displays w J h2 (Some p) v st'"
    using changes_displays[OF b(7) a(1,4)] apart a(3) by auto
  moreover have "set (owned st') \<inter> set (owned_all sts') = {}"
    using b(8) a(4) apart by fastforce
  moreover have "changes (S \<union> T) p h h2"
    by (rule changes_trans[OF changes_mono[OF a(7)] b(7)]) auto
  moreover have "next_node h \<le> next_node h1" "next_node h1 \<le> next_node h2"
    using a(7) b(7) by (simp_all add: changes_def)
  ultimately show ?thesis
    using a b by (fastforce simp: updated_def placed_def)
qed

text \<open>A new state that is put before a node of the place.\<close>

lemma insert_updates:
  assumes "place J h p (A @ a # B)" "parent_node h a = Some p"
    "displays w J h1 None v st" "built J h h1 (owned st)"
  shows "updated w J p A (a # B) {} h v st (mount st p (Some a) h1)"
proof -
  let ?h2 = "mount st p (Some a) h1"
  have i: "place J ?h2 p (A @ roots st @ a # B)" "displays w J ?h2 (Some p) v st"
    "changes {} p h ?h2" "next_node ?h2 = next_node h1"
    using insert_built[OF assms] by auto
  have b: "distinct (owned st)" "set (owned st) \<subseteq> {next_node h..<next_node h1}"
    using assms(4) by (auto simp: built_def)
  have "set A \<union> set (a # B) \<subseteq> {..<next_node h}" "p < next_node h" "J \<subseteq> {..<next_node h}"
    using place_below[OF assms(1)] assms(1) by (auto simp: place_def)
  then have "(set A \<union> set (a # B)) \<inter> set (owned st) = {}" "p \<notin> set (owned st)" "J \<inter> set (owned st) = {}"
    using b(2) by fastforce+
  then show ?thesis
    unfolding updated_def placed_def using i b by auto
qed

text \<open>States that are removed from the place.\<close>

lemma unmount_updates:
  assumes "placed w J h p A B (TupleView vs) (TupleState sts)"
  shows "updated w J p A B (set (owned_all sts)) h (TupleView []) (TupleState []) (unmount_all sts h)"
proof -
  have pl: "place J h p (A @ roots_all sts @ B)" "distinct (owned_all sts)"
    "(set A \<union> set B) \<inter> set (owned_all sts) = {}"
    using assms by (auto simp: placed_def)
  have par: "n \<in> set (roots_all sts) \<Longrightarrow> parent_node h n = Some p" for n
    using placed_parents[OF assms] by simp
  have rm: "place J (unmount_all sts h) p (filter (\<lambda>x. x \<notin> set (roots_all sts)) (A @ roots_all sts @ B))"
    "changes (set (roots_all sts)) p h (unmount_all sts h)"
    using remove_roots[OF pl(1) par distinct_roots(2)[OF pl(2)]] by (auto simp: unmount_roots)
  have "filter (\<lambda>x. x \<notin> set (roots_all sts)) A = A" "filter (\<lambda>x. x \<notin> set (roots_all sts)) B = B"
    using pl(3) roots_owned(2)[of sts] unfolding filter_id_conv by blast+
  then have "place J (unmount_all sts h) p (A @ B)"
    using rm(1) by (simp add: filter_empty_conv)
  moreover have "changes (set (owned_all sts)) p h (unmount_all sts h)"
    using changes_mono[OF rm(2) roots_owned(2)] .
  ultimately show ?thesis
    by (simp add: updated_def placed_def)
qed

section \<open>Single states\<close>

lemma text_updates:
  assumes "placed w J h p A B v0 (TextState n s0)"
    "v0 = TextView s0 \<and> v = TextView s \<or> v0 = PrimView e s0 \<and> v = PrimView e s"
  shows "updated w J p A B {n} h v (TextState n s) (if s \<noteq> s0 then set_text n s h else h)"
proof (cases "s = s0")
  case True
  then show ?thesis
    using assms by (auto simp: updated_def)
next
  case False
  then show ?thesis
    using assms
    by (auto simp: updated_def placed_def place_def own_children_def set_text_def changes_def text_shown_def)
qed

lemma set_text_other: "x \<noteq> n \<Longrightarrow> nodes (set_text n s h) x = nodes h x"
  by (simp add: set_text_def)

text \<open>The placeholder after a state.\<close>

lemma marker_stays:
  assumes "updated w J p A (m # B) S h v st h'" "marker_shown w h (Some p) m" "m \<notin> S"
    "m < next_node h" "m \<noteq> p"
  shows "marker_shown w h' (Some p) m" "m \<notin> set (owned st)" "m \<notin> set A" "m \<notin> set B" "m \<notin> J"
proof -
  have "place J h' p (A @ roots st @ m # B)" and c: "changes S p h h'"
    and o: "set (owned st) \<subseteq> S \<union> {next_node h..<next_node h'}"
    using assms(1) by (auto simp: updated_def placed_def)
  then have f: "filter (\<lambda>x. x \<notin> J) (child_nodes h' p) = A @ roots st @ m # B"
    and "distinct (child_nodes h' p)"
    by (auto simp: place_def own_children_def)
  then have "distinct (A @ roots st @ m # B)"
    using distinct_filter by metis
  then show "m \<notin> set A" "m \<notin> set B"
    by auto
  have "m \<in> set (filter (\<lambda>x. x \<notin> J) (child_nodes h' p))"
    unfolding f by simp
  then show "m \<notin> J"
    by simp
  show "m \<notin> set (owned st)"
    using o assms(3,4) by auto
  show "marker_shown w h' (Some p) m"
    using c assms(2-5) by (auto simp: changes_def marker_shown_def)
qed

lemma vec_placed:
  assumes "placed w J h p A B (VecView vs) (VecState sts m)"
  shows "placed w J h p A (m # B) (TupleView vs) (TupleState sts)" "marker_shown w h (Some p) m"
    "m \<notin> set (owned_all sts)" "m < next_node h" "m \<noteq> p" "parent_element m h = Some p"
  using assms by (auto simp: placed_def marker_shown_def parent_element_def place_def)

lemma vec_updates:
  assumes "placed w J h p A B (VecView vs0) (VecState sts m)"
    "updated w J p A (m # B) (set (owned_all sts)) h (TupleView vs) (TupleState sts') h'"
  shows "updated w J p A B (set (owned (VecState sts m))) h (VecView vs) (VecState sts' m) h'"
proof -
  note m = vec_placed[OF assms(1)]
  have "next_node h \<le> next_node h'"
    using assms(2) by (auto simp: updated_def changes_def)
  then show ?thesis
    using assms(2) marker_stays[OF assms(2) m(2,3,4,5)] m(4,5) changes_mono[of "set (owned_all sts)" p h h' "insert m (set (owned_all sts))"]
    by (auto simp: updated_def placed_def)
qed

lemma any_updates:
  assumes "placed w J h p A B (AnyView t v0) (AnyState t c ph)" "view_exists v = view_exists v0"
    "\<And>C. placed w J h p A C v0 c \<Longrightarrow> updated w J p A C (set (owned c)) h v c' h'"
  shows "updated w J p A B (set (owned (AnyState t c ph))) h (AnyView t v) (AnyState t c' ph) h'"
proof (cases ph)
  case None
  then have "placed w J h p A B v0 c"
    using assms(1) by (auto simp: placed_def)
  then have "updated w J p A B (set (owned c)) h v c' h'"
    by (rule assms(3))
  then show ?thesis
    using None assms(1,2) by (auto simp: updated_def placed_def)
next
  case (Some m)
  have pl: "placed w J h p A (m # B) v0 c" and m: "marker_shown w h (Some p) m"
    "m \<notin> set (owned c)" "m < next_node h" "m \<noteq> p"
    using assms(1) Some by (auto simp: placed_def)
  have u: "updated w J p A (m # B) (set (owned c)) h v c' h'"
    by (rule assms(3)[OF pl])
  have "next_node h \<le> next_node h'"
    using u by (auto simp: updated_def changes_def)
  then show ?thesis
    using u marker_stays[OF u m] m(3,4) Some assms(1,2)
      changes_mono[of "set (owned c)" p h h' "insert m (set (owned c))"]
    by (auto simp: updated_def placed_def)
qed

lemma upper_empty [simp]: "upper_text s = [] \<longleftrightarrow> s = []" "lower_text s = [] \<longleftrightarrow> s = []"
  by (simp_all add: upper_text_def lower_text_def)

lemma upper_invalid: "lower_text (upper_text ''halyard-invalid-element'') = ''halyard-invalid-element''"
  by (subst lower_upper) (simp add: lower_text_def lower_char_def)

lemma local_name_kept:
  assumes "const_tag et = [] \<longrightarrow> tag = tag_name_of (ElementN (namespace et) (local_name et tag0) m)"
    "const_tag et \<noteq> [] \<longrightarrow> tag = tag0"
  shows "local_name et tag = local_name et tag0"
  using assms upper_invalid
  by (cases "const_tag et = []") (auto simp: local_name_def element_name_def lower_upper lower_lower)

lemma attributes_update:
  assumes "nodes h el = ElementN ns t (put_attrs as0 Map.empty)" "distinct (map fst as0)"
    "attrs_typed as0 ats" "attrs_typed as ats"
  shows "attrs_rebuild as (attrs_states el as0) h =
    Some (attrs_states el as, with_attributes el (put_attrs as Map.empty) h)"
proof -
  have "map fst as0 = map fst as"
    using attrs_typed_keys assms(3,4) by metis
  then have "put_attrs as (put_attrs as0 Map.empty) = put_attrs as Map.empty"
    using put_attrs_again assms(2) by metis
  moreover have "(k, v) \<in> set as0 \<Longrightarrow> attributes_of (nodes h el) k = shown_value v" for k v
    using assms(1) put_attrs_values[OF assms(2)] by simp
  then have "attrs_rebuild as (attrs_states el as0) h =
      Some (attrs_states el as, with_attributes el (put_attrs as (attributes_of (nodes h el))) h)"
    using assms(1) by (intro attrs_rebuild_works[OF _ assms(2-4)]) simp_all
  ultimately show ?thesis
    using assms(1) by simp
qed

text \<open>The children of an element form a place of their own.\<close>

lemma element_children:
  assumes "placed w J h p A B (ElementView et tag0 as0 ch0) (ElementState el sts (Some c))"
  shows "placed w J (with_attributes el m h) el [] [] ch0 c"
proof -
  have d: "displays w J h (Some el) ch0 c" and "el \<notin> set (owned c)"
    using assms by (auto simp: placed_def)
  then have "displays w J (with_attributes el m h) (Some el) ch0 c"
    by (intro displays_agree(1)[OF d]) (auto simp: agree_def same_node_def)
  then show ?thesis
    using assms by (auto simp: placed_def place_def own_children_def)
qed

lemma element_updates:
  fixes as :: attrs
  assumes pl: "placed w J h p A B (ElementView et tag0 as0 ch0) (ElementState el sts c)"
    and kept: "local_name et tag = local_name et tag0" "view_exists ch = view_exists ch0"
  defines "h1 \<equiv> with_attributes el (put_attrs as Map.empty) h"
  assumes children: "case c of None \<Rightarrow> c' = None \<and> h2 = h1
      | Some d \<Rightarrow> (\<exists>d'. c' = Some d' \<and> updated w J el [] [] (set (owned d)) h1 ch d' h2)"
  shows "updated w J p A B (set (owned (ElementState el sts c))) h (ElementView et tag as ch)
    (ElementState el (attrs_states el as) c') h2"
proof (cases c)
  case None
  then show ?thesis
    using assms by (auto simp: updated_def placed_def place_def own_children_def changes_def)
next
  case (Some d)
  then obtain d' where c': "c' = Some d'" and u: "updated w J el [] [] (set (owned d)) h1 ch d' h2"
    using children by auto
  have el: "el < next_node h" "el \<noteq> p" "el \<notin> set (owned d)" "p \<notin> set (owned d)" "el \<notin> J"
    "p < next_node h" "parent_node h el = Some p" "el \<notin> set A" "el \<notin> set B"
    "set (owned d) \<subseteq> {..<next_node h}" "(set A \<union> set B) \<inter> set (owned d) = {}" "J \<subseteq> {..<next_node h}"
    "J \<inter> set (owned d) = {}" "\<not> self_closing et" "place J h p (A @ el # B)"
    "nodes h el = ElementN (namespace et) (local_name et tag0) (put_attrs as0 Map.empty)"
    using pl Some by (auto simp: placed_def place_def)
  have u': "displays w J h2 (Some el) ch d'" "distinct (owned d')" "el \<notin> set (owned d')"
    "set (owned d') \<subseteq> {..<next_node h2}" "J \<inter> set (owned d') = {}" "place J h2 el (roots d')"
    "changes (set (owned d)) el h1 h2" "set (owned d') \<subseteq> set (owned d) \<union> {next_node h..<next_node h2}"
    using u by (auto simp: updated_def placed_def h1_def)
  have "changes {el} p h h1"
    using el(1) by (auto simp: changes_def h1_def)
  then have c1: "changes (insert el (set (owned d))) p h h2"
    using u'(7) el(2) by (auto simp: changes_def)
  have "changes {el} el h h1"
    by (auto simp: changes_def h1_def)
  then have c2: "changes (insert el (set (owned d))) el h h2"
    using u'(7) by (auto simp: changes_def)
  have "place J h2 p (A @ el # B)"
    by (rule place_elsewhere[OF el(15) c2]) (use el in auto)
  moreover have "nodes h2 el = ElementN (namespace et) (local_name et tag0) (put_attrs as Map.empty)"
    "parent_node h2 el = Some p"
    using u'(7) el by (auto simp: changes_def h1_def)
  moreover have "(insert p (set A \<union> set B)) \<inter> set (owned d') = {}"
    using u'(8) el(4,6,11) place_below[OF el(15)] by fastforce
  moreover have "next_node h \<le> next_node h2"
    using c1 by (simp add: changes_def)
  ultimately show ?thesis
    using u' el kept c1 Some c' by (auto simp: updated_def placed_def place_def own_children_def)
qed

section \<open>Rebuilding\<close>

lemma rest_apart:
  assumes "placed w J h p A B (TupleView (v # vs)) (TupleState (st # sts))"
    "updated w J p A (roots_all sts @ B) (set (owned st)) h v' st' h1"
  shows "set (owned_all sts) \<inter> set (owned st') = {}"
  using assms by (fastforce simp: placed_def updated_def)

lemma rebuild_element_works:
  assumes pl: "placed w J h p A B (ElementView et tag0 as0 ch0) (ElementState el sts c)"
    and typed: "view_typed (ElementView et tag0 as0 ch0) t" "view_typed (ElementView et tag as ch) t"
    and good: "proper (ElementView et tag0 as0 ch0)" "proper (ElementView et tag as ch)"
    and IH: "\<And>d h1 ch0 u. \<not> (const_tag et = [] \<and> tag \<noteq> tag_name_of (nodes h el)) \<Longrightarrow>
      attrs_rebuild as sts h = Some (attrs_states el as, h1) \<Longrightarrow> c = Some d \<Longrightarrow>
      placed w J h1 el [] [] ch0 d \<Longrightarrow> view_typed ch0 u \<Longrightarrow> view_typed ch u \<Longrightarrow> proper ch0 \<Longrightarrow>
      \<exists>d' h2. rebuild ch d h1 = Some (d', h2) \<and> updated w J el [] [] (set (owned d)) h1 ch d' h2"
  shows "\<exists>st' h'. rebuild (ElementView et tag as ch) (ElementState el sts c) h = Some (st', h') \<and>
    updated w J p A B (set (owned (ElementState el sts c))) h (ElementView et tag as ch) st' h'"
proof -
  let ?v = "ElementView et tag as ch"
  let ?st = "ElementState el sts c"
  obtain ats u where t: "t = ElementType et ats u" and as: "attrs_typed as0 ats" "attrs_typed as ats"
    and ch: "view_typed ch0 u" "view_typed ch u"
    and tags: "const_tag et \<noteq> [] \<Longrightarrow> tag0 = const_tag et" "const_tag et \<noteq> [] \<Longrightarrow> tag = const_tag et"
    using typed by (auto split: view_type.splits)
  have el: "nodes h el = ElementN (namespace et) (local_name et tag0) (put_attrs as0 Map.empty)"
    and sts: "sts = attrs_states el as0"
    using pl by (auto simp: placed_def)
  show ?thesis
  proof (cases "const_tag et = [] \<and> tag \<noteq> tag_name_of (nodes h el)")
    case True
    then show ?thesis
      using replace_with_works[OF pl _ good(2)] by (cases "replace_with ?v ?st h") simp
  next
    case False
    let ?h1 = "with_attributes el (put_attrs as Map.empty) h"
    have kept: "local_name et tag = local_name et tag0" "view_exists ch = view_exists ch0"
      using False tags el local_name_kept[of et tag tag0] view_exists_typed(1)[OF ch(1)]
        view_exists_typed(1)[OF ch(2)] by auto
    have r: "attrs_rebuild as sts h = Some (attrs_states el as, ?h1)"
      unfolding sts using good by (intro attributes_update[OF el _ as]) simp
    show ?thesis
    proof (cases c)
      case None
      then have "rebuild ?v ?st h = Some (ElementState el (attrs_states el as) None, ?h1)"
        using False r by auto
      then show ?thesis
        using element_updates[where as = as, OF pl kept, of None ?h1] None by simp
    next
      case (Some d)
      obtain d' h2 where d': "rebuild ch d ?h1 = Some (d', h2)"
        "updated w J el [] [] (set (owned d)) ?h1 ch d' h2"
        using IH[OF False r Some element_children ch] pl Some good by fastforce
      then have "rebuild ?v ?st h = Some (ElementState el (attrs_states el as) (Some d'), h2)"
        using False r Some by auto
      then show ?thesis
        using element_updates[where as = as, OF pl kept, of "Some d'" h2] Some d'(2) by simp
    qed
  qed
qed

lemma rebuild_works:
  "placed w J h p A B v0 st \<Longrightarrow> view_typed v0 t \<Longrightarrow> view_typed v t \<Longrightarrow> proper v0 \<Longrightarrow> proper v \<Longrightarrow>
    \<exists>st' h'. rebuild v st h = Some (st', h') \<and> updated w J p A B (set (owned st)) h v st' h'"
  "placed w J g p A B (TupleView us0) (TupleState sts) \<Longrightarrow> views_typed us0 ts \<Longrightarrow>
    views_typed us ts \<Longrightarrow> list_all proper us0 \<Longrightarrow> list_all proper us \<Longrightarrow>
    \<exists>sts' h'. rebuild_all us sts g = Some (sts', h') \<and>
      updated w J p A B (set (owned_all sts)) g (TupleView us) (TupleState sts') h'"
  "placed w J k p A (m # B) (TupleView ws0) (TupleState items) \<Longrightarrow> parent_node k m = Some p \<Longrightarrow>
    m \<notin> set (owned_all items) \<Longrightarrow> views_typed ws0 (replicate (length ws0) x) \<Longrightarrow>
    views_typed ws (replicate (length ws) x) \<Longrightarrow> list_all proper ws0 \<Longrightarrow> list_all proper ws \<Longrightarrow>
    \<exists>sts' h'. rebuild_items ws items m k = Some (sts', h') \<and>
      updated w J p A (m # B) (set (owned_all items)) k (TupleView ws) (TupleState sts') h'"
proof (induction v st h and us sts g and ws items m k
    arbitrary: p A B v0 t and p A B us0 ts and p A B ws0 x
    rule: rebuild_rebuild_all_rebuild_items.induct)
  case (1 s st h)
  then obtain n s0 where "v0 = TextView s0" "st = TextState n s0"
    by (cases v0; cases st) (auto simp: placed_def split: view_type.splits)
  then show ?case
    using text_updates[of w J h p A B v0 n s0 "TextView s" s] 1 by simp
next
  case (2 e s st h)
  then obtain n s0 where "v0 = PrimView e s0" "st = TextState n s0"
    by (cases v0; cases st) (auto simp: placed_def split: view_type.splits)
  then show ?case
    using text_updates[of w J h p A B v0 n s0 "PrimView e s" s e] 2 by simp
next
  case (3 st h)
  then obtain n where "v0 = UnitView" "st = PlaceholderState n"
    by (cases v0; cases st) (auto simp: placed_def split: view_type.splits)
  then show ?case
    using 3 by (auto simp: updated_def placed_def)
next
  case (4 vs st h)
  then obtain vs0 sts ts where s: "v0 = TupleView vs0" "st = TupleState sts" "t = TupleType ts"
    by (cases v0; cases st) (auto simp: placed_def split: view_type.splits)
  then obtain sts' h' where "rebuild_all vs sts h = Some (sts', h')"
    "updated w J p A B (set (owned_all sts)) h (TupleView vs) (TupleState sts') h'"
    using 4(1)[OF s(2), of p A B vs0 ts] 4(2-) by auto
  then show ?case
    using s by simp
next
  case (5 vs st h)
  then obtain vs0 sts u n where s: "v0 = ArrayView vs0" "st = ArrayState sts" "t = ArrayType u n"
    by (cases v0; cases st) (auto simp: placed_def split: view_type.splits)
  then have "placed w J h p A B (TupleView vs0) (TupleState sts)"
    using 5(2) by (simp add: placed_def)
  then obtain sts' h' where "rebuild_all vs sts h = Some (sts', h')"
    "updated w J p A B (set (owned_all sts)) h (TupleView vs) (TupleState sts') h'"
    using 5(1)[OF s(2), of p A B vs0 "replicate n u"] 5(3-) s by auto
  then show ?case
    using s by (simp add: updated_def placed_def)
next
  case (6 n i v st h)
  then obtain j v1 c ts where s: "v0 = EitherView n j v1" "st = EitherState j c" "t = EitherType ts"
    by (cases v0; cases st) (auto simp: placed_def split: view_type.splits)
  then have pl: "placed w J h p A B v1 c"
    using 6(2) by (simp add: placed_def)
  show ?case
  proof (cases "i = j")
    case True
    then obtain c' h' where "rebuild v c h = Some (c', h')" "updated w J p A B (set (owned c)) h v c' h'"
      using 6(1)[OF s(2) True pl, of "ts ! i"] 6(3-) s by auto
    then show ?thesis
      using s True by (simp add: updated_def placed_def)
  next
    case False
    have "roots c \<noteq> []"
      using displays_has_roots(1) pl 6(5) s by (auto simp: placed_def)
    then have "updated w J p A B (set (owned c)) h v (fst (replace_with v c h)) (snd (replace_with v c h))"
      using replace_with_works[OF pl] 6(6) by simp
    then show ?thesis
      using s False by (cases "replace_with v c h") (simp add: updated_def placed_def)
  qed
next
  case (7 vs st h)
  then obtain vs0 sts m u where s: "v0 = VecView vs0" "st = VecState sts m" "t = VecType u"
    by (cases v0; cases st) (auto simp: placed_def split: view_type.splits)
  have pl: "placed w J h p A B (VecView vs0) (VecState sts m)"
    using 7(2) s by simp
  note m = vec_placed[OF pl]
  consider "sts = []" | "sts \<noteq> []" "vs = []" | "sts \<noteq> []" "vs \<noteq> []"
    by blast
  then have "\<exists>sts' h'. rebuild (VecView vs) st h = Some (VecState sts' m, h') \<and>
      updated w J p A (m # B) (set (owned_all sts)) h (TupleView vs) (TupleState sts') h'"
  proof cases
    case 1
    let ?h1 = "snd (create_node (CommentN []) h)"
    let ?new = "fst (build_all vs ?h1)"
    let ?h2 = "snd (build_all vs ?h1)"
    have p: "place J h p (A @ m # B)" and J: "J \<subseteq> {..<next_node ?h1}"
      using m(1) 1 by (auto simp: placed_def place_def)
    have b: "displays_all w J ?h2 None vs ?new" "built J ?h1 ?h2 (owned_all ?new)"
      using build_works(2)[OF _ J] 7(6) by auto
    have "place J ?h1 p (A @ m # B)"
      by (rule place_built[OF p built_step])
    moreover have mp: "parent_node ?h1 m = Some p" "parent_element m ?h2 = Some p"
      using m(2,4) p b(2) by (auto simp: marker_shown_def parent_element_def built_def agree_def
          same_node_def place_def)
    ultimately have "updated w J p A (m # B) {} ?h1 (TupleView vs) (TupleState ?new)
        (mount (TupleState ?new) p (Some m) ?h2)"
      using b by (intro insert_updates) auto
    moreover have "m \<notin> set (roots_all ?new)"
      using roots_owned(2)[of ?new] b(2) m(4) by (auto simp: built_def)
    then have "mount_before_all ?new m ?h2 = mount (TupleState ?new) p (Some m) ?h2"
      using mount_before_all_eq mp(2) by simp
    moreover have "changes {} p h ?h1"
      by (auto simp: changes_def)
    ultimately have "updated w J p A (m # B) {} h (TupleView vs) (TupleState ?new)
        (mount_before_all ?new m ?h2)"
      using changes_trans[of "{}" p h ?h1 "{}"] by (auto simp: updated_def)
    then show ?thesis
      using 1 s by (simp add: create_placeholder_def create_node_def case_prod_beta)
  next
    case 2
    then show ?thesis
      using unmount_updates[OF m(1)] s by simp
  next
    case 3
    then show ?thesis
      using 7(1)[OF s(2) 3 m(1) _ m(3), of u] m(2) 7(3-) s by (auto simp: marker_shown_def)
  qed
  then show ?case
    using vec_updates[OF pl] s by blast
next
  case (8 u v st h)
  then obtain u0 v1 c ph where s: "v0 = AnyView u0 v1" "st = AnyState u0 c ph" "t = AnyType"
    by (cases v0; cases st) (auto simp: placed_def split: view_type.splits)
  have pl: "placed w J h p A B (AnyView u0 v1) (AnyState u0 c ph)"
    using 8(2) s by simp
  show ?case
  proof (cases "u = u0")
    case True
    have typed: "view_typed v1 u0" "view_typed v u0" "proper v1" "proper v"
      using 8(3-) s True by auto
    have "placed w J h p A (case ph of None \<Rightarrow> B | Some m \<Rightarrow> m # B) v1 c"
      using pl by (auto simp: placed_def split: option.splits)
    then obtain c' h' where r: "rebuild v c h = Some (c', h')"
      using 8(1)[OF s(2) True _ typed] by blast
    then have "placed w J h p A C v1 c \<Longrightarrow> updated w J p A C (set (owned c)) h v c' h'" for C
      using 8(1)[OF s(2) True _ typed, of p A C] by auto
    then have "updated w J p A B (set (owned st)) h (AnyView u v) (AnyState u0 c' ph) h'"
      using any_updates[OF pl] view_exists_typed(1)[OF typed(1)] view_exists_typed(1)[OF typed(2)]
        s True by simp
    then show ?thesis
      using s True r by simp
  next
    case False
    have "roots st \<noteq> []"
      using displays_has_roots(1) 8(2,5) by (auto simp: placed_def)
    then have "updated w J p A B (set (owned st)) h (AnyView u v)
        (fst (replace_any (AnyView u v) st h)) (snd (replace_any (AnyView u v) st h))"
      using replace_any_works[OF 8(2) _ 8(6) s(2)] by simp
    then show ?thesis
      using s False by (cases "replace_any (AnyView u v) st h") simp
  qed
next
  case (9 et tag as ch st h)
  then obtain tag0 as0 ch0 el sts c where s: "v0 = ElementView et tag0 as0 ch0" "st = ElementState el sts c"
    by (cases v0; cases st) (auto simp: placed_def split: view_type.splits)
  have IH: "\<exists>d' h2. rebuild ch d h1 = Some (d', h2) \<and> updated w J el [] [] (set (owned d)) h1 ch d' h2"
    if "\<not> (const_tag et = [] \<and> tag \<noteq> tag_name_of (nodes h el))"
      "attrs_rebuild as sts h = Some (attrs_states el as, h1)" "c = Some d"
      "placed w J h1 el [] [] ch1 d" "view_typed ch1 u" "view_typed ch u" "proper ch1" for d h1 ch1 u
    using 9(1)[OF s(2) that(1,2) refl that(3-7)] 9(6) by simp
  show ?case
    unfolding s
  proof (rule rebuild_element_works)
    show "placed w J h p A B (ElementView et tag0 as0 ch0) (ElementState el sts c)"
      "view_typed (ElementView et tag0 as0 ch0) t" "view_typed (ElementView et tag as ch) t"
      "proper (ElementView et tag0 as0 ch0)" "proper (ElementView et tag as ch)"
      using 9(2-) s by blast+
  qed (rule IH; assumption)
next
  case (10 sts h)
  then show ?case
    by (cases us0) (auto simp: placed_def updated_def)
next
  case (11 v vs sts h)
  then obtain v1 vs1 st rest t ts' where s: "us0 = v1 # vs1" "sts = st # rest" "ts = t # ts'"
    by (cases us0; cases sts; cases ts) (auto simp: placed_def)
  have pl: "placed w J h p A B (TupleView (v1 # vs1)) (TupleState (st # rest))"
    using 11(3) s by simp
  obtain st' h1 where r1: "rebuild v st h = Some (st', h1)"
    and u1: "updated w J p A (roots_all rest @ B) (set (owned st)) h v st' h1"
    using 11(1)[OF s(2) placed_first[OF pl], of t] 11(4-) s by auto
  obtain rest' h2 where r2: "rebuild_all vs rest h1 = Some (rest', h2)"
    and u2: "updated w J p (A @ roots st') B (set (owned_all rest)) h1 (TupleView vs) (TupleState rest') h2"
    using 11(2)[OF s(2) r1 refl placed_rest[OF pl u1], of ts'] 11(4-) s by auto
  show ?case
    using join_updates[OF u1 u2 rest_apart[OF pl u1]] r1 r2 s by simp
next
  case (12 sts m h)
  then show ?case
    using unmount_updates by simp
next
  case (13 v vs sts m h)
  have v: "view_typed v x" "views_typed vs (replicate (length vs) x)" "proper v" "list_all proper vs"
    using 13(8,10) by auto
  show ?case
  proof (cases sts)
    case Nil
    then have ws0: "ws0 = []"
      using 13(4) by (cases ws0) (auto simp: placed_def)
    have pl: "place J h p (A @ m # B)" and J: "J \<subseteq> {..<next_node h}"
      using 13(4) Nil by (auto simp: placed_def place_def)
    let ?st = "fst (build v h)"
    let ?h1 = "snd (build v h)"
    let ?h2 = "mount ?st p (Some m) ?h1"
    have b: "displays w J ?h1 None v ?st" "built J h ?h1 (owned ?st)"
      using build_works(1)[OF v(3) J] by auto
    have u1: "updated w J p A (m # B) {} h v ?st ?h2"
      by (rule insert_updates[OF pl 13(5) b])
    have "m < next_node h"
      using place_below[OF pl] by simp
    then have "parent_element m ?h1 = Some p" and m2: "parent_node ?h2 m = Some p"
      using 13(5) pl b(2) u1
      by (auto simp: parent_element_def built_def agree_def same_node_def place_def updated_def changes_def)
    then have t: "try_mount_before ?st m ?h1 = (True, ?h2)"
      by (simp add: try_mount_before_def)
    have "placed w J ?h2 p (A @ roots ?st) (m # B) (TupleView []) (TupleState [])"
      using u1 by (simp add: placed_def updated_def)
    then obtain sts' h3 where r: "rebuild_items vs [] m ?h2 = Some (sts', h3)"
      "updated w J p (A @ roots ?st) (m # B) {} ?h2 (TupleView vs) (TupleState sts') h3"
      using 13(1)[OF Nil refl, of ?st ?h1 "(True, ?h2)" True ?h2 p "A @ roots ?st" B "[]" x] t m2 v
      by auto
    have "updated w J p A (m # B) ({} \<union> {}) h (TupleView (v # vs)) (TupleState (?st # sts')) h3"
      by (rule join_updates[OF _ r(2), where C = "[]"]) (use u1 in simp_all)
    then show ?thesis
      using Nil t r(1) by (simp add: case_prod_beta)
  next
    case (Cons st rest)
    then obtain v1 vs1 where ws0: "ws0 = v1 # vs1"
      using 13(4) by (cases ws0) (auto simp: placed_def)
    have pl: "placed w J h p A (m # B) (TupleView (v1 # vs1)) (TupleState (st # rest))"
      using 13(4) Cons ws0 by simp
    obtain st' h1 where r1: "rebuild v st h = Some (st', h1)"
      and u1: "updated w J p A (roots_all rest @ m # B) (set (owned st)) h v st' h1"
      using 13(2)[OF Cons placed_first[OF pl] _ v(1) _ v(3)] 13(7,9) ws0 by auto
    have "m < next_node h"
      using place_below[of J h p "A @ roots_all (st # rest) @ m # B"] pl by (simp add: placed_def)
    then have "parent_node h1 m = Some p"
      using u1 13(5,6) Cons by (auto simp: updated_def changes_def)
    then obtain rest' h2 where r2: "rebuild_items vs rest m h1 = Some (rest', h2)"
      and u2: "updated w J p (A @ roots st') (m # B) (set (owned_all rest)) h1 (TupleView vs) (TupleState rest') h2"
      using 13(3)[OF Cons r1 refl placed_rest[OF pl u1] _ _ _ v(2) _ v(4)] 13(6,7,9) ws0 Cons by auto
    show ?thesis
      using join_updates[OF u1 u2 rest_apart[OF pl u1]] r1 r2 Cons by simp
  qed
qed

end
