(* ===== verification/View_Looks.thy ===== *)
theory View_Looks
  imports View_Update
begin

text \<open>
  What a page looks like, as trees, and the reference for updates: after any number of updates the
  place of a view looks as if the last view had just been built there, and the rest of the page is
  as it was.
\<close>

section \<open>Trees of a page\<close>

datatype page_tree = Branch dom_node "page_tree list"

fun has_tree :: "document \<Rightarrow> nat \<Rightarrow> page_tree \<Rightarrow> bool"
and has_forest :: "document \<Rightarrow> nat list \<Rightarrow> page_tree list \<Rightarrow> bool" where
  "has_tree h n (Branch k ts) = (nodes h n = k \<and> has_forest h (child_nodes h n) ts)"
| "has_forest h ns [] = (ns = [])"
| "has_forest h ns (t # ts) =
     (case ns of [] \<Rightarrow> False | n # ms \<Rightarrow> has_tree h n t \<and> has_forest h ms ts)"

text \<open>The trees a view stands for.\<close>

fun looks :: "view \<Rightarrow> page_tree list"
and looks_all :: "view list \<Rightarrow> page_tree list" where
  "looks (TextView s) = [Branch (TextN s) []]"
| "looks (PrimView e s) = [Branch (TextN s) []]"
| "looks UnitView = [Branch (CommentN []) []]"
| "looks (TupleView vs) = looks_all vs"
| "looks (ArrayView vs) = looks_all vs"
| "looks (EitherView n i v) = looks v"
| "looks (VecView vs) = looks_all vs @ [Branch (CommentN []) []]"
| "looks (AnyView t v) = looks v @ (if view_exists v then [] else [Branch (CommentN []) []])"
| "looks (ElementView et tag as ch) =
     [Branch (ElementN (namespace et) (local_name et tag) (put_attrs as Map.empty))
        (if self_closing et then [] else looks ch)]"
| "looks_all [] = []"
| "looks_all (v # vs) = looks v @ looks_all vs"

lemma has_forest_append:
  "has_forest h xs ts \<Longrightarrow> has_forest h ys us \<Longrightarrow> has_forest h (xs @ ys) (ts @ us)"
  by (induction ts arbitrary: xs) (auto split: list.splits)

lemma displays_looks:
  "displays w J h p v st \<Longrightarrow> \<not> w \<Longrightarrow> J = {} \<Longrightarrow> has_forest h (roots st) (looks v)"
  "displays_all w J h p vs sts \<Longrightarrow> \<not> w \<Longrightarrow> J = {} \<Longrightarrow> has_forest h (roots_all sts) (looks_all vs)"
  by (induction w J h p v st and w J h p vs sts rule: displays_displays_all.induct)
     (auto simp: text_shown_def marker_shown_def own_children_def has_forest_append
       split: view_state.splits list.splits option.splits)

section \<open>Mounting a view and updating it\<close>

text \<open>What \<^verbatim>\<open>mount_to\<close> does with a view, before a marker or at the end.\<close>

definition mount_view :: "view \<Rightarrow> nat \<Rightarrow> nat option \<Rightarrow> document \<Rightarrow> view_state \<times> document" where
  "mount_view v p m h = (let (st, h1) = build v h in (st, mount st p m h1))"

text \<open>Updates one after the other.\<close>

fun update_all :: "view list \<Rightarrow> view_state \<Rightarrow> document \<Rightarrow> (view_state \<times> document) option" where
  "update_all [] st h = Some (st, h)"
| "update_all (v # vs) st h =
     (case rebuild v st h of None \<Rightarrow> None | Some (st', h') \<Rightarrow> update_all vs st' h')"

text \<open>
  The place where a view is mounted: the element \<open>p\<close> has the children \<open>A @ B\<close>, and the view goes
  between \<open>A\<close> and \<open>B\<close>.
\<close>

definition mount_point :: "document \<Rightarrow> nat \<Rightarrow> nat option \<Rightarrow> nat list \<Rightarrow> nat list \<Rightarrow> bool" where
  "mount_point h p m A B \<longleftrightarrow>
     is_element_node (nodes h p) \<and> p < next_node h \<and> child_nodes h p = A @ B \<and> distinct (A @ B) \<and>
     set (A @ B) \<subseteq> {..<next_node h} \<and>
     (case m of None \<Rightarrow> B = [] | Some b \<Rightarrow> B \<noteq> [] \<and> hd B = b \<and> parent_node h b = Some p)"

lemma mount_point_place: "mount_point h p m A B \<Longrightarrow> place {} h p (A @ B)"
  by (simp add: mount_point_def place_def own_children_def)

lemma mount_last_updates:
  assumes "place {} h p A" "displays w {} h1 None v st" "built {} h h1 (owned st)"
  shows "updated w {} p A [] {} h v st (mount st p None h1)"
proof -
  have pl: "is_element_node (nodes h p)" "p < next_node h" "distinct A" "child_nodes h p = A"
    "set A \<subseteq> {..<next_node h}"
    using assms(1) by (auto simp: place_def own_children_def)
  have own: "distinct (owned st)" "set (owned st) \<subseteq> {next_node h..<next_node h1}"
    "next_node h \<le> next_node h1"
    using assms(3) by (auto simp: built_def)
  have old: "x < next_node h \<Longrightarrow> same_node h h1 x" for x
    using assms(3) by (auto simp: built_def agree_def)
  have apart: "p \<notin> set (owned st)" "set A \<inter> set (owned st) = {}"
    using own pl by fastforce+
  have m: "mount st p None h1 = adopted p (roots st) (A @ roots st) h1"
    using mount_last[OF assms(2) own(1) apart(1)] old[OF pl(2)] pl(4) by (simp add: same_node_def)
  have rt: "set (roots st) \<subseteq> {next_node h..<next_node h1}" "distinct (roots st)"
    using own roots_owned(1) distinct_roots(1) by blast+
  have "displays w {} (mount st p None h1) (Some p) v st"
    unfolding m by (rule displays_adopted[OF assms(2) own(1) apart(1)])
  moreover have "place {} (mount st p None h1) p (A @ roots st)"
    using pl own rt roots_owned(1)[of st] apart old[OF pl(2)] unfolding m
    by (auto simp: place_def own_children_def same_node_def)
  moreover have "changes {} p h (mount st p None h1)"
    using old rt own(3) unfolding m by (auto simp: changes_def same_node_def)
  ultimately show ?thesis
    using own apart by (auto simp: updated_def placed_def m)
qed

lemma mount_view_works:
  assumes "mount_point h p m A B" "proper v"
  shows "updated False {} p A B {} h v (fst (mount_view v p m h)) (snd (mount_view v p m h))"
proof -
  let ?st = "fst (build v h)"
  let ?h1 = "snd (build v h)"
  have b: "displays False {} ?h1 None v ?st" "built {} h ?h1 (owned ?st)"
    using build_works(1)[OF assms(2), of "{}" h] by auto
  note pl = mount_point_place[OF assms(1)]
  have "updated False {} p A B {} h v ?st (mount ?st p m ?h1)"
  proof (cases m)
    case None
    then show ?thesis
      using mount_last_updates[OF _ b] pl assms(1) by (simp add: mount_point_def)
  next
    case (Some a)
    then obtain B' where B: "B = a # B'" and a: "parent_node h a = Some p"
      using assms(1) by (cases B) (auto simp: mount_point_def)
    show ?thesis
      using insert_updates[OF pl[unfolded B] a b] Some B by simp
  qed
  then show ?thesis
    by (simp add: mount_view_def case_prod_beta)
qed

lemma updates_chain:
  assumes "updated w J p A B S h v st h1" "\<forall>u\<in>set (v # vs). view_typed u t \<and> proper u"
  shows "\<exists>st' h2. update_all vs st h1 = Some (st', h2) \<and> updated w J p A B S h (last (v # vs)) st' h2"
  using assms
proof (induction vs arbitrary: v st h1)
  case (Cons u vs)
  have pl: "placed w J h1 p A B v st" and c: "changes S p h h1"
    and o: "set (owned st) \<subseteq> S \<union> {next_node h..<next_node h1}"
    using Cons(2) by (auto simp: updated_def)
  obtain st' h2 where r: "rebuild u st h1 = Some (st', h2)"
    and u: "updated w J p A B (set (owned st)) h1 u st' h2"
    using rebuild_works(1)[OF pl, of t u] Cons(3) by auto
  have "set (owned st) \<subseteq> S \<union> {next_node h..}"
    using o by auto
  then have "changes S p h h2"
    using changes_trans[OF c, of "set (owned st)" h2] u by (simp add: updated_def)
  moreover have "set (owned st') \<subseteq> S \<union> {next_node h..<next_node h2}"
    using u o c by (fastforce simp: updated_def changes_def)
  ultimately have "updated w J p A B S h u st' h2"
    using u by (simp add: updated_def)
  from Cons(1)[OF this] Cons(3) show ?case
    using r by simp
qed simp

text \<open>C3. Views shown in the browser are right after every update. Take any place of any page, mount
  a view there, and then update it with any number of views of the same type (texts, tuples,
  vectors that grow and shrink, branches that change, elements with attributes that come and go,
  type-erased views that change their type). Every update succeeds, and in the end the children of
  the place are the ones from before with, between them, exactly the trees of the last view, as
  if it had just been built; no other node of the page has changed. Arrays are not empty and no
  attribute is given twice.\<close>

theorem updates_equal_a_fresh_build:
  assumes "mount_point h p m A B" "\<forall>u\<in>set (v # vs). view_typed u t \<and> proper u"
  shows "\<exists>st h1. update_all vs (fst (mount_view v p m h)) (snd (mount_view v p m h)) = Some (st, h1) \<and>
    child_nodes h1 p = A @ roots st @ B \<and> has_forest h1 (roots st) (looks (last (v # vs))) \<and>
    (\<forall>x<next_node h. nodes h1 x = nodes h x \<and> parent_node h1 x = parent_node h x \<and>
       (x \<noteq> p \<longrightarrow> child_nodes h1 x = child_nodes h x))"
proof -
  obtain st h1 where u: "update_all vs (fst (mount_view v p m h)) (snd (mount_view v p m h)) = Some (st, h1)"
    "updated False {} p A B {} h (last (v # vs)) st h1"
    using updates_chain[OF mount_view_works[OF assms(1)] assms(2)] assms(2) by auto
  then have "has_forest h1 (roots st) (looks (last (v # vs)))"
    using displays_looks(1) by (auto simp: updated_def placed_def)
  then show ?thesis
    using u by (auto simp: updated_def placed_def place_def own_children_def changes_def)
qed

text \<open>
  The example: a list of texts in an element grows and is then replaced by a text, in a page of two
  elements.
\<close>

definition plain_element :: "string \<Rightarrow> element_type" where
  "plain_element tag =
     \<lparr>const_tag = tag, self_closing = False, escape_children = True, namespace = None\<rparr>"

definition example_type :: view_type where
  "example_type = ElementType (plain_element ''ul'') [(''title'', OptType StrType)]
     (EitherType [VecType (TextType ''String''), TextType ''String''])"

definition example_view :: "string option \<Rightarrow> string list \<Rightarrow> view" where
  "example_view c items = ElementView (plain_element ''ul'') ''ul''
     [(''title'', OptValue (map_option StrValue c))] (EitherView 2 0 (VecView (map TextView items)))"

definition example_empty :: view where
  "example_empty = ElementView (plain_element ''ul'') ''ul''
     [(''title'', OptValue None)] (EitherView 2 1 (TextView ''nothing''))"

definition example_page :: document where
  "example_page =
     \<lparr>nodes = (\<lambda>n. OtherN)(0 := ElementN None ''body'' Map.empty, 1 := ElementN None ''hr'' Map.empty),
      parent_node = (\<lambda>n. None)(1 := Some 0), child_nodes = (\<lambda>n. [])(0 := [1]), next_node = 2\<rparr>"

lemmas example_defs = example_type_def example_view_def example_empty_def example_page_def
  plain_element_def

lemma example_point: "mount_point example_page 0 (Some 1) [] [1]"
  by (simp add: mount_point_def example_page_def)

lemma example_typed:
  "\<forall>u\<in>set [example_view (Some ''x'') [''a''], example_view None [''b'', ''c''], example_empty].
    view_typed u example_type \<and> proper u"
  by (simp add: example_defs)

lemma updates_equal_a_fresh_build_witness:
  "\<exists>st h1. update_all [example_view None [''b'', ''c''], example_empty]
      (fst (mount_view (example_view (Some ''x'') [''a'']) 0 (Some 1) example_page))
      (snd (mount_view (example_view (Some ''x'') [''a'']) 0 (Some 1) example_page)) = Some (st, h1) \<and>
    child_nodes h1 0 = roots st @ [1] \<and> has_forest h1 (roots st) (looks example_empty)"
  using updates_equal_a_fresh_build[OF example_point example_typed] by auto

text \<open>C17. The types of views and of their states fit together: building a view of a type gives a state
  of the type, and updating a state of the type with a view of the type always succeeds and gives
  a state of the type again, whatever the page looks like (so an update never panics on a state
  that is not the one it expects).\<close>

theorem updates_are_typed:
  assumes "\<forall>u\<in>set (v # vs). view_typed u t"
  shows "\<exists>st h1. update_all vs (fst (build v h)) h' = Some (st, h1) \<and> state_typed st t"
proof -
  have "state_typed st t \<Longrightarrow> \<forall>u\<in>set us. view_typed u t \<Longrightarrow>
      \<exists>st' h1. update_all us st h' = Some (st', h1) \<and> state_typed st' t" for us st h'
  proof (induction us arbitrary: st h')
    case (Cons u us)
    then show ?case
      using rebuild_gives_typed(1)[of u t st h'] by (auto simp: gives_typed_def)
  qed simp
  then show ?thesis
    using build_typed(1)[of v t h] assms by simp
qed

lemma updates_are_typed_witness:
  "\<exists>st h1. update_all [example_view None [''b'', ''c''], example_empty]
      (fst (build (example_view (Some ''x'') [''a'']) example_page)) example_page = Some (st, h1) \<and>
    state_typed st example_type"
  using updates_are_typed example_typed by blast

end
