(* ===== verification/View_Parse.thy ===== *)
theory View_Parse
  imports View_Html
begin

text \<open>
  An instance of what hydration relies on: an escaping of the five special characters, and a parser
  that reads the markup of plain forests back. The code has neither (the escaping is a library, the
  parser is the browser's); they show that the assumption \<open>reads_markup\<close> can hold, and the
  properties of hydration are used with them.
\<close>

section \<open>Escaping\<close>

definition quote :: char where
  "quote = CHR 0x22"

definition escape_char :: "bool \<Rightarrow> char \<Rightarrow> string" where
  "escape_char attr c =
     (if c = CHR ''&'' then ''&amp;'' else if c = CHR ''<'' then ''&lt;''
      else if c = CHR ''>'' then ''&gt;'' else if attr \<and> c = quote then ''&quot;'' else [c])"

definition escape_all :: "bool \<Rightarrow> string \<Rightarrow> string" where
  "escape_all attr s = concat (map (escape_char attr) s)"

definition standard_escaping :: escaping where
  "standard_escaping = \<lparr>encode_text = escape_all False, encode_attr = escape_all True\<rparr>"

definition named_char :: "string \<Rightarrow> char" where
  "named_char s =
     (if s = ''amp'' then CHR ''&'' else if s = ''lt'' then CHR ''<''
      else if s = ''gt'' then CHR ''>'' else quote)"

definition upto_char :: "char \<Rightarrow> string \<Rightarrow> string" where
  "upto_char c s = takeWhile (\<lambda>x. x \<noteq> c) s"

definition after_char :: "char \<Rightarrow> string \<Rightarrow> string" where
  "after_char c s = tl (dropWhile (\<lambda>x. x \<noteq> c) s)"

lemma after_char_short [simp]: "length (after_char c s) \<le> length s"
  using length_dropWhile_le[of "\<lambda>x. x \<noteq> c" s] by (simp add: after_char_def)

lemma char_split [simp]:
  assumes "c \<notin> set s"
  shows "upto_char c (s @ c # t) = s" "after_char c (s @ c # t) = t"
  using assms by (induction s) (auto simp: upto_char_def after_char_def)

function unescape :: "string \<Rightarrow> string" where
  "unescape [] = []"
| "unescape (c # cs) =
     (if c = CHR ''&''
      then named_char (upto_char CHR '';'' cs) # unescape (after_char CHR '';'' cs)
      else c # unescape cs)"
  by pat_completeness auto

termination
  by (relation "measure length") (simp_all add: less_Suc_eq_le)

lemma unescape_char: "unescape (escape_char attr c @ s) = c # unescape s"
  by (simp add: escape_char_def named_char_def quote_def upto_char_def after_char_def)

lemma escape_all_simps [simp]:
  "escape_all attr [] = []"
  "escape_all attr (c # s) = escape_char attr c @ escape_all attr s"
  by (simp_all add: escape_all_def)

lemma unescape_all: "unescape (escape_all attr s) = s"
  by (induction s) (simp_all add: unescape_char)

lemma escape_char_special:
  "CHR ''<'' \<notin> set (escape_char attr x)" "quote \<notin> set (escape_char True x)" "escape_char attr x \<noteq> []"
  by (simp_all add: escape_char_def quote_def)

lemma escape_no_special:
  "CHR ''<'' \<notin> set (escape_all attr s)" "quote \<notin> set (escape_all True s)"
  by (induction s) (simp_all add: escape_char_special)

lemma escape_empty: "escape_all attr s = [] \<longleftrightarrow> s = []"
  by (cases s) (simp_all add: escape_char_special)

lemma escape_plain: "set s \<inter> set ''<>&'' = {} \<Longrightarrow> escape_all False s = s"
  by (induction s) (auto simp: escape_char_def)

section \<open>Tokens\<close>

datatype token =
    OpenTag string "(string \<times> string option) list"
  | CloseTag string
  | TextToken string
  | CommentToken string

fun begins :: "string \<Rightarrow> string \<Rightarrow> bool" where
  "begins [] s = True"
| "begins (c # cs) s = (case s of [] \<Rightarrow> False | d # ds \<Rightarrow> c = d \<and> begins cs ds)"

fun comment_text :: "string \<Rightarrow> string" where
  "comment_text [] = []"
| "comment_text (c # cs) = (if begins ''-->'' (c # cs) then [] else c # comment_text cs)"

lemma comment_text_short: "length (comment_text s) \<le> length s"
  by (induction s) auto

text \<open>A name and what follows it; the attributes up to the end of the tag, and what follows.\<close>

definition name_of :: "string \<Rightarrow> string" where
  "name_of s = takeWhile name_char s"

definition after_name :: "string \<Rightarrow> string" where
  "after_name s = dropWhile name_char s"

lemma after_name_short [simp]: "length (after_name s) \<le> length s"
  by (simp add: after_name_def length_dropWhile_le)

lemma after_value_short: "length (after_char c (drop n (after_name s))) \<le> length s"
proof -
  have "length (after_char c (drop n (after_name s))) \<le> length (after_name s)"
    using after_char_short[of c "drop n (after_name s)"] by (simp del: after_char_short)
  then show ?thesis
    using after_name_short[of s] by (rule order_trans)
qed

function tag_attrs :: "string \<Rightarrow> (string \<times> string option) list \<times> string" where
  "tag_attrs [] = ([], [])"
| "tag_attrs (c # s) =
     (if c \<noteq> CHR '' '' then ([], s)
      else if begins [CHR ''='', quote] (after_name s)
      then let v = drop 2 (after_name s); (as, t) = tag_attrs (after_char quote v)
           in ((name_of s, Some (unescape (upto_char quote v))) # as, t)
      else let (as, t) = tag_attrs (after_name s) in ((name_of s, None) # as, t))"
  by pat_completeness auto

termination
  by (relation "measure length") (simp_all add: less_Suc_eq_le after_value_short)

lemma tag_attrs_short: "length (snd (tag_attrs s)) \<le> length s"
proof (induction s rule: tag_attrs.induct)
  case (2 c s)
  show ?case
  proof (cases "c = CHR '' ''")
    case True
    show ?thesis
    proof (cases "begins [CHR ''='', quote] (after_name s)")
      case True
      then have "length (snd (tag_attrs (after_char quote (drop 2 (after_name s))))) \<le> length s"
        using 2(1) \<open>c = CHR '' ''\<close> after_value_short[of quote 2 s] order_trans by blast
      then show ?thesis
        using \<open>c = CHR '' ''\<close> True by (simp add: case_prod_beta Let_def del: begins.simps)
    next
      case False
      then have "length (snd (tag_attrs (after_name s))) \<le> length s"
        using 2(2) \<open>c = CHR '' ''\<close> after_name_short[of s] order_trans by blast
      then show ?thesis
        using \<open>c = CHR '' ''\<close> False by (simp add: case_prod_beta del: begins.simps)
    qed
  qed simp
qed simp

lemma close_short: "length (tl (after_name (tl s))) \<le> length s"
  using after_name_short[of "tl s"] by simp

lemma open_short: "length (snd (tag_attrs (after_name s))) \<le> length s"
  by (rule order_trans[OF tag_attrs_short after_name_short])

function tokens :: "string \<Rightarrow> token list" where
  "tokens [] = []"
| "tokens (c # s) =
     (if c \<noteq> CHR ''<''
      then TextToken (unescape (c # upto_char CHR ''<'' s)) #
        tokens (dropWhile (\<lambda>x. x \<noteq> CHR ''<'') s)
      else if begins ''!>'' s then CommentToken [] # tokens (drop 2 s)
      else if begins ''!--'' s
      then CommentToken (comment_text (drop 3 s)) #
        tokens (drop (length (comment_text (drop 3 s)) + 6) s)
      else if begins ''/'' s
      then CloseTag (name_of (tl s)) # tokens (tl (after_name (tl s)))
      else OpenTag (name_of s) (fst (tag_attrs (after_name s))) #
        tokens (snd (tag_attrs (after_name s))))"
  by pat_completeness auto

termination
  by (relation "measure length")
     (simp_all add: less_Suc_eq_le close_short[simplified] open_short length_dropWhile_le)

section \<open>Trees\<close>

text \<open>The stack has the elements that are open, with what stands before them, in reverse.\<close>

fun grow ::
  "token list \<Rightarrow> (string \<times> (string \<times> string option) list \<times> html list) list \<Rightarrow> html list \<Rightarrow> html list"
where
  "grow [] stack acc = rev acc"
| "grow (TextToken s # ts) stack acc = grow ts stack (TextH s # acc)"
| "grow (CommentToken c # ts) stack acc = grow ts stack (CommentH c # acc)"
| "grow (OpenTag tag as # ts) stack acc =
     (if tag \<in> set void_tags then grow ts stack (ElementH tag as [] # acc)
      else grow ts ((tag, as, acc) # stack) [])"
| "grow (CloseTag tag # ts) stack acc =
     (case stack of
        [] \<Rightarrow> grow ts [] acc
      | (t, as, outer) # rest \<Rightarrow> grow ts rest (ElementH t as (rev acc) # outer))"

definition parse_html :: "string \<Rightarrow> html list" where
  "parse_html s = grow (tokens s) [] []"

fun flat :: "html \<Rightarrow> token list"
and flat_all :: "html list \<Rightarrow> token list" where
  "flat (ElementH tag as kids) =
     OpenTag tag as # (if tag \<in> set void_tags then [] else flat_all kids @ [CloseTag tag])"
| "flat (TextH s) = [TextToken s]"
| "flat (CommentH c) = [CommentToken c]"
| "flat_all [] = []"
| "flat_all (x # xs) = flat x @ flat_all xs"

lemma grow_flat:
  "plain_html x \<Longrightarrow> grow (flat x @ ts) stack acc = grow ts stack (x # acc)"
  "plain_forest f \<Longrightarrow> grow (flat_all f @ ts) stack acc = grow ts stack (rev f @ acc)"
proof (induction x and f arbitrary: ts stack acc and ts stack acc rule: plain_html_plain_forest.induct)
  case (1 tag as kids)
  then show ?case
    using plain_tag_not_void[of tag] plain_void_void[of tag] by auto
qed auto


section \<open>Reading markup\<close>

lemma name_split [simp]:
  assumes "\<forall>c\<in>set k. name_char c" "s = [] \<or> \<not> name_char (hd s)"
  shows "name_of (k @ s) = k" "after_name (k @ s) = s"
  using assms by (cases s; simp add: name_of_def after_name_def takeWhile_append dropWhile_append)+

lemma not_name_chars [simp]:
  "\<not> name_char CHR '' ''" "\<not> name_char CHR ''=''" "\<not> name_char CHR ''>''" "\<not> name_char CHR ''<''"
  "\<not> name_char CHR ''/''" "\<not> name_char CHR ''!''"
  by (simp_all add: name_char_def)

lemma plain_name_chars: "plain_name k \<Longrightarrow> \<forall>c\<in>set k. name_char c"
  unfolding plain_name_def by blast

abbreviation "std \<equiv> standard_escaping"

lemma attr_markup_simps:
  "attr_markup esc (k, None) = '' '' @ k"
  "attr_markup esc (k, Some t) = '' '' @ k @ ''='' @ quote # encode_attr esc t @ [quote]"
  by (simp_all add: attr_markup_def quote_def)

lemma standard_encode [simp]: "encode_attr std = escape_all True" "encode_text std = escape_all False"
  by (simp_all add: standard_escaping_def)

lemma tag_attrs_markup:
  assumes "\<forall>(k, v)\<in>set as. plain_name k"
  shows "tag_attrs (concat (map (attr_markup std) as) @ ''>'' @ rest) = (as, rest)"
  using assms
proof (induction as)
  case (Cons a as)
  obtain k v where a: "a = (k, v)"
    by (cases a)
  have k: "\<forall>c\<in>set k. name_char c"
    using Cons(2) a plain_name_chars by auto
  let ?more = "concat (map (attr_markup std) as) @ ''>'' @ rest"
  have ih: "tag_attrs ?more = (as, rest)"
    using Cons by simp
  show ?case
  proof (cases v)
    case None
    obtain d ds where m: "?more = d # ds" "d = CHR '' '' \<or> d = CHR ''>''"
      by (cases as) (auto simp: attr_markup_def)
    then have "\<not> name_char d" "\<not> begins [CHR ''='', quote] ?more"
      by auto
    then have "after_name (k @ ?more) = ?more" "name_of (k @ ?more) = k"
      "\<not> begins [CHR ''='', quote] ?more"
      using name_split[OF k, of ?more] m(1) by simp_all
    then show ?thesis
      using ih None a by (simp add: attr_markup_simps)
  next
    case (Some t)
    let ?v = "escape_all True t @ quote # ?more"
    have "after_name (k @ ''='' @ quote # ?v) = ''='' @ quote # ?v" "name_of (k @ ''='' @ quote # ?v) = k"
      using k by (auto intro!: name_split)
    moreover have "upto_char quote ?v = escape_all True t" "after_char quote ?v = ?more"
      using escape_no_special(2) by (auto intro!: char_split)
    ultimately have "tag_attrs (CHR '' '' # k @ ''='' @ quote # ?v) = ((k, Some t) # as, rest)"
      using ih by (simp add: unescape_all)
    then show ?thesis
      using Some a by (simp add: attr_markup_simps)
  qed
qed simp

lemma tokens_text:
  assumes "s \<noteq> []" "rest = [] \<or> hd rest = CHR ''<''"
  shows "tokens (escape_all False s @ rest) = TextToken s # tokens rest"
proof -
  obtain c cs where s: "escape_all False s = c # cs"
    using assms(1) escape_empty by (cases "escape_all False s") auto
  then have c: "c \<noteq> CHR ''<''" "CHR ''<'' \<notin> set cs"
    using escape_no_special(1)[of False s] by auto
  have "upto_char CHR ''<'' (cs @ rest) = cs" "dropWhile (\<lambda>x. x \<noteq> CHR ''<'') (cs @ rest) = rest"
    using c(2) assms(2) by (cases rest; force simp: upto_char_def takeWhile_append dropWhile_append)+
  then show ?thesis
    using c unescape_all[of False s] s by simp
qed

lemma tokens_comment:
  assumes "plain_comment c"
  shows "tokens (markup esc (CommentH c) @ rest) = CommentToken c # tokens rest"
  using assms by (auto simp: plain_comment_def)

lemma tokens_close:
  assumes "plain_name tag"
  shows "tokens (''</'' @ tag @ ''>'' @ rest) = CloseTag tag # tokens rest"
  using name_split[OF plain_name_chars[OF assms], of "''>'' @ rest"] by simp

lemma tokens_open:
  assumes "plain_name tag" "\<forall>(k, v)\<in>set as. plain_name k"
  shows "tokens (''<'' @ tag @ concat (map (attr_markup std) as) @ ''>'' @ rest) =
    OpenTag tag as # tokens rest"
proof -
  let ?more = "concat (map (attr_markup std) as) @ ''>'' @ rest"
  have "?more \<noteq> [] \<and> (hd ?more = CHR '' '' \<or> hd ?more = CHR ''>'')"
    by (cases as) (auto simp: attr_markup_def)
  then have n: "after_name (tag @ ?more) = ?more" "name_of (tag @ ?more) = tag"
    using plain_name_chars[OF assms(1)] by (auto intro!: name_split simp del: append_assoc)
  obtain c cs where t: "tag = c # cs" "name_char c"
    using assms(1) plain_name_chars[OF assms(1)] by (cases tag) (auto simp: plain_name_def)
  then have "c \<noteq> CHR ''!''" "c \<noteq> CHR ''/''"
    using not_name_chars by blast+
  then show ?thesis
    using n tag_attrs_markup[OF assms(2), of rest] t(1) by simp
qed


lemma markup_start:
  "plain_forest f \<Longrightarrow> f \<noteq> [] \<Longrightarrow> \<not> is_text (hd f) \<Longrightarrow>
    markup_all esc f \<noteq> [] \<and> hd (markup_all esc f) = CHR ''<''"
  by (cases f; cases "hd f") auto

lemma tokens_markup:
  "plain_html x \<Longrightarrow> (is_text x \<Longrightarrow> rest = [] \<or> hd rest = CHR ''<'') \<Longrightarrow>
    tokens (markup std x @ rest) = flat x @ tokens rest"
  "plain_forest f \<Longrightarrow> (f \<noteq> [] \<Longrightarrow> is_text (last f) \<Longrightarrow> rest = [] \<or> hd rest = CHR ''<'') \<Longrightarrow>
    tokens (markup_all std f @ rest) = flat_all f @ tokens rest"
proof (induction x and f arbitrary: rest and rest rule: plain_html_plain_forest.induct)
  case (1 tag as kids)
  have as: "\<forall>(k, v)\<in>set as. plain_name k"
    using 1(2) by (auto simp: plain_attrs_def)
  show ?case
  proof (cases "plain_void tag")
    case True
    then show ?thesis
      using tokens_open[OF plain_void_name[OF True] as, of rest] plain_void_void[OF True] by simp
  next
    case False
    then have t: "plain_tag tag" "plain_forest kids"
      using 1(2) by auto
    then have n: "plain_name tag"
      by (simp add: plain_tag_def)
    have "tokens (markup_all std kids @ ''</'' @ tag @ ''>'' @ rest) =
        flat_all kids @ tokens (''</'' @ tag @ ''>'' @ rest)"
      using 1(1) t(2) by simp
    then show ?thesis
      using tokens_open[OF n as, of "markup_all std kids @ ''</'' @ tag @ ''>'' @ rest"]
        tokens_close[OF n, of rest] plain_tag_not_void[OF t(1)] by simp
  qed
next
  case (2 s)
  then show ?case
    using tokens_text by simp
next
  case (3 c)
  then show ?case
    using tokens_comment by simp
next
  case 4
  then show ?case
    by simp
next
  case (5 x xs)
  have "is_text x \<Longrightarrow> markup_all std xs @ rest = [] \<or> hd (markup_all std xs @ rest) = CHR ''<''"
    using 5(3,4) markup_start[of xs std] by (cases "xs = []") auto
  then have "tokens (markup std x @ markup_all std xs @ rest) =
      flat x @ tokens (markup_all std xs @ rest)"
    using 5(1,3) by simp
  then show ?case
    using 5(2-) by auto
qed

lemma parse_html_reads: "reads_markup standard_escaping parse_html"
  unfolding reads_markup_def
proof (intro conjI allI impI)
  fix f
  assume "plain_forest f \<and> nests_all [] f"
  then show "parse_html (markup_all std f) = f"
    using tokens_markup(2)[of f "[]"] grow_flat(2)[of f "[]" "[]" "[]"] by (simp add: parse_html_def)
qed (simp add: escape_plain)

end
