(* ===== verification/View_Roundtrip.thy ===== *)
theory View_Roundtrip
  imports View_Served View_Looks View_Parse
begin

text \<open>
  From the view on the server to the updates in the browser: the HTML is parsed and loaded, the view
  is hydrated, and from then on updated. The page always looks like the current view.
\<close>

section \<open>What is seen of a page\<close>

text \<open>Comments are not seen, nor is a text that is empty or a space (it stands for an empty one).\<close>

fun seen :: "page_tree \<Rightarrow> page_tree list"
and seen_all :: "page_tree list \<Rightarrow> page_tree list" where
  "seen (Branch k ts) =
     (case k of
        CommentN c \<Rightarrow> []
      | TextN s \<Rightarrow> if s = [] \<or> s = '' '' then [] else [Branch k []]
      | other \<Rightarrow> [Branch k (seen_all ts)])"
| "seen_all [] = []"
| "seen_all (t # ts) = seen t @ seen_all ts"

lemma seen_append [simp]: "seen_all (ts @ us) = seen_all ts @ seen_all us"
  by (induction ts) auto

definition separators :: "nat set \<Rightarrow> document \<Rightarrow> bool" where
  "separators J h \<longleftrightarrow> (\<forall>x\<in>J. is_comment_node (nodes h x) \<and> child_nodes h x = [])"

definition looks_like :: "document \<Rightarrow> nat list \<Rightarrow> view \<Rightarrow> bool" where
  "looks_like h ns v \<longleftrightarrow> (\<exists>f. has_forest h ns f \<and> seen_all f = seen_all (looks v))"

lemma is_comment_cases: "is_comment_node k \<longleftrightarrow> (\<exists>c. k = CommentN c)"
  by (cases k) auto

lemma forest_with_separators:
  assumes "has_forest h (filter (\<lambda>x. x \<notin> J) xs) f" "separators J h"
  shows "\<exists>g. has_forest h xs g \<and> seen_all g = seen_all f"
  using assms(1)
proof (induction xs arbitrary: f)
  case Nil
  then show ?case
    by auto
next
  case (Cons x xs)
  show ?case
  proof (cases "x \<in> J")
    case True
    then obtain c where "nodes h x = CommentN c" "child_nodes h x = []"
      using assms(2) by (auto simp: separators_def is_comment_cases)
    moreover obtain g where "has_forest h xs g" "seen_all g = seen_all f"
      using Cons True by auto
    ultimately have "has_forest h (x # xs) (Branch (CommentN c) [] # g) \<and>
        seen_all (Branch (CommentN c) [] # g) = seen_all f"
      by simp
    then show ?thesis
      by blast
  next
    case False
    then obtain t f' where f: "f = t # f'" "has_tree h x t" "has_forest h (filter (\<lambda>x. x \<notin> J) xs) f'"
      using Cons(2) by (cases f) auto
    then obtain g where "has_forest h xs g" "seen_all g = seen_all f'"
      using Cons(1) by blast
    then have "has_forest h (x # xs) (t # g) \<and> seen_all (t # g) = seen_all f"
      using f by simp
    then show ?thesis
      by blast
  qed
qed

lemma seen_none:
  "\<not> view_exists v \<Longrightarrow> seen_all (looks v) = []"
  "list_all (\<lambda>v. \<not> view_exists v) vs \<Longrightarrow> seen_all (looks_all vs) = []"
  by (induction v and vs rule: looks_looks_all.induct) (auto simp: list_all_iff list_ex_iff)

lemma looks_like_append:
  "looks_like h xs v \<Longrightarrow> looks_like h ys (TupleView vs) \<Longrightarrow> looks_like h (xs @ ys) (TupleView (v # vs))"
  unfolding looks_like_def using has_forest_append by fastforce

lemma looks_like_nothing: "looks_like h [] (TupleView [])"
  unfolding looks_like_def by (rule exI[of _ "[]"]) simp

lemma marker_forest:
  "marker_shown w h p n \<Longrightarrow> \<exists>c. has_forest h [n] [Branch (CommentN c) []]"
  by (auto simp: marker_shown_def)

lemma displays_seen:
  "displays w J h p v st \<Longrightarrow> separators J h \<Longrightarrow> looks_like h (roots st) v"
  "displays_all w J h p vs sts \<Longrightarrow> separators J h \<Longrightarrow> looks_like h (roots_all sts) (TupleView vs)"
proof (induction w J h p v st and w J h p vs sts rule: displays_displays_all.induct)
  case (1 w J h p s st)
  then obtain n where st: "st = TextState n s" "child_nodes h n = []" "text_shown w s (nodes h n)"
    by (auto split: view_state.splits)
  then have "has_forest h (roots st) [Branch (nodes h n) []] \<and>
      seen_all [Branch (nodes h n) []] = seen_all (looks (TextView s))"
    by (auto simp: text_shown_def)
  then show ?case
    unfolding looks_like_def by blast
next
  case (2 w J h p e s st)
  then obtain n where st: "st = TextState n s" "child_nodes h n = []" "nodes h n = TextN s"
    by (auto split: view_state.splits)
  then have "has_forest h (roots st) [Branch (TextN s) []]"
    by simp
  then show ?case
    unfolding looks_like_def by fastforce
next
  case (3 w J h p st)
  then obtain n where n: "st = PlaceholderState n" "marker_shown w h p n"
    by (auto split: view_state.splits)
  then obtain c where "has_forest h [n] [Branch (CommentN c) []]"
    using marker_forest by blast
  then have "has_forest h (roots st) [Branch (CommentN c) []]"
    using n by simp
  then show ?case
    unfolding looks_like_def by fastforce
next
  case (7 w J h p vs st)
  then obtain sts n where st: "st = VecState sts n" "marker_shown w h p n"
    "displays_all w J h p vs sts"
    by (auto split: view_state.splits)
  then obtain c where c: "has_forest h [n] [Branch (CommentN c) []]"
    using marker_forest by blast
  obtain f where "has_forest h (roots_all sts) f" "seen_all f = seen_all (looks_all vs)"
    using 7(1,3) st by (auto simp: looks_like_def)
  then have "has_forest h (roots st) (f @ [Branch (CommentN c) []]) \<and>
      seen_all (f @ [Branch (CommentN c) []]) = seen_all (looks (VecView vs))"
    using st c has_forest_append by auto
  then show ?case
    unfolding looks_like_def by blast
next
  case (8 w J h p t v st)
  then obtain c ph where st: "st = AnyState t c ph" "displays w J h p v c"
    "case ph of None \<Rightarrow> view_exists v | Some n \<Rightarrow> \<not> view_exists v \<and> marker_shown w h p n"
    by (auto split: view_state.splits)
  then obtain f where f: "has_forest h (roots c) f" "seen_all f = seen_all (looks v)"
    using 8(1,3) by (auto simp: looks_like_def)
  show ?case
  proof (cases ph)
    case None
    then show ?thesis
      using st f by (auto simp: looks_like_def)
  next
    case (Some n)
    then have n: "marker_shown w h p n" "\<not> view_exists v"
      using st(3) by auto
    then obtain k where "has_forest h [n] [Branch (CommentN k) []]"
      using marker_forest by blast
    then have "has_forest h (roots st) (f @ [Branch (CommentN k) []]) \<and>
        seen_all (f @ [Branch (CommentN k) []]) = seen_all (looks (AnyView t v))"
      using st f n has_forest_append Some by auto
    then show ?thesis
      unfolding looks_like_def by blast
  qed
next
  case (9 w J h p et tag as ch st)
  then obtain el c where st: "st = ElementState el (attrs_states el as) c"
    "nodes h el = ElementN (namespace et) (local_name et tag) (put_attrs as Map.empty)"
    by (auto split: view_state.splits)
  let ?kids = "if self_closing et then [] else looks ch"
  have "\<exists>f. has_forest h (own_children J h el) f \<and> seen_all f = seen_all ?kids"
  proof (cases c)
    case None
    then have "own_children J h el = []" "self_closing et \<or> \<not> view_exists ch"
      using 9(2) st by auto
    then have "has_forest h (own_children J h el) [] \<and> seen_all [] = seen_all ?kids"
      using seen_none(1)[of ch] by auto
    then show ?thesis
      by blast
  next
    case (Some d)
    then show ?thesis
      using 9 st by (auto simp: looks_like_def)
  qed
  then obtain f where "has_forest h (filter (\<lambda>x. x \<notin> J) (child_nodes h el)) f"
    "seen_all f = seen_all ?kids"
    unfolding own_children_def by blast
  then obtain g where "has_forest h (child_nodes h el) g" "seen_all g = seen_all ?kids"
    using forest_with_separators 9(3) by metis
  then have "has_forest h (roots st) [Branch (nodes h el) g] \<and>
      seen_all [Branch (nodes h el) g] = seen_all (looks (ElementView et tag as ch))"
    using st by simp
  then show ?case
    unfolding looks_like_def by blast
next
  case (11 w J h p v vs sts)
  then show ?case
    by (cases sts) (auto intro: looks_like_append)
next
  case (10 w J h p sts)
  then show ?case
    by (simp add: looks_like_nothing)
qed (auto simp: looks_like_def split: view_state.splits)


section \<open>From the server to the browser\<close>

lemma served_forest:
  assumes "reads_markup esc parse" "plain_view v" "well_nested v"
  shows "parse (render_html esc v) = fst (served v FirstChild)"
  using assms to_html_markup(1)[OF assms(1,2), of FirstChild] served_plain[OF assms(2), of FirstChild]
  by (simp add: render_html_def reads_markup_def well_nested_def)

text \<open>The state that hydration gives on the loaded page, and the separators it leaves.\<close>

lemma hydrated_place:
  assumes "plain_view v" "proper v" "is_element_node (nodes h root)" "root < next_node h"
    "child_nodes h root = []"
  defines "h1 \<equiv> load_all root (fst (served v FirstChild)) h"
  shows "\<exists>st w J. hydrate_from False True v root h1 = (st, w) \<and> \<not> failed w \<and> page w = h1 \<and>
    placed True J h1 root [] [] v st \<and> separators J h1 \<and> root \<notin> J \<and>
    set (owned st) \<subseteq> {next_node h..} \<and> agree ({..<next_node h} - {root}) h h1 \<and>
    next_node h \<le> next_node h1"
proof -
  let ?f = "fst (served v FirstChild)"
  obtain ns where l: "loaded root ?f h ns h1"
    using load_all_works[OF assms(4)] h1_def by blast
  have ns: "child_nodes h1 root = ns" "stands_all h1 root ns ?f" "distinct (below_all h1 ns ?f)"
    "set (below_all h1 ns ?f) = {next_node h..<next_node h1}" "next_node h \<le> next_node h1"
    "nodes h1 root = nodes h root" "agree ({..<next_node h} - {root}) h h1"
    using l assms(5) by (auto simp: loaded_def)
  have d: "distinct ns" "set ns \<subseteq> {next_node h..<next_node h1}"
    using stands_distinct[OF ns(2,3)] stands_below[OF ns(2)] ns(4) by auto
  let ?w = "\<lparr>page = h1, cursor = root, at_position = FirstChild, failed = False\<rparr>"
  have "served_at h1 root [] ns ?f"
    using ns d by (auto simp: served_at_def)
  moreover have "cursor_at h1 root [] FirstChild ?w"
    by (simp add: cursor_at_def)
  ultimately obtain st w where r: "hydrate False True v ?w = (st, w)"
    "hydrated h1 root [] ns v FirstChild st w"
    using hydrate_served(1)[OF assms(1,2)] by blast
  define J where "J = set (below_all h1 ns ?f) - set (owned st)"
  have c: "covers h1 ns ?f (owned st) (roots st) (\<lambda>J. displays True J h1 (Some root) v st)"
    using r(2) by (simp add: hydrated_def)
  have own: "set (owned st) \<subseteq> {next_node h..<next_node h1}" "distinct (owned st)"
    and sep: "separators J h1"
    using c ns(4) by (auto simp: covers_def J_def separators_def)
  have "J \<inter> set (owned st) = {}"
    by (auto simp: J_def)
  moreover from this have "displays True J h1 (Some root) v st \<and> own_children J h1 root = roots st"
    using c ns(1) unfolding covers_def J_def own_children_def by blast
  moreover have "J \<subseteq> {next_node h..<next_node h1}"
    using ns(4) by (auto simp: J_def)
  moreover have "set ns \<subseteq> {..<next_node h1}" "root \<notin> set (owned st)" "root < next_node h1"
    using d(2) own(1) ns(5) assms(4) by auto
  ultimately have "placed True J h1 root [] [] v st" "root \<notin> J"
    using own d ns(1,6) assms(3,4) by (auto simp: placed_def place_def)
  moreover have "\<not> failed w" "page w = h1"
    using r(2) by (auto simp: hydrated_def cursor_at_def)
  moreover have "set (owned st) \<subseteq> {next_node h..}"
    using own(1) by auto
  ultimately show ?thesis
    using r(1) sep ns(5,7) unfolding hydrate_from_def by blast
qed

lemma load_all_keeps:
  assumes "p < next_node h" "x < next_node h"
  shows "nodes (load_all p f h) x = nodes h x"
    and "x \<noteq> p \<Longrightarrow> child_nodes (load_all p f h) x = child_nodes h x"
  using load_all_works[OF assms(1), of f] assms(2)
  by (cases "x = p"; force simp: loaded_def agree_def same_node_def)+

lemma separators_stay:
  assumes "separators J h" "changes S p h h'" "J \<inter> S = {}" "p \<notin> J" "J \<subseteq> {..<next_node h}"
  shows "separators J h'"
  unfolding separators_def
proof
  fix x
  assume "x \<in> J"
  then have "x < next_node h" "x \<notin> S" "x \<noteq> p"
    using assms(3-5) by auto
  then show "is_comment_node (nodes h' x) \<and> child_nodes h' x = []"
    using assms(1,2) \<open>x \<in> J\<close> by (auto simp: separators_def changes_def)
qed

text \<open>C2. A page from the server becomes live. The HTML that the server renders for a view is parsed
  by the browser into an empty root element, and the view is hydrated there: hydration finds a node
  for every part of the view, never fails and changes nothing on the page. Every update after it
  succeeds, and the children of the root then look like the last view, but for comments and for
  spaces that stand for empty texts; the rest of the page is as it was.

  The first view is plain (\<open>plain_view\<close>): texts, tuples, arrays, vectors, branches, type-erased views and
  HTML elements with plain attributes, of the tags in \<open>nesting_tags\<close> (blocks, headings, paragraphs,
  lists, links, buttons, inline text, tables), custom ones and \<open>br\<close>, \<open>img\<close>, \<open>input\<close>, \<open>wbr\<close>, \<open>hr\<close>; no element
  whose text is not escaped (script and style; \<open>raw_children_are_frozen\<close>), and no NUL or carriage return
  in its texts. Its elements stand where the parser leaves them (\<open>well_nested\<close>). The views have no empty
  array and no attribute twice (\<open>proper\<close>) and one type. It is rendered without branch markers (with them
  hydration can fail: \<open>branch_example_fails\<close>). What is relied on (\<open>reads_markup\<close>) is that the browser reads
  plain, well nested markup back and that text without special characters is not escaped.\<close>

theorem served_page_becomes_live:
  assumes "reads_markup esc parse" "plain_view v" "well_nested v" "\<forall>u\<in>set (v # vs). view_typed u t \<and> proper u"
    "is_element_node (nodes h root)" "root < next_node h" "child_nodes h root = []"
  shows "\<exists>st w st' h'.
    hydrate_from False True v root (load_all root (parse (render_html esc v)) h) = (st, w) \<and>
    \<not> failed w \<and> page w = load_all root (parse (render_html esc v)) h \<and>
    update_all vs st (page w) = Some (st', h') \<and>
    looks_like h' (child_nodes h' root) (last (v # vs)) \<and>
    (\<forall>x<next_node h. nodes h' x = nodes h x \<and> (x \<noteq> root \<longrightarrow> child_nodes h' x = child_nodes h x))"
proof -
  let ?h1 = "load_all root (parse (render_html esc v)) h"
  have h1: "?h1 = load_all root (fst (served v FirstChild)) h"
    using served_forest[OF assms(1-3)] by simp
  have "proper v"
    using assms(4) by simp
  from hydrated_place[OF assms(2) this assms(5-7)] obtain st w J where
    r: "hydrate_from False True v root ?h1 = (st, w)" "\<not> failed w" "page w = ?h1"
    and pl: "placed True J ?h1 root [] [] v st" and sep: "separators J ?h1" "root \<notin> J"
    and new: "set (owned st) \<subseteq> {next_node h..}" "agree ({..<next_node h} - {root}) h ?h1"
      "next_node h \<le> next_node ?h1"
    unfolding h1 by blast
  have "updated True J root [] [] (set (owned st)) ?h1 v st ?h1"
    using pl by (simp add: updated_def)
  then obtain st' h' where u: "update_all vs st ?h1 = Some (st', h')"
    "updated True J root [] [] (set (owned st)) ?h1 (last (v # vs)) st' h'"
    using updates_chain assms(4) by blast
  then have c: "changes (set (owned st)) root ?h1 h'"
    by (simp add: updated_def)
  have "separators J h'"
    using separators_stay[OF sep(1) c] pl sep(2) by (auto simp: placed_def place_def)
  moreover have "displays True J h' (Some root) (last (v # vs)) st'"
    "filter (\<lambda>x. x \<notin> J) (child_nodes h' root) = roots st'"
    using u(2) by (simp_all add: updated_def placed_def place_def own_children_def)
  ultimately have "looks_like h' (child_nodes h' root) (last (v # vs))"
    using displays_seen(1)[of True J h' "Some root"] forest_with_separators[of h' J "child_nodes h' root"]
    unfolding looks_like_def by metis
  moreover have "nodes h' x = nodes h x \<and> (x \<noteq> root \<longrightarrow> child_nodes h' x = child_nodes h x)"
    if "x < next_node h" for x
  proof -
    have "x < next_node ?h1" "x \<notin> set (owned st)"
      using that new by auto
    then have "nodes h' x = nodes ?h1 x" "x \<noteq> root \<Longrightarrow> child_nodes h' x = child_nodes ?h1 x"
      using c by (simp_all add: changes_def)
    then show ?thesis
      using load_all_keeps[OF assms(6) that] by simp
  qed
  ultimately show ?thesis
    using r u(1) by auto
qed

definition example_root :: document where
  "example_root =
     \<lparr>nodes = (\<lambda>n. OtherN)(0 := ElementN None ''body'' Map.empty),
      parent_node = (\<lambda>n. None), child_nodes = (\<lambda>n. []), next_node = 1\<rparr>"

lemma example_plain: "plain_view (example_view (Some ''x'') [''a < b'', ''c''])"
  by code_simp

lemma example_nested: "well_nested (example_view (Some ''x'') [''a < b'', ''c''])"
  by code_simp

lemma example_types:
  "\<forall>u\<in>set [example_view (Some ''x'') [''a < b'', ''c''], example_view None [''d''], example_empty].
    view_typed u example_type \<and> proper u"
  by (simp add: example_defs)

lemma served_page_becomes_live_witness:
  "\<exists>st w st' h'.
    hydrate_from False True (example_view (Some ''x'') [''a < b'', ''c'']) 0
      (load_all 0 (parse_html (render_html standard_escaping
        (example_view (Some ''x'') [''a < b'', ''c'']))) example_root) = (st, w) \<and>
    \<not> failed w \<and> update_all [example_view None [''d''], example_empty] st (page w) = Some (st', h') \<and>
    looks_like h' (child_nodes h' 0) example_empty"
  using served_page_becomes_live[OF parse_html_reads example_plain example_nested example_types, of example_root 0]
  by (force simp: example_root_def)

end
