(* ===== verification/View_Edges.thy ===== *)
theory View_Edges
  imports View_Roundtrip
begin

text \<open>
  Behaviour of the views at the edges of what the properties assume: custom elements, empty arrays,
  attributes that are false, elements whose text is not escaped, branch markers, and where elements may stand.
\<close>

section \<open>Updates\<close>

text \<open>
  An element of HTML names its tag in upper case, \<^verbatim>\<open>tag()\<close> does not: a custom element with the same
  tag counts as another one, and is replaced on every update.
\<close>

lemma custom_element_is_always_replaced:
  assumes "const_tag et = []" "tag \<noteq> []" "upper_text (lower_text tag) \<noteq> tag"
    "nodes h el = ElementN None (element_name None tag) m"
  shows "rebuild (ElementView et tag as ch) (ElementState el sts c) h =
    Some (replace_with (ElementView et tag as ch) (ElementState el sts c) h)"
  using assms by (simp add: element_name_def)

lemma my_element_is_always_replaced:
  assumes "const_tag et = []" "nodes h el = ElementN None ''my-element'' m"
  shows "rebuild (ElementView et ''my-element'' as ch) (ElementState el sts c) h =
    Some (replace_with (ElementView et ''my-element'' as ch) (ElementState el sts c) h)"
proof -
  have "upper_text (lower_text ''my-element'') \<noteq> ''my-element''"
    "element_name None ''my-element'' = ''my-element''"
    by code_simp+
  then show ?thesis
    using assms by (intro custom_element_is_always_replaced[where m = m]) simp_all
qed

text \<open>An empty array has no node to insert before: the branch that follows it is built and never mounted.\<close>

lemma empty_array_is_not_replaced:
  "rebuild (EitherView 2 1 v) (EitherState 0 (ArrayState [])) h =
    Some (EitherState 1 (fst (build v h)), snd (build v h))"
  by (simp add: replace_with_def case_prod_beta)

section \<open>Hydration\<close>

text \<open>Outside a page of the server (in a template), an attribute that is false is set.\<close>

lemma false_attribute_is_set:
  assumes "is_element_node (nodes h el)"
  shows "attributes_of (nodes (snd (value_hydrate False (BoolValue False) k el h)) el) k = Some []"
    and "value_hydrate False (BoolValue False) k el h = (BoolState el False, set_attribute el k [] h)"
  using assms by (cases "nodes h el"; simp add: set_attribute_def)+

text \<open>
  The children of an element whose text is not escaped (\<^verbatim>\<open>style\<close>, \<^verbatim>\<open>script\<close>) are not hydrated, and no
  update reaches them: it is the same for all of them.
\<close>

lemma raw_children_are_frozen:
  assumes "\<not> escape_children et" "const_tag et \<noteq> []"
  shows "\<exists>el sts w'. hydrate skip True (ElementView et tag as ch) w = (ElementState el sts None, w')"
    and "rebuild (ElementView et tag as ch) (ElementState el sts None) h =
      rebuild (ElementView et tag as ch') (ElementState el sts None) h"
  using assms by (auto simp: case_prod_beta split: option.split)

text \<open>
  With branch markers no separator stands between a text at the end of a branch and the text after
  it, but hydration expects one.
\<close>

definition rule_element :: element_type where
  "rule_element =
     \<lparr>const_tag = ''hr'', self_closing = True, escape_children = True, namespace = None\<rparr>"

definition branch_example :: view where
  "branch_example = TupleView
     [EitherView 2 0 (TextView ''a''), TextView ''b'', ElementView rule_element ''hr'' [] UnitView]"

lemma branch_example_html:
  "render_html_branching standard_escaping (\<lambda>t. []) branch_example = ''<!--bo-0-->a<!--bc-0-->b<hr>''"
  by code_simp

lemma branch_example_nodes:
  "parse_html ''<!--bo-0-->a<!--bc-0-->b<hr>'' =
    [CommentH ''bo-0'', TextH ''a'', CommentH ''bc-0'', TextH ''b'', ElementH ''hr'' [] []]"
  by code_simp

lemma branch_example_fails:
  "failed (snd (hydrate_from True True branch_example 0
     (load_all 0 (parse_html (render_html_branching standard_escaping (\<lambda>t. []) branch_example))
        example_root)))"
  unfolding branch_example_html branch_example_nodes
  by code_simp

text \<open>Where elements may stand: a link in a paragraph in a list item, a table with its parts; not a block in a paragraph.\<close>

lemma nesting_examples:
  "nests_all [] [ElementH ''h1'' [] [TextH ''a''],
     ElementH ''ul'' [] [ElementH ''li'' [] [ElementH ''p'' [] [ElementH ''a'' [] [TextH ''b''], ElementH ''br'' [] []]]],
     ElementH ''table'' [] [ElementH ''tbody'' [] [ElementH ''tr'' [] [ElementH ''td'' [] [TextH ''c''], CommentH []]]]]"
  "\<not> nests_all [] [ElementH ''p'' [] [ElementH ''div'' [] []]]"
  "\<not> nests_all [] [ElementH ''table'' [] [ElementH ''tr'' [] []]]"
  by code_simp+

end
