(* ===== verification/Spec2Isabelle.thy ===== *)
theory Spec2Isabelle
  imports Keyed_List Axum_Listing Reactive_Behaviour Reactive_Observer Signal_Plain Html_Boundary Owner_Contexts Page_Resource View_Edges
begin

text \<open>
  Halyard: a verification library for the parts of the web framework that decide what a page
  shows, which page is shown, and what reaches the browser.

  \<^bold>\<open>The program.\<close> Halyard renders an application to HTML on the server, sends it with the data it
  loaded, and takes it over in the browser. \<open>halyard_reactive_graph\<close> holds the state of a running
  application: signals, memos and effects, the owners that free them, and the context that carries
  data from the server to the browser. \<open>halyard_tachys\<close> renders views: to HTML on the server, to nodes in the
  browser, where views are hydrated and updated; keyed lists are diffed against the page, suspended views are
  streamed. \<open>halyard\<close> adds the router, which matches a path against a tree of
  routes, the generation of static pages, the registration of the routes with axum, and the components.

  \<^bold>\<open>Theories and code.\<close>
  \<^item> \<open>Prelude\<close>: checked and saturating arithmetic on \<open>usize\<close>, loops that can fail, generic lemmas;
    \<open>Str\<close>: the operations of \<open>str\<close> on UTF-8 bytes.
  \<^item> Keyed lists, \<open>halyard_tachys/src/view/list_diff.rs\<close> and \<open>keyed.rs\<close>. \<open>List_Diff\<close> is the planner \<open>diff\<close>,
    over the contract \<open>index_set\<close> of its key sets; \<open>List_Apply\<close> carries a plan out and recovers from a refused
    one; \<open>List_Page\<close> states the contract \<open>list_page\<close> of the rendered list and what holds for every plan;
    \<open>List_Order\<close> shows that the planner's plans put the page in order; \<open>List_Reconcile\<close> composes the update;
    \<open>Keyed_List\<close> is the view, whose contract \<open>row_views\<close> gives \<open>list_page\<close>, with an instance on rows of text.
  \<^item> Views, \<open>halyard_tachys/src/view/\<close> (\<open>strings.rs\<close>, \<open>primitives.rs\<close>, \<open>tuples.rs\<close>, \<open>iterators.rs\<close>, \<open>either.rs\<close>,
    \<open>any_view.rs\<close>), \<open>html/element/\<close>, \<open>html/attribute/\<close>, \<open>renderer/dom.rs\<close>, \<open>hydration.rs\<close>. \<open>View_Dom\<close>: the page, the
    renderer, attributes; \<open>View_Types\<close>: building, mounting and updating, and their types; \<open>View_Place\<close>, \<open>View_Shows\<close>:
    what it means that a state shows a view at a place; \<open>View_Rebuild\<close>, \<open>View_Update\<close>: that updates keep it so;
    \<open>View_Looks\<close>: updates against a fresh build. \<open>View_Html\<close>: the HTML and the nodes it is the markup of;
    \<open>View_Hydrate\<close>: the cursor and hydration on any page; \<open>View_Served\<close>: hydration on the page the server sent;
    \<open>View_Parse\<close>: an escaping and a parser, instances of what is relied on; \<open>View_Roundtrip\<close>: from the server to the
    updates in the browser; \<open>View_Edges\<close>: what goes wrong at the edges.
  \<^item> The router, \<open>halyard/src/router/matching\<close>. \<open>Route_Segments\<close>: one pattern (\<open>horizontal\<close>), with the
    retry loop over optional segments, against a specification of eating a path segment by segment.
    \<open>Route_Nested\<close>: trees of routes (\<open>nested\<close>, \<open>RouteDefs\<close>) against their branches, and the flat list
    of routes for the server.
  \<^item> Static pages, \<open>router/static_routes.rs\<close> and \<open>generate_route_list.rs\<close>: \<open>Static_Paths\<close>.
  \<^item> Axum, \<open>axum/route_path.rs\<close> and \<open>axum/mod.rs\<close>: \<open>Axum_Routes\<close> (the registry that foresees what axum refuses;
    locale \<open>registry\<close>, interpreted for the code's) and \<open>Axum_Listing\<close> (the paths and exclusions).
  \<^item> The reactive graph, \<open>graph/\<close>, \<open>computed/\<close> and \<open>effect/\<close>. \<open>Reactive_Graph\<close> holds the operations,
    \<open>Reactive_Marks\<close> what marking does, \<open>Reactive_Inv\<close> the invariant, \<open>Reactive_Update\<close> that an update keeps it and
    ends, \<open>Reactive_System\<close> the reachable graphs, \<open>Reactive_Behaviour\<close> what a program sees.
    \<open>Reactive_Observer\<close>: the observer cell of \<open>graph/subscriber.rs\<close>.
  \<^item> Signals, \<open>reentry.rs\<close> and \<open>signal/commit.rs\<close>. \<open>Signal_Record\<close>: the record of a thread's accesses;
    \<open>Signal_Commit\<close>: how a write starts, is deferred and is applied, and code that uses signals, whose branches
    depend on the values it reads; \<open>Signal_Frame\<close> and \<open>Signal_Writes\<close>: that all code keeps the record;
    \<open>Signal_Returns\<close>: that code and its subscribers return; \<open>Signal_Plain\<close>: the refinement of a plain store.
  \<^item> Streams of HTML, \<open>halyard_tachys/src/ssr/mod.rs\<close>, \<open>suspense_component.rs\<close>, \<open>error_boundary.rs\<close>.
    \<open>Html_Stream\<close>: the builder, its poll loop, in-order streams; \<open>Html_Markers\<close>, \<open>Html_Page\<close>: what the browser makes
    of an out-of-order stream; \<open>Html_Out_Of_Order\<close>: that it is the page; \<open>Html_Boundary\<close>: error boundaries.
  \<^item> Owners, \<open>owner.rs\<close>, \<open>owner/context.rs\<close>, \<open>owner/arena.rs\<close>. \<open>Owner_Tree\<close> holds the operations,
    \<open>Owner_Cleanup\<close> what tearing down does on any heap of owners, \<open>Owner_Lifetime\<close> the reachable states,
    \<open>Owner_Order\<close> the order of a cleanup, \<open>Owner_Contexts\<close> lookups and pausing.
  \<^item> Data of the page, \<open>hydration_context/\<close> and \<open>server/hydration_data.rs\<close>. \<open>Page_Script\<close>: numbers and string
    literals as the server writes and JavaScript reads them; \<open>Page_Data\<close>: the parsers; \<open>Page_Server\<close>: the server's
    context and its stream of scripts; \<open>Page_Browser\<close>: running the scripts, the browser's context;
    \<open>Page_Hydration\<close>: the round trip; \<open>Page_Resource\<close>: the values of resources.

  \<^bold>\<open>How state is modelled.\<close> A struct is a record, an enum a datatype, shared mutable nodes are functions from
  addresses. A trait whose implementations are the application's (a row's view, \<open>ListOps\<close>), and every
  type of another crate (\<open>indexmap\<close> sets, axum's method filter, a codec), is an argument: a record of operations or
  a function, with a locale or named hypotheses for what the code relies on, and a
  concrete instance in a witness. The browser's DOM is a record of functions on node numbers, with the operations
  of its standard; its HTML parser and the escaping of text are arguments (\<open>reads_markup\<close>). A Rust type that is a view is a
  value of \<open>view_type\<close>, and the implementations of a trait for it are the clauses of one function. Errors are values of a sum, reports that are logged once are sets in the
  state. One thread runs; what several operations do in turn is a step relation
  (\<open>system\<close>, \<open>owners_reach\<close>, \<open>serving\<close>) with its invariant by rule induction. A
  future is the number of polls until it is ready and its value.

  \<^bold>\<open>What is shown.\<close>
  \<^item> A keyed list shows one row per item in the order of the keys and keeps the rows of the keys that stay, whatever
    plan was refused on the way.
  \<^item> After any updates a view looks as if it had just been built, and nothing else of the page has changed; the HTML
    of a view, parsed and hydrated, gives a state of which the same holds; hydration changes nothing on any page.
  \<^item> The router picks the first branch whose segments eat the path, at every level of the tree, with the matched
    texts and the params, and never cuts a character; the generated routes are the branches; static paths are routed; listings are read by axum
    as they are meant; the registry admits exactly what axum will not refuse.
  \<^item> In every reachable graph of memos and effects that track what they read, memos only of older nodes
    (\<open>reads_before\<close>), a read of a memo is the value of a computation from scratch and runs of effects see current
    values; a cycle of memos never returns, and an effect that reads out of order can miss a change until its next
    round (\<open>effect_misses_a_change\<close>). Code that uses signals returns, leaves no access behind and changes no
    value in use; deferred writes refine plain writes where the code does not read what it has deferred;
    writes that provoke each other end at the limit, and the next one is dropped.
  \<^item> A stream of HTML ends and shows the page with every suspended view resolved, in order or out of order.
  \<^item> Tearing owners down ends on any heap. Each cleanup function runs once, is held, or is lost because a cleanup
    function before it panicked; children go first, where the values of an owner's arena own only its own children.
  \<^item> What the server registers for a page is what the browser reads, with \<open><\<close> escaped, which a JSON codec undoes; no
    script can leave its element, and malformed data is left out and counted.

  \<^bold>\<open>Bounds and fuel.\<close> Recursion that the source leaves unbounded runs with fuel, and a theorem says that
  some fuel is enough: marking, the number of nodes; updating, the number of nodes; running a memo's
  computation, its height and two; tearing owners down, more than the children and arena nodes that are
  registered (every call takes them from their owner first); a context lookup, more than the owner's number (a parent
  is older than its child); pausing, the number of owners met. The polls of a stream of HTML are bounded by its work.
  JavaScript runs a script with as much fuel as it has characters, since a statement has at
  least one. Machine bounds are those of the code: \<open>usize\<close> relative to \<open>umax\<close> or \<open>usz\<close>, 16 bits for the pieces of a chunk's id, at most
  65535 suspended views per level of a stream, \<open>u32\<close> for the index of a resource, 53 bits for a number in
  JavaScript, \<open>MAX_APPLIED\<close> writes in one flush. Code that uses \<open>k\<close> signals, goes \<open>n\<close> deep and has subscribers that go \<open>h\<close> deep returns with more
  fuel than \<open>n + h + k * (h + 3)\<close>: the subscribers of a signal run while it is in use.

  \<^bold>\<open>Divergences.\<close> Some definitions show that the code does not do what it means to: lemmas named after the effect
  (\<open>boundary_in_suspense_is_reversed\<close>, \<open>unresolved_view_loses_fallback\<close>, \<open>boundary_reuses_ids\<close>,
  \<open>unset_panics\<close>, \<open>bidirectional_misses_ancestors\<close>, \<open>string_resource_is_changed\<close>,
  \<open>nul_before_digit_is_misread\<close>, those of \<open>View_Edges\<close>, and those of the router and the graph) evaluate the model on a small input.

  \<^bold>\<open>Not modelled.\<close> Other threads and the executor, whose runtime does the work; events, classes and styles, macros over token trees, typed
  builders of elements and attributes, and handlers over axum, which are calls of other code; wrappers that only
  forward. Views have plain attributes and no attributes from outside; \<open>EitherKeepAlive\<close>, templates and asynchronous
  hydration are left out. The round trip is stated for views of common tags that stand where the parser leaves
  them (\<open>plain_view\<close>, \<open>well_nested\<close>), since a browser moves others. A suspended view whose future gives nothing, a
  write guard dropped by a panic and guards that outlive the closure they were taken in are left out. Planned next: \<open>resolve_path\<close>, typed params and the \<open>path!\<close> macro beside the routes; selectors, immediate
  effects, async derived values and actions on the reactive graph and the owners; configuration.
\<close>

end
